(* ===== verification/Prelude.thy ===== *)
theory Prelude
  imports Main "HOL-Library.Word" "HOL-Library.Monad_Syntax"
begin

text \<open>
  Shared vocabulary of the development: the machine types of \<^verbatim>\<open>rtdef.h\<close>, the
  reading of control flow as an \<open>option\<close>, and the generic facts on options, words and
  lists that the component theories use.

  A kernel operation is a function into \<open>option\<close>. \<open>Some\<close> carries the state in which
  the C function returns. \<open>None\<close> stands for every way in which it does not: an
  \<^verbatim>\<open>RT_ASSERT\<close> that fails (its handler is an endless loop, \<^verbatim>\<open>rtdebug.h\<close>), a loop
  that never ends, a read through a null pointer, an array access outside its bounds, or a
  list operation that would corrupt the links of another list.
\<close>

unbundle bit_operations_syntax

subsection \<open>Machine types\<close>

type_synonym u8 = "8 word"
type_synonym u16 = "16 word"
type_synonym u32 = "32 word"

text \<open>\<^verbatim>\<open>rt_err_t\<close> is a signed long; its values are the small constants below.\<close>

type_synonym rt_err_t = int

definition RT_EOK :: rt_err_t where "RT_EOK = 0"
definition RT_ERROR :: rt_err_t where "RT_ERROR = 1"
definition RT_ETIMEOUT :: rt_err_t where "RT_ETIMEOUT = 2"
definition RT_EFULL :: rt_err_t where "RT_EFULL = 3"
definition RT_EEMPTY :: rt_err_t where "RT_EEMPTY = 4"
definition RT_ENOMEM :: rt_err_t where "RT_ENOMEM = 5"
definition RT_ENOSYS :: rt_err_t where "RT_ENOSYS = 6"
definition RT_EBUSY :: rt_err_t where "RT_EBUSY = 7"

lemmas rt_errs = RT_EOK_def RT_ERROR_def RT_ETIMEOUT_def RT_EFULL_def RT_EEMPTY_def RT_ENOMEM_def
  RT_ENOSYS_def RT_EBUSY_def

definition RT_TICK_MAX :: u32 where "RT_TICK_MAX = 0xffffffff"
definition RT_ALIGN_SIZE :: u32 where "RT_ALIGN_SIZE = 8"

definition RT_ALIGN :: "u32 \<Rightarrow> u32 \<Rightarrow> u32" where
  "RT_ALIGN sz align = (sz + align - 1) AND NOT (align - 1)"

definition RT_ALIGN_DOWN :: "u32 \<Rightarrow> u32 \<Rightarrow> u32" where
  "RT_ALIGN_DOWN sz align = sz AND NOT (align - 1)"

subsection \<open>Control that does not come back\<close>

definition rt_assert :: "bool \<Rightarrow> 's \<Rightarrow> 's option" where
  "rt_assert b s = (if b then Some s else None)"

lemma rt_assert_Some [simp]: "rt_assert b s = Some t \<longleftrightarrow> b \<and> s = t"
  by (auto simp: rt_assert_def)

lemma rt_assert_bind_Some [simp]:
  "Option.bind (rt_assert b s) f = Some t \<longleftrightarrow> b \<and> f s = Some t"
  by (auto simp: rt_assert_def)

lemma bind_SomeE:
  assumes "Option.bind m f = Some y"
  obtains x where "m = Some x" and "f x = Some y"
  using assms by (cases m) auto

lemma bind_ex_Some:
  assumes "m = Some x" and "\<exists>y. f x = Some y"
  shows "\<exists>y. Option.bind m f = Some y"
  using assms by simp

subsection \<open>Bits of words\<close>

lemma bit_or_mask [simp]:
  "n < LENGTH('a) \<Longrightarrow> bit (w OR 2 ^ n :: 'a::len word) k \<longleftrightarrow> bit w k \<or> k = n"
  by (auto simp: bit_or_iff bit_exp_iff)

lemma bit_and_not_mask [simp]:
  "n < LENGTH('a) \<Longrightarrow> bit (w AND NOT (2 ^ n) :: 'a::len word) k \<longleftrightarrow> bit w k \<and> k \<noteq> n"
  by (auto simp: bit_and_iff bit_not_iff bit_exp_iff dest: bit_imp_le_length)

lemma word_neq_0_bit: "(w :: 'a::len word) \<noteq> 0 \<longleftrightarrow> (\<exists>n < LENGTH('a). bit w n)"
  by (metis bit_0_eq bit_word_eqI bot_apply bot_bool_def)

lemma word_eq_0_bit: "(w :: 'a::len word) = 0 \<longleftrightarrow> (\<forall>n < LENGTH('a). \<not> bit w n)"
  using word_neq_0_bit by auto

text \<open>Rounding to multiples of 8.\<close>

lemma and_not_mask_push: "(w :: 'a::len word) AND NOT (mask n) = push_bit n (drop_bit n w)"
  by (rule bit_word_eqI) (auto simp: bit_simps)

lemma unat_align_down: "unat ((w::u32) AND - 8) = unat w div 8 * 8"
proof -
  have "NOT (mask 3 :: u32) = - 8" by (simp add: mask_eq_exp_minus_1)
  then have "w AND - 8 = push_bit 3 (drop_bit 3 w)" using and_not_mask_push [of w 3] by (simp only:)
  then have "w AND - 8 = (w div 8) * 8" by (simp add: push_bit_eq_mult drop_bit_eq_div)
  moreover have "unat w < 2 ^ LENGTH(32)" by (rule unsigned_less)
  then have "unat w div 8 * 8 < 2 ^ 32" by simp
  ultimately show ?thesis by (simp add: unat_word_ariths unat_div)
qed

lemma RT_ALIGN_dvd: "8 dvd unat (RT_ALIGN w RT_ALIGN_SIZE)"
  by (simp add: RT_ALIGN_def RT_ALIGN_SIZE_def unat_align_down)

lemma RT_ALIGN_unat:
  "unat w \<le> 2 ^ 32 - 8 \<Longrightarrow> unat (RT_ALIGN w RT_ALIGN_SIZE) = (unat w + 7) div 8 * 8"
  by (simp add: RT_ALIGN_def RT_ALIGN_SIZE_def unat_align_down unat_word_ariths)

lemma RT_ALIGN_ge: "unat w \<le> 2 ^ 32 - 8 \<Longrightarrow> unat w \<le> unat (RT_ALIGN w RT_ALIGN_SIZE)"
  by (simp add: RT_ALIGN_unat)

lemma RT_ALIGN_overflow:
  assumes "0xfffffff8 < w" shows "RT_ALIGN w RT_ALIGN_SIZE = 0"
proof -
  have w: "0xfffffff8 < unat w" using assms by (simp add: word_less_nat_alt)
  have "unat w < 2 ^ LENGTH(32)" by (rule unsigned_less)
  then have "(7 + unat w) mod 2 ^ 32 = unat w + 7 - 2 ^ 32" using w by (simp add: mod_if)
  then have "unat (7 + w) < 8" using w \<open>unat w < 2 ^ LENGTH(32)\<close> by (simp add: unat_word_ariths)
  then have "unat (RT_ALIGN w RT_ALIGN_SIZE) = 0" by (simp add: RT_ALIGN_def RT_ALIGN_SIZE_def unat_align_down)
  then show ?thesis by (simp add: unat_eq_zero)
qed

text \<open>A 16-bit number in 32 bits.\<close>

lemma unat_small: "x < 2 ^ 32 \<Longrightarrow> unat (word_of_nat x :: u32) = x"
  by (simp add: unat_of_nat take_bit_nat_eq_self)

lemma unat_ucast_16 [simp]: "unat (ucast (w :: u16) :: u32) = unat w"
proof -
  have "unat w < 2 ^ LENGTH(16)" by (rule unsigned_less)
  then have "unat w < 2 ^ 32" by simp
  then show ?thesis by (simp add: unsigned_ucast_eq take_bit_nat_eq_self)
qed

subsection \<open>Lists without repetition\<close>

lemma remove1_split:
  "x \<notin> set ys \<Longrightarrow> remove1 x (ys @ x # zs) = ys @ zs"
  by (simp add: remove1_append)

lemma takeWhile_dropWhile_insert_mem:
  "set (takeWhile P xs @ x # dropWhile P xs) = insert x (set xs)"
  by (metis Un_insert_right list.simps(15) set_append takeWhile_dropWhile_id)

end
