(* ===== verification/Rt_List.thy ===== *)
theory Rt_List
  imports Prelude
begin

text \<open>
  The intrusive doubly linked lists of \<^verbatim>\<open>include/rtservice.h\<close>, at two levels.

  The pointer level keeps the two fields of every \<^verbatim>\<open>rt_list_node\<close> as maps from nodes to
  nodes and translates the inline functions assignment by assignment. A node is the head of a
  list (\<open>Head h\<close>) or the node embedded in an object (\<open>Node n\<close>).

  The list level, used by the rest of the development, keeps the sequence of each head and,
  for each node, the head it is linked under. Its operations are partial: inserting or
  initialising a node that is already linked, which would break the links of the list the
  node is on, is \<open>None\<close>.

  The refinement between them is the contract \<open>list_implementation\<close> below, which the
  pointer operations satisfy.
\<close>

subsection \<open>Pointer level\<close>

datatype ('h, 'n) node = Head 'h | Node 'n

record ('h, 'n) links =
  nxt :: "('h, 'n) node \<Rightarrow> ('h, 'n) node"
  prv :: "('h, 'n) node \<Rightarrow> ('h, 'n) node"

definition set_nxt :: "('h, 'n) node \<Rightarrow> ('h, 'n) node \<Rightarrow> ('h, 'n) links \<Rightarrow> ('h, 'n) links" where
  "set_nxt x y m = m\<lparr>nxt := (nxt m)(x := y)\<rparr>"

definition set_prv :: "('h, 'n) node \<Rightarrow> ('h, 'n) node \<Rightarrow> ('h, 'n) links \<Rightarrow> ('h, 'n) links" where
  "set_prv x y m = m\<lparr>prv := (prv m)(x := y)\<rparr>"

definition rt_list_init :: "('h, 'n) node \<Rightarrow> ('h, 'n) links \<Rightarrow> ('h, 'n) links" where
  "rt_list_init l m = set_nxt l l (set_prv l l m)"

definition rt_list_insert_after ::
  "('h, 'n) node \<Rightarrow> ('h, 'n) node \<Rightarrow> ('h, 'n) links \<Rightarrow> ('h, 'n) links" where
  "rt_list_insert_after l n m =
     (let m = set_prv (nxt m l) n m;
          m = set_nxt n (nxt m l) m;
          m = set_nxt l n m
      in set_prv n l m)"

definition rt_list_insert_before ::
  "('h, 'n) node \<Rightarrow> ('h, 'n) node \<Rightarrow> ('h, 'n) links \<Rightarrow> ('h, 'n) links" where
  "rt_list_insert_before l n m =
     (let m = set_nxt (prv m l) n m;
          m = set_prv n (prv m l) m;
          m = set_prv l n m
      in set_nxt n l m)"

definition rt_list_remove :: "('h, 'n) node \<Rightarrow> ('h, 'n) links \<Rightarrow> ('h, 'n) links" where
  "rt_list_remove n m =
     (let m = set_prv (nxt m n) (prv m n) m;
          m = set_nxt (prv m n) (nxt m n) m;
          m = set_prv n n m
      in set_nxt n n m)"

definition rt_list_isempty :: "('h, 'n) node \<Rightarrow> ('h, 'n) links \<Rightarrow> bool" where
  "rt_list_isempty l m \<longleftrightarrow> nxt m l = l"

subsection \<open>List level\<close>

record ('h, 'n) lists =
  elems :: "'h \<Rightarrow> 'n list"
  onlist :: "'n \<Rightarrow> 'h option"

definition l_init_head :: "'h \<Rightarrow> ('h, 'n) lists \<Rightarrow> ('h, 'n) lists option" where
  "l_init_head h L = (if elems L h = [] then Some L else None)"

definition l_init_node :: "'n \<Rightarrow> ('h, 'n) lists \<Rightarrow> ('h, 'n) lists option" where
  "l_init_node n L = (if onlist L n = None then Some L else None)"

definition l_insert_last :: "'h \<Rightarrow> 'n \<Rightarrow> ('h, 'n) lists \<Rightarrow> ('h, 'n) lists option" where
  "l_insert_last h n L =
     (if onlist L n = None
      then Some (L\<lparr>elems := (elems L)(h := elems L h @ [n]), onlist := (onlist L)(n \<mapsto> h)\<rparr>)
      else None)"

definition l_insert_first :: "'h \<Rightarrow> 'n \<Rightarrow> ('h, 'n) lists \<Rightarrow> ('h, 'n) lists option" where
  "l_insert_first h n L =
     (if onlist L n = None
      then Some (L\<lparr>elems := (elems L)(h := n # elems L h), onlist := (onlist L)(n \<mapsto> h)\<rparr>)
      else None)"

definition l_insert_before :: "'n \<Rightarrow> 'n \<Rightarrow> ('h, 'n) lists \<Rightarrow> ('h, 'n) lists option" where
  "l_insert_before x n L =
     (case onlist L x of
        None \<Rightarrow> None
      | Some h \<Rightarrow>
          if onlist L n = None
          then Some (L\<lparr>elems := (elems L)(h := takeWhile (\<lambda>y. y \<noteq> x) (elems L h) @
                                 n # dropWhile (\<lambda>y. y \<noteq> x) (elems L h)),
                       onlist := (onlist L)(n \<mapsto> h)\<rparr>)
          else None)"

definition l_remove :: "'n \<Rightarrow> ('h, 'n) lists \<Rightarrow> ('h, 'n) lists" where
  "l_remove n L =
     (case onlist L n of
        None \<Rightarrow> L
      | Some h \<Rightarrow> L\<lparr>elems := (elems L)(h := remove1 n (elems L h)),
                     onlist := (onlist L)(n := None)\<rparr>)"

text \<open>The fields \<^verbatim>\<open>next\<close> and \<^verbatim>\<open>prev\<close> of a head or node: a node on no list points to
  itself, the end of a list to its head.\<close>

definition l_next :: "('h, 'n) lists \<Rightarrow> ('h, 'n) node \<Rightarrow> ('h, 'n) node" where
  "l_next L x =
     (case x of
        Head h \<Rightarrow> (case elems L h of [] \<Rightarrow> Head h | n # _ \<Rightarrow> Node n)
      | Node n \<Rightarrow>
          (case onlist L n of
             None \<Rightarrow> Node n
           | Some h \<Rightarrow> (case dropWhile (\<lambda>y. y \<noteq> n) (elems L h) of
                          _ # y # _ \<Rightarrow> Node y
                        | _ \<Rightarrow> Head h)))"

definition l_prev :: "('h, 'n) lists \<Rightarrow> ('h, 'n) node \<Rightarrow> ('h, 'n) node" where
  "l_prev L x =
     (case x of
        Head h \<Rightarrow> (if elems L h = [] then Head h else Node (last (elems L h)))
      | Node n \<Rightarrow>
          (case onlist L n of
             None \<Rightarrow> Node n
           | Some h \<Rightarrow> (let ys = takeWhile (\<lambda>y. y \<noteq> n) (elems L h)
                        in if ys = [] then Head h else Node (last ys))))"

text \<open>Every node is on at most one list, at most once, and knows which.\<close>

definition wf_lists :: "('h, 'n) lists \<Rightarrow> bool" where
  "wf_lists L \<longleftrightarrow>
     (\<forall>h. distinct (elems L h)) \<and> (\<forall>h n. n \<in> set (elems L h) \<longleftrightarrow> onlist L n = Some h)"

lemma wf_listsD:
  assumes "wf_lists L"
  shows "distinct (elems L h)" and "n \<in> set (elems L h) \<longleftrightarrow> onlist L n = Some h"
  using assms by (auto simp: wf_lists_def)

lemma wf_lists_empty [simp]: "wf_lists \<lparr>elems = \<lambda>_. [], onlist = \<lambda>_. None\<rparr>"
  by (simp add: wf_lists_def)

lemma wf_l_insert_last:
  "wf_lists L \<Longrightarrow> l_insert_last h n L = Some L' \<Longrightarrow> wf_lists L'"
  by (auto simp: wf_lists_def l_insert_last_def split: if_splits)

lemma wf_l_insert_first:
  "wf_lists L \<Longrightarrow> l_insert_first h n L = Some L' \<Longrightarrow> wf_lists L'"
  by (auto simp: wf_lists_def l_insert_first_def split: if_splits)

lemma l_insert_before_Some:
  assumes "wf_lists L"
  shows "l_insert_before x n L = Some L' \<longleftrightarrow>
    (\<exists>h ys zs. onlist L x = Some h \<and> onlist L n = None \<and> elems L h = ys @ x # zs \<and> x \<notin> set ys \<and>
      L' = L\<lparr>elems := (elems L)(h := ys @ n # x # zs), onlist := (onlist L)(n \<mapsto> h)\<rparr>)"
    (is "?l = ?r")
proof
  assume ?l
  then obtain h where h: "onlist L x = Some h" and n: "onlist L n = None"
    by (auto simp: l_insert_before_def split: option.splits if_splits)
  then have "x \<in> set (elems L h)" using assms by (simp add: wf_listsD)
  then obtain ys zs where "elems L h = ys @ x # zs" and "x \<notin> set ys"
    by (meson split_list_first)
  moreover from this have "takeWhile (\<lambda>y. y \<noteq> x) (elems L h) = ys"
    and "dropWhile (\<lambda>y. y \<noteq> x) (elems L h) = x # zs"
    by (auto simp: takeWhile_append dropWhile_append takeWhile_eq_all_conv)
  ultimately show ?r using \<open>?l\<close> h n by (auto simp: l_insert_before_def)
next
  assume ?r
  then show ?l
    by (auto simp: l_insert_before_def takeWhile_append dropWhile_append takeWhile_eq_all_conv)
qed

text \<open>Insertion before a member whose place is known.\<close>

lemma l_insert_before_at:
  assumes wf: "wf_lists L" and h: "elems L h = ys @ x # zs"
  shows "l_insert_before x n L = Some L' \<longleftrightarrow> onlist L n = None \<and>
    L' = L\<lparr>elems := (elems L)(h := ys @ n # x # zs), onlist := (onlist L)(n \<mapsto> h)\<rparr>"
proof -
  have x: "onlist L x = Some h" "x \<notin> set ys" "x \<notin> set zs"
    using wf_listsD(1) [OF wf, of h] wf_listsD(2) [OF wf, of x h] h by auto
  have "h' = h \<and> us = ys \<and> vs = zs"
    if "onlist L x = Some h'" "elems L h' = us @ x # vs" "x \<notin> set us" for h' us vs
  proof -
    have "h' = h" using that x by simp
    then show ?thesis using that x h by (metis append_Cons_eq_iff)
  qed
  then show ?thesis using x h unfolding l_insert_before_Some [OF wf] by blast
qed

lemma wf_l_insert_before:
  assumes wf: "wf_lists L" and ins: "l_insert_before x n L = Some L'"
  shows "wf_lists L'"
proof -
  obtain h ys zs where L': "onlist L x = Some h" "onlist L n = None" "elems L h = ys @ x # zs"
      "L' = L\<lparr>elems := (elems L)(h := ys @ n # x # zs), onlist := (onlist L)(n \<mapsto> h)\<rparr>"
    using ins by (auto simp: l_insert_before_Some [OF wf])
  have "k \<in> set (elems L h) \<longleftrightarrow> onlist L k = Some h" for h k
    using wf by (simp add: wf_listsD)
  from this [of _ h] have "set ys = {k. onlist L k = Some h} - insert x (set zs)" "distinct (ys @ x # zs)"
    using wf_listsD(1) [OF wf, of h] by (auto simp: L'(3))
  moreover have "n \<notin> set (elems L h)" using wf L'(2) by (simp add: wf_listsD)
  ultimately show ?thesis
    using wf wf_listsD(2) [OF wf, of _ h] unfolding wf_lists_def
    by (auto simp: L')
qed

lemma wf_l_remove: "wf_lists L \<Longrightarrow> wf_lists (l_remove n L)"
  by (auto simp: wf_lists_def l_remove_def split: option.splits)

lemma wf_l_init: "wf_lists L \<Longrightarrow> l_init_node n L = Some L' \<Longrightarrow> wf_lists L'"
  by (auto simp: l_init_node_def split: if_splits)

lemmas wf_lists_ops = wf_l_insert_last wf_l_insert_first wf_l_insert_before wf_l_remove wf_l_init

text \<open>What the operations do to the head of a node and to the sequences.\<close>

lemma onlist_l_remove [simp]:
  "onlist (l_remove n L) = (onlist L)(n := None)"
  by (auto simp: l_remove_def split: option.splits)

lemma elems_l_remove:
  "wf_lists L \<Longrightarrow> elems (l_remove n L) h = remove1 n (elems L h)"
  by (auto simp: l_remove_def wf_listsD remove1_idem split: option.splits)

lemma l_remove_unlinked [simp]: "onlist L n = None \<Longrightarrow> l_remove n L = L"
  by (simp add: l_remove_def)

lemma l_insert_last_Some:
  "l_insert_last h n L = Some L' \<longleftrightarrow>
     onlist L n = None \<and>
     L' = L\<lparr>elems := (elems L)(h := elems L h @ [n]), onlist := (onlist L)(n \<mapsto> h)\<rparr>"
  by (auto simp: l_insert_last_def)

lemma l_insert_first_Some:
  "l_insert_first h n L = Some L' \<longleftrightarrow>
     onlist L n = None \<and>
     L' = L\<lparr>elems := (elems L)(h := n # elems L h), onlist := (onlist L)(n \<mapsto> h)\<rparr>"
  by (auto simp: l_insert_first_def)

subsection \<open>The pointer level refines the list level\<close>

text \<open>\<open>lpath m x xs y\<close>: following \<open>nxt\<close> from \<open>x\<close> visits exactly \<open>xs\<close> and arrives
  at \<open>y\<close>, and \<open>prv\<close> leads back the same way.\<close>

primrec lpath ::
  "('h, 'n) links \<Rightarrow> ('h, 'n) node \<Rightarrow> ('h, 'n) node list \<Rightarrow> ('h, 'n) node \<Rightarrow> bool" where
  "lpath m x [] y \<longleftrightarrow> nxt m x = y \<and> prv m y = x"
| "lpath m x (a # as) y \<longleftrightarrow> nxt m x = a \<and> prv m a = x \<and> lpath m a as y"

lemma lpath_append:
  "lpath m x (as @ a # bs) y \<longleftrightarrow> lpath m x as a \<and> lpath m a bs y"
  by (induction as arbitrary: x) auto

lemma lpath_nxt: "lpath m x as y \<Longrightarrow> nxt m x = (case as of [] \<Rightarrow> y | a # _ \<Rightarrow> a)"
  by (cases as) auto

lemma lpath_prv: "lpath m x as y \<Longrightarrow> prv m y = (if as = [] then x else last as)"
  by (induction as arbitrary: x) auto

lemma lpath_set_nxt:
  "z \<notin> insert x (set as) \<Longrightarrow> lpath (set_nxt z v m) x as y = lpath m x as y"
  by (induction as arbitrary: x) (auto simp: set_nxt_def)

lemma lpath_set_prv:
  "z \<notin> insert y (set as) \<Longrightarrow> lpath (set_prv z v m) x as y = lpath m x as y"
  by (induction as arbitrary: x) (auto simp: set_prv_def)

text \<open>\<open>rep I m L\<close>: the links \<open>m\<close> are those of the lists \<open>L\<close>, where \<open>I\<close> holds the nodes that
  have been initialised; one that is on no list points to itself.\<close>

definition rep :: "'n set \<Rightarrow> ('h, 'n) links \<Rightarrow> ('h, 'n) lists \<Rightarrow> bool" where
  "rep I m L \<longleftrightarrow> wf_lists L \<and>
     (\<forall>h. lpath m (Head h) (map Node (elems L h)) (Head h)) \<and>
     (\<forall>n. onlist L n \<noteq> None \<longrightarrow> n \<in> I) \<and>
     (\<forall>n \<in> I. onlist L n = None \<longrightarrow> nxt m (Node n) = Node n \<and> prv m (Node n) = Node n)"

lemma rep_lpath: "rep I m L \<Longrightarrow> lpath m (Head h) (map Node (elems L h)) (Head h)"
  by (simp add: rep_def)

lemma rep_wf: "rep I m L \<Longrightarrow> wf_lists L"
  by (simp add: rep_def)

lemma set_nxt_sel [simp]:
  "nxt (set_nxt z v m) = (nxt m)(z := v)" "prv (set_nxt z v m) = prv m"
  "prv (set_prv z v m) = (prv m)(z := v)" "nxt (set_prv z v m) = nxt m"
  by (simp_all add: set_nxt_def set_prv_def)

text \<open>Two neighbours \<open>p\<close> and \<open>q\<close> of one list: both insertions link the new node between
  them, and no other path changes.\<close>

definition link_between ::
  "('h, 'n) node \<Rightarrow> ('h, 'n) node \<Rightarrow> ('h, 'n) node \<Rightarrow> ('h, 'n) links \<Rightarrow> ('h, 'n) links" where
  "link_between p n q m = set_nxt p n (set_nxt n q (set_prv q n (set_prv n p m)))"

lemma insert_before_link:
  assumes "n \<noteq> l" "n \<noteq> prv m l"
  shows "rt_list_insert_before l n m = link_between (prv m l) n l m"
  using assms
  by (intro links.equality)
     (auto simp: rt_list_insert_before_def link_between_def Let_def fun_eq_iff)

lemma insert_after_link:
  assumes "n \<noteq> l" "n \<noteq> nxt m l"
  shows "rt_list_insert_after l n m = link_between l n (nxt m l) m"
  using assms
  by (intro links.equality)
     (auto simp: rt_list_insert_after_def link_between_def Let_def fun_eq_iff)

lemma lpath_link_between:
  assumes "lpath m x (as @ bs) y" "distinct (as @ bs)" "x \<notin> set (as @ bs)" "y \<notin> set (as @ bs)"
    and "n \<notin> set (as @ bs)" "n \<noteq> x" "n \<noteq> y"
  shows "lpath (link_between (last (x # as)) n (hd (bs @ [y])) m) x (as @ n # bs) y"
  using assms
proof (induction as arbitrary: x)
  case Nil
  show ?case
  proof (cases bs)
    case Nil
    with \<open>n \<noteq> x\<close> \<open>n \<noteq> y\<close> show ?thesis by (simp add: link_between_def)
  next
    case (Cons b bs')
    with Nil.prems have "lpath (link_between x n b m) b bs' y"
      unfolding link_between_def by (subst lpath_set_nxt lpath_set_prv; auto)+
    with Cons Nil.prems show ?thesis by (auto simp: link_between_def)
  qed
next
  case (Cons a as')
  let ?m = "link_between (last (a # as')) n (hd (bs @ [y])) m"
  have "lpath ?m a (as' @ n # bs) y"
    using Cons.prems by (intro Cons.IH) auto
  moreover have "last (a # as') \<noteq> x" "hd (bs @ [y]) \<noteq> a"
    using Cons.prems by (auto, cases bs, auto)
  ultimately show ?case
    using Cons.prems by (auto simp: link_between_def)
qed

lemma rep_link_between:
  assumes rep: "rep I m L" and n: "n \<in> I" "onlist L n = None"
    and h: "elems L h = as @ bs"
  shows "rep I (link_between (last (Head h # map Node as)) (Node n) (hd (map Node bs @ [Head h])) m)
           (L\<lparr>elems := (elems L)(h := as @ n # bs), onlist := (onlist L)(n \<mapsto> h)\<rparr>)"
    (is "rep I ?m ?L")
proof -
  define p where "p = last (Head h # map Node as)"
  define q where "q = hd (map Node bs @ [Head h])"
  have wf: "wf_lists L" using rep by (rule rep_wf)
  have fresh: "n \<notin> set (elems L h')" for h' using wf n(2) by (simp add: wf_listsD)
  have mem: "k \<in> set as \<or> k \<in> set bs \<longleftrightarrow> onlist L k = Some h" for k
    using wf_listsD(2) [OF wf, of k h] by (simp add: h)
  have nf: "n \<notin> set as" "n \<notin> set bs" using fresh [of h] by (auto simp: h)
  have p: "p = Head h \<or> (\<exists>a. p = Node a \<and> onlist L a = Some h)"
    using wf_listsD(2) [OF wf, of _ h] h by (cases as rule: rev_cases) (auto simp: p_def)
  have q: "q = Head h \<or> (\<exists>a. q = Node a \<and> onlist L a = Some h)"
    using wf_listsD(2) [OF wf, of _ h] h by (cases bs) (auto simp: q_def)
  have "lpath ?m (Head h) (map Node as @ Node n # map Node bs) (Head h)"
    using rep_lpath [OF rep, of h] wf_listsD(1) [OF wf, of h] fresh [of h] h
    by (intro lpath_link_between) (auto simp: distinct_map inj_on_def)
  moreover have "lpath ?m (Head h') (map Node (elems L h')) (Head h')" if "h' \<noteq> h" for h'
  proof -
    have "z \<notin> insert (Head h') (set (map Node (elems L h')))"
      if "z = Node n \<or> z = p \<or> z = q" for z
      using that p q fresh [of h'] \<open>h' \<noteq> h\<close> by (auto simp: wf_listsD(2) [OF wf])
    then show ?thesis
      unfolding link_between_def p_def [symmetric] q_def [symmetric]
      by (simp add: lpath_set_nxt lpath_set_prv rep_lpath [OF rep])
  qed
  moreover have "wf_lists ?L"
    using wf n(2) nf mem wf_listsD(1) [OF wf, of h] h unfolding wf_lists_def by auto
  moreover have "nxt ?m (Node k) = Node k \<and> prv ?m (Node k) = Node k"
    if "k \<in> I" "onlist L k = None" "k \<noteq> n" for k
    using rep that p q unfolding rep_def link_between_def p_def [symmetric] q_def [symmetric]
    by auto
  ultimately show ?thesis
    using rep n by (auto simp: rep_def)
qed

lemma rep_fresh_node:
  "rep I m L \<Longrightarrow> onlist L n = None \<Longrightarrow> n \<notin> set (elems L h)"
  by (simp add: rep_def wf_listsD)

lemma rep_insert_last:
  assumes rep: "rep I m L" and n: "n \<in> I" and ins: "l_insert_last h n L = Some L'"
  shows "rep I (rt_list_insert_before (Head h) (Node n) m) L'"
proof -
  have "prv m (Head h) = last (Head h # map Node (elems L h))"
    using lpath_prv [OF rep_lpath [OF rep, of h]] by simp
  moreover have "Node n \<noteq> last (Head h # map Node (elems L h))"
    using rep_fresh_node [OF rep, of n h] ins
    by (cases "elems L h" rule: rev_cases) (auto simp: l_insert_last_Some)
  ultimately show ?thesis
    using rep_link_between [OF rep n, where h = h and as = "elems L h" and bs = "[]"] ins
    by (auto simp: insert_before_link l_insert_last_Some)
qed

lemma rep_insert_first:
  assumes rep: "rep I m L" and n: "n \<in> I" and ins: "l_insert_first h n L = Some L'"
  shows "rep I (rt_list_insert_after (Head h) (Node n) m) L'"
proof -
  have "nxt m (Head h) = hd (map Node (elems L h) @ [Head h])"
    using lpath_nxt [OF rep_lpath [OF rep, of h]] by (cases "elems L h") auto
  moreover have "Node n \<noteq> hd (map Node (elems L h) @ [Head h])"
    using rep_fresh_node [OF rep, of n h] ins
    by (cases "elems L h") (auto simp: l_insert_first_Some)
  ultimately show ?thesis
    using rep_link_between [OF rep n, where h = h and as = "[]" and bs = "elems L h"] ins
    by (auto simp: insert_after_link l_insert_first_Some)
qed

lemma rep_insert_before:
  assumes rep: "rep I m L" and n: "n \<in> I" and ins: "l_insert_before x n L = Some L'"
  shows "rep I (rt_list_insert_before (Node x) (Node n) m) L'"
proof -
  obtain h ys zs where L': "onlist L x = Some h" "onlist L n = None" "elems L h = ys @ x # zs"
      "L' = L\<lparr>elems := (elems L)(h := ys @ n # x # zs), onlist := (onlist L)(n \<mapsto> h)\<rparr>"
    using ins by (auto simp: l_insert_before_Some [OF rep_wf [OF rep]])
  have "lpath m (Head h) (map Node ys) (Node x)"
    using rep_lpath [OF rep, of h] by (simp add: L'(3) lpath_append)
  then have "prv m (Node x) = last (Head h # map Node ys)" by (simp add: lpath_prv)
  moreover have "Node n \<noteq> last (Head h # map Node ys)" "n \<noteq> x"
    using rep_fresh_node [OF rep L'(2), of h] L'
    by (cases ys rule: rev_cases; auto)+
  ultimately show ?thesis
    using rep_link_between [OF rep n L'(2), where h = h and as = ys and bs = "x # zs"] L'
    by (simp add: insert_before_link)
qed

lemma lpath_unlink:
  assumes "lpath m x (as @ n # bs) y" "distinct (as @ n # bs)"
    and "x \<notin> set (as @ n # bs)" "y \<notin> set (as @ n # bs)"
  shows "lpath (set_nxt n n (set_prv n n (set_nxt (prv m n) (nxt m n) (set_prv (nxt m n) (prv m n) m))))
           x (as @ bs) y"
  using assms
proof (induction as arbitrary: x)
  case Nil
  then show ?case
  proof (cases bs)
    case Nil
    with Nil.prems show ?thesis by auto
  next
    case (Cons b bs')
    with Nil.prems have "lpath (set_nxt n n (set_prv n n (set_nxt x b (set_prv b x m)))) b bs' y"
      by (subst lpath_set_nxt lpath_set_prv; auto)+
    with Cons Nil.prems show ?thesis by auto
  qed
next
  case (Cons a as')
  let ?m = "set_nxt n n (set_prv n n (set_nxt (prv m n) (nxt m n) (set_prv (nxt m n) (prv m n) m)))"
  have "lpath ?m a (as' @ bs) y" using Cons.prems by (intro Cons.IH) auto
  moreover have "prv m n \<noteq> x" "nxt m n \<noteq> a"
  proof -
    have "lpath m a as' n" "lpath m n bs y" using Cons.prems by (auto simp: lpath_append)
    then show "prv m n \<noteq> x" "nxt m n \<noteq> a"
      using Cons.prems(2-4) by (auto simp: lpath_prv lpath_nxt split: list.splits if_splits)
  qed
  ultimately show ?case using Cons.prems by auto
qed

lemma rep_remove:
  assumes rep: "rep I m L" and n: "n \<in> I"
  shows "rep I (rt_list_remove (Node n) m) (l_remove n L)"
proof (cases "onlist L n")
  case None
  then have "rt_list_remove (Node n) m = m"
    using rep n by (intro links.equality) (auto simp: rep_def rt_list_remove_def Let_def fun_eq_iff)
  with None rep show ?thesis by simp
next
  case (Some h)
  have wf: "wf_lists L" using rep by (rule rep_wf)
  obtain as bs where h: "elems L h = as @ n # bs"
    using Some wf_listsD(2) [OF wf, of n h] by (meson split_list)
  have dist: "distinct (as @ n # bs)" using wf_listsD(1) [OF wf, of h] by (simp add: h)
  define p where "p = prv m (Node n)"
  define q where "q = nxt m (Node n)"
  let ?m = "set_nxt (Node n) (Node n) (set_prv (Node n) (Node n) (set_nxt p q (set_prv q p m)))"
  have path: "lpath m (Head h) (map Node as) (Node n)" "lpath m (Node n) (map Node bs) (Head h)"
    using rep_lpath [OF rep, of h] by (auto simp: h lpath_append)
  have pq: "p = last (Head h # map Node as)" "q = hd (map Node bs @ [Head h])"
    using lpath_prv [OF path(1)] lpath_nxt [OF path(2)] unfolding p_def q_def
    by (auto, cases bs, auto)
  have p: "p = Head h \<or> (\<exists>a. p = Node a \<and> a \<noteq> n \<and> onlist L a = Some h)"
    using wf_listsD(2) [OF wf, of _ h] h dist by (cases as rule: rev_cases) (auto simp: pq)
  have q: "q = Head h \<or> (\<exists>a. q = Node a \<and> a \<noteq> n \<and> onlist L a = Some h)"
    using wf_listsD(2) [OF wf, of _ h] h dist by (cases bs) (auto simp: pq)
  have m': "rt_list_remove (Node n) m = ?m"
    using p q unfolding p_def q_def
    by (intro links.equality) (auto simp: rt_list_remove_def Let_def fun_eq_iff)
  have on: "lpath ?m (Head h) (map Node (as @ bs)) (Head h)"
    using rep_lpath [OF rep, of h] dist unfolding p_def q_def map_append
    by (intro lpath_unlink) (auto simp: h distinct_map inj_on_def)
  have off: "lpath ?m (Head h') (map Node (elems L h')) (Head h')" if "h' \<noteq> h" for h'
  proof -
    have "z \<notin> insert (Head h') (set (map Node (elems L h')))" if "z = Node n \<or> z = p \<or> z = q" for z
      using that p q Some \<open>h' \<noteq> h\<close> by (auto simp: wf_listsD(2) [OF wf])
    then show ?thesis by (simp add: lpath_set_nxt lpath_set_prv rep_lpath [OF rep])
  qed
  have self: "nxt ?m (Node k) = Node k \<and> prv ?m (Node k) = Node k"
    if "k \<in> I" "k = n \<or> onlist L k = None" for k
    using rep that p q by (auto simp: rep_def)
  define m2 where "m2 = ?m"
  have L': "l_remove n L = L\<lparr>elems := (elems L)(h := as @ bs), onlist := (onlist L)(n := None)\<rparr>"
    using Some dist by (simp add: l_remove_def h remove1_split)
  show ?thesis
    using wf_l_remove [OF wf, of n] on off self rep
    unfolding m' m2_def [symmetric] rep_def L' by auto
qed

lemma rep_init_node:
  assumes rep: "rep I m L" and ini: "l_init_node n L = Some L'"
  shows "rep (insert n I) (rt_list_init (Node n) m) L'"
proof -
  have L': "L' = L" "onlist L n = None" using ini by (auto simp: l_init_node_def split: if_splits)
  have "lpath (rt_list_init (Node n) m) (Head h) (map Node (elems L h)) (Head h)" for h
    unfolding rt_list_init_def
    using rep_fresh_node [OF rep L'(2), of h] rep_lpath [OF rep, of h]
    by (simp add: lpath_set_nxt lpath_set_prv image_iff)
  then show ?thesis using rep L' by (auto simp: rep_def rt_list_init_def)
qed

lemma rep_isempty: "rep I m L \<Longrightarrow> rt_list_isempty (Head h) m \<longleftrightarrow> elems L h = []"
  using lpath_nxt [OF rep_lpath [of I m L h]]
  by (auto simp: rt_list_isempty_def split: list.splits)

lemma rep_first:
  "rep I m L \<Longrightarrow> elems L h = n # ns \<Longrightarrow> nxt m (Head h) = Node n"
  using lpath_nxt [OF rep_lpath [of I m L h]] by simp

text \<open>The links of the list level are those of the pointer level.\<close>

lemma rep_node_split:
  assumes rep: "rep I m L" and n: "onlist L n = Some h"
  obtains ys zs where "elems L h = ys @ n # zs" "n \<notin> set ys"
    "takeWhile (\<lambda>y. y \<noteq> n) (elems L h) = ys" "dropWhile (\<lambda>y. y \<noteq> n) (elems L h) = n # zs"
    "lpath m (Head h) (map Node ys) (Node n)" "lpath m (Node n) (map Node zs) (Head h)"
proof -
  obtain ys zs where h: "elems L h = ys @ n # zs" "n \<notin> set ys"
    using n wf_listsD(2) [OF rep_wf [OF rep], of n h] by (meson split_list_first)
  moreover from h have "takeWhile (\<lambda>y. y \<noteq> n) (elems L h) = ys"
    "dropWhile (\<lambda>y. y \<noteq> n) (elems L h) = n # zs"
    by (auto simp: takeWhile_append dropWhile_append takeWhile_eq_all_conv)
  moreover have "lpath m (Head h) (map Node ys) (Node n)" "lpath m (Node n) (map Node zs) (Head h)"
    using rep_lpath [OF rep, of h] by (auto simp: h lpath_append)
  ultimately show ?thesis by (rule that)
qed

lemma rep_next:
  assumes rep: "rep I m L" and x: "\<And>n. x = Node n \<Longrightarrow> n \<in> I"
  shows "nxt m x = l_next L x"
proof (cases x)
  case (Head h)
  then show ?thesis using lpath_nxt [OF rep_lpath [OF rep, of h]]
    by (auto simp: l_next_def split: list.splits)
next
  case (Node n)
  show ?thesis
  proof (cases "onlist L n")
    case None
    with rep x Node show ?thesis by (auto simp: rep_def l_next_def)
  next
    case (Some h)
    then show ?thesis
      by (rule rep_node_split [OF rep])
         (auto simp: Node Some l_next_def dest: lpath_nxt split: list.splits)
  qed
qed

lemma rep_prev:
  assumes rep: "rep I m L" and x: "\<And>n. x = Node n \<Longrightarrow> n \<in> I"
  shows "prv m x = l_prev L x"
proof (cases x)
  case (Head h)
  then show ?thesis using lpath_prv [OF rep_lpath [OF rep, of h]]
    by (auto simp: l_prev_def last_map)
next
  case (Node n)
  show ?thesis
  proof (cases "onlist L n")
    case None
    with rep x Node show ?thesis by (auto simp: rep_def l_prev_def)
  next
    case (Some h)
    then show ?thesis
      by (rule rep_node_split [OF rep])
         (auto simp: Node Some l_prev_def Let_def last_map dest: lpath_prv)
  qed
qed

subsection \<open>The contract of an implementation of the lists\<close>

text \<open>An implementation keeps memory states \<open>'m\<close> that represent the lists; each operation is
  simulated by the one of the list level where that one is defined. The client lemma below
  lifts the simulation to any program over the operations.\<close>

datatype ('h, 'n) list_op =
  Init 'n | Insert_last 'h 'n | Insert_first 'h 'n | Insert_before 'n 'n | Remove 'n

primrec l_exec :: "('h, 'n) list_op \<Rightarrow> ('h, 'n) lists \<Rightarrow> ('h, 'n) lists option" where
  "l_exec (Init n) L = l_init_node n L"
| "l_exec (Insert_last h n) L = l_insert_last h n L"
| "l_exec (Insert_first h n) L = l_insert_first h n L"
| "l_exec (Insert_before x n) L = l_insert_before x n L"
| "l_exec (Remove n) L = Some (l_remove n L)"

primrec op_inserts :: "('h, 'n) list_op \<Rightarrow> 'n set" where
  "op_inserts (Init n) = {}"
| "op_inserts (Insert_last h n) = {n}"
| "op_inserts (Insert_first h n) = {n}"
| "op_inserts (Insert_before x n) = {n}"
| "op_inserts (Remove n) = {n}"

primrec op_inits :: "('h, 'n) list_op \<Rightarrow> 'n set" where
  "op_inits (Init n) = {n}"
| "op_inits (Insert_last h n) = {}"
| "op_inits (Insert_first h n) = {}"
| "op_inits (Insert_before x n) = {}"
| "op_inits (Remove n) = {}"

fun l_run :: "('h, 'n) list_op list \<Rightarrow> ('h, 'n) lists \<Rightarrow> ('h, 'n) lists option" where
  "l_run [] L = Some L"
| "l_run (x # xs) L = do { L \<leftarrow> l_exec x L; l_run xs L }"

fun ops_ok :: "'n set \<Rightarrow> ('h, 'n) list_op list \<Rightarrow> bool" where
  "ops_ok I [] = True"
| "ops_ok I (x # xs) = (op_inserts x \<subseteq> I \<and> ops_ok (op_inits x \<union> I) xs)"

locale list_implementation =
  fixes represents :: "'n set \<Rightarrow> 'm \<Rightarrow> ('h, 'n) lists \<Rightarrow> bool"
    and exec :: "('h, 'n) list_op \<Rightarrow> 'm \<Rightarrow> 'm"
    and is_empty :: "'h \<Rightarrow> 'm \<Rightarrow> bool"
    and first :: "'h \<Rightarrow> 'm \<Rightarrow> 'n option"
  assumes exec_sim: "represents I m L \<Longrightarrow> op_inserts x \<subseteq> I \<Longrightarrow> l_exec x L = Some L' \<Longrightarrow>
      represents (op_inits x \<union> I) (exec x m) L'"
    and is_empty_sim: "represents I m L \<Longrightarrow> is_empty h m \<longleftrightarrow> elems L h = []"
    and first_sim: "represents I m L \<Longrightarrow> elems L h = n # ns \<Longrightarrow> first h m = Some n"
begin

lemma run_sim:
  assumes "represents I m L" "ops_ok I xs" "l_run xs L = Some L'"
  shows "\<exists>I'. I \<subseteq> I' \<and> represents I' (fold exec xs m) L'"
  using assms
proof (induction xs arbitrary: I m L)
  case (Cons x xs)
  from Cons.prems(3) obtain L1 where L1: "l_exec x L = Some L1" "l_run xs L1 = Some L'"
    by (auto simp: bind_eq_Some_conv)
  have ok: "op_inserts x \<subseteq> I" "ops_ok (op_inits x \<union> I) xs" using Cons.prems by auto
  obtain I' where "op_inits x \<union> I \<subseteq> I'" "represents I' (fold exec xs (exec x m)) L'"
    using Cons.IH [OF exec_sim [OF Cons.prems(1) ok(1) L1(1)] ok(2) L1(2)] by (elim exE conjE)
  then show ?case by auto
qed auto

lemma run_empty:
  assumes "represents I m L" "ops_ok I xs" "l_run xs L = Some L'"
  shows "is_empty h (fold exec xs m) \<longleftrightarrow> elems L' h = []"
  using run_sim [OF assms] is_empty_sim by blast

end

primrec p_exec :: "('h, 'n) list_op \<Rightarrow> ('h, 'n) links \<Rightarrow> ('h, 'n) links" where
  "p_exec (Init n) m = rt_list_init (Node n) m"
| "p_exec (Insert_last h n) m = rt_list_insert_before (Head h) (Node n) m"
| "p_exec (Insert_first h n) m = rt_list_insert_after (Head h) (Node n) m"
| "p_exec (Insert_before x n) m = rt_list_insert_before (Node x) (Node n) m"
| "p_exec (Remove n) m = rt_list_remove (Node n) m"

definition p_first :: "'h \<Rightarrow> ('h, 'n) links \<Rightarrow> 'n option" where
  "p_first h m = (case nxt m (Head h) of Head _ \<Rightarrow> None | Node n \<Rightarrow> Some n)"

interpretation rtl: list_implementation rep p_exec "\<lambda>h m. rt_list_isempty (Head h) m" p_first
proof
  fix I m L x L'
  assume "rep I m L" "op_inserts x \<subseteq> I" "l_exec x L = Some L'"
  then show "rep (op_inits x \<union> I) (p_exec x m) L'"
    by (cases x)
       (auto intro: rep_init_node rep_insert_last rep_insert_first rep_insert_before rep_remove)
next
  fix I m L h
  assume "rep I m L"
  then show "rt_list_isempty (Head h) m \<longleftrightarrow> elems L h = []" by (rule rep_isempty)
next
  fix I m L h n ns
  assume "rep I m L" "elems L h = n # ns"
  then have "nxt m (Head h) = Node n" by (rule rep_first)
  then show "p_first h m = Some n" by (simp add: p_first_def)
qed

end
