(* ===== verification/Heap_State.thy ===== *)
theory Heap_State
  imports Prelude
begin

text \<open>
  The data of the small memory heap of \<^verbatim>\<open>src/mem.c\<close>. Block headers are kept by their
  offset from \<^verbatim>\<open>heap_ptr\<close>, the bytes of the heap by their offset too. Sizes and offsets
  (\<^verbatim>\<open>rt_size_t\<close>) are numbers below \<open>2 ^ 32\<close>.
\<close>

record heap_mem =
  hm_magic :: u16
  hm_used :: u16
  hm_next :: nat
  hm_prev :: nat

record heap =
  heap_ptr :: nat
  heap_end :: nat
  hdr :: "nat \<Rightarrow> heap_mem"
  lfree :: nat
  mem_size_aligned :: nat
  used_mem :: nat
  max_mem :: nat
  heap_sem :: nat
  heap_bytes :: "nat \<Rightarrow> u8"

end
