(* ===== verification/Bounded_Queue.thy ===== *)
theory Bounded_Queue
  imports Prelude
begin

text \<open>
  The interface of a queue of bounded length, which the mailboxes and the message queues of
  \<^verbatim>\<open>src/ipc.c\<close> provide: a test whether it is full, a test whether it is empty, an
  operation that puts an item in and one that gets an item out. What a sequence of sends and
  receives does is proved once, in the locale.
\<close>

datatype 'a queue_op = Put 'a | Get

text \<open>A sequence of operations that do not wait: a put into a full queue and a get from an
  empty one do nothing. The result holds the items put in, the items got out and the queue.\<close>

fun queue_run where
  "queue_run is_full is_empty put get [] q = Some ([], [], q)"
| "queue_run is_full is_empty put get (Put v # ops) q =
     (if is_full q then queue_run is_full is_empty put get ops q
      else do {
        q \<leftarrow> put v q;
        (ins, outs, q) \<leftarrow> queue_run is_full is_empty put get ops q;
        Some (v # ins, outs, q)
      })"
| "queue_run is_full is_empty put get (Get # ops) q =
     (if is_empty q then queue_run is_full is_empty put get ops q
      else do {
        (v, q) \<leftarrow> get q;
        (ins, outs, q) \<leftarrow> queue_run is_full is_empty put get ops q;
        Some (ins, v # outs, q)
      })"

locale bounded_queue =
  fixes good :: "'q \<Rightarrow> bool" and items :: "'q \<Rightarrow> 'a list" and cap :: "'q \<Rightarrow> nat"
    and fits :: "'q \<Rightarrow> 'a \<Rightarrow> bool"
    and is_full :: "'q \<Rightarrow> bool" and is_empty :: "'q \<Rightarrow> bool"
    and put :: "'a \<Rightarrow> 'q \<Rightarrow> 'q option" and get :: "'q \<Rightarrow> ('a \<times> 'q) option"
  assumes bound: "good q \<Longrightarrow> length (items q) \<le> cap q"
    and full_iff: "good q \<Longrightarrow> is_full q \<longleftrightarrow> length (items q) = cap q"
    and empty_iff: "good q \<Longrightarrow> is_empty q \<longleftrightarrow> items q = []"
    and put_law: "good q \<Longrightarrow> length (items q) < cap q \<Longrightarrow> fits q v \<Longrightarrow>
      \<exists>q'. put v q = Some q' \<and> good q' \<and> items q' = items q @ [v] \<and> cap q' = cap q \<and> fits q' = fits q"
    and get_law: "good q \<Longrightarrow> items q = v # vs \<Longrightarrow>
      \<exists>q'. get q = Some (v, q') \<and> good q' \<and> items q' = vs \<and> cap q' = cap q \<and> fits q' = fits q"
begin

text \<open>Any sequence of operations returns, and the items come out in the order in which they
  went in: none is lost, made up or doubled.\<close>

lemma run_fifo:
  assumes "good q" "\<forall>v. Put v \<in> set ops \<longrightarrow> fits q v"
  shows "\<exists>ins outs q'. queue_run is_full is_empty put get ops q = Some (ins, outs, q') \<and> good q' \<and>
    items q @ ins = outs @ items q' \<and> cap q' = cap q"
  using assms
proof (induction ops arbitrary: q)
  case (Cons c ops)
  show ?case
  proof (cases c)
    case (Put v)
    show ?thesis
    proof (cases "is_full q")
      case False
      then have "length (items q) < cap q"
        using bound [OF Cons.prems(1)] full_iff [OF Cons.prems(1)] by simp
      moreover have "fits q v" using Cons.prems(2) Put by simp
      ultimately obtain q1 where q1: "put v q = Some q1" "good q1" "items q1 = items q @ [v]"
        "cap q1 = cap q" "fits q1 = fits q"
        using put_law [OF Cons.prems(1)] by blast
      obtain ins outs q' where "queue_run is_full is_empty put get ops q1 = Some (ins, outs, q')" "good q'"
        "items q1 @ ins = outs @ items q'" "cap q' = cap q1"
        using Cons.IH [of q1] Cons.prems(2) q1(2,5) by auto
      then show ?thesis using q1 False Put by simp
    qed (use Cons Put in simp)
  next
    case Get
    show ?thesis
    proof (cases "is_empty q")
      case False
      then obtain v vs where vs: "items q = v # vs"
        using empty_iff [OF Cons.prems(1)] by (cases "items q") auto
      then obtain q1 where q1: "get q = Some (v, q1)" "good q1" "items q1 = vs"
        "cap q1 = cap q" "fits q1 = fits q"
        using get_law [OF Cons.prems(1)] by blast
      obtain ins outs q' where "queue_run is_full is_empty put get ops q1 = Some (ins, outs, q')" "good q'"
        "items q1 @ ins = outs @ items q'" "cap q' = cap q1"
        using Cons.IH [of q1] Cons.prems(2) q1(2,5) by auto
      then show ?thesis using q1 False Get vs by simp
    qed (use Cons Get in simp)
  qed
qed simp

text \<open>What is put into a queue and got out again at once, when it was empty.\<close>

lemma put_get:
  assumes "good q" "items q = []" "0 < cap q" "fits q v"
  shows "\<exists>q1 q2. put v q = Some q1 \<and> get q1 = Some (v, q2) \<and> good q2 \<and> items q2 = []"
proof -
  from assms obtain q1 where "put v q = Some q1" "good q1" "items q1 = [v]"
    using put_law [of q v] by auto
  then show ?thesis using get_law [of q1 v "[]"] by auto
qed

end

end
