(* ===== verification/Ring.thy ===== *)
theory Ring
  imports Prelude
begin

text \<open>
  Rings: places numbered modulo a power of two, which the ring buffers and the data queues of the drivers
  address with the low bits of 16-bit indices that run freely.
\<close>

subsection \<open>Rings\<close>

text \<open>The \<open>n\<close> items from the position \<open>p\<close> on, in a ring of \<open>N\<close> places.\<close>

definition ring :: "nat \<Rightarrow> (nat \<Rightarrow> 'a) \<Rightarrow> nat \<Rightarrow> nat \<Rightarrow> 'a list" where
  "ring N f p n = map (\<lambda>i. f ((p + i) mod N)) [0..<n]"

lemma length_ring [simp]: "length (ring N f p n) = n"
  by (simp add: ring_def)

lemma nth_ring [simp]: "i < n \<Longrightarrow> ring N f p n ! i = f ((p + i) mod N)"
  by (simp add: ring_def)

lemma ring_0 [simp]: "ring N f p 0 = []"
  by (simp add: ring_def)

lemma ring_mod [simp]: "ring N f (p mod N) n = ring N f p n"
  by (simp add: ring_def mod_simps)

lemma take_ring: "m \<le> n \<Longrightarrow> take m (ring N f p n) = ring N f p m"
  by (simp add: ring_def take_map)

lemma drop_ring: "drop m (ring N f p n) = ring N f (p + m) (n - m)"
  by (rule nth_equalityI) (simp_all add: add.assoc)

lemma ring_add: "ring N f p (m + n) = ring N f p m @ ring N f (p + m) n"
  by (rule nth_equalityI) (auto simp: nth_append add.assoc)

lemma ring_Suc: "ring N f p (Suc n) = f (p mod N) # ring N f (p + 1) n"
  using ring_add [of N f p 1 n] by (simp add: ring_def)

text \<open>\<open>written N q xs f f'\<close>: the items \<open>xs\<close> were written from position \<open>q\<close> on.\<close>

definition written :: "nat \<Rightarrow> nat \<Rightarrow> 'a list \<Rightarrow> (nat \<Rightarrow> 'a) \<Rightarrow> (nat \<Rightarrow> 'a) \<Rightarrow> bool" where
  "written N q xs f f' \<longleftrightarrow>
     (\<forall>i < N. f' ((q + i) mod N) = (if i < length xs then xs ! i else f ((q + i) mod N)))"

lemma ring_written:
  assumes w: "written N (p + n) xs f f'" and room: "n + length xs \<le> N" and pos: "0 < N"
  shows "ring N f' p (n + length xs) = ring N f p n @ xs"
proof -
  have "f' ((p + i) mod N) = f ((p + i) mod N)" if "i < n" for i
  proof -
    let ?j = "N - n + i"
    have "?j < N" "\<not> ?j < length xs" using that room by auto
    moreover have "(p + n + ?j) mod N = (p + i) mod N" using room by (simp add: mod_if)
    ultimately show ?thesis using w by (metis written_def)
  qed
  moreover have "f' ((p + n + i) mod N) = xs ! i" if "i < length xs" for i
    using w that room by (auto simp: written_def)
  ultimately have "ring N f' p n = ring N f p n" "ring N f' (p + n) (length xs) = xs"
    by (auto intro: nth_equalityI)
  then show ?thesis by (simp add: ring_add)
qed

lemma written_one:
  assumes "q < N" shows "written N q [x] f (f(q := x))"
proof -
  have "(q + i) mod N = (if q + i < N then q + i else q + i - N)" if "i < N" for i
    using that assms by (simp add: mod_if)
  then show ?thesis using assms by (auto simp: written_def)
qed

subsection \<open>Free running indices\<close>

text \<open>The size of a ring is a power of two below the range of the indices.\<close>

definition ring_size :: "u16 \<Rightarrow> bool" where
  "ring_size w \<longleftrightarrow> (\<exists>k \<le> 15. unat w = 2 ^ k)"

lemma ring_sizeD:
  assumes "ring_size w"
  shows "0 < unat w" "unat w \<le> 2 ^ 15" "2 ^ 16 mod unat w = 0"
proof -
  from assms obtain k where k: "k \<le> 15" "unat w = 2 ^ k" by (auto simp: ring_size_def)
  then show "0 < unat w" by simp
  have "(2::nat) ^ k \<le> 2 ^ 15" using k(1) by (intro power_increasing) simp_all
  then show "unat w \<le> 2 ^ 15" by (simp only: k(2))
  have "(2::nat) ^ k dvd 2 ^ 16" using k(1) by (intro le_imp_power_dvd) simp
  then show "2 ^ 16 mod unat w = 0" by (simp only: k(2) dvd_eq_mod_eq_0)
qed

text \<open>The mask takes an index modulo the size.\<close>

lemma ring_position:
  assumes "ring_size w"
  shows "unat (i AND (w - 1)) = unat i mod unat w"
proof -
  from assms obtain k where k: "unat w = 2 ^ k" by (auto simp: ring_size_def)
  have "w = of_nat (unat w)" by simp
  then have "w = 2 ^ k" by (simp only: k of_nat_power of_nat_numeral)
  then have "w - 1 = mask k" by (simp add: mask_eq_exp_minus_1)
  then have "i AND (w - 1) = take_bit k i" by (simp add: take_bit_eq_mask)
  then have "unat (i AND (w - 1)) = take_bit k (unat i)" by (simp only: unsigned_take_bit_eq)
  then show ?thesis by (simp only: take_bit_eq_mod k)
qed

lemma ring_index_add:
  assumes "ring_size w"
  shows "unat (a + b :: u16) mod unat w = (unat a + unat b) mod unat w"
proof -
  have "unat (a + b) = (unat a + unat b) mod 2 ^ 16" by (simp add: unat_word_ariths)
  moreover have "(unat a + unat b) mod 2 ^ 16 mod unat w = (unat a + unat b) mod unat w"
    using ring_sizeD(3) [OF assms] by (simp add: mod_mod_cancel dvd_eq_mod_eq_0)
  ultimately show ?thesis by simp
qed

text \<open>The number of items between the indices, and how it changes.\<close>

lemma ring_end: "ring_size w \<Longrightarrow> unat b mod unat w = (unat a + unat (b - a)) mod unat w" for a b :: u16
  using ring_index_add [of w a "b - a"] by simp

lemma ring_grow:
  assumes "ring_size w" "unat (b - a) + unat n \<le> unat w"
  shows "unat (b + n - a :: u16) = unat (b - a) + unat n"
proof -
  have "unat (b - a) + unat n < 2 ^ 16" using assms ring_sizeD(2) [OF assms(1)] by simp
  then have "unat ((b - a) + n) = unat (b - a) + unat n" by (simp add: unat_word_ariths)
  then show ?thesis by (simp add: algebra_simps)
qed

lemma ring_shrink:
  assumes "unat n \<le> unat (b - a)"
  shows "unat (b - (a + n) :: u16) = unat (b - a) - unat n"
proof -
  have "n \<le> b - a" using assms by (simp add: word_le_nat_alt)
  then have "unat ((b - a) - n) = unat (b - a) - unat n" by (simp only: unat_sub)
  then show ?thesis by (simp add: algebra_simps)
qed

text \<open>The indices are in step while the front one has not wrapped around the 16 bits before the other. Only then
  is their difference as integers the number of items.\<close>

lemma in_step_len: "a \<le> b \<Longrightarrow> uint b - uint a = int (unat (b - a))" for a b :: u16
  by (simp add: unat_sub of_nat_diff word_le_nat_alt)

end
