(* ===== verification/Ringbuffer.thy ===== *)
theory Ringbuffer
  imports Bounded_Queue Ring
begin

text \<open>
  The ring buffer of \<^verbatim>\<open>components/drivers/src/ringbuffer.c\<close>. The read and the write index run freely over
  16 bits, and their low bits are the position in the buffer, whose size has to be a power of two. The difference of the
  indices is computed in 16 bits by \<^verbatim>\<open>rt_ringbuffer_put\<close>, but in 32 by the others, which
  matters once the write index has wrapped around and the read index has not.
\<close>

subsection \<open>Memory\<close>

text \<open>\<^verbatim>\<open>memcpy\<close> into and out of an array; \<open>None\<close> outside of it.\<close>

definition mem_put :: "nat \<Rightarrow> 'a list \<Rightarrow> 'a list \<Rightarrow> 'a list option" where
  "mem_put p xs buf =
     (if p + length xs \<le> length buf then Some (take p buf @ xs @ drop (p + length xs) buf) else None)"

definition mem_get :: "nat \<Rightarrow> nat \<Rightarrow> 'a list \<Rightarrow> 'a list option" where
  "mem_get p n buf = (if p + n \<le> length buf then Some (take n (drop p buf)) else None)"

subsection \<open>Operations\<close>

record rt_ringbuffer =
  read_index :: u16
  write_index :: u16
  buffer_ptr :: "u8 list"
  buffer_size :: u16

definition rt_ringbuffer_init :: "u8 list \<Rightarrow> u16 \<Rightarrow> rt_ringbuffer" where
  "rt_ringbuffer_init pool sz =
     \<lparr>read_index = 0, write_index = 0, buffer_ptr = pool, buffer_size = sz AND NOT 7\<rparr>"

text \<open>The result is the number of bytes put in, and the buffer.\<close>

definition rt_ringbuffer_put :: "rt_ringbuffer \<Rightarrow> u8 list \<Rightarrow> u16 \<Rightarrow> (u16 \<times> rt_ringbuffer) option" where
  "rt_ringbuffer_put rb ptr len =
     (let mask = buffer_size rb - 1;
          sz = buffer_size rb - (write_index rb - read_index rb)
      in if sz = 0 then Some (0, rb)
         else let len = (if sz < len then sz else len);
                  write_position = write_index rb AND mask;
                  room = uint (buffer_size rb) - uint write_position
              in do {
                buf \<leftarrow>
                  (if room > uint len then do {
                     xs \<leftarrow> mem_get 0 (unat len) ptr;
                     mem_put (unat write_position) xs (buffer_ptr rb)
                   }
                   else do {
                     xs \<leftarrow> mem_get 0 (nat room) ptr;
                     buf \<leftarrow> mem_put (unat write_position) xs (buffer_ptr rb);
                     ys \<leftarrow> mem_get (nat room) (unat len - nat room) ptr;
                     mem_put 0 ys buf
                   });
                Some (len, rb\<lparr>buffer_ptr := buf, write_index := write_index rb + len\<rparr>)
              })"

definition rt_ringbuffer_putchar :: "rt_ringbuffer \<Rightarrow> u8 \<Rightarrow> (u16 \<times> rt_ringbuffer) option" where
  "rt_ringbuffer_putchar rb ch =
     (let mask = buffer_size rb - 1
      in if uint (write_index rb) - uint (read_index rb) = uint (buffer_size rb) then Some (0, rb)
         else do {
           buf \<leftarrow> mem_put (unat (write_index rb AND mask)) [ch] (buffer_ptr rb);
           Some (1, rb\<lparr>buffer_ptr := buf, write_index := write_index rb + 1\<rparr>)
         })"

text \<open>Here the difference of the indices is not cut to 16 bits.\<close>

definition rt_ringbuffer_get :: "rt_ringbuffer \<Rightarrow> u16 \<Rightarrow> (u8 list \<times> rt_ringbuffer) option" where
  "rt_ringbuffer_get rb len =
     (let mask = buffer_size rb - 1;
          sz = ucast (write_index rb) - ucast (read_index rb) :: u32
      in if sz = 0 then Some ([], rb)
         else let len = (if sz < ucast len then ucast sz else len);
                  read_position = read_index rb AND mask;
                  room = uint (buffer_size rb) - uint read_position
              in do {
                out \<leftarrow>
                  (if room \<ge> uint len then mem_get (unat read_position) (unat len) (buffer_ptr rb)
                   else do {
                     xs \<leftarrow> mem_get (unat read_position) (nat room) (buffer_ptr rb);
                     ys \<leftarrow> mem_get 0 (nat (uint len - room)) (buffer_ptr rb);
                     Some (xs @ ys)
                   });
                Some (out, rb\<lparr>read_index := read_index rb + len\<rparr>)
              })"

definition rt_ringbuffer_getchar :: "rt_ringbuffer \<Rightarrow> (u8 option \<times> rt_ringbuffer) option" where
  "rt_ringbuffer_getchar rb =
     (if read_index rb = write_index rb then Some (None, rb)
      else let mask = buffer_size rb - 1
           in do {
             xs \<leftarrow> mem_get (unat (read_index rb AND mask)) 1 (buffer_ptr rb);
             Some (Some (hd xs), rb\<lparr>read_index := read_index rb + 1\<rparr>)
           })"

subsection \<open>Copies of a ring\<close>

text \<open>Reading a ring in one piece, or in two.\<close>

lemma mem_get_ring:
  assumes "p < N" "length buf = N" "n \<le> N"
  shows "p + n \<le> N \<Longrightarrow> mem_get p n buf = Some (ring N (nth buf) p n)"
    and "N \<le> p + n \<Longrightarrow> mem_get p (N - p) buf = Some (ring N (nth buf) p (N - p)) \<and>
      mem_get 0 (p + n - N) buf = Some (ring N (nth buf) N (p + n - N))"
proof -
  show "p + n \<le> N \<Longrightarrow> mem_get p n buf = Some (ring N (nth buf) p n)"
    using assms by (auto simp: mem_get_def intro: nth_equalityI)
  assume "N \<le> p + n"
  then show "mem_get p (N - p) buf = Some (ring N (nth buf) p (N - p)) \<and>
      mem_get 0 (p + n - N) buf = Some (ring N (nth buf) N (p + n - N))"
    using assms by (auto simp: mem_get_def intro!: nth_equalityI)
qed

definition wrote :: "nat \<Rightarrow> nat \<Rightarrow> 'a list \<Rightarrow> 'a list \<Rightarrow> 'a list \<Rightarrow> bool" where
  "wrote N q xs buf buf' \<longleftrightarrow> length buf' = length buf \<and> written N q xs (nth buf) (nth buf')"

lemma mem_put_wrote:
  assumes q: "q < N" and len: "length buf = N"
  shows "q + length xs \<le> N \<Longrightarrow> \<exists>buf'. mem_put q xs buf = Some buf' \<and> wrote N q xs buf buf'"
    and "N \<le> q + length xs \<Longrightarrow> length xs \<le> N \<Longrightarrow>
      \<exists>buf1 buf2. mem_put q (take (N - q) xs) buf = Some buf1 \<and> mem_put 0 (drop (N - q) xs) buf1 = Some buf2 \<and>
        wrote N q xs buf buf2"
proof -
  have wrap: "(q + i) mod N = (if q + i < N then q + i else q + i - N)" if "i < N" for i
    using that q by (simp add: mod_if)
  show "\<exists>buf'. mem_put q xs buf = Some buf' \<and> wrote N q xs buf buf'" if "q + length xs \<le> N"
    using that assms by (auto simp: mem_put_def wrote_def written_def wrap nth_append)
  assume a: "N \<le> q + length xs" "length xs \<le> N"
  let ?b = "take q buf @ take (N - q) xs"
  have l: "length ?b = N" using a assms by simp
  have "mem_put q (take (N - q) xs) buf = Some ?b" using a assms by (simp add: mem_put_def)
  moreover have "mem_put 0 (drop (N - q) xs) ?b = Some (drop (N - q) xs @ drop (length xs - (N - q)) ?b)"
    using a l by (simp add: mem_put_def)
  moreover have "wrote N q xs buf (drop (N - q) xs @ drop (length xs - (N - q)) ?b)"
    using a assms by (auto simp: wrote_def written_def wrap nth_append)
  ultimately show "\<exists>buf1 buf2. mem_put q (take (N - q) xs) buf = Some buf1 \<and>
      mem_put 0 (drop (N - q) xs) buf1 = Some buf2 \<and> wrote N q xs buf buf2" by blast
qed

subsection \<open>The buffer as a queue of bytes\<close>

text \<open>\<open>rb_len\<close> is the number of bytes in the buffer, and \<open>rb_items\<close> are the bytes.\<close>

definition rb_len :: "rt_ringbuffer \<Rightarrow> nat" where
  "rb_len rb = unat (write_index rb - read_index rb)"

definition rb_items :: "rt_ringbuffer \<Rightarrow> u8 list" where
  "rb_items rb = ring (unat (buffer_size rb)) (nth (buffer_ptr rb)) (unat (read_index rb)) (rb_len rb)"

lemma length_rb_items [simp]: "length (rb_items rb) = rb_len rb"
  by (simp add: rb_items_def)

text \<open>The pool has the size of the buffer, which holds not more bytes than that. The operations treat it as a ring only when
  this size is a power of two (\<open>rb_ring\<close>), which \<^verbatim>\<open>rt_ringbuffer_init\<close> does not check.\<close>

definition rb_ok :: "rt_ringbuffer \<Rightarrow> bool" where
  "rb_ok rb \<longleftrightarrow> length (buffer_ptr rb) = unat (buffer_size rb) \<and> rb_len rb \<le> unat (buffer_size rb)"

definition rb_ring :: "rt_ringbuffer \<Rightarrow> bool" where
  "rb_ring rb \<longleftrightarrow> ring_size (buffer_size rb) \<and> rb_ok rb"

lemma rb_ringI: "unat (buffer_size rb) = 2 ^ k \<Longrightarrow> k \<le> 15 \<Longrightarrow> rb_ok rb \<Longrightarrow> rb_ring rb"
  by (auto simp: rb_ring_def ring_size_def)

lemma rb_ring_ok: "rb_ring rb \<Longrightarrow> rb_ok rb"
  by (simp add: rb_ring_def)

text \<open>The two indices have not wrapped around against each other.\<close>

definition rb_in_step :: "rt_ringbuffer \<Rightarrow> bool" where
  "rb_in_step rb \<longleftrightarrow> read_index rb \<le> write_index rb"

lemma rb_okD:
  assumes "rb_ring rb"
  shows "0 < unat (buffer_size rb)" "unat (buffer_size rb) \<le> 2 ^ 15" "ring_size (buffer_size rb)"
    "length (buffer_ptr rb) = unat (buffer_size rb)" "rb_len rb \<le> unat (buffer_size rb)"
  using assms ring_sizeD by (simp_all add: rb_ring_def rb_ok_def)

lemmas rb_position = ring_position [OF rb_okD(3)]

text \<open>More bytes at the end, and fewer in front.\<close>

lemma rb_wrote:
  assumes ok: "rb_ring rb" and room: "rb_len rb + length xs \<le> unat (buffer_size rb)" and n: "unat n = length xs"
    and w: "wrote (unat (buffer_size rb)) (unat (write_index rb) mod unat (buffer_size rb)) xs (buffer_ptr rb) buf"
  defines "rb' \<equiv> rb\<lparr>buffer_ptr := buf, write_index := write_index rb + n\<rparr>"
  shows "rb_ring rb' \<and> rb_items rb' = rb_items rb @ xs \<and> buffer_size rb' = buffer_size rb"
proof -
  let ?N = "unat (buffer_size rb)"
  have l: "rb_len rb' = rb_len rb + length xs"
    using ring_grow [OF rb_okD(3) [OF ok]] room n by (simp add: rb'_def rb_len_def)
  have "written ?N (unat (read_index rb) + rb_len rb) xs (nth (buffer_ptr rb)) (nth buf)"
    using w ring_end [OF rb_okD(3) [OF ok], of "write_index rb" "read_index rb"]
    by (simp add: wrote_def written_def rb_len_def mod_simps)
  from ring_written [OF this room rb_okD(1) [OF ok]]
  have "rb_items rb' = rb_items rb @ xs" unfolding rb_items_def l by (simp add: rb'_def)
  moreover have "length buf = ?N" using w rb_okD(4) [OF ok] by (simp add: wrote_def)
  then have "rb_ring rb'" using ok room l unfolding rb_ring_def rb_ok_def by (simp add: rb'_def)
  ultimately show ?thesis by (simp add: rb'_def)
qed

lemma rb_read:
  assumes "rb_ring rb" "unat n \<le> rb_len rb"
  defines "rb' \<equiv> rb\<lparr>read_index := read_index rb + n\<rparr>"
  shows "rb_ring rb' \<and> rb_items rb' = drop (unat n) (rb_items rb) \<and> buffer_size rb' = buffer_size rb"
proof -
  let ?N = "unat (buffer_size rb)"
  have l: "rb_len rb' = rb_len rb - unat n" using ring_shrink assms(2) by (simp add: rb'_def rb_len_def)
  have "ring ?N f (unat (read_index rb + n)) m = ring ?N f (unat (read_index rb) + unat n) m" for f :: "nat \<Rightarrow> u8" and m
    using ring_index_add [OF rb_okD(3) [OF assms(1)], of "read_index rb" n] by (metis ring_mod)
  then have "rb_items rb' = drop (unat n) (rb_items rb)"
    unfolding rb_items_def l drop_ring by (simp add: rb'_def)
  moreover have "rb_len rb' \<le> ?N" using l rb_okD(5) [OF assms(1)] by simp
  then have "rb_ring rb'" using assms(1) unfolding rb_ring_def rb_ok_def by (simp add: rb'_def)
  ultimately show ?thesis by (simp add: rb'_def)
qed

subsection \<open>What the operations do\<close>

text \<open>A put appends as many of the bytes as there is room for; one that finds no room does nothing.\<close>

lemma rb_put:
  assumes ok: "rb_ring rb" and len: "unat len \<le> length ptr"
  defines "n \<equiv> min (unat len) (unat (buffer_size rb) - rb_len rb)"
  shows "\<exists>m rb'. rt_ringbuffer_put rb ptr len = Some (m, rb') \<and> unat m = n \<and> rb_ring rb' \<and>
    rb_items rb' = rb_items rb @ take n ptr \<and> buffer_size rb' = buffer_size rb"
proof -
  let ?N = "unat (buffer_size rb)"
  let ?size = "buffer_size rb - (write_index rb - read_index rb)"
  let ?w = "write_index rb AND (buffer_size rb - 1)"
  have sz: "unat ?size = ?N - rb_len rb"
    using rb_okD(5) [OF ok] by (simp add: rb_len_def unat_sub word_le_nat_alt)
  show ?thesis
  proof (cases "?size = 0")
    case True
    then have "n = 0" unfolding n_def using sz by simp
    then show ?thesis using True ok by (simp add: rt_ringbuffer_put_def)
  next
    case False
    define m where "m = (if ?size < len then ?size else len)"
    define w where "w = write_index rb AND (buffer_size rb - 1)"
    define room where "room = uint (buffer_size rb) - uint w"
    have n: "unat m = n" unfolding n_def m_def using sz by (auto simp: word_less_nat_alt)
    have w: "unat w = unat (write_index rb) mod ?N" unfolding w_def by (rule rb_position [OF ok])
    have wN: "unat w < ?N" unfolding w using rb_okD(1) [OF ok] by simp
    have fits: "nat room = ?N - unat w" "room > uint m \<longleftrightarrow> n < ?N - unat w"
    proof -
      show "nat room = ?N - unat w" unfolding room_def by (simp add: nat_diff_distrib')
      have "room = int (?N - unat w)" unfolding room_def by (simp only: uint_nat of_nat_diff [OF less_imp_le [OF wN]])
      then show "room > uint m \<longleftrightarrow> n < ?N - unat w" by (simp only: uint_nat n of_nat_less_iff)
    qed
    let ?xs = "take n ptr"
    have np: "n \<le> length ptr" using len unfolding n_def by simp
    then have l: "length ?xs = n" by simp
    have le: "rb_len rb + n \<le> ?N" using rb_okD(5) [OF ok] unfolding n_def by simp
    have g: "mem_get 0 n ptr = Some ?xs" using np by (simp add: mem_get_def)
    define io where "io = (if room > uint m then do {
                     xs \<leftarrow> mem_get 0 (unat m) ptr;
                     mem_put (unat w) xs (buffer_ptr rb)
                   }
                   else do {
                     xs \<leftarrow> mem_get 0 (nat room) ptr;
                     buf \<leftarrow> mem_put (unat w) xs (buffer_ptr rb);
                     ys \<leftarrow> mem_get (nat room) (unat m - nat room) ptr;
                     mem_put 0 ys buf
                   })"
    have "\<exists>buf. io = Some buf \<and> wrote ?N (unat w) ?xs (buffer_ptr rb) buf"
    proof (cases "n < ?N - unat w")
      case True
      then show ?thesis
        using mem_put_wrote(1) [OF wN rb_okD(4) [OF ok], of ?xs] by (simp add: io_def l fits n g del: length_take)
    next
      case False
      let ?k = "?N - unat w"
      have "?N \<le> unat w + length ?xs" "length ?xs \<le> ?N" using False l le by simp_all
      from mem_put_wrote(2) [OF wN rb_okD(4) [OF ok] this] obtain b1 b2 where b: "mem_put (unat w) (take ?k ?xs) (buffer_ptr rb) = Some b1"
        "mem_put 0 (drop ?k ?xs) b1 = Some b2" "wrote ?N (unat w) ?xs (buffer_ptr rb) b2" by blast
      have "mem_get 0 ?k ptr = Some (take ?k ?xs)" "mem_get ?k (n - ?k) ptr = Some (drop ?k ?xs)"
        using False np by (simp_all add: mem_get_def min_def drop_take)
      then show ?thesis using False b by (simp add: io_def fits n)
    qed
    then obtain buf where io: "io = Some buf" "wrote ?N (unat w) ?xs (buffer_ptr rb) buf" by blast
    have put: "rt_ringbuffer_put rb ptr len = Some (m, rb\<lparr>buffer_ptr := buf, write_index := write_index rb + m\<rparr>)"
      using False io(1) unfolding rt_ringbuffer_put_def Let_def io_def m_def w_def room_def by simp
    from rb_wrote [OF ok _ _ io(2) [unfolded w], of m] le l n
    show ?thesis unfolding put by auto
  qed
qed

text \<open>A get takes the first bytes, as many as it asks for and there are. Its count of the bytes that are there is
  wrong when the indices are out of step, so it then must not ask for more.\<close>

lemma rb_size:
  assumes "rb_in_step rb"
  shows "unat (ucast (write_index rb) - ucast (read_index rb) :: u32) = rb_len rb"
proof -
  have le: "unat (read_index rb) \<le> unat (write_index rb)" using assms by (simp add: rb_in_step_def word_le_nat_alt)
  then have "(ucast (read_index rb) :: u32) \<le> ucast (write_index rb)" by (simp add: word_le_nat_alt)
  then have "unat (ucast (write_index rb) - ucast (read_index rb) :: u32) = unat (write_index rb) - unat (read_index rb)"
    by (simp only: unat_sub unat_ucast_16)
  then show ?thesis using le by (simp add: rb_len_def unat_sub word_le_nat_alt)
qed

lemma rb_size_big:
  assumes "\<not> rb_in_step rb"
  shows "2 ^ 16 \<le> unat (ucast (write_index rb) - ucast (read_index rb) :: u32)"
proof -
  let ?d = "uint (write_index rb) - uint (read_index rb)"
  have "?d < 0" using assms by (simp add: rb_in_step_def not_le word_less_alt)
  moreover have "uint (read_index rb) < 65536" using unsigned_less [of "read_index rb", where ?'a = int] by simp
  then have d: "- 65536 < ?d" using unsigned_greater_eq [of "write_index rb", where ?'a = int] by linarith
  ultimately have "(?d + 2 ^ 32) mod 2 ^ 32 = ?d + 2 ^ 32" by (intro mod_pos_pos_trivial) simp_all
  then have m: "?d mod 2 ^ 32 = ?d + 2 ^ 32" by simp
  have "uint (ucast w :: u32) = uint w" for w :: u16 by (simp only: uint_nat unat_ucast_16)
  then have "uint (ucast (write_index rb) - ucast (read_index rb) :: u32) = ?d + 2 ^ 32"
    using m by (simp add: uint_word_ariths)
  then show ?thesis using d by (simp only: unat_eq_nat_uint) simp
qed

lemma rb_get:
  assumes ok: "rb_ring rb" and step: "rb_in_step rb \<or> unat len \<le> rb_len rb"
  defines "n \<equiv> min (unat len) (rb_len rb)"
  shows "\<exists>rb'. rt_ringbuffer_get rb len = Some (take n (rb_items rb), rb') \<and> rb_ring rb' \<and>
    rb_items rb' = drop n (rb_items rb) \<and> buffer_size rb' = buffer_size rb"
proof -
  let ?N = "unat (buffer_size rb)"
  define sz where "sz = (ucast (write_index rb) - ucast (read_index rb) :: u32)"
  have sz: "sz = 0 \<longleftrightarrow> rb_len rb = 0" "rb_in_step rb \<Longrightarrow> unat sz = rb_len rb" "\<not> rb_in_step rb \<Longrightarrow> 2 ^ 16 \<le> unat sz"
  proof -
    show s: "unat sz = rb_len rb" if "rb_in_step rb" unfolding sz_def by (rule rb_size [OF that])
    show b: "2 ^ 16 \<le> unat sz" if "\<not> rb_in_step rb" unfolding sz_def by (rule rb_size_big [OF that])
    have "rb_len rb = 0 \<longleftrightarrow> read_index rb = write_index rb" by (auto simp: rb_len_def unat_eq_zero)
    then show "sz = 0 \<longleftrightarrow> rb_len rb = 0" using s b by (cases "rb_in_step rb") (auto simp: unat_eq_zero rb_in_step_def)
  qed
  show ?thesis
  proof (cases "sz = 0")
    case True
    then show ?thesis using sz ok unfolding rt_ringbuffer_get_def sz_def [symmetric] Let_def n_def by simp
  next
    case False
    define m where "m = (if sz < ucast len then ucast sz else len)"
    define p where "p = read_index rb AND (buffer_size rb - 1)"
    define room where "room = uint (buffer_size rb) - uint p"
    have n: "unat m = n"
    proof (cases "rb_in_step rb")
      case True
      have "unat (ucast sz :: u16) = rb_len rb"
        using sz(2) [OF True] rb_okD(2,5) [OF ok] by (simp add: unsigned_ucast_eq take_bit_nat_eq_self)
      then show ?thesis using sz(2) [OF True] by (auto simp: m_def n_def word_less_nat_alt)
    next
      case out: False
      have "unat len < 2 ^ LENGTH(16)" by (rule unsigned_less)
      then have "\<not> sz < ucast len" using sz(3) [OF out] by (simp add: word_less_nat_alt)
      then show ?thesis using out step by (simp add: m_def n_def)
    qed
    have p: "unat p = unat (read_index rb) mod ?N" unfolding p_def by (rule rb_position [OF ok])
    have pN: "unat p < ?N" unfolding p using rb_okD(1) [OF ok] by simp
    have nN: "n \<le> ?N" using rb_okD(5) [OF ok] unfolding n_def by simp
    have room: "room = int (?N - unat p)" unfolding room_def by (simp only: uint_nat of_nat_diff [OF less_imp_le [OF pN]])
    have fits: "nat room = ?N - unat p" "room \<ge> uint m \<longleftrightarrow> unat p + n \<le> ?N" "nat (uint m - room) = unat p + n - ?N"
    proof -
      show "nat room = ?N - unat p" unfolding room by (rule nat_int)
      show "room \<ge> uint m \<longleftrightarrow> unat p + n \<le> ?N" unfolding room uint_nat n using pN by linarith
      show "nat (uint m - room) = unat p + n - ?N" unfolding room uint_nat n using pN by linarith
    qed
    have items: "take n (rb_items rb) = ring ?N (nth (buffer_ptr rb)) (unat p) n"
      by (simp add: rb_items_def take_ring n_def p)
    note g = mem_get_ring [OF pN rb_okD(4) [OF ok] nN]
    have "(if room \<ge> uint m then mem_get (unat p) (unat m) (buffer_ptr rb)
           else do {
             xs \<leftarrow> mem_get (unat p) (nat room) (buffer_ptr rb);
             ys \<leftarrow> mem_get 0 (nat (uint m - room)) (buffer_ptr rb);
             Some (xs @ ys)
           }) = Some (take n (rb_items rb))"
    proof (cases "unat p + n \<le> ?N")
      case True
      then show ?thesis using g(1) by (simp only: fits n items if_True)
    next
      case False
      have "ring ?N (nth (buffer_ptr rb)) (unat p) n =
          ring ?N (nth (buffer_ptr rb)) (unat p) (?N - unat p) @ ring ?N (nth (buffer_ptr rb)) ?N (unat p + n - ?N)"
        using ring_add [of ?N "nth (buffer_ptr rb)" "unat p" "?N - unat p" "unat p + n - ?N"] False pN by simp
      then show ?thesis using g(2) False by (simp add: fits n items)
    qed
    then have "rt_ringbuffer_get rb len = Some (take n (rb_items rb), rb\<lparr>read_index := read_index rb + m\<rparr>)"
      using False unfolding rt_ringbuffer_get_def sz_def [symmetric] Let_def m_def p_def room_def by simp
    moreover have "unat m \<le> rb_len rb" unfolding n n_def by simp
    from rb_read [OF ok this] have "rb_ring (rb\<lparr>read_index := read_index rb + m\<rparr>) \<and>
      rb_items (rb\<lparr>read_index := read_index rb + m\<rparr>) = drop n (rb_items rb) \<and>
      buffer_size (rb\<lparr>read_index := read_index rb + m\<rparr>) = buffer_size rb" unfolding n .
    ultimately show ?thesis by blast
  qed
qed

text \<open>One byte at a time. A full buffer is only recognised while the indices are in step.\<close>

lemma rb_putchar:
  assumes ok: "rb_ring rb" and "rb_in_step rb \<or> rb_len rb < unat (buffer_size rb)"
  shows "\<exists>m rb'. rt_ringbuffer_putchar rb ch = Some (m, rb') \<and> rb_ring rb' \<and>
    (if rb_len rb = unat (buffer_size rb) then m = 0 \<and> rb' = rb
     else m = 1 \<and> rb_items rb' = rb_items rb @ [ch] \<and> buffer_size rb' = buffer_size rb)"
proof (cases "rb_len rb = unat (buffer_size rb)")
  case True
  then have le: "unat (read_index rb) \<le> unat (write_index rb)"
    using assms(2) by (simp add: rb_in_step_def word_le_nat_alt)
  then have "rb_len rb = unat (write_index rb) - unat (read_index rb)"
    by (simp add: rb_len_def unat_sub word_le_nat_alt)
  then have "uint (write_index rb) - uint (read_index rb) = uint (buffer_size rb)"
    using True le by (simp only: uint_nat)
  then show ?thesis using True ok by (simp add: rt_ringbuffer_putchar_def)
next
  case False
  let ?N = "unat (buffer_size rb)"
  define w where "w = write_index rb AND (buffer_size rb - 1)"
  have w: "unat w = unat (write_index rb) mod ?N" unfolding w_def by (rule rb_position [OF ok])
  have wN: "unat w < ?N" unfolding w using rb_okD(1) [OF ok] by simp
  from mem_put_wrote(1) [OF wN rb_okD(4) [OF ok], of "[ch]"] wN obtain buf where
    buf: "mem_put (unat w) [ch] (buffer_ptr rb) = Some buf" "wrote ?N (unat w) [ch] (buffer_ptr rb) buf" by auto
  have "uint (write_index rb) - uint (read_index rb) \<noteq> uint (buffer_size rb)"
  proof
    assume a: "uint (write_index rb) - uint (read_index rb) = uint (buffer_size rb)"
    then have "uint (read_index rb) \<le> uint (write_index rb)"
      using unsigned_greater_eq [of "buffer_size rb", where ?'a = int] by linarith
    then have "rb_in_step rb" by (simp add: rb_in_step_def word_le_def)
    then have "rb_len rb = unat (write_index rb) - unat (read_index rb)"
      by (simp add: rb_len_def rb_in_step_def unat_sub)
    with a False show False by (simp only: uint_nat)
  qed
  then have put: "rt_ringbuffer_putchar rb ch = Some (1, rb\<lparr>buffer_ptr := buf, write_index := write_index rb + 1\<rparr>)"
    using buf(1) by (simp add: rt_ringbuffer_putchar_def Let_def w_def)
  have "rb_len rb + length [ch] \<le> ?N" using False rb_okD(5) [OF ok] by simp
  from rb_wrote [OF ok this _ buf(2) [unfolded w], of 1] show ?thesis using False put by simp
qed

lemma rb_getchar:
  assumes ok: "rb_ring rb"
  shows "\<exists>rb'. rb_ring rb' \<and> (case rb_items rb of
      [] \<Rightarrow> rt_ringbuffer_getchar rb = Some (None, rb') \<and> rb' = rb
    | b # bs \<Rightarrow> rt_ringbuffer_getchar rb = Some (Some b, rb') \<and> rb_items rb' = bs \<and> buffer_size rb' = buffer_size rb)"
proof (cases "rb_len rb")
  case 0
  then have "read_index rb = write_index rb" by (simp add: rb_len_def unat_eq_zero)
  moreover have "rb_items rb = []" using 0 by (simp add: rb_items_def)
  ultimately show ?thesis using ok by (simp add: rt_ringbuffer_getchar_def)
next
  case (Suc n)
  let ?N = "unat (buffer_size rb)"
  define p where "p = read_index rb AND (buffer_size rb - 1)"
  have p: "unat p = unat (read_index rb) mod ?N" unfolding p_def by (rule rb_position [OF ok])
  have pN: "unat p < ?N" unfolding p using rb_okD(1) [OF ok] by simp
  have ne: "read_index rb \<noteq> write_index rb" using Suc by (auto simp: rb_len_def)
  have "rb_items rb = ring ?N (nth (buffer_ptr rb)) (unat p) (1 + n)" using Suc by (simp add: rb_items_def p)
  also have "\<dots> = ring ?N (nth (buffer_ptr rb)) (unat p) 1 @ ring ?N (nth (buffer_ptr rb)) (unat p + 1) n" by (rule ring_add)
  also have "ring ?N (nth (buffer_ptr rb)) (unat p) 1 = [buffer_ptr rb ! unat p]" using pN by (simp add: ring_def)
  finally have items: "rb_items rb = buffer_ptr rb ! unat p # ring ?N (nth (buffer_ptr rb)) (unat p + 1) n" by simp
  have "mem_get (unat p) 1 (buffer_ptr rb) = Some [buffer_ptr rb ! unat p]"
    using pN rb_okD(4) [OF ok] by (simp add: mem_get_def take_Suc_conv_app_nth hd_drop_conv_nth take_Suc)
  then have get: "rt_ringbuffer_getchar rb = Some (Some (buffer_ptr rb ! unat p), rb\<lparr>read_index := read_index rb + 1\<rparr>)"
    using ne by (simp add: rt_ringbuffer_getchar_def Let_def p_def)
  from rb_read [OF ok, of 1] Suc show ?thesis unfolding items list.case get using items by (simp add: drop_Suc)
qed

text \<open>With whole writes of one byte, the buffer is a bounded queue.\<close>

definition rb_full :: "rt_ringbuffer \<Rightarrow> bool" where
  "rb_full rb \<longleftrightarrow> buffer_size rb - (write_index rb - read_index rb) = 0"

definition rb_empty :: "rt_ringbuffer \<Rightarrow> bool" where
  "rb_empty rb \<longleftrightarrow> read_index rb = write_index rb"

definition rb_put1 :: "u8 \<Rightarrow> rt_ringbuffer \<Rightarrow> rt_ringbuffer option" where
  "rb_put1 ch rb = map_option snd (rt_ringbuffer_put rb [ch] 1)"

definition rb_get1 :: "rt_ringbuffer \<Rightarrow> (u8 \<times> rt_ringbuffer) option" where
  "rb_get1 rb = (case rt_ringbuffer_getchar rb of Some (Some ch, rb) \<Rightarrow> Some (ch, rb) | _ \<Rightarrow> None)"

interpretation rbq: bounded_queue rb_ring rb_items "\<lambda>rb. unat (buffer_size rb)" "\<lambda>_ _. True" rb_full rb_empty rb_put1 rb_get1
proof (unfold_locales, goal_cases)
  case (1 rb)
  then show ?case using rb_okD(5) by simp
next
  case (2 rb)
  have "rb_full rb \<longleftrightarrow> buffer_size rb = write_index rb - read_index rb" by (simp add: rb_full_def)
  then show ?case by (auto simp: rb_len_def word_unat_eq_iff)
next
  case (3 rb)
  show ?case by (auto simp: rb_empty_def rb_len_def unat_eq_zero simp flip: length_0_conv)
next
  case (4 rb v)
  from rb_put [OF 4(1), of 1 "[v]"] 4(2) show ?case by (auto simp: rb_put1_def)
next
  case (5 rb v vs)
  from rb_getchar [OF 5(1)] 5(2) show ?case by (auto simp: rb_get1_def)
qed

text \<open>A buffer of 24 bytes, a size that \<^verbatim>\<open>rt_ringbuffer_init\<close> takes: the mask is 23, so that the bytes 8 to 15 have the
  places of the first eight, and are put over them before the buffer is full.\<close>

lemma rb_size_24:
  defines "rb \<equiv> rt_ringbuffer_init (replicate 24 0) 24"
  shows "rb_ok rb \<and> buffer_size rb = 24 \<and>
    map_option (map_option fst \<circ> (\<lambda>rb. rt_ringbuffer_get rb 8))
      (Option.bind (rt_ringbuffer_put rb [1, 2, 3, 4, 5, 6, 7, 8] 8)
        (\<lambda>(_, rb). map_option snd (rt_ringbuffer_put rb [9, 10, 11, 12, 13, 14, 15, 16] 8))) =
      Some (Some [9, 10, 11, 12, 13, 14, 15, 16])"
  unfolding rb_def by code_simp

text \<open>Out of step, a get hands out bytes that were never put in, and a full buffer is not recognised, so that a byte
  that was put in is lost.\<close>

lemma rb_out_of_step:
  defines "rb \<equiv> \<lparr>read_index = 0xfffe, write_index = 1, buffer_ptr = [13, 14, 15, 16, 17, 18, 11, 12], buffer_size = 8\<rparr>"
  shows "rb_items rb = [11, 12, 13] \<and>
    map_option fst (rt_ringbuffer_get rb 5) = Some [11, 12, 13, 14, 15]"
proof
  show "rb_items rb = [11, 12, 13]" by (simp add: rb_def rb_items_def rb_len_def ring_def upt_rec)
  show "map_option fst (rt_ringbuffer_get rb 5) = Some [11, 12, 13, 14, 15]" unfolding rb_def by code_simp
qed

text \<open>A new buffer is empty, and in order when its size is a power of two.\<close>

lemma rb_init:
  assumes "3 \<le> k" "k \<le> 15" "length pool = 2 ^ k"
  shows "rb_ring (rt_ringbuffer_init pool (2 ^ k)) \<and> rb_items (rt_ringbuffer_init pool (2 ^ k)) = [] \<and>
    rb_in_step (rt_ringbuffer_init pool (2 ^ k))"
proof -
  have "(2 :: u16) ^ k = 2 ^ (k - 3 + 3)" using assms(1) by simp
  also have "\<dots> = push_bit 3 (2 ^ (k - 3))" unfolding power_add by (simp add: push_bit_eq_mult)
  finally have p: "(2 ^ k :: u16) = push_bit 3 (2 ^ (k - 3))" .
  have "(2 ^ k :: u16) AND NOT 7 = 2 ^ k"
  proof -
    have "(7 :: u16) = mask 3" by (simp add: mask_eq_exp_minus_1)
    moreover have "push_bit 3 w AND NOT (mask 3) = push_bit 3 w" for w :: u16
      by (rule bit_word_eqI) (auto simp: bit_simps)
    ultimately have "push_bit 3 w AND NOT 7 = push_bit 3 w" for w :: u16 by (simp only:)
    then show ?thesis unfolding p .
  qed
  moreover have "unat (2 ^ k :: u16) = 2 ^ k"
  proof -
    have "(2::nat) ^ k < 2 ^ LENGTH(16)" using assms(2) by (intro power_strict_increasing) simp_all
    moreover have "(2 ^ k :: u16) = of_nat (2 ^ k)" by simp
    ultimately show ?thesis by (simp only: unat_of_nat mod_less)
  qed
  ultimately show ?thesis
    using assms by (auto simp: rb_ring_def rb_ok_def ring_size_def rb_in_step_def rb_items_def rb_len_def rt_ringbuffer_init_def)
qed

end
