(* ===== verification/Rt_Def.thy ===== *)
theory Rt_Def
  imports Rt_List Heap_State Ringbuffer
begin

text \<open>
  The data of the kernel: the structures of \<^verbatim>\<open>include/rtdef.h\<close> in the configuration of
  \<^verbatim>\<open>bsp/stm32f40x_car/rtconfig.h\<close> (32 priorities, software timers, all five kinds of IPC,
  memory pools, the small heap; no modules, no slab, no memory heaps), and the global
  variables of \<^verbatim>\<open>src/*.c\<close> gathered in one state.

  Objects are named by their addresses, kept apart by kind (\<open>oid\<close>). The part
  \<^verbatim>\<open>struct rt_object\<close> that every kernel object starts with is kept in \<open>objs\<close>; the rest of
  each structure has a store of its own. Links between nodes are the lists of \<open>Rt_List\<close>:
  \<open>tlists\<close> for the \<^verbatim>\<open>tlist\<close> nodes of threads, \<open>tmlists\<close> for the \<^verbatim>\<open>list\<close> nodes of
  timers, \<open>obj_lists\<close> for the object container. Pointers that the code only passes on
  (entry functions, parameters) are numbers. Hooks are not set.
\<close>

type_synonym tid = nat

datatype obj_class =
    RT_Object_Class_Thread | RT_Object_Class_Semaphore | RT_Object_Class_Mutex
  | RT_Object_Class_Event | RT_Object_Class_MailBox | RT_Object_Class_MessageQueue
  | RT_Object_Class_MemPool | RT_Object_Class_Device | RT_Object_Class_Timer
  | RT_Object_Class_Unknown

fun class_num :: "obj_class \<Rightarrow> u8" where
  "class_num RT_Object_Class_Thread = 0"
| "class_num RT_Object_Class_Semaphore = 1"
| "class_num RT_Object_Class_Mutex = 2"
| "class_num RT_Object_Class_Event = 3"
| "class_num RT_Object_Class_MailBox = 4"
| "class_num RT_Object_Class_MessageQueue = 5"
| "class_num RT_Object_Class_MemPool = 6"
| "class_num RT_Object_Class_Device = 7"
| "class_num RT_Object_Class_Timer = 8"
| "class_num RT_Object_Class_Unknown = 9"

definition RT_Object_Class_Static :: u8 where "RT_Object_Class_Static = 0x80"

text \<open>A timer is an object of its own or the one built into a thread.\<close>

datatype tmr = Thread_timer tid | Timer nat

datatype oid =
    Thread_o tid | Sem_o nat | Mutex_o nat | Event_o nat | MailBox_o nat
  | MessageQueue_o nat | MemPool_o nat | Device_o nat | Timer_o tmr

record rt_object =
  o_name :: "u8 list"
  o_type :: u8
  o_flag :: u8

subsection \<open>Timers\<close>

definition RT_TIMER_FLAG_ACTIVATED :: u8 where "RT_TIMER_FLAG_ACTIVATED = 1"
definition RT_TIMER_FLAG_PERIODIC :: u8 where "RT_TIMER_FLAG_PERIODIC = 2"
definition RT_TIMER_FLAG_SOFT_TIMER :: u8 where "RT_TIMER_FLAG_SOFT_TIMER = 4"
definition RT_TIMER_FLAG_ONE_SHOT :: u8 where "RT_TIMER_FLAG_ONE_SHOT = 0"

lemmas timer_flags = RT_TIMER_FLAG_ACTIVATED_def RT_TIMER_FLAG_PERIODIC_def
  RT_TIMER_FLAG_SOFT_TIMER_def RT_TIMER_FLAG_ONE_SHOT_def

datatype tm_func = Rt_thread_timeout | User_func nat

record rt_timer =
  timeout_func :: tm_func
  tm_parameter :: nat
  tm_init_tick :: u32
  timeout_tick :: u32

datatype tm_head = Hard_timers | Soft_timers

subsection \<open>Threads\<close>

datatype thread_stat =
  RT_THREAD_INIT | RT_THREAD_READY | RT_THREAD_SUSPEND | RT_THREAD_RUNNING | RT_THREAD_CLOSE

record rt_thread =
  sp :: u32
  entry :: nat
  th_parameter :: nat
  stack_addr :: u32
  stack_size :: u16
  th_error :: rt_err_t
  stat :: thread_stat
  current_priority :: u8
  init_priority :: u8
  number_mask :: u32
  event_set :: u32
  event_info :: u8
  init_tick :: u32
  remaining_tick :: u32
  cleanup :: "nat option"
  user_data :: u32

text \<open>The heads that a thread's \<^verbatim>\<open>tlist\<close> node can be linked under: the ready lists
  \<^verbatim>\<open>rt_thread_priority_table\<close>, \<^verbatim>\<open>rt_thread_defunct\<close> and the waiting lists of IPC
  objects (a mailbox, a data queue and a pipe have two).\<close>

datatype t_head =
    Ready nat | Defunct
  | Sem_wait nat | Mutex_wait nat | Event_wait nat
  | Mb_wait nat | Mb_send_wait nat | Mq_wait nat | Mp_wait nat
  | Completion_wait nat | Push_wait nat | Pop_wait nat | Pipe_read_wait nat | Pipe_write_wait nat

definition RT_THREAD_PRIORITY_MAX :: nat where "RT_THREAD_PRIORITY_MAX = 32"

subsection \<open>IPC objects\<close>

definition RT_IPC_FLAG_FIFO :: u8 where "RT_IPC_FLAG_FIFO = 0"
definition RT_IPC_FLAG_PRIO :: u8 where "RT_IPC_FLAG_PRIO = 1"
definition RT_IPC_CMD_RESET :: u8 where "RT_IPC_CMD_RESET = 1"

record rt_semaphore =
  sem_value :: u16

record rt_mutex =
  mtx_value :: u16
  original_priority :: u8
  hold :: u8
  owner :: "tid option"

definition RT_EVENT_FLAG_AND :: u8 where "RT_EVENT_FLAG_AND = 1"
definition RT_EVENT_FLAG_OR :: u8 where "RT_EVENT_FLAG_OR = 2"
definition RT_EVENT_FLAG_CLEAR :: u8 where "RT_EVENT_FLAG_CLEAR = 4"

record rt_event =
  ev_set :: u32

record rt_mailbox =
  mb_msg_pool :: nat
  mb_msgs :: "nat \<Rightarrow> u32"
  mb_size :: u16
  mb_entry :: u16
  in_offset :: u16
  out_offset :: u16

text \<open>The slots of a message queue are named by their index in the pool; the bytes of a slot are
  numbered from behind its \<^verbatim>\<open>next\<close> pointer.\<close>

record rt_messagequeue =
  mq_msg_pool :: nat
  msg_size :: u16
  max_msgs :: u16
  mq_entry :: u16
  msg_queue_head :: "nat option"
  msg_queue_tail :: "nat option"
  msg_queue_free :: "nat option"
  msg_next :: "nat \<Rightarrow> nat option"
  msg_data :: "nat \<Rightarrow> nat \<Rightarrow> u8"

text \<open>The word in front of a pool block holds the next free block or the pool it was
  taken from.\<close>

datatype mp_word = Next_block "nat option" | Pool nat

record rt_mempool =
  start_address :: nat
  mp_size :: u32
  block_size :: u32
  block_list :: "nat option"
  block_total_count :: u32
  block_free_count :: u32
  suspend_thread_count :: u32

subsection \<open>Devices and what drivers build on\<close>

text \<open>The structures of \<^verbatim>\<open>components/drivers/include/rtdevice.h\<close> and the device of
  \<^verbatim>\<open>rtdef.h\<close>. A pipe is a device with a ring buffer, whose address is kept beside its bytes. The functions that a device points to are those of the
  pipes, or of a driver.\<close>

record rt_completion =
  cmp_flag :: u32

record rt_data_queue =
  dq_size :: u16
  lwm :: u16
  waiting_lwm :: bool
  get_index :: u16
  put_index :: u16
  dq_mem :: nat
  dq_items :: "nat \<Rightarrow> nat \<times> u32"
  evt_notify :: "nat option"

record rt_pipe_device =
  ringbuffer :: rt_ringbuffer
  buffer_addr :: nat

datatype dev_fn = Rt_pipe_read | Rt_pipe_write | Rt_pipe_control | Driver_fn nat

record rt_device =
  dev_type :: nat
  dev_flag :: u16
  open_flag :: u16
  rx_indicate :: "dev_fn option"
  tx_complete :: "dev_fn option"
  dev_init :: "dev_fn option"
  dev_open :: "dev_fn option"
  dev_close :: "dev_fn option"
  dev_read :: "dev_fn option"
  dev_write :: "dev_fn option"
  dev_control :: "dev_fn option"

subsection \<open>The state of the kernel\<close>

record kstate =
  objs :: "oid \<Rightarrow> rt_object"
  obj_lists :: "(obj_class, oid) lists"
  object_size :: "obj_class \<Rightarrow> u32"
  threads :: "tid \<Rightarrow> rt_thread"
  tlists :: "(t_head, tid) lists"
  timers :: "tmr \<Rightarrow> rt_timer"
  tmlists :: "(tm_head, tmr) lists"
  sems :: "nat \<Rightarrow> rt_semaphore"
  mutexes :: "nat \<Rightarrow> rt_mutex"
  events :: "nat \<Rightarrow> rt_event"
  mailboxes :: "nat \<Rightarrow> rt_mailbox"
  msgqueues :: "nat \<Rightarrow> rt_messagequeue"
  mempools :: "nat \<Rightarrow> rt_mempool"
  mp_mem :: "nat \<Rightarrow> mp_word"
  rt_scheduler_lock_nest :: u16
  rt_interrupt_nest :: u8
  rt_thread_ready_priority_group :: u32
  rt_current_thread :: "tid option"
  rt_current_priority :: u8
  rt_tick :: u32
  timer_thread :: tid
  rt_interrupt_from_thread :: "tid option"
  rt_interrupt_to_thread :: "tid option"
  rt_thread_switch_interrupt_flag :: bool
  kheap :: heap
  completions :: "nat \<Rightarrow> rt_completion"
  data_queues :: "nat \<Rightarrow> rt_data_queue"
  pipes :: "nat \<Rightarrow> rt_pipe_device"
  devices :: "nat \<Rightarrow> rt_device"
  rt_errno :: rt_err_t

text \<open>Assignments to a field of one object.\<close>

abbreviation upd_obj :: "oid \<Rightarrow> (rt_object \<Rightarrow> rt_object) \<Rightarrow> kstate \<Rightarrow> kstate" where
  "upd_obj x f s \<equiv> s\<lparr>objs := (objs s)(x := f (objs s x))\<rparr>"

abbreviation upd_thread :: "tid \<Rightarrow> (rt_thread \<Rightarrow> rt_thread) \<Rightarrow> kstate \<Rightarrow> kstate" where
  "upd_thread t f s \<equiv> s\<lparr>threads := (threads s)(t := f (threads s t))\<rparr>"

abbreviation upd_timer :: "tmr \<Rightarrow> (rt_timer \<Rightarrow> rt_timer) \<Rightarrow> kstate \<Rightarrow> kstate" where
  "upd_timer x f s \<equiv> s\<lparr>timers := (timers s)(x := f (timers s x))\<rparr>"

abbreviation upd_sem :: "nat \<Rightarrow> (rt_semaphore \<Rightarrow> rt_semaphore) \<Rightarrow> kstate \<Rightarrow> kstate" where
  "upd_sem x f s \<equiv> s\<lparr>sems := (sems s)(x := f (sems s x))\<rparr>"

abbreviation upd_mutex :: "nat \<Rightarrow> (rt_mutex \<Rightarrow> rt_mutex) \<Rightarrow> kstate \<Rightarrow> kstate" where
  "upd_mutex x f s \<equiv> s\<lparr>mutexes := (mutexes s)(x := f (mutexes s x))\<rparr>"

abbreviation upd_event :: "nat \<Rightarrow> (rt_event \<Rightarrow> rt_event) \<Rightarrow> kstate \<Rightarrow> kstate" where
  "upd_event x f s \<equiv> s\<lparr>events := (events s)(x := f (events s x))\<rparr>"

abbreviation upd_mb :: "nat \<Rightarrow> (rt_mailbox \<Rightarrow> rt_mailbox) \<Rightarrow> kstate \<Rightarrow> kstate" where
  "upd_mb x f s \<equiv> s\<lparr>mailboxes := (mailboxes s)(x := f (mailboxes s x))\<rparr>"

abbreviation upd_mq :: "nat \<Rightarrow> (rt_messagequeue \<Rightarrow> rt_messagequeue) \<Rightarrow> kstate \<Rightarrow> kstate" where
  "upd_mq x f s \<equiv> s\<lparr>msgqueues := (msgqueues s)(x := f (msgqueues s x))\<rparr>"

abbreviation upd_mp :: "nat \<Rightarrow> (rt_mempool \<Rightarrow> rt_mempool) \<Rightarrow> kstate \<Rightarrow> kstate" where
  "upd_mp x f s \<equiv> s\<lparr>mempools := (mempools s)(x := f (mempools s x))\<rparr>"

abbreviation upd_completion :: "nat \<Rightarrow> (rt_completion \<Rightarrow> rt_completion) \<Rightarrow> kstate \<Rightarrow> kstate" where
  "upd_completion x f s \<equiv> s\<lparr>completions := (completions s)(x := f (completions s x))\<rparr>"

abbreviation upd_dq :: "nat \<Rightarrow> (rt_data_queue \<Rightarrow> rt_data_queue) \<Rightarrow> kstate \<Rightarrow> kstate" where
  "upd_dq x f s \<equiv> s\<lparr>data_queues := (data_queues s)(x := f (data_queues s x))\<rparr>"

abbreviation upd_pipe :: "nat \<Rightarrow> (rt_pipe_device \<Rightarrow> rt_pipe_device) \<Rightarrow> kstate \<Rightarrow> kstate" where
  "upd_pipe x f s \<equiv> s\<lparr>pipes := (pipes s)(x := f (pipes s x))\<rparr>"

abbreviation upd_dev :: "nat \<Rightarrow> (rt_device \<Rightarrow> rt_device) \<Rightarrow> kstate \<Rightarrow> kstate" where
  "upd_dev x f s \<equiv> s\<lparr>devices := (devices s)(x := f (devices s x))\<rparr>"

text \<open>List operations on the three sets of lists.\<close>

abbreviation on_tlists ::
  "((t_head, tid) lists \<Rightarrow> (t_head, tid) lists option) \<Rightarrow> kstate \<Rightarrow> kstate option" where
  "on_tlists f s \<equiv> map_option (\<lambda>L. s\<lparr>tlists := L\<rparr>) (f (tlists s))"

abbreviation on_tmlists ::
  "((tm_head, tmr) lists \<Rightarrow> (tm_head, tmr) lists option) \<Rightarrow> kstate \<Rightarrow> kstate option" where
  "on_tmlists f s \<equiv> map_option (\<lambda>L. s\<lparr>tmlists := L\<rparr>) (f (tmlists s))"

abbreviation on_obj_lists ::
  "((obj_class, oid) lists \<Rightarrow> (obj_class, oid) lists option) \<Rightarrow> kstate \<Rightarrow> kstate option" where
  "on_obj_lists f s \<equiv> map_option (\<lambda>L. s\<lparr>obj_lists := L\<rparr>) (f (obj_lists s))"

text \<open>\<^verbatim>\<open>RT_DEBUG_NOT_IN_INTERRUPT\<close>: the assertion fails inside an interrupt handler.\<close>

definition rt_debug_not_in_interrupt :: "kstate \<Rightarrow> kstate option" where
  "rt_debug_not_in_interrupt s = rt_assert (rt_interrupt_nest s = 0) s"

end
