(* ===== verification/Object.thy ===== *)
theory Object
  imports Rt_Def
begin

text \<open>
  Static kernel objects: \<^verbatim>\<open>src/object.c\<close> without the operations that need the heap or
  the scheduler, which are in \<open>Object_Heap\<close>.
\<close>

definition RT_NAME_MAX :: nat where "RT_NAME_MAX = 8"

text \<open>\<^verbatim>\<open>rt_strncpy\<close> into a name: a C string is the list of its bytes before the NUL; the
  copy is cut at \<open>n\<close> bytes and padded with NULs.\<close>

definition rt_strncpy :: "u8 list \<Rightarrow> nat \<Rightarrow> u8 list" where
  "rt_strncpy src n = take n (src @ replicate n 0)"

lemma length_rt_strncpy [simp]: "length (rt_strncpy src n) = n"
  by (simp add: rt_strncpy_def)

text \<open>\<^verbatim>\<open>rt_strncmp\<close>: what lies after the bytes of a string is its NUL; the result is the
  signed difference of the first two bytes that differ.\<close>

fun rt_strncmp :: "u8 list \<Rightarrow> u8 list \<Rightarrow> nat \<Rightarrow> u32" where
  "rt_strncmp cs ct 0 = 0"
| "rt_strncmp cs ct (Suc n) =
     (let c = (case cs of [] \<Rightarrow> 0 | a # _ \<Rightarrow> a);
          d = (case ct of [] \<Rightarrow> 0 | a # _ \<Rightarrow> a);
          res = c - d
      in if res \<noteq> 0 \<or> c = 0 then scast res
         else rt_strncmp (tl cs) (tl ct) n)"

definition rt_object_init :: "oid \<Rightarrow> obj_class \<Rightarrow> u8 list \<Rightarrow> kstate \<Rightarrow> kstate option" where
  "rt_object_init x c nm s =
     (let s = upd_obj x (\<lambda>r. r\<lparr>o_type := class_num c OR RT_Object_Class_Static\<rparr>) s;
          s = upd_obj x (\<lambda>r. r\<lparr>o_name := rt_strncpy nm RT_NAME_MAX\<rparr>) s
      in on_obj_lists (l_insert_first c x) s)"

definition rt_object_detach :: "oid \<Rightarrow> kstate \<Rightarrow> kstate" where
  "rt_object_detach x s = s\<lparr>obj_lists := l_remove x (obj_lists s)\<rparr>"

definition rt_object_is_systemobject :: "oid \<Rightarrow> kstate \<Rightarrow> bool" where
  "rt_object_is_systemobject x s \<longleftrightarrow> o_type (objs s x) AND RT_Object_Class_Static \<noteq> 0"

text \<open>An initialised object is a system object, listed first under its class.\<close>

lemma rt_object_init_Some:
  "rt_object_init x c nm s = Some s' \<longleftrightarrow>
     onlist (obj_lists s) x = None \<and>
     s' = s\<lparr>objs := (objs s)(x := (objs s x)\<lparr>o_type := class_num c OR RT_Object_Class_Static,
                                             o_name := rt_strncpy nm RT_NAME_MAX\<rparr>),
           obj_lists := (obj_lists s)\<lparr>elems := (elems (obj_lists s))(c := x # elems (obj_lists s) c),
                                      onlist := (onlist (obj_lists s))(x \<mapsto> c)\<rparr>\<rparr>"
  by (auto simp: rt_object_init_def Let_def l_insert_first_Some)

lemma rt_object_init_system:
  "rt_object_init x c nm s = Some s' \<Longrightarrow> rt_object_is_systemobject x s'"
  by (auto simp: rt_object_init_Some rt_object_is_systemobject_def RT_Object_Class_Static_def)

end
