(* ===== verification/Scheduler.thy ===== *)
theory Scheduler
  imports Object
begin

text \<open>
  \<^verbatim>\<open>src/scheduler.c\<close>: the ready lists, the bitmap of non-empty priorities, the choice of the
  next thread and the scheduler lock; and the part of the context switch of
  \<^verbatim>\<open>libcpu/arm/cortex-m4\<close> that the choice is handed to. The invariant \<open>sched_inv\<close> ties the
  status of every thread to the list it is on and the bitmap to the lists.
\<close>

subsection \<open>The highest ready priority\<close>

definition rt_lowest_bitmap :: "nat list" where
  "rt_lowest_bitmap = [
    0, 0, 1, 0, 2, 0, 1, 0, 3, 0, 1, 0, 2, 0, 1, 0,
    4, 0, 1, 0, 2, 0, 1, 0, 3, 0, 1, 0, 2, 0, 1, 0,
    5, 0, 1, 0, 2, 0, 1, 0, 3, 0, 1, 0, 2, 0, 1, 0,
    4, 0, 1, 0, 2, 0, 1, 0, 3, 0, 1, 0, 2, 0, 1, 0,
    6, 0, 1, 0, 2, 0, 1, 0, 3, 0, 1, 0, 2, 0, 1, 0,
    4, 0, 1, 0, 2, 0, 1, 0, 3, 0, 1, 0, 2, 0, 1, 0,
    5, 0, 1, 0, 2, 0, 1, 0, 3, 0, 1, 0, 2, 0, 1, 0,
    4, 0, 1, 0, 2, 0, 1, 0, 3, 0, 1, 0, 2, 0, 1, 0,
    7, 0, 1, 0, 2, 0, 1, 0, 3, 0, 1, 0, 2, 0, 1, 0,
    4, 0, 1, 0, 2, 0, 1, 0, 3, 0, 1, 0, 2, 0, 1, 0,
    5, 0, 1, 0, 2, 0, 1, 0, 3, 0, 1, 0, 2, 0, 1, 0,
    4, 0, 1, 0, 2, 0, 1, 0, 3, 0, 1, 0, 2, 0, 1, 0,
    6, 0, 1, 0, 2, 0, 1, 0, 3, 0, 1, 0, 2, 0, 1, 0,
    4, 0, 1, 0, 2, 0, 1, 0, 3, 0, 1, 0, 2, 0, 1, 0,
    5, 0, 1, 0, 2, 0, 1, 0, 3, 0, 1, 0, 2, 0, 1, 0,
    4, 0, 1, 0, 2, 0, 1, 0, 3, 0, 1, 0, 2, 0, 1, 0]"

definition highest_ready_priority :: "u32 \<Rightarrow> nat" where
  "highest_ready_priority g =
     (if g AND 0xff \<noteq> 0 then rt_lowest_bitmap ! unat (g AND 0xff)
      else if g AND 0xff00 \<noteq> 0 then rt_lowest_bitmap ! unat (drop_bit 8 g AND 0xff) + 8
      else if g AND 0xff0000 \<noteq> 0 then rt_lowest_bitmap ! unat (drop_bit 16 g AND 0xff) + 16
      else rt_lowest_bitmap ! unat (drop_bit 24 g AND 0xff) + 24)"

subsection \<open>The context switch\<close>

definition rt_hw_context_switch :: "tid \<Rightarrow> tid \<Rightarrow> kstate \<Rightarrow> kstate" where
  "rt_hw_context_switch from to s =
     (let s = (if rt_thread_switch_interrupt_flag s then s
               else s\<lparr>rt_thread_switch_interrupt_flag := True,
                      rt_interrupt_from_thread := Some from\<rparr>)
      in s\<lparr>rt_interrupt_to_thread := Some to\<rparr>)"

text \<open>The stack check loops forever when the stack has overflowed.\<close>

definition rt_scheduler_stack_check :: "tid \<Rightarrow> kstate \<Rightarrow> kstate option" where
  "rt_scheduler_stack_check t s =
     (let th = threads s t
      in if sp th \<le> stack_addr th \<or> sp th > stack_addr th + ucast (stack_size th)
         then None else Some s)"

subsection \<open>The scheduler\<close>

definition rt_system_scheduler_init :: "kstate \<Rightarrow> kstate option" where
  "rt_system_scheduler_init s =
     (let s = s\<lparr>rt_scheduler_lock_nest := 0\<rparr>
      in do {
        s \<leftarrow> fold (\<lambda>p m. do { s \<leftarrow> m; on_tlists (l_init_head (Ready p)) s })
               [0..<RT_THREAD_PRIORITY_MAX] (Some s);
        let s = s\<lparr>rt_current_priority := of_nat (RT_THREAD_PRIORITY_MAX - 1),
                  rt_current_thread := None,
                  rt_thread_ready_priority_group := 0\<rparr>;
        on_tlists (l_init_head Defunct) s
      })"

definition rt_system_scheduler_start :: "kstate \<Rightarrow> kstate option" where
  "rt_system_scheduler_start s =
     (let p = highest_ready_priority (rt_thread_ready_priority_group s)
      in case elems (tlists s) (Ready p) of
           [] \<Rightarrow> None
         | to_thread # _ \<Rightarrow> Some (s\<lparr>rt_current_thread := Some to_thread,
                                     rt_interrupt_to_thread := Some to_thread,
                                     rt_interrupt_from_thread := None,
                                     rt_thread_switch_interrupt_flag := True\<rparr>))"

definition rt_schedule :: "kstate \<Rightarrow> kstate option" where
  "rt_schedule s =
     (if rt_scheduler_lock_nest s = 0 then
        let p = highest_ready_priority (rt_thread_ready_priority_group s)
        in case elems (tlists s) (Ready p) of
             [] \<Rightarrow> None
           | to_thread # _ \<Rightarrow>
               if rt_current_thread s \<noteq> Some to_thread then
                 (case rt_current_thread s of
                    None \<Rightarrow> None
                  | Some from_thread \<Rightarrow> do {
                      let s = s\<lparr>rt_current_priority := of_nat p, rt_current_thread := Some to_thread\<rparr>;
                      s \<leftarrow> rt_scheduler_stack_check to_thread s;
                      Some (rt_hw_context_switch from_thread to_thread s)
                    })
               else Some s
      else Some s)"

definition rt_schedule_insert_thread :: "tid \<Rightarrow> kstate \<Rightarrow> kstate option" where
  "rt_schedule_insert_thread t s = do {
     let s = upd_thread t (\<lambda>r. r\<lparr>stat := RT_THREAD_READY\<rparr>) s;
     let p = unat (current_priority (threads s t));
     s \<leftarrow> rt_assert (p < RT_THREAD_PRIORITY_MAX) s;
     s \<leftarrow> on_tlists (l_insert_last (Ready p) t) s;
     Some (s\<lparr>rt_thread_ready_priority_group :=
               rt_thread_ready_priority_group s OR number_mask (threads s t)\<rparr>)
   }"

definition rt_schedule_remove_thread :: "tid \<Rightarrow> kstate \<Rightarrow> kstate option" where
  "rt_schedule_remove_thread t s = do {
     let s = s\<lparr>tlists := l_remove t (tlists s)\<rparr>;
     let p = unat (current_priority (threads s t));
     s \<leftarrow> rt_assert (p < RT_THREAD_PRIORITY_MAX) s;
     Some (if elems (tlists s) (Ready p) = []
           then s\<lparr>rt_thread_ready_priority_group :=
                    rt_thread_ready_priority_group s AND NOT (number_mask (threads s t))\<rparr>
           else s)
   }"

definition rt_enter_critical :: "kstate \<Rightarrow> kstate" where
  "rt_enter_critical s = s\<lparr>rt_scheduler_lock_nest := rt_scheduler_lock_nest s + 1\<rparr>"

definition rt_exit_critical :: "kstate \<Rightarrow> kstate option" where
  "rt_exit_critical s =
     (let s = s\<lparr>rt_scheduler_lock_nest := rt_scheduler_lock_nest s - 1\<rparr>
      in if sint (rt_scheduler_lock_nest s) \<le> 0
         then rt_schedule (s\<lparr>rt_scheduler_lock_nest := 0\<rparr>)
         else Some s)"

subsection \<open>The bitmap search finds the lowest set bit\<close>

definition lowest_bit_ok :: "nat \<Rightarrow> nat \<Rightarrow> bool" where
  "lowest_bit_ok n k \<longleftrightarrow> n mod 2 ^ k = 0 \<and> odd (n div 2 ^ k)"

text \<open>The table for \<open>k + 1\<close> bits repeats the one for \<open>k\<close> bits, with \<open>k\<close> in place of the
  first entry of the second half.\<close>

primrec lowest_table :: "nat \<Rightarrow> nat list" where
  "lowest_table 0 = [0]"
| "lowest_table (Suc k) = lowest_table k @ k # tl (lowest_table k)"

lemma rt_lowest_bitmap_table: "rt_lowest_bitmap = lowest_table 8"
  by (simp add: rt_lowest_bitmap_def numeral_eq_Suc)

lemma length_lowest_table: "length (lowest_table k) = 2 ^ k"
  by (induction k) auto

lemma lowest_table_ok:
  "0 < n \<Longrightarrow> n < 2 ^ k \<Longrightarrow> lowest_table k ! n < k \<and> lowest_bit_ok n (lowest_table k ! n)"
proof (induction k arbitrary: n)
  case (Suc k)
  show ?case
  proof (cases n "2 ^ k :: nat" rule: linorder_cases)
    case less
    then have "lowest_table (Suc k) ! n = lowest_table k ! n"
      by (simp add: nth_append length_lowest_table)
    with Suc.IH [of n] Suc.prems less show ?thesis by auto
  next
    case equal
    then show ?thesis by (simp add: nth_append length_lowest_table lowest_bit_ok_def)
  next
    case greater
    define m where "m = n - 2 ^ k"
    have m: "n = 2 ^ k + m" "0 < m" "m < 2 ^ k" using greater Suc.prems by (auto simp: m_def)
    define j where "j = lowest_table k ! m"
    have j: "j < k" "m mod 2 ^ j = 0" "odd (m div 2 ^ j)"
      using Suc.IH [of m] m by (auto simp: j_def lowest_bit_ok_def)
    have "lowest_table (Suc k) ! n = j"
      using m(2,3) by (simp add: m(1) nth_append length_lowest_table nth_Cons' nth_tl j_def)
    moreover have "(2::nat) ^ k = 2 ^ (k - j) * 2 ^ j" using j(1) by (simp flip: power_add)
    then have "lowest_bit_ok n j"
      using j by (simp add: lowest_bit_ok_def m(1))
    ultimately show ?thesis using j(1) by simp
  qed
qed simp

lemma rt_lowest_bitmap_ok:
  "0 < n \<Longrightarrow> n < 256 \<Longrightarrow> rt_lowest_bitmap ! n < 8 \<and> lowest_bit_ok n (rt_lowest_bitmap ! n)"
  using lowest_table_ok [of n 8] by (simp add: rt_lowest_bitmap_table)

lemma lowest_bit_ok_bit:
  assumes "lowest_bit_ok n k"
  shows "bit n k" and "j < k \<Longrightarrow> \<not> bit n j"
proof -
  show "bit n k" using assms by (simp add: lowest_bit_ok_def bit_iff_odd)
  assume "j < k"
  have "take_bit k n = 0" using assms by (simp add: lowest_bit_ok_def take_bit_eq_mod)
  then have "\<not> bit (take_bit k n) j" by simp
  with \<open>j < k\<close> show "\<not> bit n j" by (simp add: bit_take_bit_iff)
qed

lemma lowest_byte:
  fixes b :: u32
  assumes b: "b \<noteq> 0" "b = drop_bit m g AND 0xff"
  shows "rt_lowest_bitmap ! unat b < 8"
    and "bit g (rt_lowest_bitmap ! unat b + m)"
    and "j < rt_lowest_bitmap ! unat b \<Longrightarrow> \<not> bit g (j + m)"
proof -
  let ?k = "rt_lowest_bitmap ! unat b"
  have mask: "(0xff :: u32) = mask 8" by (simp add: mask_eq_exp_minus_1)
  have b8: "b = take_bit 8 (drop_bit m g)" by (simp add: b(2) mask take_bit_eq_mask)
  have "unat b < 2 ^ 8" unfolding b8 by (metis take_bit_nat_less_exp unsigned_take_bit_eq)
  then have ok: "lowest_bit_ok (unat b) ?k" and k: "?k < 8"
    using b(1) rt_lowest_bitmap_ok [of "unat b"] by (auto simp: unat_gt_0)
  from k show "?k < 8" .
  have bb: "bit (unat b) j \<longleftrightarrow> bit g (j + m)" if "j < 8" for j
    using that by (simp add: b8 bit_unsigned_iff bit_take_bit_iff bit_drop_bit_eq add.commute)
  show "bit g (?k + m)" using lowest_bit_ok_bit(1) [OF ok] bb [OF k] by simp
  show "\<not> bit g (j + m)" if "j < ?k"
    using lowest_bit_ok_bit(2) [OF ok that] bb [of j] that k by simp
qed

lemma byte_zero:
  fixes g :: u32
  assumes "drop_bit m g AND 0xff = 0" "m \<le> j" "j < m + 8"
  shows "\<not> bit g j"
proof -
  have mask: "(0xff :: u32) = mask 8" by (simp add: mask_eq_exp_minus_1)
  have "take_bit 8 (drop_bit m g) = 0" using assms(1) by (simp add: mask take_bit_eq_mask)
  then have "\<not> bit (take_bit 8 (drop_bit m g)) (j - m)" by simp
  with assms(2,3) show ?thesis by (simp add: bit_take_bit_iff bit_drop_bit_eq)
qed

lemma mask_byte_shift:
  fixes g :: u32
  shows "g AND 0xff00 = 0 \<longleftrightarrow> drop_bit 8 g AND 0xff = 0" (is ?t8)
    and "g AND 0xff0000 = 0 \<longleftrightarrow> drop_bit 16 g AND 0xff = 0" (is ?t16)
proof -
  have m: "(0xff :: u32) = mask 8" "(0xff00 :: u32) = push_bit 8 (mask 8)"
    "(0xff0000 :: u32) = push_bit 16 (mask 8)"
    by (simp_all add: mask_eq_exp_minus_1 push_bit_eq_mult)
  have "g AND push_bit 8 (mask 8) = push_bit 8 (drop_bit 8 g AND mask 8)"
    and "g AND push_bit 16 (mask 8) = push_bit 16 (drop_bit 16 g AND mask 8)"
    by (rule bit_word_eqI; auto simp: bit_and_iff bit_push_bit_iff bit_mask_iff bit_drop_bit_eq)+
  moreover have "drop_bit 8 (g AND push_bit 8 (mask 8)) = drop_bit 8 g AND mask 8"
    and "drop_bit 16 (g AND push_bit 16 (mask 8)) = drop_bit 16 g AND mask 8"
    by (rule bit_word_eqI; auto simp: bit_and_iff bit_push_bit_iff bit_mask_iff bit_drop_bit_eq
        dest: bit_imp_le_length)+
  ultimately show ?t8 ?t16 unfolding m by (metis drop_bit_of_0 push_bit_of_0)+
qed

lemma shift_byte_24:
  fixes g :: u32
  assumes "drop_bit 8 g AND 0xff = 0" "drop_bit 16 g AND 0xff = 0" "g AND 0xff = 0" "g \<noteq> 0"
  shows "drop_bit 24 g AND 0xff \<noteq> 0"
proof
  assume "drop_bit 24 g AND 0xff = 0"
  then have "\<not> bit g j" if "j < 32" for j
    using that assms byte_zero [of 0 g j] byte_zero [of 8 g j] byte_zero [of 16 g j]
      byte_zero [of 24 g j]
    by (cases "j < 8"; cases "j < 16"; cases "j < 24") auto
  with \<open>g \<noteq> 0\<close> show False by (auto simp: word_neq_0_bit)
qed

lemma highest_ready_priority_bit:
  assumes "g \<noteq> 0"
  shows "highest_ready_priority g < 32 \<and> bit g (highest_ready_priority g) \<and>
         (\<forall>j < highest_ready_priority g. \<not> bit g j)"
proof -
  have byte: "rt_lowest_bitmap ! unat (drop_bit m g AND 0xff) + m < 32 \<and>
      bit g (rt_lowest_bitmap ! unat (drop_bit m g AND 0xff) + m) \<and>
      (\<forall>j < rt_lowest_bitmap ! unat (drop_bit m g AND 0xff) + m. \<not> bit g j)"
    if "drop_bit m g AND 0xff \<noteq> 0" "m \<le> 24" and low: "\<And>j. j < m \<Longrightarrow> \<not> bit g j" for m
  proof (intro conjI allI impI)
    note lb = lowest_byte [OF that(1) refl]
    show "rt_lowest_bitmap ! unat (drop_bit m g AND 0xff) + m < 32" using lb(1) that(2) by simp
    show "bit g (rt_lowest_bitmap ! unat (drop_bit m g AND 0xff) + m)" by (rule lb(2))
    fix j assume "j < rt_lowest_bitmap ! unat (drop_bit m g AND 0xff) + m"
    then show "\<not> bit g j" using lb(3) [of "j - m"] low [of j] by (cases "j < m") auto
  qed
  consider (b0) "g AND 0xff \<noteq> 0"
    | (b8) "g AND 0xff = 0" "drop_bit 8 g AND 0xff \<noteq> 0"
    | (b16) "g AND 0xff = 0" "drop_bit 8 g AND 0xff = 0" "drop_bit 16 g AND 0xff \<noteq> 0"
    | (b24) "g AND 0xff = 0" "drop_bit 8 g AND 0xff = 0" "drop_bit 16 g AND 0xff = 0"
    by blast
  then show ?thesis
  proof cases
    case b0
    then show ?thesis using byte [of 0] by (simp add: highest_ready_priority_def)
  next
    case b8
    have "\<not> bit g j" if "j < 8" for j using b8 byte_zero [of 0 g j] that by simp
    from byte [OF b8(2) _ this] b8 show ?thesis
      by (simp add: highest_ready_priority_def mask_byte_shift)
  next
    case b16
    have "\<not> bit g j" if "j < 16" for j
      using that b16 byte_zero [of 0 g j] byte_zero [of 8 g j] by (cases "j < 8") auto
    from byte [OF b16(3) _ this] b16 show ?thesis
      by (simp add: highest_ready_priority_def mask_byte_shift)
  next
    case b24
    have "\<not> bit g j" if "j < 24" for j
      using that b24 byte_zero [of 0 g j] byte_zero [of 8 g j] byte_zero [of 16 g j]
      by (cases "j < 8"; cases "j < 16") auto
    from byte [OF shift_byte_24 _ this] b24 assms show ?thesis
      by (simp add: highest_ready_priority_def mask_byte_shift)
  qed
qed

subsection \<open>The scheduler invariant\<close>

fun is_wait :: "t_head \<Rightarrow> bool" where
  "is_wait (Ready _) = False"
| "is_wait Defunct = False"
| "is_wait _ = True"

definition prio_ok :: "rt_thread \<Rightarrow> bool" where
  "prio_ok th \<longleftrightarrow> unat (current_priority th) < RT_THREAD_PRIORITY_MAX \<and>
                 number_mask th = 2 ^ unat (current_priority th)"

definition thread_ok :: "rt_thread \<Rightarrow> t_head option \<Rightarrow> bool" where
  "thread_ok th l \<longleftrightarrow>
     (case stat th of
        RT_THREAD_INIT \<Rightarrow> l = None
      | RT_THREAD_READY \<Rightarrow> l = Some (Ready (unat (current_priority th))) \<and> prio_ok th
      | RT_THREAD_SUSPEND \<Rightarrow> (\<forall>h. l = Some h \<longrightarrow> is_wait h) \<and> prio_ok th
      | RT_THREAD_RUNNING \<Rightarrow> False
      | RT_THREAD_CLOSE \<Rightarrow> l = None \<or> l = Some Defunct)"

definition bitmap_ok :: "(t_head, tid) lists \<Rightarrow> u32 \<Rightarrow> bool" where
  "bitmap_ok L g \<longleftrightarrow> (\<forall>p < RT_THREAD_PRIORITY_MAX. bit g p \<longleftrightarrow> elems L (Ready p) \<noteq> [])"

text \<open>The invariant with one thread left out, for the states inside an operation.\<close>

definition sched_but :: "tid set \<Rightarrow> (tid \<Rightarrow> rt_thread) \<Rightarrow> (t_head, tid) lists \<Rightarrow> u32 \<Rightarrow> bool" where
  "sched_but X T L g \<longleftrightarrow>
     wf_lists L \<and> (\<forall>t. t \<notin> X \<longrightarrow> thread_ok (T t) (onlist L t)) \<and> bitmap_ok L g"

definition sched_inv :: "kstate \<Rightarrow> bool" where
  "sched_inv s \<longleftrightarrow> sched_but {} (threads s) (tlists s) (rt_thread_ready_priority_group s)"

lemma thread_ok_cong:
  "stat th = stat th' \<Longrightarrow> current_priority th = current_priority th' \<Longrightarrow>
   number_mask th = number_mask th' \<Longrightarrow> thread_ok th l = thread_ok th' l"
  by (cases "stat th'") (simp_all add: thread_ok_def prio_ok_def)

text \<open>Fields of a thread that the invariant does not mention.\<close>

lemma thread_ok_upd [simp]:
  "thread_ok (th\<lparr>th_error := e\<rparr>) l = thread_ok th l"
  "thread_ok (th\<lparr>event_set := w\<rparr>) l = thread_ok th l"
  "thread_ok (th\<lparr>event_info := b\<rparr>) l = thread_ok th l"
  "thread_ok (th\<lparr>remaining_tick := w\<rparr>) l = thread_ok th l"
  "thread_ok (th\<lparr>cleanup := c\<rparr>) l = thread_ok th l"
  by (rule thread_ok_cong; simp)+

lemma sched_but_same:
  assumes "\<And>l. thread_ok th l = thread_ok (T t) l"
  shows "sched_but X (T(t := th)) L g = sched_but X T L g"
  using assms by (auto simp: sched_but_def)

lemma sched_but_upds [simp]:
  "sched_but X (T(t := (T t)\<lparr>th_error := e\<rparr>)) L g = sched_but X T L g"
  "sched_but X (T(t := (T t)\<lparr>event_set := w\<rparr>)) L g = sched_but X T L g"
  "sched_but X (T(t := (T t)\<lparr>event_info := b\<rparr>)) L g = sched_but X T L g"
  "sched_but X (T(t := (T t)\<lparr>remaining_tick := w\<rparr>)) L g = sched_but X T L g"
  "sched_but X (T(t := (T t)\<lparr>event_set := w, event_info := b\<rparr>)) L g = sched_but X T L g"
  by (rule sched_but_same; simp)+

lemma sched_but_mono: "sched_but X T L g \<Longrightarrow> X \<subseteq> Y \<Longrightarrow> sched_but Y T L g"
  by (auto simp: sched_but_def)

lemma sched_but_wf: "sched_but X T L g \<Longrightarrow> wf_lists L"
  by (simp add: sched_but_def)

lemma sched_but_ok: "sched_but X T L g \<Longrightarrow> t \<notin> X \<Longrightarrow> thread_ok (T t) (onlist L t)"
  by (simp add: sched_but_def)

lemma sched_but_change:
  assumes "sched_but X T L g" "t \<in> X"
  shows "sched_but X (T(t := th)) L g"
  using assms by (auto simp: sched_but_def)

lemma sched_but_close:
  assumes "sched_but (insert t X) T L g" "thread_ok (T t) (onlist L t)"
  shows "sched_but X T L g"
  using assms by (auto simp: sched_but_def)

text \<open>The invariant does not mention the rest of the state.\<close>

lemma sched_inv_upd [simp]:
  "sched_inv (s\<lparr>objs := v_objs\<rparr>) = sched_inv s"
  "sched_inv (s\<lparr>obj_lists := v_obj_lists\<rparr>) = sched_inv s"
  "sched_inv (s\<lparr>object_size := v_object_size\<rparr>) = sched_inv s"
  "sched_inv (s\<lparr>timers := v_timers\<rparr>) = sched_inv s"
  "sched_inv (s\<lparr>tmlists := v_tmlists\<rparr>) = sched_inv s"
  "sched_inv (s\<lparr>sems := v_sems\<rparr>) = sched_inv s"
  "sched_inv (s\<lparr>mutexes := v_mutexes\<rparr>) = sched_inv s"
  "sched_inv (s\<lparr>events := v_events\<rparr>) = sched_inv s"
  "sched_inv (s\<lparr>mailboxes := v_mailboxes\<rparr>) = sched_inv s"
  "sched_inv (s\<lparr>msgqueues := v_msgqueues\<rparr>) = sched_inv s"
  "sched_inv (s\<lparr>mempools := v_mempools\<rparr>) = sched_inv s"
  "sched_inv (s\<lparr>mp_mem := v_mp_mem\<rparr>) = sched_inv s"
  "sched_inv (s\<lparr>rt_scheduler_lock_nest := v_rt_scheduler_lock_nest\<rparr>) = sched_inv s"
  "sched_inv (s\<lparr>rt_interrupt_nest := v_rt_interrupt_nest\<rparr>) = sched_inv s"
  "sched_inv (s\<lparr>rt_current_thread := v_rt_current_thread\<rparr>) = sched_inv s"
  "sched_inv (s\<lparr>rt_current_priority := v_rt_current_priority\<rparr>) = sched_inv s"
  "sched_inv (s\<lparr>rt_tick := v_rt_tick\<rparr>) = sched_inv s"
  "sched_inv (s\<lparr>timer_thread := v_timer_thread\<rparr>) = sched_inv s"
  "sched_inv (s\<lparr>rt_interrupt_from_thread := v_rt_interrupt_from_thread\<rparr>) = sched_inv s"
  "sched_inv (s\<lparr>rt_interrupt_to_thread := v_rt_interrupt_to_thread\<rparr>) = sched_inv s"
  "sched_inv (s\<lparr>rt_thread_switch_interrupt_flag := v_rt_thread_switch_interrupt_flag\<rparr>) = sched_inv s"
  "sched_inv (s\<lparr>kheap := v_kheap\<rparr>) = sched_inv s"
  "sched_inv (s\<lparr>completions := v_completions\<rparr>) = sched_inv s"
  "sched_inv (s\<lparr>data_queues := v_data_queues\<rparr>) = sched_inv s"
  "sched_inv (s\<lparr>pipes := v_pipes\<rparr>) = sched_inv s"
  "sched_inv (s\<lparr>devices := v_devices\<rparr>) = sched_inv s"
  "sched_inv (s\<lparr>rt_errno := v_rt_errno\<rparr>) = sched_inv s"
  by (simp_all add: sched_inv_def)

text \<open>Members of a ready list are exactly the ready threads of that priority.\<close>

lemma sched_ready_iff:
  assumes "sched_but {} T L g"
  shows "t \<in> set (elems L (Ready p)) \<longleftrightarrow> stat (T t) = RT_THREAD_READY \<and> unat (current_priority (T t)) = p"
  using sched_but_ok [OF assms, of t] wf_listsD(2) [OF sched_but_wf [OF assms], of t "Ready p"]
  by (cases "stat (T t)") (auto simp: thread_ok_def)

subsection \<open>Ready list operations\<close>

lemma rt_schedule_insert_thread_Some:
  "rt_schedule_insert_thread t s = Some s' \<longleftrightarrow>
     unat (current_priority (threads s t)) < RT_THREAD_PRIORITY_MAX \<and>
     onlist (tlists s) t = None \<and>
     s' = s\<lparr>threads := (threads s)(t := (threads s t)\<lparr>stat := RT_THREAD_READY\<rparr>),
            tlists := (tlists s)\<lparr>
              elems := (elems (tlists s))
                (Ready (unat (current_priority (threads s t))) :=
                   elems (tlists s) (Ready (unat (current_priority (threads s t)))) @ [t]),
              onlist := (onlist (tlists s))(t \<mapsto> Ready (unat (current_priority (threads s t))))\<rparr>,
            rt_thread_ready_priority_group :=
              rt_thread_ready_priority_group s OR number_mask (threads s t)\<rparr>"
  by (auto simp: rt_schedule_insert_thread_def Let_def l_insert_last_Some bind_eq_Some_conv)

lemma rt_schedule_remove_thread_Some:
  "rt_schedule_remove_thread t s = Some s' \<longleftrightarrow>
     unat (current_priority (threads s t)) < RT_THREAD_PRIORITY_MAX \<and>
     s' = s\<lparr>tlists := l_remove t (tlists s),
            rt_thread_ready_priority_group :=
              (if elems (l_remove t (tlists s)) (Ready (unat (current_priority (threads s t)))) = []
               then rt_thread_ready_priority_group s AND NOT (number_mask (threads s t))
               else rt_thread_ready_priority_group s)\<rparr>"
  by (auto simp: rt_schedule_remove_thread_def Let_def)

lemma sched_but_insert:
  assumes inv: "sched_but (insert t X) T L g" and t: "onlist L t = None" "prio_ok th"
    and p: "p = unat (current_priority th)" and g': "g' = g OR number_mask th"
    and th': "th' = th\<lparr>stat := RT_THREAD_READY\<rparr>"
    and L': "L' = L\<lparr>elems := (elems L)(Ready p := elems L (Ready p) @ [t]),
                   onlist := (onlist L)(t \<mapsto> Ready p)\<rparr>"
  shows "sched_but X (T(t := th')) L' g'"
proof -
  have "wf_lists L'"
    using wf_l_insert_last [OF sched_but_wf [OF inv], of "Ready p" t L'] t(1)
    by (simp add: l_insert_last_Some L')
  moreover have "bitmap_ok L' g'"
    using inv t(2) by (auto simp: sched_but_def bitmap_ok_def L' g' prio_ok_def p
        RT_THREAD_PRIORITY_MAX_def)
  moreover have "thread_ok th' (Some (Ready p))"
    using t(2) by (simp add: thread_ok_def th' p prio_ok_def)
  ultimately show ?thesis
    using inv by (auto simp: sched_but_def L')
qed

lemma sched_but_remove:
  assumes inv: "sched_but X T L g" and t: "t \<in> X" "prio_ok (T t)"
    and q: "\<And>q. onlist L t = Some (Ready q) \<Longrightarrow> q = unat (current_priority (T t))"
    and g': "g' = (if elems (l_remove t L) (Ready (unat (current_priority (T t)))) = []
                   then g AND NOT (number_mask (T t)) else g)"
  shows "sched_but X T (l_remove t L) g'"
proof -
  define p where "p = unat (current_priority (T t))"
  have wf: "wf_lists L" using inv by (rule sched_but_wf)
  have p: "p < RT_THREAD_PRIORITY_MAX" "number_mask (T t) = 2 ^ p"
    using t(2) by (auto simp: prio_ok_def p_def)
  have bm: "bit g k \<longleftrightarrow> elems L (Ready k) \<noteq> []" if "k < RT_THREAD_PRIORITY_MAX" for k
    using inv that by (simp add: sched_but_def bitmap_ok_def)
  have other: "elems (l_remove t L) (Ready k) = elems L (Ready k)" if "k \<noteq> p" for k
    using q wf_listsD(2) [OF wf, of t "Ready k"] that
    by (auto simp: elems_l_remove [OF wf] remove1_idem p_def)
  have "bit g' k \<longleftrightarrow> elems (l_remove t L) (Ready k) \<noteq> []" if "k < RT_THREAD_PRIORITY_MAX" for k
  proof (cases "k = p")
    case True
    then show ?thesis
      using p bm [OF that] by (auto simp: g' p_def [symmetric] RT_THREAD_PRIORITY_MAX_def
          elems_l_remove [OF wf])
  next
    case False
    with p(1) bm [OF that] show ?thesis
      by (simp add: g' p_def [symmetric] p(2) other RT_THREAD_PRIORITY_MAX_def)
  qed
  then have "bitmap_ok (l_remove t L) g'" by (simp add: bitmap_ok_def)
  then show ?thesis
    using inv wf_l_remove [OF wf] t(1) by (auto simp: sched_but_def)
qed

text \<open>Moving a thread that is on no ready list between waiting lists.\<close>

lemma sched_but_unlink:
  assumes inv: "sched_but X T L g" and t: "t \<in> X" and q: "\<And>q. onlist L t \<noteq> Some (Ready q)"
  shows "sched_but X T (l_remove t L) g"
proof -
  have wf: "wf_lists L" using inv by (rule sched_but_wf)
  have "elems (l_remove t L) (Ready k) = elems L (Ready k)" for k
    using q wf_listsD(2) [OF wf, of t "Ready k"] by (auto simp: elems_l_remove [OF wf] remove1_idem)
  then show ?thesis
    using inv t wf_l_remove [OF wf, of t] by (auto simp: sched_but_def bitmap_ok_def)
qed

lemma sched_but_link:
  assumes inv: "sched_but X T L g" and t: "t \<in> X" and wf: "wf_lists L'"
    and h: "\<And>p. h \<noteq> Ready p"
    and L': "elems L' = (elems L)(h := xs)" "onlist L' = (onlist L)(t \<mapsto> h)"
  shows "sched_but X T L' g"
  using inv t wf h unfolding sched_but_def bitmap_ok_def by (auto simp: L')

lemma sched_inv_insert:
  assumes "sched_but {t} (threads s) (tlists s) (rt_thread_ready_priority_group s)"
    and "prio_ok (threads s t)" "rt_schedule_insert_thread t s = Some s'"
  shows "sched_inv s'"
  using assms sched_but_insert [OF assms(1)]
  by (auto simp: sched_inv_def rt_schedule_insert_thread_Some)

subsection \<open>The choice of the next thread\<close>

lemma rt_scheduleE:
  assumes "rt_schedule s = Some s'"
  obtains pr cu fr to fl where
    "s' = s\<lparr>rt_current_priority := pr, rt_current_thread := cu, rt_interrupt_from_thread := fr,
            rt_interrupt_to_thread := to, rt_thread_switch_interrupt_flag := fl\<rparr>"
proof -
  have "s' = s\<lparr>rt_current_priority := rt_current_priority s', rt_current_thread := rt_current_thread s',
        rt_interrupt_from_thread := rt_interrupt_from_thread s',
        rt_interrupt_to_thread := rt_interrupt_to_thread s',
        rt_thread_switch_interrupt_flag := rt_thread_switch_interrupt_flag s'\<rparr>"
    using assms
    by (auto simp: rt_schedule_def Let_def bind_eq_Some_conv rt_scheduler_stack_check_def
        rt_hw_context_switch_def split: if_splits list.splits option.splits)
  then show ?thesis by (rule that)
qed

lemma sched_inv_schedule: "rt_schedule s = Some s' \<Longrightarrow> sched_inv s' = sched_inv s"
  by (erule rt_scheduleE) (simp add: sched_inv_def)

definition stack_ok :: "rt_thread \<Rightarrow> bool" where
  "stack_ok th \<longleftrightarrow> stack_addr th < sp th \<and> sp th \<le> stack_addr th + ucast (stack_size th)"

lemma ready_group_zero:
  assumes "sched_inv s" "stat (threads s t) = RT_THREAD_READY"
  shows "rt_thread_ready_priority_group s \<noteq> 0"
proof -
  let ?p = "unat (current_priority (threads s t))"
  have "t \<in> set (elems (tlists s) (Ready ?p))"
    using assms sched_ready_iff [of "threads s" "tlists s" _ t ?p] by (simp add: sched_inv_def)
  moreover have "?p < RT_THREAD_PRIORITY_MAX"
    using assms sched_but_ok [of "{}" "threads s" "tlists s" _ t]
    by (auto simp: sched_inv_def thread_ok_def prio_ok_def)
  ultimately have "bit (rt_thread_ready_priority_group s) ?p"
    using assms(1) by (auto simp: sched_inv_def sched_but_def bitmap_ok_def)
  then show ?thesis by (metis bit_0_eq bot_apply bot_bool_def)
qed

lemma highest_ready_list:
  assumes inv: "sched_inv s" and ready: "stat (threads s u) = RT_THREAD_READY"
  obtains t ts where
    "elems (tlists s) (Ready (highest_ready_priority (rt_thread_ready_priority_group s))) = t # ts"
    "stat (threads s t) = RT_THREAD_READY"
    "\<And>v. stat (threads s v) = RT_THREAD_READY \<Longrightarrow>
       current_priority (threads s t) \<le> current_priority (threads s v)"
proof -
  let ?g = "rt_thread_ready_priority_group s"
  let ?p = "highest_ready_priority ?g"
  have but: "sched_but {} (threads s) (tlists s) ?g" using inv by (simp add: sched_inv_def)
  have p: "?p < 32" "bit ?g ?p" "\<And>j. j < ?p \<Longrightarrow> \<not> bit ?g j"
    using highest_ready_priority_bit [OF ready_group_zero [OF inv ready]] by auto
  have bm: "bit ?g k \<longleftrightarrow> elems (tlists s) (Ready k) \<noteq> []" if "k < 32" for k
    using inv that by (simp add: sched_inv_def sched_but_def bitmap_ok_def RT_THREAD_PRIORITY_MAX_def)
  then obtain t ts where t: "elems (tlists s) (Ready ?p) = t # ts"
    using p(1,2) by (cases "elems (tlists s) (Ready ?p)") auto
  then have tr: "stat (threads s t) = RT_THREAD_READY" "unat (current_priority (threads s t)) = ?p"
    using sched_ready_iff [OF but, of t ?p] by auto
  have "current_priority (threads s t) \<le> current_priority (threads s v)"
    if v: "stat (threads s v) = RT_THREAD_READY" for v
  proof -
    let ?q = "unat (current_priority (threads s v))"
    have "v \<in> set (elems (tlists s) (Ready ?q))" using sched_ready_iff [OF but, of v ?q] v by simp
    moreover have "?q < 32"
      using sched_but_ok [OF but, of v] v
      by (auto simp: thread_ok_def prio_ok_def RT_THREAD_PRIORITY_MAX_def)
    ultimately have "bit ?g ?q" using bm by auto
    then have "?p \<le> ?q" using p(3) by (meson not_le)
    then show ?thesis using tr(2) by (simp add: word_le_nat_alt)
  qed
  then show ?thesis using t tr(1) by (rule that [rotated 2])
qed

lemma rt_schedule_highest:
  assumes "sched_inv s" "stat (threads s u) = RT_THREAD_READY" "rt_scheduler_lock_nest s = 0"
    and "rt_current_thread s = Some c" "\<And>t. stat (threads s t) = RT_THREAD_READY \<Longrightarrow> stack_ok (threads s t)"
  obtains s' t where "rt_schedule s = Some s'" "rt_current_thread s' = Some t"
    "stat (threads s' t) = RT_THREAD_READY"
    "\<And>v. stat (threads s' v) = RT_THREAD_READY \<Longrightarrow>
       current_priority (threads s' t) \<le> current_priority (threads s' v)"
proof -
  obtain t ts where t:
    "elems (tlists s) (Ready (highest_ready_priority (rt_thread_ready_priority_group s))) = t # ts"
    "stat (threads s t) = RT_THREAD_READY"
    "\<And>v. stat (threads s v) = RT_THREAD_READY \<Longrightarrow>
       current_priority (threads s t) \<le> current_priority (threads s v)"
    using highest_ready_list [OF assms(1,2)] by blast
  have "\<not> (sp (threads s t) \<le> stack_addr (threads s t) \<or>
      stack_addr (threads s t) + ucast (stack_size (threads s t)) < sp (threads s t))"
    using assms(5) [OF t(2)] by (auto simp: stack_ok_def)
  then have "\<exists>s'. rt_schedule s = Some s' \<and> rt_current_thread s' = Some t \<and> threads s' = threads s"
    using t assms(3,4)
    by (auto simp: rt_schedule_def Let_def rt_scheduler_stack_check_def rt_hw_context_switch_def)
  then show ?thesis using t(2,3) that by metis
qed

end
