(* ===== verification/Thread_Core.thy ===== *)
theory Thread_Core
  imports Scheduler
begin

text \<open>
  The operations of \<^verbatim>\<open>src/thread.c\<close> that the timers and the IPC objects are built on:
  suspending, resuming and timing out a thread. The kernel invariant \<open>kinv\<close> joins the
  scheduler invariant with the one of the timer lists: a timer on a list is marked as
  activated, and the list is the one its flags name.
\<close>

subsection \<open>Operations\<close>

definition rt_thread_self :: "kstate \<Rightarrow> tid option" where
  "rt_thread_self s = rt_current_thread s"

definition rt_thread_suspend :: "tid \<Rightarrow> kstate \<Rightarrow> (rt_err_t \<times> kstate) option" where
  "rt_thread_suspend t s =
     (if stat (threads s t) \<noteq> RT_THREAD_READY then Some (- RT_ERROR, s)
      else do {
        let s = upd_thread t (\<lambda>r. r\<lparr>stat := RT_THREAD_SUSPEND\<rparr>) s;
        s \<leftarrow> rt_schedule_remove_thread t s;
        Some (RT_EOK, s)
      })"

text \<open>The code reads the status before it disables interrupts, and enables them before it links the thread to its ready list.
  This is the operation without an interrupt inside; \<open>Thread\<close> has its sections.\<close>

definition rt_thread_resume :: "tid \<Rightarrow> kstate \<Rightarrow> (rt_err_t \<times> kstate) option" where
  "rt_thread_resume t s =
     (if stat (threads s t) \<noteq> RT_THREAD_SUSPEND then Some (- RT_ERROR, s)
      else do {
        let s = s\<lparr>tlists := l_remove t (tlists s)\<rparr>;
        let s = s\<lparr>tmlists := l_remove (Thread_timer t) (tmlists s)\<rparr>;
        let s = upd_obj (Timer_o (Thread_timer t))
                  (\<lambda>r. r\<lparr>o_flag := o_flag r AND NOT RT_TIMER_FLAG_ACTIVATED\<rparr>) s;
        s \<leftarrow> rt_schedule_insert_thread t s;
        Some (RT_EOK, s)
      })"

definition rt_thread_timeout :: "tid \<Rightarrow> kstate \<Rightarrow> kstate option" where
  "rt_thread_timeout t s = do {
     s \<leftarrow> rt_assert (stat (threads s t) = RT_THREAD_SUSPEND) s;
     let s = upd_thread t (\<lambda>r. r\<lparr>th_error := - RT_ETIMEOUT\<rparr>) s;
     let s = s\<lparr>tlists := l_remove t (tlists s)\<rparr>;
     s \<leftarrow> rt_schedule_insert_thread t s;
     rt_schedule s
   }"

subsection \<open>The kernel invariant\<close>

definition timer_ok :: "(tmr \<Rightarrow> u8) \<Rightarrow> (tm_head, tmr) lists \<Rightarrow> bool" where
  "timer_ok F L \<longleftrightarrow>
     wf_lists L \<and>
     (\<forall>x h. onlist L x = Some h \<longrightarrow>
        F x AND RT_TIMER_FLAG_ACTIVATED \<noteq> 0 \<and>
        (h = Soft_timers \<longleftrightarrow> F x AND RT_TIMER_FLAG_SOFT_TIMER \<noteq> 0))"

abbreviation timer_flag :: "kstate \<Rightarrow> tmr \<Rightarrow> u8" where
  "timer_flag s x \<equiv> o_flag (objs s (Timer_o x))"

definition timer_inv :: "kstate \<Rightarrow> bool" where
  "timer_inv s \<longleftrightarrow> timer_ok (timer_flag s) (tmlists s)"

definition kinv :: "kstate \<Rightarrow> bool" where
  "kinv s \<longleftrightarrow> sched_inv s \<and> timer_inv s \<and> wf_lists (obj_lists s)"

lemma kinvI: "sched_inv s \<Longrightarrow> timer_inv s \<Longrightarrow> wf_lists (obj_lists s) \<Longrightarrow> kinv s"
  by (simp add: kinv_def)

text \<open>Parts of the state that the invariants do not mention.\<close>

lemma timer_inv_upd [simp]:
  "timer_inv (s\<lparr>obj_lists := v_obj_lists\<rparr>) = timer_inv s"
  "timer_inv (s\<lparr>object_size := v_object_size\<rparr>) = timer_inv s"
  "timer_inv (s\<lparr>threads := v_threads\<rparr>) = timer_inv s"
  "timer_inv (s\<lparr>tlists := v_tlists\<rparr>) = timer_inv s"
  "timer_inv (s\<lparr>timers := v_timers\<rparr>) = timer_inv s"
  "timer_inv (s\<lparr>sems := v_sems\<rparr>) = timer_inv s"
  "timer_inv (s\<lparr>mutexes := v_mutexes\<rparr>) = timer_inv s"
  "timer_inv (s\<lparr>events := v_events\<rparr>) = timer_inv s"
  "timer_inv (s\<lparr>mailboxes := v_mailboxes\<rparr>) = timer_inv s"
  "timer_inv (s\<lparr>msgqueues := v_msgqueues\<rparr>) = timer_inv s"
  "timer_inv (s\<lparr>mempools := v_mempools\<rparr>) = timer_inv s"
  "timer_inv (s\<lparr>mp_mem := v_mp_mem\<rparr>) = timer_inv s"
  "timer_inv (s\<lparr>rt_scheduler_lock_nest := v_rt_scheduler_lock_nest\<rparr>) = timer_inv s"
  "timer_inv (s\<lparr>rt_interrupt_nest := v_rt_interrupt_nest\<rparr>) = timer_inv s"
  "timer_inv (s\<lparr>rt_thread_ready_priority_group := v_rt_thread_ready_priority_group\<rparr>) = timer_inv s"
  "timer_inv (s\<lparr>rt_current_thread := v_rt_current_thread\<rparr>) = timer_inv s"
  "timer_inv (s\<lparr>rt_current_priority := v_rt_current_priority\<rparr>) = timer_inv s"
  "timer_inv (s\<lparr>rt_tick := v_rt_tick\<rparr>) = timer_inv s"
  "timer_inv (s\<lparr>timer_thread := v_timer_thread\<rparr>) = timer_inv s"
  "timer_inv (s\<lparr>rt_interrupt_from_thread := v_rt_interrupt_from_thread\<rparr>) = timer_inv s"
  "timer_inv (s\<lparr>rt_interrupt_to_thread := v_rt_interrupt_to_thread\<rparr>) = timer_inv s"
  "timer_inv (s\<lparr>rt_thread_switch_interrupt_flag := v_rt_thread_switch_interrupt_flag\<rparr>) = timer_inv s"
  "timer_inv (s\<lparr>kheap := v_kheap\<rparr>) = timer_inv s"
  "timer_inv (s\<lparr>completions := v_completions\<rparr>) = timer_inv s"
  "timer_inv (s\<lparr>data_queues := v_data_queues\<rparr>) = timer_inv s"
  "timer_inv (s\<lparr>pipes := v_pipes\<rparr>) = timer_inv s"
  "timer_inv (s\<lparr>devices := v_devices\<rparr>) = timer_inv s"
  "timer_inv (s\<lparr>rt_errno := v_rt_errno\<rparr>) = timer_inv s"
  by (simp_all add: timer_inv_def)

lemma kinv_upd [simp]:
  "kinv (s\<lparr>object_size := v_object_size\<rparr>) = kinv s"
  "kinv (s\<lparr>timers := v_timers\<rparr>) = kinv s"
  "kinv (s\<lparr>sems := v_sems\<rparr>) = kinv s"
  "kinv (s\<lparr>mutexes := v_mutexes\<rparr>) = kinv s"
  "kinv (s\<lparr>events := v_events\<rparr>) = kinv s"
  "kinv (s\<lparr>mailboxes := v_mailboxes\<rparr>) = kinv s"
  "kinv (s\<lparr>msgqueues := v_msgqueues\<rparr>) = kinv s"
  "kinv (s\<lparr>mempools := v_mempools\<rparr>) = kinv s"
  "kinv (s\<lparr>mp_mem := v_mp_mem\<rparr>) = kinv s"
  "kinv (s\<lparr>rt_scheduler_lock_nest := v_rt_scheduler_lock_nest\<rparr>) = kinv s"
  "kinv (s\<lparr>rt_interrupt_nest := v_rt_interrupt_nest\<rparr>) = kinv s"
  "kinv (s\<lparr>rt_current_thread := v_rt_current_thread\<rparr>) = kinv s"
  "kinv (s\<lparr>rt_current_priority := v_rt_current_priority\<rparr>) = kinv s"
  "kinv (s\<lparr>rt_tick := v_rt_tick\<rparr>) = kinv s"
  "kinv (s\<lparr>timer_thread := v_timer_thread\<rparr>) = kinv s"
  "kinv (s\<lparr>rt_interrupt_from_thread := v_rt_interrupt_from_thread\<rparr>) = kinv s"
  "kinv (s\<lparr>rt_interrupt_to_thread := v_rt_interrupt_to_thread\<rparr>) = kinv s"
  "kinv (s\<lparr>rt_thread_switch_interrupt_flag := v_rt_thread_switch_interrupt_flag\<rparr>) = kinv s"
  "kinv (s\<lparr>kheap := v_kheap\<rparr>) = kinv s"
  "kinv (s\<lparr>completions := v_completions\<rparr>) = kinv s"
  "kinv (s\<lparr>data_queues := v_data_queues\<rparr>) = kinv s"
  "kinv (s\<lparr>pipes := v_pipes\<rparr>) = kinv s"
  "kinv (s\<lparr>devices := v_devices\<rparr>) = kinv s"
  "kinv (s\<lparr>rt_errno := v_rt_errno\<rparr>) = kinv s"
  by (simp_all add: kinv_def)

lemma timer_ok_wf: "timer_ok F L \<Longrightarrow> wf_lists L"
  by (simp add: timer_ok_def)

lemma timer_ok_inactive: "timer_ok F L \<Longrightarrow> F x AND RT_TIMER_FLAG_ACTIVATED = 0 \<Longrightarrow> onlist L x = None"
  by (cases "onlist L x") (auto simp: timer_ok_def)

lemma timer_ok_remove: "timer_ok F L \<Longrightarrow> timer_ok F (l_remove x L)"
  by (simp add: timer_ok_def wf_l_remove)

lemma timer_ok_flag:
  "timer_ok F L \<Longrightarrow> onlist L x = None \<Longrightarrow> timer_ok (F(x := f)) L"
  by (auto simp: timer_ok_def)

lemma timer_ok_remove_flag: "timer_ok F L \<Longrightarrow> timer_ok (F(x := f)) (l_remove x L)"
  by (simp add: timer_ok_def wf_l_remove)

text \<open>Flags of timers under updates of the object store.\<close>

lemma timer_flag_upd [simp]:
  "(\<lambda>x. o_flag ((Ob(Timer_o y := r)) (Timer_o x))) = (\<lambda>x. o_flag (Ob (Timer_o x)))(y := o_flag r)"
  by (auto simp: fun_eq_iff)

lemma timer_flag_upd_if [simp]:
  "(\<lambda>x. o_flag (if x = y then r else Ob (Timer_o x))) = (\<lambda>x. o_flag (Ob (Timer_o x)))(y := o_flag r)"
  by (auto simp: fun_eq_iff)

subsection \<open>The operations keep the invariant\<close>

lemma kinv_schedule:
  assumes "rt_schedule s = Some s'" "kinv s" shows "kinv s'"
  using assms by (elim rt_scheduleE) (simp add: kinv_def sched_inv_def timer_inv_def)

lemma sched_inv_ok: "sched_inv s \<Longrightarrow> thread_ok (threads s t) (onlist (tlists s) t)"
  unfolding sched_inv_def by (erule sched_but_ok) simp

lemma kinv_thread_ok: "kinv s \<Longrightarrow> thread_ok (threads s t) (onlist (tlists s) t)"
  by (simp add: kinv_def sched_inv_ok)

lemma rt_thread_suspend_Some:
  "rt_thread_suspend t s = Some (r, s') \<longleftrightarrow>
     (if stat (threads s t) \<noteq> RT_THREAD_READY then r = - RT_ERROR \<and> s' = s
      else r = RT_EOK \<and>
        rt_schedule_remove_thread t (upd_thread t (\<lambda>r. r\<lparr>stat := RT_THREAD_SUSPEND\<rparr>) s) = Some s')"
  by (auto simp: rt_thread_suspend_def bind_eq_Some_conv)

text \<open>A suspended thread is linked nowhere until the caller links it.\<close>

lemma sched_inv_remove:
  assumes inv: "sched_inv s" and st: "stat (threads s t) = RT_THREAD_READY \<or> stat (threads s t) = RT_THREAD_SUSPEND"
    and th: "current_priority th = current_priority (threads s t)" "number_mask th = number_mask (threads s t)"
    and op: "rt_schedule_remove_thread t (s\<lparr>threads := (threads s)(t := th)\<rparr>) = Some s'"
  shows "sched_but {t} (threads s') (tlists s') (rt_thread_ready_priority_group s')"
    and "onlist (tlists s') t = None" and "threads s' = (threads s)(t := th)"
proof -
  have ok: "thread_ok (threads s t) (onlist (tlists s) t)"
    using inv by (rule sched_inv_ok)
  have "sched_but {t} ((threads s)(t := th)) (tlists s) (rt_thread_ready_priority_group s)"
    using inv by (intro sched_but_change) (auto simp: sched_inv_def elim: sched_but_mono)
  moreover have "prio_ok th" using ok st th by (auto simp: thread_ok_def prio_ok_def)
  moreover have "q = unat (current_priority th)" if "onlist (tlists s) t = Some (Ready q)" for q
    using ok st that th by (auto simp: thread_ok_def)
  ultimately have "sched_but {t} ((threads s)(t := th)) (l_remove t (tlists s))
      (if elems (l_remove t (tlists s)) (Ready (unat (current_priority th))) = []
       then rt_thread_ready_priority_group s AND NOT (number_mask th)
       else rt_thread_ready_priority_group s)"
    using sched_but_remove [of "{t}" "(threads s)(t := th)" "tlists s" "rt_thread_ready_priority_group s" t, OF _ _ _ _ refl]
    by (auto split: if_splits)
  with op show "sched_but {t} (threads s') (tlists s') (rt_thread_ready_priority_group s')"
    by (auto simp: rt_schedule_remove_thread_Some split: if_splits)
  show "onlist (tlists s') t = None" "threads s' = (threads s)(t := th)"
    using op by (auto simp: rt_schedule_remove_thread_Some)
qed

lemma kinv_suspend:
  assumes op: "rt_thread_suspend t s = Some (r, s')" and inv: "kinv s"
  shows "kinv s'"
proof (cases "stat (threads s t) = RT_THREAD_READY")
  case False
  with op inv show ?thesis by (simp add: rt_thread_suspend_Some)
next
  case True
  let ?th = "(threads s t)\<lparr>stat := RT_THREAD_SUSPEND\<rparr>"
  have rm: "rt_schedule_remove_thread t (s\<lparr>threads := (threads s)(t := ?th)\<rparr>) = Some s'"
    using op True by (simp add: rt_thread_suspend_Some)
  have si: "sched_inv s" using inv by (simp add: kinv_def)
  note r = sched_inv_remove [OF si disjI1 [OF True] _ _ rm]
  have "thread_ok (threads s' t) (onlist (tlists s') t)"
    using kinv_thread_ok [OF inv, of t] True r by (simp add: thread_ok_def prio_ok_def)
  then have "sched_inv s'"
    unfolding sched_inv_def using sched_but_close [OF r(1)] by simp
  moreover have "timer_inv s'" "wf_lists (obj_lists s')"
    using rm inv by (auto simp: rt_schedule_remove_thread_Some kinv_def timer_inv_def)
  ultimately show ?thesis by (simp add: kinv_def)
qed

lemma sched_inv_unlink:
  assumes inv: "sched_inv s" and st: "stat (threads s t) = RT_THREAD_SUSPEND"
  shows "sched_but {t} (threads s) (l_remove t (tlists s)) (rt_thread_ready_priority_group s)"
    and "prio_ok (threads s t)"
proof -
  have ok: "thread_ok (threads s t) (onlist (tlists s) t)"
    using inv by (rule sched_inv_ok)
  then show "prio_ok (threads s t)" using st by (simp add: thread_ok_def)
  have "onlist (tlists s) t \<noteq> Some (Ready q)" for q
    using ok st by (auto simp: thread_ok_def)
  then show "sched_but {t} (threads s) (l_remove t (tlists s)) (rt_thread_ready_priority_group s)"
    using inv by (intro sched_but_unlink) (auto simp: sched_inv_def elim: sched_but_mono)
qed

lemma rt_thread_resume_Some:
  "rt_thread_resume t s = Some (r, s') \<longleftrightarrow>
     (if stat (threads s t) \<noteq> RT_THREAD_SUSPEND then r = - RT_ERROR \<and> s' = s
      else r = RT_EOK \<and>
        rt_schedule_insert_thread t
          (s\<lparr>tlists := l_remove t (tlists s),
             tmlists := l_remove (Thread_timer t) (tmlists s),
             objs := (objs s)(Timer_o (Thread_timer t) :=
               (objs s (Timer_o (Thread_timer t)))
                 \<lparr>o_flag := o_flag (objs s (Timer_o (Thread_timer t))) AND NOT RT_TIMER_FLAG_ACTIVATED\<rparr>)\<rparr>)
          = Some s')"
  by (auto simp: rt_thread_resume_def bind_eq_Some_conv)

lemma kinv_resume:
  assumes op: "rt_thread_resume t s = Some (r, s')" and inv: "kinv s"
  shows "kinv s'"
proof (cases "stat (threads s t) = RT_THREAD_SUSPEND")
  case False
  with op inv show ?thesis by (simp add: rt_thread_resume_Some)
next
  case True
  have si: "sched_inv s" using inv by (simp add: kinv_def)
  note u = sched_inv_unlink [OF si True]
  from op True have ins: "rt_schedule_insert_thread t
     (s\<lparr>tlists := l_remove t (tlists s), tmlists := l_remove (Thread_timer t) (tmlists s),
        objs := (objs s)(Timer_o (Thread_timer t) := (objs s (Timer_o (Thread_timer t)))
          \<lparr>o_flag := o_flag (objs s (Timer_o (Thread_timer t))) AND NOT RT_TIMER_FLAG_ACTIVATED\<rparr>)\<rparr>)
     = Some s'"
    by (simp add: rt_thread_resume_Some)
  have "sched_inv s'"
    using u by (intro sched_inv_insert [OF _ _ ins]) simp_all
  moreover have "timer_inv s'" "wf_lists (obj_lists s')"
    using op True inv
    by (auto simp: rt_thread_resume_Some rt_schedule_insert_thread_Some kinv_def timer_inv_def
        intro: timer_ok_remove_flag)
  ultimately show ?thesis by (simp add: kinv_def)
qed

text \<open>Resuming never fails to return, and makes a suspended thread ready.\<close>

lemma rt_thread_resume_total:
  assumes "kinv s" "stat (threads s t) = RT_THREAD_SUSPEND"
  shows "\<exists>s'. rt_thread_resume t s = Some (RT_EOK, s') \<and> stat (threads s' t) = RT_THREAD_READY"
proof -
  have "prio_ok (threads s t)" using assms sched_inv_unlink by (simp add: kinv_def)
  with assms show ?thesis
    by (auto simp: rt_thread_resume_Some rt_schedule_insert_thread_Some prio_ok_def)
qed

lemma kinv_timeout:
  assumes op: "rt_thread_timeout t s = Some s'" and inv: "kinv s"
  shows "kinv s'"
proof -
  let ?s = "upd_thread t (\<lambda>r. r\<lparr>th_error := - RT_ETIMEOUT\<rparr>) s"
  from op obtain s1 where st: "stat (threads s t) = RT_THREAD_SUSPEND"
    and ins: "rt_schedule_insert_thread t (?s\<lparr>tlists := l_remove t (tlists s)\<rparr>) = Some s1"
    and sch: "rt_schedule s1 = Some s'"
    by (auto simp: rt_thread_timeout_def bind_eq_Some_conv)
  have "sched_inv ?s" using inv by (simp add: kinv_def sched_inv_def)
  note u = sched_inv_unlink [OF this, of t]
  have "sched_inv s1"
    using u st by (intro sched_inv_insert [OF _ _ ins]) auto
  moreover have "timer_inv s1" "wf_lists (obj_lists s1)"
    using ins inv by (auto simp: rt_schedule_insert_thread_Some kinv_def timer_inv_def)
  ultimately have "kinv s1" by (simp add: kinv_def)
  with sch show ?thesis by (rule kinv_schedule)
qed

end
