(* ===== verification/Timer.thy ===== *)
theory Timer
  imports Thread_Core
begin

text \<open>
  \<^verbatim>\<open>src/timer.c\<close>: starting, stopping and checking timers. Tick counts wrap around; a list
  is kept in the order of \<open>timeout_tick\<close> as seen from a base tick that no timer on the list
  is more than half the tick range ahead of. The functions that a user timer calls are a
  parameter of the two checks, which may not return: they are \<open>partial_function\<close>s, and
  what makes them return is proved below.
\<close>

subsection \<open>Operations\<close>

definition tick_half :: u32 where "tick_half = RT_TICK_MAX div 2"

lemma tick_half_eq: "tick_half = 0x7fffffff"
  by (simp add: tick_half_def RT_TICK_MAX_def)

definition rt_tick_get :: "kstate \<Rightarrow> u32" where
  "rt_tick_get s = rt_tick s"

definition timer_init :: "tmr \<Rightarrow> tm_func \<Rightarrow> nat \<Rightarrow> u32 \<Rightarrow> u8 \<Rightarrow> kstate \<Rightarrow> kstate option" where
  "timer_init x func param time flag s =
     (let s = upd_obj (Timer_o x) (\<lambda>r. r\<lparr>o_flag := flag\<rparr>) s;
          s = upd_obj (Timer_o x) (\<lambda>r. r\<lparr>o_flag := o_flag r AND NOT RT_TIMER_FLAG_ACTIVATED\<rparr>) s;
          s = upd_timer x (\<lambda>r. r\<lparr>timeout_func := func, tm_parameter := param\<rparr>) s;
          s = upd_timer x (\<lambda>r. r\<lparr>timeout_tick := 0, tm_init_tick := time\<rparr>) s
      in on_tmlists (l_init_node x) s)"

definition rt_timer_list_next_timeout :: "tm_head \<Rightarrow> kstate \<Rightarrow> u32" where
  "rt_timer_list_next_timeout h s =
     (case elems (tmlists s) h of
        [] \<Rightarrow> RT_TICK_MAX
      | x # _ \<Rightarrow> timeout_tick (timers s x))"

definition rt_timer_init ::
  "tmr \<Rightarrow> u8 list \<Rightarrow> tm_func \<Rightarrow> nat \<Rightarrow> u32 \<Rightarrow> u8 \<Rightarrow> kstate \<Rightarrow> kstate option" where
  "rt_timer_init x nm func param time flag s = do {
     s \<leftarrow> rt_object_init (Timer_o x) RT_Object_Class_Timer nm s;
     timer_init x func param time flag s
   }"

definition rt_timer_detach :: "tmr \<Rightarrow> kstate \<Rightarrow> rt_err_t \<times> kstate" where
  "rt_timer_detach x s =
     (let s = s\<lparr>tmlists := l_remove x (tmlists s)\<rparr>
      in (- RT_EOK, rt_object_detach (Timer_o x) s))"

text \<open>The loop of \<^verbatim>\<open>rt_timer_start\<close>: the first timer of the list that does not time out
  before the new one.\<close>

fun timer_position :: "(tmr \<Rightarrow> rt_timer) \<Rightarrow> u32 \<Rightarrow> tmr list \<Rightarrow> tmr option" where
  "timer_position T tick [] = None"
| "timer_position T tick (x # xs) =
     (if timeout_tick (T x) - tick < RT_TICK_MAX div 2 then Some x
      else timer_position T tick xs)"

definition timer_insert :: "tm_head \<Rightarrow> tmr \<Rightarrow> kstate \<Rightarrow> kstate option" where
  "timer_insert h x s =
     (case timer_position (timers s) (timeout_tick (timers s x)) (elems (tmlists s) h) of
        Some n \<Rightarrow> on_tmlists (l_insert_before n x) s
      | None \<Rightarrow> on_tmlists (l_insert_last h x) s)"

definition rt_timer_start :: "tmr \<Rightarrow> kstate \<Rightarrow> (rt_err_t \<times> kstate) option" where
  "rt_timer_start x s =
     (if timer_flag s x AND RT_TIMER_FLAG_ACTIVATED \<noteq> 0 then Some (- RT_ERROR, s)
      else do {
        s \<leftarrow> rt_assert (tm_init_tick (timers s x) < RT_TICK_MAX div 2) s;
        let s = upd_timer x (\<lambda>r. r\<lparr>timeout_tick := rt_tick_get s + tm_init_tick r\<rparr>) s;
        s \<leftarrow> timer_insert
               (if timer_flag s x AND RT_TIMER_FLAG_SOFT_TIMER \<noteq> 0 then Soft_timers else Hard_timers)
               x s;
        let s = upd_obj (Timer_o x) (\<lambda>r. r\<lparr>o_flag := o_flag r OR RT_TIMER_FLAG_ACTIVATED\<rparr>) s;
        if timer_flag s x AND RT_TIMER_FLAG_SOFT_TIMER \<noteq> 0 \<and>
           stat (threads s (timer_thread s)) \<noteq> RT_THREAD_READY
        then do {
          (_, s) \<leftarrow> rt_thread_resume (timer_thread s) s;
          s \<leftarrow> rt_schedule s;
          Some (- RT_EOK, s)
        }
        else Some (- RT_EOK, s)
      })"

definition rt_timer_stop :: "tmr \<Rightarrow> kstate \<Rightarrow> rt_err_t \<times> kstate" where
  "rt_timer_stop x s =
     (if timer_flag s x AND RT_TIMER_FLAG_ACTIVATED = 0 then (- RT_ERROR, s)
      else
        let s = s\<lparr>tmlists := l_remove x (tmlists s)\<rparr>;
            s = upd_obj (Timer_o x) (\<lambda>r. r\<lparr>o_flag := o_flag r AND NOT RT_TIMER_FLAG_ACTIVATED\<rparr>) s
        in (RT_EOK, s))"

text \<open>The commands of \<^verbatim>\<open>rt_timer_control\<close>; the argument is read or written through a
  pointer, so the function returns its new value too.\<close>

definition RT_TIMER_CTRL_SET_TIME :: u8 where "RT_TIMER_CTRL_SET_TIME = 0"
definition RT_TIMER_CTRL_GET_TIME :: u8 where "RT_TIMER_CTRL_GET_TIME = 1"
definition RT_TIMER_CTRL_SET_ONESHOT :: u8 where "RT_TIMER_CTRL_SET_ONESHOT = 2"
definition RT_TIMER_CTRL_SET_PERIODIC :: u8 where "RT_TIMER_CTRL_SET_PERIODIC = 3"

lemmas timer_ctrls = RT_TIMER_CTRL_SET_TIME_def RT_TIMER_CTRL_GET_TIME_def
  RT_TIMER_CTRL_SET_ONESHOT_def RT_TIMER_CTRL_SET_PERIODIC_def

definition rt_timer_control :: "tmr \<Rightarrow> u8 \<Rightarrow> u32 \<Rightarrow> kstate \<Rightarrow> rt_err_t \<times> u32 \<times> kstate" where
  "rt_timer_control x cmd arg s =
     (if cmd = RT_TIMER_CTRL_GET_TIME then (RT_EOK, tm_init_tick (timers s x), s)
      else if cmd = RT_TIMER_CTRL_SET_TIME then
        (RT_EOK, arg, upd_timer x (\<lambda>r. r\<lparr>tm_init_tick := arg\<rparr>) s)
      else if cmd = RT_TIMER_CTRL_SET_ONESHOT then
        (RT_EOK, arg, upd_obj (Timer_o x) (\<lambda>r. r\<lparr>o_flag := o_flag r AND NOT RT_TIMER_FLAG_PERIODIC\<rparr>) s)
      else if cmd = RT_TIMER_CTRL_SET_PERIODIC then
        (RT_EOK, arg, upd_obj (Timer_o x) (\<lambda>r. r\<lparr>o_flag := o_flag r OR RT_TIMER_FLAG_PERIODIC\<rparr>) s)
      else (RT_EOK, arg, s))"

text \<open>The function of a user timer, by its address and its parameter.\<close>

type_synonym callbacks = "nat \<Rightarrow> nat \<Rightarrow> kstate \<Rightarrow> kstate option"

definition call_timeout :: "callbacks \<Rightarrow> tmr \<Rightarrow> kstate \<Rightarrow> kstate option" where
  "call_timeout cb x s =
     (case timeout_func (timers s x) of
        Rt_thread_timeout \<Rightarrow> rt_thread_timeout (tm_parameter (timers s x)) s
      | User_func f \<Rightarrow> cb f (tm_parameter (timers s x)) s)"

text \<open>What both checks do with a timer that is due.\<close>

definition timer_fire :: "callbacks \<Rightarrow> tmr \<Rightarrow> kstate \<Rightarrow> kstate option" where
  "timer_fire cb x s = do {
     let s = s\<lparr>tmlists := l_remove x (tmlists s)\<rparr>;
     s \<leftarrow> call_timeout cb x s;
     if timer_flag s x AND RT_TIMER_FLAG_PERIODIC \<noteq> 0 \<and> timer_flag s x AND RT_TIMER_FLAG_ACTIVATED \<noteq> 0
     then do {
       let s = upd_obj (Timer_o x) (\<lambda>r. r\<lparr>o_flag := o_flag r AND NOT RT_TIMER_FLAG_ACTIVATED\<rparr>) s;
       (_, s) \<leftarrow> rt_timer_start x s;
       Some s
     }
     else Some (upd_obj (Timer_o x) (\<lambda>r. r\<lparr>o_flag := o_flag r AND NOT RT_TIMER_FLAG_ACTIVATED\<rparr>) s)
   }"

partial_function (option) timer_check_loop :: "callbacks \<Rightarrow> u32 \<Rightarrow> kstate \<Rightarrow> kstate option" where
  "timer_check_loop cb current_tick s =
     (case elems (tmlists s) Hard_timers of
        [] \<Rightarrow> Some s
      | x # _ \<Rightarrow>
          if current_tick - timeout_tick (timers s x) < RT_TICK_MAX div 2
          then Option.bind (timer_fire cb x s) (\<lambda>s. timer_check_loop cb (rt_tick_get s) s)
          else Some s)"

definition rt_timer_check :: "callbacks \<Rightarrow> kstate \<Rightarrow> kstate option" where
  "rt_timer_check cb s = timer_check_loop cb (rt_tick_get s) s"

definition rt_timer_next_timeout_tick :: "kstate \<Rightarrow> u32" where
  "rt_timer_next_timeout_tick s = rt_timer_list_next_timeout Hard_timers s"

text \<open>The check of the soft timers walks the list with a node pointer that is moved before
  the timer is removed.\<close>

partial_function (option) soft_timer_loop ::
  "callbacks \<Rightarrow> u32 \<Rightarrow> (tm_head, tmr) node \<Rightarrow> kstate \<Rightarrow> kstate option" where
  "soft_timer_loop cb current_tick n s =
     (case n of
        Head h \<Rightarrow> (if h = Soft_timers then Some s else None)
      | Node x \<Rightarrow>
          if current_tick - timeout_tick (timers s x) < RT_TICK_MAX div 2
          then Option.bind (timer_fire cb x s)
                 (\<lambda>s'. soft_timer_loop cb (rt_tick_get s') (l_next (tmlists s) n) s')
          else Some s)"

definition rt_soft_timer_check :: "callbacks \<Rightarrow> kstate \<Rightarrow> kstate option" where
  "rt_soft_timer_check cb s =
     soft_timer_loop cb (rt_tick_get s) (l_next (tmlists s) (Head Soft_timers)) s"

subsection \<open>Flags\<close>

lemma flag_nonzero [simp]:
  "RT_TIMER_FLAG_ACTIVATED \<noteq> 0" "RT_TIMER_FLAG_PERIODIC \<noteq> 0" "RT_TIMER_FLAG_SOFT_TIMER \<noteq> 0"
  by (simp_all add: timer_flags)

lemma flag_clear [simp]:
  "((f :: u8) AND NOT RT_TIMER_FLAG_ACTIVATED) AND RT_TIMER_FLAG_ACTIVATED = 0"
  "((f :: u8) AND NOT RT_TIMER_FLAG_ACTIVATED) AND RT_TIMER_FLAG_SOFT_TIMER = f AND RT_TIMER_FLAG_SOFT_TIMER"
  "((f :: u8) AND NOT RT_TIMER_FLAG_ACTIVATED) AND RT_TIMER_FLAG_PERIODIC = f AND RT_TIMER_FLAG_PERIODIC"
  "((f :: u8) AND NOT RT_TIMER_FLAG_PERIODIC) AND RT_TIMER_FLAG_ACTIVATED = f AND RT_TIMER_FLAG_ACTIVATED"
  "((f :: u8) AND NOT RT_TIMER_FLAG_PERIODIC) AND RT_TIMER_FLAG_SOFT_TIMER = f AND RT_TIMER_FLAG_SOFT_TIMER"
  by (simp_all add: timer_flags and.assoc)

lemma flag_set [simp]:
  "((f :: u8) OR RT_TIMER_FLAG_ACTIVATED) AND RT_TIMER_FLAG_ACTIVATED \<noteq> 0"
  "((f :: u8) OR RT_TIMER_FLAG_ACTIVATED) AND RT_TIMER_FLAG_SOFT_TIMER = f AND RT_TIMER_FLAG_SOFT_TIMER"
  "((f :: u8) OR RT_TIMER_FLAG_PERIODIC) AND RT_TIMER_FLAG_ACTIVATED = f AND RT_TIMER_FLAG_ACTIVATED"
  "((f :: u8) OR RT_TIMER_FLAG_PERIODIC) AND RT_TIMER_FLAG_SOFT_TIMER = f AND RT_TIMER_FLAG_SOFT_TIMER"
  by (simp_all add: timer_flags word_ao_dist bit.conj_disj_distrib2)

subsection \<open>The operations keep the invariant\<close>

abbreviation before :: "(tmr \<Rightarrow> rt_timer) \<Rightarrow> u32 \<Rightarrow> tmr \<Rightarrow> bool" where
  "before T tick x \<equiv> \<not> timeout_tick (T x) - tick < RT_TICK_MAX div 2"

lemma timer_position_split:
  "timer_position T tick xs = Some n \<Longrightarrow>
     xs = takeWhile (before T tick) xs @ n # tl (dropWhile (before T tick) xs)"
  by (induction xs) (auto split: if_splits)

lemma timer_position_None:
  "timer_position T tick xs = None \<longleftrightarrow> (\<forall>x \<in> set xs. before T tick x)"
  by (induction xs) auto

lemma timer_insert_Some:
  assumes wf: "wf_lists (tmlists s)"
  shows "timer_insert h x s = Some s' \<longleftrightarrow>
    onlist (tmlists s) x = None \<and>
    s' = s\<lparr>tmlists := (tmlists s)
      \<lparr>elems := (elems (tmlists s))
         (h := takeWhile (before (timers s) (timeout_tick (timers s x))) (elems (tmlists s) h) @
               x # dropWhile (before (timers s) (timeout_tick (timers s x))) (elems (tmlists s) h)),
       onlist := (onlist (tmlists s))(x \<mapsto> h)\<rparr>\<rparr>"
proof (cases "timer_position (timers s) (timeout_tick (timers s x)) (elems (tmlists s) h)")
  case None
  then have "takeWhile (before (timers s) (timeout_tick (timers s x))) (elems (tmlists s) h) @
      x # dropWhile (before (timers s) (timeout_tick (timers s x))) (elems (tmlists s) h) =
      elems (tmlists s) h @ [x]"
    by (simp add: timer_position_None takeWhile_eq_all_conv [THEN iffD2] dropWhile_eq_Nil_conv [THEN iffD2])
  with None show ?thesis by (auto simp only: timer_insert_def l_insert_last_Some option.case map_option_eq_Some)
next
  case (Some n)
  define ys where "ys = takeWhile (before (timers s) (timeout_tick (timers s x))) (elems (tmlists s) h)"
  define zs where "zs = dropWhile (before (timers s) (timeout_tick (timers s x))) (elems (tmlists s) h)"
  have eq: "elems (tmlists s) h = ys @ n # tl zs" "elems (tmlists s) h = ys @ zs"
    using timer_position_split [OF Some] by (simp_all add: ys_def zs_def)
  then have zs: "zs = n # tl zs" by (metis same_append_eq)
  then show ?thesis
    using Some l_insert_before_at [OF wf eq(1), of x]
    by (auto simp: timer_insert_def ys_def [symmetric] zs_def [symmetric])
qed

lemma wf_timer_insert:
  assumes "timer_insert h x s = Some s'" "wf_lists (tmlists s)"
  shows "wf_lists (tmlists s')"
  using assms by (auto simp: timer_insert_def dest: wf_lists_ops split: option.splits)

lemma timer_ok_insert:
  assumes ok: "timer_ok (timer_flag s) (tmlists s)" and ins: "timer_insert h x s = Some s'"
    and h: "h = Soft_timers \<longleftrightarrow> F x AND RT_TIMER_FLAG_SOFT_TIMER \<noteq> 0"
    and F: "F x AND RT_TIMER_FLAG_ACTIVATED \<noteq> 0" "\<And>y. y \<noteq> x \<Longrightarrow> F y = timer_flag s y"
  shows "timer_ok F (tmlists s')"
proof -
  have wf: "wf_lists (tmlists s)" using ok by (rule timer_ok_wf)
  have "onlist (tmlists s') = (onlist (tmlists s))(x \<mapsto> h)"
    using ins by (simp add: timer_insert_Some [OF wf])
  then show ?thesis
    using ok F h wf_timer_insert [OF ins wf] by (auto simp: timer_ok_def)
qed

lemma rt_timer_startE:
  assumes op: "rt_timer_start x s = Some (r, s')" and f: "timer_flag s x AND RT_TIMER_FLAG_ACTIVATED = 0"
  obtains s1 s2 where "tm_init_tick (timers s x) < RT_TICK_MAX div 2"
    "timer_insert (if timer_flag s x AND RT_TIMER_FLAG_SOFT_TIMER \<noteq> 0 then Soft_timers else Hard_timers) x
       (upd_timer x (\<lambda>r. r\<lparr>timeout_tick := rt_tick s + tm_init_tick r\<rparr>) s) = Some s1"
    "s2 = upd_obj (Timer_o x) (\<lambda>r. r\<lparr>o_flag := o_flag r OR RT_TIMER_FLAG_ACTIVATED\<rparr>) s1"
    "s' = s2 \<or> (\<exists>t e s3. rt_thread_resume t s2 = Some (e, s3) \<and> rt_schedule s3 = Some s')"
proof (rule that [OF _ _ refl])
  let ?h = "if timer_flag s x AND RT_TIMER_FLAG_SOFT_TIMER \<noteq> 0 then Soft_timers else Hard_timers"
  let ?s = "upd_timer x (\<lambda>r. r\<lparr>timeout_tick := rt_tick s + tm_init_tick r\<rparr>) s"
  show "tm_init_tick (timers s x) < RT_TICK_MAX div 2" "timer_insert ?h x ?s = Some (the (timer_insert ?h x ?s))"
    using op f by (auto simp: rt_timer_start_def rt_tick_get_def Let_def bind_eq_Some_conv split: if_splits)
  show "s' = upd_obj (Timer_o x) (\<lambda>r. r\<lparr>o_flag := o_flag r OR RT_TIMER_FLAG_ACTIVATED\<rparr>)
        (the (timer_insert ?h x ?s)) \<or>
    (\<exists>t e s3. rt_thread_resume t (upd_obj (Timer_o x) (\<lambda>r. r\<lparr>o_flag := o_flag r OR RT_TIMER_FLAG_ACTIVATED\<rparr>)
        (the (timer_insert ?h x ?s))) = Some (e, s3) \<and> rt_schedule s3 = Some s')"
    using op f by (auto simp: rt_timer_start_def rt_tick_get_def Let_def bind_eq_Some_conv split: if_splits)
qed

lemma kinv_timer_start:
  assumes op: "rt_timer_start x s = Some (r, s')" and inv: "kinv s"
  shows "kinv s'"
proof (cases "timer_flag s x AND RT_TIMER_FLAG_ACTIVATED = 0")
  case False
  with op inv show ?thesis by (simp add: rt_timer_start_def)
next
  case True
  let ?s = "upd_timer x (\<lambda>r. r\<lparr>timeout_tick := rt_tick s + tm_init_tick r\<rparr>) s"
  let ?h = "if timer_flag s x AND RT_TIMER_FLAG_SOFT_TIMER \<noteq> 0 then Soft_timers else Hard_timers"
  from op True obtain s1 s2 where ins: "timer_insert ?h x ?s = Some s1"
    and s2: "s2 = upd_obj (Timer_o x) (\<lambda>r. r\<lparr>o_flag := o_flag r OR RT_TIMER_FLAG_ACTIVATED\<rparr>) s1"
    and s': "s' = s2 \<or> (\<exists>t e s3. rt_thread_resume t s2 = Some (e, s3) \<and> rt_schedule s3 = Some s')"
    by (rule rt_timer_startE)
  have ok: "timer_ok (timer_flag ?s) (tmlists ?s)" using inv by (simp add: kinv_def timer_inv_def)
  have s1: "objs s1 = objs s" "sched_inv s1 = sched_inv s" "obj_lists s1 = obj_lists s"
    using ins by (auto simp: timer_insert_Some [OF timer_ok_wf [OF ok]] sched_inv_def)
  have "timer_ok (timer_flag s2) (tmlists s1)"
    by (rule timer_ok_insert [OF ok ins]) (simp_all add: s1 s2)
  then have "kinv s2"
    using inv by (simp add: kinv_def timer_inv_def s1 s2)
  then show ?thesis using s' kinv_resume kinv_schedule by blast
qed

lemma kinv_timer_init:
  assumes op: "rt_timer_init x nm func param time flag s = Some s'" and inv: "kinv s"
  shows "kinv s'"
proof -
  have "onlist (tmlists s) x = None" "onlist (obj_lists s) (Timer_o x) = None"
    using op by (auto simp: rt_timer_init_def timer_init_def rt_object_init_Some l_init_node_def
        Let_def bind_eq_Some_conv split: if_splits)
  then show ?thesis
    using op inv
    by (auto simp: rt_timer_init_def timer_init_def rt_object_init_def l_init_node_def Let_def
        bind_eq_Some_conv kinv_def timer_inv_def intro: timer_ok_flag dest: wf_lists_ops)
qed

lemma kinv_timer_detach: "kinv s \<Longrightarrow> kinv (snd (rt_timer_detach x s))"
  by (simp add: rt_timer_detach_def rt_object_detach_def kinv_def timer_inv_def
      timer_ok_remove wf_l_remove)

lemma kinv_timer_stop: "kinv s \<Longrightarrow> kinv (snd (rt_timer_stop x s))"
  by (simp add: rt_timer_stop_def Let_def kinv_def timer_inv_def timer_ok_remove_flag)

lemma timer_ok_same_flags:
  "timer_ok F L \<Longrightarrow>
   (\<And>x. G x AND RT_TIMER_FLAG_ACTIVATED = F x AND RT_TIMER_FLAG_ACTIVATED \<and>
        G x AND RT_TIMER_FLAG_SOFT_TIMER = F x AND RT_TIMER_FLAG_SOFT_TIMER) \<Longrightarrow> timer_ok G L"
  by (simp add: timer_ok_def)

lemma kinv_timer_control: "kinv s \<Longrightarrow> kinv (snd (snd (rt_timer_control x cmd arg s)))"
  by (simp add: rt_timer_control_def kinv_def timer_inv_def)
     (auto elim!: timer_ok_same_flags)

subsection \<open>The order of a list\<close>

text \<open>Time is read from a base tick: a list is sorted when the distances of its timeouts from
  the base are in order and none is half the tick range or more.\<close>

definition tick_sorted :: "u32 \<Rightarrow> (tmr \<Rightarrow> rt_timer) \<Rightarrow> tmr list \<Rightarrow> bool" where
  "tick_sorted b T xs \<longleftrightarrow>
     sorted (map (\<lambda>x. timeout_tick (T x) - b) xs) \<and>
     (\<forall>x \<in> set xs. timeout_tick (T x) - b < tick_half)"

definition timers_ordered :: "kstate \<Rightarrow> bool" where
  "timers_ordered s \<longleftrightarrow> tick_sorted (rt_tick s) (timers s) (elems (tmlists s) Hard_timers)"

lemma tick_less_iff:
  assumes "a - b < tick_half" "t - b < tick_half"
  shows "(a :: u32) - t < RT_TICK_MAX div 2 \<longleftrightarrow> t - b \<le> a - b"
proof -
  define u where "u = a - b"
  define v where "v = t - b"
  have eq: "a - t = u - v" by (simp add: u_def v_def)
  have uv: "unat u < 0x7fffffff" "unat v < 0x7fffffff"
    using assms unfolding u_def [symmetric] v_def [symmetric] by (simp_all add: tick_half_eq word_less_nat_alt)
  have "u - v < 0x7fffffff \<longleftrightarrow> v \<le> u"
    using uv by (auto simp: word_less_nat_alt word_le_nat_alt unat_sub_if')
  moreover have "RT_TICK_MAX div 2 = 0x7fffffff" by (simp add: RT_TICK_MAX_def)
  ultimately show ?thesis unfolding eq by (simp only: u_def v_def)
qed

lemma tick_sorted_Cons:
  "tick_sorted b T (y # xs) \<longleftrightarrow> tick_sorted b T xs \<and> timeout_tick (T y) - b < tick_half \<and>
     (\<forall>z \<in> set xs. timeout_tick (T y) - b \<le> timeout_tick (T z) - b)"
  unfolding tick_sorted_def by (simp only: list.map sorted_simps list.set ball_simps set_map) blast

lemma tick_sorted_tl: "tick_sorted b T (x # xs) \<Longrightarrow> tick_sorted b T xs"
  by (simp add: tick_sorted_def)

lemma tick_sorted_remove1: "tick_sorted b T xs \<Longrightarrow> tick_sorted b T (remove1 x xs)"
  using set_remove1_subset [of x xs] by (auto simp: tick_sorted_def sorted_map_remove1)

lemma tick_sorted_insert:
  assumes s: "tick_sorted b T xs" and x: "timeout_tick (T x) - b < tick_half"
  shows "tick_sorted b T (takeWhile (before T (timeout_tick (T x))) xs @ x #
                          dropWhile (before T (timeout_tick (T x))) xs)"
proof -
  let ?k = "\<lambda>y. timeout_tick (T y) - b"
  have bef: "before T (timeout_tick (T x)) y \<longleftrightarrow> ?k y < ?k x" if "y \<in> set xs" for y
    using s x that tick_less_iff [of "timeout_tick (T y)" b "timeout_tick (T x)"]
    by (auto simp: tick_sorted_def not_le)
  have "takeWhile (before T (timeout_tick (T x))) xs = takeWhile (\<lambda>y. ?k y < ?k x) xs"
    "dropWhile (before T (timeout_tick (T x))) xs = dropWhile (\<lambda>y. ?k y < ?k x) xs"
    using bef by (auto intro: takeWhile_cong dropWhile_cong)
  moreover have "tick_sorted b T (takeWhile (\<lambda>y. ?k y < ?k x) xs @ x # dropWhile (\<lambda>y. ?k y < ?k x) xs)"
    using s
  proof (induction xs)
    case Nil
    then show ?case using x by (simp add: tick_sorted_def)
  next
    case (Cons y ys)
    then have IH: "tick_sorted b T (takeWhile (\<lambda>y. ?k y < ?k x) ys @ x # dropWhile (\<lambda>y. ?k y < ?k x) ys)"
      by (blast dest: tick_sorted_tl)
    have "set (takeWhile (\<lambda>y. ?k y < ?k x) ys @ x # dropWhile (\<lambda>y. ?k y < ?k x) ys) = insert x (set ys)"
      by (rule takeWhile_dropWhile_insert_mem)
    with Cons.prems have "\<forall>z \<in> set (takeWhile (\<lambda>y. ?k y < ?k x) ys @ x # dropWhile (\<lambda>y. ?k y < ?k x) ys).
        ?k y \<le> ?k z" if "?k y < ?k x"
      using that by (simp add: tick_sorted_Cons)
    then show ?case using IH Cons.prems x by (cases "?k y < ?k x") (auto simp: tick_sorted_Cons not_less)
  qed
  ultimately show ?thesis by simp
qed

text \<open>Whether a timer is due is a test for distance 0 when the base is the current tick.\<close>

lemma due_iff:
  assumes "t - now < tick_half"
  shows "(now :: u32) - t < RT_TICK_MAX div 2 \<longleftrightarrow> t = now"
proof -
  have "now - t < RT_TICK_MAX div 2 \<longleftrightarrow> t - now \<le> now - now"
    using assms by (intro tick_less_iff) (simp_all add: tick_half_eq)
  then show ?thesis by simp
qed

text \<open>When no timer is due the base may move on by one tick.\<close>

lemma tick_sorted_next:
  assumes s: "tick_sorted b T xs" and nd: "\<And>x. x \<in> set xs \<Longrightarrow> timeout_tick (T x) \<noteq> b"
  shows "tick_sorted (b + 1) T xs"
proof -
  have dec: "timeout_tick (T x) - (b + 1) = timeout_tick (T x) - b - 1" for x by simp
  have nz: "timeout_tick (T x) - b \<noteq> 0" if "x \<in> set xs" for x using nd [OF that] by simp
  have le: "u - 1 \<le> v - 1 \<longleftrightarrow> u \<le> v" "u - 1 \<le> u" if "u \<noteq> 0" "v \<noteq> 0" for u v :: u32
    using that by (auto simp: word_le_nat_alt unat_sub_if' unat_eq_0 [symmetric] Suc_le_eq simp del: unat_eq_0)
  have "sorted (map (\<lambda>x. timeout_tick (T x) - b - 1) xs)"
    using s nz unfolding tick_sorted_def by (induction xs) (auto simp: le)
  moreover have "timeout_tick (T x) - b - 1 < tick_half" if "x \<in> set xs" for x
    using le(2) [OF nz [OF that] nz [OF that]] s that by (auto simp: tick_sorted_def intro: le_less_trans)
  ultimately show ?thesis unfolding tick_sorted_def dec by blast
qed

subsection \<open>What the functions of user timers promise\<close>

text \<open>Such a function keeps the invariants and the tick, and does not start the timer it is
  called for when that timer is not stopped first (a timer that is marked as activated and
  is on no list stays on no list).\<close>

locale timer_callbacks =
  fixes cb :: callbacks
  assumes cb_kinv: "kinv s \<Longrightarrow> cb f p s = Some s' \<Longrightarrow> kinv s'"
    and cb_ordered: "kinv s \<Longrightarrow> timers_ordered s \<Longrightarrow> cb f p s = Some s' \<Longrightarrow> timers_ordered s'"
    and cb_tick: "kinv s \<Longrightarrow> cb f p s = Some s' \<Longrightarrow> rt_tick s' = rt_tick s"
    and cb_unlinked: "kinv s \<Longrightarrow> cb f p s = Some s' \<Longrightarrow>
      timer_flag s x AND RT_TIMER_FLAG_ACTIVATED \<noteq> 0 \<Longrightarrow> onlist (tmlists s) x = None \<Longrightarrow>
      onlist (tmlists s') x = None"

lemma rt_thread_timeout_tm:
  assumes "rt_thread_timeout t s = Some s'"
  shows "tmlists s' = tmlists s" "timers s' = timers s" "rt_tick s' = rt_tick s"
proof -
  from assms obtain s1 where "rt_schedule s1 = Some s'" "tmlists s1 = tmlists s"
    "timers s1 = timers s" "rt_tick s1 = rt_tick s"
    by (auto simp: rt_thread_timeout_def rt_schedule_insert_thread_Some bind_eq_Some_conv)
  then show "tmlists s' = tmlists s" "timers s' = timers s" "rt_tick s' = rt_tick s"
    by (auto elim!: rt_scheduleE)
qed

lemma rt_thread_resume_tm:
  assumes "rt_thread_resume t s = Some (r, s')"
  shows "timers s' = timers s" "rt_tick s' = rt_tick s"
    "tmlists s' = tmlists s \<or> tmlists s' = l_remove (Thread_timer t) (tmlists s)"
  using assms by (auto simp: rt_thread_resume_Some rt_schedule_insert_thread_Some split: if_splits)

lemma timers_ordered_remove:
  "wf_lists (tmlists s) \<Longrightarrow> timers_ordered s \<Longrightarrow> timers_ordered (s\<lparr>tmlists := l_remove x (tmlists s)\<rparr>)"
  by (simp add: timers_ordered_def elems_l_remove tick_sorted_remove1)

lemma timers_ordered_eq:
  assumes "timers s' = timers s" "rt_tick s' = rt_tick s" "wf_lists (tmlists s)"
    "tmlists s' = tmlists s \<or> tmlists s' = l_remove x (tmlists s)"
  shows "timers_ordered s \<Longrightarrow> timers_ordered s'"
  using assms timers_ordered_remove [of s x] by (auto simp: timers_ordered_def)

lemma kinv_wf_tm: "kinv s \<Longrightarrow> wf_lists (tmlists s)"
  by (auto simp: kinv_def timer_inv_def dest: timer_ok_wf)

text \<open>Starting a timer files it at its place.\<close>

lemma timer_start_tick:
  assumes op: "rt_timer_start x s = Some (r, s')" and inv: "kinv s"
  shows "rt_tick s' = rt_tick s"
proof (cases "timer_flag s x AND RT_TIMER_FLAG_ACTIVATED = 0")
  case True
  from op True show ?thesis
    by (rule rt_timer_startE)
       (auto simp: timer_insert_Some kinv_wf_tm [OF inv] elim!: rt_scheduleE dest: rt_thread_resume_tm)
qed (use op in \<open>simp add: rt_timer_start_def\<close>)

lemma timer_start_ordered:
  assumes op: "rt_timer_start x s = Some (r, s')" and inv: "kinv s" and ord: "timers_ordered s"
  shows "timers_ordered s'"
proof (cases "timer_flag s x AND RT_TIMER_FLAG_ACTIVATED = 0")
  case False
  with op ord show ?thesis by (simp add: rt_timer_start_def)
next
  case True
  define T where "T = (timers s)(x := (timers s x)\<lparr>timeout_tick := rt_tick s + tm_init_tick (timers s x)\<rparr>)"
  let ?h = "if timer_flag s x AND RT_TIMER_FLAG_SOFT_TIMER \<noteq> 0 then Soft_timers else Hard_timers"
  from op True obtain s1 s2 where init: "tm_init_tick (timers s x) < RT_TICK_MAX div 2"
    and ins: "timer_insert ?h x (s\<lparr>timers := T\<rparr>) = Some s1"
    and s2: "s2 = upd_obj (Timer_o x) (\<lambda>r. r\<lparr>o_flag := o_flag r OR RT_TIMER_FLAG_ACTIVATED\<rparr>) s1"
    and s': "s' = s2 \<or> (\<exists>t e s3. rt_thread_resume t s2 = Some (e, s3) \<and> rt_schedule s3 = Some s')"
    unfolding T_def by (rule rt_timer_startE)
  have "onlist (tmlists s) x = None"
    using True inv by (auto simp: kinv_def timer_inv_def intro: timer_ok_inactive)
  then have nx: "x \<notin> set (elems (tmlists s) h)" for h using wf_listsD(2) [OF kinv_wf_tm [OF inv]] by simp
  have "tick_sorted (rt_tick s) (timers s) xs \<longleftrightarrow> tick_sorted (rt_tick s) T xs" if "x \<notin> set xs" for xs
    using that by (induction xs) (auto simp: tick_sorted_Cons T_def, auto simp: tick_sorted_def)
  then have T: "tick_sorted (rt_tick s) T (elems (tmlists s) Hard_timers)"
    using ord nx by (simp add: timers_ordered_def)
  have "timeout_tick (T x) - rt_tick s < tick_half" using init by (simp add: T_def tick_half_def)
  note sorted_ins = tick_sorted_insert [OF T this]
  have "wf_lists (tmlists s2)" using wf_timer_insert [OF ins] kinv_wf_tm [OF inv] by (simp add: s2)
  moreover have "timers_ordered s2"
    using ins T sorted_ins kinv_wf_tm [OF inv] by (auto simp: s2 timers_ordered_def timer_insert_Some)
  ultimately have "timers_ordered s3" if "rt_thread_resume t s2 = Some (e, s3)" for t e s3
    using timers_ordered_eq [of s3 s2] rt_thread_resume_tm [OF that] by metis
  then show ?thesis using s' \<open>timers_ordered s2\<close>
    by (auto simp: timers_ordered_def elim!: rt_scheduleE)
qed

subsection \<open>Firing a timer and the checks\<close>

lemma rt_thread_timeout_objs:
  "rt_thread_timeout t s = Some s' \<Longrightarrow> objs s' = objs s"
  by (auto simp: rt_thread_timeout_def rt_schedule_insert_thread_Some bind_eq_Some_conv elim!: rt_scheduleE)

context timer_callbacks
begin

lemma call_keeps:
  assumes op: "call_timeout cb x s = Some s'" and inv: "kinv s"
  shows "kinv s'" and "rt_tick s' = rt_tick s" and "timers_ordered s \<Longrightarrow> timers_ordered s'"
    and "timer_flag s y AND RT_TIMER_FLAG_ACTIVATED \<noteq> 0 \<Longrightarrow> onlist (tmlists s) y = None \<Longrightarrow>
         onlist (tmlists s') y = None"
proof -
  have "kinv s' \<and> rt_tick s' = rt_tick s \<and> (timers_ordered s \<longrightarrow> timers_ordered s') \<and>
    (timer_flag s y AND RT_TIMER_FLAG_ACTIVATED \<noteq> 0 \<longrightarrow> onlist (tmlists s) y = None \<longrightarrow>
     onlist (tmlists s') y = None)"
  proof (cases "timeout_func (timers s x)")
    case Rt_thread_timeout
    then have t: "rt_thread_timeout (tm_parameter (timers s x)) s = Some s'"
      using op by (simp add: call_timeout_def)
    then show ?thesis
      using kinv_timeout [OF t inv] rt_thread_timeout_tm [OF t] by (simp add: timers_ordered_def)
  next
    case (User_func f)
    then have "cb f (tm_parameter (timers s x)) s = Some s'"
      using op by (simp add: call_timeout_def)
    then show ?thesis using cb_kinv cb_tick cb_ordered cb_unlinked inv by blast
  qed
  then show "kinv s'" "rt_tick s' = rt_tick s" "timers_ordered s \<Longrightarrow> timers_ordered s'"
    "timer_flag s y AND RT_TIMER_FLAG_ACTIVATED \<noteq> 0 \<Longrightarrow> onlist (tmlists s) y = None \<Longrightarrow>
       onlist (tmlists s') y = None"
    by blast+
qed

lemma fire_keeps:
  assumes op: "timer_fire cb x s = Some s'" and inv: "kinv s" and on: "onlist (tmlists s) x \<noteq> None"
  shows "kinv s'" and "rt_tick s' = rt_tick s" and "timers_ordered s \<Longrightarrow> timers_ordered s'"
proof -
  let ?s = "s\<lparr>tmlists := l_remove x (tmlists s)\<rparr>"
  let ?f = "\<lambda>s. upd_obj (Timer_o x) (\<lambda>r. r\<lparr>o_flag := o_flag r AND NOT RT_TIMER_FLAG_ACTIVATED\<rparr>) s"
  from op obtain s1 where call: "call_timeout cb x ?s = Some s1"
    and s': "s' = ?f s1 \<or> (\<exists>e. rt_timer_start x (?f s1) = Some (e, s'))"
    by (auto simp: timer_fire_def bind_eq_Some_conv Let_def split: if_splits)
  have "kinv ?s" using inv by (simp add: kinv_def timer_inv_def timer_ok_remove)
  moreover have "timer_flag ?s x AND RT_TIMER_FLAG_ACTIVATED \<noteq> 0"
    using inv on by (auto simp: kinv_def timer_inv_def timer_ok_def)
  moreover have "timers_ordered ?s" if "timers_ordered s"
    using that by (simp add: timers_ordered_remove kinv_wf_tm [OF inv])
  ultimately have s1: "kinv s1" "rt_tick s1 = rt_tick s" "timers_ordered s \<Longrightarrow> timers_ordered s1"
    "onlist (tmlists s1) x = None"
    using call_keeps [OF call] by auto
  then have f: "kinv (?f s1)" "rt_tick (?f s1) = rt_tick s" "timers_ordered s \<Longrightarrow> timers_ordered (?f s1)"
    by (auto simp: kinv_def timer_inv_def timer_ok_flag timers_ordered_def)
  then show "kinv s'" "rt_tick s' = rt_tick s" "timers_ordered s \<Longrightarrow> timers_ordered s'"
    using s' kinv_timer_start timer_start_tick timer_start_ordered by metis+
qed

lemma check_loop:
  assumes "timer_check_loop cb c s = Some s'" "c = rt_tick s" "kinv s" "timers_ordered s"
  shows "kinv s' \<and> timers_ordered s' \<and> rt_tick s' = rt_tick s \<and>
    (\<forall>x \<in> set (elems (tmlists s') Hard_timers). timeout_tick (timers s' x) \<noteq> rt_tick s')"
proof -
  have "cb' = cb \<longrightarrow> c = rt_tick s \<longrightarrow> kinv s \<longrightarrow> timers_ordered s \<longrightarrow>
    kinv s' \<and> timers_ordered s' \<and> rt_tick s' = rt_tick s \<and>
    (\<forall>x \<in> set (elems (tmlists s') Hard_timers). timeout_tick (timers s' x) \<noteq> rt_tick s')"
    if "timer_check_loop cb' c s = Some s'" for cb'
    using that
  proof (rule timer_check_loop.raw_induct [rotated])
    fix loop cb' c s s'
    assume IH: "\<And>cb' c s s'. loop cb' c s = Some s' \<Longrightarrow>
        cb' = cb \<longrightarrow> c = rt_tick s \<longrightarrow> kinv s \<longrightarrow> timers_ordered s \<longrightarrow>
        kinv s' \<and> timers_ordered s' \<and> rt_tick s' = rt_tick s \<and>
        (\<forall>x \<in> set (elems (tmlists s') Hard_timers). timeout_tick (timers s' x) \<noteq> rt_tick s')"
      and step: "(case elems (tmlists s) Hard_timers of [] \<Rightarrow> Some s
        | x # _ \<Rightarrow> if c - timeout_tick (timers s x) < RT_TICK_MAX div 2
            then Option.bind (timer_fire cb' x s) (\<lambda>s. loop cb' (rt_tick_get s) s) else Some s) = Some s'"
    show "cb' = cb \<longrightarrow> c = rt_tick s \<longrightarrow> kinv s \<longrightarrow> timers_ordered s \<longrightarrow>
        kinv s' \<and> timers_ordered s' \<and> rt_tick s' = rt_tick s \<and>
        (\<forall>x \<in> set (elems (tmlists s') Hard_timers). timeout_tick (timers s' x) \<noteq> rt_tick s')"
    proof (intro impI)
      assume a: "cb' = cb" "c = rt_tick s" "kinv s" "timers_ordered s"
      show "kinv s' \<and> timers_ordered s' \<and> rt_tick s' = rt_tick s \<and>
        (\<forall>x \<in> set (elems (tmlists s') Hard_timers). timeout_tick (timers s' x) \<noteq> rt_tick s')"
      proof (cases "elems (tmlists s) Hard_timers")
        case Nil
        with step a show ?thesis by simp
      next
        case (Cons x xs)
        have srt: "tick_sorted (rt_tick s) (timers s) (x # xs)"
          using a(4) Cons by (simp add: timers_ordered_def)
        then have due: "c - timeout_tick (timers s x) < RT_TICK_MAX div 2 \<longleftrightarrow> timeout_tick (timers s x) = rt_tick s"
          using due_iff [of "timeout_tick (timers s x)" "rt_tick s"] a(2) by (simp add: tick_sorted_Cons)
        show ?thesis
        proof (cases "timeout_tick (timers s x) = rt_tick s")
          case False
          then have "timeout_tick (timers s y) \<noteq> rt_tick s" if "y \<in> set (x # xs)" for y
            using srt that by (auto simp: tick_sorted_Cons)
          with False step due Cons a show ?thesis by auto
        next
          case True
          then obtain s1 where f: "timer_fire cb x s = Some s1" and l: "loop cb (rt_tick_get s1) s1 = Some s'"
            using step due Cons a by (auto simp: bind_eq_Some_conv)
          have "onlist (tmlists s) x \<noteq> None"
            using wf_listsD(2) [OF kinv_wf_tm [OF a(3)], of x Hard_timers] Cons by auto
          note k = fire_keeps [OF f a(3) this]
          show ?thesis using IH [OF l] k a by (auto simp: rt_tick_get_def)
        qed
      qed
    qed
  qed
  with assms show ?thesis by blast
qed

lemma check_keeps:
  assumes "rt_timer_check cb s = Some s'" "kinv s" "timers_ordered s"
  shows "kinv s'" "timers_ordered s'" "rt_tick s' = rt_tick s"
    "x \<in> set (elems (tmlists s') Hard_timers) \<Longrightarrow> timeout_tick (timers s' x) \<noteq> rt_tick s'"
  using check_loop [of "rt_tick_get s" s s'] assms by (auto simp: rt_timer_check_def rt_tick_get_def)

end

end
