(* ===== verification/Thread.thy ===== *)
theory Thread
  imports Timer
begin

text \<open>
  The rest of \<^verbatim>\<open>src/thread.c\<close> (creation with memory from the heap is in
  \<open>Object_Heap\<close>), the thread of the soft timers at the end of \<^verbatim>\<open>src/timer.c\<close>, and
  \<^verbatim>\<open>src/clock.c\<close> and \<^verbatim>\<open>src/irq.c\<close>.

  An operation that blocks is cut at the call of \<^verbatim>\<open>rt_schedule\<close> that switches to another
  thread: the first part ends in the state after the switch, the second (\<open>_resumed\<close>) is what
  the thread does when it runs again. Operations that enable interrupts before they are through are also given in their
  sections (\<open>section_exec\<close>). Addresses of functions are numbers; the contents of
  the stacks are not kept.
\<close>

subsection \<open>Creation, start and end of a thread\<close>

text \<open>\<^verbatim>\<open>sizeof(struct stack_frame)\<close> with the FPU registers: 50 words.\<close>

definition rt_hw_stack_init :: "u32 \<Rightarrow> u32" where
  "rt_hw_stack_init stk_top = stk_top + 4 - 200"

definition thread_init ::
  "tid \<Rightarrow> nat \<Rightarrow> nat \<Rightarrow> u32 \<Rightarrow> u32 \<Rightarrow> u8 \<Rightarrow> u32 \<Rightarrow> kstate \<Rightarrow> (rt_err_t \<times> kstate) option" where
  "thread_init t ent param stack_start stack_sz priority tick s = do {
     s \<leftarrow> on_tlists (l_init_node t) s;
     let s = upd_thread t (\<lambda>r. r\<lparr>entry := ent, th_parameter := param\<rparr>) s;
     let s = upd_thread t (\<lambda>r. r\<lparr>stack_addr := stack_start, stack_size := ucast stack_sz\<rparr>) s;
     let s = upd_thread t (\<lambda>r. r\<lparr>sp := rt_hw_stack_init (stack_addr r + ucast (stack_size r) - 4)\<rparr>) s;
     s \<leftarrow> rt_assert (unat priority < RT_THREAD_PRIORITY_MAX) s;
     let s = upd_thread t (\<lambda>r. r\<lparr>init_priority := priority, current_priority := priority\<rparr>) s;
     let s = upd_thread t (\<lambda>r. r\<lparr>init_tick := tick, remaining_tick := tick\<rparr>) s;
     let s = upd_thread t (\<lambda>r. r\<lparr>th_error := RT_EOK, stat := RT_THREAD_INIT\<rparr>) s;
     let s = upd_thread t (\<lambda>r. r\<lparr>cleanup := None, user_data := 0\<rparr>) s;
     s \<leftarrow> rt_timer_init (Thread_timer t) (o_name (objs s (Thread_o t))) Rt_thread_timeout t 0
            RT_TIMER_FLAG_ONE_SHOT s;
     Some (RT_EOK, s)
   }"

definition rt_thread_init ::
  "tid \<Rightarrow> u8 list \<Rightarrow> nat \<Rightarrow> nat \<Rightarrow> u32 \<Rightarrow> u32 \<Rightarrow> u8 \<Rightarrow> u32 \<Rightarrow> kstate \<Rightarrow> (rt_err_t \<times> kstate) option" where
  "rt_thread_init t nm ent param stack_start stack_sz priority tick s = do {
     s \<leftarrow> rt_assert (stack_start \<noteq> 0) s;
     s \<leftarrow> rt_object_init (Thread_o t) RT_Object_Class_Thread nm s;
     thread_init t ent param stack_start stack_sz priority tick s
   }"

definition rt_thread_startup :: "tid \<Rightarrow> kstate \<Rightarrow> (rt_err_t \<times> kstate) option" where
  "rt_thread_startup t s = do {
     s \<leftarrow> rt_assert (stat (threads s t) = RT_THREAD_INIT) s;
     let s = upd_thread t (\<lambda>r. r\<lparr>current_priority := init_priority r\<rparr>) s;
     let s = upd_thread t (\<lambda>r. r\<lparr>number_mask := push_bit (unat (current_priority r)) 1\<rparr>) s;
     let s = upd_thread t (\<lambda>r. r\<lparr>stat := RT_THREAD_SUSPEND\<rparr>) s;
     (_, s) \<leftarrow> rt_thread_resume t s;
     s \<leftarrow> (if rt_thread_self s \<noteq> None then rt_schedule s else Some s);
     Some (RT_EOK, s)
   }"

text \<open>Closing a thread, with no interrupt inside; the sections are below.\<close>

definition rt_thread_detach :: "tid \<Rightarrow> kstate \<Rightarrow> (rt_err_t \<times> kstate) option" where
  "rt_thread_detach t s = do {
     s \<leftarrow> rt_schedule_remove_thread t s;
     let (_, s) = rt_timer_detach (Thread_timer t) s;
     let s = upd_thread t (\<lambda>r. r\<lparr>stat := RT_THREAD_CLOSE\<rparr>) s;
     let s = rt_object_detach (Thread_o t) s;
     s \<leftarrow> (if cleanup (threads s t) \<noteq> None then on_tlists (l_insert_first Defunct t) s else Some s);
     Some (RT_EOK, s)
   }"

definition rt_thread_delete :: "tid \<Rightarrow> kstate \<Rightarrow> (rt_err_t \<times> kstate) option" where
  "rt_thread_delete t s = do {
     s \<leftarrow> rt_schedule_remove_thread t s;
     let (_, s) = rt_timer_detach (Thread_timer t) s;
     let s = upd_thread t (\<lambda>r. r\<lparr>stat := RT_THREAD_CLOSE\<rparr>) s;
     s \<leftarrow> on_tlists (l_insert_first Defunct t) s;
     Some (RT_EOK, s)
   }"

definition rt_thread_exit :: "kstate \<Rightarrow> kstate option" where
  "rt_thread_exit s = do {
     t \<leftarrow> rt_current_thread s;
     s \<leftarrow> rt_schedule_remove_thread t s;
     let s = upd_thread t (\<lambda>r. r\<lparr>stat := RT_THREAD_CLOSE\<rparr>) s;
     let s = s\<lparr>tmlists := l_remove (Thread_timer t) (tmlists s)\<rparr>;
     let s = rt_object_detach (Timer_o (Thread_timer t)) s;
     s \<leftarrow> (if rt_object_is_systemobject (Thread_o t) s \<and> cleanup (threads s t) = None
          then Some (rt_object_detach (Thread_o t) s)
          else on_tlists (l_insert_first Defunct t) s);
     rt_schedule s
   }"

subsection \<open>Giving up the processor\<close>

definition rt_thread_yield :: "kstate \<Rightarrow> (rt_err_t \<times> kstate) option" where
  "rt_thread_yield s = do {
     t \<leftarrow> rt_current_thread s;
     if stat (threads s t) = RT_THREAD_READY \<and> l_next (tlists s) (Node t) \<noteq> l_prev (tlists s) (Node t)
     then do {
       let s = s\<lparr>tlists := l_remove t (tlists s)\<rparr>;
       s \<leftarrow> on_tlists (l_insert_last (Ready (unat (current_priority (threads s t)))) t) s;
       s \<leftarrow> rt_schedule s;
       Some (RT_EOK, s)
     }
     else Some (RT_EOK, s)
   }"

definition rt_thread_sleep :: "u32 \<Rightarrow> kstate \<Rightarrow> kstate option" where
  "rt_thread_sleep tick s = do {
     t \<leftarrow> rt_current_thread s;
     (_, s) \<leftarrow> rt_thread_suspend t s;
     let (_, _, s) = rt_timer_control (Thread_timer t) RT_TIMER_CTRL_SET_TIME tick s;
     (_, s) \<leftarrow> rt_timer_start (Thread_timer t) s;
     rt_schedule s
   }"

definition rt_thread_sleep_resumed :: "tid \<Rightarrow> kstate \<Rightarrow> rt_err_t \<times> kstate" where
  "rt_thread_sleep_resumed t s =
     (RT_EOK,
      if th_error (threads s t) = - RT_ETIMEOUT then upd_thread t (\<lambda>r. r\<lparr>th_error := RT_EOK\<rparr>) s else s)"

definition rt_thread_delay :: "u32 \<Rightarrow> kstate \<Rightarrow> kstate option" where
  "rt_thread_delay tick s = rt_thread_sleep tick s"

subsection \<open>Control and search\<close>

definition RT_THREAD_CTRL_STARTUP :: u8 where "RT_THREAD_CTRL_STARTUP = 0"
definition RT_THREAD_CTRL_CLOSE :: u8 where "RT_THREAD_CTRL_CLOSE = 1"
definition RT_THREAD_CTRL_CHANGE_PRIORITY :: u8 where "RT_THREAD_CTRL_CHANGE_PRIORITY = 2"

lemmas thread_ctrls = RT_THREAD_CTRL_STARTUP_def RT_THREAD_CTRL_CLOSE_def RT_THREAD_CTRL_CHANGE_PRIORITY_def

definition rt_thread_control :: "tid \<Rightarrow> u8 \<Rightarrow> u8 \<Rightarrow> kstate \<Rightarrow> (rt_err_t \<times> kstate) option" where
  "rt_thread_control t cmd arg s =
     (if cmd = RT_THREAD_CTRL_CHANGE_PRIORITY then
        if stat (threads s t) = RT_THREAD_READY then do {
          s \<leftarrow> rt_schedule_remove_thread t s;
          let s = upd_thread t (\<lambda>r. r\<lparr>current_priority := arg\<rparr>) s;
          let s = upd_thread t (\<lambda>r. r\<lparr>number_mask := push_bit (unat (current_priority r)) 1\<rparr>) s;
          s \<leftarrow> rt_schedule_insert_thread t s;
          Some (RT_EOK, s)
        }
        else
          let s = upd_thread t (\<lambda>r. r\<lparr>current_priority := arg\<rparr>) s;
              s = upd_thread t (\<lambda>r. r\<lparr>number_mask := push_bit (unat (current_priority r)) 1\<rparr>) s
          in Some (RT_EOK, s)
      else if cmd = RT_THREAD_CTRL_STARTUP then rt_thread_startup t s
      else if cmd = RT_THREAD_CTRL_CLOSE then rt_thread_delete t s
      else Some (RT_EOK, s))"

definition rt_thread_find :: "u8 list \<Rightarrow> kstate \<Rightarrow> (tid option \<times> kstate) option" where
  "rt_thread_find nm s = do {
     let s = (if rt_thread_self s \<noteq> None then rt_enter_critical s else s);
     let r = List.find (\<lambda>x. rt_strncmp (o_name (objs s x)) nm RT_NAME_MAX = 0)
               (elems (obj_lists s) RT_Object_Class_Thread);
     s \<leftarrow> (if rt_thread_self s \<noteq> None then rt_exit_critical s else Some s);
     Some (case r of Some (Thread_o t) \<Rightarrow> Some t | _ \<Rightarrow> None, s)
   }"

subsection \<open>The thread of the soft timers\<close>

definition RT_TIMER_THREAD_PRIO :: u8 where "RT_TIMER_THREAD_PRIO = 4"

text \<open>One turn of the loop of \<^verbatim>\<open>rt_thread_timer_entry\<close>: the part up to the switch, with
  whether it was a delay, and the part after it.\<close>

definition rt_thread_timer_entry_wait :: "kstate \<Rightarrow> (bool \<times> kstate) option" where
  "rt_thread_timer_entry_wait s =
     (let next_timeout = rt_timer_list_next_timeout Soft_timers s
      in if next_timeout = RT_TICK_MAX then do {
           t \<leftarrow> rt_thread_self s;
           (_, s) \<leftarrow> rt_thread_suspend t s;
           s \<leftarrow> rt_schedule s;
           Some (False, s)
         }
         else do {
           s \<leftarrow> rt_thread_delay next_timeout s;
           Some (True, s)
         })"

definition rt_thread_timer_entry_check :: "callbacks \<Rightarrow> bool \<Rightarrow> tid \<Rightarrow> kstate \<Rightarrow> kstate option" where
  "rt_thread_timer_entry_check cb delayed t s = do {
     let s = (if delayed then snd (rt_thread_sleep_resumed t s) else s);
     let s = rt_enter_critical s;
     s \<leftarrow> rt_soft_timer_check cb s;
     rt_exit_critical s
   }"

definition rt_system_timer_thread_init :: "nat \<Rightarrow> u32 \<Rightarrow> kstate \<Rightarrow> kstate option" where
  "rt_system_timer_thread_init timer_entry timer_thread_stack s = do {
     s \<leftarrow> on_tmlists (l_init_head Soft_timers) s;
     (_, s) \<leftarrow> rt_thread_init (timer_thread s) [116, 105, 109, 101, 114] timer_entry 0
                 timer_thread_stack 512 RT_TIMER_THREAD_PRIO 10 s;
     (_, s) \<leftarrow> rt_thread_startup (timer_thread s) s;
     Some s
   }"

subsection \<open>Clock and interrupts\<close>

definition RT_TICK_PER_SECOND :: u32 where "RT_TICK_PER_SECOND = 100"

definition rt_tick_set :: "u32 \<Rightarrow> kstate \<Rightarrow> kstate" where
  "rt_tick_set tick s = s\<lparr>rt_tick := tick\<rparr>"

definition rt_tick_increase :: "callbacks \<Rightarrow> kstate \<Rightarrow> kstate option" where
  "rt_tick_increase cb s = do {
     let s = s\<lparr>rt_tick := rt_tick s + 1\<rparr>;
     t \<leftarrow> rt_thread_self s;
     let s = upd_thread t (\<lambda>r. r\<lparr>remaining_tick := remaining_tick r - 1\<rparr>) s;
     s \<leftarrow> (if remaining_tick (threads s t) = 0 then do {
            let s = upd_thread t (\<lambda>r. r\<lparr>remaining_tick := init_tick r\<rparr>) s;
            (_, s) \<leftarrow> rt_thread_yield s;
            Some s
          } else Some s);
     rt_timer_check cb s
   }"

definition rt_tick_from_millisecond :: "u32 \<Rightarrow> u32" where
  "rt_tick_from_millisecond ms = (RT_TICK_PER_SECOND * ms + 999) div 1000"

definition rt_interrupt_enter :: "kstate \<Rightarrow> kstate" where
  "rt_interrupt_enter s = s\<lparr>rt_interrupt_nest := rt_interrupt_nest s + 1\<rparr>"

definition rt_interrupt_leave :: "kstate \<Rightarrow> kstate" where
  "rt_interrupt_leave s = s\<lparr>rt_interrupt_nest := rt_interrupt_nest s - 1\<rparr>"

definition rt_interrupt_get_nest :: "kstate \<Rightarrow> u8" where
  "rt_interrupt_get_nest s = rt_interrupt_nest s"

subsection \<open>Operations that enable interrupts in between\<close>

text \<open>Closing and resuming a thread are not one region with interrupts disabled: they consist of sections, and
  interrupts are enabled from one to the next. A section is a region, or an assignment between two of them. Run one after
  the other without an interrupt, they are the operation.\<close>

datatype thread_section =
    Sec_remove tid | Sec_timer tid | Sec_timer_object tid | Sec_close tid | Sec_object tid | Sec_defunct tid
  | Sec_unlink tid | Sec_insert tid

primrec section_exec :: "thread_section \<Rightarrow> kstate \<Rightarrow> kstate option" where
  "section_exec (Sec_remove t) s = rt_schedule_remove_thread t s"
| "section_exec (Sec_timer t) s = Some (s\<lparr>tmlists := l_remove (Thread_timer t) (tmlists s)\<rparr>)"
| "section_exec (Sec_timer_object t) s = Some (rt_object_detach (Timer_o (Thread_timer t)) s)"
| "section_exec (Sec_close t) s = Some (upd_thread t (\<lambda>r. r\<lparr>stat := RT_THREAD_CLOSE\<rparr>) s)"
| "section_exec (Sec_object t) s = Some (rt_object_detach (Thread_o t) s)"
| "section_exec (Sec_defunct t) s = on_tlists (l_insert_first Defunct t) s"
| "section_exec (Sec_unlink t) s =
     (let s = s\<lparr>tlists := l_remove t (tlists s)\<rparr>;
          s = s\<lparr>tmlists := l_remove (Thread_timer t) (tmlists s)\<rparr>
      in Some (upd_obj (Timer_o (Thread_timer t))
                (\<lambda>r. r\<lparr>o_flag := o_flag r AND NOT RT_TIMER_FLAG_ACTIVATED\<rparr>) s))"
| "section_exec (Sec_insert t) s = rt_schedule_insert_thread t s"

primrec run_sections :: "thread_section list \<Rightarrow> kstate \<Rightarrow> kstate option" where
  "run_sections [] s = Some s"
| "run_sections (c # cs) s = Option.bind (section_exec c s) (run_sections cs)"

definition delete_sections :: "tid \<Rightarrow> thread_section list" where
  "delete_sections t = [Sec_remove t, Sec_timer t, Sec_timer_object t, Sec_close t, Sec_defunct t]"

definition detach_sections :: "tid \<Rightarrow> kstate \<Rightarrow> thread_section list" where
  "detach_sections t s =
     [Sec_remove t, Sec_timer t, Sec_timer_object t, Sec_close t, Sec_object t] @
     (if cleanup (threads s t) \<noteq> None then [Sec_defunct t] else [])"

definition resume_sections :: "tid \<Rightarrow> kstate \<Rightarrow> thread_section list" where
  "resume_sections t s = (if stat (threads s t) = RT_THREAD_SUSPEND then [Sec_unlink t, Sec_insert t] else [])"

lemma delete_is_sections: "rt_thread_delete t s = map_option (Pair RT_EOK) (run_sections (delete_sections t) s)"
  by (simp add: rt_thread_delete_def delete_sections_def rt_timer_detach_def Let_def map_conv_bind_option)

lemma detach_is_sections: "rt_thread_detach t s = map_option (Pair RT_EOK) (run_sections (detach_sections t s) s)"
proof (cases "rt_schedule_remove_thread t s")
  case (Some s1)
  then have "threads s1 = threads s" by (auto simp: rt_schedule_remove_thread_Some)
  with Some show ?thesis
    by (simp add: rt_thread_detach_def detach_sections_def rt_timer_detach_def rt_object_detach_def Let_def map_conv_bind_option)
qed (simp add: rt_thread_detach_def detach_sections_def)

lemma resume_is_sections:
  "rt_thread_resume t s =
     map_option (Pair (if stat (threads s t) = RT_THREAD_SUSPEND then RT_EOK else - RT_ERROR)) (run_sections (resume_sections t s) s)"
  by (simp add: rt_thread_resume_def resume_sections_def Let_def map_conv_bind_option)

text \<open>What a section relies on: that the thread is still as the section before has left it. A thread that is being closed
  or resumed was suspended; nothing has linked it since, and nothing has changed its status.\<close>

definition section_ok :: "thread_section \<Rightarrow> kstate \<Rightarrow> bool" where
  "section_ok c s =
     (case c of
        Sec_remove t \<Rightarrow> stat (threads s t) = RT_THREAD_SUSPEND
      | Sec_close t \<Rightarrow> stat (threads s t) = RT_THREAD_SUSPEND \<and> onlist (tlists s) t = None
      | Sec_defunct t \<Rightarrow> stat (threads s t) = RT_THREAD_CLOSE
      | Sec_unlink t \<Rightarrow> stat (threads s t) = RT_THREAD_SUSPEND
      | Sec_insert t \<Rightarrow> stat (threads s t) = RT_THREAD_SUSPEND
      | _ \<Rightarrow> True)"

subsection \<open>The operations keep the invariant\<close>

lemma kinv_object_detach: "kinv s \<Longrightarrow> kinv (rt_object_detach x s)"
  by (simp add: rt_object_detach_def kinv_def timer_inv_def wf_l_remove)

lemma kinv_object_init:
  assumes op: "rt_object_init x c nm s = Some s'" and inv: "kinv s"
  shows "kinv s'"
proof -
  have "timer_flag s' = timer_flag s" "tmlists s' = tmlists s" "sched_inv s' = sched_inv s"
    using op by (auto simp: rt_object_init_Some fun_eq_iff)
  moreover have "wf_lists (obj_lists s')"
    using wf_l_insert_first [of "obj_lists s" c x] op inv
    by (auto simp: rt_object_init_def Let_def kinv_def)
  ultimately show ?thesis using inv by (simp add: kinv_def timer_inv_def)
qed

text \<open>Replacing the record of a thread whose node is on no ready list.\<close>

lemma sched_inv_thread:
  assumes "sched_inv s" "thread_ok th (onlist (tlists s) t)"
  shows "sched_inv (s\<lparr>threads := (threads s)(t := th)\<rparr>)"
proof -
  have "sched_but {t} ((threads s)(t := th)) (tlists s) (rt_thread_ready_priority_group s)"
    using assms(1) by (intro sched_but_change) (auto simp: sched_inv_def elim: sched_but_mono)
  then show ?thesis using assms(2) unfolding sched_inv_def by (simp add: sched_but_close)
qed

lemma kinv_thread:
  "kinv s \<Longrightarrow> thread_ok th (onlist (tlists s) t) \<Longrightarrow> kinv (s\<lparr>threads := (threads s)(t := th)\<rparr>)"
  by (simp add: kinv_def sched_inv_thread)

lemma kinv_thread_init:
  assumes op: "thread_init t ent param stk sz pr tick s = Some (r, s')" and inv: "kinv s"
  shows "kinv s'"
proof -
  define th where "th = (threads s t)
    \<lparr>entry := ent, th_parameter := param, stack_addr := stk, stack_size := ucast sz,
     sp := rt_hw_stack_init (stk + ucast (ucast sz :: u16) - 4), init_priority := pr,
     current_priority := pr, init_tick := tick, remaining_tick := tick, th_error := RT_EOK,
     stat := RT_THREAD_INIT, cleanup := None, user_data := 0\<rparr>"
  from op have un: "onlist (tlists s) t = None"
    and tm: "rt_timer_init (Thread_timer t) (o_name (objs s (Thread_o t))) Rt_thread_timeout t 0
       RT_TIMER_FLAG_ONE_SHOT (s\<lparr>threads := (threads s)(t := th)\<rparr>) = Some s'"
    by (auto simp: th_def thread_init_def l_init_node_def bind_eq_Some_conv split: if_splits)
  have "kinv (s\<lparr>threads := (threads s)(t := th)\<rparr>)"
    using inv un by (intro kinv_thread) (simp_all add: thread_ok_def th_def)
  with tm show ?thesis by (rule kinv_timer_init)
qed

lemma kinv_rt_thread_init:
  "rt_thread_init t nm ent param stk sz pr tick s = Some (r, s') \<Longrightarrow> kinv s \<Longrightarrow> kinv s'"
  by (auto simp: rt_thread_init_def bind_eq_Some_conv intro: kinv_thread_init kinv_object_init)

lemma rt_thread_startupE:
  assumes op: "rt_thread_startup t s = Some (r, s')"
  obtains th s2 where "stat (threads s t) = RT_THREAD_INIT" "prio_ok th" "stat th = RT_THREAD_SUSPEND"
    "current_priority th = init_priority (threads s t)" "init_priority th = init_priority (threads s t)"
    "rt_thread_resume t (s\<lparr>threads := (threads s)(t := th)\<rparr>) = Some (RT_EOK, s2)"
    "s' = s2 \<or> rt_schedule s2 = Some s'"
proof -
  let ?th = "(threads s t)\<lparr>current_priority := init_priority (threads s t),
     number_mask := push_bit (unat (init_priority (threads s t))) 1, stat := RT_THREAD_SUSPEND\<rparr>"
  from op obtain s2 e where st: "stat (threads s t) = RT_THREAD_INIT"
    and res: "rt_thread_resume t (s\<lparr>threads := (threads s)(t := ?th)\<rparr>) = Some (e, s2)"
    and s': "s' = s2 \<or> rt_schedule s2 = Some s'"
    by (auto simp: rt_thread_startup_def bind_eq_Some_conv split: if_splits)
  have "e = RT_EOK" "prio_ok ?th"
    using res by (auto simp: rt_thread_resume_Some rt_schedule_insert_thread_Some prio_ok_def)
  with st res s' show ?thesis by (intro that [of ?th s2]) auto
qed

lemma kinv_startup:
  assumes op: "rt_thread_startup t s = Some (r, s')" and inv: "kinv s"
  shows "kinv s'"
  using op
proof (rule rt_thread_startupE)
  fix th s2
  assume a: "stat (threads s t) = RT_THREAD_INIT" "prio_ok th" "stat th = RT_THREAD_SUSPEND"
    "rt_thread_resume t (s\<lparr>threads := (threads s)(t := th)\<rparr>) = Some (RT_EOK, s2)"
    "s' = s2 \<or> rt_schedule s2 = Some s'"
  have "onlist (tlists s) t = None" using kinv_thread_ok [OF inv, of t] a(1) by (simp add: thread_ok_def)
  then have "kinv (s\<lparr>threads := (threads s)(t := th)\<rparr>)"
    using a inv by (intro kinv_thread) (simp_all add: thread_ok_def)
  then have "kinv s2" using a(4) by (blast intro: kinv_resume)
  then show ?thesis using a(5) kinv_schedule by blast
qed

text \<open>A thread that leaves the scheduler for good, and may be put on the defunct list.\<close>

lemma sched_inv_close:
  assumes but: "sched_but {t} (threads s) (tlists s) (rt_thread_ready_priority_group s)"
    and un: "onlist (tlists s) t = None" and st: "stat (threads s t) = RT_THREAD_CLOSE"
    and s': "s' = s \<or> on_tlists (l_insert_first Defunct t) s = Some s'"
  shows "sched_inv s'"
  using s'
proof
  assume "s' = s"
  then show ?thesis using but un st
    unfolding sched_inv_def by (simp add: sched_but_close thread_ok_def)
next
  assume "on_tlists (l_insert_first Defunct t) s = Some s'"
  then obtain L where L: "l_insert_first Defunct t (tlists s) = Some L" "s' = s\<lparr>tlists := L\<rparr>" by auto
  have "sched_but {t} (threads s) L (rt_thread_ready_priority_group s)"
    using L(1) by (intro sched_but_link [OF but _ wf_l_insert_first [OF sched_but_wf [OF but] L(1)],
        of t Defunct "t # elems (tlists s) Defunct"]) (simp_all add: l_insert_first_Some)
  then show ?thesis using L st
    unfolding sched_inv_def by (simp add: sched_but_close thread_ok_def l_insert_first_Some)
qed

lemma sched_inv_remove_same:
  assumes inv: "sched_inv s" and st: "stat (threads s t) = RT_THREAD_READY \<or> stat (threads s t) = RT_THREAD_SUSPEND"
    and op: "rt_schedule_remove_thread t s = Some s'"
  shows "sched_but {t} (threads s') (tlists s') (rt_thread_ready_priority_group s')"
    and "onlist (tlists s') t = None" and "threads s' = threads s"
  using sched_inv_remove [OF inv st, of "threads s t" s'] op by simp_all

lemma sched_but_stat: "sched_but {t} T L g \<Longrightarrow> sched_but {t} (T(t := th)) L g"
  by (rule sched_but_change) simp_all

lemma kinv_delete:
  assumes op: "rt_thread_delete t s = Some (r, s')" and inv: "kinv s"
    and st: "stat (threads s t) = RT_THREAD_READY \<or> stat (threads s t) = RT_THREAD_SUSPEND"
  shows "kinv s'"
proof -
  from op obtain s1 where rm: "rt_schedule_remove_thread t s = Some s1"
    and ins: "on_tlists (l_insert_first Defunct t)
      (upd_thread t (\<lambda>r. r\<lparr>stat := RT_THREAD_CLOSE\<rparr>) (snd (rt_timer_detach (Thread_timer t) s1))) = Some s'"
    by (auto simp: rt_thread_delete_def bind_eq_Some_conv split_beta)
  note r = sched_inv_remove_same [OF _ st rm]
  have "sched_inv s'"
    using r inv by (intro sched_inv_close [OF _ _ _ disjI2 [OF ins]])
      (simp_all add: rt_timer_detach_def rt_object_detach_def kinv_def sched_but_stat)
  moreover have "timer_inv s'" "wf_lists (obj_lists s')"
    using rm ins inv
    by (auto simp: rt_schedule_remove_thread_Some rt_timer_detach_def rt_object_detach_def kinv_def
        timer_inv_def timer_ok_remove wf_l_remove)
  ultimately show ?thesis by (simp add: kinv_def)
qed

lemma kinv_detach:
  assumes op: "rt_thread_detach t s = Some (r, s')" and inv: "kinv s"
    and st: "stat (threads s t) = RT_THREAD_READY \<or> stat (threads s t) = RT_THREAD_SUSPEND"
  shows "kinv s'"
proof -
  let ?d = "\<lambda>s. rt_object_detach (Thread_o t)
      (upd_thread t (\<lambda>r. r\<lparr>stat := RT_THREAD_CLOSE\<rparr>) (snd (rt_timer_detach (Thread_timer t) s)))"
  from op obtain s1 where rm: "rt_schedule_remove_thread t s = Some s1"
    and ins: "s' = ?d s1 \<or> on_tlists (l_insert_first Defunct t) (?d s1) = Some s'"
    by (auto simp: rt_thread_detach_def bind_eq_Some_conv split_beta Let_def split: if_splits)
  note r = sched_inv_remove_same [OF _ st rm]
  have "sched_inv s'"
    using r inv by (intro sched_inv_close [OF _ _ _ ins])
      (simp_all add: rt_timer_detach_def rt_object_detach_def kinv_def sched_but_stat)
  moreover have "timer_inv s'" "wf_lists (obj_lists s')"
    using rm ins inv
    by (auto simp: rt_schedule_remove_thread_Some rt_timer_detach_def rt_object_detach_def kinv_def
        timer_inv_def timer_ok_remove wf_l_remove)
  ultimately show ?thesis by (simp add: kinv_def)
qed

lemma kinv_exit:
  assumes op: "rt_thread_exit s = Some s'" and inv: "kinv s"
    and t: "rt_current_thread s = Some t" "stat (threads s t) = RT_THREAD_READY"
  shows "kinv s'"
proof -
  let ?d = "\<lambda>s. rt_object_detach (Timer_o (Thread_timer t))
      ((upd_thread t (\<lambda>r. r\<lparr>stat := RT_THREAD_CLOSE\<rparr>) s)
         \<lparr>tmlists := l_remove (Thread_timer t) (tmlists s)\<rparr>)"
  from op t obtain s1 s2 where rm: "rt_schedule_remove_thread t s = Some s1"
    and s2: "s2 = rt_object_detach (Thread_o t) (?d s1) \<or> on_tlists (l_insert_first Defunct t) (?d s1) = Some s2"
    and sch: "rt_schedule s2 = Some s'"
    by (auto simp: rt_thread_exit_def bind_eq_Some_conv Let_def split: if_splits)
  note r = sched_inv_remove_same [OF _ disjI1 [OF t(2)] rm]
  have "sched_inv s2"
    using s2
  proof
    assume "s2 = rt_object_detach (Thread_o t) (?d s1)"
    then show ?thesis
      using r inv by (intro sched_inv_close [of t s2, OF _ _ _ disjI1 [OF refl]])
        (simp_all add: rt_object_detach_def kinv_def sched_but_stat)
  next
    assume i: "on_tlists (l_insert_first Defunct t) (?d s1) = Some s2"
    show ?thesis
      using r inv by (intro sched_inv_close [OF _ _ _ disjI2 [OF i]])
        (simp_all add: rt_object_detach_def kinv_def sched_but_stat)
  qed
  moreover have "timer_inv s2" "wf_lists (obj_lists s2)"
    using rm s2 inv
    by (auto simp: rt_schedule_remove_thread_Some rt_object_detach_def kinv_def
        timer_inv_def timer_ok_remove wf_l_remove)
  ultimately have "kinv s2" by (simp add: kinv_def)
  with sch show ?thesis by (rule kinv_schedule)
qed

text \<open>Each section keeps the invariant, if the thread is as the section before has left it.\<close>

lemma kinv_section:
  assumes op: "section_exec c s = Some s'" and ok: "section_ok c s" and inv: "kinv s"
  shows "kinv s'"
proof -
  have si: "sched_inv s" and tl: "timer_inv s" "wf_lists (obj_lists s)" using inv by (simp_all add: kinv_def)
  have but: "sched_but {t} (threads s) (tlists s) (rt_thread_ready_priority_group s)" for t
    using si by (auto simp: sched_inv_def elim: sched_but_mono)
  show ?thesis
  proof (cases c)
    case (Sec_remove t)
    then have st: "stat (threads s t) = RT_THREAD_SUSPEND" and rm: "rt_schedule_remove_thread t s = Some s'"
      using op ok by (simp_all add: section_ok_def)
    note r = sched_inv_remove_same [OF si disjI2 [OF st] rm]
    have "prio_ok (threads s t)" using sched_inv_unlink(2) [OF si st] .
    then have "thread_ok (threads s' t) (onlist (tlists s') t)" unfolding r(2,3) using st by (simp add: thread_ok_def)
    with r(1) have "sched_inv s'" unfolding sched_inv_def by (rule sched_but_close)
    moreover have "timer_inv s'" "wf_lists (obj_lists s')"
      using rm tl by (auto simp: rt_schedule_remove_thread_Some timer_inv_def)
    ultimately show ?thesis by (rule kinvI)
  next
    case (Sec_close t)
    then show ?thesis using op ok kinv_thread [OF inv, of _ t] by (auto simp: section_ok_def thread_ok_def)
  next
    case (Sec_defunct t)
    then obtain L where L: "l_insert_first Defunct t (tlists s) = Some L" "s' = s\<lparr>tlists := L\<rparr>"
      and st: "stat (threads s t) = RT_THREAD_CLOSE"
      using op ok by (auto simp: section_ok_def)
    then have "onlist (tlists s) t = None" by (auto simp: l_insert_first_Some)
    with Sec_defunct op st have "sched_inv s'" by (intro sched_inv_close [OF but _ st]) simp_all
    then show ?thesis using L tl by (auto intro: kinvI)
  next
    case (Sec_unlink t)
    then have st: "stat (threads s t) = RT_THREAD_SUSPEND" using ok by (simp add: section_ok_def)
    have "sched_inv s'"
      using op Sec_unlink sched_inv_unlink [OF si st] st unfolding sched_inv_def
      by (auto simp: thread_ok_def intro: sched_but_close)
    then show ?thesis using op Sec_unlink tl by (auto simp: kinv_def timer_inv_def intro: timer_ok_remove_flag)
  next
    case (Sec_insert t)
    then have "stat (threads s t) = RT_THREAD_SUSPEND" "rt_schedule_insert_thread t s = Some s'"
      using op ok by (simp_all add: section_ok_def)
    then have "sched_inv s'" using sched_inv_unlink(2) [OF si] by (intro sched_inv_insert [OF but]) simp_all
    then show ?thesis using op Sec_insert tl by (auto simp: rt_schedule_insert_thread_Some kinv_def timer_inv_def)
  next
    case (Sec_timer t)
    then have "s' = s\<lparr>tmlists := l_remove (Thread_timer t) (tmlists s)\<rparr>" using op by simp
    then show ?thesis using si tl by (simp add: kinv_def timer_inv_def timer_ok_remove)
  next
    case (Sec_timer_object t)
    then show ?thesis using op kinv_object_detach [OF inv] by auto
  next
    case (Sec_object t)
    then show ?thesis using op kinv_object_detach [OF inv] by auto
  qed
qed

text \<open>What can go wrong otherwise: the thread waits with a time limit, and its timer runs out after it has been taken off its list.
  \<^verbatim>\<open>rt_thread_timeout\<close> finds it suspended and makes it ready; then it is closed on the ready list, and linking it to the
  defunct list links a node that is linked.\<close>

lemma close_timed_out:
  assumes "section_exec (Sec_remove t) s = Some s1" "rt_thread_timeout t s1 = Some s2"
    and "run_sections [Sec_timer t, Sec_timer_object t, Sec_close t] s2 = Some s3"
  shows "stat (threads s3 t) = RT_THREAD_CLOSE \<and> (\<exists>p. onlist (tlists s3) t = Some (Ready p)) \<and>
    \<not> kinv s3 \<and> section_exec (Sec_defunct t) s3 = None"
proof -
  from assms(2) obtain s0 s4 where "rt_schedule_insert_thread t s0 = Some s4" and sch: "rt_schedule s4 = Some s2"
    by (auto simp: rt_thread_timeout_def bind_eq_Some_conv)
  then obtain p where "onlist (tlists s4) t = Some (Ready p)"
    by (auto simp: rt_schedule_insert_thread_Some l_insert_last_Some)
  then have on: "onlist (tlists s3) t = Some (Ready p)"
    using sch assms(3) by (auto simp: rt_object_detach_def elim!: rt_scheduleE)
  have st: "stat (threads s3 t) = RT_THREAD_CLOSE" using assms(3) by (auto simp: rt_object_detach_def)
  then have "\<not> kinv s3" using kinv_thread_ok [of s3 t] on by (auto simp: thread_ok_def)
  then show ?thesis using on st by (auto simp: l_insert_first_def)
qed

text \<open>Moving a ready thread to the end of its list.\<close>

lemma sched_inv_to_end:
  assumes inv: "sched_inv s" and st: "stat (threads s t) = RT_THREAD_READY"
    and p: "p = unat (current_priority (threads s t))"
  obtains L where "l_insert_last (Ready p) t (l_remove t (tlists s)) = Some L"
    "sched_inv (s\<lparr>tlists := L\<rparr>)"
    "elems L = (elems (tlists s))(Ready p := remove1 t (elems (tlists s) (Ready p)) @ [t])"
proof -
  have wf: "wf_lists (tlists s)" using inv by (simp add: sched_inv_def sched_but_wf)
  have ok: "thread_ok (threads s t) (onlist (tlists s) t)" using inv by (rule sched_inv_ok)
  then have on: "onlist (tlists s) t = Some (Ready p)" using st p by (simp add: thread_ok_def)
  define L where "L = (l_remove t (tlists s))
    \<lparr>elems := (elems (l_remove t (tlists s)))(Ready p := elems (l_remove t (tlists s)) (Ready p) @ [t]),
     onlist := (onlist (l_remove t (tlists s)))(t \<mapsto> Ready p)\<rparr>"
  have L: "l_insert_last (Ready p) t (l_remove t (tlists s)) = Some L"
    by (simp add: l_insert_last_Some L_def)
  have el: "elems L = (elems (tlists s))(Ready p := remove1 t (elems (tlists s) (Ready p)) @ [t])"
    using on by (simp add: L_def l_remove_def)
  have onL: "onlist L = onlist (tlists s)" using on by (auto simp: L_def)
  have "t \<in> set (elems (tlists s) (Ready p))" using on wf by (simp add: wf_listsD)
  then have "elems L h \<noteq> [] \<longleftrightarrow> elems (tlists s) h \<noteq> []" for h by (auto simp: el)
  moreover have "wf_lists L" using L wf wf_l_insert_last wf_l_remove by metis
  ultimately have "sched_inv (s\<lparr>tlists := L\<rparr>)"
    using inv by (simp add: sched_inv_def sched_but_def bitmap_ok_def onL)
  then show ?thesis using that [OF L _ el] by blast
qed

lemma rt_thread_yieldE:
  assumes op: "rt_thread_yield s = Some (r, s')" and inv: "kinv s"
  obtains "s' = s"
  | t L where "rt_current_thread s = Some t" "stat (threads s t) = RT_THREAD_READY"
      "kinv (s\<lparr>tlists := L\<rparr>)" "rt_schedule (s\<lparr>tlists := L\<rparr>) = Some s'"
      "elems L = (elems (tlists s))(Ready (unat (current_priority (threads s t))) :=
         remove1 t (elems (tlists s) (Ready (unat (current_priority (threads s t))))) @ [t])"
proof -
  from op obtain t where t: "rt_current_thread s = Some t"
    by (auto simp: rt_thread_yield_def bind_eq_Some_conv)
  show ?thesis
  proof (cases "stat (threads s t) = RT_THREAD_READY \<and> l_next (tlists s) (Node t) \<noteq> l_prev (tlists s) (Node t)")
    case False
    with op t have "s' = s" by (auto simp: rt_thread_yield_def)
    then show ?thesis by (rule that(1))
  next
    case True
    have si: "sched_inv s" using inv by (simp add: kinv_def)
    from True obtain L where L: "l_insert_last (Ready (unat (current_priority (threads s t)))) t
        (l_remove t (tlists s)) = Some L" "sched_inv (s\<lparr>tlists := L\<rparr>)"
      "elems L = (elems (tlists s))(Ready (unat (current_priority (threads s t))) :=
         remove1 t (elems (tlists s) (Ready (unat (current_priority (threads s t))))) @ [t])"
      using sched_inv_to_end [OF si _ refl, of t] by blast
    from op t True L(1) have "rt_schedule (s\<lparr>tlists := L\<rparr>) = Some s'"
      by (auto simp: rt_thread_yield_def bind_eq_Some_conv)
    moreover have "kinv (s\<lparr>tlists := L\<rparr>)" using inv L(2) by (simp add: kinv_def)
    ultimately show ?thesis using t True L(3) that(2) by blast
  qed
qed

lemma kinv_yield: "rt_thread_yield s = Some (r, s') \<Longrightarrow> kinv s \<Longrightarrow> kinv s'"
  by (erule (1) rt_thread_yieldE) (simp, blast intro: kinv_schedule)

lemma yield_tm:
  assumes "rt_thread_yield s = Some (r, s')" "kinv s"
  shows "rt_tick s' = rt_tick s \<and> timers s' = timers s \<and> tmlists s' = tmlists s"
  using assms by (elim rt_thread_yieldE) (auto elim!: rt_scheduleE)

lemma kinv_sleep:
  assumes op: "rt_thread_sleep tick s = Some s'" and inv: "kinv s"
  shows "kinv s'"
proof -
  from op obtain t e1 s1 e2 s2 where sus: "rt_thread_suspend t s = Some (e1, s1)"
    and st: "rt_timer_start (Thread_timer t)
      (snd (snd (rt_timer_control (Thread_timer t) RT_TIMER_CTRL_SET_TIME tick s1))) = Some (e2, s2)"
    and sch: "rt_schedule s2 = Some s'"
    by (auto simp: rt_thread_sleep_def bind_eq_Some_conv split_beta Let_def)
  show ?thesis
    using kinv_suspend [OF sus inv] st sch kinv_timer_control kinv_timer_start kinv_schedule by metis
qed

lemma kinv_sleep_resumed: "kinv s \<Longrightarrow> kinv (snd (rt_thread_sleep_resumed t s))"
  using kinv_thread [of s "(threads s t)\<lparr>th_error := RT_EOK\<rparr>" t] kinv_thread_ok [of s t]
  by (simp add: rt_thread_sleep_resumed_def)

lemma kinv_control:
  assumes op: "rt_thread_control t cmd arg s = Some (r, s')" and inv: "kinv s"
    and arg: "cmd = RT_THREAD_CTRL_CHANGE_PRIORITY \<Longrightarrow> stat (threads s t) = RT_THREAD_SUSPEND \<Longrightarrow>
      unat arg < RT_THREAD_PRIORITY_MAX"
    and cl: "cmd = RT_THREAD_CTRL_CLOSE \<Longrightarrow>
      stat (threads s t) = RT_THREAD_READY \<or> stat (threads s t) = RT_THREAD_SUSPEND"
  shows "kinv s'"
proof -
  let ?th = "(threads s t)\<lparr>current_priority := arg, number_mask := push_bit (unat arg) 1\<rparr>"
  consider (prio) "cmd = RT_THREAD_CTRL_CHANGE_PRIORITY" "stat (threads s t) = RT_THREAD_READY"
    | (other) "cmd = RT_THREAD_CTRL_CHANGE_PRIORITY" "stat (threads s t) \<noteq> RT_THREAD_READY"
    | (rest) "cmd \<noteq> RT_THREAD_CTRL_CHANGE_PRIORITY" by blast
  then show ?thesis
  proof cases
    case prio
    from op prio obtain s1 where rm: "rt_schedule_remove_thread t s = Some s1"
      and ins: "rt_schedule_insert_thread t (s1\<lparr>threads := (threads s1)(t := (threads s1 t)
          \<lparr>current_priority := arg, number_mask := push_bit (unat arg) 1\<rparr>)\<rparr>) = Some s'"
      by (auto simp: rt_thread_control_def bind_eq_Some_conv)
    note r = sched_inv_remove_same [OF _ disjI1 [OF prio(2)] rm]
    have "sched_inv s'"
      using r inv ins by (intro sched_inv_insert [OF _ _ ins])
        (simp_all add: kinv_def sched_but_stat prio_ok_def rt_schedule_insert_thread_Some)
    moreover have "timer_inv s'" "wf_lists (obj_lists s')"
      using rm ins inv by (auto simp: rt_schedule_remove_thread_Some rt_schedule_insert_thread_Some
          kinv_def timer_inv_def)
    ultimately show ?thesis by (simp add: kinv_def)
  next
    case other
    have "thread_ok ?th (onlist (tlists s) t)"
      using kinv_thread_ok [OF inv, of t] other arg
      by (cases "stat (threads s t)") (auto simp: thread_ok_def prio_ok_def)
    with op other inv show ?thesis by (auto simp: rt_thread_control_def kinv_thread)
  next
    case rest
    with op inv cl show ?thesis
      by (auto simp: rt_thread_control_def split: if_splits intro: kinv_startup kinv_delete)
  qed
qed

lemma kinv_exit_critical: "rt_exit_critical s = Some s' \<Longrightarrow> kinv s \<Longrightarrow> kinv s'"
  by (auto simp: rt_exit_critical_def Let_def split: if_splits intro: kinv_schedule)

lemma kinv_enter_critical: "kinv s \<Longrightarrow> kinv (rt_enter_critical s)"
  by (simp add: rt_enter_critical_def)

lemma kinv_find: "rt_thread_find nm s = Some (r, s') \<Longrightarrow> kinv s \<Longrightarrow> kinv s'"
  by (auto simp: rt_thread_find_def bind_eq_Some_conv Let_def split: if_splits
      intro: kinv_exit_critical kinv_enter_critical)

subsection \<open>The tick\<close>

context timer_callbacks
begin

text \<open>One tick after a check that left no timer due, the order still holds; the check at
  the end of the tick establishes it for the next one.\<close>

lemma tick_increase:
  assumes op: "rt_tick_increase cb s = Some s'" and inv: "kinv s" and ord: "timers_ordered s"
    and nd: "\<And>x. x \<in> set (elems (tmlists s) Hard_timers) \<Longrightarrow> timeout_tick (timers s x) \<noteq> rt_tick s"
  shows "kinv s'" "timers_ordered s'" "rt_tick s' = rt_tick s + 1"
    "x \<in> set (elems (tmlists s') Hard_timers) \<Longrightarrow> timeout_tick (timers s' x) \<noteq> rt_tick s'"
proof -
  let ?s = "\<lambda>th t. s\<lparr>rt_tick := rt_tick s + 1, threads := (threads s)(t := th)\<rparr>"
  define th1 where "th1 t = (threads s t)\<lparr>remaining_tick := remaining_tick (threads s t) - 1\<rparr>" for t
  define th2 where "th2 t = (threads s t)\<lparr>remaining_tick := init_tick (threads s t)\<rparr>" for t
  from op obtain t s1 where "s1 = ?s (th1 t) t \<or> (\<exists>e. rt_thread_yield (?s (th2 t) t) = Some (e, s1))"
    and chk: "rt_timer_check cb s1 = Some s'"
    by (auto simp: rt_tick_increase_def Let_def bind_eq_Some_conv th1_def th2_def split: if_splits)
  then obtain th where th: "th = th1 t \<or> th = th2 t"
    and s1: "s1 = ?s th t \<or> (\<exists>e. rt_thread_yield (?s th t) = Some (e, s1))"
    by blast
  have "thread_ok th (onlist (tlists s) t)"
    using kinv_thread_ok [OF inv, of t] th by (auto simp: th1_def th2_def)
  then have k: "kinv (?s th t)"
    using kinv_thread [of "s\<lparr>rt_tick := rt_tick s + 1\<rparr>" th t] inv by simp
  have o: "timers_ordered (?s th t)"
    using tick_sorted_next nd ord by (simp add: timers_ordered_def)
  have s1': "kinv s1" "timers_ordered s1" "rt_tick s1 = rt_tick s + 1"
    using s1 k o kinv_yield [OF _ k] yield_tm [OF _ k] by (auto simp: timers_ordered_def)
  then show "kinv s'" "timers_ordered s'" "rt_tick s' = rt_tick s + 1"
    "x \<in> set (elems (tmlists s') Hard_timers) \<Longrightarrow> timeout_tick (timers s' x) \<noteq> rt_tick s'"
    using check_keeps [OF chk] by auto
qed

end

end
