(* ===== verification/Heap_Mem.thy ===== *)
theory Heap_Mem
  imports Heap_State
begin

text \<open>
  The small memory heap of \<^verbatim>\<open>src/mem.c\<close>: a region of memory cut into blocks, each with a
  header that links it to its neighbours, first fit from \<open>lfree\<close> on, and merging of free
  neighbours. Pointers into the heap are offsets from \<^verbatim>\<open>heap_ptr\<close>, except those that callers
  get and pass, which are addresses (0 is the null pointer). Arithmetic on
  \<^verbatim>\<open>rt_size_t\<close> wraps at 32 bits. The semaphore that guards the heap is its count; taking it at
  0 would wait for another thread, which has no result here.

  The second half describes a heap by the list of the offsets of its blocks and proves what the
  operations do to it.
\<close>

subsection \<open>Operations\<close>

definition uadd32 :: "nat \<Rightarrow> nat \<Rightarrow> nat" where "uadd32 a b = (a + b) mod 2 ^ 32"
definition usub32 :: "nat \<Rightarrow> nat \<Rightarrow> nat" where "usub32 a b = (a + 2 ^ 32 - b) mod 2 ^ 32"

definition HEAP_MAGIC :: u16 where "HEAP_MAGIC = 0x1ea0"
definition MIN_SIZE :: nat where "MIN_SIZE = 12"
definition MIN_SIZE_ALIGNED :: nat where "MIN_SIZE_ALIGNED = 16"
definition SIZEOF_STRUCT_MEM :: nat where "SIZEOF_STRUCT_MEM = 16"

lemmas heap_consts = MIN_SIZE_def MIN_SIZE_ALIGNED_def SIZEOF_STRUCT_MEM_def

abbreviation upd_hdr :: "nat \<Rightarrow> (heap_mem \<Rightarrow> heap_mem) \<Rightarrow> heap \<Rightarrow> heap" where
  "upd_hdr p f h \<equiv> h\<lparr>hdr := (hdr h)(p := f (hdr h p))\<rparr>"

definition heap_sem_take :: "heap \<Rightarrow> heap option" where
  "heap_sem_take h = (if heap_sem h = 0 then None else Some (h\<lparr>heap_sem := heap_sem h - 1\<rparr>))"

definition heap_sem_release :: "heap \<Rightarrow> heap" where
  "heap_sem_release h = h\<lparr>heap_sem := heap_sem h + 1\<rparr>"

definition plug_forward :: "nat \<Rightarrow> heap \<Rightarrow> heap" where
  "plug_forward mem h =
     (let nmem = hm_next (hdr h mem)
      in if mem \<noteq> nmem \<and> hm_used (hdr h nmem) = 0 \<and> nmem \<noteq> heap_end h then
           let h = (if lfree h = nmem then h\<lparr>lfree := mem\<rparr> else h);
               h = upd_hdr mem (\<lambda>m. m\<lparr>hm_next := hm_next (hdr h nmem)\<rparr>) h
           in upd_hdr (hm_next (hdr h nmem)) (\<lambda>m. m\<lparr>hm_prev := mem\<rparr>) h
         else h)"

definition plug_backward :: "nat \<Rightarrow> heap \<Rightarrow> heap" where
  "plug_backward mem h =
     (let pmem = hm_prev (hdr h mem)
      in if pmem \<noteq> mem \<and> hm_used (hdr h pmem) = 0 then
           let h = (if lfree h = mem then h\<lparr>lfree := pmem\<rparr> else h);
               h = upd_hdr pmem (\<lambda>m. m\<lparr>hm_next := hm_next (hdr h mem)\<rparr>) h
           in upd_hdr (hm_next (hdr h mem)) (\<lambda>m. m\<lparr>hm_prev := pmem\<rparr>) h
         else h)"

definition plug_holes :: "nat \<Rightarrow> heap \<Rightarrow> heap option" where
  "plug_holes mem h = do {
     h \<leftarrow> rt_assert (mem < heap_end h) h;
     h \<leftarrow> rt_assert (hm_used (hdr h mem) = 0) h;
     Some (plug_backward mem (plug_forward mem h))
   }"

definition rt_system_heap_init :: "u32 \<Rightarrow> u32 \<Rightarrow> heap \<Rightarrow> heap" where
  "rt_system_heap_init begin_addr end_addr h =
     (let begin_align = unat (RT_ALIGN begin_addr RT_ALIGN_SIZE);
          end_align = unat (RT_ALIGN_DOWN end_addr RT_ALIGN_SIZE)
      in if end_align > 2 * SIZEOF_STRUCT_MEM \<and> usub32 end_align (2 * SIZEOF_STRUCT_MEM) \<ge> begin_align then
           let h = h\<lparr>mem_size_aligned := usub32 (usub32 end_align begin_align) (2 * SIZEOF_STRUCT_MEM)\<rparr>;
               h = h\<lparr>heap_ptr := begin_align\<rparr>;
               h = upd_hdr 0 (\<lambda>m. m\<lparr>hm_magic := HEAP_MAGIC,
                     hm_next := uadd32 (mem_size_aligned h) SIZEOF_STRUCT_MEM,
                     hm_prev := 0, hm_used := 0\<rparr>) h;
               h = h\<lparr>heap_end := hm_next (hdr h 0)\<rparr>;
               h = upd_hdr (heap_end h) (\<lambda>m. m\<lparr>hm_magic := HEAP_MAGIC, hm_used := 1,
                     hm_next := uadd32 (mem_size_aligned h) SIZEOF_STRUCT_MEM,
                     hm_prev := uadd32 (mem_size_aligned h) SIZEOF_STRUCT_MEM\<rparr>) h;
               h = h\<lparr>heap_sem := 1\<rparr>
           in h\<lparr>lfree := 0\<rparr>
         else h)"

text \<open>The search of \<^verbatim>\<open>rt_malloc\<close> for the first block that is free and large enough, and the
  search for the next free block.\<close>

partial_function (option) malloc_find :: "heap \<Rightarrow> nat \<Rightarrow> nat \<Rightarrow> nat option option" where
  "malloc_find h sz ptr =
     (if ptr < usub32 (mem_size_aligned h) sz then
        if hm_used (hdr h ptr) = 0 \<and>
           usub32 (hm_next (hdr h ptr)) (uadd32 ptr SIZEOF_STRUCT_MEM) \<ge> sz
        then Some (Some ptr)
        else malloc_find h sz (hm_next (hdr h ptr))
      else Some None)"

partial_function (option) next_free :: "heap \<Rightarrow> nat \<Rightarrow> nat option" where
  "next_free h p =
     (if hm_used (hdr h p) \<noteq> 0 \<and> p \<noteq> heap_end h then next_free h (hm_next (hdr h p)) else Some p)"

text \<open>The statistics of \<^verbatim>\<open>RT_MEM_STATS\<close>; cutting the found block in two, or taking it
  whole.\<close>

definition mem_stats :: "nat \<Rightarrow> heap \<Rightarrow> heap" where
  "mem_stats n h =
     (let h = h\<lparr>used_mem := uadd32 (used_mem h) n\<rparr>
      in if max_mem h < used_mem h then h\<lparr>max_mem := used_mem h\<rparr> else h)"

lemma mem_stats_sel [simp]:
  "hdr (mem_stats n h) = hdr h" "lfree (mem_stats n h) = lfree h" "heap_end (mem_stats n h) = heap_end h"
  "heap_ptr (mem_stats n h) = heap_ptr h" "heap_sem (mem_stats n h) = heap_sem h"
  "mem_size_aligned (mem_stats n h) = mem_size_aligned h" "heap_bytes (mem_stats n h) = heap_bytes h"
  "used_mem (mem_stats n h) = uadd32 (used_mem h) n"
  by (simp_all add: mem_stats_def Let_def)

definition malloc_split :: "nat \<Rightarrow> nat \<Rightarrow> heap \<Rightarrow> heap" where
  "malloc_split ptr sz h =
     (let ptr2 = uadd32 (uadd32 ptr SIZEOF_STRUCT_MEM) sz;
          h = upd_hdr ptr2 (\<lambda>m. m\<lparr>hm_used := 0, hm_next := hm_next (hdr h ptr), hm_prev := ptr\<rparr>) h;
          h = upd_hdr ptr (\<lambda>m. m\<lparr>hm_next := ptr2, hm_used := 1\<rparr>) h;
          h = (if hm_next (hdr h ptr2) \<noteq> uadd32 (mem_size_aligned h) SIZEOF_STRUCT_MEM
               then upd_hdr (hm_next (hdr h ptr2)) (\<lambda>m. m\<lparr>hm_prev := ptr2\<rparr>) h else h)
      in mem_stats (uadd32 sz SIZEOF_STRUCT_MEM) h)"

definition malloc_whole :: "nat \<Rightarrow> heap \<Rightarrow> heap" where
  "malloc_whole ptr h =
     (let h = upd_hdr ptr (\<lambda>m. m\<lparr>hm_used := 1\<rparr>) h
      in mem_stats (usub32 (hm_next (hdr h ptr)) ptr) h)"

definition malloc_cut :: "nat \<Rightarrow> nat \<Rightarrow> heap \<Rightarrow> heap" where
  "malloc_cut ptr sz h =
     upd_hdr ptr (\<lambda>m. m\<lparr>hm_magic := HEAP_MAGIC\<rparr>)
       (if usub32 (hm_next (hdr h ptr)) (uadd32 ptr SIZEOF_STRUCT_MEM)
             \<ge> uadd32 (uadd32 sz SIZEOF_STRUCT_MEM) MIN_SIZE_ALIGNED
        then malloc_split ptr sz h else malloc_whole ptr h)"

definition malloc_lfree :: "nat \<Rightarrow> heap \<Rightarrow> heap option" where
  "malloc_lfree ptr h =
     (if ptr = lfree h then do {
        p \<leftarrow> next_free h (lfree h);
        let h = h\<lparr>lfree := p\<rparr>;
        rt_assert (lfree h = heap_end h \<or> hm_used (hdr h (lfree h)) = 0) h
      } else Some h)"

definition rt_malloc :: "u32 \<Rightarrow> heap \<Rightarrow> (nat \<times> heap) option" where
  "rt_malloc req h =
     (if req = 0 then Some (0, h)
      else
        let sz = unat (RT_ALIGN req RT_ALIGN_SIZE)
        in if sz > mem_size_aligned h then Some (0, h)
           else let sz = (if sz < MIN_SIZE_ALIGNED then MIN_SIZE_ALIGNED else sz) in do {
             h \<leftarrow> heap_sem_take h;
             r \<leftarrow> malloc_find h sz (lfree h);
             case r of
               None \<Rightarrow> Some (0, heap_sem_release h)
             | Some ptr \<Rightarrow> do {
                 h \<leftarrow> malloc_lfree ptr (malloc_cut ptr sz h);
                 let h = heap_sem_release h;
                 h \<leftarrow> rt_assert (uadd32 (uadd32 (heap_ptr h + ptr) SIZEOF_STRUCT_MEM) sz
                                 \<le> heap_ptr h + heap_end h) h;
                 h \<leftarrow> rt_assert ((heap_ptr h + ptr + SIZEOF_STRUCT_MEM) mod 8 = 0) h;
                 h \<leftarrow> rt_assert ((heap_ptr h + ptr) mod 8 = 0) h;
                 Some (heap_ptr h + ptr + SIZEOF_STRUCT_MEM, h)
               }
           })"

definition rt_free :: "nat \<Rightarrow> heap \<Rightarrow> heap option" where
  "rt_free rmem h =
     (if rmem = 0 then Some h
      else do {
        h \<leftarrow> rt_assert (rmem mod 8 = 0) h;
        h \<leftarrow> rt_assert (rmem \<ge> heap_ptr h \<and> rmem < heap_ptr h + heap_end h) h;
        h \<leftarrow> rt_assert (rmem \<ge> heap_ptr h + SIZEOF_STRUCT_MEM) h;
        let mem = rmem - heap_ptr h - SIZEOF_STRUCT_MEM;
        h \<leftarrow> heap_sem_take h;
        h \<leftarrow> rt_assert (hm_used (hdr h mem) \<noteq> 0) h;
        h \<leftarrow> rt_assert (hm_magic (hdr h mem) = HEAP_MAGIC) h;
        let h = upd_hdr mem (\<lambda>m. m\<lparr>hm_used := 0, hm_magic := 0\<rparr>) h;
        let h = (if mem < lfree h then h\<lparr>lfree := mem\<rparr> else h);
        let h = h\<lparr>used_mem := usub32 (used_mem h) (usub32 (hm_next (hdr h mem)) mem)\<rparr>;
        h \<leftarrow> plug_holes mem h;
        Some (heap_sem_release h)
      })"

text \<open>Copying and filling bytes of the heap, by address.\<close>

definition heap_memcpy :: "nat \<Rightarrow> nat \<Rightarrow> nat \<Rightarrow> heap \<Rightarrow> heap" where
  "heap_memcpy dst src n h =
     h\<lparr>heap_bytes := \<lambda>a. if dst - heap_ptr h \<le> a \<and> a < dst - heap_ptr h + n
                         then heap_bytes h (src - heap_ptr h + (a - (dst - heap_ptr h)))
                         else heap_bytes h a\<rparr>"

definition heap_memset :: "nat \<Rightarrow> u8 \<Rightarrow> nat \<Rightarrow> heap \<Rightarrow> heap" where
  "heap_memset dst c n h =
     h\<lparr>heap_bytes := \<lambda>a. if dst - heap_ptr h \<le> a \<and> a < dst - heap_ptr h + n then c
                         else heap_bytes h a\<rparr>"

definition realloc_split :: "nat \<Rightarrow> nat \<Rightarrow> nat \<Rightarrow> heap \<Rightarrow> heap option" where
  "realloc_split ptr sz newsz h =
     (let h = h\<lparr>used_mem := usub32 (used_mem h) (usub32 sz newsz)\<rparr>;
          ptr2 = uadd32 (uadd32 ptr SIZEOF_STRUCT_MEM) newsz;
          h = upd_hdr ptr2 (\<lambda>m. m\<lparr>hm_magic := HEAP_MAGIC, hm_used := 0,
                 hm_next := hm_next (hdr h ptr), hm_prev := ptr\<rparr>) h;
          h = upd_hdr ptr (\<lambda>m. m\<lparr>hm_next := ptr2\<rparr>) h;
          h = (if hm_next (hdr h ptr2) \<noteq> uadd32 (mem_size_aligned h) SIZEOF_STRUCT_MEM
               then upd_hdr (hm_next (hdr h ptr2)) (\<lambda>m. m\<lparr>hm_prev := ptr2\<rparr>) h else h)
      in plug_holes ptr2 h)"

definition rt_realloc :: "nat \<Rightarrow> u32 \<Rightarrow> heap \<Rightarrow> (nat \<times> heap) option" where
  "rt_realloc rmem newsize h =
     (let newsize = RT_ALIGN newsize RT_ALIGN_SIZE;
          newsz = unat newsize
      in if newsz > mem_size_aligned h then Some (0, h)
         else if rmem = 0 then rt_malloc newsize h
         else do {
           h \<leftarrow> heap_sem_take h;
           if rmem < heap_ptr h \<or> rmem \<ge> heap_ptr h + heap_end h
           then Some (rmem, heap_sem_release h)
           else do {
             h \<leftarrow> rt_assert (rmem \<ge> heap_ptr h + SIZEOF_STRUCT_MEM) h;
             let ptr = rmem - SIZEOF_STRUCT_MEM - heap_ptr h;
             let sz = usub32 (usub32 (hm_next (hdr h ptr)) ptr) SIZEOF_STRUCT_MEM;
             if sz = newsz then Some (rmem, heap_sem_release h)
             else if uadd32 (uadd32 newsz SIZEOF_STRUCT_MEM) MIN_SIZE < sz then do {
               h \<leftarrow> realloc_split ptr sz newsz h;
               Some (rmem, heap_sem_release h)
             }
             else do {
               let h = heap_sem_release h;
               (nmem, h) \<leftarrow> rt_malloc newsize h;
               if nmem \<noteq> 0 then do {
                 let h = heap_memcpy nmem rmem (if sz < newsz then sz else newsz) h;
                 h \<leftarrow> rt_free rmem h;
                 Some (nmem, h)
               }
               else Some (nmem, h)
             }
           }
         })"

definition rt_calloc :: "u32 \<Rightarrow> u32 \<Rightarrow> heap \<Rightarrow> (nat \<times> heap) option" where
  "rt_calloc count sz h = do {
     (p, h) \<leftarrow> rt_malloc (count * sz) h;
     Some (p, if p \<noteq> 0 then heap_memset p 0 (unat (count * sz)) h else h)
   }"

definition rt_memory_info :: "heap \<Rightarrow> nat \<times> nat \<times> nat" where
  "rt_memory_info h = (mem_size_aligned h, used_mem h, max_mem h)"

subsection \<open>Heaps as lists of blocks\<close>

text \<open>\<open>chain H bs e\<close>: the headers \<open>H\<close> link the offsets \<open>bs\<close> in ascending order, up to
  the end mark \<open>e\<close>, each at least a header apart from the next.\<close>

fun chain :: "(nat \<Rightarrow> heap_mem) \<Rightarrow> nat list \<Rightarrow> nat \<Rightarrow> bool" where
  "chain H [] e = False"
| "chain H [b] e = (b + 16 \<le> e \<and> hm_next (H b) = e)"
| "chain H (b # c # cs) e =
     (b + 16 \<le> c \<and> hm_next (H b) = c \<and> hm_prev (H c) = b \<and> chain H (c # cs) e)"

lemma in_set_tl: "x \<in> set (tl xs) \<Longrightarrow> x \<in> set xs"
  by (cases xs) auto

lemma chain_append:
  "chain H (xs @ p # ys) e \<longleftrightarrow>
     (xs = [] \<or> chain H xs p \<and> hm_prev (H p) = last xs) \<and> chain H (p # ys) e"
  by (induction H xs e rule: chain.induct) auto

lemma chain_cong:
  assumes "\<And>x. x \<in> set bs \<Longrightarrow> hm_next (H' x) = hm_next (H x)"
    and "\<And>x. x \<in> set (tl bs) \<Longrightarrow> hm_prev (H' x) = hm_prev (H x)"
  shows "chain H' bs e = chain H bs e"
  using assms by (induction H bs e rule: chain.induct) auto

lemma chain_sorted: "chain H bs e \<Longrightarrow> sorted_wrt (\<lambda>x y. x + 16 \<le> y) (bs @ [e])"
proof (induction H bs e rule: chain.induct)
  case (3 H b c cs e)
  then have "b + 16 \<le> c" "sorted_wrt (\<lambda>x y. x + 16 \<le> y) (c # (cs @ [e]))" by simp_all
  moreover from this have "b + 16 \<le> y" if "y \<in> set (cs @ [e])" for y
    using that by (fastforce simp only: sorted_wrt.simps)
  ultimately show ?case by simp
qed simp_all

lemma chain_next: "chain H (p # ys) e \<Longrightarrow> hm_next (H p) = hd (ys @ [e])"
  by (cases ys) auto

lemma chain_prev: "chain H (xs @ p # ys) e \<Longrightarrow> xs \<noteq> [] \<Longrightarrow> hm_prev (H p) = last xs"
  by (auto simp: chain_append)

lemma chain_dist:
  assumes "chain H (xs @ p # ys) e"
  shows "\<And>x. x \<in> set xs \<Longrightarrow> x + 16 \<le> p" "\<And>y. y \<in> set ys \<Longrightarrow> p + 16 \<le> y"
    "\<And>x. x \<in> set (xs @ p # ys) \<Longrightarrow> x + 16 \<le> e" "p + 16 \<le> hd (ys @ [e])"
    "\<And>y. y \<in> insert e (set ys) \<Longrightarrow> hd (ys @ [e]) \<le> y"
proof -
  have s: "\<forall>x \<in> set xs. x + 16 \<le> p" "\<forall>y \<in> set ys. p + 16 \<le> y"
    "\<forall>x \<in> set (xs @ p # ys). x + 16 \<le> e" "sorted_wrt (\<lambda>x y. x + 16 \<le> y) (ys @ [e])"
    using chain_sorted [OF assms] by (auto simp: sorted_wrt_append)
  then show "\<And>x. x \<in> set xs \<Longrightarrow> x + 16 \<le> p" "\<And>y. y \<in> set ys \<Longrightarrow> p + 16 \<le> y"
    "\<And>x. x \<in> set (xs @ p # ys) \<Longrightarrow> x + 16 \<le> e"
    by blast+
  show "p + 16 \<le> hd (ys @ [e])" using s(2,3) by (cases ys) auto
  have "hd (ys @ [e]) \<le> y" if "y \<in> set (ys @ [e])" for y
    using s(4) that by (cases ys) (auto dest: bspec intro: add_leD1)
  then show "\<And>y. y \<in> insert e (set ys) \<Longrightarrow> hd (ys @ [e]) \<le> y" by simp
qed

text \<open>Cutting a block in two, and joining two neighbours.\<close>

lemma chain_split:
  assumes ok: "chain H (xs @ p # ys) e" and z: "z = hd (ys @ [e])"
    and q: "p + 16 \<le> q" "q + 16 \<le> z"
    and n: "hm_next (H' p) = q" "hm_next (H' q) = z"
      "\<And>x. x \<in> set (xs @ ys) \<Longrightarrow> hm_next (H' x) = hm_next (H x)"
    and v: "hm_prev (H' q) = p" "ys \<noteq> [] \<Longrightarrow> hm_prev (H' z) = q"
      "\<And>x. x \<in> set (xs @ p # tl ys) \<Longrightarrow> hm_prev (H' x) = hm_prev (H x)"
  shows "chain H' (xs @ p # q # ys) e"
proof -
  have "chain H' xs p = chain H xs p"
    using n(3) v(3) by (intro chain_cong) (auto dest: in_set_tl)
  moreover have "chain H' (p # q # ys) e"
  proof (cases ys)
    case Nil
    with q n v z show ?thesis by simp
  next
    case (Cons w ws)
    then have "chain H' ys e = chain H ys e" using n(3) v(3) by (intro chain_cong) auto
    with Cons q n v z ok show ?thesis by (simp add: chain_append)
  qed
  ultimately show ?thesis using ok v(3) by (auto simp: chain_append)
qed

lemma chain_merge:
  assumes ok: "chain H (xs @ p # q # ys) e"
    and n: "hm_next (H' p) = hm_next (H q)" "\<And>x. x \<in> set (xs @ ys) \<Longrightarrow> hm_next (H' x) = hm_next (H x)"
    and v: "ys \<noteq> [] \<Longrightarrow> hm_prev (H' (hd ys)) = p"
      "\<And>x. x \<in> set (xs @ p # tl ys) \<Longrightarrow> hm_prev (H' x) = hm_prev (H x)"
  shows "chain H' (xs @ p # ys) e"
proof -
  have "chain H' xs p = chain H xs p"
    using n(2) v(2) by (intro chain_cong) (auto dest: in_set_tl)
  moreover have "chain H' (p # ys) e"
  proof (cases ys)
    case Nil
    with n v ok show ?thesis by (simp add: chain_append)
  next
    case (Cons w ws)
    then have "chain H' ys e = chain H ys e" using n(2) v(2) by (intro chain_cong) auto
    with Cons n v ok show ?thesis by (simp add: chain_append)
  qed
  ultimately show ?thesis using ok v(2) by (auto simp: chain_append)
qed

subsection \<open>The heap invariant\<close>

abbreviation used :: "heap \<Rightarrow> nat \<Rightarrow> bool" where
  "used h p \<equiv> hm_used (hdr h p) \<noteq> 0"

definition block_bytes :: "heap \<Rightarrow> nat \<Rightarrow> nat" where
  "block_bytes h p = (if used h p then hm_next (hdr h p) - p else 0)"

text \<open>Where the heap lies, and its end mark.\<close>

definition heap_frame :: "heap \<Rightarrow> bool" where
  "heap_frame h \<longleftrightarrow>
     0 < heap_ptr h \<and> 8 dvd heap_ptr h \<and> 8 dvd heap_end h \<and> 16 \<le> mem_size_aligned h \<and>
     heap_end h = mem_size_aligned h + 16 \<and> heap_ptr h + heap_end h + 16 < 2 ^ 32 \<and>
     used h (heap_end h) \<and> hm_next (hdr h (heap_end h)) = heap_end h"

text \<open>The blocks, without what holds only between operations.\<close>

definition heap_blocks :: "heap \<Rightarrow> nat list \<Rightarrow> bool" where
  "heap_blocks h bs \<longleftrightarrow>
     heap_frame h \<and> chain (hdr h) bs (heap_end h) \<and> hd bs = 0 \<and> hm_prev (hdr h 0) = 0 \<and>
     last bs + 32 \<le> heap_end h \<and>
     (\<forall>p \<in> set bs. 8 dvd p \<and> (used h p \<longrightarrow> hm_magic (hdr h p) = HEAP_MAGIC)) \<and>
     used_mem h = sum_list (map (block_bytes h) bs)"

definition lfree_ok :: "heap \<Rightarrow> nat list \<Rightarrow> bool" where
  "lfree_ok h bs \<longleftrightarrow> lfree h = heap_end h \<or> lfree h \<in> set bs \<and> \<not> used h (lfree h)"

definition no_free_pair :: "heap \<Rightarrow> nat list \<Rightarrow> bool" where
  "no_free_pair h bs \<longleftrightarrow> successively (\<lambda>x y. used h x \<or> used h y) bs"

definition heap_inv :: "heap \<Rightarrow> nat list \<Rightarrow> bool" where
  "heap_inv h bs \<longleftrightarrow> heap_blocks h bs \<and> no_free_pair h bs \<and> lfree_ok h bs \<and> heap_sem h = 1"

text \<open>\<open>lfree\<close> is the lowest free block: kept by \<^verbatim>\<open>rt_malloc\<close> and \<^verbatim>\<open>rt_free\<close>, not by
  \<^verbatim>\<open>rt_realloc\<close>.\<close>

definition lfree_lowest :: "heap \<Rightarrow> nat list \<Rightarrow> bool" where
  "lfree_lowest h bs \<longleftrightarrow> (\<forall>p \<in> set bs. p < lfree h \<longrightarrow> used h p)"

lemma uadd32_eq [simp]: "a + b < 2 ^ 32 \<Longrightarrow> uadd32 a b = a + b"
  by (simp add: uadd32_def)

lemma usub32_eq [simp]: "b \<le> a \<Longrightarrow> a < 2 ^ 32 \<Longrightarrow> usub32 a b = a - b"
  by (simp add: usub32_def mod_if)

lemma heap_blocks_frame: "heap_blocks h bs \<Longrightarrow> heap_frame h"
  by (simp add: heap_blocks_def)

lemma heap_blocks_chain: "heap_blocks h bs \<Longrightarrow> chain (hdr h) bs (heap_end h)"
  by (simp add: heap_blocks_def)

lemma heap_blocks_dist:
  assumes "heap_blocks h (xs @ p # ys)"
  shows "\<And>x. x \<in> set xs \<Longrightarrow> x + 16 \<le> p" "\<And>y. y \<in> set ys \<Longrightarrow> p + 16 \<le> y"
    "\<And>x. x \<in> set (xs @ p # ys) \<Longrightarrow> x + 16 \<le> heap_end h"
    "p + 16 \<le> hd (ys @ [heap_end h])"
    "\<And>y. y \<in> insert (heap_end h) (set ys) \<Longrightarrow> hd (ys @ [heap_end h]) \<le> y"
    "hm_next (hdr h p) = hd (ys @ [heap_end h])" "heap_ptr h + heap_end h + 16 < 2 ^ 32"
proof -
  have c: "chain (hdr h) (xs @ p # ys) (heap_end h)" and b: "heap_ptr h + heap_end h + 16 < 2 ^ 32"
    using assms unfolding heap_blocks_def heap_frame_def by blast+
  show "hm_next (hdr h p) = hd (ys @ [heap_end h])" using c by (simp add: chain_append chain_next)
  show "heap_ptr h + heap_end h + 16 < 2 ^ 32" by (rule b)
qed (erule chain_dist [OF heap_blocks_chain [OF assms]] | rule chain_dist [OF heap_blocks_chain [OF assms]])+

lemma heap_frameD:
  assumes "heap_frame h"
  shows "heap_end h = mem_size_aligned h + 16" "heap_ptr h + heap_end h + 16 < 2 ^ 32" "0 < heap_ptr h"
    "8 dvd heap_ptr h" "8 dvd heap_end h" "16 \<le> mem_size_aligned h" "used h (heap_end h)"
    "hm_next (hdr h (heap_end h)) = heap_end h"
  using assms unfolding heap_frame_def by blast+

subsection \<open>The searches return\<close>

definition fits :: "heap \<Rightarrow> nat \<Rightarrow> nat \<Rightarrow> bool" where
  "fits h sz p \<longleftrightarrow> \<not> used h p \<and> p + 16 + sz \<le> hm_next (hdr h p) \<and> p + sz < mem_size_aligned h"

lemma malloc_find_end:
  "heap_frame h \<Longrightarrow> sz \<le> mem_size_aligned h \<Longrightarrow> malloc_find h sz (heap_end h) = Some None"
proof -
  assume f: "heap_frame h" and sz: "sz \<le> mem_size_aligned h"
  have "\<not> heap_end h < usub32 (mem_size_aligned h) sz" using heap_frameD [OF f] sz by simp
  then show ?thesis by (subst malloc_find.simps) simp
qed

lemma malloc_find_total:
  assumes "heap_blocks h (xs @ p # ys)" "sz \<le> mem_size_aligned h"
  shows "\<exists>r. malloc_find h sz p = Some r \<and>
    (case r of Some q \<Rightarrow> q \<in> set (p # ys) \<and> fits h sz q
     | None \<Rightarrow> \<forall>q \<in> set (p # ys). \<not> fits h sz q)"
  using assms(1)
proof (induction ys arbitrary: xs p)
  case Nil
  note f = heap_frameD [OF heap_blocks_frame [OF Nil]] and d = heap_blocks_dist [OF Nil]
  have n: "hm_next (hdr h p) = heap_end h" "p + 16 \<le> heap_end h" using d(4,6) by simp_all
  then have "fits h sz p \<longleftrightarrow> p < usub32 (mem_size_aligned h) sz \<and> hm_used (hdr h p) = 0 \<and>
      usub32 (hm_next (hdr h p)) (uadd32 p SIZEOF_STRUCT_MEM) \<ge> sz"
    using f assms(2) by (auto simp: fits_def heap_consts)
  then show ?case
    using malloc_find_end [OF heap_blocks_frame [OF Nil] assms(2)] n
    by (subst malloc_find.simps) auto
next
  case (Cons w ws)
  note f = heap_frameD [OF heap_blocks_frame [OF Cons.prems]] and d = heap_blocks_dist [OF Cons.prems]
  have n: "hm_next (hdr h p) = w" "p + 16 \<le> w" "w + 16 \<le> heap_end h"
    using d(3) [of w] d(4,6) by simp_all
  have fits: "fits h sz p \<longleftrightarrow> p < usub32 (mem_size_aligned h) sz \<and> hm_used (hdr h p) = 0 \<and>
      usub32 (hm_next (hdr h p)) (uadd32 p SIZEOF_STRUCT_MEM) \<ge> sz"
    using f n assms(2) by (auto simp: fits_def heap_consts)
  have far: "\<not> fits h sz q" if "q \<in> set (p # w # ws)" "\<not> p < usub32 (mem_size_aligned h) sz" for q
    using that d(2) [of q] f assms(2) by (auto simp: fits_def)
  obtain r where r: "malloc_find h sz w = Some r"
    "case r of Some q \<Rightarrow> q \<in> set (w # ws) \<and> fits h sz q | None \<Rightarrow> \<forall>q \<in> set (w # ws). \<not> fits h sz q"
    using Cons.IH [of "xs @ [p]" w] Cons.prems by auto
  show ?case
  proof (cases "p < usub32 (mem_size_aligned h) sz")
    case False
    with far show ?thesis by (subst malloc_find.simps) auto
  next
    case True
    with fits r n show ?thesis by (subst malloc_find.simps) (auto split: option.splits)
  qed
qed

lemma next_free_total:
  assumes "chain (hdr h) (xs @ p # ys) (heap_end h)" "used h (heap_end h)"
  shows "\<exists>r. next_free h p = Some r \<and>
    (r = heap_end h \<and> (\<forall>q \<in> set (p # ys). used h q) \<or>
     (\<exists>us vs. p # ys = us @ r # vs \<and> \<not> used h r \<and> (\<forall>q \<in> set us. used h q)))"
  using assms(1)
proof (induction ys arbitrary: xs p)
  case Nil
  then have "p \<noteq> heap_end h" "hm_next (hdr h p) = heap_end h" by (auto simp: chain_append)
  moreover have "next_free h (heap_end h) = Some (heap_end h)" by (subst next_free.simps) simp
  ultimately show ?case by (cases "used h p") (subst next_free.simps; force)+
next
  case (Cons w ws)
  have n: "hm_next (hdr h p) = w" "p \<noteq> heap_end h"
    using Cons.prems chain_dist(3) [OF Cons.prems, of p] by (auto simp: chain_append)
  obtain r where r: "next_free h w = Some r"
    "r = heap_end h \<and> (\<forall>q \<in> set (w # ws). used h q) \<or>
     (\<exists>us vs. w # ws = us @ r # vs \<and> \<not> used h r \<and> (\<forall>q \<in> set us. used h q))"
    using Cons.IH [of "xs @ [p]" w] Cons.prems by auto
  show ?case
  proof (cases "used h p")
    case False
    then show ?thesis by (subst next_free.simps) force
  next
    case True
    then have "next_free h p = Some r" using r(1) n by (subst next_free.simps) simp
    moreover have "p # us @ r # vs = (p # us) @ r # vs" for us vs by simp
    ultimately show ?thesis using r(2) True by (metis set_ConsD)
  qed
qed

subsection \<open>Allocation\<close>

lemma heap_frame_upd:
  assumes "heap_frame h" "heap_ptr h' = heap_ptr h" "heap_end h' = heap_end h"
    "mem_size_aligned h' = mem_size_aligned h" "used h' (heap_end h)"
    "hm_next (hdr h' (heap_end h)) = heap_end h"
  shows "heap_frame h'"
  using assms unfolding heap_frame_def by metis

text \<open>The counters do not matter to the blocks.\<close>

lemma block_bytes_fields [simp]:
  "block_bytes (h\<lparr>max_mem := m\<rparr>) = block_bytes h" "block_bytes (h\<lparr>used_mem := m\<rparr>) = block_bytes h"
  "block_bytes (h\<lparr>lfree := l\<rparr>) = block_bytes h" "block_bytes (h\<lparr>heap_sem := n\<rparr>) = block_bytes h"
  "block_bytes (h\<lparr>heap_bytes := b\<rparr>) = block_bytes h"
  by (simp_all add: fun_eq_iff block_bytes_def)

lemma heap_blocks_fields [simp]:
  "heap_blocks (h\<lparr>max_mem := m\<rparr>) bs = heap_blocks h bs"
  "heap_blocks (h\<lparr>lfree := l\<rparr>) bs = heap_blocks h bs"
  "heap_blocks (h\<lparr>heap_sem := n\<rparr>) bs = heap_blocks h bs"
  "heap_blocks (h\<lparr>heap_bytes := b\<rparr>) bs = heap_blocks h bs"
  by (simp_all add: heap_blocks_def heap_frame_def)

lemma block_bytes_sum_cong:
  "(\<And>x. x \<in> set xs \<Longrightarrow> used h' x = used h x \<and>
       (used h x \<longrightarrow> hm_next (hdr h' x) = hm_next (hdr h x))) \<Longrightarrow>
   sum_list (map (block_bytes h') xs) = sum_list (map (block_bytes h) xs)"
  by (intro arg_cong [where f = sum_list] map_cong) (auto simp: block_bytes_def)

lemma chain_bytes:
  "chain H bs e \<Longrightarrow> sum_list (map (\<lambda>p. hm_next (H p) - p) bs) + hd bs = e"
  by (induction H bs e rule: chain.induct) auto

lemma used_mem_bound:
  assumes "heap_blocks h (xs @ p # ys)" "\<not> used h p"
  shows "used_mem h + (hm_next (hdr h p) - p) \<le> heap_end h"
proof -
  have le: "sum_list (map (block_bytes h) zs) \<le> sum_list (map (\<lambda>p. hm_next (hdr h p) - p) zs)" for zs
    by (intro sum_list_mono) (simp add: block_bytes_def)
  have "block_bytes h p = 0" using assms(2) by (simp add: block_bytes_def)
  then show ?thesis
    using assms(1) le [of xs] le [of ys] chain_bytes [OF heap_blocks_chain [OF assms(1)]]
    by (simp add: heap_blocks_def)
qed

text \<open>The cut of a free block at \<open>p\<close>: the new block behind it is free.\<close>

lemma malloc_split_ok:
  assumes ok: "heap_blocks h (xs @ p # ys)" and fr: "\<not> used h p"
    and sz: "8 dvd sz" and fit: "p + 16 + sz + 32 \<le> hm_next (hdr h p)"
    and h': "h' = upd_hdr p (\<lambda>m. m\<lparr>hm_magic := HEAP_MAGIC\<rparr>) (malloc_split p sz h)"
  shows "heap_blocks h' (xs @ p # (p + 16 + sz) # ys)"
    and "used h' p" "\<not> used h' (p + 16 + sz)" "hm_next (hdr h' p) = p + 16 + sz"
    and "\<And>x. x \<in> insert (heap_end h) (set (xs @ ys)) \<Longrightarrow>
      hm_used (hdr h' x) = hm_used (hdr h x) \<and> hm_next (hdr h' x) = hm_next (hdr h x)"
    and "lfree h' = lfree h" "heap_end h' = heap_end h" "heap_ptr h' = heap_ptr h"
      "heap_sem h' = heap_sem h" "mem_size_aligned h' = mem_size_aligned h"
proof -
  define q where "q = p + 16 + sz"
  define z where "z = hd (ys @ [heap_end h])"
  note f = heap_frameD [OF heap_blocks_frame [OF ok]] and d = heap_blocks_dist [OF ok]
  have zn: "hm_next (hdr h p) = z" using d(6) by (simp add: z_def)
  have ze: "z \<in> insert (heap_end h) (set ys)" by (cases ys) (auto simp: z_def)
  have le: "z \<le> heap_end h" using ze d(3) by fastforce
  have um: "used_mem h + (z - p) \<le> heap_end h" using used_mem_bound [OF ok fr] zn by simp
  have q: "p + 16 \<le> q" "q + 16 \<le> z" "8 dvd q" "p \<noteq> q" "q \<noteq> z" "p \<noteq> z"
    using fit zn sz ok by (auto simp: q_def heap_blocks_def)
  have qu: "uadd32 (uadd32 p SIZEOF_STRUCT_MEM) sz = q"
    using q f(2) le by (simp add: heap_consts q_def)
  have fresh: "q \<notin> set (xs @ p # ys)" "q \<noteq> heap_end h" "p \<notin> set (xs @ ys)" "p \<noteq> heap_end h"
    "z \<notin> set xs"
  proof -
    have lt: "x < p" if "x \<in> set xs" for x using d(1) [OF that] by simp
    have gt: "q < y" "p < y" if "y \<in> set ys" for y
      using d(5) [of y] q that by (simp_all add: z_def)
    show "q \<notin> set (xs @ p # ys)" "p \<notin> set (xs @ ys)" using lt gt q(1) by fastforce+
    show "q \<noteq> heap_end h" "p \<noteq> heap_end h" using q le by auto
    show "z \<notin> set xs" using lt q(1,2) by fastforce
  qed
  have E: "uadd32 (mem_size_aligned h) SIZEOF_STRUCT_MEM = heap_end h"
    using f by (simp add: heap_consts)
  define H where "H = (hdr h)
      (q := (hdr h q)\<lparr>hm_used := 0, hm_next := z, hm_prev := p\<rparr>,
       p := (hdr h p)\<lparr>hm_next := q, hm_used := 1, hm_magic := HEAP_MAGIC\<rparr>)"
  define H' where "H' = (if z \<noteq> heap_end h then H(z := (hdr h z)\<lparr>hm_prev := q\<rparr>) else H)"
  have "uadd32 (used_mem h) (uadd32 sz SIZEOF_STRUCT_MEM) = used_mem h + (sz + 16)"
    using f(2) um q le by (simp add: heap_consts q_def uadd32_def)
  then have H: "hdr h' = H'" "used_mem h' = used_mem h + (sz + 16)"
    using q(4-6) by (simp_all add: h' malloc_split_def qu H'_def H_def Let_def zn E fun_upd_twist)
  show same: "lfree h' = lfree h" "heap_end h' = heap_end h" "heap_ptr h' = heap_ptr h"
      "heap_sem h' = heap_sem h" "mem_size_aligned h' = mem_size_aligned h"
    by (auto simp: h' malloc_split_def Let_def)
  show up: "used h' p" "\<not> used h' (p + 16 + sz)" "hm_next (hdr h' p) = p + 16 + sz"
    using q by (auto simp: H H'_def H_def q_def [symmetric])
  show oth: "hm_used (hdr h' x) = hm_used (hdr h x) \<and> hm_next (hdr h' x) = hm_next (hdr h x)"
    if "x \<in> insert (heap_end h) (set (xs @ ys))" for x
    using that fresh by (auto simp: H H'_def H_def)
  have "chain H' (xs @ p # q # ys) (heap_end h)"
  proof (rule chain_split [OF heap_blocks_chain [OF ok] z_def q(1,2)])
    show "hm_prev (H' z) = q" if "ys \<noteq> []"
    proof -
      have "z \<noteq> heap_end h" using that d(3) [of z] by (cases ys) (auto simp: z_def)
      then show ?thesis by (simp add: H'_def)
    qed
    have "z \<notin> set (tl ys)"
      using chain_sorted [OF heap_blocks_chain [OF ok]]
      by (cases ys) (auto simp: z_def sorted_wrt_append dest: bspec [of _ _ z])
    then show "hm_prev (H' x) = hm_prev (hdr h x)" if "x \<in> set (xs @ p # tl ys)" for x
      using that fresh q in_set_tl [of x ys] by (auto simp: H'_def H_def)
    show "hm_next (H' x) = hm_next (hdr h x)" if "x \<in> set (xs @ ys)" for x
      using that fresh by (auto simp: H'_def H_def)
  qed (use q in \<open>auto simp: H'_def H_def\<close>)
  moreover have "heap_frame h'"
    using oth [of "heap_end h"] f same by (intro heap_frame_upd [OF heap_blocks_frame [OF ok]]) simp_all
  moreover have "hm_prev (hdr h' 0) = 0"
    using ok fresh q by (cases xs) (auto simp: heap_blocks_def H H'_def H_def)
  moreover have "8 dvd x \<and> (used h' x \<longrightarrow> hm_magic (hdr h' x) = HEAP_MAGIC)" if "x \<in> set (xs @ p # q # ys)" for x
    using that ok q fresh by (auto simp: heap_blocks_def H H'_def H_def)
  moreover have "used_mem h' = sum_list (map (block_bytes h') (xs @ p # q # ys))"
  proof -
    have "sum_list (map (block_bytes h') xs) = sum_list (map (block_bytes h) xs)"
      "sum_list (map (block_bytes h') ys) = sum_list (map (block_bytes h) ys)"
      using oth by (auto intro!: block_bytes_sum_cong)
    moreover have "block_bytes h' p = sz + 16" "block_bytes h' q = 0" "block_bytes h p = 0"
      using up fr by (simp_all add: block_bytes_def q_def)
    ultimately show ?thesis using ok H(2) by (simp add: heap_blocks_def)
  qed
  moreover have "hd (xs @ p # q # ys) = 0" using ok by (cases xs) (auto simp: heap_blocks_def)
  moreover have "last (xs @ p # q # ys) + 32 \<le> heap_end h"
    using ok fit zn by (cases "ys = []") (auto simp: heap_blocks_def q_def z_def)
  ultimately show "heap_blocks h' (xs @ p # (p + 16 + sz) # ys)"
    unfolding heap_blocks_def q_def [symmetric] using H(1) same(2) by simp
qed

lemma malloc_whole_ok:
  assumes ok: "heap_blocks h (xs @ p # ys)" and fr: "\<not> used h p"
    and h': "h' = upd_hdr p (\<lambda>m. m\<lparr>hm_magic := HEAP_MAGIC\<rparr>) (malloc_whole p h)"
  shows "heap_blocks h' (xs @ p # ys)"
    and "used h' p" "hm_next (hdr h' p) = hm_next (hdr h p)"
    and "\<And>x. x \<noteq> p \<Longrightarrow> hdr h' x = hdr h x"
    and "lfree h' = lfree h" "heap_end h' = heap_end h" "heap_ptr h' = heap_ptr h"
      "heap_sem h' = heap_sem h" "mem_size_aligned h' = mem_size_aligned h"
proof -
  note f = heap_frameD [OF heap_blocks_frame [OF ok]] and d = heap_blocks_dist [OF ok]
  have le: "hm_next (hdr h p) \<le> heap_end h" "p + 16 \<le> hm_next (hdr h p)"
    using d(3) [of "hm_next (hdr h p)"] d(4,6) by (cases ys; simp)+
  have pe: "p \<noteq> heap_end h" using d(3) [of p] by auto
  have pd: "p \<notin> set xs" "p \<notin> set ys" using d(1) [of p] d(2) [of p] by auto
  show same: "lfree h' = lfree h" "heap_end h' = heap_end h" "heap_ptr h' = heap_ptr h"
      "heap_sem h' = heap_sem h" "mem_size_aligned h' = mem_size_aligned h"
    and up: "used h' p" "hm_next (hdr h' p) = hm_next (hdr h p)"
    and oth: "\<And>x. x \<noteq> p \<Longrightarrow> hdr h' x = hdr h x"
    by (simp_all add: h' malloc_whole_def Let_def)
  have nx: "hm_next (hdr h' x) = hm_next (hdr h x)" "hm_prev (hdr h' x) = hm_prev (hdr h x)" for x
    by (simp_all add: h' malloc_whole_def Let_def)
  have sx: "hdr h' x = hdr h x" if "x \<in> set xs \<union> set ys" for x
    using oth [of x] pd that by blast
  have "used_mem h' = used_mem h + (hm_next (hdr h p) - p)"
    using used_mem_bound [OF ok fr] le f(2) by (simp add: h' malloc_whole_def Let_def)
  moreover have "sum_list (map (block_bytes h') xs) = sum_list (map (block_bytes h) xs)"
      "sum_list (map (block_bytes h') ys) = sum_list (map (block_bytes h) ys)"
    using sx by (auto intro!: block_bytes_sum_cong)
  moreover have "block_bytes h' p = hm_next (hdr h p) - p" "block_bytes h p = 0"
    using up fr by (simp_all add: block_bytes_def)
  ultimately have um: "used_mem h' = sum_list (map (block_bytes h') (xs @ p # ys))"
    using ok by (simp add: heap_blocks_def)
  have "chain (hdr h') (xs @ p # ys) (heap_end h)"
    using chain_cong [of "xs @ p # ys" "hdr h'" "hdr h"] nx heap_blocks_chain [OF ok] by blast
  moreover have "heap_frame h'"
    using oth [of "heap_end h"] f pe same by (intro heap_frame_upd [OF heap_blocks_frame [OF ok]]) simp_all
  moreover have "hm_magic (hdr h' p) = HEAP_MAGIC" by (simp add: h')
  then have "\<forall>x \<in> set (xs @ p # ys). 8 dvd x \<and> (used h' x \<longrightarrow> hm_magic (hdr h' x) = HEAP_MAGIC)"
    using ok sx by (auto simp: heap_blocks_def)
  ultimately show "heap_blocks h' (xs @ p # ys)"
    using um ok nx same by (simp add: heap_blocks_def)
qed

lemma lfree_lowest_sem [simp]: "lfree_lowest (h\<lparr>heap_sem := n\<rparr>) bs = lfree_lowest h bs"
  "lfree_ok (h\<lparr>heap_sem := n\<rparr>) bs = lfree_ok h bs"
  "no_free_pair (h\<lparr>heap_sem := n\<rparr>) bs = no_free_pair h bs"
  "no_free_pair (h\<lparr>lfree := l\<rparr>) bs = no_free_pair h bs"
  by (simp_all add: lfree_lowest_def lfree_ok_def no_free_pair_def)

lemma malloc_lfree_ok:
  assumes ok: "heap_blocks h (xs @ p # ys)" and u: "used h p"
    and lf: "p \<noteq> lfree h \<Longrightarrow> lfree_ok h (xs @ p # ys)"
  shows "\<exists>l. malloc_lfree p h = Some (h\<lparr>lfree := l\<rparr>) \<and> lfree_ok (h\<lparr>lfree := l\<rparr>) (xs @ p # ys) \<and>
    (lfree_lowest h (xs @ p # ys) \<longrightarrow> lfree_lowest (h\<lparr>lfree := l\<rparr>) (xs @ p # ys))"
proof (cases "p = lfree h")
  case False
  then show ?thesis using lf by (intro exI [of _ "lfree h"]) (simp add: malloc_lfree_def)
next
  case True
  obtain r where r: "next_free h p = Some r"
    "r = heap_end h \<and> (\<forall>q \<in> set (p # ys). used h q) \<or>
     (\<exists>us vs. p # ys = us @ r # vs \<and> \<not> used h r \<and> (\<forall>q \<in> set us. used h q))"
    using next_free_total [OF heap_blocks_chain [OF ok] heap_frameD(7) [OF heap_blocks_frame [OF ok]]]
    by blast
  from r(2) have rok: "r = heap_end h \<or> r \<in> set (p # ys) \<and> \<not> used h r"
    by (metis in_set_conv_decomp)
  then have "malloc_lfree p h = Some (h\<lparr>lfree := r\<rparr>)"
    using True r(1) by (auto simp: malloc_lfree_def rt_assert_def)
  moreover have "lfree_ok (h\<lparr>lfree := r\<rparr>) (xs @ p # ys)" using rok by (auto simp: lfree_ok_def)
  moreover have "lfree_lowest (h\<lparr>lfree := r\<rparr>) (xs @ p # ys)" if l: "lfree_lowest h (xs @ p # ys)"
  proof -
    have "used h x" if x: "x \<in> set (xs @ p # ys)" "x < r" for x
      using r(2)
    proof (elim disjE exE conjE)
      assume "\<forall>q \<in> set (p # ys). used h q"
      then show ?thesis using x l True heap_blocks_dist(1) [OF ok, of x]
        by (auto simp: lfree_lowest_def)
    next
      fix us vs assume us: "p # ys = us @ r # vs" "\<forall>q \<in> set us. used h q"
      have "x \<notin> set (r # vs)" using x(2) us ok heap_blocks_dist(2) [of h "xs @ us" r vs x] by auto
      then have "x \<in> set xs \<or> x \<in> set us" using x(1) us(1) by auto
      then show ?thesis using us(2) l True heap_blocks_dist(1) [OF ok, of x]
        by (auto simp: lfree_lowest_def)
    qed
    then show ?thesis by (simp add: lfree_lowest_def)
  qed
  ultimately show ?thesis by blast
qed

text \<open>The blocks in use, and what a request asks for.\<close>

definition live :: "heap \<Rightarrow> nat list \<Rightarrow> nat set" where
  "live h bs = {p \<in> set bs. used h p}"

definition request :: "u32 \<Rightarrow> nat" where
  "request req = max 16 (unat (RT_ALIGN req RT_ALIGN_SIZE))"

lemma no_free_pair_split:
  assumes "no_free_pair h (xs @ p # ys)" "\<And>x. x \<in> set (xs @ ys) \<Longrightarrow> used h' x = used h x"
    and "used h' p" "\<not> used h p"
  shows "no_free_pair h' (xs @ p # ys)" "no_free_pair h' (xs @ p # q # ys)"
proof -
  have s: "successively (\<lambda>x y. used h' x \<or> used h' y) xs" "successively (\<lambda>x y. used h' x \<or> used h' y) ys"
    using assms(1,2) unfolding no_free_pair_def
    by (auto simp: successively_append_iff successively_Cons intro: successively_mono)
  moreover have "ys \<noteq> [] \<Longrightarrow> used h' (hd ys)"
    using assms(1,2,4) by (cases ys) (auto simp: no_free_pair_def successively_append_iff successively_Cons)
  ultimately show "no_free_pair h' (xs @ p # ys)" "no_free_pair h' (xs @ p # q # ys)"
    using assms(3) by (auto simp: no_free_pair_def successively_append_iff successively_Cons)
qed

lemma heap_invD:
  assumes "heap_inv h bs"
  shows "heap_blocks h bs" "no_free_pair h bs" "lfree_ok h bs" "heap_sem h = 1"
  using assms by (simp_all add: heap_inv_def)

lemma rt_malloc_cut:
  assumes ok: "heap_blocks h (xs @ p # ys)" and nf: "no_free_pair h (xs @ p # ys)"
    and lfo: "lfree_ok h (xs @ p # ys)" and fit: "fits h sz p" and sz: "8 dvd sz" "16 \<le> sz"
    and lf: "lfree h \<le> p" and h': "h' = malloc_cut p sz h"
  obtains zs where
    "heap_blocks h' (xs @ p # zs)" "no_free_pair h' (xs @ p # zs)" "used h' p"
    "p \<noteq> lfree h' \<Longrightarrow> lfree_ok h' (xs @ p # zs)"
    "lfree_lowest h (xs @ p # ys) \<Longrightarrow> lfree_lowest h' (xs @ p # zs)"
    "p + 16 + sz \<le> hm_next (hdr h' p)" "hm_next (hdr h' p) \<le> hm_next (hdr h p)"
    "live h' (xs @ p # zs) = insert p (live h (xs @ p # ys))"
    "\<And>x. x \<in> live h (xs @ p # ys) \<Longrightarrow> hm_next (hdr h' x) = hm_next (hdr h x)"
    "lfree h' = lfree h" "heap_end h' = heap_end h" "heap_ptr h' = heap_ptr h"
    "heap_sem h' = heap_sem h" "mem_size_aligned h' = mem_size_aligned h"
proof -
  note f = heap_frameD [OF heap_blocks_frame [OF ok]] and d = heap_blocks_dist [OF ok]
  have le: "hm_next (hdr h p) \<le> heap_end h"
    using d(3) [of "hm_next (hdr h p)"] d(6) by (cases ys) simp_all
  have fr: "\<not> used h p" "p + 16 + sz \<le> hm_next (hdr h p)" "p < heap_end h"
    using fit d(3) [of p] by (auto simp: fits_def)
  have pd: "p \<notin> set xs" "p \<notin> set ys" using d(1) [of p] d(2) [of p] by auto
  show ?thesis
  proof (cases "uadd32 (uadd32 sz SIZEOF_STRUCT_MEM) MIN_SIZE_ALIGNED
      \<le> usub32 (hm_next (hdr h p)) (uadd32 p SIZEOF_STRUCT_MEM)")
    case True
    then have h'2: "h' = upd_hdr p (\<lambda>m. m\<lparr>hm_magic := HEAP_MAGIC\<rparr>) (malloc_split p sz h)"
      by (simp add: h' malloc_cut_def)
    have "p + 16 + sz + 32 \<le> hm_next (hdr h p)"
      using True f fr le by (simp add: heap_consts)
    note s = malloc_split_ok [OF ok fr(1) sz(1) this h'2]
    have fresh: "p + 16 + sz \<notin> set (xs @ p # ys)"
    proof -
      have "p + 16 + sz < y" if "y \<in> set ys" for y
        using d(5) [of y] d(6) that \<open>p + 16 + sz + 32 \<le> hm_next (hdr h p)\<close> by simp
      moreover have "x < p + 16 + sz" if "x \<in> set xs" for x using d(1) [OF that] by simp
      ultimately show ?thesis by fastforce
    qed
    show ?thesis
    proof (rule that [of "(p + 16 + sz) # ys"])
      show "no_free_pair h' (xs @ p # (p + 16 + sz) # ys)"
        using s(2,5) fr by (intro no_free_pair_split(2) [OF nf]) auto
      show "lfree_ok h' (xs @ p # (p + 16 + sz) # ys)" if "p \<noteq> lfree h'"
        using lfo that s(5) [of "lfree h"] by (auto simp: lfree_ok_def s(6,7))
      show "lfree_lowest h' (xs @ p # (p + 16 + sz) # ys)" if "lfree_lowest h (xs @ p # ys)"
        using that s(2,5) lf by (auto simp: lfree_lowest_def s(6))
      show "live h' (xs @ p # (p + 16 + sz) # ys) = insert p (live h (xs @ p # ys))"
        using s(2,3,5) by (auto simp: live_def)
      show "hm_next (hdr h' x) = hm_next (hdr h x)" if "x \<in> live h (xs @ p # ys)" for x
        using that s(5) [of x] fr by (auto simp: live_def)
    qed (use s fr in simp_all)
  next
    case False
    then have h'2: "h' = upd_hdr p (\<lambda>m. m\<lparr>hm_magic := HEAP_MAGIC\<rparr>) (malloc_whole p h)"
      by (simp add: h' malloc_cut_def)
    note s = malloc_whole_ok [OF ok fr(1) h'2]
    have sx: "hdr h' x = hdr h x" if "x \<in> set (xs @ ys)" for x
      using s(4) [of x] pd that by auto
    show ?thesis
    proof (rule that [of ys])
      show "no_free_pair h' (xs @ p # ys)"
        using s(2) sx fr by (intro no_free_pair_split(1) [OF nf]) auto
      show "lfree_ok h' (xs @ p # ys)" if "p \<noteq> lfree h'"
        using lfo that s(4) [of "lfree h"] by (auto simp: lfree_ok_def s(5,6))
      show "lfree_lowest h' (xs @ p # ys)" if "lfree_lowest h (xs @ p # ys)"
        using that s(2) sx by (auto simp: lfree_lowest_def s(5))
      show "live h' (xs @ p # ys) = insert p (live h (xs @ p # ys))"
        using s(2) sx by (auto simp: live_def)
      show "hm_next (hdr h' x) = hm_next (hdr h x)" if "x \<in> live h (xs @ p # ys)" for x
        using that s(4) [of x] s(3) by (cases "x = p") auto
    qed (use s fr in simp_all)
  qed
qed

lemma request_dvd: "8 dvd request req"
  using RT_ALIGN_dvd [of req] by (auto simp: request_def max_def)

lemma sem_simps [simp]:
  "fits (h\<lparr>heap_sem := n\<rparr>) sz p = fits h sz p" "live (h\<lparr>heap_sem := n\<rparr>) bs = live h bs"
  "live (h\<lparr>lfree := l\<rparr>) bs = live h bs" "live (h\<lparr>heap_bytes := b\<rparr>) bs = live h bs"
  by (simp_all add: fits_def live_def)

definition no_room :: "heap \<Rightarrow> nat list \<Rightarrow> u32 \<Rightarrow> bool" where
  "no_room h bs req \<longleftrightarrow>
     req = 0 \<or> unat (RT_ALIGN req RT_ALIGN_SIZE) > mem_size_aligned h \<or>
     (\<forall>p \<in> set bs. lfree h \<le> p \<longrightarrow> \<not> fits h (request req) p)"

text \<open>Memory is handed out at \<open>heap_ptr + p + 16\<close> for a block \<open>p\<close> that was free.\<close>

lemma rt_malloc_cases:
  assumes inv: "heap_inv h bs"
  obtains (none) "rt_malloc req h = Some (0, h)" "no_room h bs req"
  | (some) p h' bs' where "rt_malloc req h = Some (heap_ptr h + p + 16, h')" "heap_inv h' bs'"
      "p \<in> set bs" "\<not> used h p" "p + 16 + request req \<le> hm_next (hdr h' p)"
      "hm_next (hdr h' p) \<le> hm_next (hdr h p)" "live h' bs' = insert p (live h bs)"
      "\<And>x. x \<in> live h bs \<Longrightarrow> hm_next (hdr h' x) = hm_next (hdr h x)"
      "lfree_lowest h bs \<Longrightarrow> lfree_lowest h' bs'"
      "heap_ptr h' = heap_ptr h" "heap_end h' = heap_end h" "mem_size_aligned h' = mem_size_aligned h"
proof (cases "req = 0 \<or> unat (RT_ALIGN req RT_ALIGN_SIZE) > mem_size_aligned h")
  case True
  then have "rt_malloc req h = Some (0, h)" by (auto simp: rt_malloc_def)
  with True show ?thesis by (intro none) (auto simp: no_room_def)
next
  case False
  note ok = heap_invD(1) [OF inv] and nf = heap_invD(2) [OF inv] and lf = heap_invD(3) [OF inv]
    and sem = heap_invD(4) [OF inv]
  note f = heap_frameD [OF heap_blocks_frame [OF ok]]
  define h0 where "h0 = h\<lparr>heap_sem := 0\<rparr>"
  define sz where "sz = request req"
  have sz: "sz \<le> mem_size_aligned h" "8 dvd sz" "16 \<le> sz"
    using False f(6) request_dvd by (auto simp: sz_def request_def)
  have szd: "(if unat (RT_ALIGN req RT_ALIGN_SIZE) < MIN_SIZE_ALIGNED then MIN_SIZE_ALIGNED
      else unat (RT_ALIGN req RT_ALIGN_SIZE)) = sz"
    by (auto simp: sz_def request_def heap_consts max_def)
  have ok0: "heap_blocks h0 bs" "no_free_pair h0 bs" "lfree_ok h0 bs" using ok nf lf by (simp_all add: h0_def)
  have "\<exists>r. malloc_find h0 sz (lfree h) = Some r \<and>
    (case r of Some q \<Rightarrow> q \<in> set bs \<and> lfree h \<le> q \<and> fits h sz q
     | None \<Rightarrow> \<forall>q \<in> set bs. lfree h \<le> q \<longrightarrow> \<not> fits h sz q)"
  proof (cases "lfree h = heap_end h")
    case True
    have "\<not> fits h sz q" if "heap_end h \<le> q" for q using that f(1) by (simp add: fits_def)
    then show ?thesis
      using malloc_find_end [of h0 sz] heap_blocks_frame [OF ok0(1)] sz(1) True
      by (auto simp: h0_def)
  next
    case False
    then have "lfree h \<in> set bs" using lf by (simp add: lfree_ok_def)
    then obtain xs ys where bs: "bs = xs @ lfree h # ys" by (meson split_list)
    obtain r where r: "malloc_find h0 sz (lfree h) = Some r"
      "case r of Some q \<Rightarrow> q \<in> set (lfree h # ys) \<and> fits h0 sz q
       | None \<Rightarrow> \<forall>q \<in> set (lfree h # ys). \<not> fits h0 sz q"
      using malloc_find_total [of h0 xs "lfree h" ys sz] ok0(1) sz(1) by (auto simp: bs h0_def)
    have "lfree h \<le> q" if "q \<in> set ys" for q
      using heap_blocks_dist(2) [of h xs "lfree h" ys q] ok that by (simp add: bs)
    moreover have "\<not> lfree h \<le> q" if "q \<in> set xs" for q
      using heap_blocks_dist(1) [of h xs "lfree h" ys q] ok that by (simp add: bs)
    ultimately show ?thesis using r by (auto simp: h0_def bs split: option.splits)
  qed
  then obtain r where r: "malloc_find h0 sz (lfree h) = Some r"
    "case r of Some q \<Rightarrow> q \<in> set bs \<and> lfree h \<le> q \<and> fits h sz q
     | None \<Rightarrow> \<forall>q \<in> set bs. lfree h \<le> q \<longrightarrow> \<not> fits h sz q" by blast
  show ?thesis
  proof (cases r)
    case None
    have "rt_malloc req h = Some (0, h)"
      using False r(1) None sem
      by (simp add: rt_malloc_def szd heap_sem_take_def h0_def heap_sem_release_def)
    moreover have "no_room h bs req" using r(2) None by (simp add: no_room_def sz_def)
    ultimately show ?thesis by (rule none)
  next
    case (Some p)
    then have p: "p \<in> set bs" "lfree h \<le> p" "fits h sz p" using r(2) by auto
    then obtain xs ys where bs: "bs = xs @ p # ys" by (meson split_list)
    define h2 where "h2 = malloc_cut p sz h0"
    have p0: "fits h0 sz p" "lfree h0 \<le> p" using p by (simp_all add: h0_def)
    obtain zs where z: "heap_blocks h2 (xs @ p # zs)" "no_free_pair h2 (xs @ p # zs)" "used h2 p"
      "p \<noteq> lfree h2 \<Longrightarrow> lfree_ok h2 (xs @ p # zs)"
      "lfree_lowest h0 (xs @ p # ys) \<Longrightarrow> lfree_lowest h2 (xs @ p # zs)"
      "p + 16 + sz \<le> hm_next (hdr h2 p)" "hm_next (hdr h2 p) \<le> hm_next (hdr h0 p)"
      "live h2 (xs @ p # zs) = insert p (live h0 (xs @ p # ys))"
      "\<And>x. x \<in> live h0 (xs @ p # ys) \<Longrightarrow> hm_next (hdr h2 x) = hm_next (hdr h0 x)"
      "lfree h2 = lfree h0" "heap_end h2 = heap_end h0" "heap_ptr h2 = heap_ptr h0"
      "heap_sem h2 = heap_sem h0" "mem_size_aligned h2 = mem_size_aligned h0"
      by (rule rt_malloc_cut [OF ok0 [unfolded bs] p0(1) sz(2,3) p0(2) h2_def]) blast
    obtain l where l: "malloc_lfree p h2 = Some (h2\<lparr>lfree := l\<rparr>)" "lfree_ok (h2\<lparr>lfree := l\<rparr>) (xs @ p # zs)"
      "lfree_lowest h2 (xs @ p # zs) \<longrightarrow> lfree_lowest (h2\<lparr>lfree := l\<rparr>) (xs @ p # zs)"
      using malloc_lfree_ok [OF z(1,3,4)] by blast
    define h3 where "h3 = h2\<lparr>lfree := l, heap_sem := 1\<rparr>"
    have pe: "p + 16 + sz \<le> heap_end h"
      using p(3) f(1) by (simp add: fits_def)
    have "8 dvd p" using ok p(1) by (simp add: heap_blocks_def)
    then have al: "(heap_ptr h + p + 16) mod 8 = 0" "(heap_ptr h + p) mod 8 = 0"
      using f(4) by presburger+
    have h0': "lfree h = lfree h0" "mem_size_aligned h = mem_size_aligned h0" by (simp_all add: h0_def)
    have take: "heap_sem_take h = Some h0" using sem by (simp add: heap_sem_take_def h0_def)
    have find: "malloc_find h0 sz (lfree h0) = Some (Some p)" using r(1) Some by (simp add: h0_def)
    have rel: "heap_sem_release (h2\<lparr>lfree := l\<rparr>) = h3"
      using z(13) by (simp add: heap_sem_release_def h3_def h0_def)
    have h3: "heap_ptr h3 = heap_ptr h" "heap_end h3 = heap_end h"
      using z(11,12) by (simp_all add: h3_def h0_def)
    have fin: "uadd32 (uadd32 (heap_ptr h + p) SIZEOF_STRUCT_MEM) sz \<le> heap_ptr h + heap_end h"
      using pe f(2) by (simp add: heap_consts)
    have "rt_malloc req h = Some (heap_ptr h + p + 16, h3)"
      using False unfolding rt_malloc_def Let_def szd take
      by (simp add: find h2_def [symmetric] l(1) rel h3 fin) (simp add: heap_consts al)
    then show ?thesis
    proof (rule some)
      show "heap_inv h3 (xs @ p # zs)" using z(1,2) l(2) by (simp add: heap_inv_def h3_def)
      show "live h3 (xs @ p # zs) = insert p (live h bs)" using z(8) by (simp add: h3_def h0_def bs)
      show "p \<in> set bs" "\<not> used h p" using p by (simp_all add: fits_def)
      show "p + 16 + request req \<le> hm_next (hdr h3 p)" "hm_next (hdr h3 p) \<le> hm_next (hdr h p)"
        using z(6,7) by (simp_all add: h3_def h0_def sz_def)
      show "hm_next (hdr h3 x) = hm_next (hdr h x)" if "x \<in> live h bs" for x
        using z(9) [of x] that by (simp add: h3_def h0_def bs)
      show "lfree_lowest h3 (xs @ p # zs)" if "lfree_lowest h bs"
      proof -
        have "lfree_lowest h0 (xs @ p # ys)" using that unfolding h0_def bs by simp
        then have "lfree_lowest (h2\<lparr>lfree := l\<rparr>) (xs @ p # zs)" using z(5) l(3) by blast
        then show ?thesis unfolding h3_def by simp
      qed
      show "heap_ptr h3 = heap_ptr h" "heap_end h3 = heap_end h" by (rule h3)+
      show "mem_size_aligned h3 = mem_size_aligned h" using z(14) by (simp add: h3_def h0_def)
    qed
  qed
qed

subsection \<open>Release\<close>

text \<open>Joining a free block with the free block behind it: what both parts of
  \<open>plug_holes\<close> do.\<close>

definition merge :: "nat \<Rightarrow> nat \<Rightarrow> heap \<Rightarrow> heap" where
  "merge p n h =
     (let h = (if lfree h = n then h\<lparr>lfree := p\<rparr> else h);
          h = upd_hdr p (\<lambda>m. m\<lparr>hm_next := hm_next (hdr h n)\<rparr>) h
      in upd_hdr (hm_next (hdr h n)) (\<lambda>m. m\<lparr>hm_prev := p\<rparr>) h)"

lemma plug_forward_merge:
  "plug_forward p h =
     (if p \<noteq> hm_next (hdr h p) \<and> \<not> used h (hm_next (hdr h p)) \<and> hm_next (hdr h p) \<noteq> heap_end h
      then merge p (hm_next (hdr h p)) h else h)"
  by (auto simp: plug_forward_def merge_def Let_def)

lemma plug_backward_merge:
  "plug_backward p h =
     (if hm_prev (hdr h p) \<noteq> p \<and> \<not> used h (hm_prev (hdr h p))
      then merge (hm_prev (hdr h p)) p h else h)"
  by (auto simp: plug_backward_def merge_def Let_def)

lemma merge_ok:
  assumes ok: "heap_blocks h (xs @ p # n # ys)" and fr: "\<not> used h p" "\<not> used h n"
  shows "heap_blocks (merge p n h) (xs @ p # ys)"
    and "\<And>x. used (merge p n h) x = used h x"
    and "\<And>x. x \<noteq> p \<Longrightarrow> hm_next (hdr (merge p n h) x) = hm_next (hdr h x)"
    and "lfree (merge p n h) = (if lfree h = n then p else lfree h)"
    and "heap_end (merge p n h) = heap_end h" "heap_ptr (merge p n h) = heap_ptr h"
      "heap_sem (merge p n h) = heap_sem h" "mem_size_aligned (merge p n h) = mem_size_aligned h"
      "heap_bytes (merge p n h) = heap_bytes h"
proof -
  define z where "z = hd (ys @ [heap_end h])"
  note f = heap_frameD [OF heap_blocks_frame [OF ok]] and d = heap_blocks_dist [OF ok]
  have ok': "heap_blocks h ((xs @ [p]) @ n # ys)" using ok by simp
  note e = heap_blocks_dist [OF ok']
  have n: "hm_next (hdr h p) = n" "hm_next (hdr h n) = z" using d(6) e(6) by (simp_all add: z_def)
  have lt: "x < p" if "x \<in> set xs" for x using d(1) [OF that] by simp
  have gt: "p < n" "n < z" using d(4) e(4) by (simp_all add: z_def)
  have gy: "z \<le> y" "p < y" "n < y" if "y \<in> set ys" for y
    using e(5) [of y] that gt by (simp_all add: z_def)
  have pe: "p < heap_end h" "n < heap_end h" using d(3) [of p] d(3) [of n] by simp_all
  define H where "H = (hdr h)(p := (hdr h p)\<lparr>hm_next := z\<rparr>, z := (hdr h z)\<lparr>hm_prev := p\<rparr>)"
  have H: "hdr (merge p n h) = H" "used_mem (merge p n h) = used_mem h"
    using gt by (auto simp: merge_def Let_def H_def n)
  show same: "lfree (merge p n h) = (if lfree h = n then p else lfree h)"
    "heap_end (merge p n h) = heap_end h" "heap_ptr (merge p n h) = heap_ptr h"
    "heap_sem (merge p n h) = heap_sem h" "mem_size_aligned (merge p n h) = mem_size_aligned h"
    "heap_bytes (merge p n h) = heap_bytes h"
    by (simp_all add: merge_def Let_def)
  show us: "used (merge p n h) x = used h x" for x by (simp add: H H_def)
  show nx: "hm_next (hdr (merge p n h) x) = hm_next (hdr h x)" if "x \<noteq> p" for x
    using that by (simp add: H H_def)
  have "chain H (xs @ p # ys) (heap_end h)"
  proof (rule chain_merge [OF heap_blocks_chain [OF ok]])
    show "hm_next (H p) = hm_next (hdr h n)" using gt by (simp add: H_def n)
    show "hm_next (H x) = hm_next (hdr h x)" if "x \<in> set (xs @ ys)" for x
      using that lt [of x] gy [of x] by (auto simp: H_def)
    show "hm_prev (H (hd ys)) = p" if "ys \<noteq> []"
      using that by (cases ys) (simp_all add: H_def z_def)
    show "hm_prev (H x) = hm_prev (hdr h x)" if x: "x \<in> set (xs @ p # tl ys)" for x
    proof -
      have "x \<noteq> z"
      proof (cases "x \<in> set (tl ys)")
        case True
        then show ?thesis
          using chain_sorted [OF heap_blocks_chain [OF ok]]
          by (cases ys) (auto simp: z_def sorted_wrt_append dest: bspec [of _ _ z])
      next
        case False
        then show ?thesis using x lt [of x] gt by auto
      qed
      then show ?thesis by (simp add: H_def)
    qed
  qed
  moreover have "heap_frame (merge p n h)"
    using us nx pe f same by (intro heap_frame_upd [OF heap_blocks_frame [OF ok]]) simp_all
  moreover have "hm_prev (H 0) = 0" using ok gt by (simp add: heap_blocks_def H_def)
  moreover have "\<forall>x \<in> set (xs @ p # ys). 8 dvd x \<and> (used (merge p n h) x \<longrightarrow> hm_magic (H x) = HEAP_MAGIC)"
    using ok us by (simp add: heap_blocks_def) (auto simp: H_def)
  moreover have "used_mem h = sum_list (map (block_bytes (merge p n h)) (xs @ p # ys))"
  proof -
    have "x \<noteq> p" if "x \<in> set xs \<union> set ys" for x using that lt [of x] gy [of x] by auto
    then have "sum_list (map (block_bytes (merge p n h)) xs) = sum_list (map (block_bytes h) xs)"
      "sum_list (map (block_bytes (merge p n h)) ys) = sum_list (map (block_bytes h) ys)"
      using us nx by (auto intro!: block_bytes_sum_cong)
    moreover have "block_bytes (merge p n h) p = 0" "block_bytes h p = 0" "block_bytes h n = 0"
      using us fr by (simp_all add: block_bytes_def)
    ultimately show ?thesis using ok by (simp add: heap_blocks_def)
  qed
  moreover have "hd (xs @ p # ys) = 0" using ok by (cases xs) (auto simp: heap_blocks_def)
  moreover have "last (xs @ p # ys) + 32 \<le> heap_end h"
    using ok gt by (cases "ys = []") (auto simp: heap_blocks_def)
  ultimately show "heap_blocks (merge p n h) (xs @ p # ys)"
    unfolding heap_blocks_def using H same by simp
qed

text \<open>What a merge keeps of the rest.\<close>

lemma merge_keeps:
  assumes ok: "heap_blocks h (xs @ p # n # ys)" and fr: "\<not> used h p" "\<not> used h n"
  shows "lfree_ok h (xs @ p # n # ys) \<Longrightarrow> lfree_ok (merge p n h) (xs @ p # ys)"
    and "lfree_lowest h (xs @ p # n # ys) \<Longrightarrow> lfree_lowest (merge p n h) (xs @ p # ys)"
    and "live (merge p n h) (xs @ p # ys) = live h (xs @ p # n # ys)"
    and "x \<in> live h (xs @ p # n # ys) \<Longrightarrow> hm_next (hdr (merge p n h) x) = hm_next (hdr h x)"
proof -
  note m = merge_ok [OF assms]
  have lt: "p < n" using heap_blocks_dist(2) [OF ok, of n] by simp
  show "lfree_ok h (xs @ p # n # ys) \<Longrightarrow> lfree_ok (merge p n h) (xs @ p # ys)"
    using fr by (auto simp: lfree_ok_def m(2,4,5))
  show "lfree_lowest h (xs @ p # n # ys) \<Longrightarrow> lfree_lowest (merge p n h) (xs @ p # ys)"
    using lt by (auto simp: lfree_lowest_def m(2,4))
  show "live (merge p n h) (xs @ p # ys) = live h (xs @ p # n # ys)"
    using fr by (auto simp: live_def m(2))
  show "x \<in> live h (xs @ p # n # ys) \<Longrightarrow> hm_next (hdr (merge p n h) x) = hm_next (hdr h x)"
    using fr m(3) [of x] by (auto simp: live_def)
qed

text \<open>After \<open>plug_holes\<close> no two neighbours are free, if that held except at the block.\<close>

lemma plug_ok:
  assumes ok: "heap_blocks h (xs @ p # ys)" and fr: "\<not> used h p"
    and nf: "no_free_pair h xs" "no_free_pair h ys"
    and lf: "lfree_ok h (xs @ p # ys)"
  shows "\<exists>h' bs. plug_holes p h = Some h' \<and> heap_blocks h' bs \<and> no_free_pair h' bs \<and> lfree_ok h' bs \<and>
    (lfree_lowest h (xs @ p # ys) \<longrightarrow> lfree_lowest h' bs) \<and> live h' bs = live h (xs @ p # ys) \<and>
    (\<forall>x \<in> live h' bs. hm_next (hdr h' x) = hm_next (hdr h x)) \<and>
    heap_end h' = heap_end h \<and> heap_ptr h' = heap_ptr h \<and> heap_sem h' = heap_sem h \<and>
    mem_size_aligned h' = mem_size_aligned h \<and> heap_bytes h' = heap_bytes h"
proof -
  note d = heap_blocks_dist [OF ok]
  define h1 where "h1 = plug_forward p h"
  have "\<exists>zs. heap_blocks h1 (xs @ p # zs) \<and> no_free_pair h1 (p # zs) \<and> lfree_ok h1 (xs @ p # zs) \<and>
    (lfree_lowest h (xs @ p # ys) \<longrightarrow> lfree_lowest h1 (xs @ p # zs)) \<and>
    live h1 (xs @ p # zs) = live h (xs @ p # ys) \<and>
    (\<forall>x \<in> live h (xs @ p # ys). hm_next (hdr h1 x) = hm_next (hdr h x)) \<and>
    (\<forall>x. used h1 x = used h x) \<and>
    heap_end h1 = heap_end h \<and> heap_ptr h1 = heap_ptr h \<and> heap_sem h1 = heap_sem h \<and>
    mem_size_aligned h1 = mem_size_aligned h \<and> heap_bytes h1 = heap_bytes h"
  proof (cases "ys \<noteq> [] \<and> \<not> used h (hd ys)")
    case True
    then obtain n zs where ys: "ys = n # zs" "\<not> used h n" by (cases ys) auto
    have n: "hm_next (hdr h p) = n" "p \<noteq> n" "n \<noteq> heap_end h"
      using d(4,6) d(3) [of n] ys by simp_all
    then have h1: "h1 = merge p n h" using ys by (simp add: h1_def plug_forward_merge)
    note ok' = ok [unfolded ys(1)]
    note m = merge_ok [OF ok' fr ys(2)] and k = merge_keeps [OF ok' fr ys(2)]
    have "no_free_pair h1 (p # zs)"
      using nf(2) ys m(2) by (cases zs) (auto simp: no_free_pair_def h1 successively_Cons)
    then show ?thesis
      using m(1,2,5-9) k lf by (intro exI [of _ zs]) (auto simp: h1 ys(1))
  next
    case False
    have "used h (hm_next (hdr h p))"
      using False heap_frameD(7) [OF heap_blocks_frame [OF ok]] d(6) by (cases ys) auto
    then have "h1 = h" by (simp add: h1_def plug_forward_merge)
    moreover have "no_free_pair h (p # ys)"
      using nf(2) False by (cases ys) (auto simp: no_free_pair_def)
    ultimately show ?thesis using ok lf by (intro exI [of _ ys]) simp
  qed
  then obtain zs where z: "heap_blocks h1 (xs @ p # zs)" "no_free_pair h1 (p # zs)"
    "lfree_ok h1 (xs @ p # zs)" "lfree_lowest h (xs @ p # ys) \<longrightarrow> lfree_lowest h1 (xs @ p # zs)"
    "live h1 (xs @ p # zs) = live h (xs @ p # ys)"
    "\<forall>x \<in> live h (xs @ p # ys). hm_next (hdr h1 x) = hm_next (hdr h x)"
    "\<forall>x. used h1 x = used h x"
    "heap_end h1 = heap_end h" "heap_ptr h1 = heap_ptr h" "heap_sem h1 = heap_sem h"
    "mem_size_aligned h1 = mem_size_aligned h" "heap_bytes h1 = heap_bytes h"
    by blast
  have pl: "plug_holes p h = Some (plug_backward p h1)"
    using d(3) [of p] fr by (simp add: plug_holes_def h1_def rt_assert_def)
  have fr1: "\<not> used h1 p" using z(7) fr by simp
  have nx: "no_free_pair h1 xs" using nf(1) z(7) by (simp add: no_free_pair_def)
  show ?thesis
  proof (cases "xs \<noteq> [] \<and> \<not> used h1 (last xs)")
    case True
    then obtain us w where xs: "xs = us @ [w]" "\<not> used h1 w" by (cases xs rule: rev_cases) auto
    have w: "hm_prev (hdr h1 p) = w" "w \<noteq> p"
      using chain_prev [OF heap_blocks_chain [OF z(1)]] heap_blocks_dist(1) [OF z(1), of w] xs by auto
    then have b: "plug_backward p h1 = merge w p h1" using xs by (simp add: plug_backward_merge)
    have ok': "heap_blocks h1 (us @ w # p # zs)" using z(1) xs by simp
    note m = merge_ok [OF ok' xs(2) fr1] and k = merge_keeps [OF ok' xs(2) fr1]
    have e: "xs @ p # zs = us @ w # p # zs" using xs by simp
    have "no_free_pair (merge w p h1) (us @ w # zs)"
      using nx z(2) xs m(2) fr1
      by (cases zs) (auto simp: no_free_pair_def successively_append_iff successively_Cons)
    then show ?thesis
      using m(1,5-9) k z(3-12) unfolding pl b e
      by (intro exI [of _ "merge w p h1"] exI [of _ "us @ w # zs"]) auto
  next
    case False
    have b: "plug_backward p h1 = h1"
    proof (cases "xs = []")
      case True
      then have "p = 0" using ok by (simp add: heap_blocks_def)
      then show ?thesis using z(1) by (simp add: plug_backward_merge heap_blocks_def)
    next
      case ne: False
      then show ?thesis
        using False chain_prev [OF heap_blocks_chain [OF z(1)] ne] by (simp add: plug_backward_merge)
    qed
    have "no_free_pair h1 (xs @ p # zs)"
      using nx z(2) False by (auto simp: no_free_pair_def successively_append_iff)
    then show ?thesis
      using z unfolding pl b by (intro exI [of _ h1] exI [of _ "xs @ p # zs"]) auto
  qed
qed

lemma rt_free_ok:
  assumes inv: "heap_inv h bs" and p: "p \<in> live h bs"
  shows "\<exists>h' bs'. rt_free (heap_ptr h + p + 16) h = Some h' \<and> heap_inv h' bs' \<and>
    live h' bs' = live h bs - {p} \<and>
    (\<forall>x \<in> live h' bs'. hm_next (hdr h' x) = hm_next (hdr h x)) \<and>
    (lfree_lowest h bs \<longrightarrow> lfree_lowest h' bs') \<and>
    heap_end h' = heap_end h \<and> heap_ptr h' = heap_ptr h \<and>
    mem_size_aligned h' = mem_size_aligned h \<and> heap_bytes h' = heap_bytes h"
proof -
  from p obtain xs ys where bs: "bs = xs @ p # ys" and u: "used h p" by (auto simp: live_def dest: split_list)
  note ok = heap_invD(1) [OF inv [unfolded bs]] and nf = heap_invD(2) [OF inv [unfolded bs]]
    and lf = heap_invD(3) [OF inv [unfolded bs]] and sem = heap_invD(4) [OF inv]
  note f = heap_frameD [OF heap_blocks_frame [OF ok]] and d = heap_blocks_dist [OF ok]
  have pe: "p + 16 \<le> heap_end h" using d(3) [of p] by simp
  have "8 dvd p" "hm_magic (hdr h p) = HEAP_MAGIC" using ok u by (auto simp: heap_blocks_def)
  then have al: "(heap_ptr h + p + 16) mod 8 = 0" using f(4) by presburger
  have pd: "p \<notin> set xs" "p \<notin> set ys" using d(1) [of p] d(2) [of p] by auto
  have n: "hm_next (hdr h p) \<le> heap_end h" "p + 16 \<le> hm_next (hdr h p)"
    using d(3) [of "hm_next (hdr h p)"] d(4,6) by (cases ys; simp)+
  define h1 where "h1 = h\<lparr>heap_sem := 0, hdr := (hdr h)(p := (hdr h p)\<lparr>hm_used := 0, hm_magic := 0\<rparr>),
    lfree := (if p < lfree h then p else lfree h),
    used_mem := usub32 (used_mem h) (usub32 (hm_next (hdr h p)) p)\<rparr>"
  have lt: "p + 16 < heap_end h"
  proof (cases "ys = []")
    case True
    then show ?thesis using ok by (simp add: heap_blocks_def)
  next
    case False
    then show ?thesis using d(4) d(3) [of "hd ys"] by (cases ys) simp_all
  qed
  have h1: "hdr h1 = (hdr h)(p := (hdr h p)\<lparr>hm_used := 0, hm_magic := 0\<rparr>)" "\<not> used h1 p"
    "lfree h1 = (if p < lfree h then p else lfree h)" "heap_end h1 = heap_end h"
    "heap_ptr h1 = heap_ptr h" "mem_size_aligned h1 = mem_size_aligned h"
    "heap_bytes h1 = heap_bytes h" "heap_sem h1 = 0"
    by (simp_all add: h1_def)
  have sx: "hdr h1 x = hdr h x" if "x \<in> set xs \<union> set ys" for x
    using that pd by (auto simp: h1(1))
  have "p \<noteq> lfree h" using lf u pe by (auto simp: lfree_ok_def)
  then have lf1: "lfree_ok h1 (xs @ p # ys)"
    using lf by (auto simp: lfree_ok_def h1)
  have low: "lfree_lowest h1 (xs @ p # ys)" if "lfree_lowest h (xs @ p # ys)"
    using that u \<open>p \<noteq> lfree h\<close> by (auto simp: lfree_lowest_def h1)
  have sums: "sum_list (map (block_bytes h1) xs) = sum_list (map (block_bytes h) xs)"
    "sum_list (map (block_bytes h1) ys) = sum_list (map (block_bytes h) ys)"
    "block_bytes h1 p = 0" "block_bytes h p = hm_next (hdr h p) - p"
    using sx u by (auto intro!: block_bytes_sum_cong simp: block_bytes_def h1(1))
  have "used_mem h \<le> sum_list (map (\<lambda>p. hm_next (hdr h p) - p) (xs @ p # ys))"
  proof -
    have "sum_list (map (block_bytes h) zs) \<le> sum_list (map (\<lambda>p. hm_next (hdr h p) - p) zs)" for zs
      by (intro sum_list_mono) (simp add: block_bytes_def)
    moreover have "used_mem h = sum_list (map (block_bytes h) (xs @ p # ys))"
      using ok unfolding heap_blocks_def by blast
    ultimately show ?thesis by metis
  qed
  then have "used_mem h \<le> heap_end h"
    using chain_bytes [OF heap_blocks_chain [OF ok]] by simp
  then have "used_mem h1 = used_mem h - (hm_next (hdr h p) - p)"
    using ok f(2) n sums(4) by (simp add: h1_def heap_blocks_def)
  then have um: "used_mem h1 = sum_list (map (block_bytes h1) (xs @ p # ys))"
    using ok sums by (simp add: heap_blocks_def)
  have "chain (hdr h1) (xs @ p # ys) (heap_end h)"
    using heap_blocks_chain [OF ok] chain_cong [of "xs @ p # ys" "hdr h1" "hdr h"] by (simp add: h1(1))
  moreover have "heap_frame h1"
    using f pe h1 by (intro heap_frame_upd [OF heap_blocks_frame [OF ok]]) simp_all
  ultimately have ok1: "heap_blocks h1 (xs @ p # ys)"
    using ok sx um unfolding heap_blocks_def h1(4) by (simp add: h1(1))
  have nf1: "no_free_pair h1 xs" "no_free_pair h1 ys"
    using nf sx unfolding no_free_pair_def successively_append_iff
    by (auto intro: successively_mono simp: successively_Cons)
  obtain h2 bs' where h2: "plug_holes p h1 = Some h2" "heap_blocks h2 bs'" "no_free_pair h2 bs'"
    "lfree_ok h2 bs'" "lfree_lowest h1 (xs @ p # ys) \<longrightarrow> lfree_lowest h2 bs'"
    "live h2 bs' = live h1 (xs @ p # ys)"
    "\<forall>x \<in> live h2 bs'. hm_next (hdr h2 x) = hm_next (hdr h1 x)"
    "heap_end h2 = heap_end h1" "heap_ptr h2 = heap_ptr h1" "heap_sem h2 = heap_sem h1"
    "mem_size_aligned h2 = mem_size_aligned h1" "heap_bytes h2 = heap_bytes h1"
    using plug_ok [OF ok1 h1(2) nf1 lf1] by blast
  define h3 where "h3 = h2\<lparr>heap_sem := 1\<rparr>"
  have "rt_free (heap_ptr h + p + 16) h = Some h3"
    using al u lt sem h2(1,10) \<open>hm_magic (hdr h p) = HEAP_MAGIC\<close>
    by (cases "p < lfree h") (simp_all add: rt_free_def heap_consts heap_sem_take_def
        heap_sem_release_def h1_def h3_def rt_assert_def Let_def)
  moreover have "heap_inv h3 bs'" using h2(2-4) by (simp add: heap_inv_def h3_def)
  moreover have "live h3 bs' = live h bs - {p}"
    using h2(6) sx pd by (auto simp: h3_def live_def bs h1(1))
  moreover have "\<forall>x \<in> live h3 bs'. hm_next (hdr h3 x) = hm_next (hdr h x)"
    using h2(7) by (auto simp: h3_def h1(1))
  moreover have "lfree_lowest h bs \<longrightarrow> lfree_lowest h3 bs'"
    using h2(5) low by (auto simp: h3_def bs)
  ultimately show ?thesis
    using h2(8,9,11,12) h1(4-7) by (intro exI [of _ h3] exI [of _ bs']) (simp add: h3_def)
qed

subsection \<open>The heap is set up\<close>

lemma unat_ALIGN_DOWN: "unat (RT_ALIGN_DOWN w RT_ALIGN_SIZE) = unat w div 8 * 8"
  by (simp add: RT_ALIGN_DOWN_def RT_ALIGN_SIZE_def unat_align_down)

lemma heap_init_inv:
  assumes "0 < unat (RT_ALIGN begin_addr RT_ALIGN_SIZE)" "used_mem h = 0"
    and "unat (RT_ALIGN begin_addr RT_ALIGN_SIZE) + 48 \<le> unat (RT_ALIGN_DOWN end_addr RT_ALIGN_SIZE)"
  shows "heap_inv (rt_system_heap_init begin_addr end_addr h) [0]"
    and "lfree_lowest (rt_system_heap_init begin_addr end_addr h) [0]"
    and "live (rt_system_heap_init begin_addr end_addr h) [0] = {}"
    and "heap_ptr (rt_system_heap_init begin_addr end_addr h) = unat (RT_ALIGN begin_addr RT_ALIGN_SIZE)"
proof -
  define b where "b = unat (RT_ALIGN begin_addr RT_ALIGN_SIZE)"
  define e where "e = unat (RT_ALIGN_DOWN end_addr RT_ALIGN_SIZE)"
  have "e < 2 ^ LENGTH(32)" unfolding e_def by (rule unsigned_less)
  then have e: "e < 2 ^ 32" "8 dvd e" "b + 48 \<le> e" "8 dvd b" "0 < b"
    using assms by (simp_all add: e_def b_def unat_ALIGN_DOWN RT_ALIGN_dvd)
  define m where "m = e - b - 32"
  have m: "usub32 (usub32 e b) (2 * SIZEOF_STRUCT_MEM) = m" "uadd32 m SIZEOF_STRUCT_MEM = m + 16"
    "b + m + 32 = e" "16 \<le> m"
    using e by (simp_all add: m_def heap_consts)
  have "8 dvd m" using e by (simp add: m_def)
  define h' where "h' = h\<lparr>mem_size_aligned := m, heap_ptr := b, heap_end := m + 16, heap_sem := 1, lfree := 0,
    hdr := (hdr h)(0 := (hdr h 0)\<lparr>hm_magic := HEAP_MAGIC, hm_next := m + 16, hm_prev := 0, hm_used := 0\<rparr>,
      m + 16 := (hdr h (m + 16))\<lparr>hm_magic := HEAP_MAGIC, hm_used := 1, hm_next := m + 16, hm_prev := m + 16\<rparr>)\<rparr>"
  have "usub32 e (2 * SIZEOF_STRUCT_MEM) \<ge> b" "e > 2 * SIZEOF_STRUCT_MEM"
    using e by (simp_all add: heap_consts)
  then have h': "rt_system_heap_init begin_addr end_addr h = h'"
    unfolding rt_system_heap_init_def b_def [symmetric] e_def [symmetric]
    by (simp add: Let_def m h'_def)
  have "heap_blocks h' [0]"
    using e(1,4,5) m(3,4) \<open>8 dvd m\<close> assms(2)
    by (simp add: heap_blocks_def heap_frame_def h'_def block_bytes_def)
  then show "heap_inv (rt_system_heap_init begin_addr end_addr h) [0]"
    "lfree_lowest (rt_system_heap_init begin_addr end_addr h) [0]"
    "live (rt_system_heap_init begin_addr end_addr h) [0] = {}"
    "heap_ptr (rt_system_heap_init begin_addr end_addr h) = unat (RT_ALIGN begin_addr RT_ALIGN_SIZE)"
    unfolding h'
    by (auto simp: heap_inv_def no_free_pair_def lfree_ok_def lfree_lowest_def live_def h'_def b_def)
qed

subsection \<open>The contract of an allocator\<close>

text \<open>The blocks can be read off the heap: they are what the links lead to from offset 0.\<close>

inductive heap_block :: "heap \<Rightarrow> nat \<Rightarrow> bool" for h where
  first: "0 \<noteq> heap_end h \<Longrightarrow> heap_block h 0"
| link: "heap_block h p \<Longrightarrow> hm_next (hdr h p) \<noteq> heap_end h \<Longrightarrow> heap_block h (hm_next (hdr h p))"

lemma heap_block_iff:
  assumes "heap_blocks h bs"
  shows "heap_block h p \<longleftrightarrow> p \<in> set bs"
proof
  assume "heap_block h p"
  then show "p \<in> set bs"
  proof induction
    case first
    then show ?case using assms by (cases bs) (auto simp: heap_blocks_def)
  next
    case (link p)
    then obtain xs ys where bs: "bs = xs @ p # ys" by (meson split_list)
    with link assms heap_blocks_dist(6) [of h xs p ys] show ?case by (cases ys) auto
  qed
next
  have "set ys \<subseteq> {p. heap_block h p}" if "bs = xs @ ys" "\<forall>x \<in> set xs. heap_block h x" for xs ys
    using that
  proof (induction ys arbitrary: xs)
    case (Cons y ys)
    have ne: "y \<noteq> heap_end h" using heap_blocks_dist(3) [of h xs y ys y] assms Cons.prems(1) by auto
    have "heap_block h y"
    proof (cases xs rule: rev_cases)
      case Nil
      then show ?thesis using assms Cons.prems ne heap_block.first by (simp add: heap_blocks_def)
    next
      case (snoc us u)
      then have "hm_next (hdr h u) = y"
        using heap_blocks_dist(6) [of h us u "y # ys"] assms Cons.prems(1) by simp
      then show ?thesis using heap_block.link [of h u] Cons.prems(2) snoc ne by auto
    qed
    then show ?case using Cons.IH [of "xs @ [y]"] Cons.prems by auto
  qed simp
  from this [of "[]" bs] show "p \<in> set bs \<Longrightarrow> heap_block h p" by auto
qed

definition heap_wf :: "heap \<Rightarrow> bool" where
  "heap_wf h \<longleftrightarrow> (\<exists>bs. heap_inv h bs \<and> lfree_lowest h bs)"

text \<open>The addresses that have been handed out, and the bytes behind each.\<close>

definition heap_live :: "heap \<Rightarrow> nat set" where
  "heap_live h = {heap_ptr h + p + 16 | p. heap_block h p \<and> used h p}"

definition heap_room :: "heap \<Rightarrow> nat \<Rightarrow> nat" where
  "heap_room h a = heap_ptr h + hm_next (hdr h (a - heap_ptr h - 16)) - a"

lemma heap_live_eq: "heap_blocks h bs \<Longrightarrow> heap_live h = (\<lambda>p. heap_ptr h + p + 16) ` live h bs"
  by (auto simp: heap_live_def live_def heap_block_iff)

locale allocator =
  fixes wf :: "'h \<Rightarrow> bool" and handed_out :: "'h \<Rightarrow> nat set" and bytes :: "'h \<Rightarrow> nat \<Rightarrow> nat"
    and alloc :: "u32 \<Rightarrow> 'h \<Rightarrow> (nat \<times> 'h) option" and release :: "nat \<Rightarrow> 'h \<Rightarrow> 'h option"
  assumes alloc_ok: "wf h \<Longrightarrow> \<exists>a h'. alloc n h = Some (a, h') \<and> wf h' \<and>
      (a = 0 \<and> h' = h \<or>
       a \<noteq> 0 \<and> a \<notin> handed_out h \<and> handed_out h' = insert a (handed_out h) \<and>
       (unat n \<le> 2 ^ 32 - 8 \<longrightarrow> unat n \<le> bytes h' a) \<and>
       (\<forall>b \<in> handed_out h. bytes h' b = bytes h b \<and> (a + bytes h' a \<le> b \<or> b + bytes h b \<le> a)))"
    and release_ok: "wf h \<Longrightarrow> a \<in> handed_out h \<Longrightarrow>
      \<exists>h'. release a h = Some h' \<and> wf h' \<and> handed_out h' = handed_out h - {a} \<and>
        (\<forall>b \<in> handed_out h'. bytes h' b = bytes h b)"
begin

text \<open>A run of requests without releases.\<close>

primrec alloc_all :: "u32 list \<Rightarrow> 'h \<Rightarrow> (nat list \<times> 'h) option" where
  "alloc_all [] h = Some ([], h)"
| "alloc_all (n # ns) h = do {
     (a, h) \<leftarrow> alloc n h;
     (as, h) \<leftarrow> alloc_all ns h;
     Some (a # as, h)
   }"

lemma alloc_all_distinct:
  assumes "wf h"
  shows "\<exists>as h'. alloc_all ns h = Some (as, h') \<and> wf h' \<and>
    distinct (filter (\<lambda>a. a \<noteq> 0) as) \<and> handed_out h' = handed_out h \<union> {a \<in> set as. a \<noteq> 0} \<and>
    handed_out h \<inter> {a \<in> set as. a \<noteq> 0} = {}"
  using assms
proof (induction ns arbitrary: h)
  case (Cons n ns)
  obtain a h1 where a: "alloc n h = Some (a, h1)" "wf h1"
    "a = 0 \<and> h1 = h \<or> a \<noteq> 0 \<and> a \<notin> handed_out h \<and> handed_out h1 = insert a (handed_out h)"
    using alloc_ok [OF Cons.prems, of n] by blast
  obtain as h2 where as: "alloc_all ns h1 = Some (as, h2)" "wf h2" "distinct (filter (\<lambda>a. a \<noteq> 0) as)"
    "handed_out h2 = handed_out h1 \<union> {a \<in> set as. a \<noteq> 0}"
    "handed_out h1 \<inter> {a \<in> set as. a \<noteq> 0} = {}"
    using Cons.IH [OF a(2)] by blast
  have "distinct (filter (\<lambda>a. a \<noteq> 0) (a # as))" using a(3) as(3,5) by auto
  moreover have "handed_out h2 = handed_out h \<union> {b \<in> set (a # as). b \<noteq> 0}" using a(3) as(4) by auto
  moreover have "handed_out h \<inter> {b \<in> set (a # as). b \<noteq> 0} = {}" using a(3) as(5) by auto
  ultimately show ?case using a(1) as(1,2) by auto
qed simp

text \<open>What is given back can be given back only once, and leaves the rest as it was.\<close>

lemma alloc_release:
  assumes "wf h" "alloc n h = Some (a, h1)" "a \<noteq> 0"
  shows "\<exists>h2. release a h1 = Some h2 \<and> wf h2 \<and> handed_out h2 = handed_out h \<and>
    (\<forall>b \<in> handed_out h. bytes h2 b = bytes h b)"
proof -
  have h1: "wf h1" "a \<notin> handed_out h" "handed_out h1 = insert a (handed_out h)"
    "\<forall>b \<in> handed_out h. bytes h1 b = bytes h b"
    using alloc_ok [OF assms(1), of n] assms(2,3) by auto
  then obtain h2 where "release a h1 = Some h2" "wf h2" "handed_out h2 = handed_out h1 - {a}"
    "\<forall>b \<in> handed_out h2. bytes h2 b = bytes h1 b"
    using release_ok [of h1 a] by auto
  with h1 show ?thesis by auto
qed

end

lemma blocks_apart:
  assumes ok: "heap_blocks h bs" and pq: "p \<in> set bs" "q \<in> set bs" "p < q"
  shows "hm_next (hdr h p) \<le> q"
proof -
  obtain xs ys where bs: "bs = xs @ p # ys" using pq(1) by (meson split_list)
  note d = heap_blocks_dist [OF ok [unfolded bs]]
  have "q \<in> set ys" using pq(2,3) d(1) [of q] by (auto simp: bs)
  then show ?thesis using d(5) [of q] d(6) by simp
qed

lemma heap_room_block [simp]: "heap_room h (heap_ptr h + p + 16) = hm_next (hdr h p) - (p + 16)"
  by (simp add: heap_room_def)

lemma live_disjoint:
  assumes "heap_blocks h bs" "p \<in> set bs" "q \<in> set bs" "p \<noteq> q"
  shows "heap_ptr h + p + 16 + (hm_next (hdr h p) - (p + 16)) \<le> heap_ptr h + q + 16 \<or>
         heap_ptr h + q + 16 + (hm_next (hdr h q) - (q + 16)) \<le> heap_ptr h + p + 16"
  using blocks_apart [OF assms(1,2,3)] blocks_apart [OF assms(1,3,2)] assms(4) by linarith

interpretation small_heap: allocator heap_wf heap_live heap_room rt_malloc rt_free
proof
  fix h n
  assume "heap_wf h"
  then obtain bs where inv: "heap_inv h bs" and low: "lfree_lowest h bs" by (auto simp: heap_wf_def)
  note lv = heap_live_eq [OF heap_invD(1) [OF inv]]
  show "\<exists>a h'. rt_malloc n h = Some (a, h') \<and> heap_wf h' \<and>
      (a = 0 \<and> h' = h \<or>
       a \<noteq> 0 \<and> a \<notin> heap_live h \<and> heap_live h' = insert a (heap_live h) \<and>
       (unat n \<le> 2 ^ 32 - 8 \<longrightarrow> unat n \<le> heap_room h' a) \<and>
       (\<forall>b \<in> heap_live h. heap_room h' b = heap_room h b \<and>
          (a + heap_room h' a \<le> b \<or> b + heap_room h b \<le> a)))"
    using inv
  proof (rule rt_malloc_cases [where req = n])
    assume "rt_malloc n h = Some (0, h)"
    then show ?thesis using \<open>heap_wf h\<close> by blast
  next
    fix p h' bs'
    assume m: "rt_malloc n h = Some (heap_ptr h + p + 16, h')" "heap_inv h' bs'" "p \<in> set bs" "\<not> used h p"
      "p + 16 + request n \<le> hm_next (hdr h' p)" "live h' bs' = insert p (live h bs)"
      "\<And>x. x \<in> live h bs \<Longrightarrow> hm_next (hdr h' x) = hm_next (hdr h x)"
      "lfree_lowest h bs \<Longrightarrow> lfree_lowest h' bs'" "heap_ptr h' = heap_ptr h"
    note lv' = heap_live_eq [OF heap_invD(1) [OF m(2)]]
    let ?a = "heap_ptr h + p + 16"
    have "heap_wf h'" using m(2,8) low by (auto simp: heap_wf_def)
    moreover have "?a \<notin> heap_live h" using m(4) by (auto simp: lv live_def)
    moreover have "heap_live h' = insert ?a (heap_live h)" by (simp add: lv lv' m(6,9))
    moreover have "unat n \<le> heap_room h' ?a" if "unat n \<le> 2 ^ 32 - 8"
      using RT_ALIGN_ge [OF that] m(5,9) heap_room_block [of h' p] by (simp add: request_def)
    moreover have "heap_room h' b = heap_room h b \<and> (?a + heap_room h' ?a \<le> b \<or> b + heap_room h b \<le> ?a)"
      if "b \<in> heap_live h" for b
    proof -
      from that obtain q where q: "b = heap_ptr h + q + 16" "q \<in> live h bs" by (auto simp: lv)
      have "p \<in> set bs'" "q \<in> set bs'" "p \<noteq> q" using m(4,6) q(2) by (auto simp: live_def)
      then show ?thesis
        using live_disjoint [OF heap_invD(1) [OF m(2)], of p q] q m(7) [OF q(2)] m(9)
          heap_room_block [of h' p] heap_room_block [of h' q] by simp
    qed
    ultimately show ?thesis using m(1) by auto
  qed
next
  fix h a
  assume "heap_wf h" "a \<in> heap_live h"
  then obtain bs where inv: "heap_inv h bs" and low: "lfree_lowest h bs" by (auto simp: heap_wf_def)
  note lv = heap_live_eq [OF heap_invD(1) [OF inv]]
  obtain p where p: "a = heap_ptr h + p + 16" "p \<in> live h bs" using \<open>a \<in> heap_live h\<close> by (auto simp: lv)
  obtain h' bs' where f: "rt_free a h = Some h'" "heap_inv h' bs'" "live h' bs' = live h bs - {p}"
    "\<forall>x \<in> live h' bs'. hm_next (hdr h' x) = hm_next (hdr h x)"
    "lfree_lowest h' bs'" "heap_ptr h' = heap_ptr h"
    using rt_free_ok [OF inv p(2)] low p(1) by blast
  note lv' = heap_live_eq [OF heap_invD(1) [OF f(2)]]
  have "heap_wf h'" using f(2,5) by (auto simp: heap_wf_def)
  moreover have "heap_live h' = heap_live h - {a}" by (auto simp: lv lv' f(3,6) p(1))
  moreover have "\<forall>b \<in> heap_live h'. heap_room h' b = heap_room h b"
    using f(4,6) heap_room_block [of h'] by (auto simp: lv')
  ultimately show "\<exists>h'. rt_free a h = Some h' \<and> heap_wf h' \<and> heap_live h' = heap_live h - {a} \<and>
      (\<forall>b \<in> heap_live h'. heap_room h' b = heap_room h b)"
    using f(1) by blast
qed

end
