(* ===== verification/Object_Heap.thy ===== *)
theory Object_Heap
  imports Thread Heap_Mem
begin

text \<open>
  Objects with memory from the heap: the rest of \<^verbatim>\<open>src/object.c\<close>, the creation and deletion
  of timers and threads, and the idle thread of \<^verbatim>\<open>src/idle.c\<close>, which frees what the
  threads that have ended leave behind. An object that lies in the heap is named by its address.
\<close>

subsection \<open>The heap as part of the kernel\<close>

definition k_malloc :: "u32 \<Rightarrow> kstate \<Rightarrow> (nat \<times> kstate) option" where
  "k_malloc n s = do {
     s \<leftarrow> rt_debug_not_in_interrupt s;
     (a, h) \<leftarrow> rt_malloc n (kheap s);
     Some (a, s\<lparr>kheap := h\<rparr>)
   }"

definition k_free :: "nat \<Rightarrow> kstate \<Rightarrow> kstate option" where
  "k_free a s = do {
     s \<leftarrow> rt_debug_not_in_interrupt s;
     h \<leftarrow> rt_free a (kheap s);
     Some (s\<lparr>kheap := h\<rparr>)
   }"

subsection \<open>Objects\<close>

text \<open>The object of a class at an address, and back. The timer built into a thread is no
  object of the heap.\<close>

fun obj_at :: "obj_class \<Rightarrow> nat \<Rightarrow> oid option" where
  "obj_at RT_Object_Class_Thread a = Some (Thread_o a)"
| "obj_at RT_Object_Class_Semaphore a = Some (Sem_o a)"
| "obj_at RT_Object_Class_Mutex a = Some (Mutex_o a)"
| "obj_at RT_Object_Class_Event a = Some (Event_o a)"
| "obj_at RT_Object_Class_MailBox a = Some (MailBox_o a)"
| "obj_at RT_Object_Class_MessageQueue a = Some (MessageQueue_o a)"
| "obj_at RT_Object_Class_MemPool a = Some (MemPool_o a)"
| "obj_at RT_Object_Class_Device a = Some (Device_o a)"
| "obj_at RT_Object_Class_Timer a = Some (Timer_o (Timer a))"
| "obj_at RT_Object_Class_Unknown a = None"

fun addr_of :: "oid \<Rightarrow> nat option" where
  "addr_of (Thread_o a) = Some a"
| "addr_of (Sem_o a) = Some a"
| "addr_of (Mutex_o a) = Some a"
| "addr_of (Event_o a) = Some a"
| "addr_of (MailBox_o a) = Some a"
| "addr_of (MessageQueue_o a) = Some a"
| "addr_of (MemPool_o a) = Some a"
| "addr_of (Device_o a) = Some a"
| "addr_of (Timer_o (Timer a)) = Some a"
| "addr_of (Timer_o (Thread_timer t)) = None"

definition rt_object_allocate :: "obj_class \<Rightarrow> u8 list \<Rightarrow> kstate \<Rightarrow> (nat \<times> kstate) option" where
  "rt_object_allocate c nm s = do {
     s \<leftarrow> rt_debug_not_in_interrupt s;
     (a, s) \<leftarrow> k_malloc (object_size s c) s;
     if a = 0 then Some (0, s)
     else do {
       x \<leftarrow> obj_at c a;
       let s = upd_obj x (\<lambda>r. r\<lparr>o_type := class_num c\<rparr>) s;
       let s = upd_obj x (\<lambda>r. r\<lparr>o_flag := 0\<rparr>) s;
       let s = upd_obj x (\<lambda>r. r\<lparr>o_name := rt_strncpy nm RT_NAME_MAX\<rparr>) s;
       s \<leftarrow> on_obj_lists (l_insert_first c x) s;
       Some (a, s)
     }
   }"

definition rt_object_delete :: "oid \<Rightarrow> kstate \<Rightarrow> kstate option" where
  "rt_object_delete x s = do {
     s \<leftarrow> rt_assert (o_type (objs s x) AND RT_Object_Class_Static = 0) s;
     let s = s\<lparr>obj_lists := l_remove x (obj_lists s)\<rparr>;
     a \<leftarrow> addr_of x;
     k_free a s
   }"

fun class_of_num :: "u8 \<Rightarrow> obj_class option" where
  "class_of_num n =
     List.find (\<lambda>c. class_num c = n)
       [RT_Object_Class_Thread, RT_Object_Class_Semaphore, RT_Object_Class_Mutex,
        RT_Object_Class_Event, RT_Object_Class_MailBox, RT_Object_Class_MessageQueue,
        RT_Object_Class_MemPool, RT_Object_Class_Device, RT_Object_Class_Timer]"

text \<open>The search by name. The test of the type lets the number of
  \<^verbatim>\<open>RT_Object_Class_Unknown\<close> pass, for which the container has no entry.\<close>

definition rt_object_find :: "u8 list option \<Rightarrow> u8 \<Rightarrow> kstate \<Rightarrow> (oid option \<times> kstate) option" where
  "rt_object_find nm type s =
     (if nm = None \<or> type > class_num RT_Object_Class_Unknown then Some (None, s)
      else do {
        s \<leftarrow> rt_assert (rt_interrupt_nest s = 0) s;
        let s = rt_enter_critical s;
        c \<leftarrow> class_of_num type;
        let r = List.find (\<lambda>x. rt_strncmp (o_name (objs s x)) (the nm) RT_NAME_MAX = 0)
                  (elems (obj_lists s) c);
        s \<leftarrow> rt_exit_critical s;
        Some (r, s)
      })"

subsection \<open>Timers and threads in the heap\<close>

definition rt_timer_create ::
  "u8 list \<Rightarrow> tm_func \<Rightarrow> nat \<Rightarrow> u32 \<Rightarrow> u8 \<Rightarrow> kstate \<Rightarrow> (nat \<times> kstate) option" where
  "rt_timer_create nm func param time flag s = do {
     (a, s) \<leftarrow> rt_object_allocate RT_Object_Class_Timer nm s;
     if a = 0 then Some (0, s)
     else do {
       s \<leftarrow> timer_init (Timer a) func param time flag s;
       Some (a, s)
     }
   }"

definition rt_timer_delete :: "tmr \<Rightarrow> kstate \<Rightarrow> (rt_err_t \<times> kstate) option" where
  "rt_timer_delete x s = do {
     let s = s\<lparr>tmlists := l_remove x (tmlists s)\<rparr>;
     s \<leftarrow> rt_object_delete (Timer_o x) s;
     Some (- RT_EOK, s)
   }"

definition rt_thread_create ::
  "u8 list \<Rightarrow> nat \<Rightarrow> nat \<Rightarrow> u32 \<Rightarrow> u8 \<Rightarrow> u32 \<Rightarrow> kstate \<Rightarrow> (nat \<times> kstate) option" where
  "rt_thread_create nm ent param stack_sz priority tick s = do {
     (a, s) \<leftarrow> rt_object_allocate RT_Object_Class_Thread nm s;
     if a = 0 then Some (0, s)
     else do {
       (stack_start, s) \<leftarrow> k_malloc stack_sz s;
       if stack_start = 0 then do {
         s \<leftarrow> rt_object_delete (Thread_o a) s;
         Some (0, s)
       }
       else do {
         (_, s) \<leftarrow> thread_init a ent param (of_nat stack_start) stack_sz priority tick s;
         Some (a, s)
       }
     }
   }"

subsection \<open>The idle thread\<close>

text \<open>One call of \<^verbatim>\<open>rt_thread_idle_excute\<close>; \<open>cl\<close> stands for the cleanup functions of
  threads, by address. The second check of the list is the first one: nothing runs in between
  here.\<close>

definition rt_thread_idle_excute ::
  "(nat \<Rightarrow> tid \<Rightarrow> kstate \<Rightarrow> kstate option) \<Rightarrow> kstate \<Rightarrow> kstate option" where
  "rt_thread_idle_excute cl s =
     (case elems (tlists s) Defunct of
        [] \<Rightarrow> Some s
      | t # _ \<Rightarrow> do {
          s \<leftarrow> rt_debug_not_in_interrupt s;
          let s = s\<lparr>tlists := l_remove t (tlists s)\<rparr>;
          s \<leftarrow> (case cleanup (threads s t) of None \<Rightarrow> Some s | Some f \<Rightarrow> cl f t s);
          if rt_object_is_systemobject (Thread_o t) s then Some s
          else do {
            s \<leftarrow> k_free (unat (stack_addr (threads s t))) s;
            rt_object_delete (Thread_o t) s
          }
        })"

definition rt_thread_idle_init :: "tid \<Rightarrow> nat \<Rightarrow> u32 \<Rightarrow> kstate \<Rightarrow> kstate option" where
  "rt_thread_idle_init idle idle_entry rt_thread_stack s = do {
     (_, s) \<leftarrow> rt_thread_init idle [116, 105, 100, 108, 101] idle_entry 0 rt_thread_stack 1024 31 32 s;
     (_, s) \<leftarrow> rt_thread_startup idle s;
     Some s
   }"

subsection \<open>The operations keep the invariant\<close>

lemma kinv_heap: "k_malloc n s = Some (a, s') \<Longrightarrow> kinv s \<Longrightarrow> kinv s'"
  "k_free a s = Some s' \<Longrightarrow> kinv s \<Longrightarrow> kinv s'"
  by (auto simp: k_malloc_def k_free_def rt_debug_not_in_interrupt_def bind_eq_Some_conv)

lemma k_malloc_state: "k_malloc n s = Some (a, s') \<Longrightarrow> s' = s\<lparr>kheap := kheap s'\<rparr>"
  by (auto simp: k_malloc_def rt_debug_not_in_interrupt_def bind_eq_Some_conv)

lemma rt_object_allocate_cases:
  assumes "rt_object_allocate c nm s = Some (a, s')"
  obtains (null) "a = 0" "s' = s\<lparr>kheap := kheap s'\<rparr>"
  | (object) x where "a \<noteq> 0" "obj_at c a = Some x" "onlist (obj_lists s) x = None"
      "s' = s\<lparr>kheap := kheap s',
         objs := (objs s)(x := (objs s x)\<lparr>o_type := class_num c, o_flag := 0,
                                         o_name := rt_strncpy nm RT_NAME_MAX\<rparr>),
         obj_lists := (obj_lists s)\<lparr>elems := (elems (obj_lists s))(c := x # elems (obj_lists s) c),
                                    onlist := (onlist (obj_lists s))(x \<mapsto> c)\<rparr>\<rparr>"
  using assms
  by (auto simp: rt_object_allocate_def rt_debug_not_in_interrupt_def k_malloc_def bind_eq_Some_conv
      Let_def l_insert_first_Some split: if_splits) 

lemma object_allocate_tm: "rt_object_allocate c nm s = Some (a, s') \<Longrightarrow> tmlists s' = tmlists s"
  by (auto simp: rt_object_allocate_def rt_debug_not_in_interrupt_def k_malloc_def bind_eq_Some_conv
      Let_def split: if_splits)

lemma kinv_object_allocate:
  assumes op: "rt_object_allocate c nm s = Some (a, s')" and inv: "kinv s"
    and tm: "\<And>x. obj_at c a = Some (Timer_o x) \<Longrightarrow> onlist (tmlists s) x = None"
  shows "kinv s'"
  using op
proof (cases rule: rt_object_allocate_cases)
  case null
  then show ?thesis using inv by (metis kinv_upd)
next
  case (object x)
  have "wf_lists (obj_lists s')"
    using wf_l_insert_first [of "obj_lists s" c x] inv object(3)
    by (subst object(4)) (simp add: l_insert_first_Some kinv_def)
  moreover have "sched_inv s'" using inv by (subst object(4)) (simp add: kinv_def)
  moreover have "timer_ok (timer_flag s') (tmlists s)"
  proof (cases "\<exists>y. x = Timer_o y")
    case True
    then obtain y where y: "x = Timer_o y" by blast
    then have "timer_flag s' = (timer_flag s)(y := 0)"
      by (subst object(4)) (auto simp: fun_eq_iff)
    then show ?thesis
      using inv tm [of y] object(2) y by (simp add: kinv_def timer_inv_def timer_ok_flag)
  next
    case False
    then have "timer_flag s' = timer_flag s" by (subst object(4)) (auto simp: fun_eq_iff)
    then show ?thesis using inv by (simp add: kinv_def timer_inv_def)
  qed
  then have "timer_inv s'" unfolding timer_inv_def by (subst (2) object(4)) simp
  ultimately show ?thesis by (simp add: kinv_def)
qed

lemma kinv_object_delete:
  "rt_object_delete x s = Some s' \<Longrightarrow> kinv s \<Longrightarrow> kinv s'"
  using kinv_object_detach [of s x]
  by (auto simp: rt_object_delete_def rt_object_detach_def bind_eq_Some_conv intro: kinv_heap)

lemma kinv_unlink_timer: "kinv s \<Longrightarrow> kinv (s\<lparr>tmlists := l_remove x (tmlists s)\<rparr>)"
  by (simp add: kinv_def timer_inv_def timer_ok_remove)

lemma kinv_timer_delete: "rt_timer_delete x s = Some (r, s') \<Longrightarrow> kinv s \<Longrightarrow> kinv s'"
  by (auto simp: rt_timer_delete_def bind_eq_Some_conv intro: kinv_object_delete kinv_unlink_timer)

lemma kinv_tinit:
  assumes op: "timer_init x func param time flag s = Some s'" and inv: "kinv s"
  shows "kinv s'"
proof -
  have "onlist (tmlists s) x = None"
    using op by (auto simp: timer_init_def l_init_node_def Let_def split: if_splits)
  then show ?thesis
    using op inv
    by (auto simp: timer_init_def l_init_node_def Let_def kinv_def timer_inv_def intro: timer_ok_flag)
qed

lemma kinv_timer_create:
  assumes op: "rt_timer_create nm func param time flag s = Some (a, s')" and inv: "kinv s"
  shows "kinv s'"
proof -
  from op obtain s1 where al: "rt_object_allocate RT_Object_Class_Timer nm s = Some (a, s1)"
    and s': "a = 0 \<and> s' = s1 \<or> timer_init (Timer a) func param time flag s1 = Some s'"
    by (auto simp: rt_timer_create_def bind_eq_Some_conv split: if_splits)
  show ?thesis
  proof (cases "a = 0")
    case True
    from al have "s1 = s\<lparr>kheap := kheap s1\<rparr>"
      by (cases rule: rt_object_allocate_cases) (use True in simp_all)
    then have "kinv s1" using inv by (metis kinv_upd)
    then show ?thesis using s' kinv_tinit by blast
  next
    case False
    with s' have ti: "timer_init (Timer a) func param time flag s1 = Some s'" by simp
    have "tmlists s1 = tmlists s"
      using al by (rule object_allocate_tm)
    then have "onlist (tmlists s) (Timer a) = None"
      using ti by (auto simp: timer_init_def l_init_node_def Let_def split: if_splits)
    then have "kinv s1" by (intro kinv_object_allocate [OF al inv]) simp
    with ti show ?thesis by (rule kinv_tinit)
  qed
qed

lemma kinv_thread_create:
  assumes op: "rt_thread_create nm ent param sz pr tick s = Some (a, s')" and inv: "kinv s"
  shows "kinv s'"
proof -
  from op obtain b s1 where al: "rt_object_allocate RT_Object_Class_Thread nm s = Some (b, s1)"
    and rest: "s' = s1 \<or> (\<exists>st s2. k_malloc sz s1 = Some (st, s2) \<and>
      (rt_object_delete (Thread_o b) s2 = Some s' \<or>
       (\<exists>e. thread_init b ent param (of_nat st) sz pr tick s2 = Some (e, s'))))"
    by (auto simp: rt_thread_create_def bind_eq_Some_conv split: if_splits)
  have "kinv s1" by (rule kinv_object_allocate [OF al inv]) simp
  then show ?thesis using rest kinv_heap kinv_object_delete kinv_thread_init by blast
qed

lemma kinv_idle:
  assumes op: "rt_thread_idle_excute cl s = Some s'" and inv: "kinv s"
    and cl: "\<And>f t s s'. kinv s \<Longrightarrow> cl f t s = Some s' \<Longrightarrow> kinv s'"
  shows "kinv s'"
proof (cases "elems (tlists s) Defunct")
  case Nil
  with op inv show ?thesis by (simp add: rt_thread_idle_excute_def)
next
  case (Cons t ts)
  have on: "onlist (tlists s) t = Some Defunct"
    using Cons inv wf_listsD(2) [of "tlists s" t Defunct]
    by (auto simp: kinv_def sched_inv_def dest: sched_but_wf)
  then have "stat (threads s t) = RT_THREAD_CLOSE"
    using kinv_thread_ok [OF inv, of t] by (cases "stat (threads s t)") (auto simp: thread_ok_def)
  moreover have "sched_but {t} (threads s) (l_remove t (tlists s)) (rt_thread_ready_priority_group s)"
    using inv on by (intro sched_but_unlink) (auto simp: kinv_def sched_inv_def elim: sched_but_mono)
  ultimately have "sched_inv (s\<lparr>tlists := l_remove t (tlists s)\<rparr>)"
    unfolding sched_inv_def by (simp add: sched_but_close thread_ok_def)
  then have k: "kinv (s\<lparr>tlists := l_remove t (tlists s)\<rparr>)" using inv by (simp add: kinv_def)
  from op Cons obtain s1 where
    s1: "s1 = s\<lparr>tlists := l_remove t (tlists s)\<rparr> \<or> (\<exists>f. cl f t (s\<lparr>tlists := l_remove t (tlists s)\<rparr>) = Some s1)"
    and s': "s' = s1 \<or> (\<exists>s2 a. k_free a s1 = Some s2 \<and> rt_object_delete (Thread_o t) s2 = Some s')"
    by (auto simp: rt_thread_idle_excute_def rt_debug_not_in_interrupt_def bind_eq_Some_conv Let_def
        split: option.splits if_splits)
  have "kinv s1" using s1 k cl by blast
  then show ?thesis using s' kinv_heap kinv_object_delete by blast
qed

end
