(* ===== verification/Ipc_Base.thy ===== *)
theory Ipc_Base
  imports Object_Heap
begin

text \<open>
  The helpers at the start of \<^verbatim>\<open>src/ipc.c\<close>: suspending a thread on the list of an IPC
  object, in order of arrival or of priority, and resuming the first or all of them.

  A blocking operation is cut at its call of \<^verbatim>\<open>rt_schedule\<close>. Its first part either returns
  (\<open>Returned\<close>) or ends in the state after the switch to another thread, with what its
  thread remembers (\<open>Blocked\<close>); the second part (\<open>_resumed\<close>) is run by the thread when it
  is switched to again. Waiting times are signed 32-bit numbers.
\<close>

subsection \<open>Operations\<close>

datatype ('r, 'c) outcome = Returned 'r | Blocked 'c

text \<open>The first thread of a list that a new thread goes before.\<close>

fun prio_position :: "(tid \<Rightarrow> rt_thread) \<Rightarrow> u8 \<Rightarrow> tid list \<Rightarrow> tid option" where
  "prio_position T pr [] = None"
| "prio_position T pr (t # ts) =
     (if pr < current_priority (T t) then Some t else prio_position T pr ts)"

definition rt_ipc_list_suspend :: "t_head \<Rightarrow> tid \<Rightarrow> u8 \<Rightarrow> kstate \<Rightarrow> (rt_err_t \<times> kstate) option" where
  "rt_ipc_list_suspend h t flag s = do {
     (_, s) \<leftarrow> rt_thread_suspend t s;
     s \<leftarrow> (if flag = RT_IPC_FLAG_FIFO then on_tlists (l_insert_last h t) s
          else if flag = RT_IPC_FLAG_PRIO then
            (case prio_position (threads s) (current_priority (threads s t)) (elems (tlists s) h) of
               Some n \<Rightarrow> on_tlists (l_insert_before n t) s
             | None \<Rightarrow> on_tlists (l_insert_last h t) s)
          else Some s);
     Some (RT_EOK, s)
   }"

definition rt_ipc_list_resume :: "t_head \<Rightarrow> kstate \<Rightarrow> (rt_err_t \<times> kstate) option" where
  "rt_ipc_list_resume h s =
     (case elems (tlists s) h of
        [] \<Rightarrow> None
      | t # _ \<Rightarrow> do {
          (_, s) \<leftarrow> rt_thread_resume t s;
          Some (RT_EOK, s)
        })"

partial_function (option) rt_ipc_list_resume_all :: "t_head \<Rightarrow> kstate \<Rightarrow> (rt_err_t \<times> kstate) option" where
  "rt_ipc_list_resume_all h s =
     (case elems (tlists s) h of
        [] \<Rightarrow> Some (RT_EOK, s)
      | t # _ \<Rightarrow>
          Option.bind (rt_thread_resume t (upd_thread t (\<lambda>r. r\<lparr>th_error := - RT_ERROR\<rparr>) s))
            (\<lambda>(_, s). rt_ipc_list_resume_all h s))"

text \<open>The start of a wait with a time limit, the same in all objects: no limit when the time is
  negative.\<close>

definition ipc_start_timer :: "tid \<Rightarrow> u32 \<Rightarrow> kstate \<Rightarrow> kstate option" where
  "ipc_start_timer t time s =
     (if sint time > 0 then do {
        let (_, _, s) = rt_timer_control (Thread_timer t) RT_TIMER_CTRL_SET_TIME time s;
        (_, s) \<leftarrow> rt_timer_start (Thread_timer t) s;
        Some s
      } else Some s)"

definition ipc_wait :: "t_head \<Rightarrow> tid \<Rightarrow> u8 \<Rightarrow> u32 \<Rightarrow> kstate \<Rightarrow> kstate option" where
  "ipc_wait h t flag time s = do {
     (_, s) \<leftarrow> rt_ipc_list_suspend h t flag s;
     ipc_start_timer t time s
   }"

subsection \<open>The order of a waiting list\<close>

definition prio_sorted :: "(tid \<Rightarrow> rt_thread) \<Rightarrow> tid list \<Rightarrow> bool" where
  "prio_sorted T ts \<longleftrightarrow> sorted (map (\<lambda>t. current_priority (T t)) ts)"

abbreviation not_behind :: "(tid \<Rightarrow> rt_thread) \<Rightarrow> u8 \<Rightarrow> tid \<Rightarrow> bool" where
  "not_behind T pr t \<equiv> \<not> pr < current_priority (T t)"

text \<open>The place of a thread under either flag.\<close>

definition wait_insert :: "u8 \<Rightarrow> (tid \<Rightarrow> rt_thread) \<Rightarrow> tid \<Rightarrow> tid list \<Rightarrow> tid list" where
  "wait_insert flag T t ts =
     (if flag = RT_IPC_FLAG_PRIO
      then takeWhile (not_behind T (current_priority (T t))) ts @
           t # dropWhile (not_behind T (current_priority (T t))) ts
      else ts @ [t])"

lemma prio_position_split:
  "prio_position T pr ts = Some n \<Longrightarrow>
     ts = takeWhile (not_behind T pr) ts @ n # tl (dropWhile (not_behind T pr) ts)"
  by (induction ts) (auto split: if_splits)

lemma prio_position_None:
  "prio_position T pr ts = None \<longleftrightarrow> (\<forall>t \<in> set ts. not_behind T pr t)"
  by (induction ts) auto

lemma prio_insert_Some:
  assumes wf: "wf_lists L"
  shows "(case prio_position T pr (elems L h) of
        Some n \<Rightarrow> l_insert_before n t L | None \<Rightarrow> l_insert_last h t L) = Some L' \<longleftrightarrow>
    onlist L t = None \<and>
    L' = L\<lparr>elems := (elems L)(h := takeWhile (not_behind T pr) (elems L h) @
              t # dropWhile (not_behind T pr) (elems L h)),
           onlist := (onlist L)(t \<mapsto> h)\<rparr>"
proof (cases "prio_position T pr (elems L h)")
  case None
  then have "takeWhile (not_behind T pr) (elems L h) @ t # dropWhile (not_behind T pr) (elems L h)
      = elems L h @ [t]"
    by (simp add: prio_position_None takeWhile_eq_all_conv [THEN iffD2] dropWhile_eq_Nil_conv [THEN iffD2])
  with None show ?thesis by (simp only: l_insert_last_Some option.case)
next
  case (Some n)
  define ys where "ys = takeWhile (not_behind T pr) (elems L h)"
  define zs where "zs = dropWhile (not_behind T pr) (elems L h)"
  have eq: "elems L h = ys @ n # tl zs" "elems L h = ys @ zs"
    using prio_position_split [OF Some] by (simp_all add: ys_def zs_def)
  then have zs: "zs = n # tl zs" by (metis same_append_eq)
  show ?thesis
    unfolding Some option.case ys_def [symmetric] zs_def [symmetric]
    using l_insert_before_at [OF wf eq(1), of t L'] zs by simp
qed
subsection \<open>The helpers keep the invariant\<close>

lemma kinv_link:
  assumes inv: "kinv s" and st: "stat (threads s t) = RT_THREAD_SUSPEND" and h: "is_wait h"
    and wf: "wf_lists L" and L: "elems L = (elems (tlists s))(h := xs)" "onlist L = (onlist (tlists s))(t \<mapsto> h)"
  shows "kinv (s\<lparr>tlists := L\<rparr>)"
proof -
  have "sched_but {t} (threads s) (tlists s) (rt_thread_ready_priority_group s)"
    using inv by (auto simp: kinv_def sched_inv_def elim: sched_but_mono)
  then have "sched_but {t} (threads s) L (rt_thread_ready_priority_group s)"
    using h by (intro sched_but_link [OF _ _ wf _ L]) auto
  moreover have "thread_ok (threads s t) (onlist L t)"
    using kinv_thread_ok [OF inv, of t] st h by (simp add: thread_ok_def L)
  ultimately have "sched_inv (s\<lparr>tlists := L\<rparr>)" by (simp add: sched_inv_def sched_but_close)
  then show ?thesis using inv by (simp add: kinv_def)
qed

lemma thread_suspend_ready:
  assumes op: "rt_thread_suspend t s = Some (r, s')" and inv: "kinv s"
    and st: "stat (threads s t) = RT_THREAD_READY"
  shows "threads s' = (threads s)(t := (threads s t)\<lparr>stat := RT_THREAD_SUSPEND\<rparr>)"
    "onlist (tlists s') t = None" "timers s' = timers s" "tmlists s' = tmlists s" "objs s' = objs s"
    "rt_tick s' = rt_tick s" "is_wait h \<Longrightarrow> elems (tlists s') h = elems (tlists s) h"
    "rt_current_thread s' = rt_current_thread s"
proof -
  have wf: "wf_lists (tlists s)" using inv by (auto simp: kinv_def sched_inv_def dest: sched_but_wf)
  have "t \<notin> set (elems (tlists s) h)" if "is_wait h"
    using kinv_thread_ok [OF inv, of t] st that wf_listsD(2) [OF wf, of t h]
    by (auto simp: thread_ok_def)
  then show "is_wait h \<Longrightarrow> elems (tlists s') h = elems (tlists s) h"
    using op st
    by (auto simp: rt_thread_suspend_Some rt_schedule_remove_thread_Some elems_l_remove [OF wf] remove1_idem)
qed (use op st in \<open>auto simp: rt_thread_suspend_Some rt_schedule_remove_thread_Some\<close>)

lemma list_suspend:
  assumes op: "rt_ipc_list_suspend h t flag s = Some (r, s')" and inv: "kinv s"
    and st: "stat (threads s t) = RT_THREAD_READY" and h: "is_wait h"
  shows "kinv s'" and "threads s' = (threads s)(t := (threads s t)\<lparr>stat := RT_THREAD_SUSPEND\<rparr>)"
    and "timers s' = timers s" "tmlists s' = tmlists s" "objs s' = objs s" "rt_tick s' = rt_tick s"
    and "rt_current_thread s' = rt_current_thread s"
    and "flag = RT_IPC_FLAG_FIFO \<or> flag = RT_IPC_FLAG_PRIO \<Longrightarrow>
      elems (tlists s') h = wait_insert flag (threads s) t (elems (tlists s) h) \<and>
      onlist (tlists s') t = Some h"
proof -
  from op obtain e s1 where sus: "rt_thread_suspend t s = Some (e, s1)"
    and s': "s' = s1 \<and> flag \<noteq> RT_IPC_FLAG_FIFO \<and> flag \<noteq> RT_IPC_FLAG_PRIO \<or>
      (flag = RT_IPC_FLAG_FIFO \<and> on_tlists (l_insert_last h t) s1 = Some s') \<or>
      (flag = RT_IPC_FLAG_PRIO \<and> flag \<noteq> RT_IPC_FLAG_FIFO \<and>
       on_tlists (\<lambda>L. case prio_position (threads s1) (current_priority (threads s1 t)) (elems (tlists s1) h) of
               Some n \<Rightarrow> l_insert_before n t L | None \<Rightarrow> l_insert_last h t L) s1 = Some s')"
    by (auto simp: rt_ipc_list_suspend_def bind_eq_Some_conv split: if_splits option.splits)
  note u = thread_suspend_ready [OF sus inv st]
  have k1: "kinv s1" by (rule kinv_suspend [OF sus inv])
  then have wf: "wf_lists (tlists s1)" by (auto simp: kinv_def sched_inv_def dest: sched_but_wf)
  have pr: "not_behind (threads s1) (current_priority (threads s1 t)) =
      not_behind (threads s) (current_priority (threads s t))"
    by (auto simp: u(1) fun_eq_iff)
  have "s' = s1 \<and> flag \<noteq> RT_IPC_FLAG_FIFO \<and> flag \<noteq> RT_IPC_FLAG_PRIO \<or>
    (\<exists>L. s' = s1\<lparr>tlists := L\<rparr> \<and> wf_lists L \<and>
      elems L = (elems (tlists s1))(h := wait_insert flag (threads s) t (elems (tlists s) h)) \<and>
      onlist L = (onlist (tlists s1))(t \<mapsto> h))"
  proof (cases "flag = RT_IPC_FLAG_FIFO")
    case True
    then obtain L where L: "l_insert_last h t (tlists s1) = Some L" "s' = s1\<lparr>tlists := L\<rparr>"
      using s' by auto
    moreover have "flag \<noteq> RT_IPC_FLAG_PRIO" using True by (simp add: RT_IPC_FLAG_FIFO_def RT_IPC_FLAG_PRIO_def)
    ultimately show ?thesis
      using wf_l_insert_last [OF wf L(1)] u(7) [OF h]
      by (auto simp: l_insert_last_Some wait_insert_def)
  next
    case False
    show ?thesis
    proof (cases "flag = RT_IPC_FLAG_PRIO")
      case prio: True
      then obtain L where L: "(case prio_position (threads s1) (current_priority (threads s1 t)) (elems (tlists s1) h) of
               Some n \<Rightarrow> l_insert_before n t (tlists s1) | None \<Rightarrow> l_insert_last h t (tlists s1)) = Some L"
        "s' = s1\<lparr>tlists := L\<rparr>"
        using s' False by auto
      have "wf_lists L" using L(1) wf by (auto split: option.splits dest: wf_lists_ops)
      then show ?thesis
        using L u(7) [OF h] prio unfolding prio_insert_Some [OF wf] pr by (auto simp: wait_insert_def)
    qed (use s' False in blast)
  qed
  then consider (none) "s' = s1" "flag \<noteq> RT_IPC_FLAG_FIFO" "flag \<noteq> RT_IPC_FLAG_PRIO"
    | (link) L where "s' = s1\<lparr>tlists := L\<rparr>" "wf_lists L"
      "elems L = (elems (tlists s1))(h := wait_insert flag (threads s) t (elems (tlists s) h))"
      "onlist L = (onlist (tlists s1))(t \<mapsto> h)" by blast
  note c = this
  show "kinv s'"
    using c
  proof cases
    case link
    then show ?thesis using kinv_link [OF k1 _ h link(2-4)] u(1) by simp
  qed (use k1 in simp)
  show "threads s' = (threads s)(t := (threads s t)\<lparr>stat := RT_THREAD_SUSPEND\<rparr>)"
    "timers s' = timers s" "tmlists s' = tmlists s" "objs s' = objs s" "rt_tick s' = rt_tick s"
    "rt_current_thread s' = rt_current_thread s"
    by (use c in \<open>cases; simp add: u(1-6,8)\<close>)+
  show "elems (tlists s') h = wait_insert flag (threads s) t (elems (tlists s) h) \<and> onlist (tlists s') t = Some h"
    if "flag = RT_IPC_FLAG_FIFO \<or> flag = RT_IPC_FLAG_PRIO"
    using c that by cases auto
qed

text \<open>The order by priority is kept, and a thread goes behind those of its own priority.\<close>

lemma prio_sorted_Cons:
  "prio_sorted T (u # us) \<longleftrightarrow>
     (\<forall>v \<in> set us. current_priority (T u) \<le> current_priority (T v)) \<and> prio_sorted T us"
  by (simp add: prio_sorted_def)

lemma wait_insert_Cons:
  "wait_insert RT_IPC_FLAG_PRIO T t (u # us) =
     (if not_behind T (current_priority (T t)) u then u # wait_insert RT_IPC_FLAG_PRIO T t us else t # u # us)"
  by (simp add: wait_insert_def)

lemma set_wait_insert [simp]: "set (wait_insert flag T t ts) = insert t (set ts)"
proof (cases "flag = RT_IPC_FLAG_PRIO")
  case True
  show ?thesis
    unfolding wait_insert_def if_P [OF True] by (rule takeWhile_dropWhile_insert_mem)
qed (simp add: wait_insert_def)

lemma prio_sorted_insert:
  "prio_sorted T ts \<Longrightarrow> prio_sorted T (wait_insert RT_IPC_FLAG_PRIO T t ts)"
proof (induction ts)
  case Nil
  then show ?case by (simp add: prio_sorted_def wait_insert_def)
next
  case (Cons u us)
  then show ?case by (fastforce simp: prio_sorted_Cons wait_insert_Cons not_less)
qed

lemma kinv_start_timer:
  "ipc_start_timer t time s = Some s' \<Longrightarrow> kinv s \<Longrightarrow> kinv s'"
  using kinv_timer_control [of s "Thread_timer t" RT_TIMER_CTRL_SET_TIME time]
  by (auto simp: ipc_start_timer_def bind_eq_Some_conv split_beta split: if_splits intro: kinv_timer_start)

lemma kinv_wait:
  assumes "ipc_wait h t flag time s = Some s'" "kinv s" "stat (threads s t) = RT_THREAD_READY" "is_wait h"
  shows "kinv s'"
proof -
  from assms(1) obtain e s1 where "rt_ipc_list_suspend h t flag s = Some (e, s1)"
    "ipc_start_timer t time s1 = Some s'" by (auto simp: ipc_wait_def bind_eq_Some_conv)
  then show ?thesis using list_suspend(1) [OF _ assms(2-4)] kinv_start_timer by blast
qed

lemma kinv_list_resume:
  "rt_ipc_list_resume h s = Some (r, s') \<Longrightarrow> kinv s \<Longrightarrow> kinv s'"
  by (auto simp: rt_ipc_list_resume_def bind_eq_Some_conv split: list.splits intro: kinv_resume)

lemma kinv_error: "kinv s \<Longrightarrow> kinv (upd_thread t (\<lambda>r. r\<lparr>th_error := e\<rparr>) s)"
  using kinv_thread_ok [of s t] by (intro kinv_thread) simp_all

lemma wait_thread:
  assumes inv: "kinv s" and h: "is_wait h" and t: "t \<in> set (elems (tlists s) h)"
  shows "stat (threads s t) = RT_THREAD_SUSPEND"
proof -
  have "onlist (tlists s) t = Some h"
    using inv t wf_listsD(2) [of "tlists s" t h] by (auto simp: kinv_def sched_inv_def dest: sched_but_wf)
  then show ?thesis using kinv_thread_ok [OF inv, of t] h
    by (cases "stat (threads s t)") (auto simp: thread_ok_def)
qed

lemma thread_resume_suspended:
  assumes op: "rt_thread_resume t s = Some (r, s')" and inv: "kinv s"
    and st: "stat (threads s t) = RT_THREAD_SUSPEND" and h: "is_wait h"
  shows "elems (tlists s') h = remove1 t (elems (tlists s) h)"
    "threads s' = (threads s)(t := (threads s t)\<lparr>stat := RT_THREAD_READY\<rparr>)"
proof -
  have wf: "wf_lists (tlists s)" using inv by (auto simp: kinv_def sched_inv_def dest: sched_but_wf)
  show "elems (tlists s') h = remove1 t (elems (tlists s) h)"
    "threads s' = (threads s)(t := (threads s t)\<lparr>stat := RT_THREAD_READY\<rparr>)"
    using op st h by (auto simp: rt_thread_resume_Some rt_schedule_insert_thread_Some elems_l_remove [OF wf])
qed

text \<open>Resuming all threads of a list returns, leaves the list empty, and makes each of them
  ready with an error.\<close>

lemma resume_all:
  assumes "kinv s" "is_wait h"
  shows "\<exists>s'. rt_ipc_list_resume_all h s = Some (RT_EOK, s') \<and> kinv s' \<and> elems (tlists s') h = [] \<and>
    (\<forall>t. threads s' t = (if t \<in> set (elems (tlists s) h)
       then (threads s t)\<lparr>th_error := - RT_ERROR, stat := RT_THREAD_READY\<rparr> else threads s t))"
  using assms
proof (induction "elems (tlists s) h" arbitrary: s)
  case Nil
  then show ?case by (intro exI [of _ s]) (subst rt_ipc_list_resume_all.simps, simp)
next
  case (Cons t ts)
  let ?s = "upd_thread t (\<lambda>r. r\<lparr>th_error := - RT_ERROR\<rparr>) s"
  have k: "kinv ?s" using Cons.prems(1) by (rule kinv_error)
  have st: "stat (threads ?s t) = RT_THREAD_SUSPEND"
    using wait_thread [OF Cons.prems, of t] Cons.hyps(2) [symmetric] by simp
  obtain s1 where r: "rt_thread_resume t ?s = Some (RT_EOK, s1)"
    using rt_thread_resume_total [OF k st] by blast
  note u = thread_resume_suspended [OF r k st Cons.prems(2)]
  have "ts = elems (tlists s1) h" using u(1) Cons.hyps(2) [symmetric] by simp
  then obtain s2 where s2: "rt_ipc_list_resume_all h s1 = Some (RT_EOK, s2)" "kinv s2" "elems (tlists s2) h = []"
    "\<forall>u. threads s2 u = (if u \<in> set ts
       then (threads s1 u)\<lparr>th_error := - RT_ERROR, stat := RT_THREAD_READY\<rparr> else threads s1 u)"
    using Cons.hyps(1) [of s1] kinv_resume [OF r k] Cons.prems(2) by auto
  have "rt_ipc_list_resume_all h s = Some (RT_EOK, s2)"
    using Cons.hyps(2) [symmetric] r s2(1) by (subst rt_ipc_list_resume_all.simps) simp
  moreover have "threads s2 u = (if u \<in> set (elems (tlists s) h)
       then (threads s u)\<lparr>th_error := - RT_ERROR, stat := RT_THREAD_READY\<rparr> else threads s u)" for u
    using s2(4) u(2) Cons.hyps(2) [symmetric] by auto
  ultimately show ?case using s2(2,3) by blast
qed

lemma kinv_resume_all:
  "rt_ipc_list_resume_all h s = Some (r, s') \<Longrightarrow> kinv s \<Longrightarrow> is_wait h \<Longrightarrow> kinv s'"
  using resume_all [of s h] by auto

text \<open>Objects other than timers, and the thread that calls.\<close>

lemma kinv_objs:
  assumes "kinv s" "\<And>y. o_flag (Ob (Timer_o y)) = timer_flag s y"
  shows "kinv (s\<lparr>objs := Ob\<rparr>)"
  using assms by (simp add: kinv_def timer_inv_def)

definition self_ready :: "kstate \<Rightarrow> bool" where
  "self_ready s \<longleftrightarrow> (\<forall>t. rt_current_thread s = Some t \<longrightarrow> stat (threads s t) = RT_THREAD_READY)"

lemma self_readyD: "self_ready s \<Longrightarrow> rt_thread_self s = Some t \<Longrightarrow> stat (threads s t) = RT_THREAD_READY"
  by (simp add: self_ready_def rt_thread_self_def)

lemma kinv_ipc_allocate:
  assumes "rt_object_allocate c nm s = Some (a, s')" "kinv s" "c \<noteq> RT_Object_Class_Timer"
  shows "kinv s'"
  using assms(3) by (intro kinv_object_allocate [OF assms(1,2)]) (cases c; simp)

subsection \<open>What a wait does\<close>

text \<open>A timer of the hard list is started without touching the threads.\<close>

lemma timer_start_hard:
  assumes op: "rt_timer_start x s = Some (r, s')" and inv: "kinv s"
    and soft: "timer_flag s x AND RT_TIMER_FLAG_SOFT_TIMER = 0"
  shows "threads s' = threads s" "tlists s' = tlists s" "rt_current_thread s' = rt_current_thread s"
    and "timer_flag s x AND RT_TIMER_FLAG_ACTIVATED = 0 \<Longrightarrow>
      onlist (tmlists s') x = Some Hard_timers \<and>
      timeout_tick (timers s' x) = rt_tick s + tm_init_tick (timers s x)"
proof -
  let ?s = "upd_timer x (\<lambda>r. r\<lparr>timeout_tick := rt_tick s + tm_init_tick r\<rparr>) s"
  have "r = - RT_ERROR \<and> s' = s \<and> timer_flag s x AND RT_TIMER_FLAG_ACTIVATED \<noteq> 0 \<or>
    timer_flag s x AND RT_TIMER_FLAG_ACTIVATED = 0 \<and>
    (\<exists>s1. timer_insert Hard_timers x ?s = Some s1 \<and>
      s' = upd_obj (Timer_o x) (\<lambda>r. r\<lparr>o_flag := o_flag r OR RT_TIMER_FLAG_ACTIVATED\<rparr>) s1)"
  proof (cases "timer_flag s x AND RT_TIMER_FLAG_ACTIVATED = 0")
    case True
    from op True obtain s1 where s1: "timer_insert Hard_timers x ?s = Some s1"
      by (auto simp: rt_timer_start_def rt_tick_get_def soft bind_eq_Some_conv Let_def)
    then have "objs s1 = objs s" using kinv_wf_tm [OF inv] by (simp add: timer_insert_Some)
    then show ?thesis using op True s1
      by (auto simp: rt_timer_start_def rt_tick_get_def soft bind_eq_Some_conv Let_def)
  qed (use op in \<open>simp add: rt_timer_start_def\<close>)
  then show "threads s' = threads s" "tlists s' = tlists s" "rt_current_thread s' = rt_current_thread s"
    "timer_flag s x AND RT_TIMER_FLAG_ACTIVATED = 0 \<Longrightarrow>
      onlist (tmlists s') x = Some Hard_timers \<and>
      timeout_tick (timers s' x) = rt_tick s + tm_init_tick (timers s x)"
    using kinv_wf_tm [OF inv] by (auto simp: timer_insert_Some)
qed

definition hard_timer :: "kstate \<Rightarrow> tid \<Rightarrow> bool" where
  "hard_timer s t \<longleftrightarrow> timer_flag s (Thread_timer t) AND RT_TIMER_FLAG_SOFT_TIMER = 0"

lemma start_timer_lists:
  assumes tm: "ipc_start_timer t time s = Some s'" and inv: "kinv s" and hard: "hard_timer s t"
  shows "threads s' = threads s \<and> tlists s' = tlists s"
proof (cases "sint time > 0")
  case True
  let ?c = "snd (snd (rt_timer_control (Thread_timer t) RT_TIMER_CTRL_SET_TIME time s))"
  have k: "kinv ?c" by (rule kinv_timer_control [OF inv])
  have c: "threads ?c = threads s" "tlists ?c = tlists s" "objs ?c = objs s"
    by (simp_all add: rt_timer_control_def timer_ctrls)
  from True obtain e2 where st: "rt_timer_start (Thread_timer t) ?c = Some (e2, s')"
    using tm by (auto simp: ipc_start_timer_def bind_eq_Some_conv split_beta)
  show ?thesis using timer_start_hard [OF st k] hard c by (simp add: hard_timer_def)
qed (use tm in \<open>simp add: ipc_start_timer_def\<close>)

lemma ipc_wait_threads:
  assumes op: "ipc_wait h t flag time s = Some s'" and inv: "kinv s"
    and st: "stat (threads s t) = RT_THREAD_READY" and h: "is_wait h"
    and flag: "flag = RT_IPC_FLAG_FIFO \<or> flag = RT_IPC_FLAG_PRIO" and hard: "hard_timer s t"
  shows "threads s' = (threads s)(t := (threads s t)\<lparr>stat := RT_THREAD_SUSPEND\<rparr>)"
    and "elems (tlists s') h = wait_insert flag (threads s) t (elems (tlists s) h)"
    and "onlist (tlists s') t = Some h" and "rt_current_thread s' = rt_current_thread s"
    and "sint time > 0 \<Longrightarrow> timer_flag s (Thread_timer t) AND RT_TIMER_FLAG_ACTIVATED = 0 \<Longrightarrow>
      onlist (tmlists s') (Thread_timer t) = Some Hard_timers \<and>
      timeout_tick (timers s' (Thread_timer t)) = rt_tick s + time"
proof -
  from op obtain e s1 where sus: "rt_ipc_list_suspend h t flag s = Some (e, s1)"
    and tm: "ipc_start_timer t time s1 = Some s'" by (auto simp: ipc_wait_def bind_eq_Some_conv)
  note l = list_suspend [OF sus inv st h]
  let ?c = "snd (snd (rt_timer_control (Thread_timer t) RT_TIMER_CTRL_SET_TIME time s1))"
  have c0: "kinv ?c" by (rule kinv_timer_control [OF l(1)])
  have c1: "threads ?c = threads s1" "tlists ?c = tlists s1" "tmlists ?c = tmlists s1"
    "objs ?c = objs s1" "rt_tick ?c = rt_tick s1" "rt_current_thread ?c = rt_current_thread s1"
    "tm_init_tick (timers ?c (Thread_timer t)) = time"
    by (simp_all add: rt_timer_control_def timer_ctrls)
  note c = c0 c1
  have "threads s' = threads s1 \<and> tlists s' = tlists s1 \<and> rt_current_thread s' = rt_current_thread s1 \<and>
    (sint time > 0 \<longrightarrow> timer_flag s (Thread_timer t) AND RT_TIMER_FLAG_ACTIVATED = 0 \<longrightarrow>
      onlist (tmlists s') (Thread_timer t) = Some Hard_timers \<and>
      timeout_tick (timers s' (Thread_timer t)) = rt_tick s + time)"
  proof (cases "sint time > 0")
    case True
    then obtain e2 where st: "rt_timer_start (Thread_timer t) ?c = Some (e2, s')"
      using tm by (auto simp: ipc_start_timer_def bind_eq_Some_conv split_beta)
    show ?thesis
      using timer_start_hard [OF st c(1)] hard c l(5,6) by (simp add: hard_timer_def)
  qed (use tm in \<open>simp add: ipc_start_timer_def\<close>)
  then show "threads s' = (threads s)(t := (threads s t)\<lparr>stat := RT_THREAD_SUSPEND\<rparr>)"
    "elems (tlists s') h = wait_insert flag (threads s) t (elems (tlists s) h)"
    "onlist (tlists s') t = Some h" "rt_current_thread s' = rt_current_thread s"
    "sint time > 0 \<Longrightarrow> timer_flag s (Thread_timer t) AND RT_TIMER_FLAG_ACTIVATED = 0 \<Longrightarrow>
      onlist (tmlists s') (Thread_timer t) = Some Hard_timers \<and>
      timeout_tick (timers s' (Thread_timer t)) = rt_tick s + time"
    using l(2,7) l(8) [OF flag] by auto
qed

text \<open>Scheduling changes neither the threads nor the lists.\<close>

lemma schedule_same:
  assumes "rt_schedule s = Some s'"
  shows "threads s' = threads s" "tlists s' = tlists s" "tmlists s' = tmlists s" "timers s' = timers s"
    "sems s' = sems s" "mutexes s' = mutexes s" "events s' = events s" "mailboxes s' = mailboxes s"
    "msgqueues s' = msgqueues s" "objs s' = objs s" "rt_tick s' = rt_tick s"
    "mempools s' = mempools s" "mp_mem s' = mp_mem s"
    "completions s' = completions s" "data_queues s' = data_queues s" "pipes s' = pipes s" "devices s' = devices s"
  using assms by (auto elim!: rt_scheduleE)

lemma list_resume_first:
  assumes op: "rt_ipc_list_resume h s = Some (r, s')" and inv: "kinv s" and h: "is_wait h"
  obtains t ts where "elems (tlists s) h = t # ts" "elems (tlists s') h = ts"
    "threads s' = (threads s)(t := (threads s t)\<lparr>stat := RT_THREAD_READY\<rparr>)"
    "stat (threads s t) = RT_THREAD_SUSPEND"
proof -
  from op obtain t ts e where t: "elems (tlists s) h = t # ts" and r: "rt_thread_resume t s = Some (e, s')"
    by (auto simp: rt_ipc_list_resume_def bind_eq_Some_conv split: list.splits)
  have st: "stat (threads s t) = RT_THREAD_SUSPEND" using wait_thread [OF inv h, of t] t by simp
  show ?thesis using thread_resume_suspended [OF r inv st h] t st by (intro that [of t ts]) simp_all
qed

text \<open>The data of the IPC objects is touched by none of the operations on threads and
  timers.\<close>

definition ipc_data where
  "ipc_data s = (sems s, mutexes s, events s, mailboxes s, msgqueues s, mempools s, mp_mem s,
    completions s, data_queues s, pipes s, devices s)"

lemma ipc_dataD:
  assumes "ipc_data s' = ipc_data s"
  shows "sems s' = sems s" "mutexes s' = mutexes s" "events s' = events s" "mailboxes s' = mailboxes s"
    "msgqueues s' = msgqueues s" "mempools s' = mempools s" "mp_mem s' = mp_mem s"
    "completions s' = completions s" "data_queues s' = data_queues s" "pipes s' = pipes s" "devices s' = devices s"
  using assms by (simp_all add: ipc_data_def)

lemma schedule_data: "rt_schedule s = Some s' \<Longrightarrow> ipc_data s' = ipc_data s"
  by (auto simp: ipc_data_def elim!: rt_scheduleE)

lemma resume_data: "rt_thread_resume t s = Some (r, s') \<Longrightarrow> ipc_data s' = ipc_data s"
  by (auto simp: ipc_data_def rt_thread_resume_Some rt_schedule_insert_thread_Some split: if_splits)

lemma suspend_data: "rt_thread_suspend t s = Some (r, s') \<Longrightarrow> ipc_data s' = ipc_data s"
  by (auto simp: ipc_data_def rt_thread_suspend_Some rt_schedule_remove_thread_Some split: if_splits)

lemma list_resume_data: "rt_ipc_list_resume h s = Some (r, s') \<Longrightarrow> ipc_data s' = ipc_data s"
  by (auto simp: rt_ipc_list_resume_def bind_eq_Some_conv split: list.splits dest: resume_data)

lemma list_suspend_data: "rt_ipc_list_suspend h t flag s = Some (r, s') \<Longrightarrow> ipc_data s' = ipc_data s"
  by (auto simp: rt_ipc_list_suspend_def bind_eq_Some_conv split: if_splits option.splits
      dest!: suspend_data) (auto simp: ipc_data_def)

lemma timer_start_data:
  assumes op: "rt_timer_start x s = Some (r, s')" and inv: "kinv s"
  shows "ipc_data s' = ipc_data s"
proof (cases "timer_flag s x AND RT_TIMER_FLAG_ACTIVATED = 0")
  case True
  from op True obtain s1 s2 where ins: "timer_insert
      (if timer_flag s x AND RT_TIMER_FLAG_SOFT_TIMER \<noteq> 0 then Soft_timers else Hard_timers) x
      (upd_timer x (\<lambda>r. r\<lparr>timeout_tick := rt_tick s + tm_init_tick r\<rparr>) s) = Some s1"
    and s2: "s2 = upd_obj (Timer_o x) (\<lambda>r. r\<lparr>o_flag := o_flag r OR RT_TIMER_FLAG_ACTIVATED\<rparr>) s1"
    and s': "s' = s2 \<or> (\<exists>t e s3. rt_thread_resume t s2 = Some (e, s3) \<and> rt_schedule s3 = Some s')"
    by (rule rt_timer_startE)
  have "ipc_data s2 = ipc_data s"
    using ins kinv_wf_tm [OF inv] by (simp add: s2 timer_insert_Some ipc_data_def)
  with s' show ?thesis using resume_data schedule_data by metis
qed (use op in \<open>simp add: rt_timer_start_def\<close>)

lemma start_timer_data:
  assumes tm: "ipc_start_timer t time s = Some s'" and inv: "kinv s"
  shows "ipc_data s' = ipc_data s"
proof -
  let ?c = "snd (snd (rt_timer_control (Thread_timer t) RT_TIMER_CTRL_SET_TIME time s))"
  have "ipc_data ?c = ipc_data s" by (simp add: rt_timer_control_def timer_ctrls ipc_data_def)
  moreover have "kinv ?c" by (rule kinv_timer_control [OF inv])
  ultimately show ?thesis
    using tm by (auto simp: ipc_start_timer_def bind_eq_Some_conv split_beta split: if_splits dest: timer_start_data)
qed

lemma wait_data:
  assumes op: "ipc_wait h t flag time s = Some s'" and inv: "kinv s"
    and st: "stat (threads s t) = RT_THREAD_READY" and h: "is_wait h"
  shows "ipc_data s' = ipc_data s"
proof -
  from op obtain e s1 where sus: "rt_ipc_list_suspend h t flag s = Some (e, s1)"
    and tm: "ipc_start_timer t time s1 = Some s'" by (auto simp: ipc_wait_def bind_eq_Some_conv)
  show ?thesis
    using start_timer_data [OF tm list_suspend(1) [OF sus inv st h]] list_suspend_data [OF sus] by simp
qed

lemma resume_prio:
  "rt_thread_resume t s = Some (r, s') \<Longrightarrow> current_priority (threads s' v) = current_priority (threads s v)"
  by (auto simp: rt_thread_resume_Some rt_schedule_insert_thread_Some split: if_splits)

lemma timer_start_prio:
  assumes op: "rt_timer_start x s = Some (r, s')" and inv: "kinv s"
  shows "current_priority (threads s' v) = current_priority (threads s v)"
proof (cases "timer_flag s x AND RT_TIMER_FLAG_ACTIVATED = 0")
  case True
  from op True obtain s1 s2 where ins: "timer_insert
      (if timer_flag s x AND RT_TIMER_FLAG_SOFT_TIMER \<noteq> 0 then Soft_timers else Hard_timers) x
      (upd_timer x (\<lambda>r. r\<lparr>timeout_tick := rt_tick s + tm_init_tick r\<rparr>) s) = Some s1"
    and s2: "s2 = upd_obj (Timer_o x) (\<lambda>r. r\<lparr>o_flag := o_flag r OR RT_TIMER_FLAG_ACTIVATED\<rparr>) s1"
    and s': "s' = s2 \<or> (\<exists>t e s3. rt_thread_resume t s2 = Some (e, s3) \<and> rt_schedule s3 = Some s')"
    by (rule rt_timer_startE)
  have "threads s2 = threads s"
    using ins kinv_wf_tm [OF inv] by (simp add: s2 timer_insert_Some)
  with s' show ?thesis using resume_prio schedule_same(1) by metis
qed (use op in \<open>simp add: rt_timer_start_def\<close>)

lemma wait_prio:
  assumes op: "ipc_wait h t flag time s = Some s'" and inv: "kinv s"
    and st: "stat (threads s t) = RT_THREAD_READY" and h: "is_wait h"
  shows "current_priority (threads s' v) = current_priority (threads s v)"
proof -
  from op obtain e s1 where sus: "rt_ipc_list_suspend h t flag s = Some (e, s1)"
    and tm: "ipc_start_timer t time s1 = Some s'" by (auto simp: ipc_wait_def bind_eq_Some_conv)
  let ?c = "snd (snd (rt_timer_control (Thread_timer t) RT_TIMER_CTRL_SET_TIME time s1))"
  have "threads ?c = threads s1" by (simp add: rt_timer_control_def timer_ctrls)
  moreover have "kinv ?c" by (rule kinv_timer_control [OF list_suspend(1) [OF sus inv st h]])
  ultimately have "current_priority (threads s' v) = current_priority (threads s1 v)"
    using tm by (auto simp: ipc_start_timer_def bind_eq_Some_conv split_beta split: if_splits dest: timer_start_prio)
  then show ?thesis using list_suspend(2) [OF sus inv st h] by simp
qed

lemma resume_all_data:
  assumes "rt_ipc_list_resume_all h s = Some (r, s')"
  shows "ipc_data s' = ipc_data s"
proof -
  have "\<forall>r s'. y = (r, s') \<longrightarrow> ipc_data s' = ipc_data s" if "rt_ipc_list_resume_all h s = Some y" for y
    using that
  proof (rule rt_ipc_list_resume_all.raw_induct [rotated])
    fix f h s y
    assume IH: "\<And>h s y. f h s = Some y \<Longrightarrow> \<forall>r s'. y = (r, s') \<longrightarrow> ipc_data s' = ipc_data s"
      and step: "(case elems (tlists s) h of [] \<Rightarrow> Some (RT_EOK, s)
        | t # _ \<Rightarrow> Option.bind (rt_thread_resume t (upd_thread t (\<lambda>r. r\<lparr>th_error := - RT_ERROR\<rparr>) s))
            (\<lambda>(_, s). f h s)) = Some y"
    show "\<forall>r s'. y = (r, s') \<longrightarrow> ipc_data s' = ipc_data s"
    proof (cases "elems (tlists s) h")
      case (Cons t ts)
      then obtain e s1 where "rt_thread_resume t (upd_thread t (\<lambda>r. r\<lparr>th_error := - RT_ERROR\<rparr>) s) = Some (e, s1)"
        "f h s1 = Some y"
        using step by (auto simp: bind_eq_Some_conv)
      then have "ipc_data s1 = ipc_data s" "\<forall>r s'. y = (r, s') \<longrightarrow> ipc_data s' = ipc_data s1"
        using resume_data IH by (force simp: ipc_data_def)+
      then show ?thesis by simp
    qed (use step in auto)
  qed
  with assms show ?thesis by blast
qed

text \<open>The error of a thread plays no role for its place.\<close>

lemma wait_insert_error [simp]:
  "wait_insert flag (T(t := (T t)\<lparr>th_error := e\<rparr>)) u ts = wait_insert flag T u ts"
proof -
  have "current_priority ((T(t := (T t)\<lparr>th_error := e\<rparr>)) v) = current_priority (T v)" for v by simp
  then show ?thesis unfolding wait_insert_def by (simp only:)
qed

lemma list_resume_total:
  assumes "kinv s" "is_wait h" "elems (tlists s) h \<noteq> []"
  shows "\<exists>s'. rt_ipc_list_resume h s = Some (RT_EOK, s')"
proof -
  obtain t ts where t: "elems (tlists s) h = t # ts" using assms(3) by (cases "elems (tlists s) h") auto
  then have "stat (threads s t) = RT_THREAD_SUSPEND" using wait_thread [OF assms(1,2), of t] by simp
  from rt_thread_resume_total [OF assms(1) this] show ?thesis
    by (auto simp: rt_ipc_list_resume_def t)
qed

text \<open>The thread that an operation with a loop remembers, and what a wait in the loop leaves alone.\<close>

definition waiter_ready :: "tid option \<Rightarrow> kstate \<Rightarrow> bool" where
  "waiter_ready thread s \<longleftrightarrow> (\<forall>t. thread = Some t \<longrightarrow> stat (threads s t) = RT_THREAD_READY)"

lemma self_waiter: "self_ready s \<Longrightarrow> waiter_ready (rt_thread_self s) s"
  by (simp add: self_ready_def waiter_ready_def rt_thread_self_def)

lemma wait_loop_data:
  assumes w: "ipc_wait h t flag time (upd_thread t (\<lambda>r. r\<lparr>th_error := RT_EOK\<rparr>) s) = Some s1"
    and inv: "kinv s" and st: "stat (threads s t) = RT_THREAD_READY" and h: "is_wait h"
    and sch: "rt_schedule s1 = Some s'"
  shows "ipc_data s' = ipc_data s"
  using wait_data [OF w kinv_error [OF inv] _ h] st schedule_data [OF sch] by (simp add: ipc_data_def)

end
