(* ===== verification/Semaphore.thy ===== *)
theory Semaphore
  imports Ipc_Base
begin

text \<open>
  The semaphores of \<^verbatim>\<open>src/ipc.c\<close>.
\<close>

subsection \<open>Operations\<close>

definition rt_sem_init :: "nat \<Rightarrow> u8 list \<Rightarrow> u32 \<Rightarrow> u8 \<Rightarrow> kstate \<Rightarrow> (rt_err_t \<times> kstate) option" where
  "rt_sem_init x nm v flag s = do {
     s \<leftarrow> rt_object_init (Sem_o x) RT_Object_Class_Semaphore nm s;
     s \<leftarrow> on_tlists (l_init_head (Sem_wait x)) s;
     let s = upd_sem x (\<lambda>r. r\<lparr>sem_value := ucast v\<rparr>) s;
     let s = upd_obj (Sem_o x) (\<lambda>r. r\<lparr>o_flag := flag\<rparr>) s;
     Some (RT_EOK, s)
   }"

definition rt_sem_detach :: "nat \<Rightarrow> kstate \<Rightarrow> (rt_err_t \<times> kstate) option" where
  "rt_sem_detach x s = do {
     (_, s) \<leftarrow> rt_ipc_list_resume_all (Sem_wait x) s;
     Some (RT_EOK, rt_object_detach (Sem_o x) s)
   }"

definition rt_sem_create :: "u8 list \<Rightarrow> u32 \<Rightarrow> u8 \<Rightarrow> kstate \<Rightarrow> (nat \<times> kstate) option" where
  "rt_sem_create nm v flag s = do {
     s \<leftarrow> rt_debug_not_in_interrupt s;
     (x, s) \<leftarrow> rt_object_allocate RT_Object_Class_Semaphore nm s;
     if x = 0 then Some (0, s)
     else do {
       s \<leftarrow> on_tlists (l_init_head (Sem_wait x)) s;
       let s = upd_sem x (\<lambda>r. r\<lparr>sem_value := ucast v\<rparr>) s;
       let s = upd_obj (Sem_o x) (\<lambda>r. r\<lparr>o_flag := flag\<rparr>) s;
       Some (x, s)
     }
   }"

definition rt_sem_delete :: "nat \<Rightarrow> kstate \<Rightarrow> (rt_err_t \<times> kstate) option" where
  "rt_sem_delete x s = do {
     s \<leftarrow> rt_debug_not_in_interrupt s;
     (_, s) \<leftarrow> rt_ipc_list_resume_all (Sem_wait x) s;
     s \<leftarrow> rt_object_delete (Sem_o x) s;
     Some (RT_EOK, s)
   }"

definition rt_sem_take :: "nat \<Rightarrow> u32 \<Rightarrow> kstate \<Rightarrow> ((rt_err_t, tid) outcome \<times> kstate) option" where
  "rt_sem_take x time s =
     (if sem_value (sems s x) > 0 then
        Some (Returned RT_EOK, upd_sem x (\<lambda>r. r\<lparr>sem_value := sem_value r - 1\<rparr>) s)
      else if time = 0 then Some (Returned (- RT_ETIMEOUT), s)
      else do {
        s \<leftarrow> rt_debug_not_in_interrupt s;
        t \<leftarrow> rt_thread_self s;
        let s = upd_thread t (\<lambda>r. r\<lparr>th_error := RT_EOK\<rparr>) s;
        s \<leftarrow> ipc_wait (Sem_wait x) t (o_flag (objs s (Sem_o x))) time s;
        s \<leftarrow> rt_schedule s;
        Some (Blocked t, s)
      })"

definition rt_sem_take_resumed :: "tid \<Rightarrow> kstate \<Rightarrow> rt_err_t" where
  "rt_sem_take_resumed t s =
     (if th_error (threads s t) \<noteq> RT_EOK then th_error (threads s t) else RT_EOK)"

definition rt_sem_trytake :: "nat \<Rightarrow> kstate \<Rightarrow> ((rt_err_t, tid) outcome \<times> kstate) option" where
  "rt_sem_trytake x s = rt_sem_take x 0 s"

definition rt_sem_release :: "nat \<Rightarrow> kstate \<Rightarrow> (rt_err_t \<times> kstate) option" where
  "rt_sem_release x s =
     (if elems (tlists s) (Sem_wait x) \<noteq> [] then do {
        (_, s) \<leftarrow> rt_ipc_list_resume (Sem_wait x) s;
        s \<leftarrow> rt_schedule s;
        Some (RT_EOK, s)
      }
      else Some (RT_EOK, upd_sem x (\<lambda>r. r\<lparr>sem_value := sem_value r + 1\<rparr>) s))"

definition rt_sem_control :: "nat \<Rightarrow> u8 \<Rightarrow> u32 \<Rightarrow> kstate \<Rightarrow> (rt_err_t \<times> kstate) option" where
  "rt_sem_control x cmd arg s =
     (if cmd = RT_IPC_CMD_RESET then do {
        (_, s) \<leftarrow> rt_ipc_list_resume_all (Sem_wait x) s;
        let s = upd_sem x (\<lambda>r. r\<lparr>sem_value := ucast arg\<rparr>) s;
        s \<leftarrow> rt_schedule s;
        Some (RT_EOK, s)
      }
      else Some (- RT_ERROR, s))"

subsection \<open>The operations keep the invariant\<close>

lemma kinv_sem_init: "rt_sem_init x nm v flag s = Some (r, s') \<Longrightarrow> kinv s \<Longrightarrow> kinv s'"
  by (auto simp: rt_sem_init_def bind_eq_Some_conv l_init_head_def split: if_splits
      intro!: kinv_objs intro: kinv_object_init)

lemma kinv_sem_detach: "rt_sem_detach x s = Some (r, s') \<Longrightarrow> kinv s \<Longrightarrow> kinv s'"
  by (auto simp: rt_sem_detach_def bind_eq_Some_conv intro!: kinv_object_detach elim: kinv_resume_all)

lemma kinv_sem_create: "rt_sem_create nm v flag s = Some (x, s') \<Longrightarrow> kinv s \<Longrightarrow> kinv s'"
  by (auto simp: rt_sem_create_def rt_debug_not_in_interrupt_def bind_eq_Some_conv l_init_head_def
      split: if_splits intro!: kinv_objs dest: kinv_ipc_allocate)

lemma kinv_sem_delete: "rt_sem_delete x s = Some (r, s') \<Longrightarrow> kinv s \<Longrightarrow> kinv s'"
  by (auto simp: rt_sem_delete_def rt_debug_not_in_interrupt_def bind_eq_Some_conv
      elim!: kinv_object_delete kinv_resume_all)

lemma kinv_sem_take:
  assumes op: "rt_sem_take x time s = Some (r, s')" and inv: "kinv s" and me: "self_ready s"
  shows "kinv s'"
proof -
  from op consider "s' = s" | "s' = upd_sem x (\<lambda>r. r\<lparr>sem_value := sem_value r - 1\<rparr>) s"
    | t s1 where "rt_thread_self s = Some t" "rt_schedule s1 = Some s'"
        "ipc_wait (Sem_wait x) t (o_flag (objs s (Sem_o x))) time
           (upd_thread t (\<lambda>r. r\<lparr>th_error := RT_EOK\<rparr>) s) = Some s1"
    by (auto simp: rt_sem_take_def rt_debug_not_in_interrupt_def bind_eq_Some_conv split: if_splits)
  then show ?thesis
  proof cases
    case (3 t s1)
    have "kinv s1"
      using kinv_wait [OF 3(3) kinv_error [OF inv]] self_readyD [OF me 3(1)] by simp
    with 3(2) show ?thesis by (rule kinv_schedule)
  qed (use inv in simp_all)
qed

lemma kinv_sem_release: "rt_sem_release x s = Some (r, s') \<Longrightarrow> kinv s \<Longrightarrow> kinv s'"
  by (auto simp: rt_sem_release_def bind_eq_Some_conv split: if_splits
      dest: kinv_list_resume kinv_schedule)

lemma kinv_sem_control: "rt_sem_control x cmd arg s = Some (r, s') \<Longrightarrow> kinv s \<Longrightarrow> kinv s'"
  by (auto simp: rt_sem_control_def bind_eq_Some_conv split: if_splits
      elim!: kinv_schedule dest: kinv_resume_all)

subsection \<open>What the operations do\<close>

lemma sem_take_cases:
  assumes op: "rt_sem_take x time s = Some (out, s')" and inv: "kinv s" and me: "self_ready s"
  obtains (taken) "sem_value (sems s x) \<noteq> 0" "out = Returned RT_EOK"
      "s' = upd_sem x (\<lambda>r. r\<lparr>sem_value := sem_value r - 1\<rparr>) s"
  | (none) "sem_value (sems s x) = 0" "time = 0" "out = Returned (- RT_ETIMEOUT)" "s' = s"
  | (blocked) t s1 where "sem_value (sems s x) = 0" "time \<noteq> 0" "out = Blocked t" "rt_current_thread s = Some t"
      "stat (threads s t) = RT_THREAD_READY"
      "ipc_wait (Sem_wait x) t (o_flag (objs s (Sem_o x))) time
         (upd_thread t (\<lambda>r. r\<lparr>th_error := RT_EOK\<rparr>) s) = Some s1" "rt_schedule s1 = Some s'"
proof (cases "sem_value (sems s x) = 0")
  case False
  then have "sem_value (sems s x) > 0" by (simp add: word_neq_0_conv)
  with False op show ?thesis by (intro taken) (auto simp: rt_sem_take_def)
next
  case True
  show ?thesis
  proof (cases "time = 0")
    case False
    with True op obtain t s1 where "rt_current_thread s = Some t" "out = Blocked t"
      "ipc_wait (Sem_wait x) t (o_flag (objs s (Sem_o x))) time
         (upd_thread t (\<lambda>r. r\<lparr>th_error := RT_EOK\<rparr>) s) = Some s1" "rt_schedule s1 = Some s'"
      by (auto simp: rt_sem_take_def rt_thread_self_def rt_debug_not_in_interrupt_def bind_eq_Some_conv)
    then show ?thesis using True False me by (intro blocked) (auto simp: self_ready_def)
  next
    case time: True
    then have "out = Returned (- RT_ETIMEOUT)" "s' = s" using op True by (auto simp: rt_sem_take_def)
    with True time show ?thesis by (rule none)
  qed
qed

text \<open>A thread that has to wait is suspended on the list of the semaphore, at its place, with
  its timer running when a time is given.\<close>

lemma sem_take_blocks:
  assumes op: "rt_sem_take x time s = Some (Blocked t, s')" and inv: "kinv s" and me: "self_ready s"
    and flag: "o_flag (objs s (Sem_o x)) = RT_IPC_FLAG_FIFO \<or> o_flag (objs s (Sem_o x)) = RT_IPC_FLAG_PRIO"
    and hard: "hard_timer s t"
  shows "stat (threads s' t) = RT_THREAD_SUSPEND" "th_error (threads s' t) = RT_EOK"
    "elems (tlists s') (Sem_wait x) =
       wait_insert (o_flag (objs s (Sem_o x))) (threads s) t (elems (tlists s) (Sem_wait x))"
    "sint time > 0 \<Longrightarrow> timer_flag s (Thread_timer t) AND RT_TIMER_FLAG_ACTIVATED = 0 \<Longrightarrow>
       onlist (tmlists s') (Thread_timer t) = Some Hard_timers \<and>
       timeout_tick (timers s' (Thread_timer t)) = rt_tick s + time"
proof -
  from op inv me obtain u s1 where blocked: "Blocked t = Blocked u" "rt_current_thread s = Some u"
      "stat (threads s u) = RT_THREAD_READY"
      "ipc_wait (Sem_wait x) u (o_flag (objs s (Sem_o x))) time
         (upd_thread u (\<lambda>r. r\<lparr>th_error := RT_EOK\<rparr>) s) = Some s1" "rt_schedule s1 = Some s'"
    by (rule sem_take_cases) (simp, simp, blast)
  let ?s = "upd_thread t (\<lambda>r. r\<lparr>th_error := RT_EOK\<rparr>) s"
  have t: "u = t" using blocked(1) by simp
  have k: "kinv ?s" using inv by (rule kinv_error)
  have st: "stat (threads ?s t) = RT_THREAD_READY" using blocked(3) t by simp
  note w = ipc_wait_threads [OF blocked(4) [unfolded t] k st _ flag]
  show "stat (threads s' t) = RT_THREAD_SUSPEND" "th_error (threads s' t) = RT_EOK"
    "elems (tlists s') (Sem_wait x) =
       wait_insert (o_flag (objs s (Sem_o x))) (threads s) t (elems (tlists s) (Sem_wait x))"
    "sint time > 0 \<Longrightarrow> timer_flag s (Thread_timer t) AND RT_TIMER_FLAG_ACTIVATED = 0 \<Longrightarrow>
       onlist (tmlists s') (Thread_timer t) = Some Hard_timers \<and>
       timeout_tick (timers s' (Thread_timer t)) = rt_tick s + time"
    using w hard schedule_same [OF blocked(5)] by (simp_all add: hard_timer_def)
qed

text \<open>A release with waiting threads hands the semaphore to the first, without touching the
  value.\<close>

lemma sem_release_wakes:
  assumes op: "rt_sem_release x s = Some (r, s')" and inv: "kinv s"
    and w: "elems (tlists s) (Sem_wait x) = t # ts"
  shows "r = RT_EOK" "stat (threads s' t) = RT_THREAD_READY" "elems (tlists s') (Sem_wait x) = ts"
    "sems s' = sems s" "th_error (threads s' t) = th_error (threads s t)"
proof -
  from op w obtain e s1 where res: "rt_ipc_list_resume (Sem_wait x) s = Some (e, s1)"
    and sch: "rt_schedule s1 = Some s'" and r: "r = RT_EOK"
    by (auto simp: rt_sem_release_def bind_eq_Some_conv split: if_splits)
  have h: "is_wait (Sem_wait x)" by simp
  show "r = RT_EOK" "stat (threads s' t) = RT_THREAD_READY" "elems (tlists s') (Sem_wait x) = ts"
    "sems s' = sems s" "th_error (threads s' t) = th_error (threads s t)"
    using w r schedule_same [OF sch] ipc_dataD [OF list_resume_data [OF res]]
    by (auto intro: list_resume_first [OF res inv h])
qed

text \<open>Threads wait only on a semaphore whose value is 0.\<close>

definition sem_ok :: "kstate \<Rightarrow> nat \<Rightarrow> bool" where
  "sem_ok s x \<longleftrightarrow> elems (tlists s) (Sem_wait x) = [] \<or> sem_value (sems s x) = 0"

lemma sem_take_ok:
  assumes op: "rt_sem_take x time s = Some (out, s')" and inv: "kinv s" and me: "self_ready s"
    and ok: "sem_ok s x"
  shows "sem_ok s' x"
  using op inv me
proof (cases rule: sem_take_cases)
  case (blocked t s1)
  have "ipc_data s1 = ipc_data s"
    using wait_data [OF blocked(6) kinv_error [OF inv]] blocked(5) by (simp add: ipc_data_def)
  then show ?thesis using blocked(1) schedule_same(5) [OF blocked(7)] ipc_dataD(1) by (metis sem_ok_def)
qed (use ok in \<open>auto simp: sem_ok_def\<close>)

lemma sem_release_ok:
  assumes op: "rt_sem_release x s = Some (r, s')" and inv: "kinv s" and ok: "sem_ok s x"
  shows "sem_ok s' x"
proof (cases "elems (tlists s) (Sem_wait x)")
  case Nil
  with op show ?thesis by (auto simp: rt_sem_release_def sem_ok_def)
next
  case (Cons t ts)
  then show ?thesis using sem_release_wakes [OF op inv Cons] ok by (simp add: sem_ok_def)
qed

lemma sem_control_ok:
  assumes op: "rt_sem_control x cmd arg s = Some (r, s')" and inv: "kinv s" and ok: "sem_ok s x"
  shows "sem_ok s' x"
proof (cases "cmd = RT_IPC_CMD_RESET")
  case True
  obtain s1 where s1: "rt_ipc_list_resume_all (Sem_wait x) s = Some (RT_EOK, s1)"
    "elems (tlists s1) (Sem_wait x) = []"
    using resume_all [OF inv, of "Sem_wait x"] by auto
  with True op have "rt_schedule (upd_sem x (\<lambda>r. r\<lparr>sem_value := ucast arg\<rparr>) s1) = Some s'"
    by (auto simp: rt_sem_control_def bind_eq_Some_conv)
  then show ?thesis using s1(2) schedule_same(2) by (simp add: sem_ok_def)
qed (use op ok in \<open>simp add: rt_sem_control_def\<close>)

text \<open>With waiting threads ordered by priority, no waiting thread is more urgent than the one
  that a release wakes.\<close>

lemma sem_release_most_urgent:
  assumes op: "rt_sem_release x s = Some (r, s')" and inv: "kinv s"
    and w: "elems (tlists s) (Sem_wait x) = t # ts"
    and srt: "prio_sorted (threads s) (elems (tlists s) (Sem_wait x))"
    and u: "u \<in> set (elems (tlists s') (Sem_wait x))"
  shows "current_priority (threads s t) \<le> current_priority (threads s u)"
  using srt u sem_release_wakes(3) [OF op inv w] by (simp add: w prio_sorted_Cons)

end
