(* ===== verification/Mutex.thy ===== *)
theory Mutex
  imports Semaphore
begin

text \<open>
  The mutexes of \<^verbatim>\<open>src/ipc.c\<close>: recursive, owned by a thread, with the priority of a waiting
  thread lent to the owner.
\<close>

subsection \<open>Operations\<close>

definition mutex_setup :: "nat \<Rightarrow> u8 \<Rightarrow> kstate \<Rightarrow> kstate" where
  "mutex_setup x flag s =
     upd_obj (Mutex_o x) (\<lambda>r. r\<lparr>o_flag := flag\<rparr>)
       (upd_mutex x (\<lambda>r. r\<lparr>mtx_value := 1, owner := None, original_priority := 0xFF, hold := 0\<rparr>) s)"

definition rt_mutex_init :: "nat \<Rightarrow> u8 list \<Rightarrow> u8 \<Rightarrow> kstate \<Rightarrow> (rt_err_t \<times> kstate) option" where
  "rt_mutex_init x nm flag s = do {
     s \<leftarrow> rt_object_init (Mutex_o x) RT_Object_Class_Mutex nm s;
     s \<leftarrow> on_tlists (l_init_head (Mutex_wait x)) s;
     Some (RT_EOK, mutex_setup x flag s)
   }"

definition rt_mutex_detach :: "nat \<Rightarrow> kstate \<Rightarrow> (rt_err_t \<times> kstate) option" where
  "rt_mutex_detach x s = do {
     (_, s) \<leftarrow> rt_ipc_list_resume_all (Mutex_wait x) s;
     Some (RT_EOK, rt_object_detach (Mutex_o x) s)
   }"

definition rt_mutex_create :: "u8 list \<Rightarrow> u8 \<Rightarrow> kstate \<Rightarrow> (nat \<times> kstate) option" where
  "rt_mutex_create nm flag s = do {
     s \<leftarrow> rt_debug_not_in_interrupt s;
     (x, s) \<leftarrow> rt_object_allocate RT_Object_Class_Mutex nm s;
     if x = 0 then Some (0, s)
     else do {
       s \<leftarrow> on_tlists (l_init_head (Mutex_wait x)) s;
       Some (x, mutex_setup x flag s)
     }
   }"

definition rt_mutex_delete :: "nat \<Rightarrow> kstate \<Rightarrow> (rt_err_t \<times> kstate) option" where
  "rt_mutex_delete x s = do {
     s \<leftarrow> rt_debug_not_in_interrupt s;
     (_, s) \<leftarrow> rt_ipc_list_resume_all (Mutex_wait x) s;
     s \<leftarrow> rt_object_delete (Mutex_o x) s;
     Some (RT_EOK, s)
   }"

text \<open>Lending the priority of a waiting thread to the owner.\<close>

definition mutex_inherit :: "nat \<Rightarrow> tid \<Rightarrow> kstate \<Rightarrow> kstate option" where
  "mutex_inherit x t s = do {
     ow \<leftarrow> owner (mutexes s x);
     if current_priority (threads s t) < current_priority (threads s ow)
     then do {
       (_, s) \<leftarrow> rt_thread_control ow RT_THREAD_CTRL_CHANGE_PRIORITY (current_priority (threads s t)) s;
       Some s
     }
     else Some s
   }"

definition rt_mutex_take :: "nat \<Rightarrow> u32 \<Rightarrow> kstate \<Rightarrow> ((rt_err_t, tid) outcome \<times> kstate) option" where
  "rt_mutex_take x time s = do {
     s \<leftarrow> rt_debug_not_in_interrupt s;
     t \<leftarrow> rt_thread_self s;
     let s = upd_thread t (\<lambda>r. r\<lparr>th_error := RT_EOK\<rparr>) s;
     if owner (mutexes s x) = Some t then
       Some (Returned RT_EOK, upd_mutex x (\<lambda>r. r\<lparr>hold := hold r + 1\<rparr>) s)
     else if mtx_value (mutexes s x) > 0 then
       let s = upd_mutex x (\<lambda>r. r\<lparr>mtx_value := mtx_value r - 1\<rparr>) s;
           s = upd_mutex x (\<lambda>r. r\<lparr>owner := Some t, original_priority := current_priority (threads s t)\<rparr>) s;
           s = upd_mutex x (\<lambda>r. r\<lparr>hold := hold r + 1\<rparr>) s
       in Some (Returned RT_EOK, s)
     else if time = 0 then
       Some (Returned (- RT_ETIMEOUT), upd_thread t (\<lambda>r. r\<lparr>th_error := - RT_ETIMEOUT\<rparr>) s)
     else do {
       s \<leftarrow> mutex_inherit x t s;
       s \<leftarrow> ipc_wait (Mutex_wait x) t (o_flag (objs s (Mutex_o x))) time s;
       s \<leftarrow> rt_schedule s;
       Some (Blocked t, s)
     }
   }"

definition rt_mutex_take_resumed :: "tid \<Rightarrow> kstate \<Rightarrow> rt_err_t" where
  "rt_mutex_take_resumed t s =
     (if th_error (threads s t) \<noteq> RT_EOK then th_error (threads s t) else RT_EOK)"

text \<open>Giving the mutex up: the priority goes back, and the first waiting thread becomes the
  owner.\<close>

definition mutex_restore :: "nat \<Rightarrow> kstate \<Rightarrow> kstate option" where
  "mutex_restore x s = do {
     ow \<leftarrow> owner (mutexes s x);
     if original_priority (mutexes s x) \<noteq> current_priority (threads s ow)
     then do {
       (_, s) \<leftarrow> rt_thread_control ow RT_THREAD_CTRL_CHANGE_PRIORITY (original_priority (mutexes s x)) s;
       Some s
     }
     else Some s
   }"

definition mutex_pass_on :: "nat \<Rightarrow> kstate \<Rightarrow> (bool \<times> kstate) option" where
  "mutex_pass_on x s =
     (case elems (tlists s) (Mutex_wait x) of
        t # _ \<Rightarrow> do {
          let s = upd_mutex x (\<lambda>r. r\<lparr>owner := Some t, original_priority := current_priority (threads s t)\<rparr>) s;
          let s = upd_mutex x (\<lambda>r. r\<lparr>hold := hold r + 1\<rparr>) s;
          (_, s) \<leftarrow> rt_ipc_list_resume (Mutex_wait x) s;
          Some (True, s)
        }
      | [] \<Rightarrow>
          let s = upd_mutex x (\<lambda>r. r\<lparr>mtx_value := mtx_value r + 1\<rparr>) s;
              s = upd_mutex x (\<lambda>r. r\<lparr>owner := None, original_priority := 0xff\<rparr>) s
          in Some (False, s))"

definition rt_mutex_release :: "nat \<Rightarrow> kstate \<Rightarrow> (rt_err_t \<times> kstate) option" where
  "rt_mutex_release x s =
     (if rt_thread_self s \<noteq> owner (mutexes s x) then do {
        t \<leftarrow> rt_thread_self s;
        Some (- RT_ERROR, upd_thread t (\<lambda>r. r\<lparr>th_error := - RT_ERROR\<rparr>) s)
      }
      else do {
        let s = upd_mutex x (\<lambda>r. r\<lparr>hold := hold r - 1\<rparr>) s;
        if hold (mutexes s x) = 0 then do {
          s \<leftarrow> mutex_restore x s;
          (need_schedule, s) \<leftarrow> mutex_pass_on x s;
          s \<leftarrow> (if need_schedule then rt_schedule s else Some s);
          Some (RT_EOK, s)
        }
        else Some (RT_EOK, s)
      })"

definition rt_mutex_control :: "nat \<Rightarrow> u8 \<Rightarrow> u32 \<Rightarrow> kstate \<Rightarrow> rt_err_t \<times> kstate" where
  "rt_mutex_control x cmd arg s = (- RT_ERROR, s)"

subsection \<open>The operations keep the invariant\<close>

lemma kinv_mutex_setup: "kinv s \<Longrightarrow> kinv (mutex_setup x flag s)"
  unfolding mutex_setup_def by (intro kinv_objs) simp_all

lemma kinv_mutex_init: "rt_mutex_init x nm flag s = Some (r, s') \<Longrightarrow> kinv s \<Longrightarrow> kinv s'"
  by (auto simp: rt_mutex_init_def bind_eq_Some_conv l_init_head_def split: if_splits
      intro!: kinv_mutex_setup intro: kinv_object_init)

lemma kinv_mutex_create: "rt_mutex_create nm flag s = Some (x, s') \<Longrightarrow> kinv s \<Longrightarrow> kinv s'"
  by (auto simp: rt_mutex_create_def rt_debug_not_in_interrupt_def bind_eq_Some_conv l_init_head_def
      split: if_splits intro!: kinv_mutex_setup dest: kinv_ipc_allocate)

lemma kinv_mutex_detach: "rt_mutex_detach x s = Some (r, s') \<Longrightarrow> kinv s \<Longrightarrow> kinv s'"
  by (auto simp: rt_mutex_detach_def bind_eq_Some_conv intro!: kinv_object_detach elim: kinv_resume_all)

lemma kinv_mutex_delete: "rt_mutex_delete x s = Some (r, s') \<Longrightarrow> kinv s \<Longrightarrow> kinv s'"
  by (auto simp: rt_mutex_delete_def rt_debug_not_in_interrupt_def bind_eq_Some_conv
      elim!: kinv_object_delete kinv_resume_all)

text \<open>A change of priority.\<close>

lemma change_priority:
  assumes op: "rt_thread_control u RT_THREAD_CTRL_CHANGE_PRIORITY p s = Some (r, s')" and inv: "kinv s"
    and p: "stat (threads s u) = RT_THREAD_SUSPEND \<longrightarrow> unat p < RT_THREAD_PRIORITY_MAX"
  shows "kinv s'"
    and "threads s' = (threads s)(u := (threads s u)\<lparr>current_priority := p, number_mask := push_bit (unat p) 1\<rparr>)"
    and "objs s' = objs s" "ipc_data s' = ipc_data s" "is_wait h \<Longrightarrow> elems (tlists s') h = elems (tlists s) h"
    and "rt_current_thread s' = rt_current_thread s" "timers s' = timers s" "tmlists s' = tmlists s"
proof -
  show "kinv s'"
    by (rule kinv_control [OF op inv]) (use p in \<open>auto simp: thread_ctrls\<close>)
  have wf: "wf_lists (tlists s)" using inv by (auto simp: kinv_def sched_inv_def dest: sched_but_wf)
  have ready: "u \<notin> set (elems (tlists s) h)" if "is_wait h" "stat (threads s u) = RT_THREAD_READY"
    using kinv_thread_ok [OF inv, of u] that wf_listsD(2) [OF wf, of u h] by (auto simp: thread_ok_def)
  have st: "(threads s u)\<lparr>current_priority := p, number_mask := push_bit (unat p) 1, stat := RT_THREAD_READY\<rparr> =
      (threads s u)\<lparr>current_priority := p, number_mask := push_bit (unat p) 1\<rparr>"
    if "stat (threads s u) = RT_THREAD_READY" using that by (cases "threads s u") simp
  show "threads s' = (threads s)(u := (threads s u)\<lparr>current_priority := p, number_mask := push_bit (unat p) 1\<rparr>)"
    "objs s' = objs s" "ipc_data s' = ipc_data s" "is_wait h \<Longrightarrow> elems (tlists s') h = elems (tlists s) h"
    "rt_current_thread s' = rt_current_thread s" "timers s' = timers s" "tmlists s' = tmlists s"
    using op ready st
    by (auto simp: rt_thread_control_def rt_schedule_remove_thread_Some rt_schedule_insert_thread_Some
        bind_eq_Some_conv ipc_data_def elems_l_remove [OF wf] remove1_idem split: if_splits)
qed

lemma mutex_inherit_keeps:
  assumes op: "mutex_inherit x t s = Some s'" and inv: "kinv s" and st: "stat (threads s t) = RT_THREAD_READY"
  obtains u where "owner (mutexes s x) = Some u"
    "kinv s'" "ipc_data s' = ipc_data s" "objs s' = objs s" "rt_current_thread s' = rt_current_thread s"
    "\<And>v. v \<noteq> u \<Longrightarrow> threads s' v = threads s v"
    "current_priority (threads s' u) = min (current_priority (threads s u)) (current_priority (threads s t))"
    "stat (threads s' u) = stat (threads s u)"
    "\<And>h. is_wait h \<Longrightarrow> elems (tlists s') h = elems (tlists s) h"
proof -
  have pr: "unat (current_priority (threads s t)) < RT_THREAD_PRIORITY_MAX"
    using kinv_thread_ok [OF inv, of t] st by (simp add: thread_ok_def prio_ok_def)
  from op obtain u where u: "owner (mutexes s x) = Some u"
    by (auto simp: mutex_inherit_def bind_eq_Some_conv)
  show ?thesis
  proof (cases "current_priority (threads s t) < current_priority (threads s u)")
    case True
    with op u obtain e where c: "rt_thread_control u RT_THREAD_CTRL_CHANGE_PRIORITY
        (current_priority (threads s t)) s = Some (e, s')"
      by (auto simp: mutex_inherit_def bind_eq_Some_conv)
    note k = change_priority [OF c inv impI [OF pr]]
    show ?thesis using u k(1,3,4,6) True by (intro that [of u]) (auto simp: k(2,5) min_def)
  next
    case False
    with op u have "s' = s" by (simp add: mutex_inherit_def)
    with u False inv show ?thesis by (intro that [of u]) (auto simp: min_def)
  qed
qed

lemma mutex_take_cases:
  assumes op: "rt_mutex_take x time s = Some (out, s')"
  obtains t where "rt_current_thread s = Some t" "owner (mutexes s x) = Some t" "out = Returned RT_EOK"
      "s' = upd_mutex x (\<lambda>r. r\<lparr>hold := hold r + 1\<rparr>) (upd_thread t (\<lambda>r. r\<lparr>th_error := RT_EOK\<rparr>) s)"
  | t where "rt_current_thread s = Some t" "owner (mutexes s x) \<noteq> Some t" "mtx_value (mutexes s x) \<noteq> 0"
      "out = Returned RT_EOK"
      "s' = upd_mutex x (\<lambda>r. r\<lparr>mtx_value := mtx_value r - 1, owner := Some t,
              original_priority := current_priority (threads s t), hold := hold r + 1\<rparr>)
              (upd_thread t (\<lambda>r. r\<lparr>th_error := RT_EOK\<rparr>) s)"
  | t where "rt_current_thread s = Some t" "owner (mutexes s x) \<noteq> Some t" "mtx_value (mutexes s x) = 0"
      "time = 0" "out = Returned (- RT_ETIMEOUT)"
      "s' = upd_thread t (\<lambda>r. r\<lparr>th_error := - RT_ETIMEOUT\<rparr>) s"
  | t s1 s2 where "rt_current_thread s = Some t" "owner (mutexes s x) \<noteq> Some t" "mtx_value (mutexes s x) = 0"
      "time \<noteq> 0" "out = Blocked t" "mutex_inherit x t (upd_thread t (\<lambda>r. r\<lparr>th_error := RT_EOK\<rparr>) s) = Some s1"
      "ipc_wait (Mutex_wait x) t (o_flag (objs s1 (Mutex_o x))) time s1 = Some s2" "rt_schedule s2 = Some s'"
proof -
  from op obtain t where t: "rt_current_thread s = Some t"
    by (auto simp: rt_mutex_take_def rt_debug_not_in_interrupt_def bind_eq_Some_conv rt_thread_self_def)
  consider (a) "owner (mutexes s x) = Some t"
    | (b) "owner (mutexes s x) \<noteq> Some t" "mtx_value (mutexes s x) \<noteq> 0"
    | (c) "owner (mutexes s x) \<noteq> Some t" "mtx_value (mutexes s x) = 0" "time = 0"
    | (d) "owner (mutexes s x) \<noteq> Some t" "mtx_value (mutexes s x) = 0" "time \<noteq> 0"
    by blast
  then show ?thesis
  proof cases
    case a
    with op t have "out = Returned RT_EOK \<and>
      s' = upd_mutex x (\<lambda>r. r\<lparr>hold := hold r + 1\<rparr>) (upd_thread t (\<lambda>r. r\<lparr>th_error := RT_EOK\<rparr>) s)"
      by (simp add: rt_mutex_take_def rt_debug_not_in_interrupt_def rt_thread_self_def)
    with t a that(1) show ?thesis by blast
  next
    case b
    then have "mtx_value (mutexes s x) > 0" by (simp add: word_neq_0_conv)
    with op t b have "out = Returned RT_EOK \<and>
      s' = upd_mutex x (\<lambda>r. r\<lparr>mtx_value := mtx_value r - 1, owner := Some t,
              original_priority := current_priority (threads s t), hold := hold r + 1\<rparr>)
              (upd_thread t (\<lambda>r. r\<lparr>th_error := RT_EOK\<rparr>) s)"
      by (simp add: rt_mutex_take_def rt_debug_not_in_interrupt_def rt_thread_self_def Let_def)
    with t b that(2) show ?thesis by blast
  next
    case c
    with op t have "out = Returned (- RT_ETIMEOUT) \<and> s' = upd_thread t (\<lambda>r. r\<lparr>th_error := - RT_ETIMEOUT\<rparr>) s"
      by (simp add: rt_mutex_take_def rt_debug_not_in_interrupt_def rt_thread_self_def)
    with t c that(3) show ?thesis by blast
  next
    case d
    with op t obtain s1 s2 where "out = Blocked t"
      "mutex_inherit x t (upd_thread t (\<lambda>r. r\<lparr>th_error := RT_EOK\<rparr>) s) = Some s1"
      "ipc_wait (Mutex_wait x) t (o_flag (objs s1 (Mutex_o x))) time s1 = Some s2" "rt_schedule s2 = Some s'"
      by (auto simp: rt_mutex_take_def rt_debug_not_in_interrupt_def rt_thread_self_def bind_eq_Some_conv)
    with t d that(4) show ?thesis by blast
  qed
qed

lemma kinv_mutex_take:
  assumes op: "rt_mutex_take x time s = Some (out, s')" and inv: "kinv s" and me: "self_ready s"
  shows "kinv s'"
  using op
proof (cases rule: mutex_take_cases)
  case (4 t s1 s2)
  let ?s = "upd_thread t (\<lambda>r. r\<lparr>th_error := RT_EOK\<rparr>) s"
  have k: "kinv ?s" using inv by (rule kinv_error)
  have st: "stat (threads ?s t) = RT_THREAD_READY" using me 4(1) by (simp add: self_ready_def)
  have "kinv s2"
  proof (rule mutex_inherit_keeps [OF 4(6) k st])
    fix u
    assume u: "owner (mutexes ?s x) = Some u" "kinv s1" "\<And>v. v \<noteq> u \<Longrightarrow> threads s1 v = threads ?s v"
    then have "threads s1 t = threads ?s t" using 4(2) by (intro u(3)) auto
    then show "kinv s2" using st by (intro kinv_wait [OF 4(7) u(2)]) simp_all
  qed
  with 4(8) show ?thesis by (rule kinv_schedule)
qed (use kinv_error [OF inv] in simp_all)

lemma mutex_restore_keeps:
  assumes op: "mutex_restore x s = Some s'" and inv: "kinv s"
    and u: "owner (mutexes s x) = Some u" "stat (threads s u) = RT_THREAD_READY"
  shows "kinv s'" "ipc_data s' = ipc_data s" "rt_current_thread s' = rt_current_thread s"
    "current_priority (threads s' u) = original_priority (mutexes s x)"
    "\<And>v. v \<noteq> u \<Longrightarrow> threads s' v = threads s v" "stat (threads s' u) = RT_THREAD_READY"
    "\<And>h. is_wait h \<Longrightarrow> elems (tlists s') h = elems (tlists s) h"
proof -
  have "kinv s' \<and> ipc_data s' = ipc_data s \<and> rt_current_thread s' = rt_current_thread s \<and>
    current_priority (threads s' u) = original_priority (mutexes s x) \<and>
    (\<forall>v. v \<noteq> u \<longrightarrow> threads s' v = threads s v) \<and> stat (threads s' u) = RT_THREAD_READY \<and>
    (\<forall>h. is_wait h \<longrightarrow> elems (tlists s') h = elems (tlists s) h)"
  proof (cases "original_priority (mutexes s x) = current_priority (threads s u)")
    case True
    with op u have "s' = s" by (simp add: mutex_restore_def)
    with True inv u show ?thesis by simp
  next
    case False
    with op u obtain e where c: "rt_thread_control u RT_THREAD_CTRL_CHANGE_PRIORITY
        (original_priority (mutexes s x)) s = Some (e, s')"
      by (auto simp: mutex_restore_def bind_eq_Some_conv)
    have "stat (threads s u) = RT_THREAD_SUSPEND \<longrightarrow>
        unat (original_priority (mutexes s x)) < RT_THREAD_PRIORITY_MAX" using u by simp
    note k = change_priority [OF c inv this]
    show ?thesis using k(1,4,5,6) u by (simp add: k(2))
  qed
  then show "kinv s'" "ipc_data s' = ipc_data s" "rt_current_thread s' = rt_current_thread s"
    "current_priority (threads s' u) = original_priority (mutexes s x)"
    "\<And>v. v \<noteq> u \<Longrightarrow> threads s' v = threads s v" "stat (threads s' u) = RT_THREAD_READY"
    "\<And>h. is_wait h \<Longrightarrow> elems (tlists s') h = elems (tlists s) h"
    by blast+
qed

lemma kinv_pass_on: "mutex_pass_on x s = Some (b, s') \<Longrightarrow> kinv s \<Longrightarrow> kinv s'"
  by (auto simp: mutex_pass_on_def bind_eq_Some_conv split: list.splits elim!: kinv_list_resume)

lemma mutex_release_cases:
  assumes op: "rt_mutex_release x s = Some (r, s')"
  obtains (other) t where "rt_current_thread s = Some t" "owner (mutexes s x) \<noteq> Some t" "r = - RT_ERROR"
      "s' = upd_thread t (\<lambda>r. r\<lparr>th_error := - RT_ERROR\<rparr>) s"
  | (held) "rt_current_thread s = owner (mutexes s x)" "hold (mutexes s x) \<noteq> 1" "r = RT_EOK"
      "s' = upd_mutex x (\<lambda>r. r\<lparr>hold := hold r - 1\<rparr>) s"
  | (last) u s1 s2 b where "rt_current_thread s = Some u" "owner (mutexes s x) = Some u" "hold (mutexes s x) = 1"
      "r = RT_EOK" "mutex_restore x (upd_mutex x (\<lambda>r. r\<lparr>hold := 0\<rparr>) s) = Some s1"
      "mutex_pass_on x s1 = Some (b, s2)" "if b then rt_schedule s2 = Some s' else s' = s2"
proof -
  consider "rt_current_thread s \<noteq> owner (mutexes s x)"
    | "rt_current_thread s = owner (mutexes s x)" "hold (mutexes s x) \<noteq> 1"
    | "rt_current_thread s = owner (mutexes s x)" "hold (mutexes s x) = 1" by blast
  then show ?thesis
  proof cases
    case 1
    with op that(1) show ?thesis
      by (auto simp: rt_mutex_release_def rt_thread_self_def bind_eq_Some_conv)
  next
    case 2
    with op that(2) show ?thesis
      by (auto simp: rt_mutex_release_def rt_thread_self_def)
  next
    case 3
    with op obtain s1 s2 b where
      a: "mutex_restore x (upd_mutex x (\<lambda>r. r\<lparr>hold := 0\<rparr>) s) = Some s1"
      "mutex_pass_on x s1 = Some (b, s2)" "(if b then rt_schedule s2 else Some s2) = Some s'" "r = RT_EOK"
      by (auto simp: rt_mutex_release_def rt_thread_self_def bind_eq_Some_conv)
    then obtain u where "owner (mutexes s x) = Some u"
      by (auto simp: mutex_restore_def bind_eq_Some_conv)
    moreover have "if b then rt_schedule s2 = Some s' else s' = s2" using a(3) by (auto split: if_splits)
    ultimately show ?thesis using a 3 that(3) by simp
  qed
qed

lemma kinv_mutex_release:
  assumes op: "rt_mutex_release x s = Some (r, s')" and inv: "kinv s" and me: "self_ready s"
  shows "kinv s'"
  using op
proof (cases rule: mutex_release_cases)
  case (last u s1 s2 b)
  have "kinv s1"
    using mutex_restore_keeps(1) [OF last(5), of u] inv last(1,2) me by (simp add: self_ready_def)
  then have "kinv s2" by (rule kinv_pass_on [OF last(6)])
  then show ?thesis using last(7) kinv_schedule by (auto split: if_splits)
qed (use kinv_error [OF inv] inv in simp_all)

subsection \<open>Ownership\<close>

text \<open>A mutex is free, with nobody waiting, or it has an owner that holds it.\<close>

definition mutex_ok :: "kstate \<Rightarrow> nat \<Rightarrow> bool" where
  "mutex_ok s x \<longleftrightarrow>
     (let m = mutexes s x in
      case owner m of
        None \<Rightarrow> mtx_value m = 1 \<and> hold m = 0 \<and> elems (tlists s) (Mutex_wait x) = []
      | Some u \<Rightarrow> mtx_value m = 0 \<and> hold m \<noteq> 0)"

lemma mutex_take_ok:
  assumes op: "rt_mutex_take x time s = Some (out, s')" and inv: "kinv s" and me: "self_ready s"
    and ok: "mutex_ok s x" and nest: "hold (mutexes s x) \<noteq> 255"
  shows "mutex_ok s' x"
  using op
proof (cases rule: mutex_take_cases)
  case (1 t)
  have "hold (mutexes s x) + 1 \<noteq> 0"
    using nest by (auto simp: eq_neg_iff_add_eq_0 [symmetric])
  then show ?thesis using 1 ok by (simp add: mutex_ok_def Let_def)
next
  case (2 t)
  then show ?thesis using ok by (auto simp: mutex_ok_def Let_def split: option.splits)
next
  case (3 t)
  then show ?thesis using ok by (simp add: mutex_ok_def Let_def split: option.splits)
next
  case (4 t s1 s2)
  let ?s = "upd_thread t (\<lambda>r. r\<lparr>th_error := RT_EOK\<rparr>) s"
  have k: "kinv ?s" using inv by (rule kinv_error)
  have st: "stat (threads ?s t) = RT_THREAD_READY" using me 4(1) by (simp add: self_ready_def)
  have "mutexes s2 = mutexes s \<and> owner (mutexes s x) \<noteq> None"
  proof (rule mutex_inherit_keeps [OF 4(6) k st])
    fix u
    assume u: "owner (mutexes ?s x) = Some u" "kinv s1" "ipc_data s1 = ipc_data ?s"
      "\<And>v. v \<noteq> u \<Longrightarrow> threads s1 v = threads ?s v"
    then have "threads s1 t = threads ?s t" using 4(2) by (intro u(4)) auto
    then have "ipc_data s2 = ipc_data s1" using st by (intro wait_data [OF 4(7) u(2)]) simp_all
    then show ?thesis using u(1,3) by (auto simp: ipc_data_def)
  qed
  then show ?thesis using schedule_same(6) [OF 4(8)] ok
    by (auto simp: mutex_ok_def Let_def split: option.splits)
qed

text \<open>The last release: the owner's priority goes back to what it was when it took the
  mutex; the mutex passes to the first waiting thread, or becomes free.\<close>

lemma mutex_release_last:
  assumes op: "rt_mutex_release x s = Some (r, s')" and inv: "kinv s" and me: "self_ready s"
    and u: "rt_current_thread s = Some u" "owner (mutexes s x) = Some u" "hold (mutexes s x) = 1"
    and nw: "u \<notin> set (elems (tlists s) (Mutex_wait x))"
  shows "r = RT_EOK" "current_priority (threads s' u) = original_priority (mutexes s x)"
    and "elems (tlists s) (Mutex_wait x) = [] \<Longrightarrow>
      mutexes s' x = \<lparr>mtx_value = mtx_value (mutexes s x) + 1, original_priority = 0xFF, hold = 0, owner = None\<rparr> \<and>
      elems (tlists s') (Mutex_wait x) = []"
    and "elems (tlists s) (Mutex_wait x) = w # ws \<Longrightarrow>
      mutexes s' x = (mutexes s x)\<lparr>owner := Some w, hold := 1, original_priority := current_priority (threads s w)\<rparr> \<and>
      stat (threads s' w) = RT_THREAD_READY \<and> elems (tlists s') (Mutex_wait x) = ws"
proof -
  let ?s = "upd_mutex x (\<lambda>r. r\<lparr>hold := 0\<rparr>) s"
  from op u obtain s1 s2 b where r: "r = RT_EOK" and res: "mutex_restore x ?s = Some s1"
    and pass: "mutex_pass_on x s1 = Some (b, s2)" and sch: "if b then rt_schedule s2 = Some s' else s' = s2"
    by (cases rule: mutex_release_cases) auto
  have k: "kinv ?s" using inv by simp
  have st: "stat (threads ?s u) = RT_THREAD_READY" using me u(1) by (simp add: self_ready_def)
  have ow: "owner (mutexes ?s x) = Some u" using u(2) by simp
  note m = mutex_restore_keeps [OF res k ow st]
  have el: "elems (tlists s1) (Mutex_wait x) = elems (tlists s) (Mutex_wait x)" using m(7) by simp
  have m1: "mutexes s1 x = (mutexes s x)\<lparr>hold := 0\<rparr>" using ipc_dataD(2) [OF m(2)] by simp
  have s': "threads s' = threads s2" "tlists s' = tlists s2" "mutexes s' = mutexes s2"
    using sch schedule_same by (auto split: if_splits)
  show "r = RT_EOK" by (rule r)
  show "elems (tlists s) (Mutex_wait x) = [] \<Longrightarrow>
      mutexes s' x = \<lparr>mtx_value = mtx_value (mutexes s x) + 1, original_priority = 0xFF, hold = 0, owner = None\<rparr> \<and>
      elems (tlists s') (Mutex_wait x) = []"
    using pass by (auto simp: mutex_pass_on_def el m1 s')
  have w: "mutexes s2 x = (mutexes s x)\<lparr>owner := Some w, hold := 1, original_priority := current_priority (threads s w)\<rparr> \<and>
      stat (threads s2 w) = RT_THREAD_READY \<and> elems (tlists s2) (Mutex_wait x) = ws \<and>
      threads s2 = (threads s1)(w := (threads s1 w)\<lparr>stat := RT_THREAD_READY\<rparr>)"
    if w: "elems (tlists s) (Mutex_wait x) = w # ws" for w ws
  proof -
    define s1' where "s1' = upd_mutex x (\<lambda>r. r\<lparr>owner := Some w, original_priority := current_priority (threads s1 w),
        hold := hold r + 1\<rparr>) s1"
    from pass w el obtain e where lr: "rt_ipc_list_resume (Mutex_wait x) s1' = Some (e, s2)"
      by (auto simp: mutex_pass_on_def s1'_def bind_eq_Some_conv)
    have k1: "kinv s1'" using m(1) by (simp add: s1'_def)
    have "current_priority (threads s1 w) = current_priority (threads s w)" using m(5) [of w] nw w by auto
    then have "mutexes s1' x = (mutexes s x)\<lparr>owner := Some w, hold := 1, original_priority := current_priority (threads s w)\<rparr>"
      by (simp add: s1'_def m1)
    then have mx: "mutexes s2 x = (mutexes s x)\<lparr>owner := Some w, hold := 1, original_priority := current_priority (threads s w)\<rparr>"
      using ipc_dataD(2) [OF list_resume_data [OF lr]] by simp
    have h: "is_wait (Mutex_wait x)" by simp
    have e1: "elems (tlists s1') (Mutex_wait x) = w # ws" "threads s1' = threads s1"
      using w el by (simp_all add: s1'_def)
    show ?thesis
      using mx e1 by (auto intro: list_resume_first [OF lr k1 h])
  qed
  show "elems (tlists s) (Mutex_wait x) = w # ws \<Longrightarrow>
      mutexes s' x = (mutexes s x)\<lparr>owner := Some w, hold := 1, original_priority := current_priority (threads s w)\<rparr> \<and>
      stat (threads s' w) = RT_THREAD_READY \<and> elems (tlists s') (Mutex_wait x) = ws"
    using w by (simp add: s')
  have "current_priority (threads s2 u) = current_priority (threads s1 u)"
  proof (cases "elems (tlists s) (Mutex_wait x)")
    case Nil
    then show ?thesis using pass by (auto simp: mutex_pass_on_def el)
  next
    case (Cons v vs)
    then show ?thesis using w [OF Cons] by simp
  qed
  then show "current_priority (threads s' u) = original_priority (mutexes s x)" using m(4) by (simp add: s')
qed

lemma mutex_release_ok:
  assumes op: "rt_mutex_release x s = Some (r, s')" and inv: "kinv s" and me: "self_ready s" and ok: "mutex_ok s x"
    and cur: "rt_current_thread s \<noteq> None"
  shows "mutex_ok s' x"
  using op
proof (cases rule: mutex_release_cases)
  case (held)
  then show ?thesis using ok cur by (auto simp: mutex_ok_def Let_def split: option.splits)
next
  case (last u s1 s2 b)
  have "u \<notin> set (elems (tlists s) (Mutex_wait x))"
    using wait_thread [OF inv, of "Mutex_wait x" u] me last(1) by (auto simp: self_ready_def)
  note m = mutex_release_last [OF op inv me last(1-3) this]
  show ?thesis
    using m(3,4) ok last(2) by (cases "elems (tlists s) (Mutex_wait x)") (auto simp: mutex_ok_def Let_def)
qed (use ok in \<open>auto simp: mutex_ok_def Let_def split: option.splits\<close>)

text \<open>While another thread owns the mutex nobody gets it.\<close>

lemma mutex_excludes:
  assumes op: "rt_mutex_take x time s = Some (out, s')" and inv: "kinv s" and me: "self_ready s"
    and ok: "mutex_ok s x" and u: "owner (mutexes s x) = Some u" "rt_current_thread s \<noteq> Some u"
  shows "out \<noteq> Returned RT_EOK \<and> mutexes s' x = mutexes s x"
  using op
proof (cases rule: mutex_take_cases)
  case (4 t s1 s2)
  let ?s = "upd_thread t (\<lambda>r. r\<lparr>th_error := RT_EOK\<rparr>) s"
  have k: "kinv ?s" using inv by (rule kinv_error)
  have st: "stat (threads ?s t) = RT_THREAD_READY" using me 4(1) by (simp add: self_ready_def)
  have "mutexes s2 = mutexes s"
  proof (rule mutex_inherit_keeps [OF 4(6) k st])
    fix v
    assume v: "owner (mutexes ?s x) = Some v" "kinv s1" "ipc_data s1 = ipc_data ?s"
      "\<And>w. w \<noteq> v \<Longrightarrow> threads s1 w = threads ?s w"
    then have "threads s1 t = threads ?s t" using 4(2) by (intro v(4)) auto
    then have "ipc_data s2 = ipc_data s1" using st by (intro wait_data [OF 4(7) v(2)]) simp_all
    with v(3) show ?thesis by (simp add: ipc_data_def)
  qed
  then show ?thesis using 4(5) schedule_same(6) [OF 4(8)] by simp
qed (use ok u in \<open>auto simp: mutex_ok_def Let_def rt_errs\<close>)

text \<open>A thread that waits lends its priority: the owner runs at no lower priority.\<close>

lemma mutex_lends:
  assumes op: "rt_mutex_take x time s = Some (Blocked t, s')" and inv: "kinv s" and me: "self_ready s"
    and u: "owner (mutexes s x) = Some u"
  shows "u \<noteq> t \<and>
    current_priority (threads s' u) = min (current_priority (threads s u)) (current_priority (threads s t))"
  using op
proof (cases rule: mutex_take_cases)
  case (4 t' s1 s2)
  have t: "t' = t" using 4(5) by simp
  let ?s = "upd_thread t (\<lambda>r. r\<lparr>th_error := RT_EOK\<rparr>) s"
  have k: "kinv ?s" using inv by (rule kinv_error)
  have st: "stat (threads ?s t) = RT_THREAD_READY" using me 4(1) t by (simp add: self_ready_def)
  have ut: "u \<noteq> t" using 4(2) t u by auto
  have "current_priority (threads s2 u) = min (current_priority (threads s u)) (current_priority (threads s t))"
  proof (rule mutex_inherit_keeps [OF 4(6) [unfolded t] k st])
    fix v
    assume v: "owner (mutexes ?s x) = Some v" "kinv s1"
      "\<And>w. w \<noteq> v \<Longrightarrow> threads s1 w = threads ?s w"
      "current_priority (threads s1 v) = min (current_priority (threads ?s v)) (current_priority (threads ?s t))"
    have "threads s1 t = threads ?s t" using ut v(1) u by (intro v(3)) auto
    then have st1: "stat (threads s1 t) = RT_THREAD_READY" using st by simp
    have "current_priority (threads s2 u) = current_priority (threads s1 u)"
      by (rule wait_prio [OF 4(7) [unfolded t] v(2) st1]) simp
    then show ?thesis using v(1,4) u ut by simp
  qed
  then show ?thesis using ut schedule_same(1) [OF 4(8)] by simp
qed (simp_all)

end
