(* ===== verification/Event.thy ===== *)
theory Event
  imports Mutex
begin

text \<open>
  The events of \<^verbatim>\<open>src/ipc.c\<close>: sets of 32 flags on which threads wait for all or any of a
  set of flags.
\<close>

subsection \<open>Operations\<close>

definition rt_event_init :: "nat \<Rightarrow> u8 list \<Rightarrow> u8 \<Rightarrow> kstate \<Rightarrow> (rt_err_t \<times> kstate) option" where
  "rt_event_init x nm flag s = do {
     s \<leftarrow> rt_object_init (Event_o x) RT_Object_Class_Event nm s;
     let s = upd_obj (Event_o x) (\<lambda>r. r\<lparr>o_flag := flag\<rparr>) s;
     s \<leftarrow> on_tlists (l_init_head (Event_wait x)) s;
     Some (RT_EOK, upd_event x (\<lambda>r. r\<lparr>ev_set := 0\<rparr>) s)
   }"

definition rt_event_detach :: "nat \<Rightarrow> kstate \<Rightarrow> (rt_err_t \<times> kstate) option" where
  "rt_event_detach x s = do {
     (_, s) \<leftarrow> rt_ipc_list_resume_all (Event_wait x) s;
     Some (RT_EOK, rt_object_detach (Event_o x) s)
   }"

definition rt_event_create :: "u8 list \<Rightarrow> u8 \<Rightarrow> kstate \<Rightarrow> (nat \<times> kstate) option" where
  "rt_event_create nm flag s = do {
     s \<leftarrow> rt_debug_not_in_interrupt s;
     (x, s) \<leftarrow> rt_object_allocate RT_Object_Class_Event nm s;
     if x = 0 then Some (0, s)
     else do {
       let s = upd_obj (Event_o x) (\<lambda>r. r\<lparr>o_flag := flag\<rparr>) s;
       s \<leftarrow> on_tlists (l_init_head (Event_wait x)) s;
       Some (x, upd_event x (\<lambda>r. r\<lparr>ev_set := 0\<rparr>) s)
     }
   }"

definition rt_event_delete :: "nat \<Rightarrow> kstate \<Rightarrow> (rt_err_t \<times> kstate) option" where
  "rt_event_delete x s = do {
     s \<leftarrow> rt_debug_not_in_interrupt s;
     (_, s) \<leftarrow> rt_ipc_list_resume_all (Event_wait x) s;
     s \<leftarrow> rt_object_delete (Event_o x) s;
     Some (RT_EOK, s)
   }"

text \<open>Whether a set of flags satisfies a thread.\<close>

definition event_satisfied :: "u8 \<Rightarrow> u32 \<Rightarrow> u32 \<Rightarrow> bool" where
  "event_satisfied opt wanted flags \<longleftrightarrow>
     (if opt AND RT_EVENT_FLAG_AND \<noteq> 0 then flags AND wanted = wanted
      else if opt AND RT_EVENT_FLAG_OR \<noteq> 0 then flags AND wanted \<noteq> 0
      else False)"

text \<open>The loop of \<^verbatim>\<open>rt_event_send\<close> over the waiting threads. The pointer to the next node is
  read before a thread leaves the list, so the loop visits the list as it was.\<close>

fun event_send_loop :: "nat \<Rightarrow> tid list \<Rightarrow> bool \<Rightarrow> kstate \<Rightarrow> (bool \<times> kstate) option" where
  "event_send_loop x [] need_schedule s = Some (need_schedule, s)"
| "event_send_loop x (t # ts) need_schedule s =
     (let th = threads s t; e = events s x in
      if event_satisfied (event_info th) (event_set th) (ev_set e) then do {
        let s = (if event_info th AND RT_EVENT_FLAG_AND = 0
                 then upd_thread t (\<lambda>r. r\<lparr>event_set := event_set r AND ev_set e\<rparr>) s else s);
        let s = (if event_info th AND RT_EVENT_FLAG_CLEAR \<noteq> 0
                 then upd_event x (\<lambda>r. r\<lparr>ev_set := ev_set r AND NOT (event_set (threads s t))\<rparr>) s else s);
        (_, s) \<leftarrow> rt_thread_resume t s;
        event_send_loop x ts True s
      }
      else event_send_loop x ts need_schedule s)"

definition rt_event_send :: "nat \<Rightarrow> u32 \<Rightarrow> kstate \<Rightarrow> (rt_err_t \<times> kstate) option" where
  "rt_event_send x flags s =
     (if flags = 0 then Some (- RT_ERROR, s)
      else do {
        let s = upd_event x (\<lambda>r. r\<lparr>ev_set := ev_set r OR flags\<rparr>) s;
        (need_schedule, s) \<leftarrow> event_send_loop x (elems (tlists s) (Event_wait x)) False s;
        s \<leftarrow> (if need_schedule then rt_schedule s else Some s);
        Some (RT_EOK, s)
      })"

text \<open>The received flags are written through a pointer: \<open>None\<close> when nothing is written.\<close>

definition rt_event_recv ::
  "nat \<Rightarrow> u32 \<Rightarrow> u8 \<Rightarrow> u32 \<Rightarrow> kstate \<Rightarrow> ((rt_err_t \<times> u32 option, tid) outcome \<times> kstate) option" where
  "rt_event_recv x wanted opt timeout s = do {
     s \<leftarrow> rt_debug_not_in_interrupt s;
     if wanted = 0 then Some (Returned (- RT_ERROR, None), s)
     else do {
       t \<leftarrow> rt_thread_self s;
       let s = upd_thread t (\<lambda>r. r\<lparr>th_error := RT_EOK\<rparr>) s;
       if event_satisfied opt wanted (ev_set (events s x)) then
         let recved = ev_set (events s x) AND wanted;
             s = (if opt AND RT_EVENT_FLAG_CLEAR \<noteq> 0
                  then upd_event x (\<lambda>r. r\<lparr>ev_set := ev_set r AND NOT wanted\<rparr>) s else s)
         in Some (Returned (th_error (threads s t), Some recved), s)
       else if timeout = 0 then
         let s = upd_thread t (\<lambda>r. r\<lparr>th_error := - RT_ETIMEOUT\<rparr>) s
         in Some (Returned (th_error (threads s t), None), s)
       else do {
         let s = upd_thread t (\<lambda>r. r\<lparr>event_set := wanted, event_info := opt\<rparr>) s;
         s \<leftarrow> ipc_wait (Event_wait x) t (o_flag (objs s (Event_o x))) timeout s;
         s \<leftarrow> rt_schedule s;
         Some (Blocked t, s)
       }
     }
   }"

definition rt_event_recv_resumed :: "tid \<Rightarrow> kstate \<Rightarrow> rt_err_t \<times> u32 option" where
  "rt_event_recv_resumed t s =
     (if th_error (threads s t) \<noteq> RT_EOK then (th_error (threads s t), None)
      else (th_error (threads s t), Some (event_set (threads s t))))"

definition rt_event_control :: "nat \<Rightarrow> u8 \<Rightarrow> u32 \<Rightarrow> kstate \<Rightarrow> (rt_err_t \<times> kstate) option" where
  "rt_event_control x cmd arg s =
     (if cmd = RT_IPC_CMD_RESET then do {
        (_, s) \<leftarrow> rt_ipc_list_resume_all (Event_wait x) s;
        let s = upd_event x (\<lambda>r. r\<lparr>ev_set := 0\<rparr>) s;
        s \<leftarrow> rt_schedule s;
        Some (RT_EOK, s)
      }
      else Some (- RT_ERROR, s))"

subsection \<open>The operations keep the invariant\<close>

lemma kinv_event_init: "rt_event_init x nm flag s = Some (r, s') \<Longrightarrow> kinv s \<Longrightarrow> kinv s'"
  by (auto simp: rt_event_init_def bind_eq_Some_conv l_init_head_def Let_def split: if_splits
      intro!: kinv_objs intro: kinv_object_init)

lemma kinv_event_create: "rt_event_create nm flag s = Some (x, s') \<Longrightarrow> kinv s \<Longrightarrow> kinv s'"
  by (auto simp: rt_event_create_def rt_debug_not_in_interrupt_def bind_eq_Some_conv l_init_head_def
      Let_def split: if_splits intro!: kinv_objs dest: kinv_ipc_allocate)

lemma kinv_event_detach: "rt_event_detach x s = Some (r, s') \<Longrightarrow> kinv s \<Longrightarrow> kinv s'"
  by (auto simp: rt_event_detach_def bind_eq_Some_conv intro!: kinv_object_detach elim: kinv_resume_all)

lemma kinv_event_delete: "rt_event_delete x s = Some (r, s') \<Longrightarrow> kinv s \<Longrightarrow> kinv s'"
  by (auto simp: rt_event_delete_def rt_debug_not_in_interrupt_def bind_eq_Some_conv
      elim!: kinv_object_delete kinv_resume_all)

lemma kinv_event_control: "rt_event_control x cmd arg s = Some (r, s') \<Longrightarrow> kinv s \<Longrightarrow> kinv s'"
  by (auto simp: rt_event_control_def bind_eq_Some_conv split: if_splits
      elim!: kinv_schedule dest: kinv_resume_all)

text \<open>A record of a thread that differs only in what it waits for.\<close>

lemma kinv_event_fields:
  "kinv s \<Longrightarrow> kinv (upd_thread t (\<lambda>r. r\<lparr>event_set := w\<rparr>) s)"
  "kinv s \<Longrightarrow> kinv (upd_thread t (\<lambda>r. r\<lparr>event_set := w, event_info := b\<rparr>) s)"
  using kinv_thread_ok [of s t] by (simp_all add: kinv_thread)

lemma event_recv_cases:
  assumes op: "rt_event_recv x wanted opt timeout s = Some (out, s')"
  obtains (zero) "wanted = 0" "out = Returned (- RT_ERROR, None)" "s' = s"
  | (got) t where "wanted \<noteq> 0" "rt_current_thread s = Some t" "event_satisfied opt wanted (ev_set (events s x))"
      "out = Returned (RT_EOK, Some (ev_set (events s x) AND wanted))"
      "s' = upd_event x (\<lambda>r. r\<lparr>ev_set := if opt AND RT_EVENT_FLAG_CLEAR \<noteq> 0 then ev_set r AND NOT wanted else ev_set r\<rparr>)
         (upd_thread t (\<lambda>r. r\<lparr>th_error := RT_EOK\<rparr>) s)"
  | (none) t where "wanted \<noteq> 0" "rt_current_thread s = Some t" "\<not> event_satisfied opt wanted (ev_set (events s x))"
      "timeout = 0" "out = Returned (- RT_ETIMEOUT, None)"
      "s' = upd_thread t (\<lambda>r. r\<lparr>th_error := - RT_ETIMEOUT\<rparr>) s"
  | (blocked) t s1 where "wanted \<noteq> 0" "rt_current_thread s = Some t"
      "\<not> event_satisfied opt wanted (ev_set (events s x))" "timeout \<noteq> 0" "out = Blocked t"
      "ipc_wait (Event_wait x) t (o_flag (objs s (Event_o x))) timeout
         (upd_thread t (\<lambda>r. r\<lparr>th_error := RT_EOK, event_set := wanted, event_info := opt\<rparr>) s) = Some s1"
      "rt_schedule s1 = Some s'"
proof (cases "wanted = 0")
  case True
  with op that(1) show ?thesis by (simp add: rt_event_recv_def rt_debug_not_in_interrupt_def)
next
  case w: False
  from op w obtain t where t: "rt_current_thread s = Some t"
    by (auto simp: rt_event_recv_def rt_debug_not_in_interrupt_def bind_eq_Some_conv rt_thread_self_def)
  show ?thesis
  proof (cases "event_satisfied opt wanted (ev_set (events s x))")
    case True
    with op w t that(2) show ?thesis
      by (cases "opt AND RT_EVENT_FLAG_CLEAR = 0")
         (simp_all add: rt_event_recv_def rt_debug_not_in_interrupt_def rt_thread_self_def)
  next
    case no: False
    show ?thesis
    proof (cases "timeout = 0")
      case True
      with op w t no that(3) show ?thesis
        by (simp add: rt_event_recv_def rt_debug_not_in_interrupt_def rt_thread_self_def)
    next
      case False
      with op w t no that(4) show ?thesis
        by (auto simp: rt_event_recv_def rt_debug_not_in_interrupt_def rt_thread_self_def bind_eq_Some_conv)
    qed
  qed
qed

lemma kinv_event_recv:
  assumes op: "rt_event_recv x wanted opt timeout s = Some (out, s')" and inv: "kinv s" and me: "self_ready s"
  shows "kinv s'"
  using op
proof (cases rule: event_recv_cases)
  case (got t)
  then show ?thesis using kinv_error [OF inv, of t RT_EOK] by simp
next
  case (none t)
  then show ?thesis using kinv_error [OF inv, of t "- RT_ETIMEOUT"] by simp
next
  case (blocked t s1)
  let ?s = "upd_thread t (\<lambda>r. r\<lparr>th_error := RT_EOK, event_set := wanted, event_info := opt\<rparr>) s"
  have "kinv ?s" using kinv_thread_ok [OF inv, of t] by (intro kinv_thread [OF inv]) simp_all
  moreover have "stat (threads ?s t) = RT_THREAD_READY"
    using me blocked(2) by (simp add: self_ready_def)
  ultimately have "kinv s1" by (intro kinv_wait [OF blocked(6)]) simp_all
  then show ?thesis by (rule kinv_schedule [OF blocked(7)])
qed (use inv in simp)

subsection \<open>No satisfied thread waits\<close>

text \<open>Clearing flags satisfies nobody.\<close>

lemma event_satisfied_clear:
  assumes "event_satisfied opt w (f AND g)" shows "event_satisfied opt w f"
proof -
  have "f AND w = w" if "(f AND g) AND w = w"
    by (metis that and.assoc and.commute and.left_idem)
  moreover have "f AND w \<noteq> 0" if "(f AND g) AND w \<noteq> 0"
  proof -
    have "(f AND g) AND w = g AND (f AND w)" by (simp add: and.assoc and.commute and.left_commute)
    with that show ?thesis by auto
  qed
  ultimately show ?thesis using assms by (auto simp: event_satisfied_def split: if_splits)
qed

definition event_waits :: "kstate \<Rightarrow> nat \<Rightarrow> tid \<Rightarrow> bool" where
  "event_waits s x t \<longleftrightarrow>
     \<not> event_satisfied (event_info (threads s t)) (event_set (threads s t)) (ev_set (events s x))"

definition event_ok :: "kstate \<Rightarrow> nat \<Rightarrow> bool" where
  "event_ok s x \<longleftrightarrow> (\<forall>t \<in> set (elems (tlists s) (Event_wait x)). event_waits s x t)"

text \<open>One thread of the list is woken.\<close>

definition event_wake :: "nat \<Rightarrow> tid \<Rightarrow> kstate \<Rightarrow> kstate" where
  "event_wake x t s =
     (let s1 = (if event_info (threads s t) AND RT_EVENT_FLAG_AND = 0
                then upd_thread t (\<lambda>r. r\<lparr>event_set := event_set r AND ev_set (events s x)\<rparr>) s else s)
      in if event_info (threads s t) AND RT_EVENT_FLAG_CLEAR \<noteq> 0
         then upd_event x (\<lambda>r. r\<lparr>ev_set := ev_set r AND NOT (event_set (threads s1 t))\<rparr>) s1 else s1)"

lemma event_send_loop_Cons:
  "event_send_loop x (t # ts) b s =
     (if event_waits s x t then event_send_loop x ts b s
      else Option.bind (rt_thread_resume t (event_wake x t s)) (\<lambda>(_, s). event_send_loop x ts True s))"
  by (simp add: event_waits_def event_wake_def Let_def)

lemma event_wake_same:
  "tlists (event_wake x t s) = tlists s" "u \<noteq> t \<Longrightarrow> threads (event_wake x t s) u = threads s u"
  "stat (threads (event_wake x t s) t) = stat (threads s t)"
  "event_info (threads (event_wake x t s) t) = event_info (threads s t)"
  "\<exists>g. ev_set (events (event_wake x t s) x) = ev_set (events s x) AND g"
  by (auto simp: event_wake_def Let_def intro: exI [of _ "- 1"])

lemma kinv_event_wake: "kinv s \<Longrightarrow> kinv (event_wake x t s)"
  using kinv_event_fields(1) [of s t "event_set (threads s t) AND ev_set (events s x)"]
  by (auto simp: event_wake_def Let_def)

text \<open>The loop returns, and leaves on the list only threads that are not satisfied.\<close>

lemma event_send_loop:
  assumes "kinv s" "distinct ts" "set ts \<subseteq> set (elems (tlists s) (Event_wait x))"
    and "\<forall>t \<in> set (elems (tlists s) (Event_wait x)) - set ts. event_waits s x t"
  shows "\<exists>b' s'. event_send_loop x ts b s = Some (b', s') \<and> kinv s' \<and> event_ok s' x"
  using assms
proof (induction ts arbitrary: b s)
  case Nil
  then show ?case by (auto simp: event_ok_def)
next
  case (Cons t ts)
  show ?case
  proof (cases "event_waits s x t")
    case True
    have "\<exists>b' s'. event_send_loop x ts b s = Some (b', s') \<and> kinv s' \<and> event_ok s' x"
      using Cons.prems True by (intro Cons.IH) auto
    with True show ?thesis by (simp only: event_send_loop_Cons if_True)
  next
    case False
    let ?s = "event_wake x t s" and ?h = "Event_wait x"
    have k: "kinv ?s" using Cons.prems(1) by (rule kinv_event_wake)
    have st: "stat (threads ?s t) = RT_THREAD_SUSPEND"
      using wait_thread [OF Cons.prems(1), of ?h t] Cons.prems(3) by (simp add: event_wake_same)
    obtain s1 where r: "rt_thread_resume t ?s = Some (RT_EOK, s1)"
      using rt_thread_resume_total [OF k st] by blast
    have h: "is_wait ?h" by simp
    note u = thread_resume_suspended [OF r k st h]
    have e: "elems (tlists s1) ?h = remove1 t (elems (tlists s) ?h)" using u(1) by (simp add: event_wake_same)
    have wf: "wf_lists (tlists s)" using Cons.prems(1) by (auto simp: kinv_def sched_inv_def dest: sched_but_wf)
    then have d: "distinct (elems (tlists s) ?h)" by (rule wf_listsD(1))
    obtain g where g: "ev_set (events s1 x) = ev_set (events s x) AND g"
      using event_wake_same(5) [of x t s] ipc_dataD(3) [OF resume_data [OF r]] by auto
    have w: "event_waits s1 x v" if "event_waits s x v" "v \<noteq> t" for v
      using that g u(2) by (auto simp: event_waits_def event_wake_same dest: event_satisfied_clear)
    have "\<exists>b' s'. event_send_loop x ts True s1 = Some (b', s') \<and> kinv s' \<and> event_ok s' x"
    proof (rule Cons.IH)
      show "kinv s1" by (rule kinv_resume [OF r k])
      show "distinct ts" using Cons.prems(2) by simp
      show "set ts \<subseteq> set (elems (tlists s1) ?h)" using Cons.prems(2,3) by (auto simp: e d)
      show "\<forall>v \<in> set (elems (tlists s1) ?h) - set ts. event_waits s1 x v"
        using Cons.prems(4) w by (auto simp: e d)
    qed
    with False r show ?thesis by (simp only: event_send_loop_Cons if_False bind.bind_lunit prod.case)
  qed
qed

lemma event_send_state:
  assumes inv: "kinv s" and f: "flags \<noteq> 0"
  shows "\<exists>b s1. event_send_loop x (elems (tlists s) (Event_wait x)) False
      (upd_event x (\<lambda>r. r\<lparr>ev_set := ev_set r OR flags\<rparr>) s) = Some (b, s1) \<and> kinv s1 \<and> event_ok s1 x \<and>
    rt_event_send x flags s = Option.bind (if b then rt_schedule s1 else Some s1) (\<lambda>s. Some (RT_EOK, s))"
proof -
  have wf: "wf_lists (tlists s)" using inv by (auto simp: kinv_def sched_inv_def dest: sched_but_wf)
  have k: "kinv (upd_event x (\<lambda>r. r\<lparr>ev_set := ev_set r OR flags\<rparr>) s)" using inv by simp
  have "distinct (elems (tlists s) (Event_wait x))" using wf by (rule wf_listsD(1))
  then obtain b s1 where l: "event_send_loop x (elems (tlists s) (Event_wait x)) False
      (upd_event x (\<lambda>r. r\<lparr>ev_set := ev_set r OR flags\<rparr>) s) = Some (b, s1)" "kinv s1" "event_ok s1 x"
    using event_send_loop [OF k, of "elems (tlists s) (Event_wait x)" x False] by auto
  then have "rt_event_send x flags s = Option.bind (if b then rt_schedule s1 else Some s1) (\<lambda>s. Some (RT_EOK, s))"
    using f by (simp add: rt_event_send_def)
  with l show ?thesis by blast
qed

lemma kinv_event_send: "rt_event_send x flags s = Some (r, s') \<Longrightarrow> kinv s \<Longrightarrow> kinv s'"
proof (cases "flags = 0")
  case False
  assume op: "rt_event_send x flags s = Some (r, s')" and inv: "kinv s"
  from event_send_state [OF inv False, of x] obtain b s1 where b: "kinv s1"
    "rt_event_send x flags s = Option.bind (if b then rt_schedule s1 else Some s1) (\<lambda>s. Some (RT_EOK, s))"
    by blast
  have "(if b then rt_schedule s1 else Some s1) = Some s'"
    using op [unfolded b(2)] by (cases b) (simp_all add: bind_eq_Some_conv)
  then show "kinv s'" using b(1) by (cases b) (auto elim: kinv_schedule)
qed (simp add: rt_event_send_def)

lemma event_send_settles:
  assumes op: "rt_event_send x flags s = Some (r, s')" and inv: "kinv s" and f: "flags \<noteq> 0"
  shows "event_ok s' x"
proof -
  from event_send_state [OF inv f, of x] obtain b s1 where b: "event_ok s1 x"
    "rt_event_send x flags s = Option.bind (if b then rt_schedule s1 else Some s1) (\<lambda>s. Some (RT_EOK, s))"
    by blast
  have "(if b then rt_schedule s1 else Some s1) = Some s'"
    using op [unfolded b(2)] by (cases b) (simp_all add: bind_eq_Some_conv)
  with b(1) show ?thesis using schedule_same(1,2,7) [of s1 s']
    by (cases b) (simp_all add: event_ok_def event_waits_def)
qed

lemma event_send_ok:
  assumes op: "rt_event_send x flags s = Some (r, s')" and inv: "kinv s" and ok: "event_ok s x"
  shows "event_ok s' x"
proof (cases "flags = 0")
  case False
  then show ?thesis by (rule event_send_settles [OF op inv])
qed (use op ok in \<open>simp add: rt_event_send_def\<close>)

text \<open>A thread waits for at least one flag and says which way: the ready threads' fields are
  written before they wait.\<close>

lemma event_recv_ok:
  assumes op: "rt_event_recv x wanted opt timeout s = Some (out, s')" and inv: "kinv s" and me: "self_ready s"
    and ok: "event_ok s x" and hard: "\<And>t. rt_current_thread s = Some t \<Longrightarrow> hard_timer s t"
    and flag: "o_flag (objs s (Event_o x)) = RT_IPC_FLAG_FIFO \<or> o_flag (objs s (Event_o x)) = RT_IPC_FLAG_PRIO"
  shows "event_ok s' x"
  using op
proof (cases rule: event_recv_cases)
  case (got t)
  have "event_waits s' x u" if "event_waits s x u" for u
    using that by (auto simp: got(5) event_waits_def dest: event_satisfied_clear)
  then show ?thesis using ok by (simp add: event_ok_def got(5))
next
  case (blocked t s1)
  let ?s = "upd_thread t (\<lambda>r. r\<lparr>th_error := RT_EOK, event_set := wanted, event_info := opt\<rparr>) s"
  have k: "kinv ?s" using kinv_thread_ok [OF inv, of t] by (intro kinv_thread [OF inv]) simp_all
  have st: "stat (threads ?s t) = RT_THREAD_READY"
    using me blocked(2) by (simp add: self_ready_def)
  have h: "is_wait (Event_wait x)" by simp
  have hd: "hard_timer ?s t" using hard [OF blocked(2)] by (simp add: hard_timer_def)
  note w = ipc_wait_threads [OF blocked(6) k st h flag hd]
  have ev: "events s1 = events s" using ipc_dataD(3) [OF wait_data [OF blocked(6) k st h]] by simp
  have set: "set (elems (tlists s') (Event_wait x)) = insert t (set (elems (tlists s) (Event_wait x)))"
    using w(2) schedule_same(2) [OF blocked(7)] by simp
  have "t \<notin> set (elems (tlists s) (Event_wait x))"
    using wait_thread [OF inv h, of t] me blocked(2) by (auto simp: self_ready_def)
  moreover have "event_waits s' x u" if "u \<noteq> t" "event_waits s x u" for u
    using that w(1) ev schedule_same(1,7) [OF blocked(7)] by (simp add: event_waits_def)
  moreover have "event_waits s' x t"
    using blocked(3) w(1) ev schedule_same(1,7) [OF blocked(7)] by (simp add: event_waits_def)
  ultimately show ?thesis using ok unfolding event_ok_def set by (metis insert_iff)
qed (use ok in \<open>auto simp: event_ok_def event_waits_def\<close>)

lemma event_control_ok:
  assumes op: "rt_event_control x cmd arg s = Some (r, s')" and inv: "kinv s" and ok: "event_ok s x"
  shows "event_ok s' x"
proof (cases "cmd = RT_IPC_CMD_RESET")
  case True
  obtain s1 where s1: "rt_ipc_list_resume_all (Event_wait x) s = Some (RT_EOK, s1)"
    "elems (tlists s1) (Event_wait x) = []"
    using resume_all [OF inv, of "Event_wait x"] by auto
  with True op have "rt_schedule (upd_event x (\<lambda>r. r\<lparr>ev_set := 0\<rparr>) s1) = Some s'"
    by (auto simp: rt_event_control_def bind_eq_Some_conv)
  then show ?thesis using s1(2) schedule_same(2) by (simp add: event_ok_def)
qed (use op ok in \<open>simp add: rt_event_control_def\<close>)

text \<open>The thread that a flag set wakes has received, when it asked for any of its flags, the
  flags of its set that are there.\<close>

lemma event_wake_received:
  assumes "\<not> event_waits s x t"
  shows "event_set (threads (event_wake x t s) t) =
    (if event_info (threads s t) AND RT_EVENT_FLAG_AND = 0
     then event_set (threads s t) AND ev_set (events s x) else event_set (threads s t))"
    "event_info (threads s t) AND RT_EVENT_FLAG_CLEAR \<noteq> 0 \<Longrightarrow>
     ev_set (events (event_wake x t s) x) AND event_set (threads (event_wake x t s) t) = 0"
    "event_info (threads s t) AND RT_EVENT_FLAG_AND = 0 \<Longrightarrow> event_set (threads (event_wake x t s) t) \<noteq> 0"
  using assms
  by (auto simp: event_wake_def event_waits_def event_satisfied_def Let_def and.assoc and.commute
      and.left_commute split: if_splits)

end
