(* ===== verification/Mailbox.thy ===== *)
theory Mailbox
  imports Event Bounded_Queue
begin

text \<open>
  The mailboxes of \<^verbatim>\<open>src/ipc.c\<close>: a ring of 32-bit mails, with threads that wait for a
  mail and threads that wait for room.
\<close>

subsection \<open>The ring\<close>

definition mb_full :: "rt_mailbox \<Rightarrow> bool" where
  "mb_full m \<longleftrightarrow> mb_entry m = mb_size m"

definition mb_empty :: "rt_mailbox \<Rightarrow> bool" where
  "mb_empty m \<longleftrightarrow> mb_entry m = 0"

definition mb_put :: "u32 \<Rightarrow> rt_mailbox \<Rightarrow> rt_mailbox option" where
  "mb_put v m = do {
     m \<leftarrow> rt_assert (in_offset m < mb_size m) m;
     let m = m\<lparr>mb_msgs := (mb_msgs m)(unat (in_offset m) := v)\<rparr>;
     let m = m\<lparr>in_offset := in_offset m + 1\<rparr>;
     let m = (if in_offset m \<ge> mb_size m then m\<lparr>in_offset := 0\<rparr> else m);
     Some (m\<lparr>mb_entry := mb_entry m + 1\<rparr>)
   }"

definition mb_get :: "rt_mailbox \<Rightarrow> (u32 \<times> rt_mailbox) option" where
  "mb_get m = do {
     m \<leftarrow> rt_assert (out_offset m < mb_size m) m;
     let v = mb_msgs m (unat (out_offset m));
     let m = m\<lparr>out_offset := out_offset m + 1\<rparr>;
     let m = (if out_offset m \<ge> mb_size m then m\<lparr>out_offset := 0\<rparr> else m);
     Some (v, m\<lparr>mb_entry := mb_entry m - 1\<rparr>)
   }"

subsection \<open>Operations\<close>

definition rt_mb_init ::
  "nat \<Rightarrow> u8 list \<Rightarrow> nat \<Rightarrow> u32 \<Rightarrow> u8 \<Rightarrow> kstate \<Rightarrow> (rt_err_t \<times> kstate) option" where
  "rt_mb_init x nm msgpool sz flag s = do {
     s \<leftarrow> rt_object_init (MailBox_o x) RT_Object_Class_MailBox nm s;
     let s = upd_obj (MailBox_o x) (\<lambda>r. r\<lparr>o_flag := flag\<rparr>) s;
     s \<leftarrow> on_tlists (l_init_head (Mb_wait x)) s;
     let s = upd_mb x (\<lambda>r. r\<lparr>mb_msg_pool := msgpool, mb_size := ucast sz, mb_entry := 0,
               in_offset := 0, out_offset := 0\<rparr>) s;
     s \<leftarrow> on_tlists (l_init_head (Mb_send_wait x)) s;
     Some (RT_EOK, s)
   }"

definition rt_mb_detach :: "nat \<Rightarrow> kstate \<Rightarrow> (rt_err_t \<times> kstate) option" where
  "rt_mb_detach x s = do {
     (_, s) \<leftarrow> rt_ipc_list_resume_all (Mb_wait x) s;
     (_, s) \<leftarrow> rt_ipc_list_resume_all (Mb_send_wait x) s;
     Some (RT_EOK, rt_object_detach (MailBox_o x) s)
   }"

definition rt_mb_create :: "u8 list \<Rightarrow> u32 \<Rightarrow> u8 \<Rightarrow> kstate \<Rightarrow> (nat \<times> kstate) option" where
  "rt_mb_create nm sz flag s = do {
     s \<leftarrow> rt_debug_not_in_interrupt s;
     (x, s) \<leftarrow> rt_object_allocate RT_Object_Class_MailBox nm s;
     if x = 0 then Some (0, s)
     else do {
       let s = upd_obj (MailBox_o x) (\<lambda>r. r\<lparr>o_flag := flag\<rparr>) s;
       s \<leftarrow> on_tlists (l_init_head (Mb_wait x)) s;
       let s = upd_mb x (\<lambda>r. r\<lparr>mb_size := ucast sz\<rparr>) s;
       (pool, s) \<leftarrow> k_malloc (ucast (mb_size (mailboxes s x)) * 4) s;
       let s = upd_mb x (\<lambda>r. r\<lparr>mb_msg_pool := pool\<rparr>) s;
       if pool = 0 then do {
         s \<leftarrow> rt_object_delete (MailBox_o x) s;
         Some (0, s)
       }
       else do {
         let s = upd_mb x (\<lambda>r. r\<lparr>mb_entry := 0, in_offset := 0, out_offset := 0\<rparr>) s;
         s \<leftarrow> on_tlists (l_init_head (Mb_send_wait x)) s;
         Some (x, s)
       }
     }
   }"

definition rt_mb_delete :: "nat \<Rightarrow> kstate \<Rightarrow> (rt_err_t \<times> kstate) option" where
  "rt_mb_delete x s = do {
     s \<leftarrow> rt_debug_not_in_interrupt s;
     (_, s) \<leftarrow> rt_ipc_list_resume_all (Mb_wait x) s;
     (_, s) \<leftarrow> rt_ipc_list_resume_all (Mb_send_wait x) s;
     s \<leftarrow> k_free (mb_msg_pool (mailboxes s x)) s;
     s \<leftarrow> rt_object_delete (MailBox_o x) s;
     Some (RT_EOK, s)
   }"

text \<open>What is left of a waiting time after a wait that began at a tick; the second result is the
  new value of the variable that held the tick.\<close>

definition ipc_remaining :: "u32 \<Rightarrow> u32 \<Rightarrow> kstate \<Rightarrow> u32 \<times> u32" where
  "ipc_remaining timeout tick_delta s =
     (if sint timeout > 0 then
        let tick_delta = rt_tick_get s - tick_delta;
            timeout = timeout - tick_delta
        in (if sint timeout < 0 then 0 else timeout, tick_delta)
      else (timeout, tick_delta))"

text \<open>What a thread that waits remembers: itself, the waiting time, and the tick at which the
  wait began.\<close>

type_synonym wait_cont = "tid \<times> u32 \<times> u32"

text \<open>The loop of \<^verbatim>\<open>rt_mb_send_wait\<close> up to the next wait.\<close>

definition mb_send_loop ::
  "nat \<Rightarrow> u32 \<Rightarrow> tid option \<Rightarrow> u32 \<Rightarrow> u32 \<Rightarrow> kstate \<Rightarrow> ((rt_err_t, wait_cont) outcome \<times> kstate) option" where
  "mb_send_loop x v thread timeout tick_delta s =
     (if mb_full (mailboxes s x) then do {
        t \<leftarrow> thread;
        let s = upd_thread t (\<lambda>r. r\<lparr>th_error := RT_EOK\<rparr>) s;
        if timeout = 0 then Some (Returned (- RT_EFULL), s)
        else do {
          s \<leftarrow> rt_debug_not_in_interrupt s;
          let tick_delta = (if sint timeout > 0 then rt_tick_get s else tick_delta);
          s \<leftarrow> ipc_wait (Mb_send_wait x) t (o_flag (objs s (MailBox_o x))) timeout s;
          s \<leftarrow> rt_schedule s;
          Some (Blocked (t, timeout, tick_delta), s)
        }
      }
      else do {
        m \<leftarrow> mb_put v (mailboxes s x);
        let s = upd_mb x (\<lambda>_. m) s;
        if elems (tlists s) (Mb_wait x) \<noteq> [] then do {
          (_, s) \<leftarrow> rt_ipc_list_resume (Mb_wait x) s;
          s \<leftarrow> rt_schedule s;
          Some (Returned RT_EOK, s)
        }
        else Some (Returned RT_EOK, s)
      })"

definition rt_mb_send_wait ::
  "nat \<Rightarrow> u32 \<Rightarrow> u32 \<Rightarrow> kstate \<Rightarrow> ((rt_err_t, wait_cont) outcome \<times> kstate) option" where
  "rt_mb_send_wait x v timeout s =
     (if mb_full (mailboxes s x) \<and> timeout = 0 then Some (Returned (- RT_EFULL), s)
      else mb_send_loop x v (rt_thread_self s) timeout 0 s)"

definition rt_mb_send_wait_resumed ::
  "nat \<Rightarrow> u32 \<Rightarrow> wait_cont \<Rightarrow> kstate \<Rightarrow> ((rt_err_t, wait_cont) outcome \<times> kstate) option" where
  "rt_mb_send_wait_resumed x v k s =
     (case k of (t, timeout, tick_delta) \<Rightarrow>
        if th_error (threads s t) \<noteq> RT_EOK then Some (Returned (th_error (threads s t)), s)
        else let (timeout, tick_delta) = ipc_remaining timeout tick_delta s
             in mb_send_loop x v (Some t) timeout tick_delta s)"

definition rt_mb_send :: "nat \<Rightarrow> u32 \<Rightarrow> kstate \<Rightarrow> ((rt_err_t, wait_cont) outcome \<times> kstate) option" where
  "rt_mb_send x v s = rt_mb_send_wait x v 0 s"

text \<open>The mail is written through a pointer: \<open>None\<close> when nothing is written.\<close>

definition mb_recv_loop ::
  "nat \<Rightarrow> tid option \<Rightarrow> u32 \<Rightarrow> u32 \<Rightarrow> kstate \<Rightarrow> ((rt_err_t \<times> u32 option, wait_cont) outcome \<times> kstate) option" where
  "mb_recv_loop x thread timeout tick_delta s =
     (if mb_empty (mailboxes s x) then do {
        t \<leftarrow> thread;
        let s = upd_thread t (\<lambda>r. r\<lparr>th_error := RT_EOK\<rparr>) s;
        if timeout = 0 then
          let s = upd_thread t (\<lambda>r. r\<lparr>th_error := - RT_ETIMEOUT\<rparr>) s
          in Some (Returned (- RT_ETIMEOUT, None), s)
        else do {
          s \<leftarrow> rt_debug_not_in_interrupt s;
          let tick_delta = (if sint timeout > 0 then rt_tick_get s else tick_delta);
          s \<leftarrow> ipc_wait (Mb_wait x) t (o_flag (objs s (MailBox_o x))) timeout s;
          s \<leftarrow> rt_schedule s;
          Some (Blocked (t, timeout, tick_delta), s)
        }
      }
      else do {
        (v, m) \<leftarrow> mb_get (mailboxes s x);
        let s = upd_mb x (\<lambda>_. m) s;
        if elems (tlists s) (Mb_send_wait x) \<noteq> [] then do {
          (_, s) \<leftarrow> rt_ipc_list_resume (Mb_send_wait x) s;
          s \<leftarrow> rt_schedule s;
          Some (Returned (RT_EOK, Some v), s)
        }
        else Some (Returned (RT_EOK, Some v), s)
      })"

definition rt_mb_recv ::
  "nat \<Rightarrow> u32 \<Rightarrow> kstate \<Rightarrow> ((rt_err_t \<times> u32 option, wait_cont) outcome \<times> kstate) option" where
  "rt_mb_recv x timeout s =
     (if mb_empty (mailboxes s x) \<and> timeout = 0 then Some (Returned (- RT_ETIMEOUT, None), s)
      else mb_recv_loop x (rt_thread_self s) timeout 0 s)"

definition rt_mb_recv_resumed ::
  "nat \<Rightarrow> wait_cont \<Rightarrow> kstate \<Rightarrow> ((rt_err_t \<times> u32 option, wait_cont) outcome \<times> kstate) option" where
  "rt_mb_recv_resumed x k s =
     (case k of (t, timeout, tick_delta) \<Rightarrow>
        if th_error (threads s t) \<noteq> RT_EOK then Some (Returned (th_error (threads s t), None), s)
        else let (timeout, tick_delta) = ipc_remaining timeout tick_delta s
             in mb_recv_loop x (Some t) timeout tick_delta s)"

definition rt_mb_control :: "nat \<Rightarrow> u8 \<Rightarrow> kstate \<Rightarrow> (rt_err_t \<times> kstate) option" where
  "rt_mb_control x cmd s =
     (if cmd = RT_IPC_CMD_RESET then do {
        (_, s) \<leftarrow> rt_ipc_list_resume_all (Mb_wait x) s;
        (_, s) \<leftarrow> rt_ipc_list_resume_all (Mb_send_wait x) s;
        let s = upd_mb x (\<lambda>r. r\<lparr>mb_entry := 0, in_offset := 0, out_offset := 0\<rparr>) s;
        s \<leftarrow> rt_schedule s;
        Some (RT_EOK, s)
      }
      else Some (- RT_ERROR, s))"

subsection \<open>The ring is a bounded queue\<close>

definition mb_ok :: "rt_mailbox \<Rightarrow> bool" where
  "mb_ok m \<longleftrightarrow> mb_entry m \<le> mb_size m \<and>
     (if mb_size m = 0 then in_offset m = 0 \<and> out_offset m = 0
      else out_offset m < mb_size m \<and>
        unat (in_offset m) = (unat (out_offset m) + unat (mb_entry m)) mod unat (mb_size m))"

definition mb_items :: "rt_mailbox \<Rightarrow> u32 list" where
  "mb_items m = map (\<lambda>i. mb_msgs m ((unat (out_offset m) + i) mod unat (mb_size m))) [0..<unat (mb_entry m)]"

lemma unat_succ_16: "a < b \<Longrightarrow> unat (a + 1 :: u16) = unat a + 1"
proof -
  assume "a < b"
  then have "unat a + 1 < 2 ^ LENGTH(16)"
    using unsigned_less [of b, where ?'a = nat] by (simp add: word_less_nat_alt)
  then show ?thesis by (simp add: unat_word_ariths)
qed

lemma ring_inj:
  fixes a :: nat
  assumes "(a + i) mod n = (a + j) mod n" "i < n" "j < n"
  shows "i = j"
proof -
  have "i mod n = j mod n"
    using assms(1) by (simp add: mod_eq_dvd_iff_nat nat_mod_eq_iff)
  then show ?thesis using assms(2,3) by simp
qed

text \<open>A step of an offset around the ring.\<close>

lemma ring_step:
  fixes a b :: u16
  assumes "a < b"
  shows "unat (if a + 1 \<ge> b then 0 else a + 1) = (unat a + 1) mod unat b"
proof (cases "a + 1 \<ge> b")
  case True
  then have "unat a + 1 = unat b"
    using assms unat_succ_16 [OF assms] by (metis Suc_eq_plus1 Suc_leI le_antisym word_le_nat_alt word_less_nat_alt)
  then show ?thesis using True by simp
next
  case False
  then show ?thesis using unat_succ_16 [OF assms] by (simp add: not_le word_less_nat_alt)
qed

lemma mb_ok_pos:
  "0 < mb_size m \<Longrightarrow> mb_ok m \<longleftrightarrow> unat (mb_entry m) \<le> unat (mb_size m) \<and> unat (out_offset m) < unat (mb_size m) \<and>
     unat (in_offset m) = (unat (out_offset m) + unat (mb_entry m)) mod unat (mb_size m)"
  by (auto simp: mb_ok_def word_le_nat_alt word_less_nat_alt)

lemma mb_offsets:
  assumes "mb_ok m" "0 < mb_size m"
  shows "in_offset m < mb_size m" "out_offset m < mb_size m" "unat (mb_entry m) \<le> unat (mb_size m)"
  using assms by (simp_all add: mb_ok_def word_less_nat_alt word_le_nat_alt split: if_splits)

lemma mb_put_Some:
  assumes ok: "mb_ok m" and room: "mb_entry m < mb_size m"
  shows "\<exists>m'. mb_put v m = Some m' \<and> mb_ok m' \<and> mb_items m' = mb_items m @ [v] \<and> mb_size m' = mb_size m"
proof -
  let ?n = "unat (mb_size m)" and ?o = "unat (out_offset m)" and ?e = "unat (mb_entry m)"
  have pos: "0 < mb_size m" using room by (metis word_neq_0_conv word_not_simps(1))
  note off = mb_offsets [OF ok pos]
  have e: "unat (mb_entry m + 1) = ?e + 1" using room by (rule unat_succ_16)
  have lt: "?e < ?n" using room by (simp add: word_less_nat_alt)
  have i: "unat (in_offset m) = (?o + ?e) mod ?n" using ok pos by (auto simp: mb_ok_def)
  let ?i = "if in_offset m + 1 \<ge> mb_size m then 0 else in_offset m + 1"
  let ?m = "m\<lparr>mb_msgs := (mb_msgs m)(unat (in_offset m) := v), in_offset := ?i, mb_entry := mb_entry m + 1\<rparr>"
  have m: "mb_put v m = Some ?m" using off(1) by (simp add: mb_put_def rt_assert_def Let_def)
  have "unat ?i = (?o + (?e + 1)) mod ?n"
    unfolding ring_step [OF off(1)] i by (simp add: mod_simps)
  then have "mb_ok ?m" using pos off(2) lt by (simp add: mb_ok_pos e word_less_nat_alt del: add_Suc_right)
  moreover have "mb_items ?m = mb_items m @ [v]"
  proof -
    have "(?o + j) mod ?n \<noteq> (?o + ?e) mod ?n" if "j < ?e" for j
      using ring_inj [of ?o j ?n ?e] that lt by auto
    then show ?thesis by (simp add: mb_items_def e i)
  qed
  ultimately show ?thesis using m by (intro exI [of _ ?m]) simp
qed

lemma mb_get_Some:
  assumes ok: "mb_ok m" and it: "mb_items m = v # vs"
  shows "\<exists>m'. mb_get m = Some (v, m') \<and> mb_ok m' \<and> mb_items m' = vs \<and> mb_size m' = mb_size m"
proof -
  let ?n = "unat (mb_size m)" and ?o = "unat (out_offset m)" and ?e = "unat (mb_entry m)"
  have e0: "0 < ?e" using it by (cases "?e = 0") (simp_all add: mb_items_def)
  have le: "?e \<le> ?n" using ok by (simp add: mb_ok_def word_le_nat_alt)
  have pos: "0 < mb_size m" using e0 le by (simp add: word_less_nat_alt)
  note off = mb_offsets [OF ok pos]
  have ne: "mb_entry m \<noteq> 0" using e0 by auto
  have e: "unat (mb_entry m - 1) = ?e - 1" using ne by (rule unat_minus_one)
  let ?i = "if out_offset m + 1 \<ge> mb_size m then 0 else out_offset m + 1"
  let ?m = "m\<lparr>out_offset := ?i, mb_entry := mb_entry m - 1\<rparr>"
  have i: "unat ?i = (?o + 1) mod ?n" by (rule ring_step [OF off(2)])
  have list: "mb_items m = mb_msgs m ?o # map (\<lambda>j. mb_msgs m ((?o + (j + 1)) mod ?n)) [0..<?e - 1]"
  proof -
    have "[0..<?e] = 0 # map Suc [0..<?e - 1]"
      using e0 by (metis Suc_pred' map_Suc_upt upt_conv_Cons)
    moreover have "?o < ?n" using off(2) by (simp add: word_less_nat_alt)
    ultimately show ?thesis by (simp add: mb_items_def)
  qed
  have m: "mb_get m = Some (mb_msgs m ?o, ?m)" using off(2) by (simp add: mb_get_def rt_assert_def Let_def)
  moreover have "mb_items ?m = map (\<lambda>j. mb_msgs m ((?o + (j + 1)) mod ?n)) [0..<?e - 1]"
  proof -
    have "(unat ?i + j) mod ?n = (?o + (j + 1)) mod ?n" for j
      unfolding i by (simp add: mod_simps)
    then show ?thesis by (simp add: mb_items_def e)
  qed
  moreover have "mb_ok ?m"
  proof -
    have "unat (in_offset m) = (unat ?i + (?e - 1)) mod ?n"
    proof -
      have "(?o + 1) mod ?n + (?e - 1) = (?e - 1) + (?o + 1) mod ?n" by (rule add.commute)
      then have "((?o + 1) mod ?n + (?e - 1)) mod ?n = (?e - 1 + (?o + 1)) mod ?n"
        by (simp only: mod_add_right_eq)
      moreover have "?e - 1 + (?o + 1) = ?o + ?e" using e0 by simp
      ultimately show ?thesis using ok pos unfolding i by (simp only: mb_ok_pos)
    qed
    moreover have "unat ?i < ?n" using pos unfolding i by (simp add: word_less_nat_alt)
    ultimately show ?thesis using pos e le by (simp add: mb_ok_pos)
  qed
  ultimately show ?thesis using it list by (intro exI [of _ ?m]) simp
qed

text \<open>The laws of the interface, one by one.\<close>

lemma mb_items_length: "length (mb_items m) = unat (mb_entry m)"
  by (simp add: mb_items_def)

lemma mb_full_iff: "mb_full m \<longleftrightarrow> length (mb_items m) = unat (mb_size m)"
  by (simp add: mb_items_length mb_full_def word_unat_eq_iff)

lemma mb_empty_iff: "mb_empty m \<longleftrightarrow> mb_items m = []"
  by (simp add: mb_items_def mb_empty_def unat_eq_zero)

interpretation mbq: bounded_queue mb_ok mb_items "\<lambda>m. unat (mb_size m)" "\<lambda>_ _. True" mb_full mb_empty mb_put mb_get
proof (unfold_locales, goal_cases)
  case (1 q)
  then show ?case by (simp add: mb_items_length mb_ok_def word_le_nat_alt)
next
  case (2 q)
  show ?case by (rule mb_full_iff)
next
  case (3 q)
  show ?case by (rule mb_empty_iff)
next
  case (4 q v)
  then have "mb_entry q < mb_size q" by (simp add: mb_items_length word_less_nat_alt)
  from mb_put_Some [OF 4(1) this, of v] show ?case by auto
next
  case (5 q v vs)
  from mb_get_Some [OF 5(1,2)] show ?case by auto
qed

subsection \<open>The operations keep the invariant\<close>

lemma kinv_mb_init: "rt_mb_init x nm pool sz flag s = Some (r, s') \<Longrightarrow> kinv s \<Longrightarrow> kinv s'"
  by (auto simp: rt_mb_init_def bind_eq_Some_conv l_init_head_def Let_def split: if_splits
      intro!: kinv_objs intro: kinv_object_init)

lemma kinv_mb_detach:
  assumes op: "rt_mb_detach x s = Some (r, s')" and inv: "kinv s"
  shows "kinv s'"
proof -
  from op obtain r1 s1 r2 s2 where "rt_ipc_list_resume_all (Mb_wait x) s = Some (r1, s1)"
    "rt_ipc_list_resume_all (Mb_send_wait x) s1 = Some (r2, s2)" "s' = rt_object_detach (MailBox_o x) s2"
    by (auto simp: rt_mb_detach_def bind_eq_Some_conv)
  then show ?thesis using inv by (auto intro!: kinv_object_detach elim!: kinv_resume_all)
qed

lemma kinv_mb_create:
  assumes op: "rt_mb_create nm sz flag s = Some (a, s')" and inv: "kinv s"
  shows "kinv s'"
proof -
  from op obtain x s1 where al: "rt_object_allocate RT_Object_Class_MailBox nm s = Some (x, s1)"
    by (auto simp: rt_mb_create_def rt_debug_not_in_interrupt_def rt_assert_def bind_eq_Some_conv split: if_splits)
  have k1: "kinv s1" using al inv by (rule kinv_ipc_allocate) simp
  show ?thesis
  proof (cases "x = 0")
    case True
    then show ?thesis using op al k1
      by (auto simp: rt_mb_create_def rt_debug_not_in_interrupt_def rt_assert_def bind_eq_Some_conv split: if_splits)
  next
    case False
    define s2 where "s2 = upd_obj (MailBox_o x) (\<lambda>r. r\<lparr>o_flag := flag\<rparr>) s1"
    have k2: "kinv s2" using k1 unfolding s2_def by (rule kinv_objs) simp
    from op al False obtain s3 pool s4 where
      s3: "on_tlists (l_init_head (Mb_wait x)) s2 = Some s3" and
      s4: "k_malloc (ucast (mb_size (mailboxes (upd_mb x (\<lambda>r. r\<lparr>mb_size := ucast sz\<rparr>) s3) x)) * 4)
         (upd_mb x (\<lambda>r. r\<lparr>mb_size := ucast sz\<rparr>) s3) = Some (pool, s4)" and
      s': "pool = 0 \<and> rt_object_delete (MailBox_o x) (upd_mb x (\<lambda>r. r\<lparr>mb_msg_pool := pool\<rparr>) s4) = Some s' \<or>
        pool \<noteq> 0 \<and> on_tlists (l_init_head (Mb_send_wait x)) (upd_mb x (\<lambda>r. r\<lparr>mb_entry := 0, in_offset := 0, out_offset := 0\<rparr>)
             (upd_mb x (\<lambda>r. r\<lparr>mb_msg_pool := pool\<rparr>) s4)) = Some s'"
      by (auto simp: rt_mb_create_def rt_debug_not_in_interrupt_def rt_assert_def bind_eq_Some_conv Let_def
          s2_def split: if_splits)
    have "kinv s3" using s3 k2 by (auto simp: l_init_head_def split: if_splits)
    then have "kinv s4" by (intro kinv_heap(1) [OF s4]) simp
    then show ?thesis using s'
      by (auto simp: l_init_head_def split: if_splits elim!: kinv_object_delete)
  qed
qed

lemma kinv_mb_delete:
  assumes op: "rt_mb_delete x s = Some (r, s')" and inv: "kinv s"
  shows "kinv s'"
proof -
  from op obtain r1 s1 r2 s2 s3 where "rt_ipc_list_resume_all (Mb_wait x) s = Some (r1, s1)"
    "rt_ipc_list_resume_all (Mb_send_wait x) s1 = Some (r2, s2)"
    "k_free (mb_msg_pool (mailboxes s2 x)) s2 = Some s3" "rt_object_delete (MailBox_o x) s3 = Some s'"
    by (auto simp: rt_mb_delete_def rt_debug_not_in_interrupt_def rt_assert_def bind_eq_Some_conv split: if_splits)
  then show ?thesis using inv by (auto elim!: kinv_object_delete kinv_heap(2) kinv_resume_all)
qed

lemma kinv_mb_control:
  assumes op: "rt_mb_control x cmd s = Some (r, s')" and inv: "kinv s"
  shows "kinv s'"
proof (cases "cmd = RT_IPC_CMD_RESET")
  case True
  with op obtain r1 s1 r2 s2 where "rt_ipc_list_resume_all (Mb_wait x) s = Some (r1, s1)"
    "rt_ipc_list_resume_all (Mb_send_wait x) s1 = Some (r2, s2)"
    "rt_schedule (upd_mb x (\<lambda>r. r\<lparr>mb_entry := 0, in_offset := 0, out_offset := 0\<rparr>) s2) = Some s'"
    by (auto simp: rt_mb_control_def bind_eq_Some_conv)
  then show ?thesis using inv by (auto elim!: kinv_schedule kinv_resume_all)
qed (use op inv in \<open>simp add: rt_mb_control_def\<close>)

text \<open>One pass through the loop of a send: a full mailbox makes the thread wait or gives up, any
  other takes the mail and wakes the first thread that waits for one.\<close>

lemma mb_send_cases:
  assumes op: "mb_send_loop x v thread timeout td s = Some (out, s')"
  obtains (full) t where "mb_full (mailboxes s x)" "thread = Some t" "timeout = 0"
      "out = Returned (- RT_EFULL)" "s' = upd_thread t (\<lambda>r. r\<lparr>th_error := RT_EOK\<rparr>) s"
  | (blocked) t s1 where "mb_full (mailboxes s x)" "thread = Some t" "timeout \<noteq> 0"
      "out = Blocked (t, timeout, if sint timeout > 0 then rt_tick s else td)"
      "ipc_wait (Mb_send_wait x) t (o_flag (objs s (MailBox_o x))) timeout
         (upd_thread t (\<lambda>r. r\<lparr>th_error := RT_EOK\<rparr>) s) = Some s1" "rt_schedule s1 = Some s'"
  | (put) m where "\<not> mb_full (mailboxes s x)" "mb_put v (mailboxes s x) = Some m" "out = Returned RT_EOK"
      "elems (tlists s) (Mb_wait x) = []" "s' = upd_mb x (\<lambda>_. m) s"
  | (wake) m r s1 where "\<not> mb_full (mailboxes s x)" "mb_put v (mailboxes s x) = Some m" "out = Returned RT_EOK"
      "elems (tlists s) (Mb_wait x) \<noteq> []"
      "rt_ipc_list_resume (Mb_wait x) (upd_mb x (\<lambda>_. m) s) = Some (r, s1)" "rt_schedule s1 = Some s'"
proof (cases "mb_full (mailboxes s x)")
  case True
  with op obtain t where t: "thread = Some t" by (auto simp: mb_send_loop_def bind_eq_Some_conv)
  show ?thesis
  proof (cases "timeout = 0")
    case False
    with op True t that(2) show ?thesis
      by (auto simp: mb_send_loop_def rt_debug_not_in_interrupt_def rt_tick_get_def bind_eq_Some_conv)
  qed (use op True t that(1) in \<open>simp add: mb_send_loop_def\<close>)
next
  case False
  then show ?thesis using op that(3,4) by (auto simp: mb_send_loop_def bind_eq_Some_conv Let_def split: if_splits)
qed

lemma mb_recv_cases:
  assumes op: "mb_recv_loop x thread timeout td s = Some (out, s')"
  obtains (empty) t where "mb_empty (mailboxes s x)" "thread = Some t" "timeout = 0"
      "out = Returned (- RT_ETIMEOUT, None)" "s' = upd_thread t (\<lambda>r. r\<lparr>th_error := - RT_ETIMEOUT\<rparr>) s"
  | (blocked) t s1 where "mb_empty (mailboxes s x)" "thread = Some t" "timeout \<noteq> 0"
      "out = Blocked (t, timeout, if sint timeout > 0 then rt_tick s else td)"
      "ipc_wait (Mb_wait x) t (o_flag (objs s (MailBox_o x))) timeout
         (upd_thread t (\<lambda>r. r\<lparr>th_error := RT_EOK\<rparr>) s) = Some s1" "rt_schedule s1 = Some s'"
  | (get) v m where "\<not> mb_empty (mailboxes s x)" "mb_get (mailboxes s x) = Some (v, m)"
      "out = Returned (RT_EOK, Some v)" "elems (tlists s) (Mb_send_wait x) = []" "s' = upd_mb x (\<lambda>_. m) s"
  | (wake) v m r s1 where "\<not> mb_empty (mailboxes s x)" "mb_get (mailboxes s x) = Some (v, m)"
      "out = Returned (RT_EOK, Some v)" "elems (tlists s) (Mb_send_wait x) \<noteq> []"
      "rt_ipc_list_resume (Mb_send_wait x) (upd_mb x (\<lambda>_. m) s) = Some (r, s1)" "rt_schedule s1 = Some s'"
proof (cases "mb_empty (mailboxes s x)")
  case True
  with op obtain t where t: "thread = Some t" by (auto simp: mb_recv_loop_def bind_eq_Some_conv)
  show ?thesis
  proof (cases "timeout = 0")
    case False
    with op True t that(2) show ?thesis
      by (auto simp: mb_recv_loop_def rt_debug_not_in_interrupt_def rt_tick_get_def bind_eq_Some_conv)
  qed (use op True t that(1) in \<open>simp add: mb_recv_loop_def\<close>)
next
  case False
  then show ?thesis using op that(3,4) by (auto simp: mb_recv_loop_def bind_eq_Some_conv Let_def split: if_splits)
qed

lemma kinv_mb_send_loop:
  assumes op: "mb_send_loop x v thread timeout td s = Some (out, s')" and inv: "kinv s"
    and me: "waiter_ready thread s"
  shows "kinv s'"
  using op
proof (cases rule: mb_send_cases)
  case (full t)
  then show ?thesis using kinv_error [OF inv] by simp
next
  case (blocked t s1)
  have "kinv s1"
    using kinv_wait [OF blocked(5) kinv_error [OF inv]] me blocked(2) by (simp add: waiter_ready_def)
  then show ?thesis by (rule kinv_schedule [OF blocked(6)])
next
  case (wake m r s1)
  have "kinv s1" using inv by (intro kinv_list_resume [OF wake(5)]) simp
  then show ?thesis by (rule kinv_schedule [OF wake(6)])
qed (use inv in simp)

lemma kinv_mb_recv_loop:
  assumes op: "mb_recv_loop x thread timeout td s = Some (out, s')" and inv: "kinv s"
    and me: "waiter_ready thread s"
  shows "kinv s'"
  using op
proof (cases rule: mb_recv_cases)
  case (empty t)
  then show ?thesis using kinv_error [OF inv] by simp
next
  case (blocked t s1)
  have "kinv s1"
    using kinv_wait [OF blocked(5) kinv_error [OF inv]] me blocked(2) by (simp add: waiter_ready_def)
  then show ?thesis by (rule kinv_schedule [OF blocked(6)])
next
  case (wake v m r s1)
  have "kinv s1" using inv by (intro kinv_list_resume [OF wake(5)]) simp
  then show ?thesis by (rule kinv_schedule [OF wake(6)])
qed (use inv in simp)

lemma kinv_mb_send_wait:
  assumes "rt_mb_send_wait x v timeout s = Some (out, s')" "kinv s" "self_ready s"
  shows "kinv s'"
  using assms self_waiter kinv_mb_send_loop by (auto simp: rt_mb_send_wait_def split: if_splits)

lemma kinv_mb_recv:
  assumes "rt_mb_recv x timeout s = Some (out, s')" "kinv s" "self_ready s"
  shows "kinv s'"
  using assms self_waiter kinv_mb_recv_loop by (auto simp: rt_mb_recv_def split: if_splits)

lemma kinv_mb_send_resumed:
  assumes "rt_mb_send_wait_resumed x v (t, k) s = Some (out, s')" "kinv s" "stat (threads s t) = RT_THREAD_READY"
  shows "kinv s'"
  using assms kinv_mb_send_loop
  by (cases k) (auto simp: rt_mb_send_wait_resumed_def waiter_ready_def split: if_splits prod.splits)

lemma kinv_mb_recv_resumed:
  assumes "rt_mb_recv_resumed x (t, k) s = Some (out, s')" "kinv s" "stat (threads s t) = RT_THREAD_READY"
  shows "kinv s'"
  using assms kinv_mb_recv_loop
  by (cases k) (auto simp: rt_mb_recv_resumed_def waiter_ready_def split: if_splits prod.splits)

subsection \<open>What a send and a receive do\<close>

lemma list_resume_mb:
  assumes "rt_ipc_list_resume h (upd_mb x (\<lambda>_. m) s) = Some (r, s1)" "rt_schedule s1 = Some s'"
  shows "mailboxes s' x = m"
  using ipc_dataD(4) [OF list_resume_data [OF assms(1)]] schedule_same(8) [OF assms(2)] by simp

lemma mb_send_loop_items:
  assumes op: "mb_send_loop x v thread timeout td s = Some (out, s')" and inv: "kinv s"
    and me: "waiter_ready thread s" and ok: "mb_ok (mailboxes s x)"
  shows "mb_ok (mailboxes s' x) \<and>
    (if out = Returned RT_EOK then mb_items (mailboxes s' x) = mb_items (mailboxes s x) @ [v]
     else mailboxes s' x = mailboxes s x)"
  using op
proof (cases rule: mb_send_cases)
  case (full t)
  then show ?thesis using ok by (simp add: RT_EOK_def RT_EFULL_def)
next
  case (blocked t s1)
  have "stat (threads s t) = RT_THREAD_READY" using me blocked(2) by (simp add: waiter_ready_def)
  from wait_loop_data [OF blocked(5) inv this _ blocked(6)] have "ipc_data s' = ipc_data s" by simp
  from ipc_dataD(4) [OF this] show ?thesis using ok blocked(4) by simp
next
  case (put m)
  have "mb_entry (mailboxes s x) < mb_size (mailboxes s x)"
    using put(1) ok by (simp add: mb_full_def mb_ok_def order_less_le)
  from mb_put_Some [OF ok this, of v] put show ?thesis by auto
next
  case (wake m r s1)
  have "mb_entry (mailboxes s x) < mb_size (mailboxes s x)"
    using wake(1) ok by (simp add: mb_full_def mb_ok_def order_less_le)
  from mb_put_Some [OF ok this, of v] wake(2) have "mb_ok m" "mb_items m = mb_items (mailboxes s x) @ [v]" by auto
  then show ?thesis using list_resume_mb [OF wake(5,6)] wake(3) by simp
qed

lemma mb_recv_loop_items:
  assumes op: "mb_recv_loop x thread timeout td s = Some (out, s')" and inv: "kinv s"
    and me: "waiter_ready thread s" and ok: "mb_ok (mailboxes s x)"
  shows "mb_ok (mailboxes s' x) \<and>
    (case out of Returned (r, Some v) \<Rightarrow> r = RT_EOK \<and> mb_items (mailboxes s x) = v # mb_items (mailboxes s' x)
     | _ \<Rightarrow> mailboxes s' x = mailboxes s x)"
  using op
proof (cases rule: mb_recv_cases)
  case (blocked t s1)
  have "stat (threads s t) = RT_THREAD_READY" using me blocked(2) by (simp add: waiter_ready_def)
  from wait_loop_data [OF blocked(5) inv this _ blocked(6)] have "ipc_data s' = ipc_data s" by simp
  from ipc_dataD(4) [OF this] show ?thesis using ok blocked(4) by simp
next
  case (get v m)
  obtain w ws where ws: "mb_items (mailboxes s x) = w # ws"
    using get(1) by (cases "mb_items (mailboxes s x)") (auto simp: mb_empty_iff)
  from mb_get_Some [OF ok ws] get ws show ?thesis by auto
next
  case (wake v m r s1)
  obtain w ws where ws: "mb_items (mailboxes s x) = w # ws"
    using wake(1) by (cases "mb_items (mailboxes s x)") (auto simp: mb_empty_iff)
  from mb_get_Some [OF ok ws] wake ws list_resume_mb [OF wake(5,6)] show ?thesis by auto
qed (use ok in simp)

text \<open>A mailbox that is not full takes the mail at once, and one that is not empty gives up its
  first: neither fails.\<close>

lemma mb_send_loop_put:
  assumes "\<not> mb_full (mailboxes s x)" "mb_send_loop x v thread timeout td s = Some (out, s')"
  shows "out = Returned RT_EOK"
  using assms(2) by (cases rule: mb_send_cases) (use assms(1) in simp_all)

text \<open>What is left of a waiting time: never more than there was, and nothing once it is over.\<close>

lemma sint_pos_31:
  fixes a :: u32
  assumes "0 \<le> sint a" shows "uint a = sint a" "uint a < 0x80000000"
proof -
  have "sint a < 2 ^ 31" using sint_lt [of a] by simp
  then have "take_bit LENGTH(32) (sint a) = sint a"
    using assms by (intro take_bit_int_eq_self) simp_all
  then show "uint a = sint a" by (simp add: uint_sint)
  then show "uint a < 0x80000000" using \<open>sint a < 2 ^ 31\<close> by simp
qed

lemma pow_31: "(2::int) ^ 31 = 0x80000000"
  by simp

lemma sint_small_31: "uint (a :: u32) < 0x80000000 \<Longrightarrow> sint a = uint a"
proof -
  assume "uint a < 0x80000000"
  moreover have "0 \<le> uint a" by simp
  ultimately have "signed_take_bit 31 (uint a) = uint a" using pow_31 by (intro signed_take_bit_int_eq_self) linarith+
  then show ?thesis by (simp add: sint_uint)
qed

lemma sint_diff_31:
  fixes a b :: u32
  assumes "uint a < 0x80000000" "uint b < 0x80000000"
  shows "sint (a - b) = uint a - uint b"
proof -
  have "0 \<le> uint a" "0 \<le> uint b" by simp_all
  then have "- (2 ^ 31) \<le> uint a - uint b" "uint a - uint b < 2 ^ 31" using assms pow_31 by linarith+
  then have "signed_take_bit 31 (uint a - uint b) = uint a - uint b"
    by (rule signed_take_bit_int_eq_self)
  then show ?thesis using assms by (simp add: sint_word_ariths sint_small_31)
qed

lemma ipc_remaining:
  assumes "0 < sint timeout" "uint (rt_tick s - td) < 0x80000000"
  shows "unat (fst (ipc_remaining timeout td s)) = unat timeout - unat (rt_tick s - td)"
proof -
  let ?d = "rt_tick s - td"
  have "uint timeout < 0x80000000" using assms(1) by (intro sint_pos_31) simp
  then have d: "sint (timeout - ?d) = uint timeout - uint ?d" using assms(2) by (rule sint_diff_31)
  show ?thesis
  proof (cases "?d \<le> timeout")
    case False
    then have "unat timeout - unat ?d = 0" "sint (timeout - ?d) < 0"
      using d by (simp add: word_le_nat_alt, simp add: word_le_def)
    with assms(1) show ?thesis by (simp add: ipc_remaining_def rt_tick_get_def Let_def)
  next
    case True
    then have "\<not> sint (timeout - ?d) < 0" using d by (simp add: word_le_def)
    moreover have "unat (timeout - ?d) = unat timeout - unat ?d" using True by (rule unat_sub)
    ultimately show ?thesis using assms(1) by (simp add: ipc_remaining_def rt_tick_get_def Let_def)
  qed
qed

lemma mb_send_items:
  assumes "rt_mb_send_wait x v timeout s = Some (out, s')" "kinv s" "self_ready s" "mb_ok (mailboxes s x)"
  shows "mb_ok (mailboxes s' x) \<and>
    (if out = Returned RT_EOK then mb_items (mailboxes s' x) = mb_items (mailboxes s x) @ [v]
     else mailboxes s' x = mailboxes s x)"
proof (cases "mb_full (mailboxes s x) \<and> timeout = 0")
  case True
  then show ?thesis using assms by (auto simp: rt_mb_send_wait_def RT_EOK_def RT_EFULL_def)
next
  case False
  then have "mb_send_loop x v (rt_thread_self s) timeout 0 s = Some (out, s')"
    using assms(1) by (simp only: rt_mb_send_wait_def if_False)
  then show ?thesis by (rule mb_send_loop_items [OF _ assms(2) self_waiter [OF assms(3)] assms(4)])
qed

lemma mb_recv_items:
  assumes "rt_mb_recv x timeout s = Some (out, s')" "kinv s" "self_ready s" "mb_ok (mailboxes s x)"
  shows "mb_ok (mailboxes s' x) \<and>
    (case out of Returned (r, Some v) \<Rightarrow> r = RT_EOK \<and> mb_items (mailboxes s x) = v # mb_items (mailboxes s' x)
     | _ \<Rightarrow> mailboxes s' x = mailboxes s x)"
proof (cases "mb_empty (mailboxes s x) \<and> timeout = 0")
  case True
  then show ?thesis using assms by (auto simp: rt_mb_recv_def)
next
  case False
  then have "mb_recv_loop x (rt_thread_self s) timeout 0 s = Some (out, s')"
    using assms(1) by (simp only: rt_mb_recv_def if_False)
  then show ?thesis by (rule mb_recv_loop_items [OF _ assms(2) self_waiter [OF assms(3)] assms(4)])
qed

end
