(* ===== verification/Msgqueue.thy ===== *)
theory Msgqueue
  imports Mailbox
begin

text \<open>
  The message queues of \<^verbatim>\<open>src/ipc.c\<close>: messages of a bounded size in the slots of a pool. The
  free slots and the slots with messages are linked lists through the slots. A send takes a free
  slot, copies its message into the slot with interrupts enabled, and links the slot in a second
  critical section; a receive unlinks a slot, copies it and puts it back. Between the two
  sections other operations can run, so each operation is cut there too, and the
  slots that are in use then belong to neither list.
\<close>

subsection \<open>Slots\<close>

definition mq_take_slot :: "rt_messagequeue \<Rightarrow> (nat \<times> rt_messagequeue) option" where
  "mq_take_slot q =
     (case msg_queue_free q of
        None \<Rightarrow> None
      | Some msg \<Rightarrow> Some (msg, q\<lparr>msg_queue_free := msg_next q msg\<rparr>))"

definition mq_set_next :: "nat \<Rightarrow> nat option \<Rightarrow> rt_messagequeue \<Rightarrow> rt_messagequeue" where
  "mq_set_next msg n q = q\<lparr>msg_next := (msg_next q)(msg := n)\<rparr>"

definition mq_copy_in :: "nat \<Rightarrow> u8 list \<Rightarrow> rt_messagequeue \<Rightarrow> rt_messagequeue" where
  "mq_copy_in msg buf q =
     q\<lparr>msg_data := (msg_data q)(msg := (\<lambda>i. if i < length buf then buf ! i else msg_data q msg i))\<rparr>"

definition mq_copy_out :: "nat \<Rightarrow> nat \<Rightarrow> rt_messagequeue \<Rightarrow> u8 list" where
  "mq_copy_out msg n q = map (msg_data q msg) [0..<n]"

definition mq_link_tail :: "nat \<Rightarrow> rt_messagequeue \<Rightarrow> rt_messagequeue" where
  "mq_link_tail msg q =
     (let q = (case msg_queue_tail q of None \<Rightarrow> q | Some t \<Rightarrow> mq_set_next t (Some msg) q);
          q = q\<lparr>msg_queue_tail := Some msg\<rparr>;
          q = (if msg_queue_head q = None then q\<lparr>msg_queue_head := Some msg\<rparr> else q)
      in q\<lparr>mq_entry := mq_entry q + 1\<rparr>)"

definition mq_link_head :: "nat \<Rightarrow> rt_messagequeue \<Rightarrow> rt_messagequeue" where
  "mq_link_head msg q =
     (let q = mq_set_next msg (msg_queue_head q) q;
          q = q\<lparr>msg_queue_head := Some msg\<rparr>;
          q = (if msg_queue_tail q = None then q\<lparr>msg_queue_tail := Some msg\<rparr> else q)
      in q\<lparr>mq_entry := mq_entry q + 1\<rparr>)"

definition mq_unlink :: "rt_messagequeue \<Rightarrow> (nat \<times> rt_messagequeue) option" where
  "mq_unlink q =
     (case msg_queue_head q of
        None \<Rightarrow> None
      | Some msg \<Rightarrow>
          let q = q\<lparr>msg_queue_head := msg_next q msg\<rparr>
          in Some (msg, if msg_queue_tail q = Some msg then q\<lparr>msg_queue_tail := None\<rparr> else q))"

definition mq_put_slot :: "nat \<Rightarrow> rt_messagequeue \<Rightarrow> rt_messagequeue" where
  "mq_put_slot msg q = (mq_set_next msg (msg_queue_free q) q)\<lparr>msg_queue_free := Some msg\<rparr>"

text \<open>The slots of a new queue, all free.\<close>

definition mq_init_slots :: "rt_messagequeue \<Rightarrow> rt_messagequeue" where
  "mq_init_slots q =
     (let q = q\<lparr>msg_queue_head := None, msg_queue_tail := None\<rparr>;
          q = q\<lparr>msg_queue_free := None\<rparr>;
          q = fold mq_put_slot [0..<unat (max_msgs q)] q
      in q\<lparr>mq_entry := 0\<rparr>)"

text \<open>The loop of a reset: all messages go back to the free slots.\<close>

partial_function (option) mq_drain :: "rt_messagequeue \<Rightarrow> rt_messagequeue option" where
  "mq_drain q =
     (case mq_unlink q of
        None \<Rightarrow> Some q
      | Some (msg, q) \<Rightarrow> mq_drain (mq_put_slot msg q))"

subsection \<open>Operations\<close>

definition rt_mq_init ::
  "nat \<Rightarrow> u8 list \<Rightarrow> nat \<Rightarrow> u32 \<Rightarrow> u32 \<Rightarrow> u8 \<Rightarrow> kstate \<Rightarrow> (rt_err_t \<times> kstate) option" where
  "rt_mq_init x nm msgpool msgsize pool_size flag s = do {
     s \<leftarrow> rt_object_init (MessageQueue_o x) RT_Object_Class_MessageQueue nm s;
     let s = upd_obj (MessageQueue_o x) (\<lambda>r. r\<lparr>o_flag := flag\<rparr>) s;
     s \<leftarrow> on_tlists (l_init_head (Mq_wait x)) s;
     let s = upd_mq x (\<lambda>r. r\<lparr>mq_msg_pool := msgpool\<rparr>) s;
     let s = upd_mq x (\<lambda>r. r\<lparr>msg_size := ucast (RT_ALIGN msgsize RT_ALIGN_SIZE)\<rparr>) s;
     let s = upd_mq x (\<lambda>r. r\<lparr>max_msgs := ucast (pool_size div (ucast (msg_size r) + 4))\<rparr>) s;
     Some (RT_EOK, upd_mq x mq_init_slots s)
   }"

definition rt_mq_detach :: "nat \<Rightarrow> kstate \<Rightarrow> (rt_err_t \<times> kstate) option" where
  "rt_mq_detach x s = do {
     (_, s) \<leftarrow> rt_ipc_list_resume_all (Mq_wait x) s;
     Some (RT_EOK, rt_object_detach (MessageQueue_o x) s)
   }"

definition rt_mq_delete :: "nat \<Rightarrow> kstate \<Rightarrow> (rt_err_t \<times> kstate) option" where
  "rt_mq_delete x s = do {
     s \<leftarrow> rt_debug_not_in_interrupt s;
     (_, s) \<leftarrow> rt_ipc_list_resume_all (Mq_wait x) s;
     s \<leftarrow> k_free (mq_msg_pool (msgqueues s x)) s;
     s \<leftarrow> rt_object_delete (MessageQueue_o x) s;
     Some (RT_EOK, s)
   }"

definition rt_mq_create :: "u8 list \<Rightarrow> u32 \<Rightarrow> u32 \<Rightarrow> u8 \<Rightarrow> kstate \<Rightarrow> (nat \<times> kstate) option" where
  "rt_mq_create nm msgsize maxmsgs flag s = do {
     s \<leftarrow> rt_debug_not_in_interrupt s;
     (x, s) \<leftarrow> rt_object_allocate RT_Object_Class_MessageQueue nm s;
     if x = 0 then Some (0, s)
     else do {
       let s = upd_obj (MessageQueue_o x) (\<lambda>r. r\<lparr>o_flag := flag\<rparr>) s;
       s \<leftarrow> on_tlists (l_init_head (Mq_wait x)) s;
       let s = upd_mq x (\<lambda>r. r\<lparr>msg_size := ucast (RT_ALIGN msgsize RT_ALIGN_SIZE)\<rparr>) s;
       let s = upd_mq x (\<lambda>r. r\<lparr>max_msgs := ucast maxmsgs\<rparr>) s;
       (pool, s) \<leftarrow> k_malloc ((ucast (msg_size (msgqueues s x)) + 4) * ucast (max_msgs (msgqueues s x))) s;
       let s = upd_mq x (\<lambda>r. r\<lparr>mq_msg_pool := pool\<rparr>) s;
       if pool = 0 then do {
         (_, s) \<leftarrow> rt_mq_delete x s;
         Some (0, s)
       }
       else Some (x, upd_mq x mq_init_slots s)
     }
   }"

text \<open>The end of the first part of an operation: it returns, or waits, or goes on with a slot.\<close>

datatype 'r mq_front = Mq_returned 'r | Mq_blocked wait_cont | Mq_slot nat

text \<open>A send up to the copy. \<open>urgent\<close> tells \<^verbatim>\<open>rt_mq_urgent\<close>, which leaves the \<^verbatim>\<open>next\<close>
  pointer of the slot for later.\<close>

definition mq_send_begin ::
  "bool \<Rightarrow> nat \<Rightarrow> u8 list \<Rightarrow> kstate \<Rightarrow> (rt_err_t mq_front \<times> kstate) option" where
  "mq_send_begin urgent x buf s = do {
     s \<leftarrow> rt_assert (buf \<noteq> []) s;
     if length buf > unat (msg_size (msgqueues s x)) then Some (Mq_returned (- RT_ERROR), s)
     else case mq_take_slot (msgqueues s x) of
       None \<Rightarrow> Some (Mq_returned (- RT_EFULL), s)
     | Some (msg, q) \<Rightarrow>
         let q = (if urgent then q else mq_set_next msg None q)
         in Some (Mq_slot msg, upd_mq x (\<lambda>_. mq_copy_in msg buf q) s)
   }"

text \<open>The second part of a send: the slot is linked, and the first thread that waits is
  woken.\<close>

definition mq_send_end :: "bool \<Rightarrow> nat \<Rightarrow> nat \<Rightarrow> kstate \<Rightarrow> (rt_err_t \<times> kstate) option" where
  "mq_send_end urgent x msg s =
     (let s = upd_mq x (if urgent then mq_link_head msg else mq_link_tail msg) s
      in if elems (tlists s) (Mq_wait x) \<noteq> [] then do {
           (_, s) \<leftarrow> rt_ipc_list_resume (Mq_wait x) s;
           s \<leftarrow> rt_schedule s;
           Some (RT_EOK, s)
         }
         else Some (RT_EOK, s))"

text \<open>Both parts, with nothing in between.\<close>

definition mq_send_both :: "bool \<Rightarrow> nat \<Rightarrow> u8 list \<Rightarrow> kstate \<Rightarrow> (rt_err_t \<times> kstate) option" where
  "mq_send_both urgent x buf s = do {
     (r, s) \<leftarrow> mq_send_begin urgent x buf s;
     case r of
       Mq_slot msg \<Rightarrow> mq_send_end urgent x msg s
     | Mq_returned e \<Rightarrow> Some (e, s)
     | Mq_blocked k \<Rightarrow> None
   }"

definition rt_mq_send :: "nat \<Rightarrow> u8 list \<Rightarrow> kstate \<Rightarrow> (rt_err_t \<times> kstate) option" where
  "rt_mq_send x buf s = mq_send_both False x buf s"

definition rt_mq_urgent :: "nat \<Rightarrow> u8 list \<Rightarrow> kstate \<Rightarrow> (rt_err_t \<times> kstate) option" where
  "rt_mq_urgent x buf s = mq_send_both True x buf s"

text \<open>The loop of a receive up to the next wait, or to the slot of the message.\<close>

definition mq_recv_loop ::
  "nat \<Rightarrow> tid option \<Rightarrow> u32 \<Rightarrow> u32 \<Rightarrow> kstate \<Rightarrow> (rt_err_t mq_front \<times> kstate) option" where
  "mq_recv_loop x thread timeout tick_delta s =
     (if mq_entry (msgqueues s x) = 0 then do {
        s \<leftarrow> rt_debug_not_in_interrupt s;
        t \<leftarrow> thread;
        let s = upd_thread t (\<lambda>r. r\<lparr>th_error := RT_EOK\<rparr>) s;
        if timeout = 0 then
          Some (Mq_returned (- RT_ETIMEOUT), upd_thread t (\<lambda>r. r\<lparr>th_error := - RT_ETIMEOUT\<rparr>) s)
        else do {
          let tick_delta = (if sint timeout > 0 then rt_tick_get s else tick_delta);
          s \<leftarrow> ipc_wait (Mq_wait x) t (o_flag (objs s (MessageQueue_o x))) timeout s;
          s \<leftarrow> rt_schedule s;
          Some (Mq_blocked (t, timeout, tick_delta), s)
        }
      }
      else do {
        (msg, q) \<leftarrow> mq_unlink (msgqueues s x);
        Some (Mq_slot msg, upd_mq x (\<lambda>_. q\<lparr>mq_entry := mq_entry q - 1\<rparr>) s)
      })"

definition rt_mq_recv ::
  "nat \<Rightarrow> u32 \<Rightarrow> u32 \<Rightarrow> kstate \<Rightarrow> (rt_err_t mq_front \<times> kstate) option" where
  "rt_mq_recv x bufsize timeout s = do {
     s \<leftarrow> rt_assert (bufsize \<noteq> 0) s;
     if mq_entry (msgqueues s x) = 0 \<and> timeout = 0 then Some (Mq_returned (- RT_ETIMEOUT), s)
     else mq_recv_loop x (rt_thread_self s) timeout 0 s
   }"

text \<open>After a wait; and after the slot was unlinked: the message is copied, and the slot is
  free.\<close>

definition rt_mq_recv_resumed ::
  "nat \<Rightarrow> wait_cont \<Rightarrow> kstate \<Rightarrow> (rt_err_t mq_front \<times> kstate) option" where
  "rt_mq_recv_resumed x k s =
     (case k of (t, timeout, tick_delta) \<Rightarrow>
        if th_error (threads s t) \<noteq> RT_EOK then Some (Mq_returned (th_error (threads s t)), s)
        else let (timeout, tick_delta) = ipc_remaining timeout tick_delta s
             in mq_recv_loop x (Some t) timeout tick_delta s)"

definition rt_mq_recv_end :: "nat \<Rightarrow> u32 \<Rightarrow> nat \<Rightarrow> kstate \<Rightarrow> (rt_err_t \<times> u8 list) \<times> kstate" where
  "rt_mq_recv_end x bufsize msg s =
     (let q = msgqueues s x;
          n = (if bufsize > ucast (msg_size q) then ucast (msg_size q) else bufsize);
          buf = mq_copy_out msg (unat n) q
      in ((RT_EOK, buf), upd_mq x (mq_put_slot msg) s))"

definition rt_mq_control :: "nat \<Rightarrow> u8 \<Rightarrow> kstate \<Rightarrow> (rt_err_t \<times> kstate) option" where
  "rt_mq_control x cmd s =
     (if cmd = RT_IPC_CMD_RESET then do {
        (_, s) \<leftarrow> rt_ipc_list_resume_all (Mq_wait x) s;
        q \<leftarrow> mq_drain (msgqueues s x);
        let s = upd_mq x (\<lambda>_. q\<lparr>mq_entry := 0\<rparr>) s;
        s \<leftarrow> rt_schedule s;
        Some (RT_EOK, s)
      }
      else Some (- RT_ERROR, s))"

subsection \<open>The two lists of slots\<close>

text \<open>\<open>slots nx h ms\<close>: from \<open>h\<close> on, the pointers \<open>nx\<close> link the slots \<open>ms\<close>.\<close>

fun slots :: "(nat \<Rightarrow> nat option) \<Rightarrow> nat option \<Rightarrow> nat list \<Rightarrow> bool" where
  "slots nx h [] \<longleftrightarrow> h = None"
| "slots nx h (m # ms) \<longleftrightarrow> h = Some m \<and> slots nx (nx m) ms"

lemma slots_other [simp]: "m \<notin> set ms \<Longrightarrow> slots (nx(m := n)) h ms \<longleftrightarrow> slots nx h ms"
  by (induction ms arbitrary: h) auto

lemma slots_None [simp]: "slots nx None ms \<longleftrightarrow> ms = []"
  by (cases ms) auto

lemma slots_Some: "slots nx (Some m) ms \<longleftrightarrow> (\<exists>ms'. ms = m # ms' \<and> slots nx (nx m) ms')"
  by (cases ms) auto

lemma slots_snoc:
  "slots nx h ms \<Longrightarrow> ms \<noteq> [] \<Longrightarrow> distinct ms \<Longrightarrow> m \<notin> set ms \<Longrightarrow> nx m = None \<Longrightarrow>
     slots (nx(last ms := Some m)) h (ms @ [m])"
proof (induction ms arbitrary: h)
  case (Cons a ms)
  then show ?case by (cases "ms = []") (auto simp: last_in_set)
qed simp

text \<open>\<open>mq_inv q F Q A\<close>: the free slots are \<open>F\<close>, the slots with messages \<open>Q\<close> in their
  order, and \<open>A\<close> are the slots that an operation between its two parts holds. Each slot is in
  exactly one of the three.\<close>

definition mq_inv :: "rt_messagequeue \<Rightarrow> nat list \<Rightarrow> nat list \<Rightarrow> nat set \<Rightarrow> bool" where
  "mq_inv q F Q A \<longleftrightarrow>
     slots (msg_next q) (msg_queue_free q) F \<and> slots (msg_next q) (msg_queue_head q) Q \<and>
     msg_queue_tail q = (if Q = [] then None else Some (last Q)) \<and>
     distinct (F @ Q) \<and> A \<inter> set (F @ Q) = {} \<and> A \<union> set (F @ Q) = {..<unat (max_msgs q)} \<and>
     unat (mq_entry q) = length Q"

definition slot_bytes :: "rt_messagequeue \<Rightarrow> nat \<Rightarrow> u8 list" where
  "slot_bytes q m = mq_copy_out m (unat (msg_size q)) q"

lemma mq_inv_entry:
  assumes "mq_inv q F Q A"
  shows "mq_entry q = 0 \<longleftrightarrow> Q = []" "msg_queue_free q = None \<longleftrightarrow> F = []" "length F + length Q + card A = unat (max_msgs q)"
proof -
  show "mq_entry q = 0 \<longleftrightarrow> Q = []" using assms by (auto simp: mq_inv_def unat_eq_zero)
  show "msg_queue_free q = None \<longleftrightarrow> F = []" using assms by (cases F) (auto simp: mq_inv_def)
  have fin: "finite A" using assms finite_subset [of A "{..<unat (max_msgs q)}"] by (auto simp: mq_inv_def)
  have "card (A \<union> set (F @ Q)) = card A + card (set (F @ Q))"
    using assms fin by (intro card_Un_disjoint) (auto simp: mq_inv_def)
  moreover have "card (set (F @ Q)) = length (F @ Q)"
    using assms by (intro distinct_card) (simp add: mq_inv_def)
  ultimately show "length F + length Q + card A = unat (max_msgs q)" using assms by (simp add: mq_inv_def)
qed

text \<open>The effect of each small step on the three sets of slots.\<close>

lemma mq_take_inv:
  assumes "mq_inv q (m # F) Q A"
  shows "mq_take_slot q = Some (m, q\<lparr>msg_queue_free := msg_next q m\<rparr>)"
    "mq_inv (q\<lparr>msg_queue_free := msg_next q m\<rparr>) F Q (insert m A)"
  using assms by (auto simp: mq_inv_def mq_take_slot_def)

lemma mq_take_None: "mq_inv q F Q A \<Longrightarrow> mq_take_slot q = None \<longleftrightarrow> F = []"
  using mq_inv_entry(2) [of q F Q A] by (auto simp: mq_take_slot_def split: option.splits)

lemma mq_set_next_inv:
  assumes "mq_inv q F Q A" "m \<in> A"
  shows "mq_inv (mq_set_next m n q) F Q A"
proof -
  have "m \<notin> set F" "m \<notin> set Q" using assms by (auto simp: mq_inv_def)
  then show ?thesis using assms(1) by (simp add: mq_inv_def mq_set_next_def)
qed

lemma mq_copy_in_inv: "mq_inv q F Q A \<Longrightarrow> mq_inv (mq_copy_in m buf q) F Q A"
  by (simp add: mq_inv_def mq_copy_in_def)

lemma entry_succ:
  assumes "mq_inv q F Q A" "m \<in> A"
  shows "unat (mq_entry q + 1) = length Q + 1"
proof -
  have "0 < card A"
    using assms finite_subset [of A "{..<unat (max_msgs q)}"] by (auto simp: mq_inv_def card_gt_0_iff)
  then have "length Q < unat (max_msgs q)" using mq_inv_entry(3) [OF assms(1)] by simp
  moreover have "unat (mq_entry q) = length Q" using assms(1) by (simp add: mq_inv_def)
  ultimately have "mq_entry q < max_msgs q" by (simp add: word_less_nat_alt)
  from unat_succ_16 [OF this] show ?thesis using \<open>unat (mq_entry q) = length Q\<close> by simp
qed

lemma mq_link_tail_inv:
  assumes inv: "mq_inv q F Q A" and m: "m \<in> A" "msg_next q m = None"
  shows "mq_inv (mq_link_tail m q) F (Q @ [m]) (A - {m})"
proof -
  have out: "m \<notin> set F" "m \<notin> set Q" using inv m by (auto simp: mq_inv_def)
  have dis: "distinct F" "distinct Q" "set F \<inter> set Q = {}" using inv by (auto simp: mq_inv_def)
  note e = entry_succ [OF inv m(1)]
  show ?thesis
  proof (cases "Q = []")
    case True
    then show ?thesis using inv m out e
      by (auto simp: mq_inv_def mq_link_tail_def Let_def slots_Some)
  next
    case False
    then have l: "last Q \<in> set Q" by simp
    then have "last Q \<notin> set F" using dis by auto
    moreover have "slots ((msg_next q)(last Q := Some m)) (msg_queue_head q) (Q @ [m])"
      using inv False dis out m(2) by (intro slots_snoc) (simp_all add: mq_inv_def)
    moreover have "msg_queue_head q \<noteq> None" using inv False by (cases Q) (auto simp: mq_inv_def)
    ultimately show ?thesis using inv m(1) out e False
      by (auto simp: mq_inv_def mq_link_tail_def mq_set_next_def Let_def)
  qed
qed

lemma mq_link_head_inv:
  assumes inv: "mq_inv q F Q A" and m: "m \<in> A"
  shows "mq_inv (mq_link_head m q) F (m # Q) (A - {m})"
proof -
  have out: "m \<notin> set F" "m \<notin> set Q" using inv m by (auto simp: mq_inv_def)
  note e = entry_succ [OF inv m]
  show ?thesis
    using inv m out e by (auto simp: mq_inv_def mq_link_head_def mq_set_next_def Let_def)
qed

lemma mq_unlink_inv:
  assumes inv: "mq_inv q F (m # Q) A"
  shows "\<exists>q'. mq_unlink q = Some (m, q') \<and> mq_inv (q'\<lparr>mq_entry := mq_entry q' - 1\<rparr>) F Q (insert m A) \<and>
    msg_next q' = msg_next q \<and> msg_data q' = msg_data q \<and> msg_size q' = msg_size q \<and> max_msgs q' = max_msgs q \<and>
    mq_entry q' = mq_entry q"
proof -
  have "mq_entry q \<noteq> 0" using mq_inv_entry(1) [OF inv] by simp
  then have e: "unat (mq_entry q - 1) = unat (mq_entry q) - 1" by (rule unat_minus_one)
  have "last Q \<noteq> m" if "Q \<noteq> []"
    using that inv last_in_set [OF that] by (auto simp: mq_inv_def)
  then show ?thesis using inv e
    by (auto simp: mq_inv_def mq_unlink_def Let_def split: if_splits)
qed

lemma mq_unlink_None: "mq_inv q F Q A \<Longrightarrow> mq_unlink q = None \<longleftrightarrow> Q = []"
  by (cases Q) (auto simp: mq_inv_def mq_unlink_def Let_def)

lemma mq_put_slot_inv:
  assumes inv: "mq_inv q F Q A" and m: "m \<in> A"
  shows "mq_inv (mq_put_slot m q) (m # F) Q (A - {m})"
proof -
  have "m \<notin> set F" "m \<notin> set Q" using inv m by (auto simp: mq_inv_def)
  then show ?thesis
    using inv m by (auto simp: mq_inv_def mq_put_slot_def mq_set_next_def)
qed

text \<open>What the steps leave of the bytes and of the sizes.\<close>

lemma mq_steps_data [simp]:
  "msg_data (mq_set_next m n q) = msg_data q" "msg_data (mq_link_tail m q) = msg_data q"
  "msg_data (mq_link_head m q) = msg_data q" "msg_data (mq_put_slot m q) = msg_data q"
  "msg_size (mq_set_next m n q) = msg_size q" "msg_size (mq_link_tail m q) = msg_size q"
  "msg_size (mq_link_head m q) = msg_size q" "msg_size (mq_put_slot m q) = msg_size q"
  "msg_size (mq_copy_in m buf q) = msg_size q" "max_msgs (mq_copy_in m buf q) = max_msgs q"
  "max_msgs (mq_set_next m n q) = max_msgs q" "max_msgs (mq_link_tail m q) = max_msgs q"
  "max_msgs (mq_link_head m q) = max_msgs q" "max_msgs (mq_put_slot m q) = max_msgs q"
  "mq_entry (mq_set_next m n q) = mq_entry q" "mq_entry (mq_put_slot m q) = mq_entry q"
  "msg_next (mq_put_slot m q) = (msg_next q)(m := msg_queue_free q)" "msg_queue_free (mq_put_slot m q) = Some m"
  "mq_msg_pool (mq_put_slot m q) = mq_msg_pool q"
  "msg_queue_head (mq_put_slot m q) = msg_queue_head q" "msg_queue_tail (mq_put_slot m q) = msg_queue_tail q"
  by (simp_all add: mq_set_next_def mq_link_tail_def mq_link_head_def mq_put_slot_def mq_copy_in_def Let_def
      split: option.splits)

lemma slot_bytes_eq: "msg_data q' = msg_data q \<Longrightarrow> msg_size q' = msg_size q \<Longrightarrow> slot_bytes q' = slot_bytes q"
  by (simp add: slot_bytes_def mq_copy_out_def fun_eq_iff)

lemma mq_steps_bytes [simp]:
  "slot_bytes (mq_set_next m n q) = slot_bytes q" "slot_bytes (mq_link_tail m q) = slot_bytes q"
  "slot_bytes (mq_link_head m q) = slot_bytes q" "slot_bytes (mq_put_slot m q) = slot_bytes q"
  "slot_bytes (q\<lparr>msg_queue_free := f\<rparr>) = slot_bytes q" "slot_bytes (q\<lparr>mq_entry := e\<rparr>) = slot_bytes q"
  by (rule slot_bytes_eq; simp)+

text \<open>A message that is copied in is padded with what the slot held before.\<close>

lemma slot_bytes_copy_in:
  "slot_bytes (mq_copy_in m buf q) m =
     take (unat (msg_size q)) buf @ drop (length buf) (slot_bytes q m)"
  by (intro nth_equalityI) (auto simp: slot_bytes_def mq_copy_out_def mq_copy_in_def nth_append)

lemma slot_bytes_copy_other [simp]: "k \<noteq> m \<Longrightarrow> slot_bytes (mq_copy_in m buf q) k = slot_bytes q k"
  by (simp add: slot_bytes_def mq_copy_out_def mq_copy_in_def)

lemma length_slot_bytes [simp]: "length (slot_bytes q m) = unat (msg_size q)"
  by (simp add: slot_bytes_def mq_copy_out_def)

lemma mq_copy_out_take: "n \<le> unat (msg_size q) \<Longrightarrow> mq_copy_out m n q = take n (slot_bytes q m)"
  by (simp add: slot_bytes_def mq_copy_out_def take_map)

text \<open>A new queue: all slots are free.\<close>

lemma mq_init_slots_inv:
  "\<exists>F. mq_inv (mq_init_slots q) F [] {} \<and> max_msgs (mq_init_slots q) = max_msgs q \<and>
     msg_size (mq_init_slots q) = msg_size q \<and> mq_msg_pool (mq_init_slots q) = mq_msg_pool q"
proof -
  let ?q = "q\<lparr>msg_queue_head := None, msg_queue_tail := None, msg_queue_free := None\<rparr>"
  have "slots (msg_next (fold mq_put_slot [0..<n] ?q)) (msg_queue_free (fold mq_put_slot [0..<n] ?q)) (rev [0..<n]) \<and>
    msg_queue_head (fold mq_put_slot [0..<n] ?q) = None \<and> msg_queue_tail (fold mq_put_slot [0..<n] ?q) = None \<and>
    max_msgs (fold mq_put_slot [0..<n] ?q) = max_msgs q \<and> msg_size (fold mq_put_slot [0..<n] ?q) = msg_size q \<and>
    mq_msg_pool (fold mq_put_slot [0..<n] ?q) = mq_msg_pool q" for n
    by (induction n) (simp_all add: fun_upd_same del: fun_upd_apply)
  from this [of "unat (max_msgs q)"] show ?thesis
    by (intro exI [of _ "rev [0..<unat (max_msgs q)]"]) (auto simp: mq_inv_def mq_init_slots_def Let_def)
qed

text \<open>The loop of a reset ends and leaves no message.\<close>

lemma mq_unlink_entry:
  "mq_unlink (q\<lparr>mq_entry := e\<rparr>) = map_option (\<lambda>(m, q). (m, q\<lparr>mq_entry := e\<rparr>)) (mq_unlink q)"
  by (simp add: mq_unlink_def Let_def split: option.splits)

lemma mq_put_slot_entry: "mq_put_slot m (q\<lparr>mq_entry := e\<rparr>) = (mq_put_slot m q)\<lparr>mq_entry := e\<rparr>"
  by (cases q) (simp add: mq_put_slot_def mq_set_next_def)

lemma mq_drain_lists:
  assumes "mq_inv (q\<lparr>mq_entry := e\<rparr>) F Q A"
  shows "\<exists>q' F'. mq_drain q = Some q' \<and> mq_inv (q'\<lparr>mq_entry := 0\<rparr>) F' [] A \<and> max_msgs q' = max_msgs q \<and>
    msg_size q' = msg_size q"
  using assms
proof (induction Q arbitrary: q F e)
  case Nil
  then have "mq_unlink q = None" using mq_unlink_None [OF Nil] by (simp add: mq_unlink_entry)
  moreover have "mq_inv (q\<lparr>mq_entry := 0\<rparr>) F [] A" using Nil by (simp add: mq_inv_def)
  ultimately show ?case by (subst mq_drain.simps) auto
next
  case (Cons m Q)
  obtain q1 where u: "mq_unlink q = Some (m, q1)" "mq_inv (q1\<lparr>mq_entry := e - 1\<rparr>) F Q (insert m A)"
    "msg_size q1 = msg_size q" "max_msgs q1 = max_msgs q"
    using mq_unlink_inv [OF Cons.prems] by (auto simp: mq_unlink_entry)
  have m: "m \<notin> A" using Cons.prems by (auto simp: mq_inv_def)
  have "mq_inv ((mq_put_slot m q1)\<lparr>mq_entry := e - 1\<rparr>) (m # F) Q A"
    using mq_put_slot_inv [OF u(2), of m] m by (simp add: mq_put_slot_entry)
  from Cons.IH [OF this] u(1,3,4) show ?case by (subst mq_drain.simps) simp
qed

lemma mq_drain_inv:
  "mq_inv q F Q A \<Longrightarrow> \<exists>q' F'. mq_drain q = Some q' \<and> mq_inv (q'\<lparr>mq_entry := 0\<rparr>) F' [] A \<and>
     max_msgs q' = max_msgs q \<and> msg_size q' = msg_size q"
  using mq_drain_lists [where q = q and e = "mq_entry q"] by simp

subsection \<open>A queue of messages\<close>

text \<open>The slots with messages, followed from the head; the messages in them.\<close>

fun slot_list :: "(nat \<Rightarrow> nat option) \<Rightarrow> nat option \<Rightarrow> nat \<Rightarrow> nat list" where
  "slot_list nx h 0 = []"
| "slot_list nx None (Suc n) = []"
| "slot_list nx (Some m) (Suc n) = m # slot_list nx (nx m) n"

lemma slot_list_slots: "slots nx h ms \<Longrightarrow> slot_list nx h (length ms) = ms"
  by (induction ms arbitrary: h) auto

definition mq_msgs :: "rt_messagequeue \<Rightarrow> u8 list list" where
  "mq_msgs q = map (slot_bytes q) (slot_list (msg_next q) (msg_queue_head q) (unat (mq_entry q)))"

lemma mq_msgs_inv: "mq_inv q F Q A \<Longrightarrow> mq_msgs q = map (slot_bytes q) Q"
  by (simp add: mq_inv_def mq_msgs_def slot_list_slots)

definition mq_good :: "rt_messagequeue \<Rightarrow> bool" where
  "mq_good q \<longleftrightarrow> (\<exists>F Q. mq_inv q F Q {})"

text \<open>A send and a receive as a whole, on the queue alone.\<close>

definition mq_put :: "bool \<Rightarrow> u8 list \<Rightarrow> rt_messagequeue \<Rightarrow> rt_messagequeue option" where
  "mq_put urgent v q = do {
     (msg, q) \<leftarrow> mq_take_slot q;
     let q = mq_copy_in msg v (if urgent then q else mq_set_next msg None q);
     Some (if urgent then mq_link_head msg q else mq_link_tail msg q)
   }"

definition mq_get :: "rt_messagequeue \<Rightarrow> (u8 list \<times> rt_messagequeue) option" where
  "mq_get q = do {
     (msg, q) \<leftarrow> mq_unlink q;
     let q = q\<lparr>mq_entry := mq_entry q - 1\<rparr>;
     Some (mq_copy_out msg (unat (msg_size q)) q, mq_put_slot msg q)
   }"

definition mq_full :: "rt_messagequeue \<Rightarrow> bool" where
  "mq_full q \<longleftrightarrow> msg_queue_free q = None"

definition mq_empty :: "rt_messagequeue \<Rightarrow> bool" where
  "mq_empty q \<longleftrightarrow> mq_entry q = 0"

lemma mq_begin_inv:
  assumes inv: "mq_inv q F Q A" and take: "mq_take_slot q = Some (m, q1)"
  shows "\<exists>F'. F = m # F' \<and> mq_inv (mq_copy_in m v (if urgent then q1 else mq_set_next m None q1)) F' Q (insert m A)"
proof -
  have "F \<noteq> []" using mq_take_None [OF inv] take by auto
  then obtain m' F' where F: "F = m' # F'" by (cases F) auto
  note t = mq_take_inv [OF inv [unfolded F]]
  then have "m' = m" "mq_inv q1 F' Q (insert m A)" using take by simp_all
  then show ?thesis using F mq_set_next_inv [of q1 F' Q "insert m A" m None] by (auto intro: mq_copy_in_inv)
qed

text \<open>The bytes of the other slots stay.\<close>

lemma mq_begin_bytes:
  assumes "mq_take_slot q = Some (m, q1)"
  shows "slot_bytes (mq_copy_in m v (if urgent then q1 else mq_set_next m None q1)) k =
    (if k = m then take (unat (msg_size q)) v @ drop (length v) (slot_bytes q m) else slot_bytes q k)"
proof -
  from assms have "slot_bytes q1 = slot_bytes q" "msg_size q1 = msg_size q"
    by (auto simp: mq_take_slot_def split: option.splits)
  then show ?thesis by (simp add: slot_bytes_copy_in)
qed

definition padded :: "rt_messagequeue \<Rightarrow> u8 list \<Rightarrow> u8 list \<Rightarrow> bool" where
  "padded q v w \<longleftrightarrow> length w = unat (msg_size q) \<and> take (length v) w = v"

lemma mq_put_Some:
  assumes good: "mq_good q" and room: "\<not> mq_full q" and v: "length v \<le> unat (msg_size q)"
  shows "\<exists>q' w. mq_put urgent v q = Some q' \<and> mq_good q' \<and> padded q v w \<and>
    mq_msgs q' = (if urgent then w # mq_msgs q else mq_msgs q @ [w]) \<and>
    max_msgs q' = max_msgs q \<and> msg_size q' = msg_size q"
proof -
  obtain F Q where inv: "mq_inv q F Q {}" using good by (auto simp: mq_good_def)
  obtain m q1 where t: "mq_take_slot q = Some (m, q1)" "max_msgs q1 = max_msgs q" "msg_size q1 = msg_size q"
    using room by (auto simp: mq_full_def mq_take_slot_def)
  let ?q2 = "mq_copy_in m v (if urgent then q1 else mq_set_next m None q1)"
  obtain F' where F: "F = m # F'" and inv2: "mq_inv ?q2 F' Q {m}"
    using mq_begin_inv [OF inv t(1), of v urgent] by auto
  define w where "w = slot_bytes ?q2 m"
  have w: "padded q v w"
    unfolding w_def mq_begin_bytes [OF t(1)] using v by (simp add: padded_def)
  have "m \<notin> set Q" using inv F by (auto simp: mq_inv_def)
  then have b: "map (slot_bytes ?q2) Q = map (slot_bytes q) Q"
    using mq_begin_bytes [OF t(1), of v urgent] by auto
  let ?q3 = "if urgent then mq_link_head m ?q2 else mq_link_tail m ?q2"
  have nx: "msg_next ?q2 m = None" if "\<not> urgent"
    using that by (simp add: mq_copy_in_def mq_set_next_def)
  have inv3: "mq_inv ?q3 F' (if urgent then m # Q else Q @ [m]) {}"
    using mq_link_head_inv [OF inv2, of m] mq_link_tail_inv [OF inv2, of m] nx by auto
  have good3: "mq_good ?q3" using inv3 unfolding mq_good_def by blast
  have "slot_bytes ?q3 = slot_bytes ?q2" by simp
  then have "mq_msgs ?q3 = (if urgent then w # mq_msgs q else mq_msgs q @ [w])"
    unfolding mq_msgs_inv [OF inv3] mq_msgs_inv [OF inv] b [symmetric] w_def by auto
  moreover have "mq_put urgent v q = Some ?q3" by (simp add: mq_put_def t(1))
  moreover have "max_msgs ?q3 = max_msgs q" "msg_size ?q3 = msg_size q" using t by simp_all
  ultimately show ?thesis using good3 w by (intro exI [of _ ?q3] exI [of _ w]) simp
qed

lemma mq_copy_out_entry [simp]: "mq_copy_out m n (q\<lparr>mq_entry := e\<rparr>) = mq_copy_out m n q"
  by (simp add: mq_copy_out_def)

lemma mq_get_Some:
  assumes good: "mq_good q" and ms: "mq_msgs q = v # vs"
  shows "\<exists>q'. mq_get q = Some (v, q') \<and> mq_good q' \<and> mq_msgs q' = vs \<and> max_msgs q' = max_msgs q \<and>
    msg_size q' = msg_size q"
proof -
  obtain F Q where inv: "mq_inv q F Q {}" using good by (auto simp: mq_good_def)
  obtain m Q' where Q: "Q = m # Q'" and v: "v = slot_bytes q m" "vs = map (slot_bytes q) Q'"
    using ms mq_msgs_inv [OF inv] by auto
  from mq_unlink_inv [OF inv [unfolded Q]] obtain q1 where u: "mq_unlink q = Some (m, q1)"
    "mq_inv (q1\<lparr>mq_entry := mq_entry q1 - 1\<rparr>) F Q' {m}"
    and same: "msg_data q1 = msg_data q" "msg_size q1 = msg_size q" "max_msgs q1 = max_msgs q"
    by auto
  let ?q1 = "q1\<lparr>mq_entry := mq_entry q1 - 1\<rparr>"
  have b: "slot_bytes ?q1 = slot_bytes q" by (rule slot_bytes_eq) (simp_all add: same)
  have inv2: "mq_inv (mq_put_slot m ?q1) (m # F) Q' {}" using mq_put_slot_inv [OF u(2), of m] by simp
  have "mq_msgs (mq_put_slot m ?q1) = vs" unfolding mq_msgs_inv [OF inv2] v(2) by (simp add: b [simplified])
  moreover have "mq_get q = Some (v, mq_put_slot m ?q1)"
    using u(1) b v(1) by (simp add: mq_get_def slot_bytes_def fun_eq_iff Let_def)
  moreover have "mq_good (mq_put_slot m ?q1)" using inv2 unfolding mq_good_def by blast
  ultimately show ?thesis using same by (intro exI [of _ "mq_put_slot m ?q1"]) simp
qed

lemma mq_good_sizes:
  assumes "mq_good q"
  shows "length (mq_msgs q) \<le> unat (max_msgs q)" "mq_full q \<longleftrightarrow> length (mq_msgs q) = unat (max_msgs q)"
    "mq_empty q \<longleftrightarrow> mq_msgs q = []"
proof -
  obtain F Q where inv: "mq_inv q F Q {}" using assms by (auto simp: mq_good_def)
  note e = mq_inv_entry [OF inv] and m = mq_msgs_inv [OF inv]
  show "length (mq_msgs q) \<le> unat (max_msgs q)" using e(3) m by simp
  show "mq_full q \<longleftrightarrow> length (mq_msgs q) = unat (max_msgs q)" using e(2,3) m by (auto simp: mq_full_def)
  show "mq_empty q \<longleftrightarrow> mq_msgs q = []" using e(1) m by (simp add: mq_empty_def)
qed

text \<open>For messages of the full size, the queue is a bounded queue like the mailbox.\<close>

interpretation mqq: bounded_queue mq_good mq_msgs "\<lambda>q. unat (max_msgs q)" "\<lambda>q v. length v = unat (msg_size q)"
  mq_full mq_empty "mq_put False" mq_get
proof (unfold_locales, goal_cases)
  case (4 q v)
  then have "\<not> mq_full q" using mq_good_sizes(2) by auto
  from mq_put_Some [OF 4(1) this, of v False] 4(3) show ?case by (auto simp: padded_def)
next
  case (5 q v vs)
  from mq_get_Some [OF this] show ?case by auto
qed (use mq_good_sizes in auto)

subsection \<open>Interleaved operations\<close>

text \<open>The critical sections of sends and receives as steps on the queue. A step names the slot that
  it takes or uses; the end of a receive shows the message.\<close>

datatype mq_step =
    Send_begin bool "u8 list" nat | Send_end bool nat | Recv_begin nat | Recv_end nat "u8 list"

fun mq_do :: "mq_step \<Rightarrow> rt_messagequeue \<Rightarrow> rt_messagequeue option" where
  "mq_do (Send_begin urgent buf m) q =
     (case mq_take_slot q of
        None \<Rightarrow> None
      | Some (k, q) \<Rightarrow>
          if k = m then Some (mq_copy_in m buf (if urgent then q else mq_set_next m None q)) else None)"
| "mq_do (Send_end urgent m) q = Some (if urgent then mq_link_head m q else mq_link_tail m q)"
| "mq_do (Recv_begin m) q =
     (case mq_unlink q of
        None \<Rightarrow> None
      | Some (k, q) \<Rightarrow> if k = m then Some (q\<lparr>mq_entry := mq_entry q - 1\<rparr>) else None)"
| "mq_do (Recv_end m msg) q = (if slot_bytes q m = msg then Some (mq_put_slot m q) else None)"

text \<open>What they mean: messages that are being sent, messages in order, messages that are being
  received. A step that would use a slot twice, or deliver what was not sent or not in its turn, is
  undefined.\<close>

record mq_spec =
  sending :: "nat \<Rightarrow> (bool \<times> u8 list) option"
  messages :: "u8 list list"
  receiving :: "nat \<Rightarrow> u8 list option"

fun spec_do :: "mq_step \<Rightarrow> mq_spec \<Rightarrow> mq_spec option" where
  "spec_do (Send_begin urgent buf m) p =
     (if sending p m = None \<and> receiving p m = None then Some (p\<lparr>sending := (sending p)(m \<mapsto> (urgent, buf))\<rparr>) else None)"
| "spec_do (Send_end urgent m) p =
     (case sending p m of
        None \<Rightarrow> None
      | Some (_, buf) \<Rightarrow>
          Some (p\<lparr>sending := (sending p)(m := None), messages := (if urgent then buf # messages p else messages p @ [buf])\<rparr>))"
| "spec_do (Recv_begin m) p =
     (case messages p of
        [] \<Rightarrow> None
      | buf # bufs \<Rightarrow>
          if sending p m = None \<and> receiving p m = None
          then Some (p\<lparr>messages := bufs, receiving := (receiving p)(m \<mapsto> buf)\<rparr>) else None)"
| "spec_do (Recv_end m msg) p =
     (case receiving p m of
        None \<Rightarrow> None
      | Some buf \<Rightarrow> if take (length buf) msg = buf then Some (p\<lparr>receiving := (receiving p)(m := None)\<rparr>) else None)"

text \<open>What the callers keep to: a message fits, and an operation ends with the slot it began
  with.\<close>

fun step_ok :: "nat \<Rightarrow> mq_step \<Rightarrow> mq_spec \<Rightarrow> bool" where
  "step_ok sz (Send_begin urgent buf m) p \<longleftrightarrow> length buf \<le> sz"
| "step_ok sz (Send_end urgent m) p \<longleftrightarrow> (\<exists>buf. sending p m = Some (urgent, buf))"
| "step_ok sz (Recv_begin m) p \<longleftrightarrow> True"
| "step_ok sz (Recv_end m msg) p \<longleftrightarrow> receiving p m \<noteq> None"

fun mq_run :: "mq_step list \<Rightarrow> rt_messagequeue \<Rightarrow> rt_messagequeue option" where
  "mq_run [] q = Some q"
| "mq_run (e # es) q = Option.bind (mq_do e q) (mq_run es)"

fun spec_run :: "mq_step list \<Rightarrow> mq_spec \<Rightarrow> mq_spec option" where
  "spec_run [] p = Some p"
| "spec_run (e # es) p = Option.bind (spec_do e p) (spec_run es)"

fun run_ok :: "nat \<Rightarrow> mq_step list \<Rightarrow> mq_spec \<Rightarrow> bool" where
  "run_ok sz [] p \<longleftrightarrow> True"
| "run_ok sz (e # es) p \<longleftrightarrow> step_ok sz e p \<and> (case spec_do e p of None \<Rightarrow> True | Some p \<Rightarrow> run_ok sz es p)"

text \<open>The simulation: the slots held are those of the two maps, with their messages at the start of
  the slots.\<close>

definition holds :: "rt_messagequeue \<Rightarrow> nat \<Rightarrow> u8 list \<Rightarrow> bool" where
  "holds q m buf \<longleftrightarrow> take (length buf) (slot_bytes q m) = buf"

definition mq_held :: "rt_messagequeue \<Rightarrow> mq_spec \<Rightarrow> nat list \<Rightarrow> nat list \<Rightarrow> bool" where
  "mq_held q p F Q \<longleftrightarrow> mq_inv q F Q (dom (sending p) \<union> dom (receiving p)) \<and>
     dom (sending p) \<inter> dom (receiving p) = {} \<and> list_all2 (holds q) Q (messages p) \<and>
     (\<forall>m urgent buf. sending p m = Some (urgent, buf) \<longrightarrow> holds q m buf) \<and>
     (\<forall>m buf. sending p m = Some (False, buf) \<longrightarrow> msg_next q m = None) \<and>
     (\<forall>m buf. receiving p m = Some buf \<longrightarrow> holds q m buf)"

definition mq_sim :: "rt_messagequeue \<Rightarrow> mq_spec \<Rightarrow> bool" where
  "mq_sim q p \<longleftrightarrow> (\<exists>F Q. mq_held q p F Q)"

lemma holds_eq: "slot_bytes q' = slot_bytes q \<Longrightarrow> holds q' = holds q"
  by (simp add: holds_def fun_eq_iff)

lemma mq_simI:
  assumes "mq_inv q F Q (dom (sending p) \<union> dom (receiving p))" "dom (sending p) \<inter> dom (receiving p) = {}"
    and "list_all2 (holds q) Q (messages p)"
    and "\<And>m urgent buf. sending p m = Some (urgent, buf) \<Longrightarrow> holds q m buf"
    and "\<And>m buf. sending p m = Some (False, buf) \<Longrightarrow> msg_next q m = None"
    and "\<And>m buf. receiving p m = Some buf \<Longrightarrow> holds q m buf"
  shows "mq_sim q p"
proof -
  have "mq_held q p F Q" unfolding mq_held_def using assms by simp
  then show ?thesis unfolding mq_sim_def by blast
qed

lemma mq_simE:
  assumes "mq_sim q p"
  obtains F Q where "mq_inv q F Q (dom (sending p) \<union> dom (receiving p))" "dom (sending p) \<inter> dom (receiving p) = {}"
    "list_all2 (holds q) Q (messages p)" "\<And>m urgent buf. sending p m = Some (urgent, buf) \<Longrightarrow> holds q m buf"
    "\<And>m buf. sending p m = Some (False, buf) \<Longrightarrow> msg_next q m = None"
    "\<And>m buf. receiving p m = Some buf \<Longrightarrow> holds q m buf"
proof -
  from assms obtain F Q where "mq_held q p F Q" unfolding mq_sim_def by blast
  then show ?thesis unfolding mq_held_def by (intro that [of F Q]) simp_all
qed

text \<open>Only the slot itself and the last slot of the list change their pointers.\<close>

lemma next_link_tail: "mq_inv q F Q A \<Longrightarrow> k \<in> A \<Longrightarrow> msg_next (mq_link_tail m q) k = msg_next q k"
  by (cases "Q = []") (auto simp: mq_inv_def mq_link_tail_def mq_set_next_def Let_def)

lemma next_link_head: "k \<noteq> m \<Longrightarrow> msg_next (mq_link_head m q) k = msg_next q k"
  by (simp add: mq_link_head_def mq_set_next_def Let_def)

lemma sim_send_begin:
  assumes sim: "mq_sim q p" and op: "mq_do (Send_begin urgent buf m) q = Some q'"
    and len: "length buf \<le> unat (msg_size q)"
  shows "\<exists>p'. spec_do (Send_begin urgent buf m) p = Some p' \<and> mq_sim q' p'"
  using sim
proof (rule mq_simE)
  fix F Q
  assume inv: "mq_inv q F Q (dom (sending p) \<union> dom (receiving p))" and dis: "dom (sending p) \<inter> dom (receiving p) = {}"
    and ms: "list_all2 (holds q) Q (messages p)"
    and snd: "\<And>m urgent buf. sending p m = Some (urgent, buf) \<Longrightarrow> holds q m buf"
      "\<And>m buf. sending p m = Some (False, buf) \<Longrightarrow> msg_next q m = None"
    and rcv: "\<And>m buf. receiving p m = Some buf \<Longrightarrow> holds q m buf"
  from op obtain q1 where t: "mq_take_slot q = Some (m, q1)"
    and q': "q' = mq_copy_in m buf (if urgent then q1 else mq_set_next m None q1)"
    by (auto split: option.splits if_splits)
  obtain F' where F: "F = m # F'" and inv': "mq_inv q' F' Q (insert m (dom (sending p) \<union> dom (receiving p)))"
    using mq_begin_inv [OF inv t] q' by blast
  have free: "m \<notin> dom (sending p)" "m \<notin> dom (receiving p)" "m \<notin> set Q"
    using inv F by (auto simp: mq_inv_def)
  note b = mq_begin_bytes [OF t, of buf urgent, folded q']
  have other: "holds q' k v = holds q k v" if "k \<noteq> m" for k v using b [of k] that by (simp add: holds_def)
  have own: "holds q' m buf" using b [of m] len by (simp add: holds_def)
  have nx: "msg_next q1 = msg_next q" using t by (auto simp: mq_take_slot_def split: option.splits)
  let ?p = "p\<lparr>sending := (sending p)(m \<mapsto> (urgent, buf))\<rparr>"
  have "mq_sim q' ?p"
  proof (rule mq_simI [of _ F' Q])
    have "list_all2 (holds q') Q (messages p)"
      using ms by (rule list.rel_mono_strong) (metis other free(3))
    then show "list_all2 (holds q') Q (messages ?p)" by simp
    show "msg_next q' k = None" if "sending ?p k = Some (False, v)" for k v
      using that snd(2) [of k v] nx q' by (auto simp: mq_copy_in_def mq_set_next_def split: if_splits)
    show "holds q' k v" if "receiving ?p k = Some v" for k v
      using that rcv [of k v] other [of k] free by (cases "k = m") auto
    show "holds q' k v" if "sending ?p k = Some (u, v)" for k u v
      using that snd(1) [of k u v] other [of k] own by (cases "k = m") auto
  qed (use inv' dis free in auto)
  then show ?thesis using free by (auto simp: domIff)
qed

lemma sim_send_end:
  assumes sim: "mq_sim q p" and s: "sending p m = Some (urgent, buf)"
    and op: "mq_do (Send_end urgent m) q = Some q'"
  shows "\<exists>p'. spec_do (Send_end urgent m) p = Some p' \<and> mq_sim q' p'"
  using sim
proof (rule mq_simE)
  fix F Q
  let ?A = "dom (sending p) \<union> dom (receiving p)"
  assume inv: "mq_inv q F Q ?A" and dis: "dom (sending p) \<inter> dom (receiving p) = {}"
    and ms: "list_all2 (holds q) Q (messages p)"
    and snd: "\<And>m urgent buf. sending p m = Some (urgent, buf) \<Longrightarrow> holds q m buf"
      "\<And>m buf. sending p m = Some (False, buf) \<Longrightarrow> msg_next q m = None"
    and rcv: "\<And>m buf. receiving p m = Some buf \<Longrightarrow> holds q m buf"
  have q': "q' = (if urgent then mq_link_head m q else mq_link_tail m q)" using op by simp
  have m: "m \<in> ?A" using s by auto
  have h: "holds q' = holds q" by (rule holds_eq) (simp add: q')
  let ?p = "p\<lparr>sending := (sending p)(m := None), messages := (if urgent then buf # messages p else messages p @ [buf])\<rparr>"
  have A: "?A - {m} = dom (sending ?p) \<union> dom (receiving ?p)" using s dis by auto
  have inv': "mq_inv q' F (if urgent then m # Q else Q @ [m]) (?A - {m})"
    using mq_link_head_inv [OF inv m] mq_link_tail_inv [OF inv m] snd(2) [of m buf] s q' by auto
  have own: "holds q m buf" using snd(1) [OF s] .
  have "mq_sim q' ?p"
  proof (rule mq_simI [OF inv' [unfolded A]])
    show "list_all2 (holds q') (if urgent then m # Q else Q @ [m]) (messages ?p)"
      using ms own by (auto simp: h intro: list_all2_appendI)
    show "msg_next q' k = None" if "sending ?p k = Some (False, v)" for k v
    proof -
      have k: "sending p k = Some (False, v)" "k \<noteq> m" using that by (auto split: if_splits)
      then have "k \<in> ?A" by auto
      then show ?thesis using snd(2) [OF k(1)] next_link_tail [OF inv, of k m] next_link_head [OF k(2), of q] q' by simp
    qed
    show "holds q' k v" if "sending ?p k = Some (u, v)" for k u v
      using that snd(1) [of k u v] by (auto simp: h split: if_splits)
  qed (use dis rcv in \<open>auto simp: h\<close>)
  then show ?thesis using s by auto
qed

lemma sim_recv_begin:
  assumes sim: "mq_sim q p" and op: "mq_do (Recv_begin m) q = Some q'"
  shows "\<exists>p'. spec_do (Recv_begin m) p = Some p' \<and> mq_sim q' p'"
  using sim
proof (rule mq_simE)
  fix F Q
  let ?A = "dom (sending p) \<union> dom (receiving p)"
  assume inv: "mq_inv q F Q ?A" and dis: "dom (sending p) \<inter> dom (receiving p) = {}"
    and ms: "list_all2 (holds q) Q (messages p)"
    and snd: "\<And>m urgent buf. sending p m = Some (urgent, buf) \<Longrightarrow> holds q m buf"
      "\<And>m buf. sending p m = Some (False, buf) \<Longrightarrow> msg_next q m = None"
    and rcv: "\<And>m buf. receiving p m = Some buf \<Longrightarrow> holds q m buf"
  have "Q \<noteq> []" using op mq_unlink_None [OF inv] by (auto split: option.splits)
  then obtain k Q' where Q: "Q = k # Q'" by (cases Q) auto
  from mq_unlink_inv [OF inv [unfolded Q]] obtain q1 where u: "mq_unlink q = Some (k, q1)"
    "mq_inv (q1\<lparr>mq_entry := mq_entry q1 - 1\<rparr>) F Q' (insert k ?A)"
    and same: "msg_next q1 = msg_next q" "msg_data q1 = msg_data q" "msg_size q1 = msg_size q"
    by auto
  then have "k = m" and q': "q' = q1\<lparr>mq_entry := mq_entry q1 - 1\<rparr>" using op by (auto split: if_splits)
  then have inv': "mq_inv q' F Q' (insert m ?A)" using u(2) by simp
  have h: "holds q' = holds q" by (rule holds_eq, rule slot_bytes_eq) (simp_all add: q' same)
  obtain buf bufs where b: "messages p = buf # bufs" "holds q m buf" "list_all2 (holds q) Q' bufs"
    using ms Q \<open>k = m\<close> by (auto simp: list_all2_Cons1)
  have free: "m \<notin> ?A" using inv Q \<open>k = m\<close> by (auto simp: mq_inv_def)
  have nx: "msg_next q' = msg_next q" by (simp add: q' same)
  let ?p = "p\<lparr>messages := bufs, receiving := (receiving p)(m \<mapsto> buf)\<rparr>"
  have A: "insert m ?A = dom (sending ?p) \<union> dom (receiving ?p)" by auto
  have "mq_sim q' ?p"
  proof (rule mq_simI [OF inv' [unfolded A]])
    show "holds q' k v" if "receiving ?p k = Some v" for k v
      using that rcv [of k v] b(2) by (auto simp: h split: if_splits)
  qed (use dis free snd b(3) in \<open>auto simp: h nx\<close>)
  then show ?thesis using b(1) free by (auto simp: domIff)
qed

lemma sim_recv_end:
  assumes sim: "mq_sim q p" and r: "receiving p m = Some buf"
    and op: "mq_do (Recv_end m msg) q = Some q'"
  shows "\<exists>p'. spec_do (Recv_end m msg) p = Some p' \<and> mq_sim q' p'"
  using sim
proof (rule mq_simE)
  fix F Q
  let ?A = "dom (sending p) \<union> dom (receiving p)"
  assume inv: "mq_inv q F Q ?A" and dis: "dom (sending p) \<inter> dom (receiving p) = {}"
    and ms: "list_all2 (holds q) Q (messages p)"
    and snd: "\<And>m urgent buf. sending p m = Some (urgent, buf) \<Longrightarrow> holds q m buf"
      "\<And>m buf. sending p m = Some (False, buf) \<Longrightarrow> msg_next q m = None"
    and rcv: "\<And>m buf. receiving p m = Some buf \<Longrightarrow> holds q m buf"
  have q': "q' = mq_put_slot m q" and msg: "slot_bytes q m = msg" using op by (auto split: if_splits)
  have m: "m \<in> ?A" using r by auto
  have h: "holds q' = holds q" by (rule holds_eq) (simp add: q')
  let ?p = "p\<lparr>receiving := (receiving p)(m := None)\<rparr>"
  have A: "?A - {m} = dom (sending ?p) \<union> dom (receiving ?p)" using r dis by auto
  have inv': "mq_inv q' (m # F) Q (?A - {m})" unfolding q' by (rule mq_put_slot_inv [OF inv m])
  have out: "sending p m = None" using r dis by auto
  have "mq_sim q' ?p"
  proof (rule mq_simI [OF inv' [unfolded A]])
    show "msg_next q' k = None" if "sending ?p k = Some (False, v)" for k v
    proof -
      have "k \<noteq> m" "sending p k = Some (False, v)" using that out by auto
      then show ?thesis using snd(2) by (simp add: q')
    qed
  qed (use dis snd(1) rcv ms in \<open>auto simp: h split: if_splits\<close>)
  moreover have "take (length buf) msg = buf" using rcv [OF r] msg by (simp add: holds_def)
  ultimately show ?thesis using r by auto
qed

lemma mq_do_size: "mq_do e q = Some q' \<Longrightarrow> msg_size q' = msg_size q"
  by (cases e) (auto simp: mq_take_slot_def mq_unlink_def Let_def split: option.splits if_splits)

lemma mq_step_sim:
  assumes "mq_sim q p" "mq_do e q = Some q'" "step_ok (unat (msg_size q)) e p"
  shows "\<exists>p'. spec_do e p = Some p' \<and> mq_sim q' p'"
proof (cases e)
  case Send_begin
  then show ?thesis using assms sim_send_begin by (simp only: step_ok.simps)
next
  case Send_end
  then show ?thesis using assms sim_send_end by (auto simp only: step_ok.simps)
next
  case Recv_begin
  then show ?thesis using assms sim_recv_begin by blast
next
  case (Recv_end m msg)
  then show ?thesis using assms(1,2,3) sim_recv_end by (auto simp only: step_ok.simps not_None_eq)
qed

text \<open>However the critical sections of sends and receives follow each other, every message comes
  out as it went in, in the order in which the ends of the sends linked them.\<close>

lemma mq_run_sim:
  assumes "mq_sim q p" "mq_run es q = Some q'" "run_ok (unat (msg_size q)) es p"
  shows "\<exists>p'. spec_run es p = Some p' \<and> mq_sim q' p'"
  using assms
proof (induction es arbitrary: q p)
  case (Cons e es)
  then obtain q1 where q1: "mq_do e q = Some q1" "mq_run es q1 = Some q'" by (auto simp: bind_eq_Some_conv)
  obtain p1 where p1: "spec_do e p = Some p1" "mq_sim q1 p1"
    using mq_step_sim [OF Cons.prems(1) q1(1)] Cons.prems(3) by auto
  then have "run_ok (unat (msg_size q1)) es p1" using Cons.prems(3) mq_do_size [OF q1(1)] by simp
  from Cons.IH [OF p1(2) q1(2) this] p1(1) show ?case by simp
qed simp

subsection \<open>The operations keep the invariant of the kernel\<close>

lemma kinv_mq_init: "rt_mq_init x nm pool msz psz flag s = Some (r, s') \<Longrightarrow> kinv s \<Longrightarrow> kinv s'"
  by (auto simp: rt_mq_init_def bind_eq_Some_conv l_init_head_def Let_def split: if_splits
      intro!: kinv_objs intro: kinv_object_init)

lemma kinv_mq_detach:
  assumes op: "rt_mq_detach x s = Some (r, s')" and inv: "kinv s"
  shows "kinv s'"
proof -
  from op obtain r1 s1 where "rt_ipc_list_resume_all (Mq_wait x) s = Some (r1, s1)"
    "s' = rt_object_detach (MessageQueue_o x) s1"
    by (auto simp: rt_mq_detach_def bind_eq_Some_conv)
  then show ?thesis using inv by (auto intro!: kinv_object_detach elim!: kinv_resume_all)
qed

lemma kinv_mq_delete:
  assumes op: "rt_mq_delete x s = Some (r, s')" and inv: "kinv s"
  shows "kinv s'"
proof -
  from op obtain r1 s1 s2 where "rt_ipc_list_resume_all (Mq_wait x) s = Some (r1, s1)"
    "k_free (mq_msg_pool (msgqueues s1 x)) s1 = Some s2" "rt_object_delete (MessageQueue_o x) s2 = Some s'"
    by (auto simp: rt_mq_delete_def rt_debug_not_in_interrupt_def rt_assert_def bind_eq_Some_conv split: if_splits)
  then show ?thesis using inv by (auto elim!: kinv_object_delete kinv_heap(2) kinv_resume_all)
qed

lemma kinv_mq_create:
  assumes op: "rt_mq_create nm msz mx flag s = Some (a, s')" and inv: "kinv s"
  shows "kinv s'"
proof -
  from op obtain x s1 where al: "rt_object_allocate RT_Object_Class_MessageQueue nm s = Some (x, s1)"
    by (auto simp: rt_mq_create_def rt_debug_not_in_interrupt_def rt_assert_def bind_eq_Some_conv split: if_splits)
  have k1: "kinv s1" using al inv by (rule kinv_ipc_allocate) simp
  show ?thesis
  proof (cases "x = 0")
    case True
    then show ?thesis using op al k1
      by (auto simp: rt_mq_create_def rt_debug_not_in_interrupt_def rt_assert_def bind_eq_Some_conv split: if_splits)
  next
    case False
    define s2 where "s2 = upd_obj (MessageQueue_o x) (\<lambda>r. r\<lparr>o_flag := flag\<rparr>) s1"
    have k2: "kinv s2" using k1 unfolding s2_def by (rule kinv_objs) simp
    define sized where "sized s3 = upd_mq x (\<lambda>r. r\<lparr>max_msgs := ucast mx\<rparr>)
      (upd_mq x (\<lambda>r. r\<lparr>msg_size := ucast (RT_ALIGN msz RT_ALIGN_SIZE)\<rparr>) s3)" for s3
    from op al False obtain s3 pool s4 where s3: "on_tlists (l_init_head (Mq_wait x)) s2 = Some s3" and
      s4: "k_malloc ((ucast (msg_size (msgqueues (sized s3) x)) + 4) * ucast (max_msgs (msgqueues (sized s3) x)))
        (sized s3) = Some (pool, s4)" and
      s': "(\<exists>r. rt_mq_delete x (upd_mq x (\<lambda>r. r\<lparr>mq_msg_pool := pool\<rparr>) s4) = Some (r, s')) \<or>
        s' = upd_mq x mq_init_slots (upd_mq x (\<lambda>r. r\<lparr>mq_msg_pool := pool\<rparr>) s4)"
      by (auto simp: rt_mq_create_def rt_debug_not_in_interrupt_def rt_assert_def bind_eq_Some_conv Let_def
          s2_def sized_def split: if_splits)
    have "kinv s3" using s3 k2 by (auto simp: l_init_head_def split: if_splits)
    then have "kinv s4" by (intro kinv_heap(1) [OF s4]) (simp add: sized_def)
    then show ?thesis using s' kinv_mq_delete by auto
  qed
qed

lemma mq_send_begin_cases:
  assumes op: "mq_send_begin urgent x buf s = Some (out, s')"
  obtains (refused) e where "out = Mq_returned e" "e \<noteq> RT_EOK" "s' = s"
  | (taken) msg q where "out = Mq_slot msg" "mq_take_slot (msgqueues s x) = Some (msg, q)" "buf \<noteq> []"
      "length buf \<le> unat (msg_size (msgqueues s x))"
      "s' = upd_mq x (\<lambda>_. mq_copy_in msg buf (if urgent then q else mq_set_next msg None q)) s"
proof (cases "length buf > unat (msg_size (msgqueues s x))")
  case True
  then show ?thesis using op that(1) [of "- RT_ERROR"]
    by (simp add: mq_send_begin_def rt_assert_def RT_EOK_def RT_ERROR_def split: if_splits)
next
  case False
  show ?thesis
  proof (cases "mq_take_slot (msgqueues s x)")
    case None
    with False show ?thesis using op that(1) [of "- RT_EFULL"]
      by (simp add: mq_send_begin_def rt_assert_def RT_EOK_def RT_EFULL_def split: if_splits)
  next
    case (Some p)
    with False show ?thesis using op that(2) [of "fst p" "snd p"]
      by (cases p) (simp add: mq_send_begin_def rt_assert_def Let_def split: if_splits)
  qed
qed

lemma mq_send_end_cases:
  assumes op: "mq_send_end urgent x msg s = Some (r, s')"
  obtains (quiet) "r = RT_EOK" "elems (tlists s) (Mq_wait x) = []"
      "s' = upd_mq x (if urgent then mq_link_head msg else mq_link_tail msg) s"
  | (wake) e s1 where "r = RT_EOK" "elems (tlists s) (Mq_wait x) \<noteq> []"
      "rt_ipc_list_resume (Mq_wait x) (upd_mq x (if urgent then mq_link_head msg else mq_link_tail msg) s) = Some (e, s1)"
      "rt_schedule s1 = Some s'"
  using op that by (auto simp: mq_send_end_def bind_eq_Some_conv Let_def split: if_splits)

lemma kinv_mq_send_begin: "mq_send_begin urgent x buf s = Some (out, s') \<Longrightarrow> kinv s \<Longrightarrow> kinv s'"
  by (erule mq_send_begin_cases) simp_all

lemma kinv_mq_send_end:
  assumes op: "mq_send_end urgent x msg s = Some (r, s')" and inv: "kinv s"
  shows "kinv s'"
  using op
proof (cases rule: mq_send_end_cases)
  case (wake e s1)
  have "kinv s1" using inv by (intro kinv_list_resume [OF wake(3)]) simp
  then show ?thesis by (rule kinv_schedule [OF wake(4)])
qed (use inv in simp)

lemma mq_send_bothE:
  assumes "mq_send_both urgent x buf s = Some (r, s')"
  obtains (refused) "mq_send_begin urgent x buf s = Some (Mq_returned r, s')"
  | (sent) msg s1 where "mq_send_begin urgent x buf s = Some (Mq_slot msg, s1)" "mq_send_end urgent x msg s1 = Some (r, s')"
proof -
  from assms obtain a s1 where a: "mq_send_begin urgent x buf s = Some (a, s1)"
    "(case a of Mq_slot msg \<Rightarrow> mq_send_end urgent x msg s1 | Mq_returned e \<Rightarrow> Some (e, s1) | Mq_blocked k \<Rightarrow> None) = Some (r, s')"
    by (auto simp: mq_send_both_def bind_eq_Some_conv)
  then show ?thesis using that by (cases a) auto
qed

lemma kinv_mq_send_both: "mq_send_both urgent x buf s = Some (r, s') \<Longrightarrow> kinv s \<Longrightarrow> kinv s'"
  by (erule mq_send_bothE) (blast intro: kinv_mq_send_begin kinv_mq_send_end)+

lemma kinv_mq_send: "rt_mq_send x buf s = Some (r, s') \<Longrightarrow> kinv s \<Longrightarrow> kinv s'"
  by (simp add: rt_mq_send_def kinv_mq_send_both)

lemma kinv_mq_urgent: "rt_mq_urgent x buf s = Some (r, s') \<Longrightarrow> kinv s \<Longrightarrow> kinv s'"
  by (simp add: rt_mq_urgent_def kinv_mq_send_both)

lemma mq_recv_cases:
  assumes op: "mq_recv_loop x thread timeout td s = Some (out, s')"
  obtains (empty) t where "mq_entry (msgqueues s x) = 0" "thread = Some t" "timeout = 0"
      "out = Mq_returned (- RT_ETIMEOUT)" "s' = upd_thread t (\<lambda>r. r\<lparr>th_error := - RT_ETIMEOUT\<rparr>) s"
  | (blocked) t s1 where "mq_entry (msgqueues s x) = 0" "thread = Some t" "timeout \<noteq> 0"
      "out = Mq_blocked (t, timeout, if sint timeout > 0 then rt_tick s else td)"
      "ipc_wait (Mq_wait x) t (o_flag (objs s (MessageQueue_o x))) timeout
         (upd_thread t (\<lambda>r. r\<lparr>th_error := RT_EOK\<rparr>) s) = Some s1" "rt_schedule s1 = Some s'"
  | (slot) msg q where "mq_entry (msgqueues s x) \<noteq> 0" "mq_unlink (msgqueues s x) = Some (msg, q)"
      "out = Mq_slot msg" "s' = upd_mq x (\<lambda>_. q\<lparr>mq_entry := mq_entry q - 1\<rparr>) s"
proof (cases "mq_entry (msgqueues s x) = 0")
  case True
  with op obtain t where t: "thread = Some t"
    by (auto simp: mq_recv_loop_def rt_debug_not_in_interrupt_def bind_eq_Some_conv)
  show ?thesis
  proof (cases "timeout = 0")
    case False
    with op True t that(2) show ?thesis
      by (auto simp: mq_recv_loop_def rt_debug_not_in_interrupt_def rt_tick_get_def bind_eq_Some_conv Let_def)
  qed (use op True t that(1) in \<open>auto simp: mq_recv_loop_def rt_debug_not_in_interrupt_def bind_eq_Some_conv\<close>)
next
  case False
  then show ?thesis using op that(3) by (auto simp: mq_recv_loop_def bind_eq_Some_conv)
qed

lemma kinv_mq_recv_loop:
  assumes op: "mq_recv_loop x thread timeout td s = Some (out, s')" and inv: "kinv s"
    and me: "waiter_ready thread s"
  shows "kinv s'"
  using op
proof (cases rule: mq_recv_cases)
  case (empty t)
  then show ?thesis using kinv_error [OF inv] by simp
next
  case (blocked t s1)
  have "kinv s1"
    using kinv_wait [OF blocked(5) kinv_error [OF inv]] me blocked(2) by (simp add: waiter_ready_def)
  then show ?thesis by (rule kinv_schedule [OF blocked(6)])
qed (use inv in simp)

lemma kinv_mq_recv:
  assumes "rt_mq_recv x n timeout s = Some (out, s')" "kinv s" "self_ready s"
  shows "kinv s'"
  using assms self_waiter kinv_mq_recv_loop
  by (auto simp: rt_mq_recv_def rt_assert_def bind_eq_Some_conv split: if_splits)

lemma kinv_mq_recv_resumed:
  assumes "rt_mq_recv_resumed x (t, k) s = Some (out, s')" "kinv s" "stat (threads s t) = RT_THREAD_READY"
  shows "kinv s'"
  using assms kinv_mq_recv_loop
  by (cases k) (auto simp: rt_mq_recv_resumed_def waiter_ready_def split: if_splits prod.splits)

lemma kinv_mq_recv_end: "kinv s \<Longrightarrow> kinv (snd (rt_mq_recv_end x n msg s))"
  by (simp add: rt_mq_recv_end_def Let_def)

lemma kinv_mq_control:
  assumes op: "rt_mq_control x cmd s = Some (r, s')" and inv: "kinv s"
  shows "kinv s'"
proof (cases "cmd = RT_IPC_CMD_RESET")
  case True
  with op obtain r1 s1 q where "rt_ipc_list_resume_all (Mq_wait x) s = Some (r1, s1)"
    "rt_schedule (upd_mq x (\<lambda>_. q\<lparr>mq_entry := 0\<rparr>) s1) = Some s'"
    by (auto simp: rt_mq_control_def bind_eq_Some_conv)
  then show ?thesis using inv by (auto elim!: kinv_schedule kinv_resume_all)
qed (use op inv in \<open>simp add: rt_mq_control_def\<close>)

subsection \<open>What a send and a receive do\<close>

lemma mq_send_end_queue:
  assumes "mq_send_end urgent x msg s = Some (r, s')"
  shows "r = RT_EOK \<and> msgqueues s' x = (if urgent then mq_link_head msg else mq_link_tail msg) (msgqueues s x)"
  using assms
proof (cases rule: mq_send_end_cases)
  case (wake e s1)
  from ipc_dataD(5) [OF list_resume_data [OF wake(3)]] schedule_same(9) [OF wake(4)] wake(1) show ?thesis by simp
qed simp

text \<open>A send that is accepted puts its message, padded to the size of a slot, at the end; an urgent
  one puts it in front.\<close>

lemma mq_send_both_msgs:
  assumes op: "mq_send_both urgent x buf s = Some (r, s')" and good: "mq_good (msgqueues s x)"
  shows "mq_good (msgqueues s' x) \<and>
    (if r = RT_EOK then \<exists>w. padded (msgqueues s x) buf w \<and>
        mq_msgs (msgqueues s' x) = (if urgent then w # mq_msgs (msgqueues s x) else mq_msgs (msgqueues s x) @ [w])
     else msgqueues s' x = msgqueues s x)"
  using op
proof (cases rule: mq_send_bothE)
  case refused
  then show ?thesis using good by (auto elim!: mq_send_begin_cases)
next
  case (sent msg s1)
  from sent(1) obtain q where t: "mq_take_slot (msgqueues s x) = Some (msg, q)" and len: "length buf \<le> unat (msg_size (msgqueues s x))"
    and s1: "msgqueues s1 x = mq_copy_in msg buf (if urgent then q else mq_set_next msg None q)"
    by (auto elim!: mq_send_begin_cases)
  have e: "r = RT_EOK" "msgqueues s' x = (if urgent then mq_link_head msg else mq_link_tail msg) (msgqueues s1 x)"
    using mq_send_end_queue [OF sent(2)] by simp_all
  then have put: "mq_put urgent buf (msgqueues s x) = Some (msgqueues s' x)"
    by (simp add: mq_put_def t s1)
  have "\<not> mq_full (msgqueues s x)" using t by (auto simp: mq_full_def mq_take_slot_def split: option.splits)
  from mq_put_Some [OF good this len, of urgent] put e(1) show ?thesis by auto
qed

lemma mq_get_parts:
  assumes "mq_unlink q = Some (msg, q1)" "mq_get q = Some (v, q2)"
  shows "mq_put_slot msg (q1\<lparr>mq_entry := mq_entry q1 - 1\<rparr>) = q2 \<and> v = slot_bytes q1 msg"
  using assms by (auto simp: mq_get_def slot_bytes_def Let_def)

text \<open>A receive that gets a slot, and copies and frees it at once, takes the first message; the
  buffer gets as much of it as it has room for.\<close>

lemma mq_recv_msgs:
  assumes op: "rt_mq_recv x n timeout s = Some (Mq_slot msg, s1)" and good: "mq_good (msgqueues s x)"
    and fin: "rt_mq_recv_end x n msg s1 = ((r, buf), s')"
  shows "r = RT_EOK \<and> mq_good (msgqueues s' x) \<and>
    (\<exists>w. mq_msgs (msgqueues s x) = w # mq_msgs (msgqueues s' x) \<and> buf = take (unat n) w)"
proof -
  from op have "mq_recv_loop x (rt_thread_self s) timeout 0 s = Some (Mq_slot msg, s1)"
    by (auto simp: rt_mq_recv_def rt_assert_def bind_eq_Some_conv split: if_splits)
  then obtain q where ne: "mq_entry (msgqueues s x) \<noteq> 0" and u: "mq_unlink (msgqueues s x) = Some (msg, q)"
    and s1: "msgqueues s1 x = q\<lparr>mq_entry := mq_entry q - 1\<rparr>"
    by (cases rule: mq_recv_cases) auto
  have "mq_msgs (msgqueues s x) \<noteq> []" using ne mq_good_sizes(3) [OF good] by (simp add: mq_empty_def)
  then obtain w ws where ws: "mq_msgs (msgqueues s x) = w # ws" by (cases "mq_msgs (msgqueues s x)") auto
  from mq_get_Some [OF good ws] obtain q2 where q2: "mq_get (msgqueues s x) = Some (w, q2)" "mq_good q2" "mq_msgs q2 = ws"
    by auto
  note p = mq_get_parts [OF u q2(1)]
  let ?n = "if n > ucast (msg_size q) then ucast (msg_size q) else n"
  have sz: "unat (ucast (msg_size q) :: u32) = unat (msg_size q)" by (rule unat_ucast_16)
  have le: "unat ?n \<le> unat (msg_size q)" using sz by (auto simp: word_less_nat_alt)
  have len: "length w = unat (msg_size q)" using p by simp
  have "buf = mq_copy_out msg (unat ?n) q"
    using fin s1 by (cases "n > ucast (msg_size q)") (auto simp: rt_mq_recv_end_def Let_def)
  then have "buf = take (unat ?n) w" using mq_copy_out_take [OF le] p by simp
  also have "\<dots> = take (unat n) w" using len sz by (auto simp: word_less_nat_alt)
  finally have "buf = take (unat n) w" .
  moreover have "r = RT_EOK" "msgqueues s' x = q2"
    using fin p s1 by (auto simp: rt_mq_recv_end_def Let_def)
  ultimately show ?thesis using q2(2,3) ws by auto
qed

text \<open>A reset returns and leaves an empty queue.\<close>

lemma mq_reset_empties:
  assumes op: "rt_mq_control x RT_IPC_CMD_RESET s = Some (r, s')" and good: "mq_good (msgqueues s x)"
  shows "r = RT_EOK \<and> mq_good (msgqueues s' x) \<and> mq_msgs (msgqueues s' x) = []"
proof -
  from op obtain r1 s1 q where ra: "rt_ipc_list_resume_all (Mq_wait x) s = Some (r1, s1)"
    and q: "mq_drain (msgqueues s1 x) = Some q"
    and sch: "rt_schedule (upd_mq x (\<lambda>_. q\<lparr>mq_entry := 0\<rparr>) s1) = Some s'" and r: "r = RT_EOK"
    by (auto simp: rt_mq_control_def bind_eq_Some_conv)
  have "msgqueues s1 = msgqueues s" using ipc_dataD(5) [OF resume_all_data [OF ra]] .
  moreover obtain F Q where "mq_inv (msgqueues s x) F Q {}" using good by (auto simp: mq_good_def)
  ultimately obtain F' where inv: "mq_inv (q\<lparr>mq_entry := 0\<rparr>) F' [] {}"
    using mq_drain_inv [of "msgqueues s x" F Q "{}"] q by auto
  moreover have "msgqueues s' x = q\<lparr>mq_entry := 0\<rparr>" using schedule_same(9) [OF sch] by simp
  ultimately show ?thesis using r mq_msgs_inv [OF inv] by (auto simp: mq_good_def)
qed

end
