(* ===== verification/Mempool.thy ===== *)
theory Mempool
  imports Msgqueue
begin

text \<open>
  The memory pools of \<^verbatim>\<open>src/mempool.c\<close>: blocks of one size, the free ones linked through the
  word in front of each block, which holds the pool while a block is in use. A thread that finds
  no free block waits in front of those that already wait, and takes a block without a
  further check when it is woken.
\<close>

subsection \<open>Blocks\<close>

text \<open>The address of a block; addresses are 32-bit numbers.\<close>

definition mp_addr :: "nat \<Rightarrow> u32 \<Rightarrow> nat \<Rightarrow> nat" where
  "mp_addr start bsize i = unat (of_nat start + of_nat i * (bsize + 4) :: u32)"

text \<open>Linking the blocks of a new pool. The last assignment is to the block before the first one when
  there is none, which is memory of someone else.\<close>

definition mp_link_blocks :: "nat \<Rightarrow> u32 \<Rightarrow> nat \<Rightarrow> (nat \<Rightarrow> mp_word) \<Rightarrow> (nat \<Rightarrow> mp_word) option" where
  "mp_link_blocks start bsize n m = do {
     let m = fold (\<lambda>i m. m(mp_addr start bsize i := Next_block (Some (mp_addr start bsize (i + 1))))) [0..<n] m;
     m \<leftarrow> rt_assert (0 < n) m;
     Some (m(mp_addr start bsize (n - 1) := Next_block None))
   }"

text \<open>Taking the first free block, in both places of \<^verbatim>\<open>rt_mp_alloc\<close>; the result is the address
  of the data.\<close>

definition mp_take_block :: "nat \<Rightarrow> kstate \<Rightarrow> (nat \<times> kstate) option" where
  "mp_take_block x s = do {
     let s = upd_mp x (\<lambda>r. r\<lparr>block_free_count := block_free_count r - 1\<rparr>) s;
     b \<leftarrow> block_list (mempools s x);
     (case mp_mem s b of
        Pool _ \<Rightarrow> None
      | Next_block n \<Rightarrow>
          let s = upd_mp x (\<lambda>r. r\<lparr>block_list := n\<rparr>) s;
              s = s\<lparr>mp_mem := (mp_mem s)(b := Pool x)\<rparr>
          in Some (b + 4, s))
   }"

subsection \<open>Operations\<close>

definition rt_mp_init ::
  "nat \<Rightarrow> u8 list \<Rightarrow> nat \<Rightarrow> u32 \<Rightarrow> u32 \<Rightarrow> kstate \<Rightarrow> (rt_err_t \<times> kstate) option" where
  "rt_mp_init x nm start sz bsize s = do {
     s \<leftarrow> rt_object_init (MemPool_o x) RT_Object_Class_MemPool nm s;
     let s = upd_mp x (\<lambda>r. r\<lparr>start_address := start, mp_size := RT_ALIGN_DOWN sz RT_ALIGN_SIZE\<rparr>) s;
     let bsize = RT_ALIGN bsize RT_ALIGN_SIZE;
     let s = upd_mp x (\<lambda>r. r\<lparr>block_size := bsize\<rparr>) s;
     let s = upd_mp x (\<lambda>r. r\<lparr>block_total_count := mp_size r div (block_size r + 4)\<rparr>) s;
     let s = upd_mp x (\<lambda>r. r\<lparr>block_free_count := block_total_count r\<rparr>) s;
     s \<leftarrow> on_tlists (l_init_head (Mp_wait x)) s;
     let s = upd_mp x (\<lambda>r. r\<lparr>suspend_thread_count := 0\<rparr>) s;
     m \<leftarrow> mp_link_blocks start bsize (unat (block_total_count (mempools s x))) (mp_mem s);
     let s = s\<lparr>mp_mem := m\<rparr>;
     Some (RT_EOK, upd_mp x (\<lambda>r. r\<lparr>block_list := Some start\<rparr>) s)
   }"

text \<open>The loop of a detach and a delete, which wakes all threads.\<close>

partial_function (option) mp_resume_all :: "nat \<Rightarrow> kstate \<Rightarrow> kstate option" where
  "mp_resume_all x s =
     (case elems (tlists s) (Mp_wait x) of
        [] \<Rightarrow> Some s
      | t # _ \<Rightarrow>
          Option.bind (rt_thread_resume t (upd_thread t (\<lambda>r. r\<lparr>th_error := - RT_ERROR\<rparr>) s))
            (\<lambda>(_, s). mp_resume_all x
               (upd_mp x (\<lambda>r. r\<lparr>suspend_thread_count := suspend_thread_count r - 1\<rparr>) s)))"

definition rt_mp_detach :: "nat \<Rightarrow> kstate \<Rightarrow> (rt_err_t \<times> kstate) option" where
  "rt_mp_detach x s = do {
     s \<leftarrow> mp_resume_all x s;
     Some (RT_EOK, rt_object_detach (MemPool_o x) s)
   }"

definition rt_mp_create :: "u8 list \<Rightarrow> u32 \<Rightarrow> u32 \<Rightarrow> kstate \<Rightarrow> (nat \<times> kstate) option" where
  "rt_mp_create nm count bsize s = do {
     s \<leftarrow> rt_debug_not_in_interrupt s;
     (x, s) \<leftarrow> rt_object_allocate RT_Object_Class_MemPool nm s;
     if x = 0 then Some (0, s)
     else do {
       let bsize = RT_ALIGN bsize RT_ALIGN_SIZE;
       let s = upd_mp x (\<lambda>r. r\<lparr>block_size := bsize\<rparr>) s;
       let s = upd_mp x (\<lambda>r. r\<lparr>mp_size := (bsize + 4) * count\<rparr>) s;
       (start, s) \<leftarrow> k_malloc ((bsize + 4) * count) s;
       let s = upd_mp x (\<lambda>r. r\<lparr>start_address := start\<rparr>) s;
       if start = 0 then do {
         s \<leftarrow> rt_object_delete (MemPool_o x) s;
         Some (0, s)
       }
       else do {
         let s = upd_mp x (\<lambda>r. r\<lparr>block_total_count := count\<rparr>) s;
         let s = upd_mp x (\<lambda>r. r\<lparr>block_free_count := block_total_count r\<rparr>) s;
         s \<leftarrow> on_tlists (l_init_head (Mp_wait x)) s;
         let s = upd_mp x (\<lambda>r. r\<lparr>suspend_thread_count := 0\<rparr>) s;
         m \<leftarrow> mp_link_blocks start bsize (unat (block_total_count (mempools s x))) (mp_mem s);
         let s = s\<lparr>mp_mem := m\<rparr>;
         Some (x, upd_mp x (\<lambda>r. r\<lparr>block_list := Some start\<rparr>) s)
       }
     }
   }"

definition rt_mp_delete :: "nat \<Rightarrow> kstate \<Rightarrow> (rt_err_t \<times> kstate) option" where
  "rt_mp_delete x s = do {
     s \<leftarrow> rt_debug_not_in_interrupt s;
     s \<leftarrow> mp_resume_all x s;
     s \<leftarrow> k_free (start_address (mempools s x)) s;
     s \<leftarrow> rt_object_delete (MemPool_o x) s;
     Some (RT_EOK, s)
   }"

text \<open>A block, or 0 for \<^verbatim>\<open>RT_NULL\<close>. The thread that waits is put in front of the list.\<close>

definition mp_wait :: "nat \<Rightarrow> tid \<Rightarrow> u32 \<Rightarrow> kstate \<Rightarrow> kstate option" where
  "mp_wait x t time s = do {
     (_, s) \<leftarrow> rt_thread_suspend t s;
     s \<leftarrow> on_tlists (l_insert_first (Mp_wait x) t) s;
     let s = upd_mp x (\<lambda>r. r\<lparr>suspend_thread_count := suspend_thread_count r + 1\<rparr>) s;
     ipc_start_timer t time s
   }"

definition rt_mp_alloc :: "nat \<Rightarrow> u32 \<Rightarrow> kstate \<Rightarrow> ((nat, tid) outcome \<times> kstate) option" where
  "rt_mp_alloc x time s =
     (if block_free_count (mempools s x) \<noteq> 0 then do {
        (b, s) \<leftarrow> mp_take_block x s;
        Some (Returned b, s)
      }
      else if time = 0 then Some (Returned 0, s)
      else do {
        s \<leftarrow> rt_debug_not_in_interrupt s;
        t \<leftarrow> rt_thread_self s;
        s \<leftarrow> mp_wait x t time s;
        s \<leftarrow> rt_schedule s;
        Some (Blocked t, s)
      })"

definition rt_mp_alloc_resumed :: "nat \<Rightarrow> tid \<Rightarrow> kstate \<Rightarrow> (nat \<times> kstate) option" where
  "rt_mp_alloc_resumed x t s =
     (if th_error (threads s t) \<noteq> RT_EOK then Some (0, s) else mp_take_block x s)"

definition rt_mp_free :: "nat \<Rightarrow> kstate \<Rightarrow> kstate option" where
  "rt_mp_free block s = do {
     s \<leftarrow> rt_assert (4 \<le> block) s;
     let b = block - 4;
     (case mp_mem s b of
        Next_block _ \<Rightarrow> None
      | Pool x \<Rightarrow> do {
          let s = upd_mp x (\<lambda>r. r\<lparr>block_free_count := block_free_count r + 1\<rparr>) s;
          let s = s\<lparr>mp_mem := (mp_mem s)(b := Next_block (block_list (mempools s x)))\<rparr>;
          let s = upd_mp x (\<lambda>r. r\<lparr>block_list := Some b\<rparr>) s;
          if suspend_thread_count (mempools s x) > 0 then
            (case elems (tlists s) (Mp_wait x) of
               [] \<Rightarrow> None
             | t # _ \<Rightarrow> do {
                 let s = upd_thread t (\<lambda>r. r\<lparr>th_error := RT_EOK\<rparr>) s;
                 (_, s) \<leftarrow> rt_thread_resume t s;
                 rt_schedule (upd_mp x (\<lambda>r. r\<lparr>suspend_thread_count := suspend_thread_count r - 1\<rparr>) s)
               })
          else Some s
        })
   }"

subsection \<open>The blocks of a pool\<close>

text \<open>A pool whose memory does not go past the end of the addresses.\<close>

definition mp_fits :: "nat \<Rightarrow> u32 \<Rightarrow> nat \<Rightarrow> bool" where
  "mp_fits start bsize n \<longleftrightarrow> unat bsize + 4 < 2 ^ 32 \<and> start + n * (unat bsize + 4) \<le> 2 ^ 32"

lemma mp_addr_eq:
  assumes "mp_fits start bsize n" "i < n"
  shows "mp_addr start bsize i = start + i * (unat bsize + 4)"
proof -
  have c: "unat (bsize + 4) = unat bsize + 4" using assms(1) by (simp add: mp_fits_def unat_word_ariths)
  have "start + (i + 1) * (unat bsize + 4) \<le> 2 ^ 32"
  proof -
    have "(i + 1) * (unat bsize + 4) \<le> n * (unat bsize + 4)" using assms(2) by (intro mult_le_mono1) simp
    then show ?thesis using assms(1) by (simp add: mp_fits_def)
  qed
  then have lt: "start + i * (unat bsize + 4) < 2 ^ 32" by simp
  have "mp_addr start bsize i = (start + i * (unat bsize + 4)) mod 2 ^ 32"
    by (simp only: mp_addr_def unat_word_ariths c unat_of_nat) (simp add: mod_simps)
  with lt show ?thesis by simp
qed

lemma mp_addr_apart:
  assumes "mp_fits start bsize n" "i < j" "j < n"
  shows "mp_addr start bsize i + unat bsize + 4 \<le> mp_addr start bsize j"
proof -
  have "(i + 1) * (unat bsize + 4) \<le> j * (unat bsize + 4)" using assms(2) by (intro mult_le_mono1) simp
  then show ?thesis using mp_addr_eq [OF assms(1), of i] mp_addr_eq [OF assms(1,3)] assms(2,3) by simp
qed

lemma mp_addr_inj: "mp_fits start bsize n \<Longrightarrow> inj_on (mp_addr start bsize) {..<n}"
  using mp_addr_apart [of start bsize n] by (intro linorder_inj_onI) fastforce+

text \<open>The free blocks, linked from \<open>h\<close> on.\<close>

fun free_blocks :: "(nat \<Rightarrow> mp_word) \<Rightarrow> nat option \<Rightarrow> nat list \<Rightarrow> bool" where
  "free_blocks m h [] \<longleftrightarrow> h = None"
| "free_blocks m h (b # bs) \<longleftrightarrow>
     h = Some b \<and> (case m b of Next_block n \<Rightarrow> free_blocks m n bs | Pool _ \<Rightarrow> False)"

lemma free_blocks_other [simp]: "b \<notin> set bs \<Longrightarrow> free_blocks (m(b := w)) h bs \<longleftrightarrow> free_blocks m h bs"
  by (induction bs arbitrary: h) (auto split: mp_word.splits)

lemma free_blocks_cong: "(\<And>b. b \<in> set bs \<Longrightarrow> m b = m' b) \<Longrightarrow> free_blocks m h bs \<longleftrightarrow> free_blocks m' h bs"
  by (induction bs arbitrary: h) (auto split: mp_word.splits)

lemma free_blocks_word: "free_blocks m h bs \<Longrightarrow> b \<in> set bs \<Longrightarrow> m b \<noteq> Pool x"
  by (induction bs arbitrary: h) (auto split: mp_word.splits)

definition mp_blocks :: "rt_mempool \<Rightarrow> nat set" where
  "mp_blocks p = mp_addr (start_address p) (block_size p) ` {..<unat (block_total_count p)}"

lemma finite_mp_blocks [simp]: "finite (mp_blocks p)"
  by (simp add: mp_blocks_def)

definition mp_sized :: "rt_mempool \<Rightarrow> bool" where
  "mp_sized p \<longleftrightarrow> mp_fits (start_address p) (block_size p) (unat (block_total_count p))"

text \<open>\<open>mp_inv s x F A\<close>: the blocks of the pool are those of the free list \<open>F\<close> and those in use \<open>A\<close>.\<close>

definition mp_inv :: "kstate \<Rightarrow> nat \<Rightarrow> nat list \<Rightarrow> nat set \<Rightarrow> bool" where
  "mp_inv s x F A \<longleftrightarrow>
     mp_sized (mempools s x) \<and> free_blocks (mp_mem s) (block_list (mempools s x)) F \<and> distinct F \<and>
     set F \<inter> A = {} \<and> set F \<union> A = mp_blocks (mempools s x) \<and> (\<forall>b \<in> A. mp_mem s b = Pool x) \<and>
     unat (block_free_count (mempools s x)) = length F"

definition mp_wf :: "kstate \<Rightarrow> nat \<Rightarrow> bool" where
  "mp_wf s x \<longleftrightarrow> (\<exists>F A. mp_inv s x F A)"

text \<open>What the pool has handed out.\<close>

definition mp_live :: "kstate \<Rightarrow> nat \<Rightarrow> nat set" where
  "mp_live s x = {b + 4 |b. b \<in> mp_blocks (mempools s x) \<and> mp_mem s b = Pool x}"

lemma mp_live_inv: "mp_inv s x F A \<Longrightarrow> mp_live s x = (\<lambda>b. b + 4) ` A"
  using free_blocks_word [of "mp_mem s" "block_list (mempools s x)" F _ x] by (fastforce simp: mp_live_def mp_inv_def)

lemma mp_blocks_apart:
  assumes "mp_sized p" "b \<in> mp_blocks p" "c \<in> mp_blocks p" "b \<noteq> c"
  shows "b + unat (block_size p) + 4 \<le> c \<or> c + unat (block_size p) + 4 \<le> b"
proof -
  from assms(2,3) obtain i j where ij: "i < unat (block_total_count p)" "j < unat (block_total_count p)"
    "b = mp_addr (start_address p) (block_size p) i" "c = mp_addr (start_address p) (block_size p) j"
    by (auto simp: mp_blocks_def)
  then consider "i < j" | "j < i" using assms(4) by (metis nat_neq_iff)
  then show ?thesis using mp_addr_apart assms(1) ij by (cases; simp add: mp_sized_def)
qed

text \<open>The blocks of a new pool are all free, in ascending order.\<close>

lemma mp_link_blocks_free:
  assumes fits: "mp_fits start bsize n" and pos: "0 < n"
  shows "\<exists>m'. mp_link_blocks start bsize n m = Some m' \<and>
    free_blocks m' (Some (mp_addr start bsize 0)) (map (mp_addr start bsize) [0..<n])"
proof -
  let ?a = "mp_addr start bsize"
  let ?f = "\<lambda>k. fold (\<lambda>i m. m(?a i := Next_block (Some (?a (i + 1))))) [0..<k] m"
  define M where "M = (?f n)(?a (n - 1) := Next_block None)"
  have eq: "?a i = ?a j \<longleftrightarrow> i = j" if "i < n" "j < n" for i j
    using inj_on_eq_iff [OF mp_addr_inj [OF fits]] that by simp
  have f: "?f k (?a i) = Next_block (Some (?a (i + 1)))" if "i < k" "k \<le> n" for i k
    using that
  proof (induction k)
    case (Suc k)
    then show ?case using eq [of i k] by (cases "i = k") auto
  qed simp
  have m: "M (?a i) = Next_block (if i + 1 < n then Some (?a (i + 1)) else None)" if "i < n" for i
  proof (cases "i + 1 = n")
    case True
    then have "n - 1 = i" by simp
    then show ?thesis using True by (simp add: M_def)
  next
    case False
    then have "?a i \<noteq> ?a (n - 1)" using eq [of i "n - 1"] that pos by auto
    then have "M (?a i) = ?f n (?a i)" unfolding M_def by (rule fun_upd_other)
    then show ?thesis using f [OF that order_refl] False that by simp
  qed
  have "free_blocks M (if k < n then Some (?a k) else None) (map ?a [k..<n])" if "k \<le> n" for k
    using that
  proof (induction k rule: inc_induct)
    case (step k)
    have "map ?a [k..<n] = ?a k # map ?a [Suc k..<n]" using step.hyps by (simp add: upt_conv_Cons)
    then show ?case using step m [of k] by (cases "Suc k < n") simp_all
  qed simp
  from this [of 0] pos have "free_blocks M (Some (?a 0)) (map ?a [0..<n])" by simp
  moreover have "mp_link_blocks start bsize n m = Some M"
    using pos by (simp add: mp_link_blocks_def rt_assert_def M_def)
  ultimately show ?thesis by blast
qed

text \<open>Taking a free block, and giving one back.\<close>

lemma mp_take_inv:
  assumes inv: "mp_inv s x (b # F) A"
  shows "\<exists>s'. mp_take_block x s = Some (b + 4, s') \<and> mp_inv s' x F (insert b A) \<and>
    threads s' = threads s \<and> tlists s' = tlists s \<and> kinv s' = kinv s \<and> block_size (mempools s' x) = block_size (mempools s x) \<and>
    suspend_thread_count (mempools s' x) = suspend_thread_count (mempools s x)"
proof -
  let ?p = "mempools s x"
  from inv obtain n where b: "block_list ?p = Some b" "mp_mem s b = Next_block n" "free_blocks (mp_mem s) n F"
    by (auto simp: mp_inv_def split: mp_word.splits)
  let ?s = "s\<lparr>mempools := (mempools s)(x := ?p\<lparr>block_free_count := block_free_count ?p - 1, block_list := n\<rparr>),
    mp_mem := (mp_mem s)(b := Pool x)\<rparr>"
  have "mp_take_block x s = Some (b + 4, ?s)" using b by (simp add: mp_take_block_def)
  moreover have "unat (block_free_count ?p - 1) = length F"
  proof -
    have "block_free_count ?p \<noteq> 0" using inv by (auto simp: mp_inv_def)
    then show ?thesis using inv unat_minus_one [of "block_free_count ?p"] by (simp add: mp_inv_def)
  qed
  then have "mp_inv ?s x F (insert b A)"
    using inv b by (auto simp: mp_inv_def mp_blocks_def mp_sized_def)
  ultimately show ?thesis by (intro exI [of _ ?s]) simp
qed

text \<open>A block is linked in front of the free ones.\<close>

definition mp_given :: "nat \<Rightarrow> nat \<Rightarrow> kstate \<Rightarrow> kstate" where
  "mp_given x b s = s\<lparr>mp_mem := (mp_mem s)(b := Next_block (block_list (mempools s x))),
     mempools := (mempools s)(x := (mempools s x)\<lparr>block_free_count := block_free_count (mempools s x) + 1,
       block_list := Some b\<rparr>)\<rparr>"

lemma mp_give_inv:
  assumes inv: "mp_inv s x F A" and b: "b \<in> A"
  shows "mp_inv (mp_given x b s) x (b # F) (A - {b})"
proof -
  let ?p = "mempools s x"
  have fin: "finite (set F \<union> A)" using inv by (simp add: mp_inv_def)
  have "length F = card (set F)" using inv by (simp add: mp_inv_def distinct_card)
  also have "\<dots> < card (set F \<union> A)" using fin b inv by (intro psubset_card_mono) (auto simp: mp_inv_def)
  also have "\<dots> \<le> unat (block_total_count ?p)"
    using inv card_image_le [of "{..<unat (block_total_count ?p)}" "mp_addr (start_address ?p) (block_size ?p)"]
    by (simp add: mp_inv_def mp_blocks_def)
  finally have "length F < unat (block_total_count ?p)" .
  then have "length F + 1 < 2 ^ LENGTH(32)" using unsigned_less [of "block_total_count ?p", where ?'a = nat] by simp
  then have "unat (block_free_count ?p + 1) = length F + 1"
    using inv by (simp add: mp_inv_def unat_word_ariths)
  moreover have "b \<notin> set F" using inv b by (auto simp: mp_inv_def)
  ultimately show ?thesis using inv b by (auto simp: mp_inv_def mp_blocks_def mp_sized_def mp_given_def)
qed

subsection \<open>The operations keep the invariant of the kernel\<close>

lemma mp_takeE:
  assumes "mp_take_block x s = Some (a, s')"
  obtains b n where "block_list (mempools s x) = Some b" "mp_mem s b = Next_block n" "a = b + 4"
    "s' = s\<lparr>mempools := (mempools s)(x := (mempools s x)\<lparr>block_free_count := block_free_count (mempools s x) - 1,
       block_list := n\<rparr>), mp_mem := (mp_mem s)(b := Pool x)\<rparr>"
proof (cases "block_list (mempools s x)")
  case (Some b)
  then show ?thesis using assms that [of b] by (cases "mp_mem s b") (auto simp: mp_take_block_def Let_def)
qed (use assms in \<open>simp add: mp_take_block_def\<close>)

lemma kinv_mp_take: "mp_take_block x s = Some (b, s') \<Longrightarrow> kinv s' = kinv s"
  by (erule mp_takeE) simp

lemma kinv_mp_init: "rt_mp_init x nm start sz bsz s = Some (r, s') \<Longrightarrow> kinv s \<Longrightarrow> kinv s'"
  by (auto simp: rt_mp_init_def bind_eq_Some_conv l_init_head_def Let_def split: if_splits
      intro: kinv_object_init)

text \<open>Waking all threads of a pool ends, like waking those of an IPC object.\<close>

lemma mp_resume_all:
  assumes "kinv s"
  shows "\<exists>s'. mp_resume_all x s = Some s' \<and> kinv s' \<and> elems (tlists s') (Mp_wait x) = [] \<and>
    suspend_thread_count (mempools s' x) =
      suspend_thread_count (mempools s x) - of_nat (length (elems (tlists s) (Mp_wait x)))"
  using assms
proof (induction "elems (tlists s) (Mp_wait x)" arbitrary: s)
  case Nil
  then show ?case by (intro exI [of _ s]) (subst mp_resume_all.simps, simp)
next
  case (Cons t ts)
  let ?s = "upd_thread t (\<lambda>r. r\<lparr>th_error := - RT_ERROR\<rparr>) s"
  have k: "kinv ?s" using Cons.prems by (rule kinv_error)
  have st: "stat (threads ?s t) = RT_THREAD_SUSPEND"
    using wait_thread [OF Cons.prems, of "Mp_wait x" t] Cons.hyps(2) [symmetric] by simp
  obtain s1 where r: "rt_thread_resume t ?s = Some (RT_EOK, s1)"
    using rt_thread_resume_total [OF k st] by blast
  let ?s2 = "upd_mp x (\<lambda>r. r\<lparr>suspend_thread_count := suspend_thread_count r - 1\<rparr>) s1"
  have "ts = elems (tlists ?s2) (Mp_wait x)"
    using thread_resume_suspended(1) [OF r k st, of "Mp_wait x"] Cons.hyps(2) [symmetric] by simp
  moreover have "kinv ?s2" using kinv_resume [OF r k] by simp
  moreover have "mempools s1 = mempools s" using ipc_dataD(6) [OF resume_data [OF r]] by simp
  ultimately obtain s' where "mp_resume_all x ?s2 = Some s'" "kinv s'" "elems (tlists s') (Mp_wait x) = []"
    "suspend_thread_count (mempools s' x) = suspend_thread_count (mempools s x) - 1 - of_nat (length ts)"
    using Cons.hyps(1) [of ?s2] by auto
  moreover have "mp_resume_all x s = mp_resume_all x ?s2"
    using Cons.hyps(2) [symmetric] r by (subst mp_resume_all.simps) simp
  ultimately show ?case using Cons.hyps(2) [symmetric] by auto
qed

lemma kinv_mp_resume_all: "mp_resume_all x s = Some s' \<Longrightarrow> kinv s \<Longrightarrow> kinv s'"
  using mp_resume_all [of s x] by auto

lemma kinv_mp_detach: "rt_mp_detach x s = Some (r, s') \<Longrightarrow> kinv s \<Longrightarrow> kinv s'"
  by (auto simp: rt_mp_detach_def bind_eq_Some_conv intro: kinv_object_detach kinv_mp_resume_all)

lemma kinv_mp_delete: "rt_mp_delete x s = Some (r, s') \<Longrightarrow> kinv s \<Longrightarrow> kinv s'"
  by (auto simp: rt_mp_delete_def rt_debug_not_in_interrupt_def rt_assert_def bind_eq_Some_conv split: if_splits
      elim!: kinv_object_delete kinv_heap(2) kinv_mp_resume_all)

lemma kinv_mp_create:
  assumes op: "rt_mp_create nm count bsz s = Some (a, s')" and inv: "kinv s"
  shows "kinv s'"
proof -
  from op obtain x s1 where al: "rt_object_allocate RT_Object_Class_MemPool nm s = Some (x, s1)"
    by (auto simp: rt_mp_create_def rt_debug_not_in_interrupt_def rt_assert_def bind_eq_Some_conv split: if_splits)
  have k1: "kinv s1" using al inv by (rule kinv_ipc_allocate) simp
  show ?thesis
  proof (cases "x = 0")
    case True
    then show ?thesis using op al k1
      by (auto simp: rt_mp_create_def rt_debug_not_in_interrupt_def rt_assert_def bind_eq_Some_conv split: if_splits)
  next
    case False
    let ?b = "RT_ALIGN bsz RT_ALIGN_SIZE"
    define s2 where "s2 = upd_mp x (\<lambda>r. r\<lparr>mp_size := (?b + 4) * count\<rparr>) (upd_mp x (\<lambda>r. r\<lparr>block_size := ?b\<rparr>) s1)"
    have k2: "kinv s2" using k1 by (simp add: s2_def)
    from op al False obtain start s3 where s3: "k_malloc ((?b + 4) * count) s2 = Some (start, s3)"
      by (auto simp: rt_mp_create_def rt_debug_not_in_interrupt_def rt_assert_def bind_eq_Some_conv Let_def s2_def
          split: if_splits)
    have k3: "kinv s3" by (rule kinv_heap(1) [OF s3 k2])
    show ?thesis
    proof (cases "start = 0")
      case True
      then show ?thesis using op al False s3 k3
        by (auto simp: rt_mp_create_def rt_debug_not_in_interrupt_def rt_assert_def bind_eq_Some_conv Let_def s2_def
            split: if_splits elim!: kinv_object_delete)
    next
      case nz: False
      then show ?thesis using op al False s3 k3
        by (auto simp: rt_mp_create_def rt_debug_not_in_interrupt_def rt_assert_def bind_eq_Some_conv Let_def s2_def
            l_init_head_def split: if_splits)
    qed
  qed
qed

text \<open>A wait: the thread is suspended and in front of the list.\<close>

lemma mp_wait_keeps:
  assumes op: "mp_wait x t time s = Some s'" and inv: "kinv s" and st: "stat (threads s t) = RT_THREAD_READY"
  shows "kinv s'"
proof -
  from op obtain e s1 L where sus: "rt_thread_suspend t s = Some (e, s1)"
    and L: "l_insert_first (Mp_wait x) t (tlists s1) = Some L"
    and tm: "ipc_start_timer t time (upd_mp x (\<lambda>r. r\<lparr>suspend_thread_count := suspend_thread_count r + 1\<rparr>)
      (s1\<lparr>tlists := L\<rparr>)) = Some s'"
    by (auto simp: mp_wait_def bind_eq_Some_conv)
  have k1: "kinv s1" by (rule kinv_suspend [OF sus inv])
  then have wf: "wf_lists (tlists s1)" by (auto simp: kinv_def sched_inv_def dest: sched_but_wf)
  have "stat (threads s1 t) = RT_THREAD_SUSPEND" using thread_suspend_ready(1) [OF sus inv st] by simp
  then have "kinv (s1\<lparr>tlists := L\<rparr>)"
    using L by (intro kinv_link [OF k1 _ _ wf_l_insert_first [OF wf L], of t "Mp_wait x"]) (simp_all add: l_insert_first_Some)
  then show ?thesis by (intro kinv_start_timer [OF tm]) simp
qed

lemma kinv_mp_alloc:
  assumes op: "rt_mp_alloc x time s = Some (out, s')" and inv: "kinv s" and me: "self_ready s"
  shows "kinv s'"
proof -
  from op consider b where "mp_take_block x s = Some (b, s')" | "s' = s"
    | t s1 where "rt_current_thread s = Some t" "mp_wait x t time s = Some s1" "rt_schedule s1 = Some s'"
    by (auto simp: rt_mp_alloc_def rt_debug_not_in_interrupt_def rt_assert_def rt_thread_self_def bind_eq_Some_conv
        split: if_splits)
  then show ?thesis
  proof cases
    case 1
    then show ?thesis using kinv_mp_take inv by blast
  next
    case (3 t s1)
    have "stat (threads s t) = RT_THREAD_READY" using 3(1) me by (simp add: self_ready_def)
    from mp_wait_keeps [OF 3(2) inv this] show ?thesis by (rule kinv_schedule [OF 3(3)])
  qed (use inv in simp)
qed

lemma kinv_mp_alloc_resumed: "rt_mp_alloc_resumed x t s = Some (b, s') \<Longrightarrow> kinv s \<Longrightarrow> kinv s'"
  using kinv_mp_take by (auto simp: rt_mp_alloc_resumed_def split: if_splits)

text \<open>What a free does: it links the block, and wakes the first thread if the count says
  that there is one.\<close>

lemma mp_free_cases:
  assumes "rt_mp_free a s = Some s'"
  obtains (quiet) x where "4 \<le> a" "mp_mem s (a - 4) = Pool x" "suspend_thread_count (mempools s x) = 0"
      "s' = mp_given x (a - 4) s"
  | (wake) x t ts e s1 where "4 \<le> a" "mp_mem s (a - 4) = Pool x" "suspend_thread_count (mempools s x) \<noteq> 0"
      "elems (tlists s) (Mp_wait x) = t # ts"
      "rt_thread_resume t (upd_thread t (\<lambda>r. r\<lparr>th_error := RT_EOK\<rparr>) (mp_given x (a - 4) s)) = Some (e, s1)"
      "rt_schedule (upd_mp x (\<lambda>r. r\<lparr>suspend_thread_count := suspend_thread_count r - 1\<rparr>) s1) = Some s'"
proof (cases "mp_mem s (a - 4)")
  case (Next_block n)
  then show ?thesis using assms by (simp add: rt_mp_free_def rt_assert_def Let_def split: if_splits)
next
  case (Pool x)
  have a: "4 \<le> a" using assms by (simp add: rt_mp_free_def rt_assert_def split: if_splits)
  show ?thesis
  proof (cases "suspend_thread_count (mempools s x) = 0")
    case True
    then show ?thesis using assms Pool a quiet [of x] by (simp add: rt_mp_free_def rt_assert_def mp_given_def Let_def)
  next
    case False
    then have "suspend_thread_count (mempools s x) > 0" by (simp add: word_gt_0)
    then show ?thesis using assms Pool a False wake [of x]
      by (auto simp: rt_mp_free_def rt_assert_def mp_given_def Let_def bind_eq_Some_conv split: list.splits)
  qed
qed

lemma kinv_mp_given [simp]: "kinv (mp_given x b s) = kinv s"
  by (simp add: mp_given_def)

lemma kinv_mp_free:
  assumes op: "rt_mp_free a s = Some s'" and inv: "kinv s"
  shows "kinv s'"
  using op
proof (cases rule: mp_free_cases)
  case (wake x t ts e s1)
  have "kinv s1" using inv by (intro kinv_resume [OF wake(5)] kinv_error) simp
  then show ?thesis by (intro kinv_schedule [OF wake(6)]) simp
qed (use inv in simp)

lemma unat_succ: "w \<noteq> 0xffffffff \<Longrightarrow> unat (w + 1 :: u32) = unat w + 1"
  using unsigned_less [of w, where ?'a = nat] by (simp add: unat_word_ariths word_unat_eq_iff)

subsection \<open>What the operations do\<close>

lemma mp_inv_cong:
  assumes "mp_mem s' = mp_mem s" "start_address (mempools s' x) = start_address (mempools s x)"
    "block_size (mempools s' x) = block_size (mempools s x)"
    "block_total_count (mempools s' x) = block_total_count (mempools s x)"
    "block_free_count (mempools s' x) = block_free_count (mempools s x)"
    "block_list (mempools s' x) = block_list (mempools s x)"
  shows "mp_inv s' x F A = mp_inv s x F A"
  using assms by (simp add: mp_inv_def mp_sized_def mp_blocks_def)

text \<open>A new pool has all its blocks free, when its memory does not go past the end of the
  addresses.\<close>

lemma align_below: "unat (RT_ALIGN n RT_ALIGN_SIZE) + 8 \<le> 2 ^ 32"
proof -
  have "8 dvd unat (RT_ALIGN n RT_ALIGN_SIZE)" by (rule RT_ALIGN_dvd)
  moreover have "unat (RT_ALIGN n RT_ALIGN_SIZE) < 2 ^ 32"
    using unsigned_less [of "RT_ALIGN n RT_ALIGN_SIZE", where ?'a = nat] by simp
  ultimately show ?thesis by (auto elim!: dvdE)
qed

lemma mp_init_ok:
  assumes op: "rt_mp_init x nm start sz bsz s = Some (r, s')" and room: "start + unat sz \<le> 2 ^ 32"
  shows "\<exists>F. mp_inv s' x F {} \<and> length F = unat (block_total_count (mempools s' x)) \<and> 0 < length F"
proof -
  let ?b = "RT_ALIGN bsz RT_ALIGN_SIZE" and ?z = "RT_ALIGN_DOWN sz RT_ALIGN_SIZE"
  let ?n = "unat (?z div (?b + 4))"
  from op obtain m m' where link: "mp_link_blocks start ?b ?n m = Some m'"
    and s': "start_address (mempools s' x) = start" "block_size (mempools s' x) = ?b"
      "block_total_count (mempools s' x) = ?z div (?b + 4)" "block_free_count (mempools s' x) = ?z div (?b + 4)"
      "block_list (mempools s' x) = Some start" "mp_mem s' = m'"
    by (auto simp: rt_mp_init_def bind_eq_Some_conv Let_def)
  have pos: "0 < ?n" using link by (simp add: mp_link_blocks_def rt_assert_def split: if_splits)
  have b: "unat (?b + 4) = unat ?b + 4" using align_below [of bsz] by (simp add: unat_word_ariths)
  have "?n * (unat ?b + 4) \<le> unat ?z" by (simp add: unat_div b)
  also have "\<dots> \<le> unat sz" by (simp add: RT_ALIGN_DOWN_def RT_ALIGN_SIZE_def unat_align_down)
  finally have fits: "mp_fits start ?b ?n" using room align_below [of bsz] by (simp add: mp_fits_def)
  have "mp_addr start ?b 0 = start" using mp_addr_eq [OF fits pos] by simp
  moreover obtain m'' where "mp_link_blocks start ?b ?n m = Some m''"
    "free_blocks m'' (Some (mp_addr start ?b 0)) (map (mp_addr start ?b) [0..<?n])"
    using mp_link_blocks_free [OF fits pos] by blast
  ultimately have fr: "free_blocks m' (Some start) (map (mp_addr start ?b) [0..<?n])" using link by simp
  let ?F = "map (mp_addr start ?b) [0..<?n]"
  have "mp_inv s' x ?F {}"
    using fits fr mp_addr_inj [OF fits]
    by (simp add: mp_inv_def mp_sized_def mp_blocks_def s' distinct_map atLeast0LessThan)
  then show ?thesis using pos s'(3) by (intro exI [of _ ?F]) simp
qed

text \<open>An allocation with a free block.\<close>

lemma mp_alloc_ok:
  assumes wf: "mp_wf s x" and free: "block_free_count (mempools s x) \<noteq> 0"
  shows "\<exists>a s'. rt_mp_alloc x time s = Some (Returned a, s') \<and> mp_wf s' x \<and> a \<noteq> 0 \<and> a \<notin> mp_live s x \<and>
    mp_live s' x = insert a (mp_live s x) \<and> a - 4 \<in> mp_blocks (mempools s x) \<and>
    (\<forall>b \<in> mp_live s x. a + unat (block_size (mempools s x)) + 4 \<le> b \<or> b + unat (block_size (mempools s x)) + 4 \<le> a)"
proof -
  from wf obtain F A where inv: "mp_inv s x F A" by (auto simp: mp_wf_def)
  then obtain c F' where F: "F = c # F'" using free by (cases F) (auto simp: mp_inv_def unat_eq_zero)
  obtain s' where s': "mp_take_block x s = Some (c + 4, s')" "mp_inv s' x F' (insert c A)"
    using mp_take_inv [OF inv [unfolded F]] by blast
  note lv = mp_live_inv [OF inv] mp_live_inv [OF s'(2)]
  have c: "c \<notin> A" "c \<in> mp_blocks (mempools s x)" using inv F by (auto simp: mp_inv_def)
  have "c + 4 + unat (block_size (mempools s x)) + 4 \<le> b \<or> b + unat (block_size (mempools s x)) + 4 \<le> c + 4"
    if "b \<in> mp_live s x" for b
  proof -
    from that obtain d where d: "b = d + 4" "d \<in> A" by (auto simp: lv)
    then have "d \<in> mp_blocks (mempools s x)" "d \<noteq> c" using inv c by (auto simp: mp_inv_def)
    then show ?thesis using mp_blocks_apart [of "mempools s x" c d] c(2) inv d(1) by (auto simp: mp_inv_def)
  qed
  moreover have "rt_mp_alloc x time s = Some (Returned (c + 4), s')" using free s'(1) by (simp add: rt_mp_alloc_def)
  moreover have "c + 4 \<notin> mp_live s x" "mp_live s' x = insert (c + 4) (mp_live s x)" using c(1) by (auto simp: lv)
  ultimately show ?thesis using s'(2) c(2) by (intro exI [of _ "c + 4"] exI [of _ s']) (auto simp: mp_wf_def)
qed

text \<open>A pool whose count of waiting threads is right.\<close>

definition mp_counted :: "kstate \<Rightarrow> nat \<Rightarrow> bool" where
  "mp_counted s x \<longleftrightarrow> unat (suspend_thread_count (mempools s x)) = length (elems (tlists s) (Mp_wait x))"

lemma mp_free_ok:
  assumes op: "rt_mp_free a s = Some s'" and inv: "kinv s" and wf: "mp_wf s x" and a: "a \<in> mp_live s x"
    and cnt: "mp_counted s x"
  shows "mp_wf s' x \<and> mp_live s' x = mp_live s x - {a} \<and> mp_counted s' x \<and>
    (case elems (tlists s) (Mp_wait x) of [] \<Rightarrow> threads s' = threads s
     | t # ts \<Rightarrow> stat (threads s' t) = RT_THREAD_READY \<and> th_error (threads s' t) = RT_EOK \<and>
         elems (tlists s') (Mp_wait x) = ts)"
proof -
  from wf obtain F A where mp: "mp_inv s x F A" by (auto simp: mp_wf_def)
  note lv = mp_live_inv [OF mp]
  obtain b where b: "a = b + 4" "b \<in> A" using a by (auto simp: lv)
  have mb: "mp_mem s b = Pool x" using mp b(2) by (simp add: mp_inv_def)
  note g = mp_give_inv [OF mp b(2)]
  have lv': "mp_live (mp_given x b s) x = mp_live s x - {a}"
    using mp_live_inv [OF g] b by (auto simp: lv)
  show ?thesis
    using op
  proof (cases rule: mp_free_cases)
    case (quiet y)
    then have y: "y = x" "s' = mp_given x b s" using mb b(1) by auto
    have "elems (tlists s) (Mp_wait x) = []" using cnt quiet(3) y(1) by (simp add: mp_counted_def)
    then show ?thesis using y(2) g lv' cnt by (auto simp: mp_wf_def mp_counted_def mp_given_def)
  next
    case (wake y t ts e s1)
    then have y: "y = x" using mb b(1) by simp
    let ?g = "mp_given x b s"
    let ?s = "upd_thread t (\<lambda>r. r\<lparr>th_error := RT_EOK\<rparr>) ?g"
    have r: "rt_thread_resume t ?s = Some (e, s1)" using wake(5) b(1) y by simp
    have k: "kinv ?s" using inv by (intro kinv_error) simp
    have w: "elems (tlists ?s) (Mp_wait x) = t # ts" using wake(4) y by (simp add: mp_given_def)
    have st: "stat (threads ?s t) = RT_THREAD_SUSPEND" using wait_thread [OF k, of "Mp_wait x" t] w by simp
    note u = thread_resume_suspended [OF r k st, of "Mp_wait x"]
    have d: "mempools s1 = mempools ?g" "mp_mem s1 = mp_mem ?g" using ipc_dataD(6,7) [OF resume_data [OF r]] by simp_all
    note sc = schedule_same [OF wake(6)]
    have mi: "mp_inv s' x (b # F) (A - {b})"
      using g mp_inv_cong [of s' ?g x] by (simp add: sc d y)
    then have "mp_wf s' x" by (auto simp: mp_wf_def)
    moreover have "mp_live s' x = mp_live s x - {a}" using mp_live_inv [OF mi] mp_live_inv [OF g] lv' by simp
    moreover have "mp_counted s' x"
    proof -
      let ?n = "suspend_thread_count (mempools s x)"
      have "unat (?n - 1) = unat ?n - 1" using wake(3) y by (simp add: unat_minus_one)
      then show ?thesis using cnt u(1) w wake(4) y by (simp add: mp_counted_def sc d mp_given_def)
    qed
    ultimately show ?thesis using u w wake(4) y by (simp add: sc)
  qed
qed

text \<open>An allocation that waits.\<close>

lemma mp_alloc_waits:
  assumes op: "rt_mp_alloc x time s = Some (Blocked t, s')" and inv: "kinv s" and me: "self_ready s"
    and cnt: "mp_counted s x" "suspend_thread_count (mempools s x) \<noteq> 0xffffffff" and hard: "hard_timer s t"
  shows "elems (tlists s') (Mp_wait x) = t # elems (tlists s) (Mp_wait x) \<and> mp_counted s' x \<and>
    stat (threads s' t) = RT_THREAD_SUSPEND"
proof -
  from op obtain e s1 L s2 where cur: "rt_current_thread s = Some t" and sus: "rt_thread_suspend t s = Some (e, s1)"
    and L: "l_insert_first (Mp_wait x) t (tlists s1) = Some L"
    and tm: "ipc_start_timer t time (upd_mp x (\<lambda>r. r\<lparr>suspend_thread_count := suspend_thread_count r + 1\<rparr>)
      (s1\<lparr>tlists := L\<rparr>)) = Some s2" and sch: "rt_schedule s2 = Some s'"
    by (auto simp: rt_mp_alloc_def mp_wait_def rt_debug_not_in_interrupt_def rt_assert_def rt_thread_self_def
        bind_eq_Some_conv split: if_splits)
  let ?s = "upd_mp x (\<lambda>r. r\<lparr>suspend_thread_count := suspend_thread_count r + 1\<rparr>) (s1\<lparr>tlists := L\<rparr>)"
  have st: "stat (threads s t) = RT_THREAD_READY" using cur me by (simp add: self_ready_def)
  note u = thread_suspend_ready [OF sus inv st]
  have k1: "kinv s1" by (rule kinv_suspend [OF sus inv])
  then have wf: "wf_lists (tlists s1)" by (auto simp: kinv_def sched_inv_def dest: sched_but_wf)
  have "kinv (s1\<lparr>tlists := L\<rparr>)"
    using L u(1) by (intro kinv_link [OF k1 _ _ wf_l_insert_first [OF wf L], of t "Mp_wait x"]) (simp_all add: l_insert_first_Some)
  then have k: "kinv ?s" by simp
  have hd: "hard_timer ?s t" using hard u(5) by (simp add: hard_timer_def)
  have same: "threads s2 = threads ?s \<and> tlists s2 = tlists ?s" and mp: "mempools s2 = mempools ?s"
    using start_timer_lists [OF tm k hd] ipc_dataD(6) [OF start_timer_data [OF tm k]] by simp_all
  have "unat (suspend_thread_count (mempools s x) + 1) = unat (suspend_thread_count (mempools s x)) + 1"
    using cnt(2) by (intro unat_succ) simp
  moreover have "mempools s1 = mempools s" using ipc_dataD(6) [OF suspend_data [OF sus]] .
  ultimately show ?thesis
    using same mp u(1,7) L cnt(1) schedule_same [OF sch]
    by (simp add: l_insert_first_Some mp_counted_def)
qed

end
