(* ===== verification/Completion.thy ===== *)
theory Completion
  imports Ipc_Base
begin

text \<open>
  The completions of \<^verbatim>\<open>components/drivers/src/completion.c\<close>: one thread waits until another, or an interrupt
  handler, is done.
\<close>

subsection \<open>Operations\<close>

definition RT_COMPLETED :: u32 where "RT_COMPLETED = 1"
definition RT_UNCOMPLETED :: u32 where "RT_UNCOMPLETED = 0"

definition rt_completion_init :: "nat \<Rightarrow> kstate \<Rightarrow> kstate option" where
  "rt_completion_init x s =
     on_tlists (l_init_head (Completion_wait x)) (upd_completion x (\<lambda>r. r\<lparr>cmp_flag := RT_UNCOMPLETED\<rparr>) s)"

definition rt_completion_wait :: "nat \<Rightarrow> u32 \<Rightarrow> kstate \<Rightarrow> ((rt_err_t, tid) outcome \<times> kstate) option" where
  "rt_completion_wait x time s =
     (if cmp_flag (completions s x) \<noteq> RT_COMPLETED then do {
        s \<leftarrow> rt_assert (elems (tlists s) (Completion_wait x) = []) s;
        if time = 0 then Some (Returned (- RT_ETIMEOUT), s)
        else do {
          t \<leftarrow> rt_thread_self s;
          let s = upd_thread t (\<lambda>r. r\<lparr>th_error := RT_EOK\<rparr>) s;
          (_, s) \<leftarrow> rt_thread_suspend t s;
          s \<leftarrow> on_tlists (l_insert_last (Completion_wait x) t) s;
          s \<leftarrow> rt_debug_not_in_interrupt s;
          s \<leftarrow> ipc_start_timer t time s;
          s \<leftarrow> rt_schedule s;
          Some (Blocked t, s)
        }
      }
      else Some (Returned RT_EOK, s))"

definition rt_completion_wait_resumed :: "nat \<Rightarrow> tid \<Rightarrow> kstate \<Rightarrow> rt_err_t \<times> kstate" where
  "rt_completion_wait_resumed x t s =
     (th_error (threads s t), upd_completion x (\<lambda>r. r\<lparr>cmp_flag := RT_UNCOMPLETED\<rparr>) s)"

definition rt_completion_done :: "nat \<Rightarrow> kstate \<Rightarrow> kstate option" where
  "rt_completion_done x s =
     (if cmp_flag (completions s x) = RT_COMPLETED then Some s
      else
        let s = upd_completion x (\<lambda>r. r\<lparr>cmp_flag := RT_COMPLETED\<rparr>) s
        in case elems (tlists s) (Completion_wait x) of
             [] \<Rightarrow> Some s
           | t # _ \<Rightarrow> do {
               (_, s) \<leftarrow> rt_thread_resume t s;
               rt_schedule s
             })"

subsection \<open>The operations keep the invariant\<close>

lemma kinv_completion_init: "rt_completion_init x s = Some s' \<Longrightarrow> kinv s \<Longrightarrow> kinv s'"
  by (auto simp: rt_completion_init_def l_init_head_def split: if_splits)

text \<open>Suspending a thread and putting it at the end of a list is what \<^verbatim>\<open>rt_ipc_list_suspend\<close> does
  in first-in first-out order.\<close>

lemma suspend_last_fifo:
  "Option.bind (rt_thread_suspend t s) (\<lambda>(r, s). Option.bind (on_tlists (l_insert_last h t) s) f) =
   Option.bind (rt_ipc_list_suspend h t RT_IPC_FLAG_FIFO s) (\<lambda>(_, s). f s)"
  by (cases "rt_thread_suspend t s") (auto simp: rt_ipc_list_suspend_def RT_IPC_FLAG_FIFO_def split: option.splits)

lemma completion_wait_cases:
  assumes "rt_completion_wait x time s = Some (out, s')"
  obtains (complete) "cmp_flag (completions s x) = RT_COMPLETED" "out = Returned RT_EOK" "s' = s"
  | (no_time) "cmp_flag (completions s x) \<noteq> RT_COMPLETED" "time = 0" "out = Returned (- RT_ETIMEOUT)" "s' = s"
  | (blocked) t s1 where "cmp_flag (completions s x) \<noteq> RT_COMPLETED" "time \<noteq> 0" "out = Blocked t"
      "elems (tlists s) (Completion_wait x) = []" "rt_current_thread s = Some t"
      "ipc_wait (Completion_wait x) t RT_IPC_FLAG_FIFO time (upd_thread t (\<lambda>r. r\<lparr>th_error := RT_EOK\<rparr>) s) = Some s1"
      "rt_schedule s1 = Some s'"
proof (cases "cmp_flag (completions s x) = RT_COMPLETED")
  case True
  with assms have "out = Returned RT_EOK" "s' = s" by (simp_all add: rt_completion_wait_def)
  with True show ?thesis by (rule that(1))
next
  case False
  with assms have e: "elems (tlists s) (Completion_wait x) = []"
    by (simp add: rt_completion_wait_def split: if_splits)
  show ?thesis
  proof (cases "time = 0")
    case True
    with assms False e have "out = Returned (- RT_ETIMEOUT)" "s' = s" by (simp_all add: rt_completion_wait_def)
    with False True show ?thesis by (rule that(2))
  next
    case time: False
    with assms False obtain t s1 where t: "rt_current_thread s = Some t" "out = Blocked t"
      "Option.bind (rt_ipc_list_suspend (Completion_wait x) t RT_IPC_FLAG_FIFO (upd_thread t (\<lambda>r. r\<lparr>th_error := RT_EOK\<rparr>) s))
        (\<lambda>(_, s). Option.bind (rt_debug_not_in_interrupt s) (\<lambda>s. ipc_start_timer t time s)) = Some s1"
      "rt_schedule s1 = Some s'"
      by (auto simp: rt_completion_wait_def rt_thread_self_def Let_def suspend_last_fifo bind_eq_Some_conv)
    then have "ipc_wait (Completion_wait x) t RT_IPC_FLAG_FIFO time (upd_thread t (\<lambda>r. r\<lparr>th_error := RT_EOK\<rparr>) s) = Some s1"
      by (auto simp: ipc_wait_def rt_debug_not_in_interrupt_def bind_eq_Some_conv)
    then show ?thesis using False time e t that(3) by blast
  qed
qed

lemma completion_done_cases:
  assumes "rt_completion_done x s = Some s'"
  obtains (again) "cmp_flag (completions s x) = RT_COMPLETED" "s' = s"
  | (quiet) "cmp_flag (completions s x) \<noteq> RT_COMPLETED" "elems (tlists s) (Completion_wait x) = []"
      "s' = upd_completion x (\<lambda>r. r\<lparr>cmp_flag := RT_COMPLETED\<rparr>) s"
  | (wake) t ts e s1 where "cmp_flag (completions s x) \<noteq> RT_COMPLETED" "elems (tlists s) (Completion_wait x) = t # ts"
      "rt_thread_resume t (upd_completion x (\<lambda>r. r\<lparr>cmp_flag := RT_COMPLETED\<rparr>) s) = Some (e, s1)"
      "rt_schedule s1 = Some s'"
  using assms that
  by (auto simp: rt_completion_done_def Let_def bind_eq_Some_conv split: if_splits list.splits)

lemma kinv_completion_wait:
  assumes op: "rt_completion_wait x time s = Some (out, s')" and inv: "kinv s" and me: "self_ready s"
  shows "kinv s'"
  using op
proof (cases rule: completion_wait_cases)
  case (blocked t s1)
  have "kinv s1"
    using kinv_wait [OF blocked(6) kinv_error [OF inv]] me blocked(5) by (simp add: self_ready_def)
  with blocked(7) show ?thesis by (rule kinv_schedule)
qed (use inv in simp_all)

lemma kinv_completion_resumed: "kinv (snd (rt_completion_wait_resumed x t s)) = kinv s"
  by (simp add: rt_completion_wait_resumed_def)

lemma kinv_completion_done:
  assumes op: "rt_completion_done x s = Some s'" and inv: "kinv s"
  shows "kinv s'"
  using op
proof (cases rule: completion_done_cases)
  case (wake t ts e s1)
  have "kinv s1" using inv by (intro kinv_resume [OF wake(3)]) simp
  with wake(4) show ?thesis by (rule kinv_schedule)
qed (use inv in simp_all)

subsection \<open>What they do\<close>

text \<open>At most one thread waits, and none for a completion that is complete.\<close>

definition completion_ok :: "kstate \<Rightarrow> nat \<Rightarrow> bool" where
  "completion_ok s x \<longleftrightarrow> length (elems (tlists s) (Completion_wait x)) \<le> 1 \<and>
     (cmp_flag (completions s x) = RT_COMPLETED \<longrightarrow> elems (tlists s) (Completion_wait x) = [])"

lemma completion_wait_ok:
  assumes op: "rt_completion_wait x time s = Some (out, s')" and inv: "kinv s" and me: "self_ready s"
    and ok: "completion_ok s x" and hard: "\<And>t. rt_current_thread s = Some t \<Longrightarrow> hard_timer s t"
  shows "completion_ok s' x \<and> (case out of Returned r \<Rightarrow> s' = s
    | Blocked t \<Rightarrow> stat (threads s' t) = RT_THREAD_SUSPEND \<and> elems (tlists s') (Completion_wait x) = [t])"
  using op
proof (cases rule: completion_wait_cases)
  case (blocked t s1)
  let ?s = "upd_thread t (\<lambda>r. r\<lparr>th_error := RT_EOK\<rparr>) s"
  have k: "kinv ?s" using inv by (rule kinv_error)
  have st: "stat (threads ?s t) = RT_THREAD_READY" using me blocked(5) by (simp add: self_ready_def)
  have h: "hard_timer ?s t" using hard [OF blocked(5)] by (simp add: hard_timer_def)
  note w = ipc_wait_threads [OF blocked(6) k st, simplified, OF h [simplified]]
  have "completions s1 = completions s" using ipc_dataD(8) [OF wait_data [OF blocked(6) k st]] by simp
  then show ?thesis
    using w(1,2) blocked schedule_same [OF blocked(7)] by (simp add: completion_ok_def wait_insert_def)
qed (use ok in simp_all)

lemma completion_done_ok:
  assumes op: "rt_completion_done x s = Some s'" and inv: "kinv s" and ok: "completion_ok s x"
  shows "completion_ok s' x \<and> cmp_flag (completions s' x) = RT_COMPLETED \<and>
    (\<forall>t \<in> set (elems (tlists s) (Completion_wait x)). stat (threads s' t) = RT_THREAD_READY)"
  using op
proof (cases rule: completion_done_cases)
  case (wake t ts e s1)
  let ?s = "upd_completion x (\<lambda>r. r\<lparr>cmp_flag := RT_COMPLETED\<rparr>) s"
  have k: "kinv ?s" using inv by simp
  have ts: "ts = []" using ok wake(2) by (simp add: completion_ok_def)
  have st: "stat (threads ?s t) = RT_THREAD_SUSPEND" using wait_thread [OF k, of "Completion_wait x" t] wake(2) by simp
  note u = thread_resume_suspended [OF wake(3) k st, of "Completion_wait x"]
  have "completions s1 = completions ?s" using ipc_dataD(8) [OF resume_data [OF wake(3)]] .
  then show ?thesis using u wake(2) ts schedule_same [OF wake(4)] by (simp add: completion_ok_def)
qed (use ok in \<open>auto simp: completion_ok_def\<close>)

end
