(* ===== verification/Timer_Callbacks.thy ===== *)
theory Timer_Callbacks
  imports Mempool Completion
begin

text \<open>
  What the functions of user timers may do. They run inside the timer check, in the tick
  interrupt or in the thread of the soft timers, and call the operations that do not wait:
  releasing a semaphore, sending an event, a mail or a message, freeing a block of a memory pool,
  completing a completion, resuming a thread. A table gives the operation of each function. Such a table fulfils the contract \<open>timer_callbacks\<close> of the checks, and
  the stronger one that the check of the soft timers asks for.
\<close>

subsection \<open>Operations that only take timers off their lists\<close>

definition tm_shrinks :: "kstate \<Rightarrow> kstate \<Rightarrow> bool" where
  "tm_shrinks s s' \<longleftrightarrow> timers s' = timers s \<and> rt_tick s' = rt_tick s \<and>
     (\<exists>P. \<forall>h. elems (tmlists s') h = filter P (elems (tmlists s) h)) \<and>
     (\<forall>x. onlist (tmlists s) x = None \<longrightarrow> onlist (tmlists s') x = None)"

lemma tm_shrinks_same:
  "timers s' = timers s \<Longrightarrow> rt_tick s' = rt_tick s \<Longrightarrow> tmlists s' = tmlists s \<Longrightarrow> tm_shrinks s s'"
  by (auto simp: tm_shrinks_def intro: exI [of _ "\<lambda>_. True"])

lemma tm_shrinks_trans:
  assumes "tm_shrinks s s1" "tm_shrinks s1 s2" shows "tm_shrinks s s2"
proof -
  from assms(1) obtain P where "\<forall>h. elems (tmlists s1) h = filter P (elems (tmlists s) h)"
    unfolding tm_shrinks_def by blast
  moreover from assms(2) obtain Q where "\<forall>h. elems (tmlists s2) h = filter Q (elems (tmlists s1) h)"
    unfolding tm_shrinks_def by blast
  ultimately have "\<forall>h. elems (tmlists s2) h = filter (\<lambda>x. P x \<and> Q x) (elems (tmlists s) h)" by (simp add: conj_commute)
  with assms show ?thesis by (auto simp: tm_shrinks_def)
qed

lemma shrinks_schedule: "rt_schedule s = Some s' \<Longrightarrow> tm_shrinks s s'"
  using schedule_same by (intro tm_shrinks_same) simp_all

lemma shrinks_resume:
  assumes op: "rt_thread_resume t s = Some (r, s')" and inv: "kinv s"
  shows "tm_shrinks s s'"
  using rt_thread_resume_tm(3) [OF op]
proof
  assume "tmlists s' = l_remove (Thread_timer t) (tmlists s)"
  moreover have "elems (l_remove (Thread_timer t) (tmlists s)) h =
      filter (\<lambda>x. x \<noteq> Thread_timer t) (elems (tmlists s) h)" for h
    using kinv_wf_tm [OF inv] by (auto simp: elems_l_remove distinct_remove1_removeAll removeAll_filter_not_eq wf_listsD intro!: filter_cong)
  ultimately show ?thesis using rt_thread_resume_tm(1,2) [OF op] by (auto simp: tm_shrinks_def)
qed (use rt_thread_resume_tm(1,2) [OF op] in \<open>simp add: tm_shrinks_same\<close>)

lemma shrinks_list_resume:
  "rt_ipc_list_resume h s = Some (r, s') \<Longrightarrow> kinv s \<Longrightarrow> tm_shrinks s s'"
  by (auto simp: rt_ipc_list_resume_def bind_eq_Some_conv split: list.splits intro: shrinks_resume)

lemma shrinks_ordered:
  assumes "tm_shrinks s s'" "timers_ordered s" shows "timers_ordered s'"
proof -
  from assms(1) obtain P where "elems (tmlists s') Hard_timers = filter P (elems (tmlists s) Hard_timers)"
    "timers s' = timers s" "rt_tick s' = rt_tick s" by (auto simp: tm_shrinks_def)
  with assms(2) show ?thesis by (simp add: timers_ordered_def tick_sorted_def sorted_filter)
qed

lemma shrinks_event_loop:
  assumes "event_send_loop x ts b s = Some (b', s')" "kinv s"
  shows "tm_shrinks s s'"
  using assms
proof (induction ts arbitrary: b s)
  case Nil
  then show ?case by (simp add: tm_shrinks_same)
next
  case (Cons t ts)
  show ?case
  proof (cases "event_waits s x t")
    case True
    with Cons show ?thesis by (simp add: event_send_loop_Cons del: event_send_loop.simps)
  next
    case False
    with Cons.prems(1) obtain e s1 where r: "rt_thread_resume t (event_wake x t s) = Some (e, s1)"
      and l: "event_send_loop x ts True s1 = Some (b', s')"
      by (auto simp: event_send_loop_Cons bind_eq_Some_conv simp del: event_send_loop.simps)
    have k: "kinv (event_wake x t s)" using Cons.prems(2) by (rule kinv_event_wake)
    have "tm_shrinks s (event_wake x t s)" by (rule tm_shrinks_same) (simp_all add: event_wake_def Let_def)
    then show ?thesis
      using shrinks_resume [OF r k] Cons.IH [OF l kinv_resume [OF r k]] tm_shrinks_trans by blast
  qed
qed

subsection \<open>The table of operations\<close>

datatype isr_op =
    Isr_nothing | Isr_sem_release nat | Isr_event_send nat u32 | Isr_mb_send nat u32 |
    Isr_mq_send bool nat "u8 list" | Isr_mp_free nat | Isr_resume tid |
    Isr_completion_done nat

definition isr_exec :: "isr_op \<Rightarrow> kstate \<Rightarrow> kstate option" where
  "isr_exec c s =
     (case c of
        Isr_nothing \<Rightarrow> Some s
      | Isr_sem_release x \<Rightarrow> map_option snd (rt_sem_release x s)
      | Isr_event_send x flags \<Rightarrow> map_option snd (rt_event_send x flags s)
      | Isr_mb_send x v \<Rightarrow> map_option snd (rt_mb_send x v s)
      | Isr_mq_send urgent x buf \<Rightarrow> map_option snd (mq_send_both urgent x buf s)
      | Isr_mp_free a \<Rightarrow> rt_mp_free a s
      | Isr_resume t \<Rightarrow> map_option snd (rt_thread_resume t s)
      | Isr_completion_done x \<Rightarrow> rt_completion_done x s)"

definition isr_callbacks :: "(nat \<Rightarrow> nat \<Rightarrow> isr_op) \<Rightarrow> callbacks" where
  "isr_callbacks tab f p s = isr_exec (tab f p) s"

lemma mb_send_no_wait:
  assumes "rt_mb_send x v s = Some (out, s')" "kinv s"
  shows "kinv s' \<and> tm_shrinks s s'"
proof (cases "mb_full (mailboxes s x)")
  case True
  then show ?thesis using assms by (simp add: rt_mb_send_def rt_mb_send_wait_def tm_shrinks_same)
next
  case False
  then have "mb_send_loop x v (rt_thread_self s) 0 0 s = Some (out, s')"
    using assms(1) by (simp add: rt_mb_send_def rt_mb_send_wait_def)
  then show ?thesis
  proof (cases rule: mb_send_cases)
    case (put m)
    then show ?thesis using assms(2) by (simp add: tm_shrinks_same)
  next
    case (wake m r s1)
    let ?s = "upd_mb x (\<lambda>_. m) s"
    have k: "kinv ?s" using assms(2) by simp
    have "tm_shrinks s ?s" by (simp add: tm_shrinks_same)
    then show ?thesis
      using k kinv_list_resume [OF wake(5) k] kinv_schedule [OF wake(6)]
        shrinks_list_resume [OF wake(5) k] shrinks_schedule [OF wake(6)] tm_shrinks_trans by blast
  qed (use False in simp_all)
qed

lemma event_send_shrinks:
  assumes op: "rt_event_send x flags s = Some (r, s')" and inv: "kinv s"
  shows "tm_shrinks s s'"
proof (cases "flags = 0")
  case False
  let ?s = "upd_event x (\<lambda>r. r\<lparr>ev_set := ev_set r OR flags\<rparr>) s"
  from op False obtain b s1 where l: "event_send_loop x (elems (tlists s) (Event_wait x)) False ?s = Some (b, s1)"
    and s': "s' = s1 \<or> rt_schedule s1 = Some s'"
    by (auto simp: rt_event_send_def bind_eq_Some_conv split: if_splits)
  have "tm_shrinks s ?s" by (simp add: tm_shrinks_same)
  moreover have "tm_shrinks ?s s1" using inv by (intro shrinks_event_loop [OF l]) simp
  ultimately show ?thesis using s' shrinks_schedule tm_shrinks_trans by blast
qed (use op in \<open>simp add: rt_event_send_def tm_shrinks_same\<close>)

lemma mq_send_shrinks:
  assumes op: "mq_send_both urgent x buf s = Some (r, s')" and inv: "kinv s"
  shows "tm_shrinks s s'"
proof -
  have first: "tm_shrinks s s1" if "mq_send_begin urgent x buf s = Some (out, s1)" for out s1
    using that by (cases rule: mq_send_begin_cases) (simp_all add: tm_shrinks_same)
  from op show ?thesis
  proof (cases rule: mq_send_bothE)
    case refused
    then show ?thesis by (rule first)
  next
    case (sent msg s1)
    let ?s = "upd_mq x (if urgent then mq_link_head msg else mq_link_tail msg) s1"
    have k: "kinv ?s" using kinv_mq_send_begin [OF sent(1) inv] by simp
    have s: "tm_shrinks s1 ?s" by (simp add: tm_shrinks_same)
    from sent(2) have "tm_shrinks s1 s'"
      by (cases rule: mq_send_end_cases)
        (use s k shrinks_list_resume shrinks_schedule tm_shrinks_trans in \<open>blast+\<close>)
    then show ?thesis using first [OF sent(1)] tm_shrinks_trans by blast
  qed
qed

lemma mp_free_shrinks:
  assumes op: "rt_mp_free a s = Some s'" and inv: "kinv s"
  shows "tm_shrinks s s'"
  using op
proof (cases rule: mp_free_cases)
  case (quiet x)
  then show ?thesis by (simp add: tm_shrinks_same mp_given_def)
next
  case (wake x t ts e s1)
  let ?s = "upd_thread t (\<lambda>r. r\<lparr>th_error := RT_EOK\<rparr>) (mp_given x (a - 4) s)"
  let ?s1 = "upd_mp x (\<lambda>r. r\<lparr>suspend_thread_count := suspend_thread_count r - 1\<rparr>) s1"
  have "kinv ?s" using inv by (intro kinv_error) simp
  moreover have "tm_shrinks s ?s" "tm_shrinks s1 ?s1" by (simp_all add: tm_shrinks_same mp_given_def)
  ultimately show ?thesis
    using shrinks_resume [OF wake(5)] shrinks_schedule [OF wake(6)] tm_shrinks_trans by blast
qed

lemma completion_done_shrinks:
  assumes op: "rt_completion_done x s = Some s'" and inv: "kinv s"
  shows "tm_shrinks s s'"
  using op
proof (cases rule: completion_done_cases)
  case (wake t ts e s1)
  let ?s = "upd_completion x (\<lambda>r. r\<lparr>cmp_flag := RT_COMPLETED\<rparr>) s"
  have "kinv ?s" "tm_shrinks s ?s" using inv by (simp_all add: tm_shrinks_same)
  then show ?thesis
    using shrinks_resume [OF wake(3)] shrinks_schedule [OF wake(4)] tm_shrinks_trans by blast
qed (simp_all add: tm_shrinks_same)

lemma isr_exec_keeps:
  assumes op: "isr_exec c s = Some s'" and inv: "kinv s"
  shows "kinv s' \<and> tm_shrinks s s'"
proof (cases c)
  case (Isr_sem_release x)
  with op obtain r where r: "rt_sem_release x s = Some (r, s')" by (auto simp: isr_exec_def)
  then have "s' = upd_sem x (\<lambda>r. r\<lparr>sem_value := sem_value r + 1\<rparr>) s \<or>
    (\<exists>e s1. rt_ipc_list_resume (Sem_wait x) s = Some (e, s1) \<and> rt_schedule s1 = Some s')"
    by (auto simp: rt_sem_release_def bind_eq_Some_conv split: if_splits)
  then have "tm_shrinks s s'"
    using inv shrinks_list_resume shrinks_schedule tm_shrinks_trans by (auto intro: tm_shrinks_same) blast
  with kinv_sem_release [OF r inv] show ?thesis by simp
next
  case (Isr_event_send x flags)
  with op obtain r where "rt_event_send x flags s = Some (r, s')" by (auto simp: isr_exec_def)
  with inv show ?thesis using kinv_event_send event_send_shrinks by blast
next
  case (Isr_mb_send x v)
  with op inv mb_send_no_wait show ?thesis by (auto simp: isr_exec_def)
next
  case (Isr_mq_send urgent x buf)
  with op obtain r where "mq_send_both urgent x buf s = Some (r, s')" by (auto simp: isr_exec_def)
  with inv show ?thesis using kinv_mq_send_both mq_send_shrinks by blast
next
  case (Isr_mp_free a)
  with op inv show ?thesis using kinv_mp_free mp_free_shrinks by (simp add: isr_exec_def)
next
  case (Isr_resume t)
  with op obtain r where "rt_thread_resume t s = Some (r, s')" by (auto simp: isr_exec_def)
  with inv show ?thesis using kinv_resume shrinks_resume by blast
next
  case (Isr_completion_done x)
  with op inv show ?thesis using kinv_completion_done completion_done_shrinks by (simp add: isr_exec_def)
qed (use op inv in \<open>simp add: isr_exec_def tm_shrinks_same\<close>)

subsection \<open>The contract of the checks\<close>

text \<open>The stronger contract: a callback puts no timer on a list.\<close>

locale quiet_callbacks = timer_callbacks +
  assumes cb_quiet: "kinv s \<Longrightarrow> cb f p s = Some s' \<Longrightarrow> onlist (tmlists s) x = None \<Longrightarrow> onlist (tmlists s') x = None"

text \<open>Both checks keep the invariant of the kernel, whatever is due.\<close>

context timer_callbacks
begin

lemma check_kinv:
  assumes "rt_timer_check cb s = Some s'" "kinv s"
  shows "kinv s'"
proof -
  have "cb' = cb \<longrightarrow> kinv s \<longrightarrow> kinv s'" if "timer_check_loop cb' c s = Some s'" for cb' c
    using that
  proof (rule timer_check_loop.raw_induct [rotated])
    fix loop cb' c s s'
    assume IH: "\<And>cb' c s s'. loop cb' c s = Some s' \<Longrightarrow> cb' = cb \<longrightarrow> kinv s \<longrightarrow> kinv s'"
      and step: "(case elems (tmlists s) Hard_timers of [] \<Rightarrow> Some s
        | x # _ \<Rightarrow> if c - timeout_tick (timers s x) < RT_TICK_MAX div 2
            then Option.bind (timer_fire cb' x s) (\<lambda>s. loop cb' (rt_tick_get s) s) else Some s) = Some s'"
    show "cb' = cb \<longrightarrow> kinv s \<longrightarrow> kinv s'"
    proof (intro impI)
      assume a: "cb' = cb" "kinv s"
      show "kinv s'"
      proof (cases "elems (tmlists s) Hard_timers")
        case (Cons x xs)
        then have on: "onlist (tmlists s) x \<noteq> None"
          using wf_listsD(2) [OF kinv_wf_tm [OF a(2)], of x Hard_timers] by simp
        from step Cons a(1) consider "s' = s"
          | s1 where "timer_fire cb x s = Some s1" "loop cb (rt_tick_get s1) s1 = Some s'"
          by (auto simp: bind_eq_Some_conv split: if_splits)
        then show ?thesis using a(2) fire_keeps(1) [OF _ a(2) on] IH by cases blast+
      qed (use step a in simp)
    qed
  qed
  with assms show ?thesis by (auto simp: rt_timer_check_def)
qed

end

context quiet_callbacks
begin

lemma fire_quiet:
  assumes op: "timer_fire cb x s = Some s'" and inv: "kinv s"
  shows "kinv s'"
proof (cases "onlist (tmlists s) x = None")
  case True
  let ?f = "\<lambda>s. upd_obj (Timer_o x) (\<lambda>r. r\<lparr>o_flag := o_flag r AND NOT RT_TIMER_FLAG_ACTIVATED\<rparr>) s"
  from op obtain s1 where call: "call_timeout cb x s = Some s1"
    and s': "s' = ?f s1 \<or> (\<exists>e. rt_timer_start x (?f s1) = Some (e, s'))"
    using True by (auto simp: timer_fire_def bind_eq_Some_conv Let_def split: if_splits)
  have "onlist (tmlists s1) x = None"
  proof (cases "timeout_func (timers s x)")
    case Rt_thread_timeout
    then show ?thesis using call True rt_thread_timeout_tm(1) by (force simp: call_timeout_def)
  next
    case (User_func f)
    then show ?thesis using call True cb_quiet [OF inv] by (simp add: call_timeout_def)
  qed
  moreover have "kinv s1" by (rule call_keeps(1) [OF call inv])
  ultimately have "kinv (?f s1)" by (auto simp: kinv_def timer_inv_def timer_ok_flag)
  then show ?thesis using s' kinv_timer_start by blast
qed (rule fire_keeps(1) [OF op inv])

lemma soft_check_kinv:
  assumes "rt_soft_timer_check cb s = Some s'" "kinv s"
  shows "kinv s'"
proof -
  have "cb' = cb \<longrightarrow> kinv s \<longrightarrow> kinv s'" if "soft_timer_loop cb' c n s = Some s'" for cb' c n
    using that
  proof (rule soft_timer_loop.raw_induct [rotated])
    fix loop cb' c n s s'
    assume IH: "\<And>cb' c n s s'. loop cb' c n s = Some s' \<Longrightarrow> cb' = cb \<longrightarrow> kinv s \<longrightarrow> kinv s'"
      and step: "(case n of Head h \<Rightarrow> if h = Soft_timers then Some s else None
        | Node x \<Rightarrow> if c - timeout_tick (timers s x) < RT_TICK_MAX div 2
            then Option.bind (timer_fire cb' x s) (\<lambda>s'. loop cb' (rt_tick_get s') (l_next (tmlists s) n) s')
            else Some s) = Some s'"
    show "cb' = cb \<longrightarrow> kinv s \<longrightarrow> kinv s'"
    proof (intro impI)
      assume a: "cb' = cb" "kinv s"
      from step a(1) consider "s' = s"
        | x s1 where "timer_fire cb x s = Some s1" "loop cb (rt_tick_get s1) (l_next (tmlists s) n) s1 = Some s'"
        by (auto simp: bind_eq_Some_conv split: if_splits node.splits)
      then show "kinv s'" using a(2) fire_quiet [OF _ a(2)] IH by cases blast+
    qed
  qed
  with assms show ?thesis by (auto simp: rt_soft_timer_check_def)
qed

end

interpretation isr: quiet_callbacks "isr_callbacks tab" for tab
proof
  fix f p s s' x
  assume op: "isr_callbacks tab f p s = Some s'"
  then have e: "isr_exec (tab f p) s = Some s'" by (simp add: isr_callbacks_def)
  show "kinv s'" if "kinv s" using isr_exec_keeps [OF e that] by simp
  show "timers_ordered s'" if "kinv s" "timers_ordered s"
    using isr_exec_keeps [OF e that(1)] that(2) shrinks_ordered by blast
  show "rt_tick s' = rt_tick s" if "kinv s"
    using isr_exec_keeps [OF e that] by (simp add: tm_shrinks_def)
  show quiet: "onlist (tmlists s') x = None" if "kinv s" "onlist (tmlists s) x = None"
    using isr_exec_keeps [OF e that(1)] that(2) by (simp add: tm_shrinks_def)
  show "onlist (tmlists s') x = None" if "kinv s" "onlist (tmlists s) x = None"
    using that by (rule quiet)
qed

end
