(* ===== verification/Data_Queue.thy ===== *)
theory Data_Queue
  imports Ipc_Base
begin

text \<open>
  The data queues of \<^verbatim>\<open>components/drivers/src/dataqueue.c\<close>: a ring of pointers with sizes that drivers hand to
  threads. Threads wait in order of arrival while it is full or empty. A thread that finds it full asks for a
  low water mark, at which one of the waiting threads is woken.
\<close>

subsection \<open>The ring\<close>

text \<open>The place of an index; none when the queue has no memory, or no places.\<close>

definition dq_slot :: "rt_data_queue \<Rightarrow> u16 \<Rightarrow> nat option" where
  "dq_slot d i =
     (let k = unat (i AND (dq_size d - 1)) in if dq_mem d \<noteq> 0 \<and> k < unat (dq_size d) then Some k else None)"

definition dq_put :: "nat \<times> u32 \<Rightarrow> rt_data_queue \<Rightarrow> rt_data_queue option" where
  "dq_put v d = do {
     k \<leftarrow> dq_slot d (put_index d);
     Some (d\<lparr>dq_items := (dq_items d)(k := v), put_index := put_index d + 1\<rparr>)
   }"

definition dq_get :: "rt_data_queue \<Rightarrow> ((nat \<times> u32) \<times> rt_data_queue) option" where
  "dq_get d = do {
     k \<leftarrow> dq_slot d (get_index d);
     Some (dq_items d k, d\<lparr>get_index := get_index d + 1\<rparr>)
   }"

text \<open>The tests compute the difference of the indices with \<^verbatim>\<open>int\<close>, not modulo the range of the indices.\<close>

definition dq_full :: "rt_data_queue \<Rightarrow> bool" where
  "dq_full d \<longleftrightarrow> uint (put_index d) - uint (get_index d) = uint (dq_size d)"

definition dq_empty :: "rt_data_queue \<Rightarrow> bool" where
  "dq_empty d \<longleftrightarrow> get_index d = put_index d"

definition dq_low :: "rt_data_queue \<Rightarrow> bool" where
  "dq_low d \<longleftrightarrow> waiting_lwm d \<and> uint (put_index d) - uint (get_index d) \<le> uint (lwm d)"

subsection \<open>Operations\<close>

definition RT_DATAQUEUE_EVENT_POP :: u32 where "RT_DATAQUEUE_EVENT_POP = 1"
definition RT_DATAQUEUE_EVENT_PUSH :: u32 where "RT_DATAQUEUE_EVENT_PUSH = 2"
definition RT_DATAQUEUE_EVENT_LWM :: u32 where "RT_DATAQUEUE_EVENT_LWM = 3"

text \<open>The function to notify of events is a pointer that the creator of a queue gives; what it does is a
  parameter.\<close>

type_synonym notify = "nat \<Rightarrow> nat \<Rightarrow> u32 \<Rightarrow> kstate \<Rightarrow> kstate option"

definition call_notify :: "notify \<Rightarrow> nat \<Rightarrow> u32 \<Rightarrow> kstate \<Rightarrow> kstate option" where
  "call_notify nf x e s = (case evt_notify (data_queues s x) of None \<Rightarrow> Some s | Some f \<Rightarrow> nf f x e s)"

definition rt_data_queue_init :: "nat \<Rightarrow> u16 \<Rightarrow> u16 \<Rightarrow> nat option \<Rightarrow> kstate \<Rightarrow> (rt_err_t \<times> kstate) option" where
  "rt_data_queue_init x sz low f s = do {
     let s = upd_dq x (\<lambda>r. r\<lparr>evt_notify := f\<rparr>) s;
     let s = upd_dq x (\<lambda>r. r\<lparr>dq_size := sz, lwm := low, waiting_lwm := False\<rparr>) s;
     let s = upd_dq x (\<lambda>r. r\<lparr>get_index := 0, put_index := 0\<rparr>) s;
     s \<leftarrow> on_tlists (l_init_head (Push_wait x)) s;
     s \<leftarrow> on_tlists (l_init_head (Pop_wait x)) s;
     (a, s) \<leftarrow> k_malloc (8 * ucast sz) s;
     let s = upd_dq x (\<lambda>r. r\<lparr>dq_mem := a\<rparr>) s;
     Some (if a = 0 then - RT_ENOMEM else RT_EOK, s)
   }"

text \<open>An operation has returned, or waits, or still has to notify after the scheduler was called. The flag tells
  whether it has enabled interrupts again.\<close>

datatype 'r dq_out = Dq_returned bool 'r | Dq_blocked tid | Dq_notify 'r

definition push_loop ::
  "notify \<Rightarrow> nat \<Rightarrow> nat \<times> u32 \<Rightarrow> tid option \<Rightarrow> u32 \<Rightarrow> kstate \<Rightarrow> (rt_err_t dq_out \<times> kstate) option" where
  "push_loop nf x v thread timeout s =
     (if dq_full (data_queues s x) then
        let s = upd_dq x (\<lambda>r. r\<lparr>waiting_lwm := True\<rparr>) s
        in if timeout = 0 then Some (Dq_returned True (- RT_ETIMEOUT), s)
           else do {
             s \<leftarrow> rt_debug_not_in_interrupt s;
             t \<leftarrow> thread;
             let s = upd_thread t (\<lambda>r. r\<lparr>th_error := RT_EOK\<rparr>) s;
             s \<leftarrow> ipc_wait (Push_wait x) t RT_IPC_FLAG_FIFO timeout s;
             s \<leftarrow> rt_schedule s;
             Some (Dq_blocked t, s)
           }
      else do {
        d \<leftarrow> dq_put v (data_queues s x);
        let s = upd_dq x (\<lambda>_. d) s;
        case elems (tlists s) (Pop_wait x) of
          t # _ \<Rightarrow> do {
            (_, s) \<leftarrow> rt_thread_resume t s;
            s \<leftarrow> rt_schedule s;
            Some (Dq_returned True RT_EOK, s)
          }
        | [] \<Rightarrow> do {
            s \<leftarrow> call_notify nf x RT_DATAQUEUE_EVENT_PUSH s;
            Some (Dq_returned True RT_EOK, s)
          }
      })"

definition rt_data_queue_push ::
  "notify \<Rightarrow> nat \<Rightarrow> nat \<times> u32 \<Rightarrow> u32 \<Rightarrow> kstate \<Rightarrow> (rt_err_t dq_out \<times> kstate) option" where
  "rt_data_queue_push nf x v timeout s = push_loop nf x v (rt_thread_self s) timeout s"

text \<open>A thread that is woken starts over, with the whole time again.\<close>

definition rt_data_queue_push_resumed ::
  "notify \<Rightarrow> nat \<Rightarrow> nat \<times> u32 \<Rightarrow> tid \<Rightarrow> u32 \<Rightarrow> kstate \<Rightarrow> (rt_err_t dq_out \<times> kstate) option" where
  "rt_data_queue_push_resumed nf x v t timeout s =
     (if th_error (threads s t) \<noteq> RT_EOK then Some (Dq_returned True (th_error (threads s t)), s)
      else push_loop nf x v (Some t) timeout s)"

text \<open>When the low water mark is reached and no thread waits, interrupts are not enabled again.\<close>

definition pop_loop ::
  "notify \<Rightarrow> nat \<Rightarrow> tid option \<Rightarrow> u32 \<Rightarrow> kstate \<Rightarrow> ((rt_err_t \<times> (nat \<times> u32) option) dq_out \<times> kstate) option" where
  "pop_loop nf x thread timeout s =
     (if dq_empty (data_queues s x) then
        if timeout = 0 then Some (Dq_returned True (- RT_ETIMEOUT, None), s)
        else do {
          s \<leftarrow> rt_debug_not_in_interrupt s;
          t \<leftarrow> thread;
          let s = upd_thread t (\<lambda>r. r\<lparr>th_error := RT_EOK\<rparr>) s;
          s \<leftarrow> ipc_wait (Pop_wait x) t RT_IPC_FLAG_FIFO timeout s;
          s \<leftarrow> rt_schedule s;
          Some (Dq_blocked t, s)
        }
      else do {
        (v, d) \<leftarrow> dq_get (data_queues s x);
        let s = upd_dq x (\<lambda>_. d) s;
        if dq_low d then
          let s = upd_dq x (\<lambda>r. r\<lparr>waiting_lwm := False\<rparr>) s
          in case elems (tlists s) (Push_wait x) of
               t # _ \<Rightarrow> do {
                 (_, s) \<leftarrow> rt_thread_resume t s;
                 s \<leftarrow> rt_schedule s;
                 Some (Dq_notify (RT_EOK, Some v), s)
               }
             | [] \<Rightarrow> do {
                 s \<leftarrow> call_notify nf x RT_DATAQUEUE_EVENT_LWM s;
                 Some (Dq_returned False (RT_EOK, Some v), s)
               }
        else do {
          s \<leftarrow> call_notify nf x RT_DATAQUEUE_EVENT_POP s;
          Some (Dq_returned True (RT_EOK, Some v), s)
        }
      })"

definition rt_data_queue_pop ::
  "notify \<Rightarrow> nat \<Rightarrow> u32 \<Rightarrow> kstate \<Rightarrow> ((rt_err_t \<times> (nat \<times> u32) option) dq_out \<times> kstate) option" where
  "rt_data_queue_pop nf x timeout s = pop_loop nf x (rt_thread_self s) timeout s"

definition rt_data_queue_pop_resumed ::
  "notify \<Rightarrow> nat \<Rightarrow> tid \<Rightarrow> u32 \<Rightarrow> kstate \<Rightarrow> ((rt_err_t \<times> (nat \<times> u32) option) dq_out \<times> kstate) option" where
  "rt_data_queue_pop_resumed nf x t timeout s =
     (if th_error (threads s t) \<noteq> RT_EOK then Some (Dq_returned True (th_error (threads s t), None), s)
      else pop_loop nf x (Some t) timeout s)"

text \<open>What is left of a pop after the scheduler.\<close>

definition rt_data_queue_pop_end :: "notify \<Rightarrow> nat \<Rightarrow> kstate \<Rightarrow> kstate option" where
  "rt_data_queue_pop_end nf x s = call_notify nf x RT_DATAQUEUE_EVENT_LWM s"

definition rt_data_queue_peak :: "nat \<Rightarrow> kstate \<Rightarrow> (rt_err_t \<times> (nat \<times> u32) option) option" where
  "rt_data_queue_peak x s =
     (let d = data_queues s x
      in if get_index d = put_index d then Some (- RT_EEMPTY, None)
         else do {
           k \<leftarrow> dq_slot d (get_index d);
           Some (RT_EOK, Some (dq_items d k))
         })"

definition rt_data_queue_reset :: "nat \<Rightarrow> kstate \<Rightarrow> kstate option" where
  "rt_data_queue_reset x s = do {
     let s = rt_enter_critical s;
     (_, s) \<leftarrow> rt_ipc_list_resume_all (Pop_wait x) s;
     (_, s) \<leftarrow> rt_ipc_list_resume_all (Push_wait x) s;
     s \<leftarrow> rt_exit_critical s;
     rt_schedule s
   }"

subsection \<open>The operations keep the invariant\<close>

text \<open>What a function to notify may do: nothing that breaks the kernel.\<close>

locale data_queue_notify =
  fixes nf :: notify
  assumes nf_kinv: "kinv s \<Longrightarrow> nf f x e s = Some s' \<Longrightarrow> kinv s'"
begin

lemma call_kinv: "call_notify nf x e s = Some s' \<Longrightarrow> kinv s \<Longrightarrow> kinv s'"
  using nf_kinv by (auto simp: call_notify_def split: option.splits)

end

lemma push_cases:
  assumes op: "push_loop nf x v thread timeout s = Some (out, s')"
  obtains (full) "dq_full (data_queues s x)" "timeout = 0" "out = Dq_returned True (- RT_ETIMEOUT)"
      "s' = upd_dq x (\<lambda>r. r\<lparr>waiting_lwm := True\<rparr>) s"
  | (blocked) t s1 where "dq_full (data_queues s x)" "thread = Some t" "timeout \<noteq> 0" "out = Dq_blocked t"
      "ipc_wait (Push_wait x) t RT_IPC_FLAG_FIFO timeout
         (upd_thread t (\<lambda>r. r\<lparr>th_error := RT_EOK\<rparr>) (upd_dq x (\<lambda>r. r\<lparr>waiting_lwm := True\<rparr>) s)) = Some s1"
      "rt_schedule s1 = Some s'"
  | (put) d where "\<not> dq_full (data_queues s x)" "dq_put v (data_queues s x) = Some d" "out = Dq_returned True RT_EOK"
      "elems (tlists s) (Pop_wait x) = []" "call_notify nf x RT_DATAQUEUE_EVENT_PUSH (upd_dq x (\<lambda>_. d) s) = Some s'"
  | (wake) d t ts r s1 where "\<not> dq_full (data_queues s x)" "dq_put v (data_queues s x) = Some d"
      "out = Dq_returned True RT_EOK" "elems (tlists s) (Pop_wait x) = t # ts"
      "rt_thread_resume t (upd_dq x (\<lambda>_. d) s) = Some (r, s1)" "rt_schedule s1 = Some s'"
proof (cases "dq_full (data_queues s x)")
  case True
  show ?thesis
  proof (cases "timeout = 0")
    case t: True
    with op True have "out = Dq_returned True (- RT_ETIMEOUT)" "s' = upd_dq x (\<lambda>r. r\<lparr>waiting_lwm := True\<rparr>) s"
      by (simp_all add: push_loop_def)
    with True t show ?thesis by (rule that(1))
  next
    case False
    with op True obtain t s1 where "thread = Some t" "out = Dq_blocked t"
      "ipc_wait (Push_wait x) t RT_IPC_FLAG_FIFO timeout
         (upd_thread t (\<lambda>r. r\<lparr>th_error := RT_EOK\<rparr>) (upd_dq x (\<lambda>r. r\<lparr>waiting_lwm := True\<rparr>) s)) = Some s1"
      "rt_schedule s1 = Some s'"
      by (auto simp: push_loop_def rt_debug_not_in_interrupt_def bind_eq_Some_conv Let_def)
    with True False show ?thesis using that(2) by blast
  qed
next
  case False
  with op obtain d where d: "dq_put v (data_queues s x) = Some d"
    by (auto simp: push_loop_def bind_eq_Some_conv)
  show ?thesis
  proof (cases "elems (tlists s) (Pop_wait x)")
    case Nil
    with op False d have "out = Dq_returned True RT_EOK"
      "call_notify nf x RT_DATAQUEUE_EVENT_PUSH (upd_dq x (\<lambda>_. d) s) = Some s'"
      by (auto simp: push_loop_def bind_eq_Some_conv)
    with False d Nil show ?thesis using that(3) by blast
  next
    case (Cons t ts)
    with op False d obtain r s1 where "out = Dq_returned True RT_EOK"
      "rt_thread_resume t (upd_dq x (\<lambda>_. d) s) = Some (r, s1)" "rt_schedule s1 = Some s'"
      by (auto simp: push_loop_def bind_eq_Some_conv)
    with False d Cons show ?thesis using that(4) by blast
  qed
qed

lemma pop_cases:
  assumes op: "pop_loop nf x thread timeout s = Some (out, s')"
  obtains (empty) "dq_empty (data_queues s x)" "timeout = 0" "out = Dq_returned True (- RT_ETIMEOUT, None)" "s' = s"
  | (blocked) t s1 where "dq_empty (data_queues s x)" "thread = Some t" "timeout \<noteq> 0" "out = Dq_blocked t"
      "ipc_wait (Pop_wait x) t RT_IPC_FLAG_FIFO timeout (upd_thread t (\<lambda>r. r\<lparr>th_error := RT_EOK\<rparr>) s) = Some s1"
      "rt_schedule s1 = Some s'"
  | (get) v d where "\<not> dq_empty (data_queues s x)" "dq_get (data_queues s x) = Some (v, d)" "\<not> dq_low d"
      "out = Dq_returned True (RT_EOK, Some v)" "call_notify nf x RT_DATAQUEUE_EVENT_POP (upd_dq x (\<lambda>_. d) s) = Some s'"
  | (low) v d where "\<not> dq_empty (data_queues s x)" "dq_get (data_queues s x) = Some (v, d)" "dq_low d"
      "out = Dq_returned False (RT_EOK, Some v)" "elems (tlists s) (Push_wait x) = []"
      "call_notify nf x RT_DATAQUEUE_EVENT_LWM (upd_dq x (\<lambda>_. d\<lparr>waiting_lwm := False\<rparr>) s) = Some s'"
  | (wake) v d t ts r s1 where "\<not> dq_empty (data_queues s x)" "dq_get (data_queues s x) = Some (v, d)" "dq_low d"
      "out = Dq_notify (RT_EOK, Some v)" "elems (tlists s) (Push_wait x) = t # ts"
      "rt_thread_resume t (upd_dq x (\<lambda>_. d\<lparr>waiting_lwm := False\<rparr>) s) = Some (r, s1)" "rt_schedule s1 = Some s'"
proof (cases "dq_empty (data_queues s x)")
  case True
  show ?thesis
  proof (cases "timeout = 0")
    case t: True
    with op True have "out = Dq_returned True (- RT_ETIMEOUT, None)" "s' = s" by (simp_all add: pop_loop_def)
    with True t show ?thesis by (rule that(1))
  next
    case False
    with op True obtain t s1 where "thread = Some t" "out = Dq_blocked t"
      "ipc_wait (Pop_wait x) t RT_IPC_FLAG_FIFO timeout (upd_thread t (\<lambda>r. r\<lparr>th_error := RT_EOK\<rparr>) s) = Some s1"
      "rt_schedule s1 = Some s'"
      by (auto simp: pop_loop_def rt_debug_not_in_interrupt_def bind_eq_Some_conv Let_def)
    with True False show ?thesis using that(2) by blast
  qed
next
  case False
  with op obtain v d where d: "dq_get (data_queues s x) = Some (v, d)"
    by (auto simp: pop_loop_def bind_eq_Some_conv)
  show ?thesis
  proof (cases "dq_low d")
    case nlow: False
    with op False d have "out = Dq_returned True (RT_EOK, Some v)"
      "call_notify nf x RT_DATAQUEUE_EVENT_POP (upd_dq x (\<lambda>_. d) s) = Some s'"
      by (auto simp: pop_loop_def bind_eq_Some_conv)
    with False d nlow show ?thesis using that(3) by blast
  next
    case low: True
    show ?thesis
    proof (cases "elems (tlists s) (Push_wait x)")
      case Nil
      with op False d low have "out = Dq_returned False (RT_EOK, Some v)"
        "call_notify nf x RT_DATAQUEUE_EVENT_LWM (upd_dq x (\<lambda>_. d\<lparr>waiting_lwm := False\<rparr>) s) = Some s'"
        by (auto simp: pop_loop_def bind_eq_Some_conv Let_def)
      with False d low Nil show ?thesis using that(4) by blast
    next
      case (Cons t ts)
      with op False d low obtain r s1 where "out = Dq_notify (RT_EOK, Some v)"
        "rt_thread_resume t (upd_dq x (\<lambda>_. d\<lparr>waiting_lwm := False\<rparr>) s) = Some (r, s1)" "rt_schedule s1 = Some s'"
        by (auto simp: pop_loop_def bind_eq_Some_conv Let_def)
      with False d low Cons show ?thesis using that(5) by blast
    qed
  qed
qed

lemma kinv_dq_init: "rt_data_queue_init x sz low f s = Some (r, s') \<Longrightarrow> kinv s \<Longrightarrow> kinv s'"
  by (auto simp: rt_data_queue_init_def l_init_head_def bind_eq_Some_conv Let_def split: if_splits
      dest!: kinv_heap(1))

lemma kinv_dq_reset:
  assumes op: "rt_data_queue_reset x s = Some s'" and inv: "kinv s"
  shows "kinv s'"
proof -
  from op obtain r1 s1 r2 s2 s3 where "rt_ipc_list_resume_all (Pop_wait x) (rt_enter_critical s) = Some (r1, s1)"
    "rt_ipc_list_resume_all (Push_wait x) s1 = Some (r2, s2)" "rt_exit_critical s2 = Some s3" "rt_schedule s3 = Some s'"
    by (auto simp: rt_data_queue_reset_def bind_eq_Some_conv Let_def)
  then show ?thesis
    using inv kinv_enter_critical kinv_resume_all kinv_exit_critical kinv_schedule is_wait.simps by meson
qed

context data_queue_notify
begin

lemma push_kinv:
  assumes op: "push_loop nf x v thread timeout s = Some (out, s')" and inv: "kinv s" and me: "waiter_ready thread s"
  shows "kinv s'"
  using op
proof (cases rule: push_cases)
  case (blocked t s1)
  have "kinv s1"
    using kinv_wait [OF blocked(5) kinv_error] inv me blocked(2) by (simp add: waiter_ready_def)
  then show ?thesis by (rule kinv_schedule [OF blocked(6)])
next
  case (put d)
  show ?thesis using inv by (intro call_kinv [OF put(5)]) simp
next
  case (wake d t ts r s1)
  have "kinv s1" using inv by (intro kinv_resume [OF wake(5)]) simp
  then show ?thesis by (rule kinv_schedule [OF wake(6)])
qed (use inv in simp)

lemma pop_kinv:
  assumes op: "pop_loop nf x thread timeout s = Some (out, s')" and inv: "kinv s" and me: "waiter_ready thread s"
  shows "kinv s'"
  using op
proof (cases rule: pop_cases)
  case (blocked t s1)
  have "kinv s1"
    using kinv_wait [OF blocked(5) kinv_error] inv me blocked(2) by (simp add: waiter_ready_def)
  then show ?thesis by (rule kinv_schedule [OF blocked(6)])
next
  case (get v d)
  show ?thesis using inv by (intro call_kinv [OF get(5)]) simp
next
  case (low v d)
  show ?thesis using inv by (intro call_kinv [OF low(6)]) simp
next
  case (wake v d t ts r s1)
  have "kinv s1" using inv by (intro kinv_resume [OF wake(6)]) simp
  then show ?thesis by (rule kinv_schedule [OF wake(7)])
qed (use inv in simp)

lemma push_resumed_kinv:
  "rt_data_queue_push_resumed nf x v t timeout s = Some (out, s') \<Longrightarrow> kinv s \<Longrightarrow>
   stat (threads s t) = RT_THREAD_READY \<Longrightarrow> kinv s'"
  by (auto simp: rt_data_queue_push_resumed_def waiter_ready_def split: if_splits intro: push_kinv)

lemma pop_resumed_kinv:
  "rt_data_queue_pop_resumed nf x t timeout s = Some (out, s') \<Longrightarrow> kinv s \<Longrightarrow>
   stat (threads s t) = RT_THREAD_READY \<Longrightarrow> kinv s'"
  by (auto simp: rt_data_queue_pop_resumed_def waiter_ready_def split: if_splits intro: pop_kinv)

end

subsection \<open>The queue as a list\<close>

definition dq_len :: "rt_data_queue \<Rightarrow> nat" where
  "dq_len d = unat (put_index d - get_index d)"

definition dq_list :: "rt_data_queue \<Rightarrow> (nat \<times> u32) list" where
  "dq_list d = ring (unat (dq_size d)) (dq_items d) (unat (get_index d)) (dq_len d)"

text \<open>The queue has memory, and not more items than places. Its operations treat it as a ring only when its size is a power
  of two (\<open>dq_ring\<close>), which \<^verbatim>\<open>rt_data_queue_init\<close> does not check.\<close>

definition dq_ok :: "rt_data_queue \<Rightarrow> bool" where
  "dq_ok d \<longleftrightarrow> dq_mem d \<noteq> 0 \<and> dq_len d \<le> unat (dq_size d)"

definition dq_ring :: "rt_data_queue \<Rightarrow> bool" where
  "dq_ring d \<longleftrightarrow> ring_size (dq_size d) \<and> dq_ok d"

lemma dq_ringI: "unat (dq_size d) = 2 ^ k \<Longrightarrow> k \<le> 15 \<Longrightarrow> dq_ok d \<Longrightarrow> dq_ring d"
  by (auto simp: dq_ring_def ring_size_def)

lemma dq_ring_ok: "dq_ring d \<Longrightarrow> dq_ok d"
  by (simp add: dq_ring_def)

text \<open>The put index has not wrapped around the 16 bits before the get index.\<close>

definition dq_in_step :: "rt_data_queue \<Rightarrow> bool" where
  "dq_in_step d \<longleftrightarrow> get_index d \<le> put_index d"

lemma length_dq_list [simp]: "length (dq_list d) = dq_len d"
  by (simp add: dq_list_def)

lemma dq_slot_ok: "dq_ring d \<Longrightarrow> dq_slot d i = Some (unat i mod unat (dq_size d))"
  using ring_position [of "dq_size d" i] ring_sizeD(1) [of "dq_size d"] by (simp add: dq_ring_def dq_ok_def dq_slot_def Let_def)

lemma dq_put_Some:
  assumes ok: "dq_ring d" and room: "dq_len d < unat (dq_size d)"
  shows "\<exists>d'. dq_put v d = Some d' \<and> dq_ring d' \<and> dq_list d' = dq_list d @ [v] \<and> dq_size d' = dq_size d"
proof -
  let ?N = "unat (dq_size d)" and ?k = "unat (put_index d) mod unat (dq_size d)"
  have sz: "ring_size (dq_size d)" "0 < ?N" using ok ring_sizeD(1) by (auto simp: dq_ring_def dq_ok_def)
  define d' where "d' = d\<lparr>dq_items := (dq_items d)(?k := v), put_index := put_index d + 1\<rparr>"
  have put: "dq_put v d = Some d'" by (simp add: dq_put_def dq_slot_ok [OF ok] d'_def)
  have l: "dq_len d' = dq_len d + 1"
    using ring_grow [OF sz(1), of "put_index d" "get_index d" 1] room by (simp add: dq_len_def d'_def)
  have "written ?N ?k [v] (dq_items d) ((dq_items d)(?k := v))" using sz by (intro written_one) simp
  then have "written ?N (unat (get_index d) + dq_len d) [v] (dq_items d) (dq_items d')"
    using ring_end [OF sz(1), of "put_index d" "get_index d"] by (simp add: written_def dq_len_def d'_def mod_simps)
  from ring_written [OF this] room have "dq_list d' = dq_list d @ [v]"
    by (simp add: dq_list_def l) (simp add: d'_def)
  moreover have "dq_ring d'" using ok room l by (simp add: dq_ring_def dq_ok_def) (simp add: d'_def)
  ultimately show ?thesis using put by (auto simp: d'_def)
qed

lemma dq_get_Some:
  assumes ok: "dq_ring d" and list: "dq_list d = v # vs"
  shows "\<exists>d'. dq_get d = Some (v, d') \<and> dq_ring d' \<and> dq_list d' = vs \<and> dq_size d' = dq_size d"
proof -
  let ?N = "unat (dq_size d)"
  have sz: "ring_size (dq_size d)" using ok by (simp add: dq_ring_def dq_ok_def)
  have n: "dq_len d = Suc (length vs)" using arg_cong [OF list, of length] by simp
  define d' where "d' = d\<lparr>get_index := get_index d + 1\<rparr>"
  have l: "dq_len d' = length vs"
    using ring_shrink [of 1 "put_index d" "get_index d"] n by (simp add: dq_len_def d'_def)
  have eq: "dq_items d (unat (get_index d) mod ?N) = v" "ring ?N (dq_items d) (unat (get_index d) + 1) (length vs) = vs"
    using list n by (simp_all add: dq_list_def ring_Suc)
  have "dq_list d' = ring ?N (dq_items d) (unat (get_index d + 1)) (length vs)"
    by (simp add: dq_list_def l) (simp add: d'_def)
  also have "\<dots> = ring ?N (dq_items d) (unat (get_index d) + 1) (length vs)"
    using ring_index_add [OF sz, of "get_index d" 1] by (metis ring_mod unsigned_1)
  finally have "dq_list d' = vs" using eq(2) by simp
  moreover have "dq_get d = Some (v, d')" using eq(1) by (simp add: dq_get_def dq_slot_ok [OF ok] d'_def)
  moreover have "dq_ring d'" using ok l n by (simp add: dq_ring_def dq_ok_def) (simp add: d'_def)
  ultimately show ?thesis by (auto simp: d'_def)
qed

lemma dq_empty_iff: "dq_empty d \<longleftrightarrow> dq_list d = []"
  by (auto simp: dq_empty_def dq_len_def unat_eq_zero simp flip: length_0_conv)

lemma dq_full_iff:
  assumes "dq_ring d" "dq_in_step d"
  shows "dq_full d \<longleftrightarrow> dq_len d = unat (dq_size d)"
proof -
  have "uint (put_index d) - uint (get_index d) = int (dq_len d)"
    using in_step_len [of "get_index d" "put_index d"] assms(2) by (simp only: dq_in_step_def dq_len_def)
  moreover have "uint (dq_size d) = int (unat (dq_size d))" by (simp only: uint_nat)
  ultimately show ?thesis unfolding dq_full_def by (simp only: of_nat_eq_iff)
qed

subsection \<open>What a push and a pop do\<close>

text \<open>A function to notify that leaves the data queues alone, as one that wakes a thread does.\<close>

locale data_queue_quiet = data_queue_notify +
  assumes nf_leaves: "nf f x e s = Some s' \<Longrightarrow> data_queues s' = data_queues s"
begin

lemma call_leaves: "call_notify nf x e s = Some s' \<Longrightarrow> data_queues s' = data_queues s"
  using nf_leaves by (auto simp: call_notify_def split: option.splits)

text \<open>While the indices are in step, a push that succeeds appends the item, and one that fails or waits leaves the
  queue alone.\<close>

lemma push_items:
  assumes op: "push_loop nf x v thread timeout s = Some (out, s')" and inv: "kinv s" and me: "waiter_ready thread s"
    and ok: "dq_ring (data_queues s x)" and step: "dq_in_step (data_queues s x)"
  shows "dq_ring (data_queues s' x) \<and> dq_size (data_queues s' x) = dq_size (data_queues s x) \<and>
    dq_list (data_queues s' x) =
      (if out = Dq_returned True RT_EOK then dq_list (data_queues s x) @ [v] else dq_list (data_queues s x)) \<and>
    (out \<noteq> Dq_returned True RT_EOK \<longrightarrow> dq_len (data_queues s x) = unat (dq_size (data_queues s x)))"
  using op
proof (cases rule: push_cases)
  case full
  then show ?thesis using ok dq_full_iff [OF ok step]
    by (simp add: dq_ring_def dq_ok_def dq_list_def dq_len_def RT_EOK_def RT_ETIMEOUT_def)
next
  case (blocked t s1)
  let ?s = "upd_dq x (\<lambda>r. r\<lparr>waiting_lwm := True\<rparr>) s"
  have "ipc_data s' = ipc_data ?s"
    using me blocked(2) inv by (intro wait_loop_data [OF blocked(5) _ _ _ blocked(6)]) (auto simp: waiter_ready_def)
  then have "data_queues s' = data_queues ?s" by (rule ipc_dataD)
  then show ?thesis using ok blocked(4) dq_full_iff [OF ok step] blocked(1)
    by (simp add: dq_ring_def dq_ok_def dq_list_def dq_len_def)
next
  case (put d)
  have "dq_len (data_queues s x) < unat (dq_size (data_queues s x))"
    using put(1) dq_full_iff [OF ok step] ok by (simp add: dq_ring_def dq_ok_def)
  from dq_put_Some [OF ok this, of v] put(2)
  have "dq_ring d" "dq_list d = dq_list (data_queues s x) @ [v]" "dq_size d = dq_size (data_queues s x)" by auto
  then show ?thesis using call_leaves [OF put(5)] put(3) by simp
next
  case (wake d t ts r s1)
  have "dq_len (data_queues s x) < unat (dq_size (data_queues s x))"
    using wake(1) dq_full_iff [OF ok step] ok by (simp add: dq_ring_def dq_ok_def)
  from dq_put_Some [OF ok this, of v] wake(2)
  have "dq_ring d" "dq_list d = dq_list (data_queues s x) @ [v]" "dq_size d = dq_size (data_queues s x)" by auto
  then show ?thesis
    using ipc_dataD(9) [OF resume_data [OF wake(5)]] ipc_dataD(9) [OF schedule_data [OF wake(6)]] wake(3) by simp
qed

text \<open>A pop that succeeds takes the first item, whatever the indices.\<close>

lemma pop_items:
  assumes op: "pop_loop nf x thread timeout s = Some (out, s')" and inv: "kinv s" and me: "waiter_ready thread s"
    and ok: "dq_ring (data_queues s x)"
  shows "dq_ring (data_queues s' x) \<and> dq_size (data_queues s' x) = dq_size (data_queues s x) \<and>
    (case dq_list (data_queues s x) of
       [] \<Rightarrow> data_queues s' = data_queues s \<and> (out = Dq_returned True (- RT_ETIMEOUT, None) \<or> (\<exists>t. out = Dq_blocked t))
     | v # vs \<Rightarrow> dq_list (data_queues s' x) = vs \<and>
         (out = Dq_notify (RT_EOK, Some v) \<or> (\<exists>b. out = Dq_returned b (RT_EOK, Some v))))"
proof -
  have got: ?thesis if ne: "\<not> dq_empty (data_queues s x)" "dq_get (data_queues s x) = Some (v, d)"
    "data_queues s' x = d \<or> data_queues s' x = d\<lparr>waiting_lwm := False\<rparr>"
    "out = Dq_notify (RT_EOK, Some v) \<or> (\<exists>b. out = Dq_returned b (RT_EOK, Some v))" for v d
  proof -
    obtain v' vs where l: "dq_list (data_queues s x) = v' # vs"
      using ne by (cases "dq_list (data_queues s x)") (simp_all add: dq_empty_iff)
    with dq_get_Some [OF ok this] that(2) have "v' = v" "dq_ring d" "dq_list d = vs" "dq_size d = dq_size (data_queues s x)" by auto
    then show ?thesis using l that(3,4) by (auto simp: dq_ring_def dq_ok_def dq_list_def dq_len_def)
  qed
  show ?thesis
    using op
  proof (cases rule: pop_cases)
    case empty
    then show ?thesis using ok by (simp add: dq_empty_iff)
  next
    case (blocked t s1)
    have "ipc_data s' = ipc_data s"
      using me blocked(2) inv by (intro wait_loop_data [OF blocked(5) _ _ _ blocked(6)]) (auto simp: waiter_ready_def)
    then have "data_queues s' = data_queues s" by (rule ipc_dataD)
    then show ?thesis using ok blocked(1,4) by (simp add: dq_empty_iff)
  next
    case (get v d)
    then show ?thesis using call_leaves [OF get(5)] by (intro got) auto
  next
    case (low v d)
    then show ?thesis using call_leaves [OF low(6)] by (intro got) auto
  next
    case (wake v d t ts r s1)
    then show ?thesis
      using ipc_dataD(9) [OF resume_data [OF wake(6)]] ipc_dataD(9) [OF schedule_data [OF wake(7)]] by (intro got) auto
  qed
qed

end

text \<open>With a size that is no power of two some bit below the size is not in the mask, and two of the first places are the same:
  of the items pushed into an empty queue, one overwrites the first before the queue is full.\<close>

lemma dq_size_no_power:
  assumes "\<not> bit (dq_size d - 1) b" "2 ^ b < unat (dq_size d)"
  shows "dq_slot d (2 ^ b) = dq_slot d 0"
proof -
  have "(2 ^ b :: u16) AND (dq_size d - 1) = 0"
    using assms(1) by (intro bit_word_eqI) (auto simp: bit_simps)
  then show ?thesis by (simp add: dq_slot_def)
qed

lemma dq_size_three:
  defines "d \<equiv> \<lparr>dq_size = 3, lwm = 0, waiting_lwm = False, get_index = 0, put_index = 0, dq_mem = 100,
     dq_items = (\<lambda>_. (0, 0)), evt_notify = None\<rparr>"
  shows "dq_ok d \<and> \<not> dq_full d \<and>
    map_option dq_get (Option.bind (dq_put (11, 4) d) (dq_put (22, 4))) =
    map_option (\<lambda>d'. Some ((22, 4), d'\<lparr>get_index := 1\<rparr>)) (Option.bind (dq_put (11, 4) d) (dq_put (22, 4)))"
  by (simp add: d_def dq_ok_def dq_len_def dq_full_def dq_put_def dq_get_def dq_slot_def)

text \<open>Out of step, a full queue is not recognised, and a push overwrites its first item.\<close>

lemma dq_out_of_step:
  defines "d \<equiv> \<lparr>dq_size = 2, lwm = 0, waiting_lwm = False, get_index = 0xffff, put_index = 1, dq_mem = 100,
     dq_items = (\<lambda>_. (0, 0))(0 := (22, 4), 1 := (11, 4)), evt_notify = None\<rparr>"
  shows "dq_ring d \<and> dq_list d = [(11, 4), (22, 4)] \<and> \<not> dq_full d \<and>
    map_option dq_list (dq_put (33, 4) d) = Some [(33, 4), (22, 4), (33, 4)]"
proof (intro conjI)
  show "dq_ring d" by (simp add: d_def dq_ring_def dq_ok_def dq_len_def ring_size_def) (rule exI [of _ 1], simp)
qed (simp_all add: d_def dq_list_def dq_len_def dq_full_def dq_put_def dq_slot_def ring_def upt_rec)

end
