(* ===== verification/Device.thy ===== *)
theory Device
  imports Ipc_Base
begin

text \<open>
  The device interface of \<^verbatim>\<open>src/device.c\<close>, and the error number of \<^verbatim>\<open>src/kservice.c\<close> that it sets. What the
  functions of a device do is a parameter. What they print is not modelled.
\<close>

subsection \<open>The error number\<close>

definition rt_get_errno :: "kstate \<Rightarrow> rt_err_t" where
  "rt_get_errno s =
     (if rt_interrupt_nest s \<noteq> 0 then rt_errno s
      else case rt_thread_self s of
             None \<Rightarrow> rt_errno s
           | Some t \<Rightarrow> th_error (threads s t))"

definition rt_set_errno :: "rt_err_t \<Rightarrow> kstate \<Rightarrow> kstate" where
  "rt_set_errno e s =
     (if rt_interrupt_nest s \<noteq> 0 then s\<lparr>rt_errno := e\<rparr>
      else case rt_thread_self s of
             None \<Rightarrow> s\<lparr>rt_errno := e\<rparr>
           | Some t \<Rightarrow> upd_thread t (\<lambda>r. r\<lparr>th_error := e\<rparr>) s)"

subsection \<open>Operations\<close>

definition RT_DEVICE_FLAG_RDWR :: u16 where "RT_DEVICE_FLAG_RDWR = 0x003"
definition RT_DEVICE_FLAG_STANDALONE :: u16 where "RT_DEVICE_FLAG_STANDALONE = 0x008"
definition RT_DEVICE_FLAG_ACTIVATED :: u16 where "RT_DEVICE_FLAG_ACTIVATED = 0x010"
definition RT_DEVICE_OFLAG_CLOSE :: u16 where "RT_DEVICE_OFLAG_CLOSE = 0x000"
definition RT_DEVICE_OFLAG_OPEN :: u16 where "RT_DEVICE_OFLAG_OPEN = 0x008"

text \<open>The calls through the function pointers of a device. A read yields the number that the function returns and the
  bytes that it leaves in the buffer; a read and a write may wait.\<close>

record dev_ops =
  call_init :: "dev_fn \<Rightarrow> nat \<Rightarrow> kstate \<Rightarrow> (rt_err_t \<times> kstate) option"
  call_open :: "dev_fn \<Rightarrow> nat \<Rightarrow> u16 \<Rightarrow> kstate \<Rightarrow> (rt_err_t \<times> kstate) option"
  call_close :: "dev_fn \<Rightarrow> nat \<Rightarrow> kstate \<Rightarrow> (rt_err_t \<times> kstate) option"
  call_read :: "dev_fn \<Rightarrow> nat \<Rightarrow> u32 \<Rightarrow> u32 \<Rightarrow> kstate \<Rightarrow> ((u32 \<times> u8 list, tid) outcome \<times> kstate) option"
  call_write :: "dev_fn \<Rightarrow> nat \<Rightarrow> u32 \<Rightarrow> u8 list \<Rightarrow> u32 \<Rightarrow> kstate \<Rightarrow> ((u32, tid) outcome \<times> kstate) option"
  call_control :: "dev_fn \<Rightarrow> nat \<Rightarrow> u8 \<Rightarrow> nat \<Rightarrow> kstate \<Rightarrow> (rt_err_t \<times> kstate) option"

definition rt_device_register :: "nat option \<Rightarrow> u8 list \<Rightarrow> u16 \<Rightarrow> kstate \<Rightarrow> (rt_err_t \<times> kstate) option" where
  "rt_device_register dev nm flags s =
     (case dev of
        None \<Rightarrow> Some (- RT_ERROR, s)
      | Some d \<Rightarrow> do {
          s \<leftarrow> rt_object_init (Device_o d) RT_Object_Class_Device nm s;
          Some (RT_EOK, upd_dev d (\<lambda>r. r\<lparr>dev_flag := flags\<rparr>) s)
        })"

definition rt_device_unregister :: "nat \<Rightarrow> kstate \<Rightarrow> rt_err_t \<times> kstate" where
  "rt_device_unregister d s = (RT_EOK, rt_object_detach (Device_o d) s)"

text \<open>The body of the loop over the devices, and the loop: the link to the next device is read when the function has
  returned. A device that the function has taken off the list links to itself.\<close>

definition init_one :: "dev_ops \<Rightarrow> nat \<Rightarrow> kstate \<Rightarrow> kstate option" where
  "init_one ops d s =
     (case dev_init (devices s d) of
        Some f \<Rightarrow>
          if dev_flag (devices s d) AND RT_DEVICE_FLAG_ACTIVATED = 0 then do {
            (result, s) \<leftarrow> call_init ops f d s;
            Some (if result \<noteq> RT_EOK then s
                  else upd_dev d (\<lambda>r. r\<lparr>dev_flag := dev_flag r OR RT_DEVICE_FLAG_ACTIVATED\<rparr>) s)
          }
          else Some s
      | None \<Rightarrow> Some s)"

partial_function (option) init_loop :: "dev_ops \<Rightarrow> (obj_class, oid) node \<Rightarrow> kstate \<Rightarrow> kstate option" where
  "init_loop ops node s =
     (case node of
        Head _ \<Rightarrow> Some s
      | Node x \<Rightarrow>
          (case x of
             Device_o d \<Rightarrow> Option.bind (init_one ops d s) (\<lambda>s. init_loop ops (l_next (obj_lists s) node) s)
           | _ \<Rightarrow> None))"

definition rt_device_init_all :: "dev_ops \<Rightarrow> kstate \<Rightarrow> (rt_err_t \<times> kstate) option" where
  "rt_device_init_all ops s = do {
     s \<leftarrow> init_loop ops (l_next (obj_lists s) (Head RT_Object_Class_Device)) s;
     Some (RT_EOK, s)
   }"

definition rt_device_find :: "u8 list \<Rightarrow> kstate \<Rightarrow> (oid option \<times> kstate) option" where
  "rt_device_find nm s = do {
     let s = (if rt_thread_self s \<noteq> None then rt_enter_critical s else s);
     let r = List.find (\<lambda>x. rt_strncmp (o_name (objs s x)) nm RT_NAME_MAX = 0)
               (elems (obj_lists s) RT_Object_Class_Device);
     s \<leftarrow> (if rt_thread_self s \<noteq> None then rt_exit_critical s else Some s);
     Some (r, s)
   }"

definition rt_device_init :: "dev_ops \<Rightarrow> nat \<Rightarrow> kstate \<Rightarrow> (rt_err_t \<times> kstate) option" where
  "rt_device_init ops d s =
     (case dev_init (devices s d) of
        Some f \<Rightarrow>
          if dev_flag (devices s d) AND RT_DEVICE_FLAG_ACTIVATED = 0 then do {
            (result, s) \<leftarrow> call_init ops f d s;
            if result \<noteq> RT_EOK then Some (result, s)
            else Some (result, upd_dev d (\<lambda>r. r\<lparr>dev_flag := dev_flag r OR RT_DEVICE_FLAG_ACTIVATED\<rparr>) s)
          }
          else Some (RT_EOK, s)
      | None \<Rightarrow> Some (- RT_ENOSYS, s))"

text \<open>The part of \<^verbatim>\<open>rt_device_open\<close> after the initialisation.\<close>

definition device_open_ready :: "dev_ops \<Rightarrow> nat \<Rightarrow> u16 \<Rightarrow> kstate \<Rightarrow> (rt_err_t \<times> kstate) option" where
  "device_open_ready ops d oflag s =
     (if dev_flag (devices s d) AND RT_DEVICE_FLAG_STANDALONE \<noteq> 0 \<and> open_flag (devices s d) AND RT_DEVICE_OFLAG_OPEN \<noteq> 0
      then Some (- RT_EBUSY, s)
      else do {
        (result, s) \<leftarrow> (case dev_open (devices s d) of
                         Some f \<Rightarrow> call_open ops f d oflag s
                       | None \<Rightarrow> Some (- RT_ENOSYS, s));
        Some (result,
          if result = RT_EOK \<or> result = - RT_ENOSYS
          then upd_dev d (\<lambda>r. r\<lparr>open_flag := oflag OR RT_DEVICE_OFLAG_OPEN\<rparr>) s else s)
      })"

text \<open>The function \<^verbatim>\<open>init\<close> is called without a test whether there is one.\<close>

definition rt_device_open :: "dev_ops \<Rightarrow> nat \<Rightarrow> u16 \<Rightarrow> kstate \<Rightarrow> (rt_err_t \<times> kstate) option" where
  "rt_device_open ops d oflag s =
     (if dev_flag (devices s d) AND RT_DEVICE_FLAG_ACTIVATED = 0 then do {
        f \<leftarrow> dev_init (devices s d);
        (result, s) \<leftarrow> call_init ops f d s;
        if result \<noteq> RT_EOK then Some (result, s)
        else device_open_ready ops d oflag
               (upd_dev d (\<lambda>r. r\<lparr>dev_flag := dev_flag r OR RT_DEVICE_FLAG_ACTIVATED\<rparr>) s)
      }
      else device_open_ready ops d oflag s)"

definition rt_device_close :: "dev_ops \<Rightarrow> nat \<Rightarrow> kstate \<Rightarrow> (rt_err_t \<times> kstate) option" where
  "rt_device_close ops d s = do {
     (result, s) \<leftarrow> (case dev_close (devices s d) of
                      Some f \<Rightarrow> call_close ops f d s
                    | None \<Rightarrow> Some (- RT_ENOSYS, s));
     Some (result,
       if result = RT_EOK \<or> result = - RT_ENOSYS
       then upd_dev d (\<lambda>r. r\<lparr>open_flag := RT_DEVICE_OFLAG_CLOSE\<rparr>) s else s)
   }"

definition rt_device_read ::
  "dev_ops \<Rightarrow> nat \<Rightarrow> u32 \<Rightarrow> u32 \<Rightarrow> kstate \<Rightarrow> ((u32 \<times> u8 list, tid) outcome \<times> kstate) option" where
  "rt_device_read ops d pos sz s =
     (case dev_read (devices s d) of
        Some f \<Rightarrow> call_read ops f d pos sz s
      | None \<Rightarrow> Some (Returned (0, []), rt_set_errno (- RT_ENOSYS) s))"

definition rt_device_write ::
  "dev_ops \<Rightarrow> nat \<Rightarrow> u32 \<Rightarrow> u8 list \<Rightarrow> u32 \<Rightarrow> kstate \<Rightarrow> ((u32, tid) outcome \<times> kstate) option" where
  "rt_device_write ops d pos buf sz s =
     (case dev_write (devices s d) of
        Some f \<Rightarrow> call_write ops f d pos buf sz s
      | None \<Rightarrow> Some (Returned 0, rt_set_errno (- RT_ENOSYS) s))"

definition rt_device_control :: "dev_ops \<Rightarrow> nat \<Rightarrow> u8 \<Rightarrow> nat \<Rightarrow> kstate \<Rightarrow> (rt_err_t \<times> kstate) option" where
  "rt_device_control ops d cmd arg s =
     (case dev_control (devices s d) of
        Some f \<Rightarrow> call_control ops f d cmd arg s
      | None \<Rightarrow> Some (- RT_ENOSYS, s))"

definition rt_device_set_rx_indicate :: "nat \<Rightarrow> dev_fn option \<Rightarrow> kstate \<Rightarrow> rt_err_t \<times> kstate" where
  "rt_device_set_rx_indicate d rx_ind s = (RT_EOK, upd_dev d (\<lambda>r. r\<lparr>rx_indicate := rx_ind\<rparr>) s)"

definition rt_device_set_tx_complete :: "nat \<Rightarrow> dev_fn option \<Rightarrow> kstate \<Rightarrow> rt_err_t \<times> kstate" where
  "rt_device_set_tx_complete d tx_done s = (RT_EOK, upd_dev d (\<lambda>r. r\<lparr>tx_complete := tx_done\<rparr>) s)"

subsection \<open>The operations keep the invariant\<close>

lemma kinv_set_errno: "kinv s \<Longrightarrow> kinv (rt_set_errno e s)"
  by (auto simp: rt_set_errno_def split: option.splits intro: kinv_error)

lemma kinv_device_register: "rt_device_register dev nm flags s = Some (r, s') \<Longrightarrow> kinv s \<Longrightarrow> kinv s'"
  by (auto simp: rt_device_register_def bind_eq_Some_conv split: option.splits dest: kinv_object_init)

lemma kinv_device_unregister: "kinv s \<Longrightarrow> kinv (snd (rt_device_unregister d s))"
  by (simp add: rt_device_unregister_def kinv_object_detach)

lemma kinv_device_find: "rt_device_find nm s = Some (r, s') \<Longrightarrow> kinv s \<Longrightarrow> kinv s'"
  by (auto simp: rt_device_find_def bind_eq_Some_conv Let_def split: if_splits
      intro: kinv_exit_critical kinv_enter_critical)

text \<open>What is relied on of a driver: its functions keep the invariant. A read and a write are called by a thread that is
  ready, since they may make it wait.\<close>

locale device_driver =
  fixes ops :: dev_ops
  assumes init_kinv: "call_init ops f d s = Some (r, s') \<Longrightarrow> kinv s \<Longrightarrow> kinv s'"
    and open_kinv: "call_open ops f d oflag s = Some (r, s') \<Longrightarrow> kinv s \<Longrightarrow> kinv s'"
    and close_kinv: "call_close ops f d s = Some (r, s') \<Longrightarrow> kinv s \<Longrightarrow> kinv s'"
    and read_kinv: "call_read ops f d pos sz s = Some (rd, s') \<Longrightarrow> kinv s \<Longrightarrow> self_ready s \<Longrightarrow> kinv s'"
    and write_kinv: "call_write ops f d pos buf sz s = Some (wr, s') \<Longrightarrow> kinv s \<Longrightarrow> self_ready s \<Longrightarrow> kinv s'"
    and control_kinv: "call_control ops f d cmd arg s = Some (r, s') \<Longrightarrow> kinv s \<Longrightarrow> kinv s'"
begin

lemma kinv_init: "rt_device_init ops d s = Some (r, s') \<Longrightarrow> kinv s \<Longrightarrow> kinv s'"
  by (auto simp: rt_device_init_def bind_eq_Some_conv split: option.splits if_splits dest: init_kinv)

lemma kinv_open_ready:
  assumes op: "device_open_ready ops d oflag s = Some (r, s')" and inv: "kinv s"
  shows "kinv s'"
proof (cases "dev_flag (devices s d) AND RT_DEVICE_FLAG_STANDALONE \<noteq> 0 \<and> open_flag (devices s d) AND RT_DEVICE_OFLAG_OPEN \<noteq> 0")
  case False
  with op obtain s1 where s1: "(case dev_open (devices s d) of Some f \<Rightarrow> call_open ops f d oflag s | None \<Rightarrow> Some (- RT_ENOSYS, s))
      = Some (r, s1)"
    and s': "s' = (if r = RT_EOK \<or> r = - RT_ENOSYS then upd_dev d (\<lambda>r. r\<lparr>open_flag := oflag OR RT_DEVICE_OFLAG_OPEN\<rparr>) s1 else s1)"
    unfolding device_open_ready_def if_not_P [OF False] bind_eq_Some_conv split_paired_Ex prod.case option.inject prod.inject by blast
  have "kinv s1" using s1 inv open_kinv by (cases "dev_open (devices s d)") auto
  then show ?thesis unfolding s' by simp
qed (use op inv in \<open>simp add: device_open_ready_def\<close>)

lemma kinv_open:
  assumes op: "rt_device_open ops d oflag s = Some (r, s')" and inv: "kinv s"
  shows "kinv s'"
proof (cases "dev_flag (devices s d) AND RT_DEVICE_FLAG_ACTIVATED = 0")
  case True
  with op obtain f r1 s1 where c: "call_init ops f d s = Some (r1, s1)" and
    s': "(if r1 \<noteq> RT_EOK then Some (r1, s1) else device_open_ready ops d oflag
      (upd_dev d (\<lambda>r. r\<lparr>dev_flag := dev_flag r OR RT_DEVICE_FLAG_ACTIVATED\<rparr>) s1)) = Some (r, s')"
    unfolding rt_device_open_def if_P [OF True] bind_eq_Some_conv split_paired_Ex prod.case by blast
  have "kinv s1" using c inv by (rule init_kinv)
  then show ?thesis using s' by (simp split: if_splits) (erule kinv_open_ready, simp)
next
  case False
  then show ?thesis using op inv kinv_open_ready by (simp add: rt_device_open_def)
qed

lemma kinv_close: "rt_device_close ops d s = Some (r, s') \<Longrightarrow> kinv s \<Longrightarrow> kinv s'"
  by (auto simp: rt_device_close_def bind_eq_Some_conv split: option.splits dest: close_kinv)

lemma kinv_read: "rt_device_read ops d pos sz s = Some (rd, s') \<Longrightarrow> kinv s \<Longrightarrow> self_ready s \<Longrightarrow> kinv s'"
  by (auto simp: rt_device_read_def split: option.splits intro: read_kinv kinv_set_errno)

lemma kinv_write: "rt_device_write ops d pos buf sz s = Some (wr, s') \<Longrightarrow> kinv s \<Longrightarrow> self_ready s \<Longrightarrow> kinv s'"
  by (auto simp: rt_device_write_def split: option.splits intro: write_kinv kinv_set_errno)

lemma kinv_dev_control: "rt_device_control ops d cmd arg s = Some (r, s') \<Longrightarrow> kinv s \<Longrightarrow> kinv s'"
  by (auto simp: rt_device_control_def split: option.splits intro: control_kinv)

lemma kinv_init_one: "init_one ops d s = Some s' \<Longrightarrow> kinv s \<Longrightarrow> kinv s'"
  by (auto simp: init_one_def bind_eq_Some_conv split: option.splits if_splits dest: init_kinv)

lemma kinv_init_all:
  assumes op: "rt_device_init_all ops s = Some (r, s')" and inv: "kinv s"
  shows "kinv s'"
proof -
  have "o' = ops \<longrightarrow> kinv s1 \<longrightarrow> kinv s2" if "init_loop o' node s1 = Some s2" for o' node s1 s2
    using that
  proof (rule init_loop.raw_induct [rotated])
    fix loop :: "dev_ops \<Rightarrow> (obj_class, oid) node \<Rightarrow> kstate \<Rightarrow> kstate option" and o' node s1 s2
    assume IH: "\<And>o' n a b. loop o' n a = Some b \<Longrightarrow> o' = ops \<longrightarrow> kinv a \<longrightarrow> kinv b"
    assume body: "(case node of Head _ \<Rightarrow> Some s1
      | Node x \<Rightarrow> (case x of Device_o d \<Rightarrow> Option.bind (init_one o' d s1) (\<lambda>s. loop o' (l_next (obj_lists s) node) s)
                   | _ \<Rightarrow> None)) = Some s2"
    show "o' = ops \<longrightarrow> kinv s1 \<longrightarrow> kinv s2"
    proof (cases node)
      case (Node x)
      with body obtain d s3 where "init_one o' d s1 = Some s3" "loop o' (l_next (obj_lists s3) node) s3 = Some s2"
        by (auto simp: bind_eq_Some_conv split: oid.splits)
      then show ?thesis using IH kinv_init_one by blast
    qed (use body in simp)
  qed
  then show ?thesis using op inv by (auto simp: rt_device_init_all_def bind_eq_Some_conv)
qed

end

subsection \<open>What the operations do\<close>

text \<open>Names are compared up to their first eight bytes.\<close>

lemma scast_u8_0 [simp]: "(scast (w :: u8) :: u32) = 0 \<longleftrightarrow> w = 0"
proof
  assume a: "(scast w :: u32) = 0"
  have "sint (scast w :: u32) = sint w" by (rule sint_up_scast) (simp add: is_up)
  then show "w = 0" by (simp add: a signed_eq_0_iff)
qed simp

lemma strncmp_0:
  "0 \<notin> set cs \<Longrightarrow> 0 \<notin> set ct \<Longrightarrow> rt_strncmp cs ct n = 0 \<longleftrightarrow> take n cs = take n ct"
proof (induction n arbitrary: cs ct)
  case (Suc n)
  show ?case using Suc.prems by (cases cs; cases ct) (auto simp: Let_def Suc.IH)
qed simp

lemma strncmp_strncpy:
  assumes "0 \<notin> set cs" "0 \<notin> set ct"
  shows "rt_strncmp (rt_strncpy cs n) ct n = 0 \<longleftrightarrow> take n cs = take n ct"
proof -
  have "rt_strncmp (take n (cs @ replicate m 0)) ct n = rt_strncmp cs ct n" if "n \<le> m" for n m
    using assms that
  proof (induction n arbitrary: cs ct m)
    case (Suc n)
    then obtain k where m: "m = Suc k" by (cases m) auto
    show ?case
    proof (cases cs)
      case (Cons c cs')
      then show ?thesis using Suc.IH [of cs' "tl ct" m] Suc.prems by (cases ct) (auto simp: Let_def)
    qed (simp add: m Let_def)
  qed simp
  from this [of n n] show ?thesis using strncmp_0 [OF assms] by (simp add: rt_strncpy_def)
qed

text \<open>A device that has just been registered is found by its name.\<close>

lemma device_register_find:
  assumes reg: "rt_device_register (Some d) nm flags s = Some (r, s1)" and nm: "0 \<notin> set nm" "0 \<notin> set nm'"
    and same: "take RT_NAME_MAX nm' = take RT_NAME_MAX nm" and find: "rt_device_find nm' s1 = Some (x, s2)"
  shows "r = RT_EOK \<and> x = Some (Device_o d)"
proof -
  from reg obtain s0 where s0: "rt_object_init (Device_o d) RT_Object_Class_Device nm s = Some s0" and r: "r = RT_EOK"
    and s1: "s1 = upd_dev d (\<lambda>r. r\<lparr>dev_flag := flags\<rparr>) s0"
    by (auto simp: rt_device_register_def bind_eq_Some_conv)
  have "elems (obj_lists s1) RT_Object_Class_Device = Device_o d # elems (obj_lists s) RT_Object_Class_Device"
    "o_name (objs s1 (Device_o d)) = rt_strncpy nm RT_NAME_MAX"
    using s0 by (simp_all add: s1 rt_object_init_Some)
  moreover have "rt_strncmp (rt_strncpy nm RT_NAME_MAX) nm' RT_NAME_MAX = 0"
    using strncmp_strncpy [OF nm, of RT_NAME_MAX] same by simp
  ultimately have "List.find (\<lambda>x. rt_strncmp (o_name (objs s1 x)) nm' RT_NAME_MAX = 0)
      (elems (obj_lists s1) RT_Object_Class_Device) = Some (Device_o d)" by simp
  then show ?thesis using find r
    by (auto simp: rt_device_find_def bind_eq_Some_conv Let_def rt_enter_critical_def split: if_splits)
qed

text \<open>A device that stands alone is opened by one thread at a time.\<close>

lemma device_open_alone:
  assumes flags: "\<And>f o' s r s'. call_open ops f d o' s = Some (r, s') \<Longrightarrow> dev_flag (devices s' d) = dev_flag (devices s d)"
      "\<And>f s r s'. call_init ops f d s = Some (r, s') \<Longrightarrow> dev_flag (devices s' d) = dev_flag (devices s d)"
    and op: "rt_device_open ops d oflag s = Some (RT_EOK, s1)"
    and alone: "dev_flag (devices s d) AND RT_DEVICE_FLAG_STANDALONE \<noteq> 0"
  shows "rt_device_open ops d oflag' s1 = Some (- RT_EBUSY, s1)"
proof -
  have bits: "(x OR RT_DEVICE_FLAG_ACTIVATED) AND RT_DEVICE_FLAG_ACTIVATED \<noteq> 0"
    "(x OR RT_DEVICE_FLAG_ACTIVATED) AND RT_DEVICE_FLAG_STANDALONE = x AND RT_DEVICE_FLAG_STANDALONE"
    "(x OR RT_DEVICE_OFLAG_OPEN) AND RT_DEVICE_OFLAG_OPEN \<noteq> 0" for x
    by (simp_all add: RT_DEVICE_FLAG_ACTIVATED_def RT_DEVICE_FLAG_STANDALONE_def RT_DEVICE_OFLAG_OPEN_def bit.conj_disj_distrib2)
  have ready: ?thesis
    if go: "device_open_ready ops d oflag s2 = Some (RT_EOK, s1)"
      and f: "dev_flag (devices s2 d) AND RT_DEVICE_FLAG_STANDALONE \<noteq> 0" "dev_flag (devices s2 d) AND RT_DEVICE_FLAG_ACTIVATED \<noteq> 0"
    for s2
  proof (cases "open_flag (devices s2 d) AND RT_DEVICE_OFLAG_OPEN \<noteq> 0")
    case True
    then have "RT_EOK = - RT_EBUSY" using go f by (simp add: device_open_ready_def)
    then show ?thesis by (simp add: RT_EOK_def RT_EBUSY_def)
  next
    case False
    then obtain g s3 where c: "call_open ops g d oflag s2 = Some (RT_EOK, s3)"
      and s1: "s1 = upd_dev d (\<lambda>r. r\<lparr>open_flag := oflag OR RT_DEVICE_OFLAG_OPEN\<rparr>) s3"
      using go by (cases "dev_open (devices s2 d)")
        (auto simp: device_open_ready_def bind_eq_Some_conv RT_EOK_def RT_ENOSYS_def)
    have "dev_flag (devices s3 d) = dev_flag (devices s2 d)" by (rule flags(1) [OF c])
    then show ?thesis using f bits(3) by (simp add: rt_device_open_def device_open_ready_def s1)
  qed
  show ?thesis
  proof (cases "dev_flag (devices s d) AND RT_DEVICE_FLAG_ACTIVATED = 0")
    case True
    from op True obtain f r2 s2 where c: "call_init ops f d s = Some (r2, s2)"
      and rest: "(if r2 \<noteq> RT_EOK then Some (r2, s2) else device_open_ready ops d oflag
        (upd_dev d (\<lambda>r. r\<lparr>dev_flag := dev_flag r OR RT_DEVICE_FLAG_ACTIVATED\<rparr>) s2)) = Some (RT_EOK, s1)"
      unfolding rt_device_open_def if_P [OF True] bind_eq_Some_conv split_paired_Ex prod.case by blast
    from rest have "device_open_ready ops d oflag
        (upd_dev d (\<lambda>r. r\<lparr>dev_flag := dev_flag r OR RT_DEVICE_FLAG_ACTIVATED\<rparr>) s2) = Some (RT_EOK, s1)"
      by (simp split: if_splits)
    then show ?thesis by (rule ready) (use flags(2) [OF c] alone bits in simp_all)
  next
    case False
    then show ?thesis using op alone by (intro ready [of s]) (simp_all add: rt_device_open_def)
  qed
qed

text \<open>A device without \<^verbatim>\<open>init\<close> cannot be opened before it is active: the call goes through a null pointer.\<close>

lemma device_open_null:
  "dev_flag (devices s d) AND RT_DEVICE_FLAG_ACTIVATED = 0 \<Longrightarrow> dev_init (devices s d) = None \<Longrightarrow>
   rt_device_open ops d oflag s = None \<and> rt_device_init ops d s = Some (- RT_ENOSYS, s)"
  by (simp add: rt_device_open_def rt_device_init_def)

text \<open>The loop over the links is one over the list of devices, for functions that leave the lists of objects alone.\<close>

primrec init_devices :: "dev_ops \<Rightarrow> nat list \<Rightarrow> kstate \<Rightarrow> kstate option" where
  "init_devices ops [] s = Some s"
| "init_devices ops (d # ds) s = Option.bind (init_one ops d s) (init_devices ops ds)"

lemma l_next_at:
  assumes wf: "wf_lists L" and e: "elems L h = xs @ x # ys"
  shows "l_next L (Node x) = (case ys of [] \<Rightarrow> Head h | y # _ \<Rightarrow> Node y)"
proof -
  have "onlist L x = Some h" "x \<notin> set xs"
    using wf_listsD(1) [OF wf, of h] wf_listsD(2) [OF wf, of x h] e by auto
  moreover from this have "dropWhile (\<lambda>y. y \<noteq> x) (xs @ x # ys) = x # ys" by (induction xs) auto
  ultimately show ?thesis using e by (simp add: l_next_def split: list.splits)
qed

lemma init_loop_list:
  assumes keeps: "\<And>f d s r s'. call_init ops f d s = Some (r, s') \<Longrightarrow> obj_lists s' = obj_lists s"
    and "wf_lists (obj_lists s)"
    and "elems (obj_lists s) RT_Object_Class_Device = xs @ map Device_o ds"
  shows "init_loop ops (case ds of [] \<Rightarrow> Head RT_Object_Class_Device | d # _ \<Rightarrow> Node (Device_o d)) s = init_devices ops ds s"
  using assms(2,3)
proof (induction ds arbitrary: xs s)
  case Nil
  show ?case by (simp add: init_loop.simps)
next
  case (Cons d ds)
  show ?case
  proof (cases "init_one ops d s")
    case None
    then show ?thesis by (subst init_loop.simps) simp
  next
    case (Some s1)
    have same: "obj_lists s1 = obj_lists s"
      using Some keeps by (auto simp: init_one_def bind_eq_Some_conv split: option.splits if_splits)
    have "l_next (obj_lists s1) (Node (Device_o d)) =
        (case ds of [] \<Rightarrow> Head RT_Object_Class_Device | e # _ \<Rightarrow> Node (Device_o e))"
      using l_next_at [OF Cons.prems(1), of RT_Object_Class_Device xs "Device_o d" "map Device_o ds"] Cons.prems(2) same
      by (simp split: list.splits)
    moreover have "init_loop ops (case ds of [] \<Rightarrow> Head RT_Object_Class_Device | e # _ \<Rightarrow> Node (Device_o e)) s1 =
        init_devices ops ds s1"
      using Cons.prems same by (intro Cons.IH [of _ "xs @ [Device_o d]"]) simp_all
    ultimately show ?thesis using Some by (subst init_loop.simps) simp
  qed
qed

subsection \<open>What the initialisation of all devices does\<close>

text \<open>Said without the loop and its body: which devices have to be initialised, and the calls of their functions, with what
  each returns. A device whose function has returned \<^verbatim>\<open>RT_EOK\<close> is marked as activated before the next call.\<close>

definition needs_init :: "kstate \<Rightarrow> nat \<Rightarrow> bool" where
  "needs_init s d \<longleftrightarrow> dev_init (devices s d) \<noteq> None \<and> dev_flag (devices s d) AND RT_DEVICE_FLAG_ACTIVATED = 0"

definition activated :: "nat \<Rightarrow> kstate \<Rightarrow> kstate" where
  "activated d s = upd_dev d (\<lambda>r. r\<lparr>dev_flag := dev_flag r OR RT_DEVICE_FLAG_ACTIVATED\<rparr>) s"

primrec init_calls :: "dev_ops \<Rightarrow> nat list \<Rightarrow> kstate \<Rightarrow> ((nat \<times> rt_err_t) list \<times> kstate) option" where
  "init_calls ops [] s = Some ([], s)"
| "init_calls ops (d # ds) s = do {
     f \<leftarrow> dev_init (devices s d);
     (r, s) \<leftarrow> call_init ops f d s;
     (log, s) \<leftarrow> init_calls ops ds (if r = RT_EOK then activated d s else s);
     Some ((d, r) # log, s)
   }"

text \<open>What is asked of the functions: they register and unregister no devices, and leave to \<^verbatim>\<open>rt_device_init_all\<close> which
  devices are initialised.\<close>

definition init_local :: "dev_ops \<Rightarrow> bool" where
  "init_local ops \<longleftrightarrow> (\<forall>f d s r s'. call_init ops f d s = Some (r, s') \<longrightarrow> obj_lists s' = obj_lists s \<and>
     (\<forall>e. dev_flag (devices s' e) = dev_flag (devices s e) \<and> dev_init (devices s' e) = dev_init (devices s e)))"

lemma init_localD:
  assumes "init_local ops" "call_init ops f d s = Some (r, s')"
  shows "obj_lists s' = obj_lists s" "dev_flag (devices s' e) = dev_flag (devices s e)"
    "dev_init (devices s' e) = dev_init (devices s e)"
  using assms unfolding init_local_def by blast+

lemma dev_activated:
  "dev_init (devices (activated d s) e) = dev_init (devices s e)"
  "dev_flag (devices (activated d s) e) =
     (if e = d then dev_flag (devices s e) OR RT_DEVICE_FLAG_ACTIVATED else dev_flag (devices s e))"
  by (simp_all add: activated_def)

lemma init_devices_calls:
  assumes loc: "init_local ops" and "distinct ds"
  shows "init_devices ops ds s = map_option snd (init_calls ops (filter (needs_init s) ds) s)"
  using assms(2)
proof (induction ds arbitrary: s)
  case (Cons d ds)
  show ?case
  proof (cases "needs_init s d")
    case False
    then have "init_one ops d s = Some s" by (auto simp: needs_init_def init_one_def split: option.splits)
    then show ?thesis using False Cons by simp
  next
    case True
    then obtain f where f: "dev_init (devices s d) = Some f" by (auto simp: needs_init_def)
    show ?thesis
    proof (cases "call_init ops f d s")
      case None
      then show ?thesis using True f by (simp add: needs_init_def init_one_def)
    next
      case (Some p)
      then obtain r u where c: "call_init ops f d s = Some (r, u)" by (cases p) simp
      define s1 where "s1 = (if r = RT_EOK then activated d u else u)"
      have "init_one ops d s = Some s1" using True f c by (simp add: needs_init_def init_one_def s1_def activated_def)
      moreover have "needs_init s1 e = needs_init s e" if "e \<in> set ds" for e
        using that Cons.prems init_localD [OF loc c] by (auto simp: needs_init_def s1_def dev_activated)
      then have "filter (needs_init s1) ds = filter (needs_init s) ds" by (rule filter_cong [OF refl])
      ultimately show ?thesis
        using True f c Cons.IH [of s1] Cons.prems
        by (simp add: s1_def [symmetric] option.map_comp comp_def map_conv_bind_option split_beta)
    qed
  qed
qed simp

lemma init_calls_flags:
  assumes loc: "init_local ops"
  shows "init_calls ops ds s = Some (log, s') \<Longrightarrow> map fst log = ds \<and>
    dev_flag (devices s' e) =
      (if (e, RT_EOK) \<in> set log then dev_flag (devices s e) OR RT_DEVICE_FLAG_ACTIVATED else dev_flag (devices s e))"
proof (induction ds arbitrary: s log)
  case (Cons d ds)
  from Cons.prems obtain f r u log1 where f: "dev_init (devices s d) = Some f" and c: "call_init ops f d s = Some (r, u)"
    and l: "init_calls ops ds (if r = RT_EOK then activated d u else u) = Some (log1, s')" and log: "log = (d, r) # log1"
    by (auto simp: bind_eq_Some_conv)
  from Cons.IH [OF l] show ?case
    unfolding log using init_localD(2) [OF loc c, of e] by (auto simp: dev_activated or.assoc)
qed simp

lemma init_all_devices:
  assumes loc: "init_local ops" and wf: "wf_lists (obj_lists s)"
    and ds: "elems (obj_lists s) RT_Object_Class_Device = map Device_o ds"
  shows "rt_device_init_all ops s =
    map_option (\<lambda>(_, s'). (RT_EOK, s')) (init_calls ops (filter (needs_init s) ds) s)"
proof -
  have "distinct ds" using wf_listsD(1) [OF wf, of RT_Object_Class_Device] ds by (simp add: distinct_map)
  moreover have "rt_device_init_all ops s = map_option (Pair RT_EOK) (init_devices ops ds s)"
    using init_loop_list [OF _ wf, where xs = "[]" and ds = ds and ops = ops] init_localD(1) [OF loc] ds
    by (cases ds) (auto simp: rt_device_init_all_def l_next_def map_conv_bind_option comp_def)
  ultimately show ?thesis
    using init_devices_calls [OF loc] by (simp add: option.map_comp comp_def case_prod_unfold)
qed

end
