(* ===== verification/Pipe.thy ===== *)
theory Pipe
  imports Device Completion
begin

text \<open>
  The pipes of \<^verbatim>\<open>components/drivers/src/pipe.c\<close>: devices with a ring buffer, whose read waits for a first byte
  and whose write waits for room for one.
\<close>

subsection \<open>Operations\<close>

text \<open>A thread goes to the end of the list without a time limit.\<close>

definition pipe_wait :: "t_head \<Rightarrow> tid option \<Rightarrow> kstate \<Rightarrow> (tid \<times> kstate) option" where
  "pipe_wait h thread s = do {
     t \<leftarrow> thread;
     (_, s) \<leftarrow> rt_thread_suspend t s;
     s \<leftarrow> on_tlists (l_insert_last h t) s;
     s \<leftarrow> rt_schedule s;
     Some (t, s)
   }"

definition pipe_wake :: "t_head \<Rightarrow> kstate \<Rightarrow> kstate option" where
  "pipe_wake h s =
     (case elems (tlists s) h of
        [] \<Rightarrow> Some s
      | t # _ \<Rightarrow> do {
          (_, s) \<leftarrow> rt_thread_resume t s;
          rt_schedule s
        })"

text \<open>A read up to the end, or up to the point where the thread waits; it starts over there when it is woken. The
  size is cut to 16 bits.\<close>

definition pipe_read_loop :: "nat \<Rightarrow> tid option \<Rightarrow> u32 \<Rightarrow> kstate \<Rightarrow> ((u32 \<times> u8 list, tid) outcome \<times> kstate) option" where
  "pipe_read_loop x thread sz s = do {
     (bytes, rb) \<leftarrow> rt_ringbuffer_get (ringbuffer (pipes s x)) (ucast sz);
     let s = upd_pipe x (\<lambda>r. r\<lparr>ringbuffer := rb\<rparr>) s;
     if bytes = [] then do {
       (t, s) \<leftarrow> pipe_wait (Pipe_read_wait x) thread s;
       Some (Blocked t, s)
     }
     else do {
       s \<leftarrow> pipe_wake (Pipe_write_wait x) s;
       Some (Returned (word_of_nat (length bytes), bytes), s)
     }
   }"

definition rt_pipe_read :: "nat \<Rightarrow> u32 \<Rightarrow> kstate \<Rightarrow> ((u32 \<times> u8 list, tid) outcome \<times> kstate) option" where
  "rt_pipe_read x sz s = do {
     let thread = rt_thread_self s;
     s \<leftarrow> rt_debug_not_in_interrupt s;
     pipe_read_loop x thread sz s
   }"

definition rt_pipe_read_resumed :: "nat \<Rightarrow> tid \<Rightarrow> u32 \<Rightarrow> kstate \<Rightarrow> ((u32 \<times> u8 list, tid) outcome \<times> kstate) option" where
  "rt_pipe_read_resumed x t sz s = pipe_read_loop x (Some t) sz s"

definition pipe_write_loop :: "nat \<Rightarrow> tid option \<Rightarrow> u8 list \<Rightarrow> u32 \<Rightarrow> kstate \<Rightarrow> ((u32, tid) outcome \<times> kstate) option" where
  "pipe_write_loop x thread buf sz s = do {
     (n, rb) \<leftarrow> rt_ringbuffer_put (ringbuffer (pipes s x)) buf (ucast sz);
     let s = upd_pipe x (\<lambda>r. r\<lparr>ringbuffer := rb\<rparr>) s;
     if n = 0 then do {
       (t, s) \<leftarrow> pipe_wait (Pipe_write_wait x) thread s;
       Some (Blocked t, s)
     }
     else do {
       s \<leftarrow> pipe_wake (Pipe_read_wait x) s;
       Some (Returned (ucast n), s)
     }
   }"

definition rt_pipe_write :: "nat \<Rightarrow> u8 list \<Rightarrow> u32 \<Rightarrow> kstate \<Rightarrow> ((u32, tid) outcome \<times> kstate) option" where
  "rt_pipe_write x buf sz s = do {
     let thread = rt_thread_self s;
     s \<leftarrow> rt_debug_not_in_interrupt s;
     pipe_write_loop x thread buf sz s
   }"

definition rt_pipe_write_resumed ::
  "nat \<Rightarrow> tid \<Rightarrow> u8 list \<Rightarrow> u32 \<Rightarrow> kstate \<Rightarrow> ((u32, tid) outcome \<times> kstate) option" where
  "rt_pipe_write_resumed x t buf sz s = pipe_write_loop x (Some t) buf sz s"

definition rt_pipe_control :: "nat \<Rightarrow> u8 \<Rightarrow> nat \<Rightarrow> kstate \<Rightarrow> rt_err_t \<times> kstate" where
  "rt_pipe_control x cmd args s = (RT_EOK, s)"

text \<open>The functions of devices, with those of the pipes added to those of the drivers.\<close>

definition pipe_ops :: "dev_ops \<Rightarrow> dev_ops" where
  "pipe_ops drv = drv\<lparr>
     call_read := (\<lambda>f d pos sz s. if f = Rt_pipe_read then rt_pipe_read d sz s else call_read drv f d pos sz s),
     call_write := (\<lambda>f d pos buf sz s.
       if f = Rt_pipe_write then rt_pipe_write d buf sz s else call_write drv f d pos buf sz s),
     call_control := (\<lambda>f d cmd arg s.
       if f = Rt_pipe_control then Some (rt_pipe_control d cmd arg s) else call_control drv f d cmd arg s)\<rparr>"

text \<open>The size of a pipe device with 32-bit pointers and enumerations.\<close>

definition SIZEOF_PIPE_DEVICE :: u32 where "SIZEOF_PIPE_DEVICE = 96"

definition k_calloc :: "u32 \<Rightarrow> u32 \<Rightarrow> kstate \<Rightarrow> (nat \<times> kstate) option" where
  "k_calloc count sz s = do {
     s \<leftarrow> rt_debug_not_in_interrupt s;
     (a, h) \<leftarrow> rt_calloc count sz (kheap s);
     Some (a, s\<lparr>kheap := h\<rparr>)
   }"

definition heap_read :: "nat \<Rightarrow> nat \<Rightarrow> heap \<Rightarrow> u8 list" where
  "heap_read a n h = map (\<lambda>i. heap_bytes h (a - heap_ptr h + i)) [0..<n]"

definition zero_device :: rt_device where
  "zero_device = \<lparr>dev_type = 0, dev_flag = 0, open_flag = 0, rx_indicate = None, tx_complete = None, dev_init = None,
     dev_open = None, dev_close = None, dev_read = None, dev_write = None, dev_control = None\<rparr>"

definition RT_Device_Class_Char :: nat where "RT_Device_Class_Char = 0"

definition rt_pipe_create :: "u8 list \<Rightarrow> u32 \<Rightarrow> kstate \<Rightarrow> (rt_err_t \<times> kstate) option" where
  "rt_pipe_create nm sz s = do {
     let sz = RT_ALIGN sz RT_ALIGN_SIZE;
     (a, s) \<leftarrow> k_calloc 1 SIZEOF_PIPE_DEVICE s;
     if a = 0 then Some (- RT_ENOMEM, s)
     else do {
       let s = upd_dev a (\<lambda>_. zero_device) s;
       let s = upd_obj (Device_o a) (\<lambda>r. r\<lparr>o_flag := 0\<rparr>) s;
       (m, s) \<leftarrow> k_malloc sz s;
       if m = 0 then do {
         s \<leftarrow> k_free a s;
         Some (- RT_ENOMEM, s)
       }
       else do {
         s \<leftarrow> on_tlists (l_init_head (Pipe_read_wait a)) s;
         s \<leftarrow> on_tlists (l_init_head (Pipe_write_wait a)) s;
         let s = upd_pipe a (\<lambda>_. \<lparr>ringbuffer = rt_ringbuffer_init (heap_read m (unat sz) (kheap s)) (ucast sz),
                                 buffer_addr = m\<rparr>) s;
         let s = upd_dev a (\<lambda>r. r\<lparr>dev_type := RT_Device_Class_Char, dev_init := None, dev_open := None,
                   dev_close := None, dev_read := Some Rt_pipe_read, dev_write := Some Rt_pipe_write,
                   dev_control := Some Rt_pipe_control\<rparr>) s;
         rt_device_register (Some a) nm RT_DEVICE_FLAG_RDWR s
       }
     }
   }"

definition rt_pipe_destroy :: "nat option \<Rightarrow> kstate \<Rightarrow> kstate option" where
  "rt_pipe_destroy pipe s =
     (case pipe of
        None \<Rightarrow> Some s
      | Some a \<Rightarrow> do {
          let (_, s) = rt_device_unregister a s;
          s \<leftarrow> k_free (buffer_addr (pipes s a)) s;
          k_free a s
        })"

subsection \<open>The operations keep the invariant\<close>

text \<open>The wait is that of the IPC objects, in order of arrival and without a time limit.\<close>

lemma pipe_wait_Some:
  "pipe_wait h thread s = Some (t, s') \<longleftrightarrow>
     thread = Some t \<and> (\<exists>s1. ipc_wait h t RT_IPC_FLAG_FIFO (-1) s = Some s1 \<and> rt_schedule s1 = Some s')"
proof (cases thread)
  case (Some u)
  have "pipe_wait h thread s =
      Option.bind (ipc_wait h u RT_IPC_FLAG_FIFO (-1) s) (\<lambda>s. Option.bind (rt_schedule s) (\<lambda>s. Some (u, s)))"
    using suspend_last_fifo [of u s h "\<lambda>s. Option.bind (rt_schedule s) (\<lambda>s. Some (u, s))"]
    by (cases "rt_ipc_list_suspend h u RT_IPC_FLAG_FIFO s")
      (auto simp: pipe_wait_def Some ipc_wait_def ipc_start_timer_def Let_def)
  then show ?thesis by (auto simp: Some bind_eq_Some_conv)
qed (simp add: pipe_wait_def)

lemma kinv_pipe_wait:
  assumes op: "pipe_wait h thread s = Some (t, s')" and inv: "kinv s" and me: "waiter_ready thread s" and h: "is_wait h"
  shows "kinv s'"
proof -
  from op obtain s1 where w: "thread = Some t" "ipc_wait h t RT_IPC_FLAG_FIFO (-1) s = Some s1" "rt_schedule s1 = Some s'"
    by (auto simp: pipe_wait_Some)
  have "kinv s1" using kinv_wait [OF w(2) inv _ h] me w(1) by (simp add: waiter_ready_def)
  then show ?thesis by (rule kinv_schedule [OF w(3)])
qed

lemma kinv_pipe_wake: "pipe_wake h s = Some s' \<Longrightarrow> kinv s \<Longrightarrow> kinv s'"
  by (auto simp: pipe_wake_def bind_eq_Some_conv split: list.splits intro: kinv_schedule kinv_resume)

lemma pipe_read_cases:
  assumes op: "pipe_read_loop x thread sz s = Some (out, s')"
  obtains (wait) rb t where "rt_ringbuffer_get (ringbuffer (pipes s x)) (ucast sz) = Some ([], rb)" "out = Blocked t"
      "pipe_wait (Pipe_read_wait x) thread (upd_pipe x (\<lambda>r. r\<lparr>ringbuffer := rb\<rparr>) s) = Some (t, s')"
  | (got) bytes rb where "rt_ringbuffer_get (ringbuffer (pipes s x)) (ucast sz) = Some (bytes, rb)" "bytes \<noteq> []"
      "out = Returned (word_of_nat (length bytes), bytes)"
      "pipe_wake (Pipe_write_wait x) (upd_pipe x (\<lambda>r. r\<lparr>ringbuffer := rb\<rparr>) s) = Some s'"
proof -
  from op obtain bytes rb where g: "rt_ringbuffer_get (ringbuffer (pipes s x)) (ucast sz) = Some (bytes, rb)"
    by (auto simp: pipe_read_loop_def bind_eq_Some_conv)
  show ?thesis
  proof (cases "bytes = []")
    case True
    with op g obtain t where "out = Blocked t"
      "pipe_wait (Pipe_read_wait x) thread (upd_pipe x (\<lambda>r. r\<lparr>ringbuffer := rb\<rparr>) s) = Some (t, s')"
      by (auto simp: pipe_read_loop_def bind_eq_Some_conv Let_def)
    then show ?thesis using that(1) g True by blast
  next
    case False
    with op g show ?thesis by (intro that(2)) (auto simp: pipe_read_loop_def bind_eq_Some_conv Let_def)
  qed
qed

lemma pipe_write_cases:
  assumes op: "pipe_write_loop x thread buf sz s = Some (out, s')"
  obtains (wait) rb t where "rt_ringbuffer_put (ringbuffer (pipes s x)) buf (ucast sz) = Some (0, rb)" "out = Blocked t"
      "pipe_wait (Pipe_write_wait x) thread (upd_pipe x (\<lambda>r. r\<lparr>ringbuffer := rb\<rparr>) s) = Some (t, s')"
  | (put) n rb where "rt_ringbuffer_put (ringbuffer (pipes s x)) buf (ucast sz) = Some (n, rb)" "n \<noteq> 0"
      "out = Returned (ucast n)" "pipe_wake (Pipe_read_wait x) (upd_pipe x (\<lambda>r. r\<lparr>ringbuffer := rb\<rparr>) s) = Some s'"
proof -
  from op obtain n rb where g: "rt_ringbuffer_put (ringbuffer (pipes s x)) buf (ucast sz) = Some (n, rb)"
    by (auto simp: pipe_write_loop_def bind_eq_Some_conv)
  show ?thesis
  proof (cases "n = 0")
    case True
    with op g obtain t where "out = Blocked t"
      "pipe_wait (Pipe_write_wait x) thread (upd_pipe x (\<lambda>r. r\<lparr>ringbuffer := rb\<rparr>) s) = Some (t, s')"
      by (auto simp: pipe_write_loop_def bind_eq_Some_conv Let_def)
    then show ?thesis using that(1) g True by blast
  next
    case False
    with op g show ?thesis by (intro that(2)) (auto simp: pipe_write_loop_def bind_eq_Some_conv Let_def)
  qed
qed

lemma kinv_pipe_read_loop:
  assumes op: "pipe_read_loop x thread sz s = Some (out, s')" and inv: "kinv s" and me: "waiter_ready thread s"
  shows "kinv s'"
  using op
proof (cases rule: pipe_read_cases)
  case (wait rb t)
  then show ?thesis using inv me by (intro kinv_pipe_wait [OF wait(3)]) (simp_all add: waiter_ready_def)
next
  case (got bytes rb)
  then show ?thesis using inv by (intro kinv_pipe_wake [OF got(4)]) simp
qed

lemma kinv_pipe_write_loop:
  assumes op: "pipe_write_loop x thread buf sz s = Some (out, s')" and inv: "kinv s" and me: "waiter_ready thread s"
  shows "kinv s'"
  using op
proof (cases rule: pipe_write_cases)
  case (wait rb t)
  then show ?thesis using inv me by (intro kinv_pipe_wait [OF wait(3)]) (simp_all add: waiter_ready_def)
next
  case (put n rb)
  then show ?thesis using inv by (intro kinv_pipe_wake [OF put(4)]) simp
qed

lemma kinv_pipe_read: "rt_pipe_read x sz s = Some (out, s') \<Longrightarrow> kinv s \<Longrightarrow> self_ready s \<Longrightarrow> kinv s'"
  by (auto simp: rt_pipe_read_def rt_debug_not_in_interrupt_def bind_eq_Some_conv intro: kinv_pipe_read_loop self_waiter)

lemma kinv_pipe_write: "rt_pipe_write x buf sz s = Some (out, s') \<Longrightarrow> kinv s \<Longrightarrow> self_ready s \<Longrightarrow> kinv s'"
  by (auto simp: rt_pipe_write_def rt_debug_not_in_interrupt_def bind_eq_Some_conv intro: kinv_pipe_write_loop self_waiter)

lemma kinv_pipe_read_resumed:
  "rt_pipe_read_resumed x t sz s = Some (out, s') \<Longrightarrow> kinv s \<Longrightarrow> stat (threads s t) = RT_THREAD_READY \<Longrightarrow> kinv s'"
  unfolding rt_pipe_read_resumed_def by (erule kinv_pipe_read_loop) (auto simp: waiter_ready_def)

lemma kinv_pipe_write_resumed:
  "rt_pipe_write_resumed x t buf sz s = Some (out, s') \<Longrightarrow> kinv s \<Longrightarrow> stat (threads s t) = RT_THREAD_READY \<Longrightarrow> kinv s'"
  unfolding rt_pipe_write_resumed_def by (erule kinv_pipe_write_loop) (auto simp: waiter_ready_def)

lemma kinv_pipe_create: "rt_pipe_create nm sz s = Some (r, s') \<Longrightarrow> kinv s \<Longrightarrow> kinv s'"
  by (auto simp: rt_pipe_create_def k_calloc_def rt_debug_not_in_interrupt_def bind_eq_Some_conv l_init_head_def
      Let_def split: if_splits intro!: kinv_objs dest!: kinv_heap kinv_device_register)

lemma kinv_pipe_destroy: "rt_pipe_destroy p s = Some s' \<Longrightarrow> kinv s \<Longrightarrow> kinv s'"
  by (auto simp: rt_pipe_destroy_def rt_device_unregister_def bind_eq_Some_conv split: option.splits
      intro!: kinv_heap(2) kinv_object_detach elim!: kinv_heap(2))

text \<open>The functions of the pipes are those of a driver. A system whose devices are all pipes has no other functions.\<close>

context device_driver
begin

lemma pipe_driver: "device_driver (pipe_ops ops)"
  by unfold_locales
    (auto simp: pipe_ops_def rt_pipe_control_def split: if_splits
      intro: init_kinv open_kinv close_kinv read_kinv write_kinv control_kinv kinv_pipe_read kinv_pipe_write)

end

definition no_driver :: dev_ops where
  "no_driver = \<lparr>call_init = (\<lambda>_ _ _. None), call_open = (\<lambda>_ _ _ _. None), call_close = (\<lambda>_ _ _. None),
     call_read = (\<lambda>_ _ _ _ _. None), call_write = (\<lambda>_ _ _ _ _ _. None), call_control = (\<lambda>_ _ _ _ _. None)\<rparr>"

interpretation pipe_dev: device_driver "pipe_ops no_driver"
  by (rule device_driver.pipe_driver, unfold_locales) (simp_all add: no_driver_def)

subsection \<open>What a read and a write do\<close>

lemma pipe_wait_data:
  assumes op: "pipe_wait h thread s = Some (t, s')" and inv: "kinv s" and me: "waiter_ready thread s" and h: "is_wait h"
  shows "pipes s' = pipes s \<and> thread = Some t"
proof -
  from op obtain s1 where w: "thread = Some t" "ipc_wait h t RT_IPC_FLAG_FIFO (-1) s = Some s1" "rt_schedule s1 = Some s'"
    by (auto simp: pipe_wait_Some)
  have "ipc_data s1 = ipc_data s" using wait_data [OF w(2) inv _ h] me w(1) by (simp add: waiter_ready_def)
  with schedule_data [OF w(3)] have "pipes s' = pipes s" by (simp add: ipc_data_def)
  with w(1) show ?thesis by simp
qed

lemma pipe_wake_data: "pipe_wake h s = Some s' \<Longrightarrow> pipes s' = pipes s"
  by (auto simp: pipe_wake_def bind_eq_Some_conv split: list.splits
      dest!: ipc_dataD(10) [OF resume_data] ipc_dataD(10) [OF schedule_data])

definition pipe_items :: "kstate \<Rightarrow> nat \<Rightarrow> u8 list" where
  "pipe_items s x = rb_items (ringbuffer (pipes s x))"

text \<open>A read waits when the pipe is empty, or when the low 16 bits of its size are zero; else it takes the first bytes.\<close>

lemma pipe_read_items:
  assumes op: "pipe_read_loop x thread sz s = Some (out, s')" and inv: "kinv s" and me: "waiter_ready thread s"
    and ok: "rb_ring (ringbuffer (pipes s x))" and step: "rb_in_step (ringbuffer (pipes s x))"
  defines "n \<equiv> min (unat (ucast sz :: u16)) (length (pipe_items s x))"
  shows "rb_ring (ringbuffer (pipes s' x)) \<and> pipe_items s' x = drop n (pipe_items s x) \<and>
    (if n = 0 then \<exists>t. out = Blocked t \<and> thread = Some t else out = Returned (word_of_nat n, take n (pipe_items s x)))"
proof -
  from rb_get [OF ok disjI1 [OF step], of "ucast sz"] obtain rb where
    rb: "rt_ringbuffer_get (ringbuffer (pipes s x)) (ucast sz) = Some (take n (pipe_items s x), rb)" "rb_ring rb"
      "rb_items rb = drop n (pipe_items s x)"
    by (auto simp: n_def pipe_items_def)
  have len: "length (take n (pipe_items s x)) = n" by (simp add: n_def)
  show ?thesis
    using op
  proof (cases rule: pipe_read_cases)
    case (wait rb' t)
    have p: "pipes s' x = (pipes s x)\<lparr>ringbuffer := rb'\<rparr>" "thread = Some t"
      using pipe_wait_data [OF wait(3)] inv me by (simp_all add: waiter_ready_def)
    have "take n (pipe_items s x) = []" using wait(1) rb(1) by simp
    then have "n = 0" using len by (metis list.size(3))
    moreover have "rb' = rb" using wait(1) rb(1) by simp
    ultimately show ?thesis using rb(2,3) p wait(2) by (simp add: pipe_items_def)
  next
    case (got bytes rb')
    have "bytes = take n (pipe_items s x)" "rb' = rb" using got(1) rb(1) by simp_all
    moreover have "n \<noteq> 0" using got(1,2) rb(1) by (cases n) auto
    moreover have "pipes s' x = (pipes s x)\<lparr>ringbuffer := rb'\<rparr>" using pipe_wake_data [OF got(4)] by simp
    ultimately show ?thesis using rb(2,3) got(3) len by (simp add: pipe_items_def)
  qed
qed

lemma pipe_write_items:
  assumes op: "pipe_write_loop x thread buf sz s = Some (out, s')" and inv: "kinv s" and me: "waiter_ready thread s"
    and ok: "rb_ring (ringbuffer (pipes s x))" and buf: "unat (ucast sz :: u16) \<le> length buf"
  defines "n \<equiv> min (unat (ucast sz :: u16)) (unat (buffer_size (ringbuffer (pipes s x))) - length (pipe_items s x))"
  shows "rb_ring (ringbuffer (pipes s' x)) \<and> pipe_items s' x = pipe_items s x @ take n buf \<and>
    (if n = 0 then \<exists>t. out = Blocked t \<and> thread = Some t else out = Returned (word_of_nat n))"
proof -
  from rb_put [OF ok buf] obtain m rb where
    rb: "rt_ringbuffer_put (ringbuffer (pipes s x)) buf (ucast sz) = Some (m, rb)" "unat m = n" "rb_ring rb"
      "rb_items rb = pipe_items s x @ take n buf"
    by (auto simp: n_def pipe_items_def)
  show ?thesis
    using op
  proof (cases rule: pipe_write_cases)
    case (wait rb' t)
    have p: "pipes s' x = (pipes s x)\<lparr>ringbuffer := rb'\<rparr>" "thread = Some t"
      using pipe_wait_data [OF wait(3)] inv me by (simp_all add: waiter_ready_def)
    have "n = 0" "rb' = rb" using wait(1) rb(1,2) by auto
    then show ?thesis using rb(3,4) p wait(2) by (simp add: pipe_items_def)
  next
    case (put k rb')
    have k: "k = m" "rb' = rb" using put(1) rb(1) by simp_all
    have "n \<noteq> 0" using put(2) k rb(2) by (metis unat_eq_zero)
    moreover have "(ucast k :: u32) = word_of_nat n" using k by (simp flip: rb(2))
    moreover have "pipes s' x = (pipes s x)\<lparr>ringbuffer := rb'\<rparr>" using pipe_wake_data [OF put(4)] by simp
    ultimately show ?thesis using rb(3,4) put(3) k by (simp add: pipe_items_def)
  qed
qed

text \<open>A pipe has no function to initialise it, and is never marked active: no one can open it as a device.\<close>

lemma pipe_never_opens:
  assumes op: "rt_pipe_create nm sz s = Some (RT_EOK, s')"
  shows "\<exists>d. elems (obj_lists s') RT_Object_Class_Device = Device_o d # elems (obj_lists s) RT_Object_Class_Device \<and>
    dev_read (devices s' d) = Some Rt_pipe_read \<and> rt_device_open ops d oflag s' = None"
  using op
  by (auto simp: rt_pipe_create_def k_calloc_def k_malloc_def k_free_def rt_debug_not_in_interrupt_def bind_eq_Some_conv
      l_init_head_def Let_def rt_device_register_def rt_object_init_Some rt_device_open_def
      RT_DEVICE_FLAG_RDWR_def RT_DEVICE_FLAG_ACTIVATED_def RT_EOK_def RT_ENOMEM_def split: if_splits)

end
