(* ===== verification/System.thy ===== *)
theory System
  imports Timer_Callbacks Data_Queue Pipe
begin

text \<open>
  The kernel as a whole: the calls a running thread can make, the second parts of the waiting
  calls, the sections of the calls that close or resume a thread, the tick interrupt and the work of the thread of the soft timers, as the steps of one
  transition relation, and the invariant of all states it reaches.
\<close>

subsection \<open>Calls\<close>

text \<open>The calls of each component with their arguments, and what they do.\<close>

datatype thread_call =
    Sys_thread_startup tid | Sys_thread_delete tid | Sys_thread_detach tid
   | Sys_thread_create "u8 list" nat nat u32 u8 u32 | Sys_thread_yield | Sys_thread_delay u32
   | Sys_thread_exit | Sys_thread_suspend tid | Sys_thread_resume tid
   | Sys_thread_control tid u8 u8 | Sys_thread_find "u8 list" | Sys_enter_critical
   | Sys_exit_critical

primrec thread_exec :: "thread_call \<Rightarrow> kstate \<Rightarrow> kstate option" where
  "thread_exec (Sys_thread_startup t) s = map_option snd (rt_thread_startup t s)"
| "thread_exec (Sys_thread_delete t) s = map_option snd (rt_thread_delete t s)"
| "thread_exec (Sys_thread_detach t) s = map_option snd (rt_thread_detach t s)"
| "thread_exec (Sys_thread_create nm ent param sz pr tick) s = map_option snd (rt_thread_create nm ent param sz pr tick s)"
| "thread_exec Sys_thread_yield s = map_option snd (rt_thread_yield s)"
| "thread_exec (Sys_thread_delay tick) s = rt_thread_delay tick s"
| "thread_exec Sys_thread_exit s = rt_thread_exit s"
| "thread_exec (Sys_thread_suspend t) s = map_option snd (rt_thread_suspend t s)"
| "thread_exec (Sys_thread_resume t) s = map_option snd (rt_thread_resume t s)"
| "thread_exec (Sys_thread_control t cmd arg) s = map_option snd (rt_thread_control t cmd arg s)"
| "thread_exec (Sys_thread_find nm) s = map_option snd (rt_thread_find nm s)"
| "thread_exec Sys_enter_critical s = Some (rt_enter_critical s)"
| "thread_exec Sys_exit_critical s = rt_exit_critical s"

datatype timer_call =
    Sys_timer_init tmr "u8 list" tm_func nat u32 u8 | Sys_timer_detach tmr
   | Sys_timer_create "u8 list" tm_func nat u32 u8 | Sys_timer_delete tmr | Sys_timer_start tmr
   | Sys_timer_stop tmr | Sys_timer_control tmr u8 u32

primrec timer_exec :: "timer_call \<Rightarrow> kstate \<Rightarrow> kstate option" where
  "timer_exec (Sys_timer_init x nm f p time flag) s = rt_timer_init x nm f p time flag s"
| "timer_exec (Sys_timer_detach x) s = Some (snd (rt_timer_detach x s))"
| "timer_exec (Sys_timer_create nm f p time flag) s = map_option snd (rt_timer_create nm f p time flag s)"
| "timer_exec (Sys_timer_delete x) s = map_option snd (rt_timer_delete x s)"
| "timer_exec (Sys_timer_start x) s = map_option snd (rt_timer_start x s)"
| "timer_exec (Sys_timer_stop x) s = Some (snd (rt_timer_stop x s))"
| "timer_exec (Sys_timer_control x cmd arg) s = Some (snd (snd (rt_timer_control x cmd arg s)))"

datatype sem_call =
    Sys_sem_init nat "u8 list" u32 u8 | Sys_sem_detach nat | Sys_sem_create "u8 list" u32 u8
   | Sys_sem_delete nat | Sys_sem_take nat u32 | Sys_sem_release nat
   | Sys_sem_control nat u8 u32

primrec sem_exec :: "sem_call \<Rightarrow> kstate \<Rightarrow> kstate option" where
  "sem_exec (Sys_sem_init x nm v flag) s = map_option snd (rt_sem_init x nm v flag s)"
| "sem_exec (Sys_sem_detach x) s = map_option snd (rt_sem_detach x s)"
| "sem_exec (Sys_sem_create nm v flag) s = map_option snd (rt_sem_create nm v flag s)"
| "sem_exec (Sys_sem_delete x) s = map_option snd (rt_sem_delete x s)"
| "sem_exec (Sys_sem_take x time) s = map_option snd (rt_sem_take x time s)"
| "sem_exec (Sys_sem_release x) s = map_option snd (rt_sem_release x s)"
| "sem_exec (Sys_sem_control x cmd arg) s = map_option snd (rt_sem_control x cmd arg s)"

datatype mutex_call =
    Sys_mutex_init nat "u8 list" u8 | Sys_mutex_detach nat | Sys_mutex_create "u8 list" u8
   | Sys_mutex_delete nat | Sys_mutex_take nat u32 | Sys_mutex_release nat

primrec mutex_exec :: "mutex_call \<Rightarrow> kstate \<Rightarrow> kstate option" where
  "mutex_exec (Sys_mutex_init x nm flag) s = map_option snd (rt_mutex_init x nm flag s)"
| "mutex_exec (Sys_mutex_detach x) s = map_option snd (rt_mutex_detach x s)"
| "mutex_exec (Sys_mutex_create nm flag) s = map_option snd (rt_mutex_create nm flag s)"
| "mutex_exec (Sys_mutex_delete x) s = map_option snd (rt_mutex_delete x s)"
| "mutex_exec (Sys_mutex_take x time) s = map_option snd (rt_mutex_take x time s)"
| "mutex_exec (Sys_mutex_release x) s = map_option snd (rt_mutex_release x s)"

datatype event_call =
    Sys_event_init nat "u8 list" u8 | Sys_event_detach nat | Sys_event_create "u8 list" u8
   | Sys_event_delete nat | Sys_event_send nat u32 | Sys_event_recv nat u32 u8 u32
   | Sys_event_control nat u8 u32

primrec event_exec :: "event_call \<Rightarrow> kstate \<Rightarrow> kstate option" where
  "event_exec (Sys_event_init x nm flag) s = map_option snd (rt_event_init x nm flag s)"
| "event_exec (Sys_event_detach x) s = map_option snd (rt_event_detach x s)"
| "event_exec (Sys_event_create nm flag) s = map_option snd (rt_event_create nm flag s)"
| "event_exec (Sys_event_delete x) s = map_option snd (rt_event_delete x s)"
| "event_exec (Sys_event_send x flags) s = map_option snd (rt_event_send x flags s)"
| "event_exec (Sys_event_recv x wanted opt time) s = map_option snd (rt_event_recv x wanted opt time s)"
| "event_exec (Sys_event_control x cmd arg) s = map_option snd (rt_event_control x cmd arg s)"

datatype mb_call =
    Sys_mb_init nat "u8 list" nat u32 u8 | Sys_mb_detach nat | Sys_mb_create "u8 list" u32 u8
   | Sys_mb_delete nat | Sys_mb_send_wait nat u32 u32 | Sys_mb_recv nat u32
   | Sys_mb_control nat u8 | Sys_mb_send_resumed nat u32 wait_cont
   | Sys_mb_recv_resumed nat wait_cont

primrec mb_exec :: "mb_call \<Rightarrow> kstate \<Rightarrow> kstate option" where
  "mb_exec (Sys_mb_init x nm pool sz flag) s = map_option snd (rt_mb_init x nm pool sz flag s)"
| "mb_exec (Sys_mb_detach x) s = map_option snd (rt_mb_detach x s)"
| "mb_exec (Sys_mb_create nm sz flag) s = map_option snd (rt_mb_create nm sz flag s)"
| "mb_exec (Sys_mb_delete x) s = map_option snd (rt_mb_delete x s)"
| "mb_exec (Sys_mb_send_wait x v time) s = map_option snd (rt_mb_send_wait x v time s)"
| "mb_exec (Sys_mb_recv x time) s = map_option snd (rt_mb_recv x time s)"
| "mb_exec (Sys_mb_control x cmd) s = map_option snd (rt_mb_control x cmd s)"
| "mb_exec (Sys_mb_send_resumed x v k) s = map_option snd (rt_mb_send_wait_resumed x v k s)"
| "mb_exec (Sys_mb_recv_resumed x k) s = map_option snd (rt_mb_recv_resumed x k s)"

datatype mq_call =
    Sys_mq_init nat "u8 list" nat u32 u32 u8 | Sys_mq_detach nat | Sys_mq_create "u8 list" u32 u32 u8
   | Sys_mq_delete nat | Sys_mq_send_begin bool nat "u8 list" | Sys_mq_send_end bool nat nat
   | Sys_mq_recv nat u32 u32 | Sys_mq_recv_resumed nat wait_cont | Sys_mq_recv_end nat u32 nat
   | Sys_mq_control nat u8

primrec mq_exec :: "mq_call \<Rightarrow> kstate \<Rightarrow> kstate option" where
  "mq_exec (Sys_mq_init x nm pool msz psz flag) s = map_option snd (rt_mq_init x nm pool msz psz flag s)"
| "mq_exec (Sys_mq_detach x) s = map_option snd (rt_mq_detach x s)"
| "mq_exec (Sys_mq_create nm msz mx flag) s = map_option snd (rt_mq_create nm msz mx flag s)"
| "mq_exec (Sys_mq_delete x) s = map_option snd (rt_mq_delete x s)"
| "mq_exec (Sys_mq_send_begin urgent x buf) s = map_option snd (mq_send_begin urgent x buf s)"
| "mq_exec (Sys_mq_send_end urgent x msg) s = map_option snd (mq_send_end urgent x msg s)"
| "mq_exec (Sys_mq_recv x n time) s = map_option snd (rt_mq_recv x n time s)"
| "mq_exec (Sys_mq_recv_resumed x k) s = map_option snd (rt_mq_recv_resumed x k s)"
| "mq_exec (Sys_mq_recv_end x n msg) s = Some (snd (rt_mq_recv_end x n msg s))"
| "mq_exec (Sys_mq_control x cmd) s = map_option snd (rt_mq_control x cmd s)"

datatype mp_call =
    Sys_mp_init nat "u8 list" nat u32 u32 | Sys_mp_detach nat | Sys_mp_create "u8 list" u32 u32
   | Sys_mp_delete nat | Sys_mp_alloc nat u32 | Sys_mp_alloc_resumed nat tid | Sys_mp_free nat

primrec mp_exec :: "mp_call \<Rightarrow> kstate \<Rightarrow> kstate option" where
  "mp_exec (Sys_mp_init x nm start sz bsz) s = map_option snd (rt_mp_init x nm start sz bsz s)"
| "mp_exec (Sys_mp_detach x) s = map_option snd (rt_mp_detach x s)"
| "mp_exec (Sys_mp_create nm count bsz) s = map_option snd (rt_mp_create nm count bsz s)"
| "mp_exec (Sys_mp_delete x) s = map_option snd (rt_mp_delete x s)"
| "mp_exec (Sys_mp_alloc x time) s = map_option snd (rt_mp_alloc x time s)"
| "mp_exec (Sys_mp_alloc_resumed x t) s = map_option snd (rt_mp_alloc_resumed x t s)"
| "mp_exec (Sys_mp_free a) s = rt_mp_free a s"

datatype mem_call =
    Sys_malloc u32 | Sys_free nat

primrec mem_exec :: "mem_call \<Rightarrow> kstate \<Rightarrow> kstate option" where
  "mem_exec (Sys_malloc n) s = map_option snd (k_malloc n s)"
| "mem_exec (Sys_free a) s = k_free a s"

datatype sys_call =
    Thread_call thread_call | Timer_call timer_call | Sem_call sem_call | Mutex_call mutex_call
  | Event_call event_call | Mb_call mb_call | Mq_call mq_call | Mp_call mp_call
  | Mem_call mem_call

primrec sys_exec :: "sys_call \<Rightarrow> kstate \<Rightarrow> kstate option" where
  "sys_exec (Thread_call c) s = thread_exec c s"
| "sys_exec (Timer_call c) s = timer_exec c s"
| "sys_exec (Sem_call c) s = sem_exec c s"
| "sys_exec (Mutex_call c) s = mutex_exec c s"
| "sys_exec (Event_call c) s = event_exec c s"
| "sys_exec (Mb_call c) s = mb_exec c s"
| "sys_exec (Mq_call c) s = mq_exec c s"
| "sys_exec (Mp_call c) s = mp_exec c s"
| "sys_exec (Mem_call c) s = mem_exec c s"

text \<open>What a call asks of its caller. A thread is closed only once it has been started; the
  priority of a waiting thread is not checked, so the caller has to; the second part of a call
  is run by the thread that made it.\<close>

definition may_close :: "tid \<Rightarrow> kstate \<Rightarrow> bool" where
  "may_close t s \<longleftrightarrow> stat (threads s t) = RT_THREAD_READY \<or> stat (threads s t) = RT_THREAD_SUSPEND"

definition thread_call_ok :: "thread_call \<Rightarrow> kstate \<Rightarrow> bool" where
  "thread_call_ok c s =
     (case c of
        Sys_thread_delete t \<Rightarrow> may_close t s
      | Sys_thread_detach t \<Rightarrow> may_close t s
      | Sys_thread_exit \<Rightarrow> rt_current_thread s \<noteq> None
      | Sys_thread_control t cmd arg \<Rightarrow>
          (cmd = RT_THREAD_CTRL_CHANGE_PRIORITY \<longrightarrow> unat arg < RT_THREAD_PRIORITY_MAX) \<and>
          (cmd = RT_THREAD_CTRL_CLOSE \<longrightarrow> may_close t s)
      | _ \<Rightarrow> True)"

definition mb_call_ok :: "mb_call \<Rightarrow> kstate \<Rightarrow> bool" where
  "mb_call_ok c s =
     (case c of
        Sys_mb_send_resumed x v k \<Rightarrow> rt_current_thread s = Some (fst k)
      | Sys_mb_recv_resumed x k \<Rightarrow> rt_current_thread s = Some (fst k)
      | _ \<Rightarrow> True)"

definition mq_call_ok :: "mq_call \<Rightarrow> kstate \<Rightarrow> bool" where
  "mq_call_ok c s =
     (case c of Sys_mq_recv_resumed x k \<Rightarrow> rt_current_thread s = Some (fst k) | _ \<Rightarrow> True)"

definition mp_call_ok :: "mp_call \<Rightarrow> kstate \<Rightarrow> bool" where
  "mp_call_ok c s =
     (case c of Sys_mp_alloc_resumed x t \<Rightarrow> rt_current_thread s = Some t | _ \<Rightarrow> True)"

definition call_ok :: "sys_call \<Rightarrow> kstate \<Rightarrow> bool" where
  "call_ok c s =
     (case c of Thread_call d \<Rightarrow> thread_call_ok d s | Mb_call d \<Rightarrow> mb_call_ok d s
      | Mq_call d \<Rightarrow> mq_call_ok d s | Mp_call d \<Rightarrow> mp_call_ok d s | _ \<Rightarrow> True)"

lemma kinv_mb_resumed:
  assumes cur: "rt_current_thread s = Some (fst k)" and me: "self_ready s" and inv: "kinv s"
  shows "rt_mb_send_wait_resumed x v k s = Some (out, s') \<Longrightarrow> kinv s'"
    and "rt_mb_recv_resumed x k s = Some (out', s') \<Longrightarrow> kinv s'"
proof -
  have st: "stat (threads s (fst k)) = RT_THREAD_READY" using cur me by (simp add: self_ready_def)
  show "rt_mb_send_wait_resumed x v k s = Some (out, s') \<Longrightarrow> kinv s'"
    using kinv_mb_send_resumed [of x v "fst k" "snd k"] inv st by simp
  show "rt_mb_recv_resumed x k s = Some (out', s') \<Longrightarrow> kinv s'"
    using kinv_mb_recv_resumed [of x "fst k" "snd k"] inv st by simp
qed

lemma kinv_thread_exec:
  assumes op: "thread_exec c s = Some s'" and inv: "kinv s" and me: "self_ready s" and ok: "thread_call_ok c s"
  shows "kinv s'"
proof (cases c)
  case (Sys_thread_delete t)
  then show ?thesis using op ok kinv_delete [OF _ inv] by (auto simp: thread_call_ok_def may_close_def)
next
  case (Sys_thread_detach t)
  then show ?thesis using op ok kinv_detach [OF _ inv] by (auto simp: thread_call_ok_def may_close_def)
next
  case Sys_thread_exit
  then show ?thesis using op ok me kinv_exit [OF _ inv] by (auto simp: thread_call_ok_def self_ready_def)
next
  case (Sys_thread_control t cmd arg)
  then show ?thesis using op ok kinv_control [OF _ inv, of t cmd arg] by (auto simp: thread_call_ok_def may_close_def)
next
  case (Sys_thread_delay tick)
  then show ?thesis using op inv kinv_sleep by (auto simp: rt_thread_delay_def)
next
  case Sys_enter_critical
  then show ?thesis using op inv kinv_enter_critical by auto
qed (use op inv in \<open>auto intro: kinv_startup kinv_thread_create kinv_yield kinv_suspend kinv_resume kinv_find
      kinv_exit_critical\<close>)

lemma kinv_timer_exec: "timer_exec c s = Some s' \<Longrightarrow> kinv s \<Longrightarrow> kinv s'"
  using kinv_timer_detach [of s] kinv_timer_stop [of s] kinv_timer_control [of s]
  by (cases c) (auto intro: kinv_timer_init kinv_timer_create kinv_timer_delete kinv_timer_start)

lemma kinv_sem_exec: "sem_exec c s = Some s' \<Longrightarrow> kinv s \<Longrightarrow> self_ready s \<Longrightarrow> kinv s'"
  by (cases c) (auto intro: kinv_sem_init kinv_sem_detach kinv_sem_create kinv_sem_delete kinv_sem_take
      kinv_sem_release kinv_sem_control)

lemma kinv_mutex_exec: "mutex_exec c s = Some s' \<Longrightarrow> kinv s \<Longrightarrow> self_ready s \<Longrightarrow> kinv s'"
  by (cases c) (auto intro: kinv_mutex_init kinv_mutex_detach kinv_mutex_create kinv_mutex_delete kinv_mutex_take
      kinv_mutex_release)

lemma kinv_event_exec: "event_exec c s = Some s' \<Longrightarrow> kinv s \<Longrightarrow> self_ready s \<Longrightarrow> kinv s'"
  by (cases c) (auto intro: kinv_event_init kinv_event_detach kinv_event_create kinv_event_delete kinv_event_send
      kinv_event_recv kinv_event_control)

lemma kinv_mb_exec:
  assumes op: "mb_exec c s = Some s'" and inv: "kinv s" and me: "self_ready s" and ok: "mb_call_ok c s"
  shows "kinv s'"
proof (cases c)
  case (Sys_mb_send_resumed x v k)
  then show ?thesis using op ok kinv_mb_resumed(1) [OF _ me inv, of k] by (auto simp: mb_call_ok_def)
next
  case (Sys_mb_recv_resumed x k)
  then show ?thesis using op ok kinv_mb_resumed(2) [OF _ me inv, of k] by (auto simp: mb_call_ok_def)
qed (use op inv me in \<open>auto intro: kinv_mb_init kinv_mb_detach kinv_mb_create kinv_mb_delete kinv_mb_send_wait
      kinv_mb_recv kinv_mb_control\<close>)

lemma kinv_mq_exec:
  assumes op: "mq_exec c s = Some s'" and inv: "kinv s" and me: "self_ready s" and ok: "mq_call_ok c s"
  shows "kinv s'"
proof (cases c)
  case (Sys_mq_recv_resumed x k)
  obtain t k' where "k = (t, k')" by (rule prod.exhaust)
  then show ?thesis using op ok me inv Sys_mq_recv_resumed kinv_mq_recv_resumed [of x t k' s]
    by (auto simp: mq_call_ok_def self_ready_def)
next
  case (Sys_mq_recv_end x n msg)
  then show ?thesis using op kinv_mq_recv_end [OF inv] by auto
qed (use op inv me in \<open>auto intro: kinv_mq_init kinv_mq_detach kinv_mq_create kinv_mq_delete kinv_mq_send_begin
      kinv_mq_send_end kinv_mq_recv kinv_mq_control\<close>)

lemma kinv_mp_exec: "mp_exec c s = Some s' \<Longrightarrow> kinv s \<Longrightarrow> self_ready s \<Longrightarrow> kinv s'"
  by (cases c) (auto intro: kinv_mp_init kinv_mp_detach kinv_mp_create kinv_mp_delete kinv_mp_alloc
      kinv_mp_alloc_resumed kinv_mp_free)

lemma kinv_exec:
  assumes "sys_exec c s = Some s'" "kinv s" "self_ready s" "call_ok c s"
  shows "kinv s'"
proof (cases c)
  case (Thread_call d)
  then show ?thesis using assms kinv_thread_exec by (simp add: call_ok_def)
next
  case (Mb_call d)
  then show ?thesis using assms kinv_mb_exec by (simp add: call_ok_def)
next
  case (Mq_call d)
  then show ?thesis using assms kinv_mq_exec by (simp add: call_ok_def)
next
  case (Mem_call d)
  then show ?thesis using assms by (cases d) (auto intro: kinv_heap)
qed (use assms kinv_timer_exec kinv_sem_exec kinv_mutex_exec kinv_event_exec kinv_mp_exec in auto)

subsection \<open>Calls of drivers\<close>

text \<open>The function that a data queue notifies is one of the table too. Its argument tells the queue and the event.\<close>

definition isr_notify :: "(nat \<Rightarrow> nat \<Rightarrow> isr_op) \<Rightarrow> notify" where
  "isr_notify tab f x e s = isr_exec (tab f (4 * x + unat e)) s"

lemmas resume_dq = ipc_dataD(9) [OF schedule_data] ipc_dataD(9) [OF resume_data] ipc_dataD(9) [OF list_resume_data]

lemma event_loop_dq: "event_send_loop x ts b s = Some (b', s') \<Longrightarrow> data_queues s' = data_queues s"
  by (induction ts arbitrary: b s)
    (auto simp: event_send_loop_Cons event_wake_def bind_eq_Some_conv Let_def simp del: event_send_loop.simps(2)
      split: if_splits dest!: resume_dq)

lemma mb_send_dq:
  assumes "rt_mb_send x v s = Some (out, s')"
  shows "data_queues s' = data_queues s"
proof (cases "mb_full (mailboxes s x)")
  case True
  then show ?thesis using assms by (simp add: rt_mb_send_def rt_mb_send_wait_def)
next
  case False
  then have "mb_send_loop x v (rt_thread_self s) 0 0 s = Some (out, s')"
    using assms by (simp add: rt_mb_send_def rt_mb_send_wait_def)
  then show ?thesis
    by (cases rule: mb_send_cases) (use False in \<open>auto dest!: resume_dq\<close>)
qed

lemma mq_send_dq: "mq_send_both urgent x buf s = Some (r, s') \<Longrightarrow> data_queues s' = data_queues s"
  by (erule mq_send_bothE) (auto elim!: mq_send_begin_cases mq_send_end_cases dest!: resume_dq)

lemma isr_exec_dq: "isr_exec c s = Some s' \<Longrightarrow> data_queues s' = data_queues s"
  by (cases c)
    (auto simp: isr_exec_def mp_given_def rt_sem_release_def rt_event_send_def bind_eq_Some_conv split: if_splits
      elim!: mp_free_cases completion_done_cases dest!: resume_dq event_loop_dq mb_send_dq mq_send_dq)

interpretation isr_dq: data_queue_quiet "isr_notify tab" for tab
  by unfold_locales (auto simp: isr_notify_def dest: isr_exec_keeps isr_exec_dq)

datatype drv_call =
    Sys_completion_init nat | Sys_completion_wait nat u32 | Sys_completion_wait_resumed nat tid
   | Sys_completion_done nat
   | Sys_dq_init nat u16 u16 "nat option" | Sys_dq_push nat "nat \<times> u32" u32 | Sys_dq_push_resumed nat "nat \<times> u32" tid u32
   | Sys_dq_pop nat u32 | Sys_dq_pop_resumed nat tid u32 | Sys_dq_pop_end nat | Sys_dq_reset nat
   | Sys_pipe_create "u8 list" u32 | Sys_pipe_destroy "nat option" | Sys_pipe_read_resumed nat tid u32
   | Sys_pipe_write_resumed nat tid "u8 list" u32
   | Sys_device_register "nat option" "u8 list" u16 | Sys_device_unregister nat | Sys_device_init_all
   | Sys_device_find "u8 list" | Sys_device_init nat | Sys_device_open nat u16 | Sys_device_close nat
   | Sys_device_read nat u32 u32 | Sys_device_write nat u32 "u8 list" u32 | Sys_device_control nat u8 nat
   | Sys_device_rx nat "dev_fn option" | Sys_device_tx nat "dev_fn option" | Sys_set_errno rt_err_t

text \<open>The devices of the system are pipes. Other drivers are a parameter of \<open>Device\<close>.\<close>

primrec drv_exec :: "(nat \<Rightarrow> nat \<Rightarrow> isr_op) \<Rightarrow> drv_call \<Rightarrow> kstate \<Rightarrow> kstate option" where
  "drv_exec tab (Sys_completion_init x) s = rt_completion_init x s"
| "drv_exec tab (Sys_completion_wait x time) s = map_option snd (rt_completion_wait x time s)"
| "drv_exec tab (Sys_completion_wait_resumed x t) s = Some (snd (rt_completion_wait_resumed x t s))"
| "drv_exec tab (Sys_completion_done x) s = rt_completion_done x s"
| "drv_exec tab (Sys_dq_init x sz low f) s = map_option snd (rt_data_queue_init x sz low f s)"
| "drv_exec tab (Sys_dq_push x v time) s = map_option snd (rt_data_queue_push (isr_notify tab) x v time s)"
| "drv_exec tab (Sys_dq_push_resumed x v t time) s = map_option snd (rt_data_queue_push_resumed (isr_notify tab) x v t time s)"
| "drv_exec tab (Sys_dq_pop x time) s = map_option snd (rt_data_queue_pop (isr_notify tab) x time s)"
| "drv_exec tab (Sys_dq_pop_resumed x t time) s = map_option snd (rt_data_queue_pop_resumed (isr_notify tab) x t time s)"
| "drv_exec tab (Sys_dq_pop_end x) s = rt_data_queue_pop_end (isr_notify tab) x s"
| "drv_exec tab (Sys_dq_reset x) s = rt_data_queue_reset x s"
| "drv_exec tab (Sys_pipe_create nm sz) s = map_option snd (rt_pipe_create nm sz s)"
| "drv_exec tab (Sys_pipe_destroy p) s = rt_pipe_destroy p s"
| "drv_exec tab (Sys_pipe_read_resumed x t sz) s = map_option snd (rt_pipe_read_resumed x t sz s)"
| "drv_exec tab (Sys_pipe_write_resumed x t buf sz) s = map_option snd (rt_pipe_write_resumed x t buf sz s)"
| "drv_exec tab (Sys_device_register d nm flags) s = map_option snd (rt_device_register d nm flags s)"
| "drv_exec tab (Sys_device_unregister d) s = Some (snd (rt_device_unregister d s))"
| "drv_exec tab Sys_device_init_all s = map_option snd (rt_device_init_all (pipe_ops no_driver) s)"
| "drv_exec tab (Sys_device_find nm) s = map_option snd (rt_device_find nm s)"
| "drv_exec tab (Sys_device_init d) s = map_option snd (rt_device_init (pipe_ops no_driver) d s)"
| "drv_exec tab (Sys_device_open d oflag) s = map_option snd (rt_device_open (pipe_ops no_driver) d oflag s)"
| "drv_exec tab (Sys_device_close d) s = map_option snd (rt_device_close (pipe_ops no_driver) d s)"
| "drv_exec tab (Sys_device_read d pos sz) s = map_option snd (rt_device_read (pipe_ops no_driver) d pos sz s)"
| "drv_exec tab (Sys_device_write d pos buf sz) s = map_option snd (rt_device_write (pipe_ops no_driver) d pos buf sz s)"
| "drv_exec tab (Sys_device_control d cmd arg) s = map_option snd (rt_device_control (pipe_ops no_driver) d cmd arg s)"
| "drv_exec tab (Sys_device_rx d f) s = Some (snd (rt_device_set_rx_indicate d f s))"
| "drv_exec tab (Sys_device_tx d f) s = Some (snd (rt_device_set_tx_complete d f s))"
| "drv_exec tab (Sys_set_errno e) s = Some (rt_set_errno e s)"

definition drv_call_ok :: "drv_call \<Rightarrow> kstate \<Rightarrow> bool" where
  "drv_call_ok c s =
     (case c of
        Sys_completion_wait_resumed x t \<Rightarrow> rt_current_thread s = Some t
      | Sys_dq_push_resumed x v t time \<Rightarrow> rt_current_thread s = Some t
      | Sys_dq_pop_resumed x t time \<Rightarrow> rt_current_thread s = Some t
      | Sys_pipe_read_resumed x t sz \<Rightarrow> rt_current_thread s = Some t
      | Sys_pipe_write_resumed x t buf sz \<Rightarrow> rt_current_thread s = Some t
      | _ \<Rightarrow> True)"

lemma kinv_drv_exec:
  assumes op: "drv_exec tab c s = Some s'" and inv: "kinv s" and me: "self_ready s" and ok: "drv_call_ok c s"
  shows "kinv s'"
proof -
  have st: "stat (threads s t) = RT_THREAD_READY" if "rt_current_thread s = Some t" for t
    using me that by (simp add: self_ready_def)
  show ?thesis
  proof (cases c)
    case (Sys_completion_wait_resumed x t)
    then show ?thesis using op inv kinv_completion_resumed by auto
  next
    case (Sys_dq_push x v time)
    then show ?thesis using op inv me
      by (auto simp: rt_data_queue_push_def intro: isr_dq.push_kinv self_waiter)
  next
    case (Sys_dq_pop x time)
    then show ?thesis using op inv me
      by (auto simp: rt_data_queue_pop_def intro: isr_dq.pop_kinv self_waiter)
  next
    case (Sys_dq_push_resumed x v t time)
    then obtain out where "rt_data_queue_push_resumed (isr_notify tab) x v t time s = Some (out, s')" using op by auto
    then show ?thesis using inv by (rule isr_dq.push_resumed_kinv) (use ok Sys_dq_push_resumed in \<open>simp add: drv_call_ok_def st\<close>)
  next
    case (Sys_dq_pop_resumed x t time)
    then show ?thesis using op inv ok isr_dq.pop_resumed_kinv [OF _ inv st] by (auto simp: drv_call_ok_def)
  next
    case (Sys_pipe_read_resumed x t sz)
    then show ?thesis using op inv ok kinv_pipe_read_resumed [OF _ inv st] by (auto simp: drv_call_ok_def)
  next
    case (Sys_pipe_write_resumed x t buf sz)
    then show ?thesis using op inv ok kinv_pipe_write_resumed [OF _ inv st] by (auto simp: drv_call_ok_def)
  next
    case (Sys_dq_pop_end x)
    then show ?thesis using op inv by (auto simp: rt_data_queue_pop_end_def intro: isr_dq.call_kinv)
  next
    case (Sys_device_unregister d)
    then show ?thesis using op inv kinv_device_unregister by auto
  next
    case (Sys_device_rx d f)
    then show ?thesis using op inv by (auto simp: rt_device_set_rx_indicate_def)
  next
    case (Sys_device_tx d f)
    then show ?thesis using op inv by (auto simp: rt_device_set_tx_complete_def)
  next
    case (Sys_set_errno e)
    then show ?thesis using op inv kinv_set_errno by auto
  qed (use op inv me in \<open>auto intro: kinv_completion_init kinv_completion_wait kinv_completion_done kinv_dq_init
      kinv_dq_reset kinv_pipe_create kinv_pipe_destroy kinv_device_register kinv_device_find
      pipe_dev.kinv_init_all pipe_dev.kinv_init pipe_dev.kinv_open pipe_dev.kinv_close pipe_dev.kinv_read
      pipe_dev.kinv_write pipe_dev.kinv_dev_control\<close>)
qed

subsection \<open>Steps\<close>

text \<open>A step is a call of the running thread, of the kernel or of a driver, or a section of an operation that some thread has
  begun, or a tick interrupt, or a call of an interrupt handler, or a round of the thread of the soft timers after its wait.
  The running thread is the current one and ready.

  Interrupts arrive between the steps. A call is one step, so none arrives inside it. For the calls that wait or that
  handle messages this is how the code is, with the parts between which others run as calls of their own. Closing or resuming a thread
  that is suspended is there as one step and in its sections, with anything between them that leaves the thread as it is
  (\<open>section_ok\<close>); \<open>close_timed_out\<close> shows what happens in the code when the thread is not left alone. A call that closes a thread that is
  ready, and one that creates, starts, initialises, detaches, deletes or controls an object, starts or stops a timer, allocates memory or
  works on a device may also enable interrupts on its way, and is a step only for runs in which no interrupt arrives inside it.\<close>

inductive kstep :: "(nat \<Rightarrow> nat \<Rightarrow> isr_op) \<Rightarrow> kstate \<Rightarrow> kstate \<Rightarrow> bool" for tab where
  call: "self_ready s \<Longrightarrow> call_ok c s \<Longrightarrow> sys_exec c s = Some s' \<Longrightarrow> kstep tab s s'"
| driver: "self_ready s \<Longrightarrow> drv_call_ok c s \<Longrightarrow> drv_exec tab c s = Some s' \<Longrightarrow> kstep tab s s'"
| section_of: "section_ok c s \<Longrightarrow> section_exec c s = Some s' \<Longrightarrow> kstep tab s s'"
| tick: "rt_tick_increase (isr_callbacks tab) (rt_interrupt_enter s) = Some s' \<Longrightarrow>
     kstep tab s (rt_interrupt_leave s')"
| interrupt: "isr_exec c (rt_interrupt_enter s) = Some s' \<Longrightarrow> kstep tab s (rt_interrupt_leave s')"
| soft_wait: "rt_thread_timer_entry_wait s = Some (d, s') \<Longrightarrow> kstep tab s s'"
| soft_check: "rt_thread_timer_entry_check (isr_callbacks tab) d t s = Some s' \<Longrightarrow> kstep tab s s'"

inductive kreach :: "(nat \<Rightarrow> nat \<Rightarrow> isr_op) \<Rightarrow> kstate \<Rightarrow> kstate \<Rightarrow> bool" for tab s0 where
  start: "kreach tab s0 s0"
| step: "kreach tab s0 s \<Longrightarrow> kstep tab s s' \<Longrightarrow> kreach tab s0 s'"

inductive_cases kstepE: "kstep tab s s'"

lemma kinv_interrupt [simp]: "kinv (rt_interrupt_enter s) = kinv s" "kinv (rt_interrupt_leave s) = kinv s"
  by (simp_all add: rt_interrupt_enter_def rt_interrupt_leave_def)

lemma kinv_tick:
  assumes op: "rt_tick_increase (isr_callbacks tab) s = Some s'" and inv: "kinv s"
  shows "kinv s'"
proof -
  let ?dec = "\<lambda>t. upd_thread t (\<lambda>r. r\<lparr>remaining_tick := remaining_tick r - 1\<rparr>) (s\<lparr>rt_tick := rt_tick s + 1\<rparr>)"
  let ?full = "\<lambda>t. upd_thread t (\<lambda>r. r\<lparr>remaining_tick := init_tick r\<rparr>) (?dec t)"
  have dec: "kinv (?dec t)" for t
    using kinv_thread_ok [OF inv, of t] by (intro kinv_thread) (simp_all add: inv)
  have full: "kinv (?full t)" for t
    using kinv_thread_ok [OF dec [of t], of t] by (intro kinv_thread [OF dec]) simp
  from op obtain t s1 where check: "rt_timer_check (isr_callbacks tab) s1 = Some s'"
    and s1: "s1 = ?dec t \<or> (\<exists>e. rt_thread_yield (?full t) = Some (e, s1))"
    by (auto simp: rt_tick_increase_def bind_eq_Some_conv Let_def split: if_splits)
  have "kinv s1" using s1 dec full kinv_yield by blast
  with check show ?thesis by (rule isr.check_kinv)
qed

lemma kinv_soft_wait: "rt_thread_timer_entry_wait s = Some (d, s') \<Longrightarrow> kinv s \<Longrightarrow> kinv s'"
  by (auto simp: rt_thread_timer_entry_wait_def rt_thread_delay_def bind_eq_Some_conv Let_def split: if_splits
      intro: kinv_schedule kinv_suspend kinv_sleep)

lemma kinv_soft_check:
  assumes op: "rt_thread_timer_entry_check (isr_callbacks tab) d t s = Some s'" and inv: "kinv s"
  shows "kinv s'"
proof -
  let ?s = "rt_enter_critical (if d then snd (rt_thread_sleep_resumed t s) else s)"
  have k: "kinv ?s" using inv kinv_sleep_resumed by (auto intro: kinv_enter_critical)
  from op obtain s1 where "rt_soft_timer_check (isr_callbacks tab) ?s = Some s1" "rt_exit_critical s1 = Some s'"
    by (auto simp: rt_thread_timer_entry_check_def bind_eq_Some_conv Let_def)
  then show ?thesis using isr.soft_check_kinv [OF _ k] kinv_exit_critical by blast
qed

lemma kinv_step:
  assumes "kstep tab s s'" "kinv s"
  shows "kinv s'"
  using assms
proof cases
  case (call c)
  then show ?thesis using kinv_exec assms(2) by blast
next
  case (driver c)
  then show ?thesis using kinv_drv_exec assms(2) by blast
next
  case (section_of c)
  then show ?thesis using kinv_section assms(2) by blast
next
  case (tick s1)
  then show ?thesis using kinv_tick assms(2) by simp
next
  case (interrupt c s1)
  then show ?thesis using isr_exec_keeps [of c "rt_interrupt_enter s" s1] assms(2) by simp
next
  case (soft_wait d)
  then show ?thesis using kinv_soft_wait assms(2) by blast
next
  case (soft_check d t)
  then show ?thesis using kinv_soft_check assms(2) by blast
qed

lemma kinv_reach: "kreach tab s0 s \<Longrightarrow> kinv s0 \<Longrightarrow> kinv s"
  by (induction rule: kreach.induct) (auto intro: kinv_step)

end
