(* ===== verification/Msgqueue_Trace.thy ===== *)
theory Msgqueue_Trace
  imports System
begin

text \<open>
  Message queues in the running kernel. Between the two parts of a send or a receive interrupts are
  enabled, so other threads and interrupt handlers run, and may use the queue. A run of the kernel is
  projected to the critical sections on one queue, in their order; the simulation of \<open>Msgqueue\<close>
  then says what all sends and receives of the run have done together.
\<close>

subsection \<open>The critical section of a call\<close>

fun mq_slot_steps :: "(nat \<Rightarrow> mq_step) \<Rightarrow> ('r mq_front \<times> kstate) option \<Rightarrow> mq_step list" where
  "mq_slot_steps f (Some (Mq_slot m, s)) = [f m]"
| "mq_slot_steps f _ = []"

lemma mq_slot_steps_ne [simp]: "(\<forall>m. out \<noteq> Mq_slot m) \<Longrightarrow> mq_slot_steps f (Some (out, s)) = []"
  by (cases out) simp_all

text \<open>The calls that send and receive, and what each does to the queue \<open>x\<close>. A call that is refused or
  waits does nothing to it.\<close>

fun mq_io :: "mq_call \<Rightarrow> bool" where
  "mq_io (Sys_mq_send_begin _ _ _) = True"
| "mq_io (Sys_mq_send_end _ _ _) = True"
| "mq_io (Sys_mq_recv _ _ _) = True"
| "mq_io (Sys_mq_recv_resumed _ _) = True"
| "mq_io (Sys_mq_recv_end _ _ _) = True"
| "mq_io _ = False"

fun mq_steps :: "nat \<Rightarrow> mq_call \<Rightarrow> kstate \<Rightarrow> mq_step list" where
  "mq_steps x (Sys_mq_send_begin urgent y buf) s =
     (if y = x then mq_slot_steps (Send_begin urgent buf) (mq_send_begin urgent x buf s) else [])"
| "mq_steps x (Sys_mq_send_end urgent y m) s = (if y = x then [Send_end urgent m] else [])"
| "mq_steps x (Sys_mq_recv y n time) s = (if y = x then mq_slot_steps Recv_begin (rt_mq_recv x n time s) else [])"
| "mq_steps x (Sys_mq_recv_resumed y k) s =
     (if y = x then mq_slot_steps Recv_begin (rt_mq_recv_resumed x k s) else [])"
| "mq_steps x (Sys_mq_recv_end y n m) s = (if y = x then [Recv_end m (slot_bytes (msgqueues s x) m)] else [])"
| "mq_steps x _ s = []"

lemma mq_run_append: "mq_run (es @ fs) q = Option.bind (mq_run es q) (mq_run fs)"
proof (induction es arbitrary: q)
  case (Cons e es)
  then show ?case by (cases "mq_do e q") simp_all
qed simp

lemma mq_send_begin_steps:
  assumes "mq_send_begin urgent y buf s = Some (out, s')"
  shows "mq_run (mq_steps x (Sys_mq_send_begin urgent y buf) s) (msgqueues s x) = Some (msgqueues s' x)"
  using assms by (cases rule: mq_send_begin_cases) (use assms in auto)

lemma mq_recv_loop_steps:
  assumes op: "mq_recv_loop y thread timeout td s = Some (out, s')" and inv: "kinv s" and me: "waiter_ready thread s"
  shows "mq_run (if y = x then mq_slot_steps Recv_begin (Some (out, s')) else []) (msgqueues s x) = Some (msgqueues s' x)"
  using op
proof (cases rule: mq_recv_cases)
  case (blocked t s1)
  let ?s = "upd_thread t (\<lambda>r. r\<lparr>th_error := RT_EOK\<rparr>) s"
  have k: "kinv ?s" using inv by (intro kinv_error) simp
  have "stat (threads ?s t) = RT_THREAD_READY" using me blocked(2) by (simp add: waiter_ready_def)
  from wait_data [OF blocked(5) k this] have "ipc_data s1 = ipc_data ?s" by simp
  then have "msgqueues s' = msgqueues s" using ipc_dataD(5) schedule_same(9) [OF blocked(6)] by fastforce
  then show ?thesis using blocked(4) by simp
next
  case (slot msg q)
  then show ?thesis by simp
qed simp

lemma mq_exec_steps:
  assumes op: "mq_exec c s = Some s'" and io: "mq_io c" and inv: "kinv s" and me: "self_ready s"
    and ok: "mq_call_ok c s"
  shows "mq_run (mq_steps x c s) (msgqueues s x) = Some (msgqueues s' x)"
  using io
proof (cases c rule: mq_io.cases)
  case (1 urgent y buf)
  with op obtain out where "mq_send_begin urgent y buf s = Some (out, s')" by auto
  from mq_send_begin_steps [OF this, of x] 1 show ?thesis by simp
next
  case (2 urgent y m)
  with op obtain r where e: "mq_send_end urgent y m s = Some (r, s')" by auto
  have "msgqueues s' x = (if y = x then (if urgent then mq_link_head m else mq_link_tail m) (msgqueues s x) else msgqueues s x)"
    using e
  proof (cases rule: mq_send_end_cases)
    case (wake e s1)
    show ?thesis
      using ipc_dataD(5) [OF list_resume_data [OF wake(3)]] schedule_same(9) [OF wake(4)] by auto
  qed auto
  then show ?thesis using 2 by simp
next
  case (3 y n time)
  with op obtain out where r: "rt_mq_recv y n time s = Some (out, s')" by auto
  show ?thesis
  proof (cases "mq_entry (msgqueues s y) = 0 \<and> time = 0")
    case True
    then show ?thesis using r 3 by (auto simp: rt_mq_recv_def rt_assert_def split: if_splits)
  next
    case False
    then have "mq_recv_loop y (rt_thread_self s) time 0 s = Some (out, s')"
      using r by (auto simp: rt_mq_recv_def rt_assert_def split: if_splits)
    from mq_recv_loop_steps [OF this inv self_waiter [OF me], of x] show ?thesis using 3 r by auto
  qed
next
  case (4 y k)
  obtain t time td where k: "k = (t, time, td)" by (rule prod_cases3)
  with op 4 obtain out where r: "rt_mq_recv_resumed y k s = Some (out, s')" by auto
  have w: "waiter_ready (Some t) s" using ok me 4 k by (simp add: mq_call_ok_def self_ready_def waiter_ready_def)
  show ?thesis
  proof (cases "th_error (threads s t) = RT_EOK")
    case True
    then have "mq_recv_loop y (Some t) (fst (ipc_remaining time td s)) (snd (ipc_remaining time td s)) s = Some (out, s')"
      using r k by (simp add: rt_mq_recv_resumed_def split_beta)
    from mq_recv_loop_steps [OF this inv w, of x] show ?thesis using 4 r by auto
  qed (use r k 4 in \<open>auto simp: rt_mq_recv_resumed_def\<close>)
next
  case (5 y n m)
  then show ?thesis using op by (auto simp: rt_mq_recv_end_def Let_def)
qed simp_all

text \<open>An interrupt handler runs both parts of a send at once.\<close>

definition mq_both_steps :: "bool \<Rightarrow> u8 list \<Rightarrow> rt_messagequeue \<Rightarrow> mq_step list" where
  "mq_both_steps urgent buf q =
     (case mq_take_slot q of
        Some (m, _) \<Rightarrow> if length buf \<le> unat (msg_size q) then [Send_begin urgent buf m, Send_end urgent m] else []
      | None \<Rightarrow> [])"

lemma mq_both_run:
  assumes op: "mq_send_both urgent x buf s = Some (r, s')"
  shows "mq_run (mq_both_steps urgent buf (msgqueues s x)) (msgqueues s x) = Some (msgqueues s' x)"
  using op
proof (cases rule: mq_send_bothE)
  case refused
  then have "s' = s" "mq_both_steps urgent buf (msgqueues s x) = []"
    by (auto simp: mq_both_steps_def mq_send_begin_def rt_assert_def Let_def split: if_splits option.splits)
  then show ?thesis by simp
next
  case (sent m s1)
  from sent(1) obtain q where q: "mq_take_slot (msgqueues s x) = Some (m, q)" "length buf \<le> unat (msg_size (msgqueues s x))"
    "msgqueues s1 x = mq_copy_in m buf (if urgent then q else mq_set_next m None q)"
    by (auto elim!: mq_send_begin_cases)
  then show ?thesis using mq_send_end_queue [OF sent(2)] by (simp add: mq_both_steps_def)
qed

lemma msgqueues_interrupt [simp]:
  "msgqueues (rt_interrupt_enter s) = msgqueues s" "msgqueues (rt_interrupt_leave s) = msgqueues s"
  by (simp_all add: rt_interrupt_enter_def rt_interrupt_leave_def)

subsection \<open>Runs\<close>

text \<open>A run of the kernel with its steps on the queue \<open>x\<close>: calls of threads that send and receive, and sends of interrupt
  handlers. Everything else that may happen, like ticks, interrupts and calls for other objects, leaves this queue alone: a run does not
  reset, detach or delete it, and no timer function sends to it.\<close>

inductive mq_path :: "(nat \<Rightarrow> nat \<Rightarrow> isr_op) \<Rightarrow> nat \<Rightarrow> kstate \<Rightarrow> mq_step list \<Rightarrow> kstate \<Rightarrow> bool" for tab x s0 where
  none: "mq_path tab x s0 [] s0"
| io: "mq_path tab x s0 es s \<Longrightarrow> self_ready s \<Longrightarrow> mq_call_ok c s \<Longrightarrow> mq_io c \<Longrightarrow> mq_exec c s = Some s' \<Longrightarrow>
    mq_path tab x s0 (es @ mq_steps x c s) s'"
| isr: "mq_path tab x s0 es s \<Longrightarrow> isr_exec (Isr_mq_send urgent x buf) (rt_interrupt_enter s) = Some s' \<Longrightarrow>
    mq_path tab x s0 (es @ mq_both_steps urgent buf (msgqueues s x)) (rt_interrupt_leave s')"
| other: "mq_path tab x s0 es s \<Longrightarrow> kstep tab s s' \<Longrightarrow> msgqueues s' x = msgqueues s x \<Longrightarrow> mq_path tab x s0 es s'"

lemma mq_path_run:
  assumes "mq_path tab x s0 es s" "kinv s0"
  shows "kinv s \<and> mq_run es (msgqueues s0 x) = Some (msgqueues s x)"
  using assms
proof (induction rule: mq_path.induct)
  case (io es s c s')
  then have k: "kinv s" by simp
  have "kinv s'" by (rule kinv_mq_exec [OF io.hyps(5) k io.hyps(2,3)])
  moreover have "mq_run (mq_steps x c s) (msgqueues s x) = Some (msgqueues s' x)"
    by (rule mq_exec_steps [OF io.hyps(5,4) k io.hyps(2,3)])
  ultimately show ?case using io by (simp add: mq_run_append)
next
  case (isr es s urgent buf s')
  then obtain r where r: "mq_send_both urgent x buf (rt_interrupt_enter s) = Some (r, s')" by (auto simp: isr_exec_def)
  have "kinv s'" using isr by (auto intro: kinv_mq_send_both [OF r])
  moreover have "mq_run (mq_both_steps urgent buf (msgqueues s x)) (msgqueues s x) = Some (msgqueues s' x)"
    using mq_both_run [OF r] by simp
  ultimately show ?case using isr by (simp add: mq_run_append)
next
  case (other es s s')
  then show ?case using kinv_step by simp
qed simp

lemma mq_path_sim:
  assumes "mq_path tab x s0 es s" "kinv s0" "mq_sim (msgqueues s0 x) p" "run_ok (unat (msg_size (msgqueues s0 x))) es p"
  shows "\<exists>p'. spec_run es p = Some p' \<and> mq_sim (msgqueues s x) p'"
  using mq_path_run [OF assms(1,2)] mq_run_sim [OF assms(3) _ assms(4)] by blast

text \<open>What a state of the specification says of the queue when no operation is between its
  parts.\<close>

definition mq_quiet :: "u8 list list \<Rightarrow> mq_spec" where
  "mq_quiet vs = \<lparr>sending = (\<lambda>_. None), messages = vs, receiving = (\<lambda>_. None)\<rparr>"

lemma mq_good_sim: "mq_good q \<Longrightarrow> mq_sim q (mq_quiet (mq_msgs q))"
proof -
  assume "mq_good q"
  then obtain F Q where inv: "mq_inv q F Q {}" by (auto simp: mq_good_def)
  show ?thesis
    using inv by (intro mq_simI [of q F Q])
      (auto simp: mq_quiet_def mq_msgs_inv [OF inv] list_all2_map2 holds_def list.rel_refl list_all2_same)
qed

lemma mq_sim_quiet:
  assumes "mq_sim q (mq_quiet vs)"
  shows "mq_good q \<and> list_all2 (\<lambda>w v. take (length v) w = v) (mq_msgs q) vs"
proof -
  from assms obtain F Q where h: "mq_held q (mq_quiet vs) F Q" by (auto simp: mq_sim_def)
  then have inv: "mq_inv q F Q {}" by (simp add: mq_held_def mq_quiet_def)
  have "holds q = (\<lambda>m v. take (length v) (slot_bytes q m) = v)" by (simp add: holds_def fun_eq_iff)
  moreover have "list_all2 (holds q) Q vs" using h by (simp add: mq_held_def mq_quiet_def)
  ultimately show ?thesis using inv by (auto simp: mq_good_def mq_msgs_inv [OF inv] list_all2_map1)
qed

text \<open>Runs by calls alone, for examples.\<close>

primrec mq_go :: "nat \<Rightarrow> mq_call list \<Rightarrow> kstate \<Rightarrow> (mq_step list \<times> kstate) option" where
  "mq_go x [] s = Some ([], s)"
| "mq_go x (c # cs) s =
     (if self_ready s \<and> mq_call_ok c s \<and> mq_io c then do {
        s' \<leftarrow> mq_exec c s;
        (es, s'') \<leftarrow> mq_go x cs s';
        Some (mq_steps x c s @ es, s'')
      }
      else None)"

lemma mq_go_path:
  "mq_go x cs s = Some (es, s') \<Longrightarrow> mq_path tab x s0 fs s \<Longrightarrow> mq_path tab x s0 (fs @ es) s'"
proof (induction cs arbitrary: s es fs)
  case (Cons c cs)
  then obtain s1 es1 where s1: "self_ready s" "mq_call_ok c s" "mq_io c" "mq_exec c s = Some s1"
    and go: "mq_go x cs s1 = Some (es1, s')" "es = mq_steps x c s @ es1"
    by (auto simp: bind_eq_Some_conv split: if_splits)
  have "mq_path tab x s0 (fs @ mq_steps x c s) s1" by (rule mq_path.io [OF Cons.prems(2) s1])
  from Cons.IH [OF go(1) this] go(2) show ?case by simp
qed simp

end
