(* ===== verification/Object_Types.thy ===== *)
theory Object_Types
  imports Object_Heap
begin

text \<open>
  The lists of \<^verbatim>\<open>rt_object_container\<close> are typed: on the list of a class there are only objects of that kind, and
  their \<^verbatim>\<open>type\<close> field says so. The pointer that a search returns can be cast to the structure of the class.
\<close>

fun class_of :: "oid \<Rightarrow> obj_class" where
  "class_of (Thread_o a) = RT_Object_Class_Thread"
| "class_of (Sem_o a) = RT_Object_Class_Semaphore"
| "class_of (Mutex_o a) = RT_Object_Class_Mutex"
| "class_of (Event_o a) = RT_Object_Class_Event"
| "class_of (MailBox_o a) = RT_Object_Class_MailBox"
| "class_of (MessageQueue_o a) = RT_Object_Class_MessageQueue"
| "class_of (MemPool_o a) = RT_Object_Class_MemPool"
| "class_of (Device_o a) = RT_Object_Class_Device"
| "class_of (Timer_o x) = RT_Object_Class_Timer"

text \<open>A static object carries the static bit beside its class.\<close>

definition type_ok :: "rt_object \<Rightarrow> obj_class \<Rightarrow> bool" where
  "type_ok r c \<longleftrightarrow> o_type r = class_num c \<or> o_type r = class_num c OR RT_Object_Class_Static"

definition container_typed :: "kstate \<Rightarrow> bool" where
  "container_typed s \<longleftrightarrow> wf_lists (obj_lists s) \<and>
     (\<forall>c. \<forall>x \<in> set (elems (obj_lists s) c). class_of x = c \<and> type_ok (objs s x) c)"

lemma class_of_obj_at: "obj_at c a = Some x \<Longrightarrow> class_of x = c"
  by (cases c) auto

lemma class_of_num_Some: "class_of_num n = Some c \<Longrightarrow> class_num c = n"
  by (auto split: if_splits)

text \<open>The two ways in which an object comes onto a list.\<close>

lemma typed_insert:
  assumes t: "container_typed s" and ins: "l_insert_first (class_of x) x (obj_lists s) = Some L"
    and s': "obj_lists s' = L" "\<And>y. y \<noteq> x \<Longrightarrow> objs s' y = objs s y" "type_ok (objs s' x) (class_of x)"
  shows "container_typed s'"
proof -
  have un: "onlist (obj_lists s) x = None" and L: "elems L = (elems (obj_lists s))(class_of x := x # elems (obj_lists s) (class_of x))"
    using ins by (auto simp: l_insert_first_Some)
  have wf: "wf_lists (obj_lists s)" using t by (simp add: container_typed_def)
  have "y \<noteq> x" if "y \<in> set (elems (obj_lists s) c)" for y c
    using that un wf_listsD(2) [OF wf] by auto
  then show ?thesis
    using t L s' wf_l_insert_first [OF wf ins] unfolding container_typed_def by (auto split: if_splits)
qed

lemma typed_remove:
  assumes "container_typed s" "obj_lists s' = l_remove x (obj_lists s)" "objs s' = objs s"
  shows "container_typed s'"
  using assms by (auto simp: container_typed_def elems_l_remove wf_l_remove dest: notin_set_remove1)

lemma typed_init:
  assumes op: "rt_object_init x (class_of x) nm s = Some s'" and t: "container_typed s"
  shows "container_typed s'"
proof (rule typed_insert [OF t])
  show "l_insert_first (class_of x) x (obj_lists s) = Some (obj_lists s')"
    using op by (auto simp: rt_object_init_Some l_insert_first_Some)
qed (use op in \<open>auto simp: rt_object_init_Some type_ok_def\<close>)

lemma typed_detach: "container_typed s \<Longrightarrow> container_typed (rt_object_detach x s)"
  by (rule typed_remove [where x = x]) (simp_all add: rt_object_detach_def)

lemma typed_delete:
  assumes op: "rt_object_delete x s = Some s'" and t: "container_typed s"
  shows "container_typed s'"
proof -
  from op obtain a where "k_free a (s\<lparr>obj_lists := l_remove x (obj_lists s)\<rparr>) = Some s'"
    by (auto simp: rt_object_delete_def rt_assert_def bind_eq_Some_conv split: if_splits)
  then have "obj_lists s' = l_remove x (obj_lists s)" "objs s' = objs s"
    by (auto simp: k_free_def rt_debug_not_in_interrupt_def bind_eq_Some_conv)
  with t show ?thesis by (rule typed_remove)
qed

lemma typed_allocate:
  assumes op: "rt_object_allocate c nm s = Some (a, s')" and t: "container_typed s"
  shows "container_typed s' \<and> (a \<noteq> 0 \<longrightarrow> (\<exists>x. obj_at c a = Some x \<and> x \<in> set (elems (obj_lists s') c)))"
  using op
proof (cases rule: rt_object_allocate_cases)
  case null
  have "obj_lists s' = obj_lists s" "objs s' = objs s" by (subst null(2), simp)+
  then show ?thesis using t null by (simp add: container_typed_def)
next
  case (object x)
  have c: "class_of x = c" using object(2) by (rule class_of_obj_at)
  have ins: "l_insert_first (class_of x) x (obj_lists s) = Some (obj_lists s')"
    using object(3) c by (subst object(4)) (simp add: l_insert_first_Some)
  moreover have "objs s' y = objs s y" if "y \<noteq> x" for y using that by (subst object(4)) simp
  moreover have "type_ok (objs s' x) (class_of x)" unfolding c by (subst object(4)) (simp add: type_ok_def)
  ultimately have "container_typed s'" using t by (intro typed_insert [of s x _ s']) simp_all
  then show ?thesis using object(2) ins c by (auto simp: l_insert_first_Some)
qed

text \<open>What a search finds.\<close>

lemma find_typed:
  assumes op: "rt_object_find nm type s = Some (Some x, s')" and t: "container_typed s"
  shows "class_num (class_of x) = type \<and> x \<in> set (elems (obj_lists s) (class_of x)) \<and> type_ok (objs s x) (class_of x) \<and>
    (\<exists>n. nm = Some n \<and> rt_strncmp (o_name (objs s x)) n RT_NAME_MAX = 0) \<and> container_typed s'"
proof -
  from op obtain n c where n: "nm = Some n" and c: "class_of_num type = Some c"
    and f: "List.find (\<lambda>x. rt_strncmp (o_name (objs s x)) n RT_NAME_MAX = 0) (elems (obj_lists s) c) = Some x"
    and s': "rt_exit_critical (rt_enter_critical s) = Some s'"
    by (auto simp: rt_object_find_def rt_assert_def rt_enter_critical_def bind_eq_Some_conv Let_def
        simp del: class_of_num.simps split: if_splits)
  from f have x: "x \<in> set (elems (obj_lists s) c)" "rt_strncmp (o_name (objs s x)) n RT_NAME_MAX = 0"
    by (auto simp: find_Some_iff)
  then have cx: "class_of x = c" "type_ok (objs s x) c" using t by (auto simp: container_typed_def)
  have "obj_lists s' = obj_lists s" "objs s' = objs s"
    using s' by (auto simp: rt_exit_critical_def rt_enter_critical_def Let_def split: if_splits elim!: rt_scheduleE)
  then have "container_typed s'" using t by (simp add: container_typed_def)
  with x cx n class_of_num_Some [OF c] show ?thesis by auto
qed

end
