(* ===== verification/Sleeping.thy ===== *)
theory Sleeping
  imports Ipc_Base
begin

text \<open>
  Threads that sleep, and threads whose wait has a time limit, are woken by the tick interrupts in time. While the
  hard timers that run are those of suspended threads, every tick interrupt returns, and a thread is made ready by
  the tick at which its timer is due, and by no earlier one.
\<close>

subsection \<open>Ticks\<close>

text \<open>Tick interrupts that follow each other.\<close>

primrec ticks :: "callbacks \<Rightarrow> nat \<Rightarrow> kstate \<Rightarrow> kstate option" where
  "ticks cb 0 s = Some s"
| "ticks cb (Suc n) s = do {
     s \<leftarrow> ticks cb n s;
     s \<leftarrow> rt_tick_increase cb (rt_interrupt_enter s);
     Some (rt_interrupt_leave s)
   }"

text \<open>A timer that belongs to a suspended thread and will wake it.\<close>

definition sleeper :: "kstate \<Rightarrow> tmr \<Rightarrow> bool" where
  "sleeper s x \<longleftrightarrow> (\<exists>t. x = Thread_timer t \<and> stat (threads s t) = RT_THREAD_SUSPEND \<and>
     timeout_func (timers s x) = Rt_thread_timeout \<and> tm_parameter (timers s x) = t \<and>
     timer_flag s x AND RT_TIMER_FLAG_PERIODIC = 0 \<and> stack_ok (threads s t))"

text \<open>The scheduler finds a thread, and no stack has overflowed.\<close>

definition can_schedule :: "kstate \<Rightarrow> bool" where
  "can_schedule s \<longleftrightarrow> rt_current_thread s \<noteq> None \<and> (\<exists>u. stat (threads s u) = RT_THREAD_READY) \<and>
     (\<forall>t. stat (threads s t) = RT_THREAD_READY \<longrightarrow> stack_ok (threads s t))"

definition sleepers :: "kstate \<Rightarrow> bool" where
  "sleepers s \<longleftrightarrow> kinv s \<and> timers_ordered s \<and> can_schedule s \<and>
     (\<forall>x \<in> set (elems (tmlists s) Hard_timers). sleeper s x)"

definition none_due :: "kstate \<Rightarrow> bool" where
  "none_due s \<longleftrightarrow> (\<forall>x \<in> set (elems (tmlists s) Hard_timers). timeout_tick (timers s x) \<noteq> rt_tick s)"

lemma schedule_returns:
  assumes "kinv s" "can_schedule s"
  shows "\<exists>s'. rt_schedule s = Some s' \<and> rt_current_thread s' \<noteq> None"
proof (cases "rt_scheduler_lock_nest s = 0")
  case True
  from assms(2) obtain u c where "stat (threads s u) = RT_THREAD_READY" "rt_current_thread s = Some c"
    "\<And>t. stat (threads s t) = RT_THREAD_READY \<Longrightarrow> stack_ok (threads s t)"
    by (auto simp: can_schedule_def)
  moreover have "sched_inv s" using assms(1) by (simp add: kinv_def)
  ultimately show ?thesis using True by (elim rt_schedule_highest) auto
qed (use assms(2) in \<open>simp add: rt_schedule_def can_schedule_def\<close>)

lemma stack_ok_upd [simp]:
  "stack_ok (th\<lparr>th_error := e\<rparr>) = stack_ok th" "stack_ok (th\<lparr>stat := st\<rparr>) = stack_ok th"
  "stack_ok (th\<lparr>remaining_tick := w\<rparr>) = stack_ok th"
  by (simp_all add: stack_ok_def)

subsection \<open>A timer that is due\<close>

lemma timeout_returns:
  assumes inv: "kinv s" and st: "stat (threads s t) = RT_THREAD_SUSPEND" "stack_ok (threads s t)" and can: "can_schedule s"
  shows "\<exists>s'. rt_thread_timeout t s = Some s' \<and> rt_current_thread s' \<noteq> None \<and>
    threads s' = (threads s)(t := (threads s t)\<lparr>th_error := - RT_ETIMEOUT, stat := RT_THREAD_READY\<rparr>) \<and>
    objs s' = objs s"
proof -
  let ?s = "upd_thread t (\<lambda>r. r\<lparr>th_error := - RT_ETIMEOUT\<rparr>) s"
  let ?l = "?s\<lparr>tlists := l_remove t (tlists s)\<rparr>"
  have "prio_ok (threads s t)" using kinv_thread_ok [OF inv, of t] st by (simp add: thread_ok_def)
  then have p: "unat (current_priority (threads s t)) < RT_THREAD_PRIORITY_MAX" by (simp add: prio_ok_def)
  obtain s1 where ins: "rt_schedule_insert_thread t ?l = Some s1"
    and th: "threads s1 = (threads s)(t := (threads s t)\<lparr>th_error := - RT_ETIMEOUT, stat := RT_THREAD_READY\<rparr>)"
    and cu: "rt_current_thread s1 = rt_current_thread s" "objs s1 = objs s"
    using p by (auto simp: rt_schedule_insert_thread_Some)
  have "rt_thread_timeout t s = rt_schedule s1"
    using ins st by (simp add: rt_thread_timeout_def rt_assert_def)
  moreover have "kinv s1"
  proof -
    have "rt_thread_timeout t (s\<lparr>rt_scheduler_lock_nest := 1\<rparr>) = Some (s1\<lparr>rt_scheduler_lock_nest := 1\<rparr>)"
      using p st ins by (auto simp: rt_thread_timeout_def rt_schedule_insert_thread_Some rt_schedule_def bind_eq_Some_conv)
    moreover have "kinv (s\<lparr>rt_scheduler_lock_nest := 1\<rparr>)" using inv by simp
    ultimately have "kinv (s1\<lparr>rt_scheduler_lock_nest := 1\<rparr>)" by (rule kinv_timeout)
    then show ?thesis by simp
  qed
  moreover have "can_schedule s1" using can st cu by (auto simp: can_schedule_def th)
  ultimately show ?thesis using schedule_returns [of s1] th cu schedule_same by metis
qed

lemma fire_sleeper:
  assumes s: "sleepers s" and xs: "elems (tmlists s) Hard_timers = Thread_timer t # xs"
  shows "\<exists>s'. timer_fire cb (Thread_timer t) s = Some s' \<and> sleepers s' \<and>
    elems (tmlists s') Hard_timers = xs \<and> timers s' = timers s \<and> rt_tick s' = rt_tick s \<and>
    (\<forall>u. stat (threads s' u) = (if u = t then RT_THREAD_READY else stat (threads s u)))"
proof -
  let ?x = "Thread_timer t"
  let ?r = "s\<lparr>tmlists := l_remove ?x (tmlists s)\<rparr>"
  from s have inv: "kinv s" and ord: "timers_ordered s" and can: "can_schedule s" and sl: "sleeper s ?x"
    using xs by (simp_all add: sleepers_def)
  have wf: "wf_lists (tmlists s)" by (rule kinv_wf_tm [OF inv])
  have k: "kinv ?r" using inv by (simp add: kinv_def timer_inv_def timer_ok_remove)
  have el: "elems (tmlists ?r) h = remove1 ?x (elems (tmlists s) h)" for h by (simp add: elems_l_remove [OF wf])
  have "stat (threads ?r t) = RT_THREAD_SUSPEND" "stack_ok (threads ?r t)" "can_schedule ?r"
    using sl can by (auto simp: sleeper_def can_schedule_def)
  then obtain s1 where t: "rt_thread_timeout t ?r = Some s1" "rt_current_thread s1 \<noteq> None"
    "threads s1 = (threads s)(t := (threads s t)\<lparr>th_error := - RT_ETIMEOUT, stat := RT_THREAD_READY\<rparr>)" "objs s1 = objs s"
    using timeout_returns [OF k, of t] by auto
  let ?f = "upd_obj (Timer_o ?x) (\<lambda>r. r\<lparr>o_flag := o_flag r AND NOT RT_TIMER_FLAG_ACTIVATED\<rparr>) s1"
  note tm = rt_thread_timeout_tm [OF t(1)]
  have fire: "timer_fire cb ?x s = Some ?f"
    using t sl by (auto simp: timer_fire_def call_timeout_def sleeper_def)
  have on: "onlist (tmlists s) ?x \<noteq> None" using wf_listsD(2) [OF wf, of ?x Hard_timers] xs by simp
  have els: "elems (tmlists ?f) Hard_timers = xs" using tm(1) el xs by simp
  have ord': "timers_ordered ?f"
    using ord tm els xs by (auto simp: timers_ordered_def intro: tick_sorted_tl)
  have kf: "kinv ?f"
    using kinv_timeout [OF t(1) k] tm(1) by (auto simp: kinv_def timer_inv_def timer_ok_flag)
  have "stat (threads s t) = RT_THREAD_SUSPEND" "stack_ok (threads s t)" using sl by (simp_all add: sleeper_def)
  then have cf: "can_schedule ?f" using can t(2) by (auto simp: can_schedule_def t(3) sleeper_def)
  have "sleeper ?f y" if y: "y \<in> set xs" for y
  proof -
    have "sleeper s y" using s xs y by (simp add: sleepers_def)
    moreover have "distinct (elems (tmlists s) Hard_timers)" using wf by (simp add: wf_listsD)
    then have "y \<noteq> ?x" using y xs by auto
    ultimately show ?thesis using tm by (auto simp: sleeper_def t(3,4))
  qed
  then have "sleepers ?f" using kf ord' cf els by (simp add: sleepers_def)
  then show ?thesis using fire els tm t(3) by auto
qed

text \<open>The check takes the timers that are due, and these wake their threads.\<close>

lemma check_sleepers:
  assumes "sleepers s"
  shows "\<exists>s'. rt_timer_check cb s = Some s' \<and> sleepers s' \<and> none_due s' \<and> timers s' = timers s \<and> rt_tick s' = rt_tick s \<and>
    (\<forall>u. if Thread_timer u \<in> set (elems (tmlists s) Hard_timers) \<and> timeout_tick (timers s (Thread_timer u)) = rt_tick s
         then stat (threads s' u) = RT_THREAD_READY
         else stat (threads s' u) = stat (threads s u) \<and>
           (Thread_timer u \<in> set (elems (tmlists s) Hard_timers) \<longrightarrow> Thread_timer u \<in> set (elems (tmlists s') Hard_timers)))"
  using assms
proof (induction "elems (tmlists s) Hard_timers" arbitrary: s)
  case Nil
  then show ?case
    by (auto simp: rt_timer_check_def timer_check_loop.simps none_due_def)
next
  case (Cons x xs)
  from Cons.prems Cons.hyps(2) obtain t where x: "x = Thread_timer t" "stat (threads s t) = RT_THREAD_SUSPEND"
    by (metis list.set_intros(1) sleeper_def sleepers_def)
  have srt: "tick_sorted (rt_tick s) (timers s) (x # xs)"
    using Cons.prems Cons.hyps(2) by (simp add: sleepers_def timers_ordered_def)
  then have due: "rt_tick_get s - timeout_tick (timers s x) < RT_TICK_MAX div 2 \<longleftrightarrow> timeout_tick (timers s x) = rt_tick s"
    using due_iff [of "timeout_tick (timers s x)" "rt_tick s"] by (simp add: tick_sorted_Cons rt_tick_get_def)
  show ?case
  proof (cases "timeout_tick (timers s x) = rt_tick s")
    case False
    then have nd: "\<forall>y \<in> set (x # xs). timeout_tick (timers s y) \<noteq> rt_tick s"
      using srt by (auto simp: tick_sorted_Cons)
    then have "rt_timer_check cb s = Some s" "none_due s"
      using False due Cons.hyps(2) [symmetric]
      by (simp_all add: rt_timer_check_def timer_check_loop.simps none_due_def)
    then show ?thesis using nd Cons.prems Cons.hyps(2) by auto
  next
    case True
    obtain s1 where f: "timer_fire cb x s = Some s1" "sleepers s1" "elems (tmlists s1) Hard_timers = xs"
      "timers s1 = timers s" "rt_tick s1 = rt_tick s"
      "\<And>u. stat (threads s1 u) = (if u = t then RT_THREAD_READY else stat (threads s u))"
      using fire_sleeper [OF Cons.prems] Cons.hyps(2) x(1) by metis
    from Cons.hyps(1) [OF f(3) [symmetric] f(2)] obtain s' where s': "rt_timer_check cb s1 = Some s'"
      "sleepers s' \<and> none_due s'" "timers s' = timers s1" "rt_tick s' = rt_tick s1"
      "\<And>u. if Thread_timer u \<in> set xs \<and> timeout_tick (timers s1 (Thread_timer u)) = rt_tick s1
         then stat (threads s' u) = RT_THREAD_READY
         else stat (threads s' u) = stat (threads s1 u) \<and>
           (Thread_timer u \<in> set xs \<longrightarrow> Thread_timer u \<in> set (elems (tmlists s') Hard_timers))"
      unfolding f(3) by blast
    have run: "rt_timer_check cb s = Some s'"
      using f(1) s'(1) True due Cons.hyps(2) [symmetric]
      by (simp add: rt_timer_check_def timer_check_loop.simps [of cb _ s])
    have "if Thread_timer u \<in> set (x # xs) \<and> timeout_tick (timers s (Thread_timer u)) = rt_tick s
         then stat (threads s' u) = RT_THREAD_READY
         else stat (threads s' u) = stat (threads s u) \<and>
           (Thread_timer u \<in> set (x # xs) \<longrightarrow> Thread_timer u \<in> set (elems (tmlists s') Hard_timers))" for u
      using s'(5) [of u] f(4,5) f(6) [of u] x(1) True by (auto split: if_splits)
    then show ?thesis using run s' f(4,5) Cons.hyps(2) by auto
  qed
qed

subsection \<open>A tick\<close>

lemma yield_returns:
  assumes inv: "kinv s" and can: "can_schedule s"
  shows "\<exists>s'. rt_thread_yield s = Some (RT_EOK, s') \<and> rt_current_thread s' \<noteq> None \<and> threads s' = threads s \<and>
    objs s' = objs s"
proof -
  from can obtain t where t: "rt_current_thread s = Some t" by (auto simp: can_schedule_def)
  show ?thesis
  proof (cases "stat (threads s t) = RT_THREAD_READY \<and> l_next (tlists s) (Node t) \<noteq> l_prev (tlists s) (Node t)")
    case False
    with t show ?thesis by (auto simp: rt_thread_yield_def)
  next
    case True
    have si: "sched_inv s" using inv by (simp add: kinv_def)
    from True obtain L where L: "l_insert_last (Ready (unat (current_priority (threads s t)))) t
        (l_remove t (tlists s)) = Some L" "sched_inv (s\<lparr>tlists := L\<rparr>)"
      using sched_inv_to_end [OF si _ refl, of t] by blast
    have "kinv (s\<lparr>tlists := L\<rparr>)" using inv L(2) by (simp add: kinv_def)
    moreover have "can_schedule (s\<lparr>tlists := L\<rparr>)" using can by (simp add: can_schedule_def)
    ultimately obtain s' where s': "rt_schedule (s\<lparr>tlists := L\<rparr>) = Some s'" "rt_current_thread s' \<noteq> None"
      using schedule_returns by blast
    have "rt_thread_yield s = Some (RT_EOK, s')"
      using t True L(1) s'(1) by (simp add: rt_thread_yield_def)
    then show ?thesis using s'(2) schedule_same [OF s'(1)] by auto
  qed
qed

lemma sleepers_same:
  assumes s: "sleepers s" and k: "kinv s'" and o: "timers_ordered s'" and cur: "rt_current_thread s' \<noteq> None"
    and "timers s' = timers s" "tmlists s' = tmlists s" "objs s' = objs s"
    and "\<And>t. stat (threads s' t) = stat (threads s t)" "\<And>t. stack_ok (threads s' t) = stack_ok (threads s t)"
  shows "sleepers s'"
  using assms by (auto simp: sleepers_def can_schedule_def sleeper_def)

lemma tick_sleepers:
  assumes s: "sleepers s" and nd: "none_due s"
  shows "\<exists>s'. rt_tick_increase cb s = Some s' \<and> sleepers s' \<and> none_due s' \<and> timers s' = timers s \<and>
    rt_tick s' = rt_tick s + 1 \<and>
    (\<forall>u. if Thread_timer u \<in> set (elems (tmlists s) Hard_timers) \<and> timeout_tick (timers s (Thread_timer u)) = rt_tick s + 1
         then stat (threads s' u) = RT_THREAD_READY
         else stat (threads s' u) = stat (threads s u) \<and>
           (Thread_timer u \<in> set (elems (tmlists s) Hard_timers) \<longrightarrow> Thread_timer u \<in> set (elems (tmlists s') Hard_timers)))"
proof -
  from s obtain t where t: "rt_current_thread s = Some t" by (auto simp: sleepers_def can_schedule_def)
  from s have inv: "kinv s" and ord: "timers_ordered s" and can: "can_schedule s" by (simp_all add: sleepers_def)
  define th where "th = (if remaining_tick (threads s t) - 1 = 0
    then (threads s t)\<lparr>remaining_tick := init_tick (threads s t)\<rparr>
    else (threads s t)\<lparr>remaining_tick := remaining_tick (threads s t) - 1\<rparr>)"
  let ?s = "s\<lparr>rt_tick := rt_tick s + 1, threads := (threads s)(t := th)\<rparr>"
  have th: "stat th = stat (threads s t)" "stack_ok th = stack_ok (threads s t)"
    by (simp_all add: th_def)
  have "thread_ok th (onlist (tlists s) t)" using kinv_thread_ok [OF inv, of t] by (simp add: th_def)
  then have k: "kinv ?s" using kinv_thread [of "s\<lparr>rt_tick := rt_tick s + 1\<rparr>" th t] inv by simp
  have o: "timers_ordered ?s"
    using ord nd tick_sorted_next by (simp add: timers_ordered_def none_due_def)
  have c: "can_schedule ?s" using can th by (auto simp: can_schedule_def)
  obtain s1 where run: "rt_tick_increase cb s = rt_timer_check cb s1"
    and s1: "s1 = ?s \<or> rt_thread_yield ?s = Some (RT_EOK, s1) \<and> rt_current_thread s1 \<noteq> None \<and>
      threads s1 = threads ?s \<and> objs s1 = objs ?s"
  proof (cases "remaining_tick (threads s t) - 1 = 0")
    case True
    obtain s1 where "rt_thread_yield ?s = Some (RT_EOK, s1)" "rt_current_thread s1 \<noteq> None \<and>
        threads s1 = threads ?s \<and> objs s1 = objs ?s"
      using yield_returns [OF k c] by blast
    moreover from this(1) True have "rt_tick_increase cb s = rt_timer_check cb s1"
      using t by (simp add: rt_tick_increase_def rt_thread_self_def Let_def th_def)
    ultimately show ?thesis using that by blast
  next
    case False
    then have "rt_tick_increase cb s = rt_timer_check cb ?s"
      using t by (simp add: rt_tick_increase_def rt_thread_self_def Let_def th_def)
    then show ?thesis using that by blast
  qed
  have tm: "timers s1 = timers s" "tmlists s1 = tmlists s" "rt_tick s1 = rt_tick s + 1" "kinv s1"
    using s1 k yield_tm [OF _ k] kinv_yield [OF _ k] by auto
  have st: "stat (threads s1 u) = stat (threads s u)" "stack_ok (threads s1 u) = stack_ok (threads s u)" for u
    using s1 th by (cases "u = t"; auto)+
  have "timers_ordered s1" using o tm by (simp add: timers_ordered_def)
  then have "sleepers s1" using s1 tm st t by (intro sleepers_same [OF s]) auto
  from check_sleepers [OF this, of cb] show ?thesis unfolding run tm st by simp
qed

text \<open>A thread whose timer is due after \<open>n\<close> ticks.\<close>

definition wakes_in :: "tid \<Rightarrow> nat \<Rightarrow> kstate \<Rightarrow> bool" where
  "wakes_in t n s \<longleftrightarrow> stat (threads s t) = RT_THREAD_SUSPEND \<and>
     Thread_timer t \<in> set (elems (tmlists s) Hard_timers) \<and>
     timeout_tick (timers s (Thread_timer t)) = rt_tick s + word_of_nat n"

lemma sleepers_nest:
  "sleepers (s\<lparr>rt_interrupt_nest := i\<rparr>) = sleepers s" "none_due (s\<lparr>rt_interrupt_nest := i\<rparr>) = none_due s"
  "wakes_in t n (s\<lparr>rt_interrupt_nest := i\<rparr>) = wakes_in t n s"
  by (simp_all add: sleepers_def none_due_def wakes_in_def can_schedule_def sleeper_def timers_ordered_def)

lemma ticks_sleepers:
  assumes s: "sleepers s" "none_due s" and w: "wakes_in t n s" and n: "n < 2 ^ 32"
  shows "k \<le> n \<Longrightarrow> \<exists>s'. ticks cb k s = Some s' \<and> sleepers s' \<and> none_due s' \<and>
    (if k < n then wakes_in t (n - k) s' else stat (threads s' t) = RT_THREAD_READY)"
proof (induction k)
  case 0
  have "n \<noteq> 0"
  proof
    assume "n = 0"
    then show False using s(2) w by (auto simp: none_due_def wakes_in_def)
  qed
  then show ?case using s w by simp
next
  case (Suc k)
  then obtain s1 where s1: "ticks cb k s = Some s1" "sleepers s1" "none_due s1" "wakes_in t (n - k) s1" by auto
  then have e: "sleepers (rt_interrupt_enter s1)" "none_due (rt_interrupt_enter s1)" "wakes_in t (n - k) (rt_interrupt_enter s1)"
    by (simp_all add: rt_interrupt_enter_def sleepers_nest)
  let ?e = "rt_interrupt_enter s1"
  from tick_sleepers [OF e(1,2), of cb] obtain s2 where s2: "rt_tick_increase cb ?e = Some s2" "sleepers s2" "none_due s2"
    "timers s2 = timers ?e" "rt_tick s2 = rt_tick ?e + 1"
    "if Thread_timer t \<in> set (elems (tmlists ?e) Hard_timers) \<and> timeout_tick (timers ?e (Thread_timer t)) = rt_tick ?e + 1
     then stat (threads s2 t) = RT_THREAD_READY
     else stat (threads s2 t) = stat (threads ?e t) \<and>
       (Thread_timer t \<in> set (elems (tmlists ?e) Hard_timers) \<longrightarrow> Thread_timer t \<in> set (elems (tmlists s2) Hard_timers))"
    by blast
  have on: "Thread_timer t \<in> set (elems (tmlists ?e) Hard_timers)"
    and due: "timeout_tick (timers ?e (Thread_timer t)) = rt_tick ?e + word_of_nat (n - k)"
    and st: "stat (threads ?e t) = RT_THREAD_SUSPEND"
    using e(3) by (simp_all add: wakes_in_def)
  have "if Suc k < n then wakes_in t (n - Suc k) s2 else stat (threads s2 t) = RT_THREAD_READY"
  proof (cases "Suc k < n")
    case True
    then obtain m where m: "n - k = Suc m" "m \<noteq> 0" "m = n - Suc k" by (metis Suc_diff_Suc Suc_lessD zero_less_diff less_numeral_extra(3))
    have "word_of_nat m \<noteq> (0 :: u32)"
    proof
      assume "word_of_nat m = (0 :: u32)"
      then have "unat (word_of_nat m :: u32) = 0" by simp
      moreover have "unat (word_of_nat m :: u32) = m" using m n by (intro unat_small) simp
      ultimately show False using m(2) by simp
    qed
    then have "timeout_tick (timers ?e (Thread_timer t)) \<noteq> rt_tick ?e + 1" using due m(1) by simp
    then show ?thesis using True s2(4-6) on due st m by (simp add: wakes_in_def)
  next
    case False
    with Suc.prems have "n - k = 1" by simp
    then show ?thesis using False s2(6) on due by simp
  qed
  then show ?case using s1(1) s2(1-3) by (simp add: rt_interrupt_leave_def sleepers_nest)
qed

subsection \<open>Sleeping\<close>

text \<open>The timer of a thread as \<^verbatim>\<open>rt_thread_init\<close> sets it up, not running.\<close>

definition thread_timer_ok :: "kstate \<Rightarrow> tid \<Rightarrow> bool" where
  "thread_timer_ok s t \<longleftrightarrow>
     timeout_func (timers s (Thread_timer t)) = Rt_thread_timeout \<and> tm_parameter (timers s (Thread_timer t)) = t \<and>
     timer_flag s (Thread_timer t) AND RT_TIMER_FLAG_PERIODIC = 0 \<and>
     timer_flag s (Thread_timer t) AND RT_TIMER_FLAG_SOFT_TIMER = 0 \<and>
     timer_flag s (Thread_timer t) AND RT_TIMER_FLAG_ACTIVATED = 0"

lemma sleep_starts:
  assumes s: "sleepers s" "none_due s" and cur: "rt_current_thread s = Some t" "stat (threads s t) = RT_THREAD_READY"
    and other: "stat (threads s u) = RT_THREAD_READY" "u \<noteq> t" and tm: "thread_timer_ok s t"
    and tick: "0 < tick" "tick < RT_TICK_MAX div 2"
  shows "\<exists>s'. rt_thread_sleep tick s = Some s' \<and> sleepers s' \<and> none_due s' \<and> wakes_in t (unat tick) s'"
proof -
  let ?x = "Thread_timer t"
  from s have inv: "kinv s" and ord: "timers_ordered s" and can: "can_schedule s" by (simp_all add: sleepers_def)
  have "prio_ok (threads s t)" using kinv_thread_ok [OF inv, of t] cur by (simp add: thread_ok_def)
  then obtain s1 where sus: "rt_thread_suspend t s = Some (RT_EOK, s1)" 
    and s1: "threads s1 = (threads s)(t := (threads s t)\<lparr>stat := RT_THREAD_SUSPEND\<rparr>)" "timers s1 = timers s"
      "tmlists s1 = tmlists s" "objs s1 = objs s" "rt_tick s1 = rt_tick s" "rt_current_thread s1 = rt_current_thread s"
    using cur(2) by (auto simp: rt_thread_suspend_Some rt_schedule_remove_thread_Some prio_ok_def)
  have k1: "kinv s1" by (rule kinv_suspend [OF sus inv])
  let ?s2 = "upd_timer ?x (\<lambda>r. r\<lparr>tm_init_tick := tick\<rparr>) s1"
  have ctl: "rt_timer_control ?x RT_TIMER_CTRL_SET_TIME tick s1 = (RT_EOK, tick, ?s2)"
    by (simp add: rt_timer_control_def RT_TIMER_CTRL_SET_TIME_def RT_TIMER_CTRL_GET_TIME_def)
  have k2: "kinv ?s2" using kinv_timer_control [OF k1, of ?x RT_TIMER_CTRL_SET_TIME tick] unfolding ctl by simp
  have un: "onlist (tmlists ?s2) ?x = None"
    using k2 tm s1 by (auto simp: kinv_def timer_inv_def thread_timer_ok_def intro: timer_ok_inactive)
  let ?s3 = "upd_timer ?x (\<lambda>r. r\<lparr>timeout_tick := rt_tick s + tick\<rparr>) ?s2"
  have wf: "wf_lists (tmlists ?s3)" using kinv_wf_tm [OF k2] by simp
  obtain s4 where ins: "timer_insert Hard_timers ?x ?s3 = Some s4"
    unfolding timer_insert_Some [OF wf] using un by simp
  note ins' = ins [unfolded timer_insert_Some [OF wf]]
  have f5: "threads s4 = threads s1" "rt_current_thread s4 = rt_current_thread s" "timers s4 = timers ?s3"
    "objs s4 = objs s" "rt_tick s4 = rt_tick s"
    "set (elems (tmlists s4) Hard_timers) = insert ?x (set (elems (tmlists s) Hard_timers))"
  proof -
    have "set (takeWhile P xs @ y # dropWhile P xs) = insert y (set xs)" for P and y :: tmr and xs
      using set_append [of "takeWhile P xs" "dropWhile P xs"] by (simp del: set_append) auto
    then show "set (elems (tmlists s4) Hard_timers) = insert ?x (set (elems (tmlists s) Hard_timers))"
      using ins' s1 by auto
  qed (use ins' s1 in auto)
  let ?s5 = "upd_obj (Timer_o ?x) (\<lambda>r. r\<lparr>o_flag := o_flag r OR RT_TIMER_FLAG_ACTIVATED\<rparr>) s4"
  have start: "rt_timer_start ?x ?s2 = Some (- RT_EOK, ?s5)"
    using tm s1 tick ins f5(4)
    by (simp add: rt_timer_start_def rt_tick_get_def thread_timer_ok_def rt_assert_def Let_def)
  have k5: "kinv ?s5" by (rule kinv_timer_start [OF start k2])
  have "timeout_tick (timers ?s2 y) = timeout_tick (timers s y)" for y using s1 by simp
  then have "timers_ordered ?s2"
    using ord s1 unfolding timers_ordered_def tick_sorted_def by (simp del: fun_upd_apply)
  then have o5: "timers_ordered ?s5" by (rule timer_start_ordered [OF start k2])
  have c5: "can_schedule ?s5"
    using can other cur by (auto simp: can_schedule_def f5 s1)
  obtain s' where s': "rt_schedule ?s5 = Some s'" "rt_current_thread s' \<noteq> None" using schedule_returns [OF k5 c5] by blast
  note same = schedule_same [OF s'(1)]
  have run: "rt_thread_sleep tick s = Some s'"
    using cur sus ctl start s'(1) by (simp add: rt_thread_sleep_def)
  have x: "?x \<notin> set (elems (tmlists s) Hard_timers)" using un s1 wf_listsD(2) [OF wf, of ?x Hard_timers] by simp
  have sl: "\<forall>y \<in> set (elems (tmlists ?s5) Hard_timers). sleeper ?s5 y"
  proof
    fix y assume y: "y \<in> set (elems (tmlists ?s5) Hard_timers)"
    show "sleeper ?s5 y"
    proof (cases "y = ?x")
      case True
      have "(f OR RT_TIMER_FLAG_ACTIVATED) AND RT_TIMER_FLAG_PERIODIC = f AND RT_TIMER_FLAG_PERIODIC" for f :: u8
        by (rule bit_word_eqI) (auto simp: bit_simps RT_TIMER_FLAG_ACTIVATED_def RT_TIMER_FLAG_PERIODIC_def)
      moreover have "stack_ok (threads s t)" using can cur(2) by (simp add: can_schedule_def)
      ultimately show ?thesis using True tm by (simp add: sleeper_def f5 s1 thread_timer_ok_def)
    next
      case False
      then have "y \<in> set (elems (tmlists s) Hard_timers)" using y f5(6) by simp
      then have "sleeper s y" using s(1) by (simp add: sleepers_def)
      then show ?thesis using False x cur(2) by (auto simp: sleeper_def f5 s1)
    qed
  qed
  then have "sleepers ?s5" using k5 o5 c5 by (simp add: sleepers_def)
  then have sl': "sleepers s'"
    using kinv_schedule [OF s'(1) k5] o5 same s'(2) by (intro sleepers_same [of ?s5 s']) (auto simp: timers_ordered_def)
  have w: "wakes_in t (unat tick) s'" by (simp add: wakes_in_def same f5 s1)
  have "none_due s'"
    using s(2) x tick(1) by (auto simp: none_due_def same f5 s1)
  then show ?thesis using run sl' w by blast
qed

text \<open>A thread that sleeps is woken by the tick for which it asked, and by no earlier one.\<close>

lemma sleep_ends:
  assumes s: "sleepers s" "none_due s" and cur: "rt_current_thread s = Some t" "stat (threads s t) = RT_THREAD_READY"
    and other: "stat (threads s u) = RT_THREAD_READY" "u \<noteq> t" and tm: "thread_timer_ok s t"
    and tick: "0 < tick" "tick < RT_TICK_MAX div 2"
  shows "\<exists>s1. rt_thread_sleep tick s = Some s1 \<and> (\<forall>k \<le> unat tick. \<exists>s2. ticks cb k s1 = Some s2 \<and>
    stat (threads s2 t) = (if k < unat tick then RT_THREAD_SUSPEND else RT_THREAD_READY))"
proof -
  obtain s1 where s1: "rt_thread_sleep tick s = Some s1" "sleepers s1" "none_due s1" "wakes_in t (unat tick) s1"
    using sleep_starts [OF assms] by blast
  have n: "unat tick < 2 ^ 32" using unsigned_less [of tick, where ?'a = nat] by simp
  have "\<exists>s2. ticks cb k s1 = Some s2 \<and>
    stat (threads s2 t) = (if k < unat tick then RT_THREAD_SUSPEND else RT_THREAD_READY)" if "k \<le> unat tick" for k
    using ticks_sleepers [OF s1(2-4) n that, of cb] by (auto simp: wakes_in_def split: if_splits)
  with s1(1) show ?thesis by blast
qed

end
