(* ===== verification/Example_System.thy ===== *)
theory Example_System
  imports Msgqueue_Trace Object_Types Sleeping
begin

text \<open>
  A small system, started the way \<^verbatim>\<open>rtthread_startup\<close> of the board starts one: the scheduler
  is initialised, an idle thread and two others are made and started, a semaphore, a mutex, an
  event and a mailbox are set up, and the first thread is switched to. It is the concrete state
  on which general statements about the kernel are tried out; a message queue and a memory pool are
  added to it where they are needed.
\<close>

text \<open>A form of the search that the simplifier evaluates faster than the table.\<close>

lemma highest_ready_priority_find [code]:
  "highest_ready_priority g = (case List.find (bit g) [0..<32] of Some p \<Rightarrow> p | None \<Rightarrow> 24)"
proof (cases "g = 0")
  case True
  then have "List.find (bit g) [0..<32] = None" unfolding find_None_iff by simp
  with True show ?thesis by (simp add: highest_ready_priority_def rt_lowest_bitmap_def)
next
  case False
  let ?p = "highest_ready_priority g"
  have p: "?p < 32" "bit g ?p" "\<forall>j < ?p. \<not> bit g j" using highest_ready_priority_bit [OF False] by auto
  have "List.find (bit g) [0..<32] = Some ?p"
    unfolding find_Some_iff using p by (auto intro!: exI [of _ ?p])
  then show ?thesis by simp
qed

declare timer_check_loop.simps [code] soft_timer_loop.simps [code] rt_ipc_list_resume_all.simps [code]
  malloc_find.simps [code] next_free.simps [code] mq_drain.simps [code] mp_resume_all.simps [code]

definition zero_heap :: heap where
  "zero_heap = \<lparr>heap_ptr = 0, heap_end = 0,
     hdr = (\<lambda>_. \<lparr>hm_magic = 0, hm_used = 0, hm_next = 0, hm_prev = 0\<rparr>),
     lfree = 0, mem_size_aligned = 0, used_mem = 0, max_mem = 0, heap_sem = 0, heap_bytes = (\<lambda>_. 0)\<rparr>"

definition zero_thread :: rt_thread where
  "zero_thread = \<lparr>sp = 0, entry = 0, th_parameter = 0, stack_addr = 0, stack_size = 0, th_error = 0,
     stat = RT_THREAD_INIT, current_priority = 0, init_priority = 0, number_mask = 0, event_set = 0,
     event_info = 0, init_tick = 0, remaining_tick = 0, cleanup = None, user_data = 0\<rparr>"

text \<open>Memory all zero, and the lists and variables as \<^verbatim>\<open>rt_system_scheduler_init\<close> leaves
  them.\<close>

definition k_zero :: kstate where
  "k_zero = \<lparr>objs = (\<lambda>_. \<lparr>o_name = [], o_type = 0, o_flag = 0\<rparr>),
     obj_lists = \<lparr>elems = (\<lambda>_. []), onlist = (\<lambda>_. None)\<rparr>,
     object_size = (\<lambda>_. 128),
     threads = (\<lambda>_. zero_thread),
     tlists = \<lparr>elems = (\<lambda>_. []), onlist = (\<lambda>_. None)\<rparr>,
     timers = (\<lambda>_. \<lparr>timeout_func = User_func 0, tm_parameter = 0, tm_init_tick = 0, timeout_tick = 0\<rparr>),
     tmlists = \<lparr>elems = (\<lambda>_. []), onlist = (\<lambda>_. None)\<rparr>,
     sems = (\<lambda>_. \<lparr>sem_value = 0\<rparr>),
     mutexes = (\<lambda>_. \<lparr>mtx_value = 0, original_priority = 0, hold = 0, owner = None\<rparr>),
     events = (\<lambda>_. \<lparr>ev_set = 0\<rparr>),
     mailboxes = (\<lambda>_. \<lparr>mb_msg_pool = 0, mb_msgs = (\<lambda>_. 0), mb_size = 0, mb_entry = 0,
                       in_offset = 0, out_offset = 0\<rparr>),
     msgqueues = (\<lambda>_. \<lparr>mq_msg_pool = 0, msg_size = 0, max_msgs = 0, mq_entry = 0, msg_queue_head = None,
                       msg_queue_tail = None, msg_queue_free = None, msg_next = (\<lambda>_. None),
                       msg_data = (\<lambda>_ _. 0)\<rparr>),
     mempools = (\<lambda>_. \<lparr>start_address = 0, mp_size = 0, block_size = 0, block_list = None,
                      block_total_count = 0, block_free_count = 0, suspend_thread_count = 0\<rparr>),
     mp_mem = (\<lambda>_. Next_block None),
     rt_scheduler_lock_nest = 0, rt_interrupt_nest = 0, rt_thread_ready_priority_group = 0,
     rt_current_thread = None, rt_current_priority = 31, rt_tick = 0, timer_thread = 99,
     rt_interrupt_from_thread = None, rt_interrupt_to_thread = None,
     rt_thread_switch_interrupt_flag = False, kheap = zero_heap,
     completions = (\<lambda>_. \<lparr>cmp_flag = 0\<rparr>),
     data_queues = (\<lambda>_. \<lparr>dq_size = 0, lwm = 0, waiting_lwm = False, get_index = 0, put_index = 0, dq_mem = 0,
                         dq_items = (\<lambda>_. (0, 0)), evt_notify = None\<rparr>),
     pipes = (\<lambda>_. \<lparr>ringbuffer = \<lparr>read_index = 0, write_index = 0, buffer_ptr = [], buffer_size = 0\<rparr>, buffer_addr = 0\<rparr>),
     devices = (\<lambda>_. \<lparr>dev_type = 0, dev_flag = 0, open_flag = 0, rx_indicate = None, tx_complete = None,
                     dev_init = None, dev_open = None, dev_close = None, dev_read = None, dev_write = None,
                     dev_control = None\<rparr>),
     rt_errno = 0\<rparr>"

text \<open>Thread 0 is the idle thread; thread 1 has priority 10 and thread 2 priority 20.\<close>

definition new_thread :: "tid \<Rightarrow> u32 \<Rightarrow> u8 \<Rightarrow> kstate \<Rightarrow> kstate option" where
  "new_thread t stk pr s = do {
     (_, s) \<leftarrow> rt_thread_init t [116] 0 0 stk 512 pr 5 s;
     (_, s) \<leftarrow> rt_thread_startup t s;
     Some s
   }"

text \<open>A sequence of operations, each on the state the one before has left.\<close>

definition run_op :: "(kstate \<Rightarrow> ('r \<times> kstate) option) \<Rightarrow> kstate \<Rightarrow> kstate option" where
  "run_op f s = map_option snd (f s)"

definition run_all :: "(kstate \<Rightarrow> kstate option) list \<Rightarrow> kstate \<Rightarrow> kstate option" where
  "run_all fs s = foldl Option.bind (Some s) fs"

lemma run_all_simps [simp]:
  "run_all [] s = Some s" "run_all (f # fs) s = Option.bind (f s) (run_all fs)"
proof -
  have "foldl Option.bind m gs = Option.bind m (run_all gs)" for gs and m :: "kstate option"
  proof (cases m)
    case None
    then show ?thesis by (induction gs) simp_all
  qed (simp add: run_all_def)
  then show "run_all (f # fs) s = Option.bind (f s) (run_all fs)" by (simp add: run_all_def)
qed (simp add: run_all_def)

lemma run_op_Some: "run_op f s = Some s' \<longleftrightarrow> (\<exists>r. f s = Some (r, s'))"
  by (auto simp: run_op_def)

definition boot :: "kstate option" where
  "boot = run_all
     [new_thread 0 0x1000 31, new_thread 1 0x2000 10, new_thread 2 0x3000 20,
      run_op (rt_sem_init 1 [115] 0 RT_IPC_FLAG_PRIO), run_op (rt_mutex_init 1 [109] RT_IPC_FLAG_PRIO),
      run_op (rt_event_init 1 [101] RT_IPC_FLAG_PRIO), run_op (rt_mb_init 1 [98] 4 2 RT_IPC_FLAG_PRIO),
      rt_system_scheduler_start] k_zero"

definition demo :: kstate where
  "demo = (case boot of Some s \<Rightarrow> s | None \<Rightarrow> k_zero)"

lemma scheduler_init_k_zero: "rt_system_scheduler_init k_zero = Some k_zero"
proof -
  have head: "on_tlists (l_init_head h) k_zero = Some k_zero" for h
    by (simp add: l_init_head_def k_zero_def fun_upd_idem)
  have "fold (\<lambda>p m. do { s \<leftarrow> m; on_tlists (l_init_head (Ready p)) s }) ps (Some k_zero) = Some k_zero" for ps
    by (induction ps) (simp_all only: fold_Nil fold_Cons id_apply comp_apply bind.bind_lunit head)
  moreover have "k_zero\<lparr>rt_scheduler_lock_nest := 0\<rparr> = k_zero"
    "k_zero\<lparr>rt_current_priority := of_nat (RT_THREAD_PRIORITY_MAX - 1), rt_current_thread := None,
       rt_thread_ready_priority_group := 0\<rparr> = k_zero"
    by (simp_all add: k_zero_def RT_THREAD_PRIORITY_MAX_def)
  ultimately show ?thesis
    unfolding rt_system_scheduler_init_def Let_def by (simp only: bind.bind_lunit head)
qed

lemma option_case_Some: "m \<noteq> None \<Longrightarrow> m = Some (case m of Some x \<Rightarrow> x | None \<Rightarrow> d)"
  by (cases m) simp_all

lemma boot_runs: "boot \<noteq> None"
  by code_simp

lemma boot_demo: "boot = Some demo"
  unfolding demo_def by (rule option_case_Some [OF boot_runs])

lemma wf_no_lists: "wf_lists \<lparr>elems = (\<lambda>_. []), onlist = (\<lambda>_. None)\<rparr>"
  by (simp add: wf_lists_def)

lemma kinv_k_zero: "kinv k_zero"
  by (simp add: kinv_def sched_inv_def sched_but_def timer_inv_def timer_ok_def thread_ok_def bitmap_ok_def
      k_zero_def zero_thread_def wf_no_lists)

lemma kinv_new_thread: "new_thread t stk pr s = Some s' \<Longrightarrow> kinv s \<Longrightarrow> kinv s'"
  by (auto simp: new_thread_def bind_eq_Some_conv intro: kinv_startup kinv_rt_thread_init)

lemma kinv_start: "rt_system_scheduler_start s = Some s' \<Longrightarrow> kinv s \<Longrightarrow> kinv s'"
  by (auto simp: rt_system_scheduler_start_def Let_def split: list.splits)

lemma kinv_demo: "kinv demo"
  using boot_demo
  by (auto simp: boot_def bind_eq_Some_conv run_op_Some kinv_k_zero
      elim!: kinv_start kinv_mb_init kinv_event_init kinv_mutex_init kinv_sem_init kinv_new_thread)

text \<open>The facts of this state that its uses rest on.\<close>

lemma demo_current: "rt_current_thread demo = Some 1"
  by code_simp

lemma demo_ready: "stat (threads demo 1) = RT_THREAD_READY"
  by code_simp

lemma demo_self_ready: "self_ready demo"
  by (simp add: self_ready_def demo_current demo_ready del: One_nat_def)

text \<open>A ready thread is on one of the 32 lists, so what is checked for the threads on them holds for
  all ready threads.\<close>

lemma ready_all:
  assumes "kinv s" "\<forall>p \<in> set [0..<32]. \<forall>t \<in> set (elems (tlists s) (Ready p)). P t"
    and "stat (threads s t) = RT_THREAD_READY"
  shows "P t"
proof -
  have "sched_but {} (threads s) (tlists s) (rt_thread_ready_priority_group s)"
    using assms(1) by (simp add: kinv_def sched_inv_def)
  from sched_ready_iff [OF this] have "t \<in> set (elems (tlists s) (Ready (unat (current_priority (threads s t)))))"
    using assms(3) by simp
  moreover have "unat (current_priority (threads s t)) < 32"
    using kinv_thread_ok [OF assms(1), of t] assms(3)
    by (simp add: thread_ok_def prio_ok_def RT_THREAD_PRIORITY_MAX_def)
  ultimately show ?thesis using assms(2) by auto
qed

lemma demo_stack: "stat (threads demo t) = RT_THREAD_READY \<Longrightarrow> stack_ok (threads demo t)"
  by (rule ready_all [OF kinv_demo]) code_simp

lemma demo_typed: "container_typed demo"
proof -
  let ?cs = "[RT_Object_Class_Thread, RT_Object_Class_Semaphore, RT_Object_Class_Mutex, RT_Object_Class_Event,
    RT_Object_Class_MailBox, RT_Object_Class_MessageQueue, RT_Object_Class_MemPool, RT_Object_Class_Device,
    RT_Object_Class_Timer, RT_Object_Class_Unknown]"
  have "\<forall>c \<in> set ?cs. \<forall>x \<in> set (elems (obj_lists demo) c). class_of x = c \<and> type_ok (objs demo x) c" by code_simp
  moreover have "c \<in> set ?cs" for c by (cases c) simp_all
  ultimately show ?thesis using kinv_demo unfolding container_typed_def kinv_def by blast
qed

text \<open>A run of calls, each of the thread that runs then.\<close>

lemma self_ready_code [code]:
  "self_ready s = (case rt_current_thread s of None \<Rightarrow> True | Some t \<Rightarrow> stat (threads s t) = RT_THREAD_READY)"
  by (auto simp: self_ready_def split: option.splits)

primrec run_calls :: "sys_call list \<Rightarrow> kstate \<Rightarrow> kstate option" where
  "run_calls [] s = Some s"
| "run_calls (c # cs) s =
     (if self_ready s \<and> call_ok c s then Option.bind (sys_exec c s) (run_calls cs) else None)"

lemma reach_run_calls: "run_calls cs s = Some s' \<Longrightarrow> kreach tab s0 s \<Longrightarrow> kreach tab s0 s'"
proof (induction cs arbitrary: s)
  case (Cons c cs)
  then obtain s1 where "self_ready s" "call_ok c s" "sys_exec c s = Some s1" "run_calls cs s1 = Some s'"
    by (auto simp: bind_eq_Some_conv split: if_splits)
  then show ?case using Cons.IH Cons.prems(2) kreach.step kstep.call by blast
qed simp

definition demo_after :: "sys_call list \<Rightarrow> kstate" where
  "demo_after cs = (case run_calls cs demo of Some s \<Rightarrow> s | None \<Rightarrow> demo)"

lemma reach_demo_after: "kreach tab demo (demo_after cs)"
  by (auto simp: demo_after_def intro: reach_run_calls kreach.start split: option.splits)

lemma kinv_demo_after: "kinv (demo_after cs)"
  using reach_demo_after [of "\<lambda>_ _. Isr_nothing"] kinv_demo by (rule kinv_reach)

text \<open>Thread 1 has taken the semaphore, which is not free, and waits for at most one tick.\<close>

definition demo_waiting :: kstate where
  "demo_waiting = demo_after [Sem_call (Sys_sem_take 1 1)]"

lemma kinv_demo_waiting: "kinv demo_waiting"
  unfolding demo_waiting_def by (rule kinv_demo_after)

lemma demo_waiting_list: "elems (tlists demo_waiting) (Sem_wait 1) = [1]"
  by code_simp

text \<open>A second thread of the priority of the running one.\<close>

definition demo_pair :: kstate where
  "demo_pair = (case new_thread 3 0x5000 10 demo of Some s \<Rightarrow> s | None \<Rightarrow> demo)"

lemma kinv_demo_pair: "kinv demo_pair"
  using kinv_demo by (auto simp: demo_pair_def intro: kinv_new_thread split: option.splits)

text \<open>Thread 2, of priority 20, has taken the mutex, and thread 1 runs.\<close>

definition demo_owned :: kstate where
  "demo_owned = upd_mutex 1 (\<lambda>_. \<lparr>mtx_value = 0, original_priority = 20, hold = 1, owner = Some 2\<rparr>) demo"

lemma kinv_demo_owned: "kinv demo_owned"
  unfolding demo_owned_def using kinv_demo by simp

lemma demo_owned_self: "self_ready demo_owned"
  using demo_self_ready by (simp add: demo_owned_def self_ready_def)

text \<open>Thread 1 waits for the mutex, and thread 2, which owns it, runs.\<close>

definition demo_contended :: kstate where
  "demo_contended = (case rt_mutex_take 1 10 demo_owned of Some (_, s) \<Rightarrow> s | None \<Rightarrow> demo_owned)"

lemma kinv_demo_contended: "kinv demo_contended"
  using kinv_demo_owned demo_owned_self
  by (auto simp: demo_contended_def intro: kinv_mutex_take split: option.splits)

text \<open>Runs with tick interrupts.\<close>

datatype demo_event = Do sys_call | Drv drv_call | Sec thread_section | Tick

abbreviation no_user_timers :: "nat \<Rightarrow> nat \<Rightarrow> isr_op" where
  "no_user_timers \<equiv> \<lambda>_ _. Isr_nothing"

primrec run_events :: "demo_event list \<Rightarrow> kstate \<Rightarrow> kstate option" where
  "run_events [] s = Some s"
| "run_events (e # es) s =
     (case e of
        Do c \<Rightarrow> if self_ready s \<and> call_ok c s then Option.bind (sys_exec c s) (run_events es) else None
      | Drv c \<Rightarrow> if self_ready s \<and> drv_call_ok c s then Option.bind (drv_exec no_user_timers c s) (run_events es) else None
      | Sec c \<Rightarrow> if section_ok c s then Option.bind (section_exec c s) (run_events es) else None
      | Tick \<Rightarrow> Option.bind (rt_tick_increase (isr_callbacks no_user_timers) (rt_interrupt_enter s))
          (\<lambda>s. run_events es (rt_interrupt_leave s)))"

lemma reach_run_events:
  "run_events es s = Some s' \<Longrightarrow> kreach no_user_timers s0 s \<Longrightarrow> kreach no_user_timers s0 s'"
proof (induction es arbitrary: s)
  case (Cons e es)
  show ?case
  proof (cases e)
    case (Do c)
    with Cons.prems obtain s1 where "self_ready s" "call_ok c s" "sys_exec c s = Some s1" "run_events es s1 = Some s'"
      by (auto simp: bind_eq_Some_conv split: if_splits)
    then show ?thesis using Cons.IH Cons.prems(2) kreach.step kstep.call by blast
  next
    case (Drv c)
    with Cons.prems obtain s1 where "self_ready s" "drv_call_ok c s" "drv_exec no_user_timers c s = Some s1"
      "run_events es s1 = Some s'"
      by (auto simp: bind_eq_Some_conv split: if_splits)
    then show ?thesis using Cons.IH Cons.prems(2) kreach.step kstep.driver by blast
  next
    case (Sec c)
    with Cons.prems obtain s1 where "section_ok c s" "section_exec c s = Some s1" "run_events es s1 = Some s'"
      by (auto simp: bind_eq_Some_conv split: if_splits)
    then show ?thesis using Cons.IH Cons.prems(2) kreach.step kstep.section_of by blast
  next
    case Tick
    with Cons.prems obtain s1 where "rt_tick_increase (isr_callbacks no_user_timers) (rt_interrupt_enter s) = Some s1"
      "run_events es (rt_interrupt_leave s1) = Some s'" by (auto simp: bind_eq_Some_conv)
    then show ?thesis using Cons.IH Cons.prems(2) kreach.step kstep.tick by blast
  qed
qed simp

lemma run_events_reach:
  "map_option P (run_events es s) = Some True \<Longrightarrow> \<exists>s'. kreach no_user_timers s s' \<and> P s'"
  using reach_run_events [OF _ kreach.start] by blast

text \<open>Thread 1 sleeps, thread 2 waits for the semaphore for two ticks, and thread 1 is woken. It begins to delete thread 2, and the
  tick comes that ends the wait. What is left of \<^verbatim>\<open>rt_thread_delete\<close> closes thread 2 on its ready list.\<close>

lemma delete_interrupted:
  "\<exists>s s'. kreach no_user_timers demo s \<and> run_sections [Sec_timer 2, Sec_timer_object 2, Sec_close 2] s = Some s' \<and>
     rt_current_thread s' = Some 1 \<and> stat (threads s' 2) = RT_THREAD_CLOSE \<and> 2 \<in> set (elems (tlists s') (Ready 20)) \<and>
     section_exec (Sec_defunct 2) s' = None"
proof -
  let ?es = "[Do (Thread_call (Sys_thread_delay 1)), Do (Sem_call (Sys_sem_take 1 2)), Tick, Sec (Sec_remove 2), Tick]"
  let ?P = "\<lambda>s. (case run_sections [Sec_timer 2, Sec_timer_object 2, Sec_close 2] s of None \<Rightarrow> False | Some s' \<Rightarrow>
     rt_current_thread s' = Some 1 \<and> stat (threads s' 2) = RT_THREAD_CLOSE \<and> 2 \<in> set (elems (tlists s') (Ready 20)) \<and>
     section_exec (Sec_defunct 2) s' = None)"
  have "map_option ?P (run_events ?es demo) = Some True" by code_simp
  from run_events_reach [OF this] show ?thesis by (force split: option.splits)
qed

text \<open>With a message queue of three messages of 8 bytes.\<close>

definition demo_mq :: kstate where
  "demo_mq = demo_after [Mq_call (Sys_mq_init 1 [113] 0 8 36 RT_IPC_FLAG_PRIO)]"

lemma kinv_demo_mq: "kinv demo_mq"
  unfolding demo_mq_def by (rule kinv_demo_after)

lemma demo_mq_good: "mq_good (msgqueues demo_mq 1)" "mq_msgs (msgqueues demo_mq 1) = []" "msg_size (msgqueues demo_mq 1) = 8"
proof -
  let ?q = "msgqueues demo_mq 1"
  have "slots (msg_next ?q) (msg_queue_free ?q) [2, 1, 0]" "slots (msg_next ?q) (msg_queue_head ?q) []"
    "msg_queue_tail ?q = None" "unat (mq_entry ?q) = 0" "unat (max_msgs ?q) = 3" by code_simp+
  then have "mq_inv ?q [2, 1, 0] [] {}" by (auto simp: mq_inv_def)
  then show "mq_good ?q" "mq_msgs ?q = []" using mq_msgs_inv by (auto simp: mq_good_def)
  show "msg_size ?q = 8" by code_simp
qed

text \<open>With a memory pool of two blocks of 8 bytes, and one of one block.\<close>

definition demo_mp :: kstate where
  "demo_mp = demo_after [Mp_call (Sys_mp_init 1 [112] 64 24 8)]"

definition demo_mp1 :: kstate where
  "demo_mp1 = demo_after [Mp_call (Sys_mp_init 1 [112] 64 16 8)]"

definition demo_mp_full :: kstate where
  "demo_mp_full = demo_after [Mp_call (Sys_mp_init 1 [112] 64 16 8), Mp_call (Sys_mp_alloc 1 0)]"

lemma kinv_demo_mp: "kinv demo_mp"
  unfolding demo_mp_def by (rule kinv_demo_after)

lemma kinv_demo_mp_full: "kinv demo_mp_full"
  unfolding demo_mp_full_def by (rule kinv_demo_after)

lemma demo_mp_self: "self_ready demo_mp"
  by code_simp

lemma demo_mp_inv: "\<exists>F. mp_inv demo_mp 1 F {}"
proof -
  have "rt_mp_init 1 [112] 64 24 8 demo \<noteq> None" by code_simp
  then obtain r s' where op: "rt_mp_init 1 [112] 64 24 8 demo = Some (r, s')" by auto
  then have "demo_mp = s'"
    using demo_self_ready by (simp add: demo_mp_def demo_after_def call_ok_def mp_call_ok_def)
  then show ?thesis using mp_init_ok [OF op] by auto
qed

lemma demo_mp_wf: "mp_wf demo_mp 1"
  using demo_mp_inv unfolding mp_wf_def by blast

lemma demo_mp_live: "mp_live demo_mp 1 = {}"
  using demo_mp_inv mp_live_inv by fastforce

lemma demo_mp_taken: "\<exists>s1. rt_mp_alloc 1 0 demo_mp = Some (Returned 68, s1) \<and> mp_wf s1 1 \<and> mp_live s1 1 = {68}"
proof -
  have "(case rt_mp_alloc 1 0 demo_mp of Some (Returned a, _) \<Rightarrow> a = 68 | _ \<Rightarrow> False)" by code_simp
  moreover have "block_free_count (mempools demo_mp 1) \<noteq> 0" by code_simp
  from mp_alloc_ok [OF demo_mp_wf this, of 0] obtain a s1 where
    "rt_mp_alloc 1 0 demo_mp = Some (Returned a, s1)" "mp_wf s1 1" "mp_live s1 1 = {a}"
    unfolding demo_mp_live by auto
  ultimately show ?thesis by auto
qed

text \<open>With a data queue of two items, a completion, and a pipe of 16 bytes as device 1.\<close>

definition demo_drv :: kstate where
  "demo_drv = upd_dq 1 (\<lambda>r. r\<lparr>dq_size := 2, dq_mem := 100\<rparr>)
     (upd_pipe 1 (\<lambda>_. \<lparr>ringbuffer = rt_ringbuffer_init (replicate 16 0) 16, buffer_addr = 100\<rparr>)
     (upd_dev 1 (\<lambda>r. r\<lparr>dev_read := Some Rt_pipe_read, dev_write := Some Rt_pipe_write\<rparr>) demo))"

lemma kinv_demo_drv: "kinv demo_drv"
  using kinv_demo by (simp add: demo_drv_def)

lemma demo_drv_self: "self_ready demo_drv"
  using demo_self_ready by (simp add: demo_drv_def self_ready_def)

lemma demo_drv_dq: "dq_ring (data_queues demo_drv 1)" "dq_in_step (data_queues demo_drv 1)" "dq_list (data_queues demo_drv 1) = []"
proof -
  have d: "get_index (data_queues demo 1) = 0" "put_index (data_queues demo 1) = 0" by code_simp+
  have "ring_size 2" by (simp add: ring_size_def) (rule exI [of _ 1], simp)
  with d show "dq_ring (data_queues demo_drv 1)" "dq_in_step (data_queues demo_drv 1)" "dq_list (data_queues demo_drv 1) = []"
    by (simp_all add: demo_drv_def dq_ring_def dq_ok_def dq_len_def dq_in_step_def dq_list_def)
qed

lemma demo_drv_pipe: "rb_ring (ringbuffer (pipes demo_drv 1))" "rb_in_step (ringbuffer (pipes demo_drv 1))" "pipe_items demo_drv 1 = []"
proof -
  have p: "ringbuffer (pipes demo_drv 1) = rt_ringbuffer_init (replicate 16 0) (2 ^ 4)" by (simp add: demo_drv_def)
  have "length (replicate 16 (0 :: u8)) = 2 ^ 4" by simp
  note rb_init [OF _ _ this]
  then show "rb_ring (ringbuffer (pipes demo_drv 1))" "rb_in_step (ringbuffer (pipes demo_drv 1))" "pipe_items demo_drv 1 = []"
    unfolding p pipe_items_def by simp_all
qed

text \<open>A heap with room for a pipe and its buffer.\<close>

definition demo_roomy :: kstate where
  "demo_roomy = demo\<lparr>kheap := rt_system_heap_init 8 512 zero_heap\<rparr>"

lemmas malloc_run = rt_malloc_def malloc_find.simps malloc_cut_def malloc_split_def malloc_whole_def malloc_lfree_def
  next_free.simps mem_stats_def heap_sem_take_def heap_sem_release_def rt_calloc_def heap_memset_def uadd32_def usub32_def
  heap_consts RT_ALIGN_def RT_ALIGN_SIZE_def RT_ALIGN_DOWN_def rt_assert_def Let_def

lemma demo_roomy_heap:
  "\<exists>h1 h2. rt_calloc 1 96 (kheap demo_roomy) = Some (24, h1) \<and> rt_malloc 16 h1 = Some (136, h2)"
proof -
  let ?h = "kheap demo_roomy"
  have h: "heap_ptr ?h = 8" "mem_size_aligned ?h = 472" "lfree ?h = 0" "heap_end ?h = 488" "heap_sem ?h = 1"
    "hm_used (hdr ?h 0) = 0" "hm_next (hdr ?h 0) = 488" "used_mem ?h = 0" "max_mem ?h = 0"
    by (simp_all add: demo_roomy_def rt_system_heap_init_def Let_def uadd32_def usub32_def heap_consts
        RT_ALIGN_def RT_ALIGN_DOWN_def RT_ALIGN_SIZE_def zero_heap_def)
  have "\<exists>h1. rt_calloc 1 96 g = Some (24, h1) \<and> heap_ptr h1 = 8 \<and> mem_size_aligned h1 = 472 \<and> lfree h1 = 112 \<and>
      heap_end h1 = 488 \<and> heap_sem h1 = 1 \<and> hm_used (hdr h1 112) = 0 \<and> hm_next (hdr h1 112) = 488 \<and> used_mem h1 = 112 \<and>
      max_mem h1 = 112"
    if "heap_ptr g = 8" "mem_size_aligned g = 472" "lfree g = 0" "heap_end g = 488" "heap_sem g = 1"
      "hm_used (hdr g 0) = 0" "hm_next (hdr g 0) = 488" "used_mem g = 0" "max_mem g = 0" for g
    using that by (simp add: malloc_run)
  moreover have "\<exists>h2. rt_malloc 16 h1 = Some (136, h2)"
    if "heap_ptr h1 = 8" "mem_size_aligned h1 = 472" "lfree h1 = 112" "heap_end h1 = 488" "heap_sem h1 = 1"
      "hm_used (hdr h1 112) = 0" "hm_next (hdr h1 112) = 488" "used_mem h1 = 112" "max_mem h1 = 112" for h1
    using that by (simp add: malloc_run)
  ultimately show ?thesis using h by blast
qed

lemma demo_roomy_pipe: "\<exists>s'. rt_pipe_create [112] 16 demo_roomy = Some (RT_EOK, s')"
proof -
  obtain h1 h2 where h: "rt_calloc 1 96 (kheap demo_roomy) = Some (24, h1)" "rt_malloc 16 h1 = Some (136, h2)"
    using demo_roomy_heap by blast
  have d: "rt_interrupt_nest demo = 0" "elems (tlists demo) (Pipe_read_wait 24) = []" "elems (tlists demo) (Pipe_write_wait 24) = []"
    "onlist (obj_lists demo) (Device_o 24) = None" by code_simp+
  have "RT_ALIGN 16 RT_ALIGN_SIZE = 16" by (simp add: RT_ALIGN_def RT_ALIGN_SIZE_def)
  then show ?thesis
    using h d
    by (simp add: rt_pipe_create_def k_calloc_def k_malloc_def rt_debug_not_in_interrupt_def SIZEOF_PIPE_DEVICE_def Let_def
        l_init_head_def rt_device_register_def rt_object_init_Some demo_roomy_def bind_eq_Some_conv)
qed

text \<open>Three registered devices. The functions \<^verbatim>\<open>init\<close> of two of them do nothing; that of the second fails, and the third
  device is active.\<close>

definition lazy_driver :: dev_ops where
  "lazy_driver = no_driver\<lparr>call_init := \<lambda>f d s. Some (if f = Driver_fn 0 then RT_EOK else - RT_ERROR, s)\<rparr>"

lemma lazy_driver_local: "init_local lazy_driver"
  by (simp add: init_local_def lazy_driver_def)

definition demo_devices :: kstate where
  "demo_devices =
     (case run_all [run_op (rt_device_register (Some 1) [97] 0), run_op (rt_device_register (Some 2) [98] 0),
          run_op (rt_device_register (Some 3) [99] RT_DEVICE_FLAG_ACTIVATED)] demo of
        Some s \<Rightarrow> upd_dev 1 (\<lambda>r. r\<lparr>dev_init := Some (Driver_fn 0)\<rparr>) (upd_dev 2 (\<lambda>r. r\<lparr>dev_init := Some (Driver_fn 1)\<rparr>)
          (upd_dev 3 (\<lambda>r. r\<lparr>dev_init := Some (Driver_fn 0)\<rparr>) s))
      | None \<Rightarrow> demo)"

lemma kinv_demo_devices: "kinv demo_devices"
  using kinv_demo by (auto simp: demo_devices_def bind_eq_Some_conv run_op_Some split: option.splits elim!: kinv_device_register)

text \<open>A heap of 120 bytes between the addresses 8 and 128.\<close>

definition demo_heap :: heap where
  "demo_heap = rt_system_heap_init 8 128 zero_heap"

lemma demo_heap_init:
  "0 < unat (RT_ALIGN 8 RT_ALIGN_SIZE)" "used_mem zero_heap = 0"
  "unat (RT_ALIGN 8 RT_ALIGN_SIZE) + 48 \<le> unat (RT_ALIGN_DOWN 128 RT_ALIGN_SIZE)"
  by (simp_all add: RT_ALIGN_def RT_ALIGN_DOWN_def RT_ALIGN_SIZE_def zero_heap_def)

lemma demo_heap_inv: "heap_inv demo_heap [0]"
  unfolding demo_heap_def by (rule heap_init_inv [OF demo_heap_init])

lemma demo_heap_wf: "heap_wf demo_heap"
  using demo_heap_inv heap_init_inv(2) [OF demo_heap_init] by (auto simp: heap_wf_def demo_heap_def)

lemma demo_heap_empty: "heap_live demo_heap = {}"
  using heap_live_eq [OF heap_invD(1) [OF demo_heap_inv]] heap_init_inv(3) [OF demo_heap_init]
  by (simp add: demo_heap_def)

lemma demo_heap_values:
  "heap_ptr demo_heap = 8" "mem_size_aligned demo_heap = 88" "lfree demo_heap = 0"
  "hm_next (hdr demo_heap 0) = 104" "hm_used (hdr demo_heap 0) = 0"
  by (simp_all add: demo_heap_def rt_system_heap_init_def Let_def uadd32_def usub32_def heap_consts
      RT_ALIGN_def RT_ALIGN_DOWN_def RT_ALIGN_SIZE_def zero_heap_def)

lemma demo_malloc:
  assumes "n \<noteq> 0" "unat (RT_ALIGN n RT_ALIGN_SIZE) \<le> 80"
  shows "\<exists>h'. rt_malloc n demo_heap = Some (24, h')"
proof -
  have room: "\<not> no_room demo_heap [0] n"
    using assms by (simp add: no_room_def fits_def request_def demo_heap_values)
  show ?thesis
    by (rule rt_malloc_cases [OF demo_heap_inv, of n]) (use room in \<open>simp_all add: demo_heap_values\<close>)
qed

lemma demo_malloc_20: "\<exists>h'. rt_malloc 20 demo_heap = Some (24, h')"
  by (rule demo_malloc) (simp_all add: RT_ALIGN_def RT_ALIGN_SIZE_def)

lemma demo_malloc_block:
  assumes "rt_malloc n demo_heap = Some (24, h')"
  shows "\<exists>bs. heap_inv h' bs \<and> 0 \<in> set bs \<and> used h' 0 \<and> heap_ptr h' = 8"
proof (rule rt_malloc_cases [OF demo_heap_inv, of n])
  fix p h2 bs'
  assume m: "rt_malloc n demo_heap = Some (heap_ptr demo_heap + p + 16, h2)" "heap_inv h2 bs'"
    "live h2 bs' = insert p (live demo_heap [0])" "heap_ptr h2 = heap_ptr demo_heap"
  then have "p = 0" "h2 = h'" using assms by (simp_all add: demo_heap_values)
  with m show ?thesis by (auto simp: live_def demo_heap_values)
qed (use assms in simp)

end
