(* ===== verification/Kmem.thy ===== *)
theory Kmem
  imports Object
begin

text \<open>
  Memory and strings: the functions of \<^verbatim>\<open>src/kservice.c\<close> that the kernel uses instead of those of a C library.
  Memory is a map from addresses to bytes; words are stored with the low byte first. A function that may run past
  the end of a string without the final zero has no result then.
\<close>

subsection \<open>Memory\<close>

type_synonym memory = "nat \<Rightarrow> u8"

definition store32 :: "nat \<Rightarrow> u32 \<Rightarrow> memory \<Rightarrow> memory" where
  "store32 a w m = m(a := ucast w, a + 1 := ucast (drop_bit 8 w), a + 2 := ucast (drop_bit 16 w),
                     a + 3 := ucast (drop_bit 24 w))"

definition load32 :: "memory \<Rightarrow> nat \<Rightarrow> u32" where
  "load32 m a = ucast (m a) OR push_bit 8 (ucast (m (a + 1))) OR push_bit 16 (ucast (m (a + 2))) OR
                push_bit 24 (ucast (m (a + 3)))"

text \<open>\<^verbatim>\<open>rt_memset\<close> and \<^verbatim>\<open>rt_memcpy\<close> come in two versions. The small one, for \<^verbatim>\<open>RT_TINY_SIZE\<close>, goes byte by
  byte.\<close>

fun rt_memset_tiny :: "nat \<Rightarrow> u32 \<Rightarrow> nat \<Rightarrow> memory \<Rightarrow> memory" where
  "rt_memset_tiny xs c 0 m = m"
| "rt_memset_tiny xs c (Suc count) m = rt_memset_tiny (xs + 1) c count (m(xs := ucast c))"

fun rt_memcpy_tiny :: "nat \<Rightarrow> nat \<Rightarrow> nat \<Rightarrow> memory \<Rightarrow> memory" where
  "rt_memcpy_tiny tmp s 0 m = m"
| "rt_memcpy_tiny tmp s (Suc count) m = rt_memcpy_tiny (tmp + 1) (s + 1) count (m(tmp := m s))"

text \<open>The other one writes words while it can: four at a time, then one, then the bytes that are left.\<close>

fun memset_blocks :: "u32 \<Rightarrow> nat \<Rightarrow> nat \<Rightarrow> memory \<Rightarrow> memory \<times> nat \<times> nat" where
  "memset_blocks buffer p count m =
     (if count \<ge> 16
      then memset_blocks buffer (p + 16) (count - 16)
             (store32 (p + 12) buffer (store32 (p + 8) buffer (store32 (p + 4) buffer (store32 p buffer m))))
      else (m, p, count))"

fun memset_words :: "u32 \<Rightarrow> nat \<Rightarrow> nat \<Rightarrow> memory \<Rightarrow> memory \<times> nat \<times> nat" where
  "memset_words buffer p count m =
     (if count \<ge> 4 then memset_words buffer (p + 4) (count - 4) (store32 p buffer m) else (m, p, count))"

definition rt_memset :: "nat \<Rightarrow> u32 \<Rightarrow> nat \<Rightarrow> memory \<Rightarrow> memory" where
  "rt_memset s c count m =
     (let d = c AND 0xff;
          (m, p, count) =
            (if \<not> count < 4 \<and> s mod 4 = 0 then
               let buffer = push_bit 8 d OR d;
                   buffer = buffer OR push_bit 16 buffer;
                   (m, p, count) = memset_blocks buffer s count m
               in memset_words buffer p count m
             else (m, s, count))
      in rt_memset_tiny p d count m)"

fun memcpy_blocks :: "nat \<Rightarrow> nat \<Rightarrow> nat \<Rightarrow> memory \<Rightarrow> memory \<times> nat \<times> nat \<times> nat" where
  "memcpy_blocks d s len m =
     (if len \<ge> 16
      then let m = store32 d (load32 m s) m;
               m = store32 (d + 4) (load32 m (s + 4)) m;
               m = store32 (d + 8) (load32 m (s + 8)) m;
               m = store32 (d + 12) (load32 m (s + 12)) m
           in memcpy_blocks (d + 16) (s + 16) (len - 16) m
      else (m, d, s, len))"

fun memcpy_words :: "nat \<Rightarrow> nat \<Rightarrow> nat \<Rightarrow> memory \<Rightarrow> memory \<times> nat \<times> nat \<times> nat" where
  "memcpy_words d s len m =
     (if len \<ge> 4 then memcpy_words (d + 4) (s + 4) (len - 4) (store32 d (load32 m s) m) else (m, d, s, len))"

definition rt_memcpy :: "nat \<Rightarrow> nat \<Rightarrow> nat \<Rightarrow> memory \<Rightarrow> memory" where
  "rt_memcpy dst src count m =
     (let (m, d, s, len) =
            (if \<not> count < 16 \<and> src mod 4 = 0 \<and> dst mod 4 = 0 then
               let (m, d, s, len) = memcpy_blocks dst src count m
               in memcpy_words d s len m
             else (m, dst, src, count))
      in rt_memcpy_tiny d s len m)"

text \<open>A move goes backwards when the destination starts inside the source.\<close>

fun move_back :: "nat \<Rightarrow> nat \<Rightarrow> nat \<Rightarrow> memory \<Rightarrow> memory" where
  "move_back tmp s 0 m = m"
| "move_back tmp s (Suc n) m = move_back (tmp - 1) (s - 1) n (m(tmp - 1 := m (s - 1)))"

definition rt_memmove :: "nat \<Rightarrow> nat \<Rightarrow> nat \<Rightarrow> memory \<Rightarrow> memory" where
  "rt_memmove dest src n m =
     (if src < dest \<and> dest < src + n then move_back (dest + n) (src + n) n m else rt_memcpy_tiny dest src n m)"

fun rt_memcmp :: "memory \<Rightarrow> nat \<Rightarrow> nat \<Rightarrow> nat \<Rightarrow> int" where
  "rt_memcmp m cs ct 0 = 0"
| "rt_memcmp m cs ct (Suc count) =
     (let res = uint (m cs) - uint (m ct)
      in if res \<noteq> 0 then res else rt_memcmp m (cs + 1) (ct + 1) count)"

subsection \<open>Strings\<close>

partial_function (option) strlen_end :: "memory \<Rightarrow> nat \<Rightarrow> nat option" where
  "strlen_end m sc = (if m sc \<noteq> 0 then strlen_end m (sc + 1) else Some sc)"

definition rt_strlen :: "memory \<Rightarrow> nat \<Rightarrow> nat option" where
  "rt_strlen m s = map_option (\<lambda>sc. sc - s) (strlen_end m s)"

text \<open>The search is only started with a string \<open>l2\<close> that is not empty, so that it ends before \<open>l1\<close> is negative.\<close>

fun strstr_loop :: "memory \<Rightarrow> nat \<Rightarrow> nat \<Rightarrow> nat \<Rightarrow> nat \<Rightarrow> nat option" where
  "strstr_loop m s1 s2 l1 l2 =
     (if l1 \<ge> l2 then
        if rt_memcmp m s1 s2 l2 = 0 then Some s1
        else (case l1 of 0 \<Rightarrow> None | Suc l1 \<Rightarrow> strstr_loop m (s1 + 1) s2 l1 l2)
      else None)"

definition rt_strstr :: "memory \<Rightarrow> nat \<Rightarrow> nat \<Rightarrow> nat option option" where
  "rt_strstr m s1 s2 = do {
     l2 \<leftarrow> rt_strlen m s2;
     if l2 = 0 then Some (Some s1)
     else do {
       l1 \<leftarrow> rt_strlen m s1;
       Some (strstr_loop m s1 s2 l1 l2)
     }
   }"

definition lower :: "u8 \<Rightarrow> int" where
  "lower c = (if 65 \<le> c \<and> c \<le> 90 then uint c + 32 else uint c)"

partial_function (option) rt_strcasecmp :: "memory \<Rightarrow> nat \<Rightarrow> nat \<Rightarrow> u32 option" where
  "rt_strcasecmp m a b =
     (let ca = lower (m a); cb = lower (m b)
      in if ca = cb \<and> ca \<noteq> 0 then rt_strcasecmp m (a + 1) (b + 1) else Some (word_of_int (ca - cb)))"

text \<open>The copy into a name: \<open>Object.rt_strncpy\<close> is what it leaves in the name.\<close>

fun strncpy_pad :: "nat \<Rightarrow> nat \<Rightarrow> memory \<Rightarrow> memory" where
  "strncpy_pad d n m = (if n - 1 \<noteq> 0 then strncpy_pad (d + 1) (n - 1) (m(d := 0)) else m)"

fun strncpy_loop :: "nat \<Rightarrow> nat \<Rightarrow> nat \<Rightarrow> memory \<Rightarrow> memory" where
  "strncpy_loop d s n m =
     (let m' = m(d := m s)
      in if m s = 0 then strncpy_pad (d + 1) n m'
         else if n - 1 \<noteq> 0 then strncpy_loop (d + 1) (s + 1) (n - 1) m' else m')"

definition rt_strncpy_mem :: "nat \<Rightarrow> nat \<Rightarrow> nat \<Rightarrow> memory \<Rightarrow> memory" where
  "rt_strncpy_mem dst src n m = (if n \<noteq> 0 then strncpy_loop dst src n m else m)"

fun rt_strncmp_mem :: "memory \<Rightarrow> nat \<Rightarrow> nat \<Rightarrow> nat \<Rightarrow> u32" where
  "rt_strncmp_mem m cs ct 0 = 0"
| "rt_strncmp_mem m cs ct (Suc count) =
     (let res = m cs - m ct
      in if res \<noteq> 0 \<or> m cs = 0 then scast res else rt_strncmp_mem m (cs + 1) (ct + 1) count)"

partial_function (option) rt_strcmp :: "memory \<Rightarrow> nat \<Rightarrow> nat \<Rightarrow> u32 option" where
  "rt_strcmp m cs ct =
     (if m cs \<noteq> 0 \<and> m cs = m ct then rt_strcmp m (cs + 1) (ct + 1) else Some (ucast (m cs) - ucast (m ct)))"

declare memset_blocks.simps [simp del] memset_words.simps [simp del] memcpy_blocks.simps [simp del]
  memcpy_words.simps [simp del] strstr_loop.simps [simp del] strncpy_pad.simps [simp del] strncpy_loop.simps [simp del]

subsection \<open>The two versions agree\<close>

text \<open>A word of four equal bytes is four bytes.\<close>

definition fills :: "u32 \<Rightarrow> u32 \<Rightarrow> bool" where
  "fills buffer d \<longleftrightarrow>
     (\<forall>p m. store32 p buffer m = m(p := ucast d, p + 1 := ucast d, p + 2 := ucast d, p + 3 := ucast d))"

lemma memset_word:
  fixes d :: u32
  assumes d: "d = take_bit 8 c" and b: "b = push_bit 8 d OR d"
  shows "fills (b OR push_bit 16 b) d"
proof -
  have bits: "bit d n \<longleftrightarrow> n < 8 \<and> bit c n" for n by (simp add: d bit_take_bit_iff)
  have byte: "(ucast (drop_bit k (b OR push_bit 16 b)) :: u8) = ucast d"
    if "k = 0 \<or> k = 8 \<or> k = 16 \<or> k = 24" for k
  proof (rule bit_word_eqI)
    fix n :: nat assume "n < LENGTH(8)"
    then have n: "n < 8" by simp
    show "bit (ucast (drop_bit k (b OR push_bit 16 b)) :: u8) n = bit (ucast d :: u8) n"
      using that by (elim disjE) (use n in \<open>auto simp: b bit_ucast_iff bit_drop_bit_eq bit_or_iff bit_push_bit_iff bits\<close>)
  qed
  from byte [of 0] byte [of 8] byte [of 16] byte [of 24] show ?thesis by (simp add: fills_def store32_def)
qed

lemma four_steps: "4 \<le> n \<Longrightarrow> \<exists>k. n = Suc (Suc (Suc (Suc k)))" for n :: nat
  by presburger

lemma memset_tiny_4:
  assumes "4 \<le> n" "fills buffer d"
  shows "rt_memset_tiny p d n m = rt_memset_tiny (p + 4) d (n - 4) (store32 p buffer m)"
proof -
  from assms(1) obtain k where "n = Suc (Suc (Suc (Suc k)))" using four_steps by blast
  then show ?thesis using assms(2) by (simp add: fills_def numeral_eq_Suc)
qed

lemma memset_words_tiny:
  "fills buffer d \<Longrightarrow> memset_words buffer p n m = (m', p', n') \<Longrightarrow> rt_memset_tiny p' d n' m' = rt_memset_tiny p d n m"
proof (induction buffer p n m rule: memset_words.induct)
  case (1 buffer p n m)
  show ?case
  proof (cases "4 \<le> n")
    case True
    with 1 show ?thesis by (simp add: memset_words.simps [of _ p] memset_tiny_4 [of n buffer])
  next
    case False
    with 1(3) show ?thesis by (simp add: memset_words.simps [of _ p])
  qed
qed

lemma memset_blocks_tiny:
  "fills buffer d \<Longrightarrow> memset_blocks buffer p n m = (m', p', n') \<Longrightarrow> rt_memset_tiny p' d n' m' = rt_memset_tiny p d n m"
proof (induction buffer p n m rule: memset_blocks.induct)
  case (1 buffer p n m)
  show ?case
  proof (cases "16 \<le> n")
    case True
    with 1 have "rt_memset_tiny p' d n' m' = rt_memset_tiny (p + 16) d (n - 16)
      (store32 (p + 12) buffer (store32 (p + 8) buffer (store32 (p + 4) buffer (store32 p buffer m))))"
      by (simp add: memset_blocks.simps [of _ p])
    also have "\<dots> = rt_memset_tiny p d n m"
      using memset_tiny_4 [OF _ 1(2), of n p m] memset_tiny_4 [OF _ 1(2), of "n - 4" "p + 4"]
        memset_tiny_4 [OF _ 1(2), of "n - 8" "p + 8"] memset_tiny_4 [OF _ 1(2), of "n - 12" "p + 12"] True
      by (simp add: diff_diff_add add.commute)
    finally show ?thesis .
  next
    case False
    with 1(3) show ?thesis by (simp add: memset_blocks.simps [of _ p])
  qed
qed

lemma memset_tiny_ucast: "ucast c = (ucast c' :: u8) \<Longrightarrow> rt_memset_tiny p c n m = rt_memset_tiny p c' n m"
  by (induction n arbitrary: p m) simp_all

lemma memset_eq_tiny: "rt_memset s c n m = rt_memset_tiny s c n m"
proof -
  define d where "d = c AND 0xff"
  have d: "d = take_bit 8 c" by (simp add: d_def take_bit_eq_mask mask_eq_exp_minus_1)
  have u: "rt_memset_tiny s d n m = rt_memset_tiny s c n m"
    by (rule memset_tiny_ucast) (rule bit_word_eqI, simp add: d bit_ucast_iff bit_take_bit_iff)
  show ?thesis
  proof (cases "\<not> n < 4 \<and> s mod 4 = 0")
    case True
    let ?b = "push_bit 8 d OR d"
    obtain m1 p1 n1 where b: "memset_blocks (?b OR push_bit 16 ?b) s n m = (m1, p1, n1)" by (rule prod_cases3)
    obtain m2 p2 n2 where w: "memset_words (?b OR push_bit 16 ?b) p1 n1 m1 = (m2, p2, n2)" by (rule prod_cases3)
    have f: "fills (?b OR push_bit 16 ?b) d" by (rule memset_word [OF d refl])
    have "rt_memset s c n m = rt_memset_tiny p2 d n2 m2"
      using True b w by (simp add: rt_memset_def d_def Let_def)
    with memset_blocks_tiny [OF f b] memset_words_tiny [OF f w] u show ?thesis by simp
  next
    case False
    then show ?thesis using u by (auto simp: rt_memset_def d_def Let_def)
  qed
qed

text \<open>The same for copies. Source and destination may overlap: words that do are a multiple of four apart.\<close>

lemma load_store: "store32 d (load32 m s) m' = m'(d := m s, d + 1 := m (s + 1), d + 2 := m (s + 2), d + 3 := m (s + 3))"
proof -
  have "(ucast (drop_bit k (load32 m s)) :: u8) = m (s + k div 8)" if "k = 0 \<or> k = 8 \<or> k = 16 \<or> k = 24" for k
  proof (rule bit_word_eqI)
    fix n :: nat assume "n < LENGTH(8)"
    then have n: "n < 8" by simp
    show "bit (ucast (drop_bit k (load32 m s)) :: u8) n = bit (m (s + k div 8)) n"
      using that by (elim disjE)
        (use n in \<open>auto simp: load32_def bit_ucast_iff bit_drop_bit_eq bit_or_iff bit_push_bit_iff dest: bit_imp_le_length\<close>)
  qed
  from this [of 0] this [of 8] this [of 16] this [of 24] show ?thesis by (simp add: store32_def)
qed

lemma memcpy_tiny_4:
  assumes "4 \<le> n" "s mod 4 = 0" "d mod 4 = 0"
  shows "rt_memcpy_tiny d s n m = rt_memcpy_tiny (d + 4) (s + 4) (n - 4) (store32 d (load32 m s) m)"
proof -
  from assms(1) obtain k where k: "n = Suc (Suc (Suc (Suc k)))" using four_steps by blast
  have apart: "s + i \<noteq> d + j" if "i < 4" "j < 4" "i \<noteq> j" for i j
  proof
    assume "s + i = d + j"
    then have "(s + i) mod 4 = (d + j) mod 4" by simp
    then have "i = j" using assms(2,3) that(1,2) by (simp add: mod_add_eq [symmetric] flip: mod_add_left_eq)
    with that(3) show False by simp
  qed
  have "store32 d (load32 m s) m = m(d := m s, d + 1 := m (s + 1), d + 2 := m (s + 2), d + 3 := m (s + 3))"
    by (rule load_store)
  moreover have "s + 1 \<noteq> d" "s + 2 \<noteq> d" "s + 2 \<noteq> d + 1" "s + 3 \<noteq> d" "s + 3 \<noteq> d + 1" "s + 3 \<noteq> d + 2"
    using apart [of 1 0] apart [of 2 0] apart [of 2 1] apart [of 3 0] apart [of 3 1] apart [of 3 2] by simp_all
  ultimately show ?thesis by (simp add: k numeral_eq_Suc)
qed

lemma memcpy_words_tiny:
  "memcpy_words d s n m = (m', d', s', n') \<Longrightarrow> s mod 4 = 0 \<Longrightarrow> d mod 4 = 0 \<Longrightarrow>
   rt_memcpy_tiny d' s' n' m' = rt_memcpy_tiny d s n m"
proof (induction d s n m rule: memcpy_words.induct)
  case (1 d s n m)
  show ?case
  proof (cases "4 \<le> n")
    case True
    with 1 show ?thesis by (simp add: memcpy_words.simps [of d] memcpy_tiny_4 [of n])
  next
    case False
    with 1(2) show ?thesis by (simp add: memcpy_words.simps [of d])
  qed
qed

lemma memcpy_blocks_tiny:
  "memcpy_blocks d s n m = (m', d', s', n') \<Longrightarrow> s mod 4 = 0 \<Longrightarrow> d mod 4 = 0 \<Longrightarrow>
   rt_memcpy_tiny d' s' n' m' = rt_memcpy_tiny d s n m \<and> s' mod 4 = 0 \<and> d' mod 4 = 0"
proof (induction d s n m rule: memcpy_blocks.induct)
  case (1 d s n m)
  show ?case
  proof (cases "16 \<le> n")
    case True
    define m1 where "m1 = store32 d (load32 m s) m"
    define m2 where "m2 = store32 (d + 4) (load32 m1 (s + 4)) m1"
    define m3 where "m3 = store32 (d + 8) (load32 m2 (s + 8)) m2"
    define m4 where "m4 = store32 (d + 12) (load32 m3 (s + 12)) m3"
    have al: "(s + k) mod 4 = 0" "(d + k) mod 4 = 0" if "k mod 4 = 0" for k
      using 1(3,4) that by (simp_all add: mod_add_eq [symmetric])
    have call: "memcpy_blocks (d + 16) (s + 16) (n - 16) m4 = (m', d', s', n')"
      using 1(2) True by (simp add: memcpy_blocks.simps [of d] Let_def m1_def m2_def m3_def m4_def)
    have "rt_memcpy_tiny d s n m = rt_memcpy_tiny (d + 16) (s + 16) (n - 16) m4"
      using memcpy_tiny_4 [of n s d m] memcpy_tiny_4 [of "n - 4" "s + 4" "d + 4" m1]
        memcpy_tiny_4 [of "n - 8" "s + 8" "d + 8" m2] memcpy_tiny_4 [of "n - 12" "s + 12" "d + 12" m3] True 1(3,4) al
      by (simp add: diff_diff_add add.commute m1_def m2_def m3_def m4_def)
    with 1(1) [OF True refl refl refl refl] call al [of 16] show ?thesis
      by (simp add: m1_def m2_def m3_def m4_def)
  next
    case False
    with 1(2,3,4) show ?thesis by (simp add: memcpy_blocks.simps [of d])
  qed
qed

lemma memcpy_eq_tiny: "rt_memcpy dst src n m = rt_memcpy_tiny dst src n m"
proof (cases "\<not> n < 16 \<and> src mod 4 = 0 \<and> dst mod 4 = 0")
  case True
  obtain m1 d1 s1 n1 where b: "memcpy_blocks dst src n m = (m1, d1, s1, n1)" by (rule prod_cases4)
  obtain m2 d2 s2 n2 where w: "memcpy_words d1 s1 n1 m1 = (m2, d2, s2, n2)" by (rule prod_cases4)
  have "rt_memcpy dst src n m = rt_memcpy_tiny d2 s2 n2 m2" using True b w by (simp add: rt_memcpy_def)
  with memcpy_blocks_tiny [OF b] memcpy_words_tiny [OF w] True show ?thesis by simp
next
  case False
  then show ?thesis by (auto simp: rt_memcpy_def)
qed

subsection \<open>What they do\<close>

definition moved :: "nat \<Rightarrow> nat \<Rightarrow> nat \<Rightarrow> memory \<Rightarrow> memory" where
  "moved d s n m = (\<lambda>a. if d \<le> a \<and> a < d + n then m (s + (a - d)) else m a)"

lemma moved_0 [simp]: "moved d s 0 m = m"
  by (auto simp: moved_def fun_eq_iff)

lemma memcpy_moved:
  assumes "\<not> (s < d \<and> d < s + n)"
  shows "rt_memcpy d s n m = moved d s n m"
proof -
  have "rt_memcpy_tiny d s n m = moved d s n m"
    using assms
  proof (induction n arbitrary: d s m)
    case (Suc n)
    have "\<not> (s + 1 < d + 1 \<and> d + 1 < s + 1 + n)" using Suc.prems by auto
    from Suc.IH [OF this] have "rt_memcpy_tiny d s (Suc n) m = moved (d + 1) (s + 1) n (m(d := m s))" by (simp del: fun_upd_apply)
    also have "\<dots> = moved d s (Suc n) m"
    proof
      fix a
      show "moved (d + 1) (s + 1) n (m(d := m s)) a = moved d s (Suc n) m a"
      proof (cases "d < a \<and> a < d + Suc n")
        case True
        then have "s + 1 + (a - (d + 1)) = s + (a - d)" "s + (a - d) \<noteq> d" using Suc.prems by auto
        then show ?thesis using True by (simp add: moved_def)
      qed (auto simp: moved_def)
    qed
    finally show ?case .
  qed simp
  then show ?thesis by (simp add: memcpy_eq_tiny)
qed

lemma memset_filled: "rt_memset s c n m = (\<lambda>a. if s \<le> a \<and> a < s + n then ucast c else m a)"
proof -
  have "rt_memset_tiny s c n m = (\<lambda>a. if s \<le> a \<and> a < s + n then ucast c else m a)"
    by (induction n arbitrary: s m) (auto simp: fun_eq_iff)
  then show ?thesis by (simp add: memset_eq_tiny)
qed

lemma memmove_moved: "rt_memmove d s n m = moved d s n m"
proof (cases "s < d \<and> d < s + n")
  case True
  have "move_back (d + n) (s + n) n m = moved d s n m" for n m
  proof (induction n arbitrary: m)
    case (Suc n)
    have "move_back (d + Suc n) (s + Suc n) (Suc n) m = move_back (d + n) (s + n) n (m(d + n := m (s + n)))" by simp
    also have "\<dots> = moved d s n (m(d + n := m (s + n)))" by (rule Suc.IH)
    also have "\<dots> = moved d s (Suc n) m" using True by (auto simp: moved_def fun_eq_iff less_Suc_eq)
    finally show ?case .
  qed simp
  then show ?thesis using True by (simp add: rt_memmove_def)
next
  case False
  then show ?thesis using memcpy_moved [OF False] by (auto simp: rt_memmove_def memcpy_eq_tiny)
qed

text \<open>The bytes from an address on; a comparison finds the first two that differ.\<close>

definition bytes :: "memory \<Rightarrow> nat \<Rightarrow> nat \<Rightarrow> u8 list" where
  "bytes m a n = map (\<lambda>i. m (a + i)) [0..<n]"

lemma bytes_Suc: "bytes m a (Suc n) = m a # bytes m (a + 1) n"
  by (simp add: bytes_def upt_conv_Cons map_Suc_upt [symmetric] comp_def del: upt_Suc)

lemma bytes_0 [simp]: "bytes m a 0 = []"
  by (simp add: bytes_def)

lemma length_bytes [simp]: "length (bytes m a n) = n"
  by (simp add: bytes_def)

lemma memcmp_0: "rt_memcmp m a b n = 0 \<longleftrightarrow> bytes m a n = bytes m b n"
proof (induction n arbitrary: a b)
  case (Suc n)
  then show ?case by (auto simp: bytes_Suc Let_def word_uint_eq_iff)
qed simp

lemma memcmp_less:
  "rt_memcmp m a b n < 0 \<longleftrightarrow> (\<exists>i < n. bytes m a i = bytes m b i \<and> m (a + i) < m (b + i))"
proof (induction n arbitrary: a b)
  case (Suc n)
  show ?case
  proof (cases "m a = m b")
    case True
    have "(\<exists>i < Suc n. bytes m a i = bytes m b i \<and> m (a + i) < m (b + i)) \<longleftrightarrow>
        (\<exists>i < n. bytes m a (Suc i) = bytes m b (Suc i) \<and> m (a + Suc i) < m (b + Suc i))"
      using True by (auto simp: less_Suc_eq_0_disj)
    then show ?thesis using Suc.IH [of "a + 1" "b + 1"] True by (simp add: bytes_Suc)
  next
    case False
    then have "bytes m a i = bytes m b i \<longleftrightarrow> i = 0" for i by (cases i) (simp_all add: bytes_Suc)
    then show ?thesis using False by (auto simp: Let_def word_less_def word_uint_eq_iff)
  qed
qed simp

text \<open>A string: its bytes, and a zero behind them.\<close>

fun cstr :: "memory \<Rightarrow> nat \<Rightarrow> u8 list \<Rightarrow> bool" where
  "cstr m a [] \<longleftrightarrow> m a = 0"
| "cstr m a (x # xs) \<longleftrightarrow> m a = x \<and> x \<noteq> 0 \<and> cstr m (a + 1) xs"

lemma cstr_bytes: "cstr m a xs \<Longrightarrow> n \<le> length xs \<Longrightarrow> bytes m a n = take n xs"
proof (induction xs arbitrary: a n)
  case (Cons x xs)
  then show ?case by (cases n) (simp_all add: bytes_Suc)
qed simp

lemma cstr_drop: "cstr m a xs \<Longrightarrow> n \<le> length xs \<Longrightarrow> cstr m (a + n) (drop n xs)"
proof (induction xs arbitrary: a n)
  case (Cons x xs)
  then show ?case by (cases n) (use Cons.IH [of "a + 1"] in auto)
qed simp

lemma strlen_cstr: "cstr m a xs \<Longrightarrow> rt_strlen m a = Some (length xs)"
proof -
  have "cstr m a xs \<Longrightarrow> strlen_end m a = Some (a + length xs)" for a
    by (induction xs arbitrary: a) (subst strlen_end.simps, simp)+
  then show "cstr m a xs \<Longrightarrow> rt_strlen m a = Some (length xs)" by (simp add: rt_strlen_def)
qed

text \<open>The search finds the first place where the second string begins in the first one.\<close>

definition starts_at :: "u8 list \<Rightarrow> u8 list \<Rightarrow> nat \<Rightarrow> bool" where
  "starts_at ys xs i \<longleftrightarrow> i + length ys \<le> length xs \<and> take (length ys) (drop i xs) = ys"

lemma strstr_loop:
  "cstr m a xs \<Longrightarrow> cstr m b ys \<Longrightarrow> ys \<noteq> [] \<Longrightarrow>
   (case strstr_loop m a b (length xs) (length ys) of
      Some p \<Rightarrow> \<exists>i. p = a + i \<and> starts_at ys xs i \<and> (\<forall>j < i. \<not> starts_at ys xs j)
    | None \<Rightarrow> \<forall>i. \<not> starts_at ys xs i)"
proof (induction xs arbitrary: a)
  case Nil
  then show ?case by (simp add: strstr_loop.simps starts_at_def)
next
  case (Cons x xs)
  have cmp: "rt_memcmp m a b (length ys) = 0 \<longleftrightarrow> starts_at ys (x # xs) 0" if "length ys \<le> length (x # xs)"
    using that cstr_bytes [OF Cons.prems(1)] cstr_bytes [OF Cons.prems(2), of "length ys"]
    by (simp add: memcmp_0 starts_at_def)
  have suc: "starts_at ys (x # xs) (Suc i) \<longleftrightarrow> starts_at ys xs i" for i by (simp add: starts_at_def)
  show ?case
  proof (cases "length ys \<le> length (x # xs)")
    case False
    then show ?thesis by (simp add: strstr_loop.simps [of _ a] starts_at_def)
  next
    case True
    show ?thesis
    proof (cases "starts_at ys (x # xs) 0")
      case start: True
      then have "strstr_loop m a b (length (x # xs)) (length ys) = Some a"
        using True cmp [OF True] by (subst strstr_loop.simps) simp
      then show ?thesis using start by auto
    next
      case no: False
      then have step: "strstr_loop m a b (length (x # xs)) (length ys) = strstr_loop m (a + 1) b (length xs) (length ys)"
        using True cmp [OF True] by (subst strstr_loop.simps) simp
      have IH: "case strstr_loop m (a + 1) b (length xs) (length ys) of
          Some p \<Rightarrow> \<exists>i. p = a + 1 + i \<and> starts_at ys xs i \<and> (\<forall>j < i. \<not> starts_at ys xs j)
        | None \<Rightarrow> \<forall>i. \<not> starts_at ys xs i"
        using Cons.IH [of "a + 1"] Cons.prems by simp
      show ?thesis
      proof (cases "strstr_loop m (a + 1) b (length xs) (length ys)")
        case None
        have "\<not> starts_at ys (x # xs) k" for k using IH None no suc by (cases k) simp_all
        then show ?thesis unfolding step using None by simp
      next
        case (Some p)
        with IH obtain i where i: "p = a + 1 + i" "starts_at ys xs i" "\<forall>j < i. \<not> starts_at ys xs j" by auto
        have "\<forall>j < Suc i. \<not> starts_at ys (x # xs) j" using i(3) no suc by (auto simp: less_Suc_eq_0_disj)
        moreover have "starts_at ys (x # xs) (Suc i)" "p = a + Suc i" using i(1,2) suc by simp_all
        ultimately show ?thesis unfolding step using Some by auto
      qed
    qed
  qed
qed

lemma strstr_first:
  assumes "cstr m a xs" "cstr m b ys"
  shows "\<exists>r. rt_strstr m a b = Some r \<and>
    (case r of
       Some p \<Rightarrow> \<exists>i. p = a + i \<and> starts_at ys xs i \<and> (\<forall>j < i. \<not> starts_at ys xs j)
     | None \<Rightarrow> \<forall>i. \<not> starts_at ys xs i)"
proof (cases "ys = []")
  case True
  then show ?thesis using assms strlen_cstr [OF assms(2)] by (auto simp: rt_strstr_def starts_at_def)
next
  case False
  then show ?thesis using strstr_loop [OF assms] strlen_cstr [OF assms(1)] strlen_cstr [OF assms(2)]
    by (simp add: rt_strstr_def)
qed

text \<open>Comparisons: the result is zero for equal strings, up to the case of letters and up to a length.\<close>

lemma word_of_int_small:
  assumes "- (2 ^ 31) < x" "x < 2 ^ 31"
  shows "(word_of_int x :: u32) = 0 \<longleftrightarrow> x = 0"
proof
  assume "(word_of_int x :: u32) = 0"
  then have "2 ^ 32 dvd x" by (simp add: word_of_int_eq_0_iff)
  then show "x = 0" using assms by (auto simp: dvd_def)
qed simp

lemma lower_bounds: "0 \<le> lower c" "lower c < 256" "lower c = 0 \<longleftrightarrow> c = 0"
proof -
  have c: "0 \<le> uint c" "uint c < 256" using unsigned_less [of c, where ?'a = int] by simp_all
  moreover from c(1) have "uint c + 32 \<noteq> 0" by linarith
  moreover have "uint c \<le> 90" if "c \<le> 90" using that by (simp add: word_le_def)
  ultimately show "0 \<le> lower c" "lower c < 256" "lower c = 0 \<longleftrightarrow> c = 0"
    by (auto simp: lower_def uint_0_iff)
qed

lemma strcasecmp_same:
  "cstr m a xs \<Longrightarrow> cstr m b ys \<Longrightarrow> \<exists>r. rt_strcasecmp m a b = Some r \<and> (r = 0 \<longleftrightarrow> map lower xs = map lower ys)"
proof (induction xs arbitrary: a b ys)
  case Nil
  let ?d = "lower (m a) - lower (m b)"
  have "rt_strcasecmp m a b = Some (word_of_int ?d)"
    using Nil by (subst rt_strcasecmp.simps) (simp add: lower_bounds(3) Let_def)
  moreover have "(word_of_int ?d :: u32) = 0 \<longleftrightarrow> ?d = 0"
    using lower_bounds(1,2) [of "m a"] lower_bounds(1,2) [of "m b"] by (intro word_of_int_small) simp_all
  moreover have "lower (m a) = 0" using Nil by (simp add: lower_bounds(3))
  ultimately show ?case using Nil(2) lower_bounds(3) [of "m b"] by (cases ys) auto
next
  case (Cons x xs)
  let ?d = "lower (m a) - lower (m b)"
  have x: "lower (m a) \<noteq> 0" "m a = x" using Cons.prems by (simp_all add: lower_bounds(3))
  show ?case
  proof (cases "lower (m a) = lower (m b)")
    case True
    then obtain y ys' where ys: "ys = y # ys'" using Cons.prems(2) x lower_bounds(3) by (cases ys) auto
    have "rt_strcasecmp m a b = rt_strcasecmp m (a + 1) (b + 1)"
      using True x by (subst rt_strcasecmp.simps) (simp add: Let_def)
    then show ?thesis using Cons.IH [of "a + 1" "b + 1" ys'] Cons.prems True x(2) by (simp add: ys)
  next
    case False
    have "rt_strcasecmp m a b = Some (word_of_int ?d)"
      using False by (subst rt_strcasecmp.simps) (simp add: Let_def)
    moreover have "(word_of_int ?d :: u32) = 0 \<longleftrightarrow> ?d = 0"
      using lower_bounds(1,2) [of "m a"] lower_bounds(1,2) [of "m b"] by (intro word_of_int_small) simp_all
    ultimately show ?thesis using False x(2) Cons.prems(2) by (cases ys) auto
  qed
qed

lemma ucast_u8_eq: "(ucast (x :: u8) :: u32) = ucast (y :: u8) \<longleftrightarrow> x = y"
proof
  assume "(ucast x :: u32) = ucast y"
  moreover have "ucast (ucast z :: u32) = z" for z :: u8 by (rule bit_word_eqI) (auto simp: bit_ucast_iff)
  ultimately show "x = y" by metis
qed simp

lemma strcmp_same:
  "cstr m a xs \<Longrightarrow> cstr m b ys \<Longrightarrow> \<exists>r. rt_strcmp m a b = Some r \<and> (r = 0 \<longleftrightarrow> xs = ys)"
proof (induction xs arbitrary: a b ys)
  case Nil
  then have "rt_strcmp m a b = Some (- ucast (m b))" by (subst rt_strcmp.simps) simp
  moreover have "(- ucast (m b) :: u32) = 0 \<longleftrightarrow> m b = 0" using ucast_u8_eq [of "m b" 0] by simp
  ultimately show ?case using Nil(2) by (cases ys) auto
next
  case (Cons x xs)
  show ?case
  proof (cases "m b = x")
    case True
    then obtain ys' where ys: "ys = x # ys'" using Cons.prems by (cases ys) auto
    have "rt_strcmp m a b = rt_strcmp m (a + 1) (b + 1)"
      using Cons.prems True by (subst rt_strcmp.simps) simp
    then show ?thesis using Cons.IH [of "a + 1" "b + 1" ys'] Cons.prems by (simp add: ys)
  next
    case False
    then have "rt_strcmp m a b = Some (ucast x - ucast (m b))"
      using Cons.prems by (subst rt_strcmp.simps) auto
    moreover have "(ucast x - ucast (m b) :: u32) \<noteq> 0" using False ucast_u8_eq [of x "m b"] by simp
    ultimately show ?thesis using False Cons.prems(2) by (cases ys) auto
  qed
qed

lemma strncmp_cstr: "cstr m a xs \<Longrightarrow> cstr m b ys \<Longrightarrow> rt_strncmp_mem m a b n = rt_strncmp xs ys n"
proof (induction n arbitrary: a b xs ys)
  case (Suc n)
  then show ?case by (cases xs; cases ys) (auto simp: Let_def)
qed simp

text \<open>A copy of at most \<open>n\<close> bytes into a place of its own.\<close>

definition put_bytes :: "nat \<Rightarrow> u8 list \<Rightarrow> memory \<Rightarrow> memory" where
  "put_bytes d xs m = (\<lambda>a. if d \<le> a \<and> a < d + length xs then xs ! (a - d) else m a)"

lemma put_bytes_Nil [simp]: "put_bytes d [] m = m"
  by (auto simp: put_bytes_def fun_eq_iff)

lemma put_bytes_Cons: "put_bytes (Suc d) xs (m(d := x)) = put_bytes d (x # xs) m"
proof
  fix a
  have "a - d = Suc (a - Suc d)" if "Suc d \<le> a" using that by simp
  then show "put_bytes (Suc d) xs (m(d := x)) a = put_bytes d (x # xs) m a"
    by (cases "a = d") (auto simp: put_bytes_def)
qed

lemma strncpy_pad: "strncpy_pad d n m = put_bytes d (replicate (n - 1) 0) m"
proof (induction d n m rule: strncpy_pad.induct)
  case (1 d n m)
  show ?case
  proof (cases "n - 1 = 0")
    case False
    then have "n - 1 = Suc (n - 1 - 1)" by simp
    then have "replicate (n - 1) (0 :: u8) = 0 # replicate (n - 1 - 1) 0" by (metis replicate_Suc)
    then show ?thesis using 1 False put_bytes_Cons [of d "replicate (n - 1 - 1) 0" m 0]
      by (simp add: strncpy_pad.simps [of d] del: fun_upd_apply)
  qed (simp add: strncpy_pad.simps [of d])
qed

lemma cstr_upd: "cstr m a xs \<Longrightarrow> \<not> (a \<le> d \<and> d \<le> a + length xs) \<Longrightarrow> cstr (m(d := v)) a xs"
  by (induction xs arbitrary: a) auto

lemma strncpy_loop:
  assumes "cstr m s xs" "n \<noteq> 0" "\<forall>a. s \<le> a \<and> a \<le> s + length xs \<longrightarrow> \<not> (d \<le> a \<and> a < d + n)"
  shows "strncpy_loop d s n m = put_bytes d (rt_strncpy xs n) m"
  using assms
proof (induction xs arbitrary: s d n m)
  case Nil
  then obtain k where n: "n = Suc k" by (cases n) auto
  have "strncpy_loop d s n m = strncpy_pad (Suc d) n (m(d := 0))" using Nil by (simp add: strncpy_loop.simps [of d])
  then show ?case using put_bytes_Cons [of d "replicate k 0" m 0]
    by (simp add: n strncpy_pad rt_strncpy_def replicate_append_same del: fun_upd_apply)
next
  case (Cons x xs)
  then obtain k where n: "n = Suc k" by (cases n) auto
  have cs: "cstr (m(d := x)) (s + 1) xs" using Cons.prems(1,2) Cons.prems(3) [rule_format, of d] by (intro cstr_upd) auto
  have step: "strncpy_loop d s n m = (if k = 0 then m(d := x) else strncpy_loop (d + 1) (s + 1) k (m(d := x)))"
    using Cons.prems(1) n by (subst strncpy_loop.simps) (simp add: Let_def)
  have take: "rt_strncpy (x # xs) n = x # rt_strncpy xs k"
    by (cases "length xs < k") (simp_all add: n rt_strncpy_def flip: replicate_Suc)
  show ?case
  proof (cases "k = 0")
    case True
    then show ?thesis using put_bytes_Cons [of d "[]" m x] unfolding step take by (simp add: rt_strncpy_def)
  next
    case False
    have "strncpy_loop (d + 1) (s + 1) k (m(d := x)) = put_bytes (d + 1) (rt_strncpy xs k) (m(d := x))"
      using Cons.prems(3) n by (intro Cons.IH [OF cs False]) auto
    then show ?thesis using False put_bytes_Cons [of d "rt_strncpy xs k" m x] unfolding step take
      by (simp del: fun_upd_apply)
  qed
qed

lemma strncpy_copies:
  assumes "cstr m s xs" "\<forall>a. s \<le> a \<and> a \<le> s + length xs \<longrightarrow> \<not> (d \<le> a \<and> a < d + n)"
  shows "rt_strncpy_mem d s n m = put_bytes d (rt_strncpy xs n) m"
  using strncpy_loop [OF assms(1) _ assms(2)] by (simp add: rt_strncpy_mem_def rt_strncpy_def)

end
