(* ===== verification/Kprintf.thy ===== *)
theory Kprintf
  imports Kmem
begin

text \<open>
  Formatted output: \<^verbatim>\<open>vsnprintf\<close> of \<^verbatim>\<open>src/kservice.c\<close> and what is built on it, with \<^verbatim>\<open>RT_PRINTF_PRECISION\<close> and
  without \<^verbatim>\<open>RT_PRINTF_LONGLONG\<close> and \<^verbatim>\<open>RT_PRINTF_SPECIAL\<close>. The C type \<^verbatim>\<open>int\<close> of widths is unbounded here, since
  an overflow of it is not defined in C, and so is the pointer into the buffer.
\<close>

subsection \<open>Output into a buffer\<close>

text \<open>The memory, and the pointer to the next byte. A byte is stored when it is not beyond the end.\<close>

type_synonym sink = "memory \<times> nat"

definition put :: "nat \<Rightarrow> u8 \<Rightarrow> sink \<Rightarrow> sink" where
  "put e c = (\<lambda>(m, str). (if str \<le> e then m(str := c) else m, str + 1))"

text \<open>The loop \<^verbatim>\<open>while (n-- > 0)\<close> that puts a byte, with what is left of \<open>n\<close>.\<close>

definition pad :: "nat \<Rightarrow> u8 \<Rightarrow> int \<Rightarrow> sink \<Rightarrow> sink \<times> int" where
  "pad e c n out = ((put e c ^^ nat n) out, min n 0 - 1)"

abbreviation ch :: "char \<Rightarrow> u8" where
  "ch c \<equiv> of_char c"

definition ZEROPAD :: u8 where "ZEROPAD = 1"
definition SIGN :: u8 where "SIGN = 2"
definition PLUS :: u8 where "PLUS = 4"
definition SPACE :: u8 where "SPACE = 8"
definition LEFT :: u8 where "LEFT = 16"
definition SPECIAL :: u8 where "SPECIAL = 32"
definition LARGE :: u8 where "LARGE = 64"

subsection \<open>Numbers\<close>

definition isdigit :: "u8 \<Rightarrow> bool" where
  "isdigit c \<longleftrightarrow> c - ch (CHR ''0'') < 10"

fun skip_atoi :: "u8 list \<Rightarrow> int \<Rightarrow> int \<times> u8 list" where
  "skip_atoi (c # s) i = (if isdigit c then skip_atoi s (i * 10 + uint c - 48) else (i, c # s))"
| "skip_atoi [] i = (i, [])"

text \<open>A division by 10, or else by 16: for base 8 too.\<close>

definition divide :: "u32 \<Rightarrow> nat \<Rightarrow> u32 \<times> u32" where
  "divide n base = (if base = 10 then (n mod 10, n div 10) else (n mod 16, n div 16))"

definition small_digits :: "u8 list" where
  "small_digits = map of_char ''0123456789abcdef''"

definition large_digits :: "u8 list" where
  "large_digits = map of_char ''0123456789ABCDEF''"

lemma divide_less: "n \<noteq> 0 \<Longrightarrow> unat (snd (divide n base)) < unat n"
  by (simp add: divide_def unat_div unat_gt_0)

text \<open>The digits, the last one first.\<close>

function number_loop :: "u8 list \<Rightarrow> nat \<Rightarrow> u32 \<Rightarrow> u8 list" where
  "number_loop digits base num =
     (if num \<noteq> 0 then let (res, n) = divide num base in digits ! unat res # number_loop digits base n else [])"
  by pat_completeness auto
termination
  by (relation "measure (\<lambda>(_, _, n). unat n)") (use divide_less in \<open>auto simp: prod_eq_iff\<close>)

declare number_loop.simps [simp del]

text \<open>The number of \<open>print_number\<close> is put out after its sign and what fills the field.\<close>

definition emit_number :: "nat \<Rightarrow> u8 \<Rightarrow> u8 \<Rightarrow> u8 \<Rightarrow> u8 list \<Rightarrow> int \<Rightarrow> int \<Rightarrow> sink \<Rightarrow> sink" where
  "emit_number e type c sign tmp precision sz out =
     (let i = int (length tmp);
          (out, sz) =
            (if type AND (ZEROPAD OR LEFT) = 0 then
               let sz = (if sign \<noteq> 0 \<and> sz > 0 then sz - 1 else sz)
               in pad e (ch (CHR '' '')) sz out
             else (out, sz));
          (out, sz) =
            (if sign \<noteq> 0 then (put e sign out, if snd out \<le> e then sz - 1 else sz) else (out, sz));
          (out, sz) = (if type AND LEFT = 0 then pad e c sz out else (out, sz));
          (out, _) = pad e (ch (CHR ''0'')) (precision - i) out;
          out = fold (put e) (rev tmp) out;
          (out, _) = pad e (ch (CHR '' '')) sz out
      in out)"

definition print_number ::
  "nat \<Rightarrow> u32 \<Rightarrow> nat \<Rightarrow> int \<Rightarrow> int \<Rightarrow> u8 \<Rightarrow> sink \<Rightarrow> sink" where
  "print_number e num base s precision type out =
     (let digits = (if type AND LARGE \<noteq> 0 then large_digits else small_digits);
          type = (if type AND LEFT \<noteq> 0 then type AND NOT ZEROPAD else type);
          c = (if type AND ZEROPAD \<noteq> 0 then ch (CHR ''0'') else ch (CHR '' ''));
          (sign, num) =
            (if type AND SIGN \<noteq> 0 then
               if sint num < 0 then (ch (CHR ''-''), - num)
               else if type AND PLUS \<noteq> 0 then (ch (CHR ''+''), num)
               else if type AND SPACE \<noteq> 0 then (ch (CHR '' ''), num)
               else (0, num)
             else (0, num));
          tmp = (if num = 0 then [ch (CHR ''0'')] else number_loop digits base num);
          i = int (length tmp);
          precision = (if i > precision then i else precision)
      in emit_number e type c sign tmp precision (s - precision) out)"

subsection \<open>Formats\<close>

text \<open>An argument is a word, or a pointer to a string that may be null. Reading the wrong one, or one that is not there,
  is not defined.\<close>

datatype va_arg = Arg_int u32 | Arg_str "u8 list option"

fun arg_int :: "va_arg list \<Rightarrow> (u32 \<times> va_arg list) option" where
  "arg_int (Arg_int w # args) = Some (w, args)"
| "arg_int _ = None"

fun arg_str :: "va_arg list \<Rightarrow> (u8 list option \<times> va_arg list) option" where
  "arg_str (Arg_str s # args) = Some (s, args)"
| "arg_str _ = None"

text \<open>The format is the list of its bytes before the zero.\<close>

fun parse_flags :: "u8 list \<Rightarrow> u8 \<Rightarrow> u8 \<times> u8 list" where
  "parse_flags [] flags = (flags, [])"
| "parse_flags (c # fmt) flags =
     (if c = ch (CHR ''-'') then parse_flags fmt (flags OR LEFT)
      else if c = ch (CHR ''+'') then parse_flags fmt (flags OR PLUS)
      else if c = ch (CHR '' '') then parse_flags fmt (flags OR SPACE)
      else if c = ch (CHR ''#'') then parse_flags fmt (flags OR SPECIAL)
      else if c = ch (CHR ''0'') then parse_flags fmt (flags OR ZEROPAD)
      else (flags, c # fmt))"

text \<open>The width of the field, and the flags, which a negative width changes.\<close>

definition parse_width ::
  "u8 list \<Rightarrow> u8 \<Rightarrow> va_arg list \<Rightarrow> (int \<times> u8 \<times> u8 list \<times> va_arg list) option" where
  "parse_width fmt flags args =
     (case fmt of
        [] \<Rightarrow> Some (- 1, flags, fmt, args)
      | c # fmt' \<Rightarrow>
          if isdigit c then let (w, fmt) = skip_atoi fmt 0 in Some (w, flags, fmt, args)
          else if c = ch (CHR ''*'') then do {
            (w, args) \<leftarrow> arg_int args;
            Some (if sint w < 0 then (- sint w, flags OR LEFT, fmt', args) else (sint w, flags, fmt', args))
          }
          else Some (- 1, flags, fmt, args))"

definition parse_precision :: "u8 list \<Rightarrow> va_arg list \<Rightarrow> (int \<times> u8 list \<times> va_arg list) option" where
  "parse_precision fmt args =
     (case fmt of
        [] \<Rightarrow> Some (- 1, fmt, args)
      | c # fmt \<Rightarrow>
          if c = ch (CHR ''.'') then
            (case fmt of
               [] \<Rightarrow> Some (0, fmt, args)
             | d # fmt' \<Rightarrow>
                 if isdigit d then let (p, fmt) = skip_atoi fmt 0 in Some (p, fmt, args)
                 else if d = ch (CHR ''*'') then do {
                   (p, args) \<leftarrow> arg_int args;
                   Some (if sint p < 0 then 0 else sint p, fmt', args)
                 }
                 else Some (0, fmt, args))
          else Some (- 1, c # fmt, args))"

definition parse_qualifier :: "u8 list \<Rightarrow> u8 \<times> u8 list" where
  "parse_qualifier fmt =
     (case fmt of
        c # fmt' \<Rightarrow> if c = ch (CHR ''h'') \<or> c = ch (CHR ''l'') then (c, fmt') else (0, fmt)
      | [] \<Rightarrow> (0, fmt))"

text \<open>The conversions \<^verbatim>\<open>%c\<close> and \<^verbatim>\<open>%s\<close>. The loops \<^verbatim>\<open>while (--n > 0)\<close> and \<^verbatim>\<open>while (len < n--)\<close> are \<open>pad\<close> with other
  bounds.\<close>

definition print_char :: "nat \<Rightarrow> u8 \<Rightarrow> int \<Rightarrow> u8 \<Rightarrow> sink \<Rightarrow> sink" where
  "print_char e c field_width flags out =
     (let (out, field_width) =
            (if flags AND LEFT = 0 then let (out, n) = pad e (ch (CHR '' '')) (field_width - 1) out in (out, n + 1)
             else (out, field_width));
          out = put e c out
      in fst (pad e (ch (CHR '' '')) (field_width - 1) out))"

definition print_string :: "nat \<Rightarrow> u8 list option \<Rightarrow> int \<Rightarrow> int \<Rightarrow> u8 \<Rightarrow> sink \<Rightarrow> sink" where
  "print_string e s field_width precision flags out =
     (let s = (case s of None \<Rightarrow> map of_char ''(NULL)'' | Some s \<Rightarrow> s);
          len = int (length s);
          len = (if precision > 0 \<and> len > precision then precision else len);
          (out, field_width) =
            (if flags AND LEFT = 0
             then let (out, n) = pad e (ch (CHR '' '')) (field_width - len) out in (out, n + len)
             else (out, field_width));
          out = fold (put e) (take (nat len) s) out
      in fst (pad e (ch (CHR '' '')) (field_width - len) out))"

text \<open>A number of 16 bits is extended with its sign, if it has one.\<close>

definition read_number :: "u8 \<Rightarrow> u8 \<Rightarrow> va_arg list \<Rightarrow> (u32 \<times> va_arg list) option" where
  "read_number qualifier flags args = do {
     (w, args) \<leftarrow> arg_int args;
     Some (if qualifier = ch (CHR ''h'')
           then if flags AND SIGN \<noteq> 0 then scast (ucast w :: u16) else ucast (ucast w :: u16)
           else w, args)
   }"

definition print_integer ::
  "nat \<Rightarrow> nat \<Rightarrow> u8 \<Rightarrow> int \<Rightarrow> int \<Rightarrow> u8 \<Rightarrow> va_arg list \<Rightarrow> sink \<Rightarrow> (va_arg list \<times> sink) option" where
  "print_integer e base qualifier field_width precision flags args out = do {
     (num, args) \<leftarrow> read_number qualifier flags args;
     Some (args, print_number e num base field_width precision flags out)
   }"

text \<open>One conversion, after its percent sign.\<close>

definition directive :: "nat \<Rightarrow> u8 list \<Rightarrow> va_arg list \<Rightarrow> sink \<Rightarrow> (u8 list \<times> va_arg list \<times> sink) option" where
  "directive e fmt args out = do {
     let (flags, fmt) = parse_flags fmt 0;
     (field_width, flags, fmt, args) \<leftarrow> parse_width fmt flags args;
     (precision, fmt, args) \<leftarrow> parse_precision fmt args;
     let (qualifier, fmt) = parse_qualifier fmt;
     let number = (\<lambda>base flags fmt. do {
       (args, out) \<leftarrow> print_integer e base qualifier field_width precision flags args out;
       Some (fmt, args, out)
     });
     (case fmt of
        [] \<Rightarrow> Some ([], args, put e (ch (CHR ''%'')) out)
      | c # fmt \<Rightarrow>
          if c = ch (CHR ''c'') then do {
            (w, args) \<leftarrow> arg_int args;
            Some (fmt, args, print_char e (ucast w) field_width flags out)
          }
          else if c = ch (CHR ''s'') then do {
            (s, args) \<leftarrow> arg_str args;
            Some (fmt, args, print_string e s field_width precision flags out)
          }
          else if c = ch (CHR ''p'') then do {
            let (field_width, flags) = (if field_width = - 1 then (8, flags OR ZEROPAD) else (field_width, flags));
            (w, args) \<leftarrow> arg_int args;
            Some (fmt, args, print_number e w 16 field_width precision flags out)
          }
          else if c = ch (CHR ''%'') then Some (fmt, args, put e (ch (CHR ''%'')) out)
          else if c = ch (CHR ''o'') then number 8 flags fmt
          else if c = ch (CHR ''X'') then number 16 (flags OR LARGE) fmt
          else if c = ch (CHR ''x'') then number 16 flags fmt
          else if c = ch (CHR ''d'') \<or> c = ch (CHR ''i'') then number 10 (flags OR SIGN) fmt
          else if c = ch (CHR ''u'') then number 10 flags fmt
          else Some (fmt, args, put e c (put e (ch (CHR ''%'')) out)))
   }"

lemma skip_atoi_length: "length (snd (skip_atoi s i)) \<le> length s"
  by (induction s i rule: skip_atoi.induct) (simp_all add: le_Suc_eq)

lemma parse_flags_length: "length (snd (parse_flags s f)) \<le> length s"
  by (induction s f rule: parse_flags.induct) (auto simp: le_Suc_eq)

lemma parse_width_length: "parse_width s f a = Some (w, f', s', a') \<Longrightarrow> length s' \<le> length s"
  using skip_atoi_length [of s 0]
  by (auto simp: parse_width_def bind_eq_Some_conv Let_def split_beta split: list.splits if_splits)

lemma parse_precision_length: "parse_precision s a = Some (p, s', a') \<Longrightarrow> length s' \<le> length s"
  using skip_atoi_length [of "tl s" 0]
  by (auto simp: parse_precision_def bind_eq_Some_conv Let_def split_beta split: list.splits if_splits)

lemma parse_qualifier_length: "length (snd (parse_qualifier s)) \<le> length s"
  by (auto simp: parse_qualifier_def split: list.splits)

lemma directive_cases:
  assumes "directive e fmt args out = Some (fmt', args', out')"
  obtains flags w flags' fmt1 args1 p fmt2 args2 q fmt3 where
    "parse_flags fmt 0 = (flags, fmt1)" "parse_width fmt1 flags args = Some (w, flags', fmt2, args1)"
    "parse_precision fmt2 args1 = Some (p, fmt3, args2)"
    "length fmt' \<le> length fmt3"
proof -
  obtain flags fmt1 where f: "parse_flags fmt 0 = (flags, fmt1)" by (rule prod.exhaust)
  with assms obtain w flags' fmt2 args1 where w: "parse_width fmt1 flags args = Some (w, flags', fmt2, args1)"
    by (auto simp: directive_def bind_eq_Some_conv)
  with assms f obtain p fmt3 args2 where p: "parse_precision fmt2 args1 = Some (p, fmt3, args2)"
    by (auto simp: directive_def bind_eq_Some_conv)
  obtain q fmt4 where q: "parse_qualifier fmt3 = (q, fmt4)" by (rule prod.exhaust)
  have "length fmt' \<le> length fmt4"
  proof (cases fmt4)
    case Nil
    with assms f w p q show ?thesis by (simp add: directive_def)
  next
    case (Cons c cs)
    with assms f w p q have "fmt' = cs"
      unfolding directive_def by (auto simp: bind_eq_Some_conv Let_def split: if_splits)
    with Cons show ?thesis by simp
  qed
  moreover have "length fmt4 \<le> length fmt3" using parse_qualifier_length [of fmt3] q by simp
  ultimately show ?thesis using that f w p by simp
qed

lemma directive_length:
  assumes "directive e fmt args out = Some (fmt', args', out')"
  shows "length fmt' \<le> length fmt"
proof (rule directive_cases [OF assms])
  fix flags w flags' fmt1 args1 p fmt2 args2 q fmt3
  assume "parse_flags fmt 0 = (flags, fmt1)" "parse_width fmt1 flags args = Some (w, flags', fmt2, args1)"
    "parse_precision fmt2 args1 = Some (p, fmt3, args2)" "length fmt' \<le> length fmt3"
  then show ?thesis
    using parse_flags_length [of fmt 0] parse_width_length [of fmt1 flags args] parse_precision_length [of fmt2 args1] by fastforce
qed

text \<open>The loop over the format, and the final zero.\<close>

function format_loop :: "nat \<Rightarrow> u8 list \<Rightarrow> va_arg list \<Rightarrow> sink \<Rightarrow> sink option" where
  "format_loop e [] args out = Some out"
| "format_loop e (c # fmt) args out =
     (if c \<noteq> ch (CHR ''%'') then format_loop e fmt args (put e c out)
      else (case directive e fmt args out of
              None \<Rightarrow> None
            | Some (fmt', args', out') \<Rightarrow> format_loop e fmt' args' out'))"
  by pat_completeness auto
termination
  by (relation "measure (\<lambda>(_, fmt, _, _). length fmt)") (auto dest!: directive_length)

text \<open>The end of the buffer. An end before the buffer, which is what a size of zero gives, is taken for the end of the
  address space.\<close>

definition vsnprintf :: "nat \<Rightarrow> u32 \<Rightarrow> u8 list \<Rightarrow> va_arg list \<Rightarrow> memory \<Rightarrow> (u32 \<times> memory) option" where
  "vsnprintf buf sz fmt args m =
     (let e = unat (word_of_nat buf + sz - 1 :: u32);
          e = (if e < buf then 2 ^ 32 - 1 else e)
      in do {
        (m, str) \<leftarrow> format_loop e fmt args (m, buf);
        Some (word_of_nat (str - buf), if str \<le> e then m(str := 0) else m(e := 0))
      })"

definition rt_snprintf :: "nat \<Rightarrow> u32 \<Rightarrow> u8 list \<Rightarrow> va_arg list \<Rightarrow> memory \<Rightarrow> (u32 \<times> memory) option" where
  "rt_snprintf buf sz fmt args m = vsnprintf buf sz fmt args m"

definition rt_vsprintf :: "nat \<Rightarrow> u8 list \<Rightarrow> va_arg list \<Rightarrow> memory \<Rightarrow> (u32 \<times> memory) option" where
  "rt_vsprintf buf fmt args m = vsnprintf buf (- 1) fmt args m"

definition rt_sprintf :: "nat \<Rightarrow> u8 list \<Rightarrow> va_arg list \<Rightarrow> memory \<Rightarrow> (u32 \<times> memory) option" where
  "rt_sprintf buf fmt args m = rt_vsprintf buf fmt args m"

subsection \<open>Everything is a text put out byte by byte\<close>

lemma put_step: "put e c (m, str) = (if str \<le> e then m(str := c) else m, Suc str)"
  by (simp add: put_def)

lemma fold_put:
  "fold (put e) xs (m, str) =
     (\<lambda>a. if str \<le> a \<and> a < str + length xs \<and> a \<le> e then xs ! (a - str) else m a, str + length xs)"
proof (induction xs arbitrary: m str)
  case (Cons x xs)
  have "fold (put e) (x # xs) (m, str) = fold (put e) xs (if str \<le> e then m(str := x) else m, Suc str)"
    by (simp add: put_step)
  also have "\<dots> = (\<lambda>a. if Suc str \<le> a \<and> a < Suc str + length xs \<and> a \<le> e then xs ! (a - Suc str)
      else (if str \<le> e then m(str := x) else m) a, Suc str + length xs)" by (rule Cons.IH)
  also have "\<dots> = (\<lambda>a. if str \<le> a \<and> a < str + length (x # xs) \<and> a \<le> e then (x # xs) ! (a - str) else m a,
      str + length (x # xs))"
  proof -
    have "a - str = Suc (a - Suc str)" if "Suc str \<le> a" for a using that by simp
    then show ?thesis by (auto simp: fun_eq_iff)
  qed
  finally show ?case .
qed (auto simp: fun_eq_iff)

lemma put_times: "(put e c ^^ k) out = fold (put e) (replicate k c) out"
proof (induction k arbitrary: out)
  case (Suc k)
  have "(put e c ^^ Suc k) out = (put e c ^^ k) (put e c out)" by (simp only: funpow_Suc_right comp_apply)
  then show ?case by (simp only: Suc.IH replicate_Suc fold_Cons comp_apply)
qed simp

lemma pad_fold: "pad e c n out = (fold (put e) (replicate (nat n) c) out, min n 0 - 1)"
  unfolding pad_def put_times ..

text \<open>The text of a number: its sign, its digits, and what fills the field. When the sign no longer fits into the
  buffer, it is not counted, so that one more byte fills the field.\<close>

definition number_sign :: "u32 \<Rightarrow> u8 \<Rightarrow> u8 list" where
  "number_sign num type =
     (if type AND SIGN \<noteq> 0 then
        if sint num < 0 then [ch (CHR ''-'')]
        else if type AND PLUS \<noteq> 0 then [ch (CHR ''+'')]
        else if type AND SPACE \<noteq> 0 then [ch (CHR '' '')]
        else []
      else [])"

definition number_digits :: "u32 \<Rightarrow> nat \<Rightarrow> u8 \<Rightarrow> u8 list" where
  "number_digits num base type =
     (let n = (if type AND SIGN \<noteq> 0 \<and> sint num < 0 then - num else num)
      in if n = 0 then [ch (CHR ''0'')]
         else rev (number_loop (if type AND LARGE \<noteq> 0 then large_digits else small_digits) base n))"

definition number_body :: "u32 \<Rightarrow> nat \<Rightarrow> int \<Rightarrow> u8 \<Rightarrow> u8 list" where
  "number_body num base precision type =
     (let ds = number_digits num base type
      in replicate (nat (precision - int (length ds))) (ch (CHR ''0'')) @ ds)"

definition number_text :: "bool \<Rightarrow> u32 \<Rightarrow> nat \<Rightarrow> int \<Rightarrow> int \<Rightarrow> u8 \<Rightarrow> u8 list" where
  "number_text fits num base s precision type =
     (let sign = number_sign num type;
          body = number_body num base precision type;
          gap = nat (s - int (length body) - (if fits then int (length sign) else 0))
      in if type AND LEFT \<noteq> 0 then sign @ body @ replicate gap (ch (CHR '' ''))
         else if type AND ZEROPAD \<noteq> 0 then sign @ replicate gap (ch (CHR ''0'')) @ body
         else replicate (nat (s - int (length body) - int (length sign))) (ch (CHR '' '')) @ sign @ body)"

lemma flag_bits:
  "type AND LEFT \<noteq> 0 \<Longrightarrow> (type AND NOT ZEROPAD) AND (ZEROPAD OR LEFT) \<noteq> 0"
  "type AND LEFT \<noteq> 0 \<Longrightarrow> (type AND NOT ZEROPAD) AND LEFT \<noteq> 0"
  "(type AND NOT ZEROPAD) AND ZEROPAD = 0"
  "(type AND NOT ZEROPAD) AND SIGN = type AND SIGN"
  "(type AND NOT ZEROPAD) AND PLUS = type AND PLUS"
  "(type AND NOT ZEROPAD) AND SPACE = type AND SPACE"
  "(type AND NOT ZEROPAD) AND LARGE = type AND LARGE"
  "type AND (ZEROPAD OR LEFT) = 0 \<longleftrightarrow> type AND ZEROPAD = 0 \<and> type AND LEFT = 0"
proof -
  show *: "type AND (ZEROPAD OR LEFT) = 0 \<longleftrightarrow> type AND ZEROPAD = 0 \<and> type AND LEFT = 0" for type :: u8
    by (simp add: bit.conj_disj_distrib or_eq_0_iff)
  have m: "NOT ZEROPAD AND LEFT = LEFT" "NOT ZEROPAD AND SIGN = SIGN" "NOT ZEROPAD AND PLUS = PLUS"
    "NOT ZEROPAD AND SPACE = SPACE" "NOT ZEROPAD AND LARGE = LARGE" "NOT ZEROPAD AND ZEROPAD = (0 :: u8)"
    by (simp_all add: ZEROPAD_def LEFT_def SIGN_def PLUS_def SPACE_def LARGE_def)
  show left: "(type AND NOT ZEROPAD) AND LEFT \<noteq> 0" if "type AND LEFT \<noteq> 0"
    using that by (simp add: and.assoc m)
  show "(type AND NOT ZEROPAD) AND (ZEROPAD OR LEFT) \<noteq> 0" if "type AND LEFT \<noteq> 0"
    using left [OF that] unfolding * by simp
qed (simp_all add: and.assoc ZEROPAD_def LEFT_def SIGN_def PLUS_def SPACE_def LARGE_def)

definition sign_bytes :: "u8 \<Rightarrow> u8 list" where
  "sign_bytes sign = (if sign \<noteq> 0 then [sign] else [])"

definition with_zeros :: "int \<Rightarrow> u8 list \<Rightarrow> u8 list" where
  "with_zeros precision tmp = replicate (nat (precision - int (length tmp))) (ch (CHR ''0'')) @ rev tmp"

definition sign_gap :: "bool \<Rightarrow> int \<Rightarrow> u8 \<Rightarrow> nat" where
  "sign_gap fits sz sign = nat (sz - (if fits then int (length (sign_bytes sign)) else 0))"

lemma emit_number_text:
  "type AND LEFT \<noteq> 0 \<Longrightarrow> emit_number e type c sign tmp precision sz out =
      fold (put e) (sign_bytes sign @ with_zeros precision tmp @ replicate (sign_gap (snd out \<le> e) sz sign) (ch (CHR '' ''))) out"
  "type AND LEFT = 0 \<Longrightarrow> type AND ZEROPAD \<noteq> 0 \<Longrightarrow> emit_number e type c sign tmp precision sz out =
      fold (put e) (sign_bytes sign @ replicate (sign_gap (snd out \<le> e) sz sign) c @ with_zeros precision tmp) out"
  "type AND LEFT = 0 \<Longrightarrow> type AND ZEROPAD = 0 \<Longrightarrow> emit_number e type c sign tmp precision sz out =
      fold (put e) (replicate (sign_gap True sz sign) (ch (CHR '' '')) @ sign_bytes sign @ with_zeros precision tmp) out"
proof -
  note defs = emit_number_def pad_fold sign_bytes_def with_zeros_def sign_gap_def Let_def
  show "emit_number e type c sign tmp precision sz out =
      fold (put e) (sign_bytes sign @ with_zeros precision tmp @ replicate (sign_gap (snd out \<le> e) sz sign) (ch (CHR '' ''))) out"
    if "type AND LEFT \<noteq> 0"
  proof -
    have "type AND (ZEROPAD OR LEFT) \<noteq> 0" using that by (simp add: flag_bits(8))
    with that show ?thesis by (cases "sign = 0") (simp_all add: defs)
  qed
  show "emit_number e type c sign tmp precision sz out =
      fold (put e) (sign_bytes sign @ replicate (sign_gap (snd out \<le> e) sz sign) c @ with_zeros precision tmp) out"
    if "type AND LEFT = 0" "type AND ZEROPAD \<noteq> 0"
  proof -
    have "type AND (ZEROPAD OR LEFT) \<noteq> 0" using that by (simp add: flag_bits(8))
    with that show ?thesis by (cases "sign = 0") (simp_all add: defs)
  qed
  show "emit_number e type c sign tmp precision sz out =
      fold (put e) (replicate (sign_gap True sz sign) (ch (CHR '' '')) @ sign_bytes sign @ with_zeros precision tmp) out"
    if "type AND LEFT = 0" "type AND ZEROPAD = 0"
  proof -
    have "type AND (ZEROPAD OR LEFT) = 0" using that by (simp add: flag_bits(8))
    with that show ?thesis by (cases "sign = 0") (auto simp: defs)
  qed
qed

lemma ch_nonzero [simp]: "ch (CHR ''-'') \<noteq> 0" "ch (CHR ''+'') \<noteq> 0" "ch (CHR '' '') \<noteq> 0"
  by simp_all

lemma length_with_zeros: "int (length (with_zeros precision tmp)) = max precision (int (length tmp))"
  by (auto simp: with_zeros_def)

lemma print_number_text:
  "print_number e num base s precision type out = fold (put e) (number_text (snd out \<le> e) num base s precision type) out"
proof -
  define sg where "sg = (if type AND SIGN \<noteq> 0 then
      if sint num < 0 then ch (CHR ''-'')
      else if type AND PLUS \<noteq> 0 then ch (CHR ''+'')
      else if type AND SPACE \<noteq> 0 then ch (CHR '' '') else 0 else 0)"
  define n where "n = (if type AND SIGN \<noteq> 0 \<and> sint num < 0 then - num else num)"
  define tmp where "tmp = (if n = 0 then [ch (CHR ''0'')] else
      number_loop (if type AND LARGE \<noteq> 0 then large_digits else small_digits) base n)"
  define p where "p = (if int (length tmp) > precision then int (length tmp) else precision)"
  define t where "t = (if type AND LEFT \<noteq> 0 then type AND NOT ZEROPAD else type)"
  have t: "t AND SIGN = type AND SIGN" "t AND PLUS = type AND PLUS" "t AND SPACE = type AND SPACE"
    by (simp_all add: t_def flag_bits)
  have run: "print_number e num base s precision type out =
      emit_number e t (if t AND ZEROPAD \<noteq> 0 then ch (CHR ''0'') else ch (CHR '' '')) sg tmp p (s - p) out"
    unfolding print_number_def Let_def t_def [symmetric] unfolding t
    by (simp add: sg_def n_def tmp_def p_def)
  have sign: "number_sign num type = sign_bytes sg" by (simp add: number_sign_def sg_def sign_bytes_def)
  have tmp0: "number_digits num base type = rev tmp" by (simp add: number_digits_def tmp_def n_def Let_def)
  have body: "number_body num base precision type = with_zeros p tmp"
    by (simp add: number_body_def tmp0 with_zeros_def p_def Let_def)
  have len: "int (length (with_zeros p tmp)) = p" by (simp add: length_with_zeros p_def)
  have gap: "sign_gap f (s - p) sg = nat (s - int (length (with_zeros p tmp)) - (if f then int (length (sign_bytes sg)) else 0))" for f
    by (simp add: sign_gap_def len)
  consider "type AND LEFT \<noteq> 0" | "type AND LEFT = 0" "type AND ZEROPAD \<noteq> 0" | "type AND LEFT = 0" "type AND ZEROPAD = 0" by blast
  then show ?thesis
  proof cases
    case 1
    then have "t AND LEFT \<noteq> 0" by (simp add: t_def flag_bits(2))
    from emit_number_text(1) [OF this] show ?thesis
      unfolding run number_text_def sign body Let_def if_P [OF 1] by (simp add: gap)
  next
    case 2
    then have "t AND LEFT = 0" "t AND ZEROPAD \<noteq> 0" by (simp_all add: t_def)
    from emit_number_text(2) [OF this] this(2) show ?thesis
      unfolding run number_text_def sign body Let_def using 2 by (simp add: gap)
  next
    case 3
    then have "t AND LEFT = 0" "t AND ZEROPAD = 0" by (simp_all add: t_def)
    from emit_number_text(3) [OF this] show ?thesis
      unfolding run number_text_def sign body Let_def using 3 by (simp add: gap)
  qed
qed

subsection \<open>The buffer\<close>

lemma buffer_end:
  assumes "sz \<noteq> 0" "buf + unat sz \<le> 2 ^ 32"
  shows "unat (word_of_nat buf + sz - 1 :: u32) = buf + (unat sz - 1)"
proof -
  have pos: "0 < unat sz" using assms(1) by (simp add: unat_gt_0)
  then have "word_of_nat buf + sz - 1 = (word_of_nat (buf + (unat sz - 1)) :: u32)"
    by (simp add: of_nat_diff)
  moreover have "unat (word_of_nat (buf + (unat sz - 1)) :: u32) = buf + (unat sz - 1)"
    by (rule unat_small) (use assms(2) pos in simp)
  ultimately show ?thesis by (simp only:)
qed

text \<open>With room for at least one byte, nothing beyond the buffer is written, and the buffer holds as much of the text as
  there is room for, and a zero. The result is the length of the whole text.\<close>

definition text_in_buffer :: "nat \<Rightarrow> u32 \<Rightarrow> u8 list \<Rightarrow> memory \<Rightarrow> memory \<Rightarrow> bool" where
  "text_in_buffer buf sz ys m m' \<longleftrightarrow>
     bytes m' buf (min (length ys) (unat sz - 1)) = take (unat sz - 1) ys \<and>
     m' (buf + min (length ys) (unat sz - 1)) = 0 \<and>
     (\<forall>a. a < buf \<or> buf + unat sz \<le> a \<longrightarrow> m' a = m a)"

lemma vsnprintf_puts:
  assumes l: "format_loop (buf + (unat sz - 1)) fmt args (m, buf) = Some (fold (put (buf + (unat sz - 1))) ys (m, buf))"
    and sz: "sz \<noteq> 0" "buf + unat sz \<le> 2 ^ 32"
  shows "\<exists>m'. vsnprintf buf sz fmt args m = Some (word_of_nat (length ys), m') \<and> text_in_buffer buf sz ys m m'"
proof -
  let ?e = "buf + (unat sz - 1)" and ?k = "min (length ys) (unat sz - 1)"
  have pos: "0 < unat sz" using sz(1) by (simp add: unat_gt_0)
  define m1 where "m1 = (\<lambda>a. if buf \<le> a \<and> a < buf + length ys \<and> a \<le> ?e then ys ! (a - buf) else m a)"
  have "fold (put ?e) ys (m, buf) = (m1, buf + length ys)" by (simp add: m1_def fold_put)
  then have "vsnprintf buf sz fmt args m = Some (word_of_nat (length ys),
      if buf + length ys \<le> ?e then m1(buf + length ys := 0) else m1(?e := 0))"
    using l by (simp add: vsnprintf_def buffer_end [OF sz])
  also have "(if buf + length ys \<le> ?e then m1(buf + length ys := 0) else m1(?e := 0)) = m1(buf + ?k := 0)"
    by (simp add: min_def)
  finally have run: "vsnprintf buf sz fmt args m = Some (word_of_nat (length ys), m1(buf + ?k := 0))" .
  have "bytes (m1(buf + ?k := 0)) buf ?k = take (unat sz - 1) ys"
    by (rule nth_equalityI) (auto simp: bytes_def m1_def)
  moreover have "\<forall>a. a < buf \<or> buf + unat sz \<le> a \<longrightarrow> (m1(buf + ?k := 0)) a = m a" using pos by (auto simp: m1_def)
  ultimately have "text_in_buffer buf sz ys m (m1(buf + ?k := 0))" by (simp add: text_in_buffer_def)
  with run show ?thesis by blast
qed

text \<open>A format without conversions is the text.\<close>

lemma format_plain: "ch (CHR ''%'') \<notin> set fmt \<Longrightarrow> format_loop e fmt args out = Some (fold (put e) fmt out)"
  by (induction fmt arbitrary: out) auto

text \<open>A size of zero is no bound at all.\<close>

lemma vsnprintf_zero:
  assumes "0 < buf" "buf + length fmt < 2 ^ 32" "ch (CHR ''%'') \<notin> set fmt"
  shows "\<exists>m'. vsnprintf buf 0 fmt args m = Some (word_of_nat (length fmt), m') \<and> bytes m' buf (length fmt) = fmt"
proof -
  have "unat (word_of_nat buf + 0 - 1 :: u32) < buf"
  proof -
    have "unat (word_of_nat (buf - 1) :: u32) = buf - 1"
      by (rule unat_small) (use assms in simp)
    moreover have "word_of_nat buf + 0 - 1 = (word_of_nat (buf - 1) :: u32)" using assms(1) by (simp add: of_nat_diff)
    ultimately have "unat (word_of_nat buf + 0 - 1 :: u32) = buf - 1" by (simp only:)
    then show ?thesis using assms(1) by simp
  qed
  then have "vsnprintf buf 0 fmt args m = Option.bind (format_loop (2 ^ 32 - 1) fmt args (m, buf))
      (\<lambda>(m, str). Some (word_of_nat (str - buf), if str \<le> 2 ^ 32 - 1 then m(str := 0) else m(2 ^ 32 - 1 := 0)))"
    unfolding vsnprintf_def Let_def by (simp only: if_True)
  moreover have "format_loop (2 ^ 32 - 1) fmt args (m, buf) = Some (fold (put (2 ^ 32 - 1)) fmt (m, buf))"
    by (rule format_plain [OF assms(3)])
  ultimately have "vsnprintf buf 0 fmt args m = Some (word_of_nat (length fmt),
      (fst (fold (put (2 ^ 32 - 1)) fmt (m, buf))) (buf + length fmt := 0))"
    using assms(2) by (simp add: fold_put)
  moreover have "bytes ((fst (fold (put (2 ^ 32 - 1)) fmt (m, buf))) (buf + length fmt := 0)) buf (length fmt) = fmt"
    using assms(2) by (intro nth_equalityI) (auto simp: bytes_def fold_put)
  ultimately show ?thesis by blast
qed

subsection \<open>Numbers read back\<close>

lemma digit:
  assumes "k < 10"
  shows "digits \<in> {small_digits, large_digits} \<Longrightarrow> isdigit (digits ! k) \<and> uint (digits ! k) = 48 + int k"
proof -
  have "k = 0 \<or> k = 1 \<or> k = 2 \<or> k = 3 \<or> k = 4 \<or> k = 5 \<or> k = 6 \<or> k = 7 \<or> k = 8 \<or> k = 9"
    using assms by (simp add: numeral_eq_Suc less_Suc_eq)
  then show "digits \<in> {small_digits, large_digits} \<Longrightarrow> ?thesis"
    by (elim disjE insertE) (simp_all add: small_digits_def large_digits_def isdigit_def)
qed

lemma atoi_number_loop:
  "digits \<in> {small_digits, large_digits} \<Longrightarrow> base = 10 \<Longrightarrow>
   skip_atoi (rev (number_loop digits base n) @ rest) i =
   skip_atoi rest (i * 10 ^ length (number_loop digits base n) + uint n)"
proof (induction digits base n arbitrary: rest rule: number_loop.induct)
  case (1 digits base n)
  show ?case
  proof (cases "n = 0")
    case True
    then show ?thesis by (simp add: number_loop.simps)
  next
    case False
    let ?L = "number_loop digits base (n div 10)" and ?d = "digits ! unat (n mod 10)"
    have d: "divide n base = (n mod 10, n div 10)" using 1(3) by (simp add: divide_def)
    have L: "number_loop digits base n = ?d # ?L" using False by (subst number_loop.simps) (simp add: d)
    have IH: "skip_atoi (rev ?L @ [?d] @ rest) i = skip_atoi ([?d] @ rest) (i * 10 ^ length ?L + uint (n div 10))"
      using 1(1) [OF False d [symmetric] refl, of "[?d] @ rest"] 1(2,3) False by simp
    have k: "unat (n mod 10) < 10" by (simp add: unat_mod)
    have "uint n = uint (n div 10) * 10 + int (unat (n mod 10))"
      by (simp add: uint_div uint_mod unat_mod of_nat_mod) 
    then have "skip_atoi ([?d] @ rest) (i * 10 ^ length ?L + uint (n div 10)) =
        skip_atoi rest (i * 10 ^ length (?d # ?L) + uint n)"
      using digit [OF k 1(2)] by (simp add: algebra_simps)
    then show ?thesis using IH by (simp add: L)
  qed
qed

text \<open>The magnitude of a number, with its sign or without one.\<close>

lemma number_magnitude:
  "uint (if type AND SIGN \<noteq> 0 \<and> sint num < 0 then - num else num) = (if type AND SIGN \<noteq> 0 then \<bar>sint num\<bar> else uint num)"
  for num :: u32
proof -
  have r: "- (2 ^ 31) \<le> sint num" "sint num < 2 ^ 31"
    using sint_ge [of num] sint_lt [of num] by simp_all
  have w: "uint (word_of_int k :: u32) = k" if "0 \<le> k" "k < 2 ^ 32" for k
    using that by (simp add: uint_word_of_int_eq take_bit_int_eq_self)
  have "uint (- num) = - sint num" if "sint num < 0" using w [of "- sint num"] that r by simp
  moreover have "uint num = sint num" if "\<not> sint num < 0" using w [of "sint num"] that r by simp
  ultimately show ?thesis by simp
qed

text \<open>The digits of a number in base 10 read back as its magnitude.\<close>

lemma number_digits_read:
  "skip_atoi (number_digits num 10 type) 0 =
     (if type AND SIGN \<noteq> 0 then \<bar>sint num\<bar> else uint num, [])"
proof -
  define n where "n = (if type AND SIGN \<noteq> 0 \<and> sint num < 0 then - num else num)"
  have "skip_atoi (number_digits num 10 type) 0 = (uint n, [])"
  proof (cases "n = 0")
    case True
    then show ?thesis by (simp add: number_digits_def n_def [symmetric] Let_def isdigit_def)
  next
    case False
    then have "number_digits num 10 type =
        rev (number_loop (if type AND LARGE \<noteq> 0 then large_digits else small_digits) 10 n)"
      by (simp add: number_digits_def n_def Let_def)
    then show ?thesis
      using atoi_number_loop [of "if type AND LARGE \<noteq> 0 then large_digits else small_digits" 10 n "[]" 0] by simp
  qed
  moreover have "uint n = (if type AND SIGN \<noteq> 0 then \<bar>sint num\<bar> else uint num)" unfolding n_def by (rule number_magnitude)
  ultimately show ?thesis by simp
qed

text \<open>What \<^verbatim>\<open>%d\<close> prints is read back as the number.\<close>

definition read_decimal :: "u8 list \<Rightarrow> int" where
  "read_decimal ds =
     (case ds of c # cs \<Rightarrow> if c = ch (CHR ''-'') then - fst (skip_atoi cs 0) else fst (skip_atoi ds 0) | [] \<Rightarrow> 0)"

lemma decimal_digit: "number_digits num 10 type \<noteq> [] \<and> hd (number_digits num 10 type) \<noteq> ch (CHR ''-'')"
proof -
  have "number_digits num 10 type \<noteq> ch (CHR ''-'') # cs" for cs
  proof
    assume "number_digits num 10 type = ch (CHR ''-'') # cs"
    then have "snd (skip_atoi (number_digits num 10 type) 0) = ch (CHR ''-'') # cs" by (simp add: isdigit_def)
    then show False by (simp add: number_digits_read)
  qed
  moreover have "number_digits num 10 type \<noteq> []"
    by (auto simp: number_digits_def number_loop.simps Let_def split_beta)
  ultimately show ?thesis by (cases "number_digits num 10 type") auto
qed

lemma decimal_read:
  "read_decimal (number_sign num SIGN @ number_digits num 10 SIGN) = sint num"
proof -
  have s: "SIGN AND SIGN \<noteq> 0" "SIGN AND PLUS = 0" "SIGN AND SPACE = 0" by (simp_all add: SIGN_def PLUS_def SPACE_def)
  show ?thesis
  proof (cases "sint num < 0")
    case True
    then show ?thesis using number_digits_read [of num SIGN] s by (simp add: number_sign_def read_decimal_def)
  next
    case False
    obtain d ds where ds: "number_digits num 10 SIGN = d # ds" "d \<noteq> ch (CHR ''-'')"
      using decimal_digit [of num SIGN] by (cases "number_digits num 10 SIGN") auto
    then show ?thesis using False number_digits_read [of num SIGN] s by (simp add: number_sign_def read_decimal_def)
  qed
qed

lemma print_decimal:
  "format_loop e (map of_char ''%d'') [Arg_int w] out =
     Some (fold (put e) (number_sign w SIGN @ number_digits w 10 SIGN) out)"
proof -
  have f: "(0 OR SIGN) AND LEFT = 0" "(0 OR SIGN) AND ZEROPAD = 0" "0 OR SIGN = SIGN"
    by (simp_all add: SIGN_def LEFT_def ZEROPAD_def)
  have "directive e [100] [Arg_int w] out = Some ([], [], print_number e w 10 (- 1) (- 1) SIGN out)"
    by (simp add: directive_def parse_width_def parse_precision_def parse_qualifier_def isdigit_def
        print_integer_def read_number_def Let_def f)
  moreover have "number_text fits w 10 (- 1) (- 1) SIGN = number_sign w SIGN @ number_digits w 10 SIGN" for fits
    using f by (simp add: number_text_def number_body_def Let_def)
  ultimately show ?thesis by (simp add: print_number_text)
qed

text \<open>The digits fit into the 16 bytes of \<^verbatim>\<open>tmp\<close>.\<close>

lemma length_number_loop:
  "unat n < b ^ k \<Longrightarrow> b = (if base = 10 then 10 else 16) \<Longrightarrow> length (number_loop digits base n) \<le> k"
proof (induction digits base n arbitrary: k rule: number_loop.induct)
  case (1 digits base n)
  show ?case
  proof (cases "n = 0")
    case False
    then obtain j where k: "k = Suc j" using 1(2) by (cases k) (auto simp: unat_eq_zero)
    obtain r q where d: "divide n base = (r, q)" by (rule prod.exhaust)
    then have "unat q = unat n div b" using 1(3) by (auto simp: divide_def unat_div split: if_splits)
    moreover have "unat n div b < b ^ j"
      using 1(2,3) by (simp add: k less_mult_imp_div_less mult.commute split: if_splits)
    ultimately have "length (number_loop digits base q) \<le> j" using 1(1) [OF False d [symmetric] refl] 1(3) by simp
    then show ?thesis using False d by (subst number_loop.simps) (simp add: k)
  qed (simp add: number_loop.simps)
qed

lemma number_fits: "length (number_digits num base type) \<le> 10"
proof -
  have n: "unat n < 10 ^ 10" "unat n < 16 ^ 8" for n :: u32
    using unsigned_less [of n, where ?'a = nat] by simp_all
  have "length (number_loop ds base n) \<le> 10" for ds n
    using length_number_loop [OF n(1) [of n], of base ds] length_number_loop [OF n(2) [of n], of base ds]
    by (cases "base = 10") simp_all
  then show ?thesis by (simp add: number_digits_def Let_def)
qed

text \<open>Base 8 is printed as base 16.\<close>

lemma octal_is_hex: "number_text fits num 8 s precision type = number_text fits num 16 s precision type"
proof -
  have "number_loop digits 8 n = number_loop digits 16 n" for digits n
  proof (induction digits "16 :: nat" n rule: number_loop.induct)
    case (1 digits n)
    have "divide n 8 = divide n 16" by (simp add: divide_def)
    then show ?case using 1 by (subst (1 2) number_loop.simps) (auto split: prod.splits)
  qed
  then show ?thesis by (simp add: number_text_def number_body_def number_digits_def)
qed

text \<open>A number printed into a buffer with room for it can be read back.\<close>

lemma snprintf_decimal:
  assumes sz: "12 \<le> unat sz" "buf + unat sz \<le> 2 ^ 32"
  shows "\<exists>n m'. rt_snprintf buf sz (map of_char ''%d'') [Arg_int w] m = Some (n, m') \<and>
    read_decimal (bytes m' buf (unat n)) = sint w \<and> m' (buf + unat n) = 0"
proof -
  let ?ys = "number_sign w SIGN @ number_digits w 10 SIGN"
  have nz: "sz \<noteq> 0" using sz(1) by auto
  have "length (number_sign w SIGN) \<le> 1" by (simp add: number_sign_def)
  then have len: "length ?ys \<le> 11" using number_fits [of w 10 SIGN] by simp
  then have n: "unat (word_of_nat (length ?ys) :: u32) = length ?ys" by (intro unat_small) simp
  obtain m' where op: "vsnprintf buf sz (map of_char ''%d'') [Arg_int w] m = Some (word_of_nat (length ?ys), m')"
    and t: "text_in_buffer buf sz ?ys m m'"
    using vsnprintf_puts [OF print_decimal nz sz(2)] by blast
  have "min (length ?ys) (unat sz - 1) = length ?ys" "take (unat sz - 1) ?ys = ?ys" using len sz(1) by simp_all
  then have "bytes m' buf (length ?ys) = ?ys" "m' (buf + length ?ys) = 0"
    using t by (simp_all only: text_in_buffer_def)
  then show ?thesis using op n decimal_read [of w] unfolding rt_snprintf_def by metis
qed

end
