(* ===== verification/Console.thy ===== *)
theory Console
  imports Kprintf Device
begin

text \<open>
  The console and the aligned blocks of the heap: the rest of \<^verbatim>\<open>src/kservice.c\<close>, on top of the devices and the
  heap.
\<close>

subsection \<open>The console\<close>

definition RT_CONSOLEBUF_SIZE :: u32 where "RT_CONSOLEBUF_SIZE = 128"
definition RT_DEVICE_OFLAG_RDWR :: u16 where "RT_DEVICE_OFLAG_RDWR = 0x003"

text \<open>The console device is a pointer, which may be null; \<open>rt_console_get_device\<close> just reads it. Opening the new device
  may fail: the result is not looked at.\<close>

definition rt_console_get_device :: "nat option \<Rightarrow> nat option" where
  "rt_console_get_device con = con"

definition rt_console_set_device ::
  "dev_ops \<Rightarrow> u8 list \<Rightarrow> nat option \<Rightarrow> kstate \<Rightarrow> (nat option \<times> nat option \<times> kstate) option" where
  "rt_console_set_device ops nm con s = do {
     let old = con;
     (new, s) \<leftarrow> rt_device_find nm s;
     (case new of
        Some (Device_o d) \<Rightarrow> do {
          s \<leftarrow> (case con of Some c \<Rightarrow> map_option snd (rt_device_close ops c s) | None \<Rightarrow> Some s);
          s \<leftarrow> map_option snd (rt_device_open ops d RT_DEVICE_OFLAG_RDWR s);
          Some (old, Some d, s)
        }
      | Some _ \<Rightarrow> None
      | None \<Rightarrow> Some (old, con, s))
   }"

text \<open>A text is put into the buffer of the console and handed to its device, with the length that \<open>vsnprintf\<close> returned.
  Without a device it goes to \<^verbatim>\<open>rt_hw_console_output\<close>, which does nothing here.\<close>

definition rt_kprintf ::
  "dev_ops \<Rightarrow> nat \<Rightarrow> nat option \<Rightarrow> u8 list \<Rightarrow> va_arg list \<Rightarrow> memory \<Rightarrow> kstate \<Rightarrow> (memory \<times> kstate) option" where
  "rt_kprintf ops rt_log_buf con fmt args m s = do {
     (n, m) \<leftarrow> vsnprintf rt_log_buf RT_CONSOLEBUF_SIZE fmt args m;
     (case con of
        None \<Rightarrow> Some (m, s)
      | Some d \<Rightarrow> do {
          (_, s) \<leftarrow> rt_device_write ops d 0 (bytes m rt_log_buf (unat n)) n s;
          Some (m, s)
        })
   }"

text \<open>A text that is longer than the buffer is cut in the buffer, but the device gets the length of the whole text, and
  with it bytes from behind the buffer.\<close>

lemma kprintf_overread:
  assumes "ch (CHR ''%'') \<notin> set fmt" "128 \<le> length fmt" "length fmt < 2 ^ 32" "buf + 128 \<le> 2 ^ 32"
  shows "\<exists>m'. rt_kprintf ops buf (Some d) fmt args m s =
      Option.bind (rt_device_write ops d 0 (bytes m' buf (length fmt)) (word_of_nat (length fmt)) s) (\<lambda>(_, s). Some (m', s)) \<and>
    (\<forall>a. buf + 128 \<le> a \<longrightarrow> m' a = m a) \<and> bytes m' buf 127 = take 127 fmt"
proof -
  have n: "unat (word_of_nat (length fmt) :: u32) = length fmt" by (rule unat_small) (rule assms(3))
  have sz: "unat RT_CONSOLEBUF_SIZE = 128" "RT_CONSOLEBUF_SIZE \<noteq> 0" by (simp_all add: RT_CONSOLEBUF_SIZE_def)
  obtain m' where "vsnprintf buf RT_CONSOLEBUF_SIZE fmt args m = Some (word_of_nat (length fmt), m')"
    and t: "text_in_buffer buf RT_CONSOLEBUF_SIZE fmt m m'"
    using vsnprintf_puts [OF format_plain [OF assms(1)] sz(2), of buf args m] assms(4) unfolding sz(1) by blast
  moreover from t have "\<forall>a. buf + 128 \<le> a \<longrightarrow> m' a = m a" "bytes m' buf 127 = take 127 fmt"
    using assms(2) by (simp_all add: text_in_buffer_def sz(1))
  ultimately show ?thesis using n by (auto simp: rt_kprintf_def)
qed

subsection \<open>Aligned blocks\<close>

text \<open>A block of the heap with room for an aligned one, in front of which its own address is kept.\<close>

definition rt_malloc_align :: "u32 \<Rightarrow> u32 \<Rightarrow> heap \<Rightarrow> (nat \<times> heap) option" where
  "rt_malloc_align sz align h = do {
     let align = (align + 3) AND NOT 3;
     let align_size = ((sz + 3) AND NOT 3) + align;
     (ptr, h) \<leftarrow> rt_malloc align_size h;
     if ptr \<noteq> 0 then
       let p = word_of_nat ptr :: u32;
           align_ptr = unat (if p AND (align - 1) = 0 then p + align else (p + (align - 1)) AND NOT (align - 1));
           h = h\<lparr>heap_bytes := store32 (align_ptr - 4 - heap_ptr h) p (heap_bytes h)\<rparr>
       in Some (align_ptr, h)
     else Some (0, h)
   }"

definition rt_free_align :: "nat \<Rightarrow> heap \<Rightarrow> heap option" where
  "rt_free_align ptr h =
     (let real_ptr = unat (load32 (heap_bytes h) (ptr - 4 - heap_ptr h))
      in rt_free real_ptr h)"

lemma load32_store32: "load32 (store32 a w m) a = w"
proof (rule bit_word_eqI)
  fix n :: nat assume "n < LENGTH(32)"
  then consider "n < 8" | "8 \<le> n" "n < 16" | "16 \<le> n" "n < 24" | "24 \<le> n" "n < 32" by fastforce
  then show "bit (load32 (store32 a w m) a) n = bit w n"
    by cases (auto simp: load32_def store32_def bit_or_iff bit_push_bit_iff bit_ucast_iff bit_drop_bit_eq)
qed

text \<open>Rounding down to a power of two.\<close>

lemma unat_and_not_mask:
  fixes w :: u32
  assumes "k < 32"
  shows "unat (w AND NOT (2 ^ k - 1)) = unat w div 2 ^ k * 2 ^ k"
proof -
  have "w AND NOT (2 ^ k - 1) = push_bit k (drop_bit k w)"
    using and_not_mask_push [of w k] by (simp add: mask_eq_exp_minus_1)
  then have "unat (w AND NOT (2 ^ k - 1)) = take_bit 32 (push_bit k (drop_bit k (unat w)))"
    using unsigned_less [of w, where ?'a = nat]
    by (simp add: unsigned_push_bit_eq unsigned_drop_bit_eq take_bit_nat_eq_self [of "unat w"])
  also have "\<dots> = unat w div 2 ^ k * 2 ^ k"
  proof -
    have "unat w < 2 ^ LENGTH(32)" by (rule unsigned_less)
    moreover have "unat w div 2 ^ k * 2 ^ k \<le> unat w" by (rule div_times_less_eq_dividend)
    ultimately have "unat w div 2 ^ k * 2 ^ k < 2 ^ LENGTH(32)" by (rule le_less_trans [rotated])
    then show ?thesis by (simp add: push_bit_eq_mult drop_bit_eq_div take_bit_nat_eq_self)
  qed
  finally show ?thesis .
qed

lemma and_mask_0:
  fixes w :: u32
  assumes "k < 32"
  shows "w AND (2 ^ k - 1) = 0 \<longleftrightarrow> 2 ^ k dvd unat w"
proof -
  have "w AND (2 ^ k - 1) = take_bit k w" by (simp add: take_bit_eq_mask mask_eq_exp_minus_1)
  then have "unat (w AND (2 ^ k - 1)) = take_bit k (unat w)" by (simp only: unsigned_take_bit_eq)
  then have "unat (w AND (2 ^ k - 1)) = unat w mod 2 ^ k" by (simp only: take_bit_eq_mod)
  then show ?thesis by (simp add: dvd_eq_mod_eq_0 flip: unat_eq_zero)
qed

text \<open>The address that is given: a multiple of the alignment, with four bytes in front of it.\<close>

lemma align_address:
  fixes p :: u32
  assumes k: "2 \<le> k" "k \<le> 30" and p: "4 dvd unat p" "unat p + 2 ^ k < 2 ^ 32"
  defines "a \<equiv> unat (if p AND (2 ^ k - 1) = 0 then p + 2 ^ k else (p + (2 ^ k - 1)) AND NOT (2 ^ k - 1))"
  shows "2 ^ k dvd a \<and> unat p + 4 \<le> a \<and> a \<le> unat p + 2 ^ k"
proof -
  have k2: "(4 :: nat) dvd 2 ^ k" "(4 :: nat) \<le> 2 ^ k"
  proof -
    show "(4 :: nat) dvd 2 ^ k" using le_imp_power_dvd [OF k(1), of "2 :: nat"] by simp
    show "(4 :: nat) \<le> 2 ^ k" using power_increasing [OF k(1), of "2 :: nat"] by simp
  qed
  have u: "unat (2 ^ k :: u32) = 2 ^ k" 
  proof -
    have "(2 :: nat) ^ k < 2 ^ 32" using k by (intro power_strict_increasing) simp_all
    then have "unat (word_of_nat (2 ^ k) :: u32) = 2 ^ k" by (rule unat_small)
    then show ?thesis by (simp only: of_nat_power of_nat_numeral)
  qed
  have add: "unat (p + 2 ^ k) = unat p + 2 ^ k" using p(2) u by (simp add: unat_word_ariths)
  show ?thesis
  proof (cases "p AND (2 ^ k - 1) = 0")
    case True
    then have "2 ^ k dvd unat p" using and_mask_0 [of k p] k by simp
    then show ?thesis using True add k2 by (simp add: a_def)
  next
    case False
    then have nd: "\<not> 2 ^ k dvd unat p" using and_mask_0 [of k p] k by simp
    have sub: "unat (p + (2 ^ k - 1)) = unat p + 2 ^ k - 1"
    proof -
      have "p + (2 ^ k - 1) = (p + 2 ^ k) - 1" by simp
      moreover have "1 \<le> p + 2 ^ k" using add k2 by (simp add: word_le_nat_alt)
      ultimately show ?thesis using add by (simp only: unat_sub unat_1)
    qed
    have a: "a = (unat p + 2 ^ k - 1) div 2 ^ k * 2 ^ k"
      using False k by (simp add: a_def unat_and_not_mask sub)
    have dvd: "2 ^ k dvd a" unfolding a by simp
    have "a \<le> unat p + 2 ^ k - 1" unfolding a by simp
    moreover have "unat p < a"
    proof -
      let ?M = "(2 :: nat) ^ k"
      have "unat p mod ?M \<noteq> 0" using nd by (simp add: dvd_eq_mod_eq_0)
      then have "unat p div ?M * ?M + ?M \<le> unat p + ?M - 1"
        using div_mult_mod_eq [of "unat p" ?M] by simp
      then have "(unat p div ?M + 1) * ?M \<le> unat p + ?M - 1" by (simp add: algebra_simps)
      then have "unat p div ?M + 1 \<le> (unat p + ?M - 1) div ?M" by (simp add: less_eq_div_iff_mult_less_eq)
      then have "(unat p div ?M + 1) * ?M \<le> a" unfolding a by (rule mult_le_mono1)
      moreover have "unat p < (unat p div ?M + 1) * ?M"
        using dividend_less_div_times [of ?M "unat p"] by (simp add: algebra_simps)
      ultimately show ?thesis by simp
    qed
    moreover have "4 dvd a" using k2(1) dvd by (rule dvd_trans)
    then have "4 dvd a - unat p" using p(1) by (simp add: dvd_diff_nat)
    ultimately show ?thesis using dvd by (auto dest!: dvd_imp_le)
  qed
qed

text \<open>What the bytes of the heap hold does not matter to its blocks.\<close>

lemma heap_bytes_fields:
  "heap_wf (h\<lparr>heap_bytes := b\<rparr>) = heap_wf h"
  "heap_wf h \<Longrightarrow> heap_live (h\<lparr>heap_bytes := b\<rparr>) = heap_live h"
  "heap_room (h\<lparr>heap_bytes := b\<rparr>) = heap_room h"
proof -
  have i: "heap_inv (h\<lparr>heap_bytes := b\<rparr>) bs = heap_inv h bs" for bs
    by (simp add: heap_inv_def no_free_pair_def lfree_ok_def)
  show "heap_wf (h\<lparr>heap_bytes := b\<rparr>) = heap_wf h" by (simp add: heap_wf_def i lfree_lowest_def)
  show "heap_live (h\<lparr>heap_bytes := b\<rparr>) = heap_live h" if wf: "heap_wf h"
  proof -
    from wf obtain bs where bs: "heap_blocks h bs" by (auto simp: heap_wf_def heap_inv_def)
    then have "heap_blocks (h\<lparr>heap_bytes := b\<rparr>) bs" by simp
    from heap_live_eq [OF this] heap_live_eq [OF bs] show ?thesis by simp
  qed
  show "heap_room (h\<lparr>heap_bytes := b\<rparr>) = heap_room h" by (simp add: heap_room_def fun_eq_iff)
qed

lemma malloc_place:
  assumes wf: "heap_wf h" and op: "rt_malloc n h = Some (p, h')" and p: "p \<noteq> 0"
  shows "8 dvd p \<and> p + heap_room h' p < 2 ^ 32"
proof -
  from wf obtain bs where inv: "heap_inv h bs" by (auto simp: heap_wf_def)
  show ?thesis
  proof (rule rt_malloc_cases [OF inv, of n])
    assume "rt_malloc n h = Some (0, h)"
    then show ?thesis using op p by simp
  next
    fix q h2 bs'
    assume m: "rt_malloc n h = Some (heap_ptr h + q + 16, h2)" "q \<in> set bs" "hm_next (hdr h2 q) \<le> hm_next (hdr h q)"
      "heap_ptr h2 = heap_ptr h" "q + 16 + request n \<le> hm_next (hdr h2 q)"
    then have e: "p = heap_ptr h + q + 16" "h2 = h'" using op by simp_all
    have b: "heap_blocks h bs" by (rule heap_invD(1) [OF inv])
    then have f: "8 dvd heap_ptr h" "heap_ptr h + heap_end h + 16 < 2 ^ 32" "8 dvd q"
      using m(2) by (auto simp: heap_blocks_def heap_frame_def)
    have "hm_next (hdr h q) \<le> heap_end h"
    proof -
      obtain xs ys where bs: "bs = xs @ q # ys" using m(2) by (auto simp: in_set_conv_decomp)
      note d = heap_blocks_dist [OF b [unfolded bs]]
      show ?thesis using d(3) [of "hm_next (hdr h q)"] d(6) by (cases ys) simp_all
    qed
    then have "p + heap_room h' p < 2 ^ 32" using m e f by (auto simp: heap_room_def)
    with e f show ?thesis by simp
  qed
qed

lemma malloc_align_ok:
  assumes wf: "heap_wf h" and k: "2 \<le> k" "k \<le> 30" and fits: "unat sz + 2 ^ k < 2 ^ 31"
  shows "\<exists>a h'. rt_malloc_align sz (2 ^ k) h = Some (a, h') \<and> heap_wf h' \<and>
    (a = 0 \<and> h' = h \<or>
     (\<exists>p. 2 ^ k dvd a \<and> p + 4 \<le> a \<and> a + unat sz \<le> p + heap_room h' p \<and>
        p \<notin> heap_live h \<and> heap_live h' = insert p (heap_live h) \<and> rt_free_align a h' = rt_free p h'))"
proof -
  have u: "unat (2 ^ k :: u32) = 2 ^ k"
  proof -
    have "(2 :: nat) ^ k < 2 ^ 32" using k by (intro power_strict_increasing) simp_all
    then have "unat (word_of_nat (2 ^ k) :: u32) = 2 ^ k" by (rule unat_small)
    then show ?thesis by (simp only: of_nat_power of_nat_numeral)
  qed
  have k2: "(4 :: nat) dvd 2 ^ k" using le_imp_power_dvd [OF k(1), of "2 :: nat"] by simp
  have down: "unat (w AND NOT 3) = unat w div 4 * 4" for w :: u32 using unat_and_not_mask [of 2 w] by simp
  have al: "(2 ^ k + 3) AND NOT 3 = (2 ^ k :: u32)"
  proof -
    have "unat ((2 ^ k + 3 :: u32) AND NOT 3) = (2 ^ k + 3) div 4 * 4"
      unfolding down using fits u by (simp add: unat_word_ariths)
    also have "\<dots> = 2 ^ k" using k2 by (auto elim!: dvdE)
    finally show ?thesis using u by (simp only: word_unat_eq_iff)
  qed
  define n where "n = ((sz + 3) AND NOT 3) + 2 ^ k"
  have n: "unat n = (unat sz + 3) div 4 * 4 + 2 ^ k"
    unfolding n_def unat_word_ariths down using fits u by simp
  then have room: "unat sz + 2 ^ k \<le> unat n" "unat n \<le> 2 ^ 32 - 8" using fits by simp_all
  obtain p h1 where op: "rt_malloc n h = Some (p, h1)" and wf1: "heap_wf h1" and
    alt: "p = 0 \<and> h1 = h \<or> p \<noteq> 0 \<and> p \<notin> heap_live h \<and> heap_live h1 = insert p (heap_live h) \<and> unat n \<le> heap_room h1 p"
    using small_heap.alloc_ok [OF wf, of n] room(2) by blast
  show ?thesis
  proof (cases "p = 0")
    case True
    then have "rt_malloc_align sz (2 ^ k) h = Some (0, h)"
      using op alt unfolding rt_malloc_align_def Let_def al n_def [symmetric] by simp
    with wf show ?thesis by blast
  next
    case False
    let ?p = "word_of_nat p :: u32"
    have place: "8 dvd p" "p + heap_room h1 p < 2 ^ 32" using malloc_place [OF wf op False] by simp_all
    have up: "unat ?p = p" using place(2) by (intro unat_small) simp
    define a where "a = unat (if ?p AND (2 ^ k - 1) = 0 then ?p + 2 ^ k else (?p + (2 ^ k - 1)) AND NOT (2 ^ k - 1))"
    define h2 where "h2 = h1\<lparr>heap_bytes := store32 (a - 4 - heap_ptr h1) ?p (heap_bytes h1)\<rparr>"
    have run: "rt_malloc_align sz (2 ^ k) h = Some (a, h2)"
      using op False unfolding rt_malloc_align_def Let_def al n_def [symmetric] a_def h2_def by simp
    have "4 dvd unat ?p" using place(1) up by (metis dvd_trans [of 4 8] dvd_triv_left numeral_Bit0 mult_2_right)
    moreover have "unat ?p + 2 ^ k < 2 ^ 32" using place(2) room(1) alt False up by simp
    ultimately have a: "2 ^ k dvd a" "p + 4 \<le> a" "a \<le> p + 2 ^ k"
      using align_address [OF k, of ?p] up by (simp_all add: a_def)
    have "rt_free_align a h2 = rt_free p h2"
      by (simp add: rt_free_align_def h2_def load32_store32 up)
    moreover have "heap_wf h2" "heap_live h2 = heap_live h1" "heap_room h2 = heap_room h1"
      using wf1 by (simp_all add: h2_def heap_bytes_fields)
    moreover have "a + unat sz \<le> p + heap_room h1 p" using a(3) room(1) alt False by simp
    ultimately show ?thesis using run a alt False by auto
  qed
qed

text \<open>Neither the alignment nor the size is checked: with an alignment of 12 a block at 24 gives the address 32, and with a
  size at the end of the range the sum wraps around, so that a block of 4 bytes is taken.\<close>

lemma malloc_align_twelve:
  "rt_malloc 32 h = Some (24, h1) \<Longrightarrow> map_option fst (rt_malloc_align 20 12 h) = Some 32 \<and> \<not> 12 dvd (32 :: nat)"
  by (simp add: rt_malloc_align_def)

lemma malloc_align_wraps:
  "rt_malloc 4 h = Some (p, h1) \<Longrightarrow> p \<noteq> 0 \<Longrightarrow>
   \<exists>a m. rt_malloc_align (- 4) 8 h = Some (a, h1\<lparr>heap_bytes := m\<rparr>)"
  by (simp add: rt_malloc_align_def Let_def) blast

end
