(* ===== verification/Kprintf_Text.thy ===== *)
theory Kprintf_Text
  imports Kprintf
begin

text \<open>
  What a format stands for. A format with its arguments is a sequence of texts and numbers, and \<open>format_text\<close> is how they are
  written, with no buffer in view: numbers by their digits, filled up to the width of the field. What \<^verbatim>\<open>vsnprintf\<close>
  leaves in a buffer is this text, cut where the buffer ends.
\<close>

subsection \<open>Numbers\<close>

text \<open>The digits of a natural number.\<close>

fun nat_digits :: "nat \<Rightarrow> nat \<Rightarrow> nat list" where
  "nat_digits b n = (if n < b \<or> b < 2 then [n] else nat_digits b (n div b) @ [n mod b])"

declare nat_digits.simps [simp del]

definition sign_text :: "u8 \<Rightarrow> u32 \<Rightarrow> u8 list" where
  "sign_text flags num =
     (if flags AND SIGN = 0 then []
      else if sint num < 0 then [ch (CHR ''-'')]
      else if flags AND PLUS \<noteq> 0 then [ch (CHR ''+'')]
      else if flags AND SPACE \<noteq> 0 then [ch (CHR '' '')] else [])"

text \<open>A number with its sign and at least as many digits as the precision says, in a field of a width: spaces in front of it,
  or zeros behind the sign, or spaces behind it.\<close>

definition spelled_number :: "nat \<Rightarrow> int \<Rightarrow> int \<Rightarrow> u8 \<Rightarrow> u32 \<Rightarrow> u8 list" where
  "spelled_number b width precision flags num =
     (let value = (if flags AND SIGN \<noteq> 0 then sint num else uint num);
          sign = sign_text flags num;
          digits = map (nth (if flags AND LARGE \<noteq> 0 then large_digits else small_digits)) (nat_digits b (nat \<bar>value\<bar>));
          body = replicate (nat (precision - int (length digits))) (ch (CHR ''0'')) @ digits;
          gap = nat (width - int (length body) - int (length sign))
      in if flags AND LEFT \<noteq> 0 then sign @ body @ replicate gap (ch (CHR '' ''))
         else if flags AND ZEROPAD \<noteq> 0 then sign @ replicate gap (ch (CHR ''0'')) @ body
         else replicate gap (ch (CHR '' '')) @ sign @ body)"

subsection \<open>Conversions\<close>

text \<open>A number has its base, width, precision and flags.\<close>

datatype conversion = Text "u8 list" | Number nat int int u8 u32

primrec conversion_text :: "conversion \<Rightarrow> u8 list" where
  "conversion_text (Text t) = t"
| "conversion_text (Number b width precision flags num) = spelled_number b width precision flags num"

text \<open>A number with a sign that is filled up behind the sign: its length is miscounted when the sign does not fit into the
  buffer.\<close>

primrec miscounted :: "conversion \<Rightarrow> bool" where
  "miscounted (Text _) = False"
| "miscounted (Number b width precision flags num) \<longleftrightarrow>
     sign_text flags num \<noteq> [] \<and> (flags AND LEFT \<noteq> 0 \<or> flags AND ZEROPAD \<noteq> 0)"

definition justified :: "u8 \<Rightarrow> int \<Rightarrow> u8 list \<Rightarrow> u8 list" where
  "justified flags width t =
     (let gap = replicate (nat (width - int (length t))) (ch (CHR '' ''))
      in if flags AND LEFT \<noteq> 0 then t @ gap else gap @ t)"

text \<open>The text of a string argument: a precision cuts it, a null pointer has a text too.\<close>

definition string_argument :: "int \<Rightarrow> u8 list option \<Rightarrow> u8 list" where
  "string_argument precision s =
     (let t = (case s of None \<Rightarrow> map of_char ''(NULL)'' | Some t \<Rightarrow> t) in if precision > 0 then take (nat precision) t else t)"

text \<open>The conversion after a percent sign, with the rest of the format and of the arguments. Flags, width, precision and
  qualifier are read as the code reads them. The kernel writes octal numbers in base 16.\<close>

definition read_conversion :: "u8 list \<Rightarrow> va_arg list \<Rightarrow> (u8 list \<times> va_arg list \<times> conversion) option" where
  "read_conversion fmt args = do {
     let (flags, fmt) = parse_flags fmt 0;
     (width, flags, fmt, args) \<leftarrow> parse_width fmt flags args;
     (precision, fmt, args) \<leftarrow> parse_precision fmt args;
     let (qualifier, fmt) = parse_qualifier fmt;
     (case fmt of
        [] \<Rightarrow> Some ([], args, Text [ch (CHR ''%'')])
      | c # fmt \<Rightarrow>
          let number = (\<lambda>b flags. do {
                (num, args) \<leftarrow> read_number qualifier flags args;
                Some (fmt, args, Number b width precision flags num)
              })
          in if c = ch (CHR ''c'') then do {
               (w, args) \<leftarrow> arg_int args;
               Some (fmt, args, Text (justified flags width [ucast w]))
             }
             else if c = ch (CHR ''s'') then do {
               (t, args) \<leftarrow> arg_str args;
               Some (fmt, args, Text (justified flags width (string_argument precision t)))
             }
             else if c = ch (CHR ''p'') then do {
               (w, args) \<leftarrow> arg_int args;
               Some (fmt, args, if width = - 1 then Number 16 8 precision (flags OR ZEROPAD) w
                                else Number 16 width precision flags w)
             }
             else if c = ch (CHR ''%'') then Some (fmt, args, Text [ch (CHR ''%'')])
             else if c = ch (CHR ''X'') then number 16 (flags OR LARGE)
             else if c = ch (CHR ''x'') \<or> c = ch (CHR ''o'') then number 16 flags
             else if c = ch (CHR ''d'') \<or> c = ch (CHR ''i'') then number 10 (flags OR SIGN)
             else if c = ch (CHR ''u'') then number 10 flags
             else Some (fmt, args, Text [ch (CHR ''%''), c]))
   }"

subsection \<open>The code puts out the texts of the conversions\<close>

lemma digits_of_loop:
  "base = 10 \<and> b = 10 \<or> base = 16 \<and> b = 16 \<Longrightarrow> n \<noteq> 0 \<Longrightarrow>
   rev (number_loop digits base n) = map (nth digits) (nat_digits b (unat n))"
proof (induction digits base n rule: number_loop.induct)
  case (1 digits base n)
  obtain r q where d: "divide n base = (r, q)" by (rule prod.exhaust)
  have b: "b = 10 \<or> b = 16" using 1(2) by auto
  from d 1(2) have rq: "unat r = unat n mod b" "unat q = unat n div b"
    by (auto simp: divide_def unat_div unat_mod)
  have L: "number_loop digits base n = digits ! unat r # number_loop digits base q"
    using 1(3) by (subst number_loop.simps) (simp add: d)
  show ?case
  proof (cases "q = 0")
    case True
    then have "unat n div b = 0" using rq(2) by simp
    then have lt: "unat n < b" using b by (auto simp: div_eq_0_iff)
    then have "unat r = unat n" using rq(1) by simp
    then show ?thesis using True lt unfolding L by (simp add: number_loop.simps nat_digits.simps [of b "unat n"])
  next
    case False
    then have "unat q \<noteq> 0" by (simp add: unat_eq_zero)
    then have "unat n div b \<noteq> 0" by (simp only: rq(2) not_False_eq_True)
    then have ge: "\<not> unat n < b" by auto
    have "rev (number_loop digits base q) = map (nth digits) (nat_digits b (unat q))"
      using 1(1) [OF 1(3) d [symmetric] refl 1(2) False] .
    then show ?thesis using ge b unfolding L by (subst nat_digits.simps) (auto simp: rq)
  qed
qed

lemma digits_of_number:
  assumes "base = 10 \<and> b = 10 \<or> base = 16 \<and> b = 16"
  shows "number_digits num base flags = map (nth (if flags AND LARGE \<noteq> 0 then large_digits else small_digits))
    (nat_digits b (nat \<bar>if flags AND SIGN \<noteq> 0 then sint num else uint num\<bar>))"
proof -
  define n where "n = (if flags AND SIGN \<noteq> 0 \<and> sint num < 0 then - num else num)"
  have "\<bar>if flags AND SIGN \<noteq> 0 then sint num else uint num\<bar> = uint n"
    unfolding n_def number_magnitude by simp
  then have n: "nat \<bar>if flags AND SIGN \<noteq> 0 then sint num else uint num\<bar> = unat n"
    by (simp only: unat_eq_nat_uint)
  have "number_digits num base flags = (if n = 0 then [ch (CHR ''0'')]
      else rev (number_loop (if flags AND LARGE \<noteq> 0 then large_digits else small_digits) base n))"
    by (simp add: number_digits_def n_def Let_def)
  moreover have "nat_digits b 0 = [0]" using assms by (subst nat_digits.simps) auto
  moreover have "large_digits ! 0 = ch (CHR ''0'')" "small_digits ! 0 = ch (CHR ''0'')"
    by (simp_all add: large_digits_def small_digits_def)
  ultimately show ?thesis
    using digits_of_loop [OF assms, of n "if flags AND LARGE \<noteq> 0 then large_digits else small_digits"] unfolding n
    by (cases "n = 0") simp_all
qed

text \<open>A number for which there is no more room is not filled up correctly: its sign is not counted. Nothing of it is
  stored then.\<close>

definition put_text :: "bool \<Rightarrow> conversion \<Rightarrow> u8 list" where
  "put_text fits cv =
     (case cv of Text t \<Rightarrow> t | Number b width precision flags num \<Rightarrow> number_text fits num b width precision flags)"

definition base_ok :: "conversion \<Rightarrow> bool" where
  "base_ok cv = (case cv of Text _ \<Rightarrow> True | Number b _ _ _ _ \<Rightarrow> b = 10 \<or> b = 16)"

lemma sign_text: "number_sign num flags = sign_text flags num"
  by (simp add: number_sign_def sign_text_def)

lemma put_text_fits: "base_ok cv \<Longrightarrow> put_text True cv = conversion_text cv"
proof (cases cv)
  case (Number b w p flags num)
  assume "base_ok cv"
  then have "b = 10 \<and> b = 10 \<or> b = 16 \<and> b = 16" using Number by (auto simp: base_ok_def)
  note d = digits_of_number [OF this]
  show ?thesis
    unfolding Number put_text_def conversion.case conversion_text.simps spelled_number_def number_text_def number_body_def
      d sign_text Let_def if_True ..
qed (simp add: put_text_def)

lemma put_text_long:
  assumes "base_ok cv"
  shows "\<exists>j. j \<le> (if miscounted cv then 1 else 0) \<and> length (put_text False cv) = length (conversion_text cv) + j"
proof (cases cv)
  case (Number b w p flags num)
  have "length (number_sign num flags) \<le> 1" by (simp add: number_sign_def)
  then have "length (number_text False num b w p flags) = length (number_text True num b w p flags) \<or>
      length (number_text False num b w p flags) = length (number_text True num b w p flags) + 1"
    by (auto simp: number_text_def Let_def nat_diff_distrib')
  moreover have "number_text False num b w p flags = number_text True num b w p flags" if "\<not> miscounted cv"
    using that Number by (auto simp: number_text_def sign_text Let_def)
  ultimately show ?thesis using put_text_fits [OF assms] Number by (cases "miscounted cv") (auto simp: put_text_def)
qed (simp add: put_text_def)

text \<open>One conversion of the code is what the format stands for.\<close>

lemma char_text: "print_char e c width flags out = fold (put e) (justified flags width [c]) out"
proof -
  have "min (width - 1) 0 - 1 \<le> 0" by simp
  then show ?thesis by (simp add: print_char_def justified_def pad_fold Let_def)
qed

lemma string_text: "print_string e t width precision flags out = fold (put e) (justified flags width (string_argument precision t)) out"
proof -
  define x where "x = (case t of None \<Rightarrow> map of_char ''(NULL)'' | Some t \<Rightarrow> t)"
  define len where "len = (if precision > 0 \<and> int (length x) > precision then precision else int (length x))"
  have a: "string_argument precision t = take (nat len) x" "int (length (take (nat len) x)) = len"
    by (auto simp: string_argument_def x_def [symmetric] len_def Let_def)
  have "nat (min (width - len) 0 - 1 + len - len) = 0" by simp
  then show ?thesis
    unfolding print_string_def x_def [symmetric] len_def [symmetric] Let_def
    by (simp add: justified_def a pad_fold del: length_take)
qed

lemma directive_text:
  "directive e fmt args out =
     map_option (\<lambda>(fmt', args', cv). (fmt', args', fold (put e) (put_text (snd out \<le> e) cv) out)) (read_conversion fmt args)"
proof -
  obtain flags fmt1 where f: "parse_flags fmt 0 = (flags, fmt1)" by (rule prod.exhaust)
  show ?thesis
  proof (cases "parse_width fmt1 flags args")
    case None
    then show ?thesis by (simp add: directive_def read_conversion_def f)
  next
    case (Some r)
    obtain width flags' fmt2 args1 where "r = (width, flags', fmt2, args1)" by (rule prod_cases4)
    note w = Some [unfolded this]
    show ?thesis
    proof (cases "parse_precision fmt2 args1")
      case None
      then show ?thesis by (simp add: directive_def read_conversion_def f w)
    next
      case (Some r)
      obtain p fmt3 args2 where "r = (p, fmt3, args2)" by (rule prod_cases3)
      note p = Some [unfolded this]
      obtain q fmt4 where q: "parse_qualifier fmt3 = (q, fmt4)" by (rule prod.exhaust)
      show ?thesis
      proof (cases fmt4)
        case Nil
        then show ?thesis by (simp add: directive_def read_conversion_def f w p q put_text_def)
      next
        case (Cons c cs)
        show ?thesis
          by (simp add: directive_def read_conversion_def f w p q Cons put_text_def print_integer_def char_text string_text
              octal_is_hex print_number_text map_conv_bind_option case_prod_unfold Let_def)
      qed
    qed
  qed
qed

subsection \<open>Formats\<close>

lemma read_conversion_length:
  assumes "read_conversion fmt args = Some (fmt', args', cv)"
  shows "length fmt' \<le> length fmt"
proof -
  have "directive 0 fmt args (\<lambda>_. 0, 0) = Some (fmt', args', fold (put 0) (put_text True cv) (\<lambda>_. 0, 0))"
    using assms by (simp add: directive_text)
  then show ?thesis by (rule directive_length)
qed

lemma read_conversion_base:
  assumes "read_conversion fmt args = Some (fmt', args', cv)"
  shows "base_ok cv"
proof -
  obtain flags fmt1 where f: "parse_flags fmt 0 = (flags, fmt1)" by (rule prod.exhaust)
  with assms obtain width flags' fmt2 args1 where w: "parse_width fmt1 flags args = Some (width, flags', fmt2, args1)"
    by (auto simp: read_conversion_def bind_eq_Some_conv)
  with assms f obtain p fmt3 args2 where p: "parse_precision fmt2 args1 = Some (p, fmt3, args2)"
    by (auto simp: read_conversion_def bind_eq_Some_conv)
  obtain q fmt4 where q: "parse_qualifier fmt3 = (q, fmt4)" by (rule prod.exhaust)
  show ?thesis
  proof (cases fmt4)
    case Nil
    with assms f w p q show ?thesis by (auto simp: read_conversion_def base_ok_def)
  next
    case (Cons c cs)
    with assms f w p q show ?thesis
      by (auto simp: read_conversion_def bind_eq_Some_conv Let_def base_ok_def split: if_splits)
  qed
qed

text \<open>The texts and numbers of a format; none when an argument is missing or of the wrong kind.\<close>

function format_items :: "u8 list \<Rightarrow> va_arg list \<Rightarrow> conversion list option" where
  "format_items [] args = Some []"
| "format_items (c # fmt) args =
     (if c \<noteq> ch (CHR ''%'') then map_option (Cons (Text [c])) (format_items fmt args)
      else (case read_conversion fmt args of
              None \<Rightarrow> None
            | Some (fmt', args', cv) \<Rightarrow> map_option (Cons cv) (format_items fmt' args')))"
  by pat_completeness auto
termination
  by (relation "measure (\<lambda>(fmt, _). length fmt)") (auto dest!: read_conversion_length)

definition format_text :: "conversion list \<Rightarrow> u8 list" where
  "format_text cvs = concat (map conversion_text cvs)"

text \<open>What has been put out: a text, cut at the end of the buffer, and \<open>k\<close> bytes more behind the end.\<close>

definition put_out :: "nat \<Rightarrow> nat \<Rightarrow> memory \<Rightarrow> u8 list \<Rightarrow> nat \<Rightarrow> sink \<Rightarrow> bool" where
  "put_out e buf m ys k out \<longleftrightarrow>
     out = (fst (fold (put e) ys (m, buf)), buf + length ys + k) \<and> (k = 0 \<or> e < buf + length ys)"

lemma put_beyond: "e < str \<Longrightarrow> fold (put e) xs (m, str) = (m, str + length xs)"
  by (auto simp: fold_put fun_eq_iff)

lemma put_out_start: "put_out e buf m [] 0 (m, buf)"
  by (simp add: put_out_def)

lemma put_out_step:
  assumes out: "put_out e buf m ys k out" and cv: "base_ok cv"
  shows "\<exists>j. j \<le> (if miscounted cv then 1 else 0) \<and>
    put_out e buf m (ys @ conversion_text cv) (k + j) (fold (put e) (put_text (snd out \<le> e) cv) out)"
proof (cases "e < buf + length ys")
  case True
  then have far: "\<not> snd out \<le> e" using out by (simp add: put_out_def)
  obtain j where j: "j \<le> (if miscounted cv then 1 else 0)"
    "length (put_text False cv) = length (conversion_text cv) + j" using put_text_long [OF cv] by blast
  have "fold (put e) (put_text False cv) out = (fst out, snd out + length (put_text False cv))"
    using put_beyond [of e "snd out" "put_text False cv" "fst out"] far by simp
  moreover have "fst (fold (put e) (ys @ conversion_text cv) (m, buf)) = fst (fold (put e) ys (m, buf))"
    using True put_beyond [of e "buf + length ys" "conversion_text cv"] by (simp add: fold_put)
  ultimately have "put_out e buf m (ys @ conversion_text cv) (k + j) (fold (put e) (put_text (snd out \<le> e) cv) out)"
    using out far True j(2) by (auto simp: put_out_def)
  with j(1) show ?thesis by blast
next
  case False
  then have k: "k = 0" "snd out \<le> e" "out = fold (put e) ys (m, buf)" using out by (auto simp: put_out_def fold_put)
  then have "put_out e buf m (ys @ conversion_text cv) (k + 0) (fold (put e) (put_text (snd out \<le> e) cv) out)"
    using put_text_fits [OF cv] by (simp add: put_out_def fold_put)
  then show ?thesis by (intro exI [of _ 0]) simp
qed

lemma format_loop_items:
  "put_out e buf m ys k out \<Longrightarrow>
   (case format_items fmt args of
      None \<Rightarrow> format_loop e fmt args out = None
    | Some cvs \<Rightarrow> \<exists>j out'. format_loop e fmt args out = Some out' \<and> j \<le> length (filter miscounted cvs) \<and>
        put_out e buf m (ys @ format_text cvs) (k + j) out')"
proof (induction fmt args arbitrary: ys k out rule: format_items.induct)
  case (1 args)
  then show ?case by (auto simp: format_text_def intro!: exI [of _ 0])
next
  case (2 c fmt args)
  have more: "case map_option (Cons cv) (format_items fmt1 args1) of
      None \<Rightarrow> format_loop e fmt1 args1 out1 = None
    | Some cvs \<Rightarrow> \<exists>j out'. format_loop e fmt1 args1 out1 = Some out' \<and> j \<le> length (filter miscounted cvs) \<and>
        put_out e buf m (ys @ format_text cvs) (k + j) out'"
    if IH: "\<And>ys k out. put_out e buf m ys k out \<Longrightarrow>
        (case format_items fmt1 args1 of
           None \<Rightarrow> format_loop e fmt1 args1 out = None
         | Some cvs \<Rightarrow> \<exists>j out'. format_loop e fmt1 args1 out = Some out' \<and> j \<le> length (filter miscounted cvs) \<and>
             put_out e buf m (ys @ format_text cvs) (k + j) out')"
      and cv: "base_ok cv" and out1: "out1 = fold (put e) (put_text (snd out \<le> e) cv) out" for cv fmt1 args1 out1
  proof -
    obtain j where j: "j \<le> (if miscounted cv then 1 else 0)" "put_out e buf m (ys @ conversion_text cv) (k + j) out1"
      using put_out_step [OF 2(3) cv] unfolding out1 by blast
    show ?thesis
    proof (cases "format_items fmt1 args1")
      case None
      then show ?thesis using IH [OF j(2)] by simp
    next
      case (Some cvs)
      then obtain i out' where "format_loop e fmt1 args1 out1 = Some out'" "i \<le> length (filter miscounted cvs)"
        "put_out e buf m ((ys @ conversion_text cv) @ format_text cvs) (k + j + i) out'" using IH [OF j(2)] by auto
      then show ?thesis using Some j(1)
        by (auto simp: format_text_def add.assoc intro!: exI [of _ "j + i"] split: if_splits)
    qed
  qed
  show ?case
  proof (cases "c = ch (CHR ''%'')")
    case False
    have "base_ok (Text [c])" "put e c out = fold (put e) (put_text (snd out \<le> e) (Text [c])) out"
      by (simp_all add: base_ok_def put_text_def)
    note m = more [OF 2(1) [OF False] this]
    have "format_items (c # fmt) args = map_option (Cons (Text [c])) (format_items fmt args)"
      "format_loop e (c # fmt) args out = format_loop e fmt args (put e c out)" using False by simp_all
    with m show ?thesis by (simp only:)
  next
    case True
    show ?thesis
    proof (cases "read_conversion fmt args")
      case None
      then show ?thesis using True by (simp add: directive_text)
    next
      case (Some r)
      obtain fmt1 args1 cv where "r = (fmt1, args1, cv)" by (rule prod_cases3)
      note r = Some [unfolded this]
      from True have nt: "\<not> c \<noteq> ch (CHR ''%'')" by simp
      note m = more [OF 2(2) [OF nt r refl refl] read_conversion_base [OF r] refl]
      have "format_items (c # fmt) args = map_option (Cons cv) (format_items fmt1 args1)"
        "format_loop e (c # fmt) args out = format_loop e fmt1 args1 (fold (put e) (put_text (snd out \<le> e) cv) out)"
        using True r by (simp_all add: directive_text)
      with m show ?thesis by (simp only:)
    qed
  qed
qed

subsection \<open>What is in the buffer\<close>

lemma vsnprintf_items:
  assumes sz: "sz \<noteq> 0" "buf + unat sz \<le> 2 ^ 32"
  shows "case format_items fmt args of
      None \<Rightarrow> vsnprintf buf sz fmt args m = None
    | Some cvs \<Rightarrow> \<exists>k m'. vsnprintf buf sz fmt args m = Some (word_of_nat (length (format_text cvs) + k), m') \<and>
        k \<le> length (filter miscounted cvs) \<and> (length (format_text cvs) < unat sz \<longrightarrow> k = 0) \<and>
        text_in_buffer buf sz (format_text cvs) m m'"
proof -
  let ?e = "buf + (unat sz - 1)"
  have run: "vsnprintf buf sz fmt args m = Option.bind (format_loop ?e fmt args (m, buf))
      (\<lambda>(m, str). Some (word_of_nat (str - buf), if str \<le> ?e then m(str := 0) else m(?e := 0)))"
    unfolding vsnprintf_def buffer_end [OF sz] Let_def by (simp only: not_add_less1 if_False)
  show ?thesis
  proof (cases "format_items fmt args")
    case None
    then show ?thesis using format_loop_items [OF put_out_start [of ?e buf m], where fmt = fmt and args = args] run by simp
  next
    case (Some cvs)
    let ?ys = "format_text cvs"
    obtain k out' where l: "format_loop ?e fmt args (m, buf) = Some out'" and k: "k \<le> length (filter miscounted cvs)"
      and o: "put_out ?e buf m ?ys k out'"
      using format_loop_items [OF put_out_start [of ?e buf m], where fmt = fmt and args = args] Some by auto
    define m1 where "m1 = fst (fold (put ?e) ?ys (m, buf))"
    have out': "out' = (m1, buf + length ?ys + k)" and far: "k = 0 \<or> ?e < buf + length ?ys"
      using o by (simp_all add: put_out_def m1_def)
    have pos: "0 < unat sz" using sz(1) by (simp add: unat_gt_0)
    have "(if buf + length ?ys + k \<le> ?e then m1(buf + length ?ys + k := 0) else m1(?e := 0)) =
        m1(buf + min (length ?ys) (unat sz - 1) := 0)" using far by (auto simp: min_def)
    then have v: "vsnprintf buf sz fmt args m =
        Some (word_of_nat (length ?ys + k), m1(buf + min (length ?ys) (unat sz - 1) := 0))"
      unfolding run l out' by simp
    have "text_in_buffer buf sz ?ys m (m1(buf + min (length ?ys) (unat sz - 1) := 0))"
    proof -
      have m1: "m1 = (\<lambda>a. if buf \<le> a \<and> a < buf + length ?ys \<and> a \<le> ?e then ?ys ! (a - buf) else m a)"
        by (simp add: m1_def fold_put)
      have "bytes (m1(buf + min (length ?ys) (unat sz - 1) := 0)) buf (min (length ?ys) (unat sz - 1)) = take (unat sz - 1) ?ys"
        by (rule nth_equalityI) (auto simp: bytes_def m1)
      moreover have "\<forall>a. a < buf \<or> buf + unat sz \<le> a \<longrightarrow> (m1(buf + min (length ?ys) (unat sz - 1) := 0)) a = m a"
        using pos by (auto simp: m1)
      ultimately show ?thesis by (simp add: text_in_buffer_def)
    qed
    moreover have "length ?ys < unat sz \<longrightarrow> k = 0" using far by auto
    ultimately show ?thesis using Some v k by auto
  qed
qed

end
