(* ===== verification/Finsh_Vm.thy ===== *)
theory Finsh_Vm
  imports Prelude "HOL-Library.Signed_Division"
begin

text \<open>
  The stack machine of the shell (\<^verbatim>\<open>components/finsh/finsh_vm.c\<close>, \<^verbatim>\<open>finsh_ops.c\<close>). Its stack has
  64 cells of 32 bits, its program is the text segment of 128 bytes. A cell is the union \<^verbatim>\<open>finsh_value\<close>, low byte
  first: a byte operation reads and writes the low byte of a cell and leaves the others as they were. On this processor a
  \<^verbatim>\<open>char\<close> is unsigned, a \<^verbatim>\<open>short\<close> has 16 bits and a \<^verbatim>\<open>long\<close> 32; operands are promoted to
  \<^verbatim>\<open>int\<close>, and a result that does not fit is cut to the width of the cell part it is stored in. No result: a
  division by zero or a shift by 32 or more, which C does not define, an access outside stack, text or memory, an opcode
  that is not in the table, and a call that does not come back. The functions the shell calls are a parameter.
\<close>

subsection \<open>Memory\<close>

type_synonym fmem = "u32 \<rightharpoonup> u8"

fun bytes_at :: "fmem \<Rightarrow> u32 \<Rightarrow> nat \<Rightarrow> u8 list option" where
  "bytes_at m a 0 = Some []"
| "bytes_at m a (Suc n) = do { b \<leftarrow> m a; bs \<leftarrow> bytes_at m (a + 1) n; Some (b # bs) }"

fun poke_bytes :: "u32 \<Rightarrow> u8 list \<Rightarrow> fmem \<Rightarrow> fmem option" where
  "poke_bytes a [] m = Some m"
| "poke_bytes a (b # bs) m = (if m a = None then None else poke_bytes (a + 1) bs (m(a \<mapsto> b)))"

text \<open>Numbers of 16 and 32 bits in memory and in the program: \<^verbatim>\<open>FINSH_GET16\<close>, \<^verbatim>\<open>FINSH_SET16\<close> and so on.\<close>

fun FINSH_GET16 :: "u8 list \<Rightarrow> u16" where
  "FINSH_GET16 [b0, b1] = ucast b0 OR push_bit 8 (ucast b1)"
| "FINSH_GET16 _ = 0"

fun FINSH_GET32 :: "u8 list \<Rightarrow> u32" where
  "FINSH_GET32 [b0, b1, b2, b3] =
     ucast b0 OR push_bit 8 (ucast b1) OR push_bit 16 (ucast b2) OR push_bit 24 (ucast b3)"
| "FINSH_GET32 _ = 0"

definition FINSH_SET16 :: "u16 \<Rightarrow> u8 list" where
  "FINSH_SET16 v = [ucast (v AND 0x00ff), ucast (drop_bit 8 v)]"

definition FINSH_SET32 :: "u32 \<Rightarrow> u8 list" where
  "FINSH_SET32 v = [ucast (v AND 0xff), ucast (drop_bit 8 v AND 0xff), ucast (drop_bit 16 v AND 0xff),
                    ucast (drop_bit 24 v)]"

subsection \<open>The state\<close>

definition FINSH_STACK_MAX :: nat where "FINSH_STACK_MAX = 64"
definition FINSH_TEXT_MAX :: nat where "FINSH_TEXT_MAX = 128"

record fvm =
  finsh_vm_stack :: "u32 list"
  finsh_sp :: nat
  text_segment :: "u8 list"
  finsh_pc :: nat
  finsh_mem :: fmem

text \<open>The cell \<open>k\<close> below the stack pointer, and the next \<open>n\<close> bytes of the program.\<close>

definition cell :: "nat \<Rightarrow> fvm \<Rightarrow> u32 option" where
  "cell k s = (if k \<le> finsh_sp s \<and> finsh_sp s - k < length (finsh_vm_stack s)
               then Some (finsh_vm_stack s ! (finsh_sp s - k)) else None)"

definition set_cell :: "nat \<Rightarrow> u32 \<Rightarrow> fvm \<Rightarrow> fvm option" where
  "set_cell k v s = (if k \<le> finsh_sp s \<and> finsh_sp s - k < length (finsh_vm_stack s)
                     then Some (s\<lparr>finsh_vm_stack := (finsh_vm_stack s)[finsh_sp s - k := v]\<rparr>) else None)"

definition sp_dec :: "fvm \<Rightarrow> fvm option" where
  "sp_dec s = (if finsh_sp s = 0 then None else Some (s\<lparr>finsh_sp := finsh_sp s - 1\<rparr>))"

definition sp_inc :: "fvm \<Rightarrow> fvm" where "sp_inc s = s\<lparr>finsh_sp := finsh_sp s + 1\<rparr>"

definition operand :: "nat \<Rightarrow> fvm \<Rightarrow> u8 list option" where
  "operand n s = (if finsh_pc s + n \<le> length (text_segment s)
                  then Some (take n (drop (finsh_pc s) (text_segment s))) else None)"

definition pc_skip :: "nat \<Rightarrow> fvm \<Rightarrow> fvm" where "pc_skip n s = s\<lparr>finsh_pc := finsh_pc s + n\<rparr>"

text \<open>The parts of a cell.\<close>

definition set_char :: "u8 \<Rightarrow> u32 \<Rightarrow> u32" where "set_char c v = (v AND NOT 0xff) OR ucast c"
definition set_short :: "u16 \<Rightarrow> u32 \<Rightarrow> u32" where "set_short h v = (v AND NOT 0xffff) OR ucast h"

subsection \<open>Arithmetic of C on promoted operands\<close>

type_synonym c_op = "int \<Rightarrow> int \<Rightarrow> int option"

definition c_add :: c_op where "c_add x y = Some (x + y)"
definition c_sub :: c_op where "c_sub x y = Some (x - y)"
definition c_mul :: c_op where "c_mul x y = Some (x * y)"
definition c_div :: c_op where "c_div x y = (if y = 0 then None else Some (x sdiv y))"
definition c_mod :: c_op where "c_mod x y = (if y = 0 then None else Some (x smod y))"
definition c_and :: c_op where "c_and x y = Some (x AND y)"
definition c_or :: c_op where "c_or x y = Some (x OR y)"
definition c_xor :: c_op where "c_xor x y = Some (x XOR y)"
definition c_shl :: c_op where "c_shl x y = (if 0 \<le> y \<and> y < 32 then Some (x * 2 ^ nat y) else None)"
definition c_shr :: c_op where "c_shr x y = (if 0 \<le> y \<and> y < 32 then Some (x div 2 ^ nat y) else None)"

subsection \<open>Operations\<close>

definition OP_BIN_BYTE :: "c_op \<Rightarrow> fvm \<Rightarrow> fvm option" where
  "OP_BIN_BYTE f s = do {
     a \<leftarrow> cell 2 s; b \<leftarrow> cell 1 s;
     r \<leftarrow> f (uint (ucast a :: u8)) (uint (ucast b :: u8));
     s \<leftarrow> set_cell 2 (set_char (word_of_int r) a) s;
     sp_dec s }"

definition OP_BIN_WORD :: "c_op \<Rightarrow> fvm \<Rightarrow> fvm option" where
  "OP_BIN_WORD f s = do {
     a \<leftarrow> cell 2 s; b \<leftarrow> cell 1 s;
     r \<leftarrow> f (sint (ucast a :: u16)) (sint (ucast b :: u16));
     s \<leftarrow> set_cell 2 (set_short (word_of_int r) a) s;
     sp_dec s }"

definition OP_BIN_DWORD :: "c_op \<Rightarrow> fvm \<Rightarrow> fvm option" where
  "OP_BIN_DWORD f s = do {
     a \<leftarrow> cell 2 s; b \<leftarrow> cell 1 s;
     r \<leftarrow> f (sint a) (sint b);
     s \<leftarrow> set_cell 2 (word_of_int r) s;
     sp_dec s }"

definition OP_no_op :: "fvm \<Rightarrow> fvm option" where "OP_no_op s = Some s"

definition OP_add_byte :: "fvm \<Rightarrow> fvm option" where "OP_add_byte = OP_BIN_BYTE c_add"
definition OP_add_word :: "fvm \<Rightarrow> fvm option" where "OP_add_word = OP_BIN_WORD c_add"
definition OP_add_dword :: "fvm \<Rightarrow> fvm option" where "OP_add_dword = OP_BIN_DWORD c_add"

definition OP_sub_byte :: "fvm \<Rightarrow> fvm option" where "OP_sub_byte = OP_BIN_BYTE c_sub"
definition OP_sub_word :: "fvm \<Rightarrow> fvm option" where "OP_sub_word = OP_BIN_WORD c_sub"
definition OP_sub_dword :: "fvm \<Rightarrow> fvm option" where "OP_sub_dword = OP_BIN_DWORD c_sub"

definition OP_div_byte :: "fvm \<Rightarrow> fvm option" where "OP_div_byte = OP_BIN_BYTE c_div"
definition OP_div_word :: "fvm \<Rightarrow> fvm option" where "OP_div_word = OP_BIN_WORD c_div"
definition OP_div_dword :: "fvm \<Rightarrow> fvm option" where "OP_div_dword = OP_BIN_DWORD c_div"

definition OP_mod_byte :: "fvm \<Rightarrow> fvm option" where "OP_mod_byte = OP_BIN_BYTE c_mod"
definition OP_mod_word :: "fvm \<Rightarrow> fvm option" where "OP_mod_word = OP_BIN_WORD c_mod"
definition OP_mod_dword :: "fvm \<Rightarrow> fvm option" where "OP_mod_dword = OP_BIN_DWORD c_mod"

definition OP_mul_byte :: "fvm \<Rightarrow> fvm option" where "OP_mul_byte = OP_BIN_BYTE c_mul"
definition OP_mul_word :: "fvm \<Rightarrow> fvm option" where "OP_mul_word = OP_BIN_WORD c_mul"
definition OP_mul_dword :: "fvm \<Rightarrow> fvm option" where "OP_mul_dword = OP_BIN_DWORD c_mul"

definition OP_and_byte :: "fvm \<Rightarrow> fvm option" where "OP_and_byte = OP_BIN_BYTE c_and"
definition OP_and_word :: "fvm \<Rightarrow> fvm option" where "OP_and_word = OP_BIN_WORD c_and"
definition OP_and_dword :: "fvm \<Rightarrow> fvm option" where "OP_and_dword = OP_BIN_DWORD c_and"

definition OP_or_byte :: "fvm \<Rightarrow> fvm option" where "OP_or_byte = OP_BIN_BYTE c_or"
definition OP_or_word :: "fvm \<Rightarrow> fvm option" where "OP_or_word = OP_BIN_WORD c_or"
definition OP_or_dword :: "fvm \<Rightarrow> fvm option" where "OP_or_dword = OP_BIN_DWORD c_or"

definition OP_xor_byte :: "fvm \<Rightarrow> fvm option" where "OP_xor_byte = OP_BIN_BYTE c_xor"
definition OP_xor_word :: "fvm \<Rightarrow> fvm option" where "OP_xor_word = OP_BIN_WORD c_xor"
definition OP_xor_dword :: "fvm \<Rightarrow> fvm option" where "OP_xor_dword = OP_BIN_DWORD c_xor"

definition OP_bw_byte :: "fvm \<Rightarrow> fvm option" where
  "OP_bw_byte s = do { a \<leftarrow> cell 1 s; set_cell 1 (set_char (NOT (ucast a)) a) s }"
definition OP_bw_word :: "fvm \<Rightarrow> fvm option" where
  "OP_bw_word s = do { a \<leftarrow> cell 1 s; set_cell 1 (set_short (NOT (ucast a)) a) s }"
definition OP_bw_dword :: "fvm \<Rightarrow> fvm option" where
  "OP_bw_dword s = do { a \<leftarrow> cell 1 s; set_cell 1 (NOT a) s }"

definition OP_shl_byte :: "fvm \<Rightarrow> fvm option" where "OP_shl_byte = OP_BIN_BYTE c_shl"
definition OP_shl_word :: "fvm \<Rightarrow> fvm option" where "OP_shl_word = OP_BIN_WORD c_shl"
definition OP_shl_dword :: "fvm \<Rightarrow> fvm option" where "OP_shl_dword = OP_BIN_DWORD c_shl"

definition OP_shr_byte :: "fvm \<Rightarrow> fvm option" where "OP_shr_byte = OP_BIN_BYTE c_shr"
definition OP_shr_word :: "fvm \<Rightarrow> fvm option" where "OP_shr_word = OP_BIN_WORD c_shr"
definition OP_shr_dword :: "fvm \<Rightarrow> fvm option" where "OP_shr_dword = OP_BIN_DWORD c_shr"

text \<open>Loading a constant of the program.\<close>

definition OP_ld_byte :: "fvm \<Rightarrow> fvm option" where
  "OP_ld_byte s = do {
     v \<leftarrow> cell 0 s; bs \<leftarrow> operand 1 s;
     s \<leftarrow> set_cell 0 (set_char (hd bs) v) s;
     Some (pc_skip 1 (sp_inc s)) }"

definition OP_ld_word :: "fvm \<Rightarrow> fvm option" where
  "OP_ld_word s = do {
     v \<leftarrow> cell 0 s; bs \<leftarrow> operand 2 s;
     s \<leftarrow> set_cell 0 (set_short (FINSH_GET16 bs) v) s;
     Some (pc_skip 2 (sp_inc s)) }"

definition OP_ld_dword :: "fvm \<Rightarrow> fvm option" where
  "OP_ld_dword s = do {
     bs \<leftarrow> operand 4 s;
     s \<leftarrow> set_cell 0 (FINSH_GET32 bs) s;
     Some (pc_skip 4 (sp_inc s)) }"

text \<open>Loading from an address that is in the program, or on the stack.\<close>

definition OP_ld_value_byte :: "fvm \<Rightarrow> fvm option" where
  "OP_ld_value_byte s = do {
     v \<leftarrow> cell 0 s; bs \<leftarrow> operand 4 s;
     x \<leftarrow> finsh_mem s (FINSH_GET32 bs);
     s \<leftarrow> set_cell 0 (set_char x v) s;
     Some (pc_skip 4 (sp_inc s)) }"

definition OP_ld_value_byte_stack :: "fvm \<Rightarrow> fvm option" where
  "OP_ld_value_byte_stack s = do {
     v \<leftarrow> cell 1 s;
     x \<leftarrow> finsh_mem s v;
     set_cell 1 (set_char x v) s }"

definition OP_ld_value_word :: "fvm \<Rightarrow> fvm option" where
  "OP_ld_value_word s = do {
     v \<leftarrow> cell 0 s; bs \<leftarrow> operand 4 s;
     x \<leftarrow> bytes_at (finsh_mem s) (FINSH_GET32 bs) 2;
     s \<leftarrow> set_cell 0 (set_short (FINSH_GET16 x) v) s;
     Some (pc_skip 4 (sp_inc s)) }"

definition OP_ld_value_word_stack :: "fvm \<Rightarrow> fvm option" where
  "OP_ld_value_word_stack s = do {
     v \<leftarrow> cell 1 s;
     x \<leftarrow> bytes_at (finsh_mem s) v 2;
     set_cell 1 (set_short (FINSH_GET16 x) v) s }"

definition OP_ld_value_dword :: "fvm \<Rightarrow> fvm option" where
  "OP_ld_value_dword s = do {
     bs \<leftarrow> operand 4 s;
     x \<leftarrow> bytes_at (finsh_mem s) (FINSH_GET32 bs) 4;
     s \<leftarrow> set_cell 0 (FINSH_GET32 x) s;
     Some (pc_skip 4 (sp_inc s)) }"

definition OP_ld_value_dword_stack :: "fvm \<Rightarrow> fvm option" where
  "OP_ld_value_dword_stack s = do {
     v \<leftarrow> cell 1 s;
     x \<leftarrow> bytes_at (finsh_mem s) v 4;
     set_cell 1 (FINSH_GET32 x) s }"

text \<open>Storing: the address is below the value, and stays.\<close>

definition OP_st_byte :: "fvm \<Rightarrow> fvm option" where
  "OP_st_byte s = do {
     a \<leftarrow> cell 2 s; v \<leftarrow> cell 1 s;
     m \<leftarrow> poke_bytes a [ucast v] (finsh_mem s);
     sp_dec (s\<lparr>finsh_mem := m\<rparr>) }"

definition OP_st_word :: "fvm \<Rightarrow> fvm option" where
  "OP_st_word s = do {
     a \<leftarrow> cell 2 s; v \<leftarrow> cell 1 s;
     m \<leftarrow> poke_bytes a (FINSH_SET16 (ucast v)) (finsh_mem s);
     sp_dec (s\<lparr>finsh_mem := m\<rparr>) }"

definition OP_st_dword :: "fvm \<Rightarrow> fvm option" where
  "OP_st_dword s = do {
     a \<leftarrow> cell 2 s; v \<leftarrow> cell 1 s;
     m \<leftarrow> poke_bytes a (FINSH_SET32 v) (finsh_mem s);
     sp_dec (s\<lparr>finsh_mem := m\<rparr>) }"

definition OP_pop :: "fvm \<Rightarrow> fvm option" where "OP_pop s = sp_dec s"

text \<open>A call: the arguments are above the address of the function. They are popped from the last one on into an array of
  16; a function without arguments is called with a zero.\<close>

type_synonym syscalls = "u32 \<Rightarrow> u32 list \<Rightarrow> fmem \<Rightarrow> (u32 \<times> fmem) option"

fun pop_parameters :: "nat \<Rightarrow> u32 list \<Rightarrow> fvm \<Rightarrow> (u32 list \<times> fvm) option" where
  "pop_parameters 0 ps s = Some (ps, s)"
| "pop_parameters (Suc n) ps s = do { v \<leftarrow> cell 0 s; s \<leftarrow> sp_dec s; pop_parameters n (v # ps) s }"

definition OP_call :: "syscalls \<Rightarrow> fvm \<Rightarrow> fvm option" where
  "OP_call call s = do {
     bs \<leftarrow> operand 1 s;
     let parameters = unat (hd bs);
     s \<leftarrow> rt_assert (parameters \<le> 16) (pc_skip 1 s);
     s \<leftarrow> sp_dec s;
     (parameterv, s) \<leftarrow> pop_parameters parameters [] s;
     f \<leftarrow> cell 0 s;
     (r, m) \<leftarrow> call f (if parameterv = [] then [0] else parameterv) (finsh_mem s);
     s \<leftarrow> set_cell 0 r (s\<lparr>finsh_mem := m\<rparr>);
     Some (sp_inc s) }"

subsection \<open>The machine\<close>

definition op_table :: "syscalls \<Rightarrow> (fvm \<Rightarrow> fvm option) list" where
  "op_table call =
    [OP_no_op, OP_add_byte, OP_add_word,
     OP_add_dword, OP_sub_byte, OP_sub_word,
     OP_sub_dword, OP_div_byte, OP_div_word,
     OP_div_dword, OP_mod_byte, OP_mod_word,
     OP_mod_dword, OP_mul_byte, OP_mul_word,
     OP_mul_dword, OP_and_byte, OP_and_word,
     OP_and_dword, OP_or_byte, OP_or_word,
     OP_or_dword, OP_xor_byte, OP_xor_word,
     OP_xor_dword, OP_bw_byte, OP_bw_word,
     OP_bw_dword, OP_shl_byte, OP_shl_word,
     OP_shl_dword, OP_shr_byte, OP_shr_word,
     OP_shr_dword, OP_ld_byte, OP_ld_word,
     OP_ld_dword, OP_ld_value_byte, OP_ld_value_word,
     OP_ld_value_dword, OP_st_byte, OP_st_word,
     OP_st_dword, OP_pop, OP_call call,
     OP_ld_value_byte_stack, OP_ld_value_word_stack, OP_ld_value_dword_stack]"

definition finsh_vm_step :: "syscalls \<Rightarrow> fvm \<Rightarrow> fvm option" where
  "finsh_vm_step call s = do {
     bs \<leftarrow> operand 1 s;
     let opc = unat (hd bs);
     if opc < length (op_table call) then (op_table call ! opc) (pc_skip 1 s) else None }"

lemma set_cell_state: "set_cell k v s = Some s' \<Longrightarrow> finsh_pc s' = finsh_pc s \<and> text_segment s' = text_segment s \<and>
    length (finsh_vm_stack s') = length (finsh_vm_stack s) \<and> finsh_sp s' = finsh_sp s \<and> finsh_mem s' = finsh_mem s"
  by (auto simp: set_cell_def split: if_splits)

lemma sp_dec_state: "sp_dec s = Some s' \<Longrightarrow> finsh_pc s' = finsh_pc s \<and> text_segment s' = text_segment s \<and>
    finsh_vm_stack s' = finsh_vm_stack s \<and> finsh_mem s' = finsh_mem s"
  by (auto simp: sp_dec_def split: if_splits)

lemma pop_parameters_state: "pop_parameters n ps s = Some (qs, s') \<Longrightarrow> finsh_pc s' = finsh_pc s \<and>
    text_segment s' = text_segment s \<and> finsh_vm_stack s' = finsh_vm_stack s \<and> finsh_mem s' = finsh_mem s"
  by (induction n ps s rule: pop_parameters.induct) (auto simp: Option.bind_eq_Some_conv dest: sp_dec_state)

named_theorems finsh_op_arith
named_theorems finsh_op_defs

declare OP_add_byte_def [finsh_op_arith]
  OP_add_word_def [finsh_op_arith]
  OP_add_dword_def [finsh_op_arith]
  OP_sub_byte_def [finsh_op_arith]
  OP_sub_word_def [finsh_op_arith]
  OP_sub_dword_def [finsh_op_arith]
  OP_div_byte_def [finsh_op_arith]
  OP_div_word_def [finsh_op_arith]
  OP_div_dword_def [finsh_op_arith]
  OP_mod_byte_def [finsh_op_arith]
  OP_mod_word_def [finsh_op_arith]
  OP_mod_dword_def [finsh_op_arith]
  OP_mul_byte_def [finsh_op_arith]
  OP_mul_word_def [finsh_op_arith]
  OP_mul_dword_def [finsh_op_arith]
  OP_and_byte_def [finsh_op_arith]
  OP_and_word_def [finsh_op_arith]
  OP_and_dword_def [finsh_op_arith]
  OP_or_byte_def [finsh_op_arith]
  OP_or_word_def [finsh_op_arith]
  OP_or_dword_def [finsh_op_arith]
  OP_xor_byte_def [finsh_op_arith]
  OP_xor_word_def [finsh_op_arith]
  OP_xor_dword_def [finsh_op_arith]
  OP_shl_byte_def [finsh_op_arith]
  OP_shl_word_def [finsh_op_arith]
  OP_shl_dword_def [finsh_op_arith]
  OP_shr_byte_def [finsh_op_arith]
  OP_shr_word_def [finsh_op_arith]
  OP_shr_dword_def [finsh_op_arith]

declare OP_no_op_def [finsh_op_defs]
  OP_bw_byte_def [finsh_op_defs]
  OP_bw_word_def [finsh_op_defs]
  OP_bw_dword_def [finsh_op_defs]
  OP_ld_byte_def [finsh_op_defs]
  OP_ld_word_def [finsh_op_defs]
  OP_ld_dword_def [finsh_op_defs]
  OP_ld_value_byte_def [finsh_op_defs]
  OP_ld_value_word_def [finsh_op_defs]
  OP_ld_value_dword_def [finsh_op_defs]
  OP_st_byte_def [finsh_op_defs]
  OP_st_word_def [finsh_op_defs]
  OP_st_dword_def [finsh_op_defs]
  OP_pop_def [finsh_op_defs]
  OP_ld_value_byte_stack_def [finsh_op_defs]
  OP_ld_value_word_stack_def [finsh_op_defs]
  OP_ld_value_dword_stack_def [finsh_op_defs]

text \<open>No operation moves the program counter back, changes the program or the size of the stack.\<close>

definition vm_keeps :: "(fvm \<Rightarrow> fvm option) \<Rightarrow> bool" where
  "vm_keeps f = (\<forall>s s'. f s = Some s' \<longrightarrow> finsh_pc s \<le> finsh_pc s' \<and> text_segment s' = text_segment s \<and>
    length (finsh_vm_stack s') = length (finsh_vm_stack s))"

lemma vm_keeps_bin: "vm_keeps (OP_BIN_BYTE f)" "vm_keeps (OP_BIN_WORD f)" "vm_keeps (OP_BIN_DWORD f)"
  by (auto simp: vm_keeps_def OP_BIN_BYTE_def OP_BIN_WORD_def OP_BIN_DWORD_def Option.bind_eq_Some_conv
      dest!: set_cell_state sp_dec_state)

lemma vm_keeps_call: "vm_keeps (OP_call call)"
  by (auto simp: vm_keeps_def OP_call_def Option.bind_eq_Some_conv pc_skip_def sp_inc_def Let_def
      dest!: set_cell_state sp_dec_state pop_parameters_state)

lemma op_table_keeps: "list_all vm_keeps (op_table call)"
  unfolding op_table_def list.pred_inject
  by (intro conjI TrueI vm_keeps_call; (unfold finsh_op_arith)?; (rule vm_keeps_bin)?;
      auto simp: vm_keeps_def finsh_op_defs Option.bind_eq_Some_conv pc_skip_def sp_inc_def
        dest!: set_cell_state sp_dec_state)

lemma finsh_vm_step_keeps:
  assumes "finsh_vm_step call s = Some s'"
  shows "finsh_pc s < finsh_pc s' \<and> text_segment s' = text_segment s \<and>
    length (finsh_vm_stack s') = length (finsh_vm_stack s)"
proof -
  from assms obtain f where f: "f \<in> set (op_table call)" "f (pc_skip 1 s) = Some s'"
    by (auto simp: finsh_vm_step_def Option.bind_eq_Some_conv Let_def split: if_splits intro: nth_mem)
  then have "vm_keeps f" using op_table_keeps [of call] by (simp add: list_all_iff)
  then show ?thesis using f(2) by (force simp: vm_keeps_def pc_skip_def)
qed

text \<open>The machine runs until the program counter leaves the text segment.\<close>

function finsh_vm_loop :: "syscalls \<Rightarrow> fvm \<Rightarrow> fvm option" where
  "finsh_vm_loop call s =
     (if finsh_pc s < FINSH_TEXT_MAX then do { s \<leftarrow> finsh_vm_step call s; finsh_vm_loop call s } else Some s)"
  by pat_completeness auto
termination
  by (relation "measure (\<lambda>(_, s). FINSH_TEXT_MAX - finsh_pc s)") (auto dest: finsh_vm_step_keeps)

declare finsh_vm_loop.simps [simp del]

definition finsh_vm_run :: "syscalls \<Rightarrow> fvm \<Rightarrow> fvm option" where
  "finsh_vm_run call s = finsh_vm_loop call (s\<lparr>finsh_sp := 0, finsh_pc := 0\<rparr>)"

definition finsh_stack_bottom :: "fvm \<Rightarrow> u32" where "finsh_stack_bottom s = finsh_vm_stack s ! 0"

end
