(* ===== verification/Finsh_Node.thy ===== *)
theory Finsh_Node
  imports Finsh_Vm
begin

text \<open>
  The shell's variables, symbols and syntax trees (\<^verbatim>\<open>finsh_error.c\<close>, \<^verbatim>\<open>finsh_var.c\<close>, \<^verbatim>\<open>finsh_node.c\<close>, and the
  symbols of \<^verbatim>\<open>finsh_vm.c\<close>). A tree is a datatype: a node is only linked into one place, and the entries of
  \<^verbatim>\<open>global_node_table\<close> are handed out in order and all given back at once, so of the table it is enough to know how many
  are in use. A name is a string without its final zero.
\<close>

subsection \<open>Errors and types\<close>

definition FINSH_ERROR_OK :: u8 where "FINSH_ERROR_OK = 0"
definition FINSH_ERROR_INVALID_TOKEN :: u8 where "FINSH_ERROR_INVALID_TOKEN = 1"
definition FINSH_ERROR_EXPECT_TYPE :: u8 where "FINSH_ERROR_EXPECT_TYPE = 2"
definition FINSH_ERROR_UNKNOWN_TYPE :: u8 where "FINSH_ERROR_UNKNOWN_TYPE = 3"
definition FINSH_ERROR_VARIABLE_EXIST :: u8 where "FINSH_ERROR_VARIABLE_EXIST = 4"
definition FINSH_ERROR_EXPECT_OPERATOR :: u8 where "FINSH_ERROR_EXPECT_OPERATOR = 5"
definition FINSH_ERROR_MEMORY_FULL :: u8 where "FINSH_ERROR_MEMORY_FULL = 6"
definition FINSH_ERROR_UNKNOWN_NODE :: u8 where "FINSH_ERROR_UNKNOWN_NODE = 8"
definition FINSH_ERROR_EXPECT_CHAR :: u8 where "FINSH_ERROR_EXPECT_CHAR = 9"
definition FINSH_ERROR_UNEXPECT_END :: u8 where "FINSH_ERROR_UNEXPECT_END = 10"
definition FINSH_ERROR_UNKNOWN_TOKEN :: u8 where "FINSH_ERROR_UNKNOWN_TOKEN = 11"
definition FINSH_ERROR_UNKNOWN_SYMBOL :: u8 where "FINSH_ERROR_UNKNOWN_SYMBOL = 13"
definition FINSH_ERROR_NULL_NODE :: u8 where "FINSH_ERROR_NULL_NODE = 14"

lemmas finsh_errors = FINSH_ERROR_OK_def FINSH_ERROR_INVALID_TOKEN_def FINSH_ERROR_EXPECT_TYPE_def
  FINSH_ERROR_UNKNOWN_TYPE_def FINSH_ERROR_VARIABLE_EXIST_def FINSH_ERROR_EXPECT_OPERATOR_def
  FINSH_ERROR_MEMORY_FULL_def FINSH_ERROR_UNKNOWN_NODE_def FINSH_ERROR_EXPECT_CHAR_def
  FINSH_ERROR_UNEXPECT_END_def FINSH_ERROR_UNKNOWN_TOKEN_def FINSH_ERROR_UNKNOWN_SYMBOL_def
  FINSH_ERROR_NULL_NODE_def

datatype finsh_type =
  finsh_type_unknown | finsh_type_void | finsh_type_voidp | finsh_type_char | finsh_type_uchar |
  finsh_type_charp | finsh_type_short | finsh_type_ushort | finsh_type_shortp | finsh_type_int |
  finsh_type_uint | finsh_type_intp | finsh_type_long | finsh_type_ulong | finsh_type_longp

definition finsh_type_num :: "finsh_type \<Rightarrow> u8" where
  "finsh_type_num t = (case t of finsh_type_unknown \<Rightarrow> 0 | finsh_type_void \<Rightarrow> 1 | finsh_type_voidp \<Rightarrow> 2
     | finsh_type_char \<Rightarrow> 3 | finsh_type_uchar \<Rightarrow> 4 | finsh_type_charp \<Rightarrow> 5 | finsh_type_short \<Rightarrow> 6
     | finsh_type_ushort \<Rightarrow> 7 | finsh_type_shortp \<Rightarrow> 8 | finsh_type_int \<Rightarrow> 9 | finsh_type_uint \<Rightarrow> 10
     | finsh_type_intp \<Rightarrow> 11 | finsh_type_long \<Rightarrow> 12 | finsh_type_ulong \<Rightarrow> 13 | finsh_type_longp \<Rightarrow> 14)"

subsection \<open>Variables and symbols\<close>

definition FINSH_NAME_MAX :: nat where "FINSH_NAME_MAX = 16"
definition FINSH_NODE_MAX :: nat where "FINSH_NODE_MAX = 16"
definition FINSH_VARIABLE_MAX :: nat where "FINSH_VARIABLE_MAX = 8"

text \<open>A variable of the shell; its value is in memory, in entry \<open>i\<close> of \<^verbatim>\<open>global_variable\<close>. An entry has 24 bytes, the
  value is its last word. A system variable or call is a structure in memory that holds the address of what it names.\<close>

record finsh_var =
  var_name :: string
  var_type :: finsh_type

record finsh_sysvar =
  sysvar_at :: u32
  sysvar_name :: string
  sysvar_type :: finsh_type
  sysvar_var :: u32

record finsh_syscall =
  syscall_at :: u32
  syscall_name :: string
  syscall_func :: u32

text \<open>What the shell keeps: the machine, the error number, the compiler's program counter, the tables.\<close>

record finsh =
  vm :: fvm
  finsh_compile_pc :: nat
  global_errno :: u8
  global_variable :: "finsh_var list"
  sysvar_table :: "finsh_sysvar list"
  global_sysvar_list :: "finsh_sysvar list"
  syscall_table :: "finsh_syscall list"
  global_syscall_list :: "finsh_syscall list"
  nodes_used :: nat

definition finsh_error_set :: "u8 \<Rightarrow> finsh \<Rightarrow> finsh" where
  "finsh_error_set e s = s\<lparr>global_errno := e\<rparr>"

definition var_value :: "u32 \<Rightarrow> nat \<Rightarrow> u32" where "var_value gv i = gv + of_nat (24 * i + 20)"

definition no_var :: finsh_var where "no_var = \<lparr>var_name = '''', var_type = finsh_type_unknown\<rparr>"

text \<open>\<^verbatim>\<open>strncmp\<close> is zero when the first \<open>n\<close> characters agree.\<close>

definition same_prefix :: "nat \<Rightarrow> string \<Rightarrow> string \<Rightarrow> bool" where
  "same_prefix n a b \<longleftrightarrow> take n a = take n b"

fun find_from :: "('a \<Rightarrow> bool) \<Rightarrow> nat \<Rightarrow> 'a list \<Rightarrow> nat option" where
  "find_from P i [] = None"
| "find_from P i (x # xs) = (if P x then Some i else find_from P (i + 1) xs)"

definition finsh_var_lookup :: "string \<Rightarrow> finsh \<Rightarrow> nat option" where
  "finsh_var_lookup name s = find_from (\<lambda>v. same_prefix FINSH_NAME_MAX (var_name v) name) 0 (global_variable s)"

text \<open>The insertion loop returns when it meets the name, and remembers the first entry without a type.\<close>

fun var_insert_loop :: "string \<Rightarrow> nat \<Rightarrow> nat option \<Rightarrow> finsh_var list \<Rightarrow> nat option" where
  "var_insert_loop name i e [] = e"
| "var_insert_loop name i e (v # vs) =
     (if same_prefix FINSH_NAME_MAX (var_name v) name then None
      else var_insert_loop name (i + 1)
             (if var_type v = finsh_type_unknown \<and> e = None then Some i else e) vs)"

definition finsh_var_insert :: "string \<Rightarrow> finsh_type \<Rightarrow> finsh \<Rightarrow> nat option \<times> finsh" where
  "finsh_var_insert name t s =
     (case var_insert_loop name 0 None (global_variable s) of
        None \<Rightarrow> (None, s)
      | Some i \<Rightarrow> (Some i, s\<lparr>global_variable := (global_variable s)[i := \<lparr>var_name = take FINSH_NAME_MAX name,
                                                               var_type = t\<rparr>]\<rparr>))"

definition finsh_var_delete :: "u32 \<Rightarrow> string \<Rightarrow> finsh \<Rightarrow> (bool \<times> finsh) option" where
  "finsh_var_delete gv name s =
     (case find_from (\<lambda>v. same_prefix FINSH_NAME_MAX (var_name v) name) 0 (global_variable s) of
        None \<Rightarrow> Some (False, s)
      | Some i \<Rightarrow> do {
          m \<leftarrow> poke_bytes (var_value gv i) [0, 0, 0, 0] (finsh_mem (vm s));
          Some (True, s\<lparr>vm := (vm s)\<lparr>finsh_mem := m\<rparr>, global_variable := (global_variable s)[i := no_var]\<rparr>) })"

text \<open>System variables and calls: first the table, by name; then the list of those that were added, where it is enough that
  the name is the beginning of theirs.\<close>

definition starts_with :: "string \<Rightarrow> string \<Rightarrow> bool" where
  "starts_with name x \<longleftrightarrow> same_prefix (length name) x name"

definition finsh_sysvar_lookup :: "string \<Rightarrow> finsh \<Rightarrow> finsh_sysvar option" where
  "finsh_sysvar_lookup name s =
     (case find (\<lambda>v. sysvar_name v = name) (sysvar_table s) of
        Some v \<Rightarrow> Some v
      | None \<Rightarrow> find (\<lambda>v. starts_with name (sysvar_name v)) (global_sysvar_list s))"

definition finsh_syscall_lookup :: "string \<Rightarrow> finsh \<Rightarrow> finsh_syscall option" where
  "finsh_syscall_lookup name s =
     (case find (\<lambda>c. syscall_name c = name) (syscall_table s) of
        Some c \<Rightarrow> Some c
      | None \<Rightarrow> find (\<lambda>c. starts_with name (syscall_name c)) (global_syscall_list s))"

text \<open>A new item lies in the heap, at the address \<open>a\<close> that \<^verbatim>\<open>rt_malloc\<close> returned, if any; its first word links the next.\<close>

definition finsh_sysvar_append :: "u32 option \<Rightarrow> string \<Rightarrow> finsh_type \<Rightarrow> u32 \<Rightarrow> finsh \<Rightarrow> finsh" where
  "finsh_sysvar_append a name t addr s =
     (case a of
        None \<Rightarrow> s
      | Some p \<Rightarrow> s\<lparr>global_sysvar_list :=
          \<lparr>sysvar_at = p + 4, sysvar_name = name, sysvar_type = t, sysvar_var = addr\<rparr> # global_sysvar_list s\<rparr>)"

definition finsh_syscall_append :: "u32 option \<Rightarrow> string \<Rightarrow> u32 \<Rightarrow> finsh \<Rightarrow> finsh" where
  "finsh_syscall_append a name func s =
     (case a of
        None \<Rightarrow> s
      | Some p \<Rightarrow> s\<lparr>global_syscall_list :=
          \<lparr>syscall_at = p + 4, syscall_name = name, syscall_func = func\<rparr> # global_syscall_list s\<rparr>)"

subsection \<open>Nodes\<close>

datatype fnode_type =
  FINSH_NODE_UNKNOWN | FINSH_NODE_ID |
  FINSH_NODE_VALUE_CHAR | FINSH_NODE_VALUE_INT | FINSH_NODE_VALUE_LONG | FINSH_NODE_VALUE_STRING |
  FINSH_NODE_VALUE_NULL |
  FINSH_NODE_SYS_ADD | FINSH_NODE_SYS_SUB | FINSH_NODE_SYS_MUL | FINSH_NODE_SYS_DIV | FINSH_NODE_SYS_MOD |
  FINSH_NODE_SYS_AND | FINSH_NODE_SYS_OR | FINSH_NODE_SYS_XOR | FINSH_NODE_SYS_BITWISE | FINSH_NODE_SYS_SHL |
  FINSH_NODE_SYS_SHR | FINSH_NODE_SYS_FUNC | FINSH_NODE_SYS_ASSIGN | FINSH_NODE_SYS_CAST |
  FINSH_NODE_SYS_PREINC | FINSH_NODE_SYS_PREDEC | FINSH_NODE_SYS_INC | FINSH_NODE_SYS_DEC |
  FINSH_NODE_SYS_GETVALUE | FINSH_NODE_SYS_GETADDR | FINSH_NODE_SYS_NULL

definition FINSH_DATA_TYPE_VOID :: u8 where "FINSH_DATA_TYPE_VOID = 0x00"
definition FINSH_DATA_TYPE_BYTE :: u8 where "FINSH_DATA_TYPE_BYTE = 0x01"
definition FINSH_DATA_TYPE_WORD :: u8 where "FINSH_DATA_TYPE_WORD = 0x02"
definition FINSH_DATA_TYPE_DWORD :: u8 where "FINSH_DATA_TYPE_DWORD = 0x03"

lemmas finsh_data_types = FINSH_DATA_TYPE_VOID_def FINSH_DATA_TYPE_BYTE_def FINSH_DATA_TYPE_WORD_def
  FINSH_DATA_TYPE_DWORD_def

definition FINSH_NODE_VALUE :: u8 where "FINSH_NODE_VALUE = 0"

definition FINSH_IDTYPE_VAR :: u8 where "FINSH_IDTYPE_VAR = 0x01"
definition FINSH_IDTYPE_SYSVAR :: u8 where "FINSH_IDTYPE_SYSVAR = 0x02"
definition FINSH_IDTYPE_SYSCALL :: u8 where "FINSH_IDTYPE_SYSCALL = 0x04"
definition FINSH_IDTYPE_ADDRESS :: u8 where "FINSH_IDTYPE_ADDRESS = 0x08"

lemmas finsh_idtypes = FINSH_IDTYPE_VAR_def FINSH_IDTYPE_SYSVAR_def FINSH_IDTYPE_SYSCALL_def
  FINSH_IDTYPE_ADDRESS_def FINSH_NODE_VALUE_def

datatype finsh_id = Id_none | Id_var nat | Id_sysvar finsh_sysvar | Id_syscall finsh_syscall

datatype fnode =
    Null
  | FNode (node_type: fnode_type) (data_type: u8) (idtype: u8) (node_value: u32) (node_id: finsh_id)
      (sibling: fnode) (child: fnode)

text \<open>An entry that is handed out is empty but for its type. \<^verbatim>\<open>finsh_node_init\<close> gives back all entries.\<close>

definition finsh_node_init :: "finsh \<Rightarrow> finsh" where "finsh_node_init s = s\<lparr>nodes_used := 0\<rparr>"

definition finsh_node_allocate :: "fnode_type \<Rightarrow> finsh \<Rightarrow> fnode \<times> finsh" where
  "finsh_node_allocate t s =
     (if nodes_used s = FINSH_NODE_MAX then (Null, s)
      else (FNode t 0 0 0 Id_none Null Null, s\<lparr>nodes_used := nodes_used s + 1\<rparr>))"

text \<open>A name is a variable, or else a system variable, or else a system call.\<close>

definition find_symbol :: "string \<Rightarrow> finsh \<Rightarrow> (u8 \<times> finsh_id) option" where
  "find_symbol name s =
     (case finsh_var_lookup name s of
        Some i \<Rightarrow> Some (FINSH_IDTYPE_VAR, Id_var i)
      | None \<Rightarrow> (case finsh_sysvar_lookup name s of
          Some v \<Rightarrow> Some (FINSH_IDTYPE_SYSVAR, Id_sysvar v)
        | None \<Rightarrow> (case finsh_syscall_lookup name s of
            Some c \<Rightarrow> Some (FINSH_IDTYPE_SYSCALL, Id_syscall c)
          | None \<Rightarrow> None)))"

definition finsh_node_new_id :: "string \<Rightarrow> finsh \<Rightarrow> fnode \<times> finsh" where
  "finsh_node_new_id name s =
     (case find_symbol name s of
        None \<Rightarrow> (Null, finsh_error_set FINSH_ERROR_UNKNOWN_SYMBOL s)
      | Some (t, i) \<Rightarrow>
          (case finsh_node_allocate FINSH_NODE_ID s of
             (FNode nt d it v _ sib ch, s) \<Rightarrow> (FNode nt d t v i sib ch, s)
           | (Null, s) \<Rightarrow> (Null, finsh_error_set FINSH_ERROR_MEMORY_FULL s)))"

text \<open>The constants; a character takes the low byte of the value.\<close>

definition new_value :: "fnode_type \<Rightarrow> u32 \<Rightarrow> finsh \<Rightarrow> fnode \<times> finsh" where
  "new_value t x s =
     (case finsh_node_allocate t s of
        (FNode nt d it v i sib ch, s) \<Rightarrow> (FNode nt d it x i sib ch, s)
      | (Null, s) \<Rightarrow> (Null, finsh_error_set FINSH_ERROR_MEMORY_FULL s))"

definition finsh_node_new_char :: "u8 \<Rightarrow> finsh \<Rightarrow> fnode \<times> finsh" where
  "finsh_node_new_char c = new_value FINSH_NODE_VALUE_CHAR (ucast c)"
definition finsh_node_new_int :: "u32 \<Rightarrow> finsh \<Rightarrow> fnode \<times> finsh" where
  "finsh_node_new_int i = new_value FINSH_NODE_VALUE_INT i"
definition finsh_node_new_long :: "u32 \<Rightarrow> finsh \<Rightarrow> fnode \<times> finsh" where
  "finsh_node_new_long l = new_value FINSH_NODE_VALUE_LONG l"
definition finsh_node_new_ptr :: "u32 \<Rightarrow> finsh \<Rightarrow> fnode \<times> finsh" where
  "finsh_node_new_ptr p = new_value FINSH_NODE_VALUE_NULL p"

text \<open>A node with one or two operands, the second as sibling of the first; from \<^verbatim>\<open>finsh_parser.c\<close>.\<close>

definition make_sys_node :: "fnode_type \<Rightarrow> fnode \<Rightarrow> fnode \<Rightarrow> finsh \<Rightarrow> fnode \<times> finsh" where
  "make_sys_node t node1 node2 s =
     (case finsh_node_allocate t s of
        (FNode nt d it v i sib ch, s) \<Rightarrow>
          (case node1 of
             FNode nt1 d1 it1 v1 i1 _ ch1 \<Rightarrow> (FNode nt d it v i sib (FNode nt1 d1 it1 v1 i1 node2 ch1), s)
           | Null \<Rightarrow> (FNode nt d it v i sib ch, finsh_error_set FINSH_ERROR_NULL_NODE s))
      | (Null, s) \<Rightarrow> (Null, finsh_error_set FINSH_ERROR_NULL_NODE s))"

end
