(* ===== verification/Finsh_Token.thy ===== *)
theory Finsh_Token
  imports Finsh_Node "HOL-Library.Char_ord"
begin

text \<open>
  The scanner of the shell (\<^verbatim>\<open>finsh_token.c\<close>). It reads the line character by character; when it meets the end it sets a
  flag and goes back to the beginning of the line. A line is a string without the final zero and shorter than the buffers for names,
  strings and digits (the shell reads 80 characters). The scanner sets the error number of the shell, which is part of its state.
\<close>

datatype finsh_token_type =
  T_none | T_left_paren | T_right_paren | T_comma | T_semicolon | T_mul | T_add | T_inc | T_sub | T_dec | T_div |
  T_mod | T_assign | T_and | T_or | T_xor | T_bitwise | T_shl | T_shr | T_comments | T_type_void | T_type_char |
  T_type_short | T_type_int | T_type_long | T_type_unsigned | T_value_char | T_value_int | T_value_long |
  T_value_string | T_value_null | T_identifier | T_bad | T_eof

record finsh_parser =
  tk_eof :: bool
  tk_replay :: bool
  tk_position :: nat
  tk_current :: finsh_token_type
  tk_value :: u32
  tk_string :: string
  tk_line :: string
  shell :: finsh

definition NUL :: char where "NUL = CHR 0x00"

definition tk_error :: "u8 \<Rightarrow> finsh_parser \<Rightarrow> finsh_parser" where
  "tk_error e s = s\<lparr>shell := finsh_error_set e (shell s)\<rparr>"

definition finsh_token_init :: "string \<Rightarrow> finsh_parser \<Rightarrow> finsh_parser" where
  "finsh_token_init line s =
     s\<lparr>tk_eof := False, tk_replay := False, tk_position := 0, tk_current := T_none, tk_value := 0, tk_string := '''', tk_line := line\<rparr>"

definition is_digit :: "char \<Rightarrow> bool" where
  "is_digit ch \<longleftrightarrow> CHR ''0'' \<le> ch \<and> ch \<le> CHR ''9''"

definition is_alpha :: "char \<Rightarrow> bool" where
  "is_alpha ch \<longleftrightarrow> CHR ''a'' \<le> ch \<and> ch \<le> CHR ''z'' \<or> CHR ''A'' \<le> ch \<and> ch \<le> CHR ''Z''"

definition is_separator :: "char \<Rightarrow> bool" where
  "is_separator ch \<longleftrightarrow> \<not> (is_alpha ch \<or> is_digit ch \<or> ch = CHR ''_'')"

definition char_num :: "char \<Rightarrow> u32" where "char_num ch = of_char ch"

subsection \<open>Characters\<close>

definition token_next_char :: "finsh_parser \<Rightarrow> char \<times> finsh_parser" where
  "token_next_char s =
     (if tk_eof s then (NUL, s)
      else if length (tk_line s) \<le> tk_position s \<or> tk_line s ! tk_position s = CHR 0x0A
      then (NUL, s\<lparr>tk_eof := True, tk_position := 0\<rparr>)
      else (tk_line s ! tk_position s, s\<lparr>tk_position := tk_position s + 1\<rparr>))"

definition token_prev_char :: "finsh_parser \<Rightarrow> finsh_parser" where
  "token_prev_char s =
     (if tk_eof s then s else if tk_position s = 0 then s else s\<lparr>tk_position := tk_position s - 1\<rparr>)"

text \<open>What is left of the line decreases with every character.\<close>

definition tk_left :: "finsh_parser \<Rightarrow> nat" where
  "tk_left s = (if tk_eof s then 0 else Suc (length (tk_line s) - tk_position s))"

lemma next_char_left: "token_next_char s = (ch, s') \<Longrightarrow> ch \<noteq> NUL \<or> \<not> tk_eof s' \<Longrightarrow> tk_left s' < tk_left s"
  by (auto simp: token_next_char_def tk_left_def split: if_splits)

text \<open>Characters are read while a condition holds, starting with one that was read already. Characters that satisfy the
  condition are not the zero that ends a line.\<close>

function read_while :: "(char \<Rightarrow> bool) \<Rightarrow> char \<Rightarrow> finsh_parser \<Rightarrow> string \<times> char \<times> finsh_parser" where
  "read_while P ch s =
     (if P ch \<and> ch \<noteq> NUL then
        (let (ch', s) = token_next_char s; (cs, r) = read_while P ch' s in (ch # cs, r))
      else ('''', ch, s))"
  by pat_completeness auto
termination
proof (relation "measure (\<lambda>(P, ch, s). if ch = NUL then 0 else Suc (tk_left s))", goal_cases)
  case (2 P ch s x ch' s')
  then have x: "token_next_char s = (ch', s')" by simp
  show ?case
    using next_char_left [OF x] 2(1) by (cases "ch' = NUL") (simp_all add: x)
qed simp

declare read_while.simps [simp del]

subsection \<open>Tokens\<close>

text \<open>A name: the string stays empty unless the next character begins one. Where it is read up to the end of the line, the flag
  of the end is cleared again.\<close>

definition token_get_string :: "finsh_parser \<Rightarrow> finsh_parser" where
  "token_get_string s =
     (let (ch, s) = token_next_char s in
      if tk_eof s then s
      else if is_digit ch then token_prev_char (s\<lparr>tk_string := ''''\<rparr>)
      else let (cs, ch, s) = read_while (\<lambda>c. \<not> is_separator c) ch s
           in token_prev_char (s\<lparr>tk_eof := False, tk_string := cs\<rparr>))"

definition token_trim_space :: "finsh_parser \<Rightarrow> finsh_parser" where
  "token_trim_space s =
     (let (ch, s) = token_next_char s; (cs, ch, s) = read_while (\<lambda>c. c = CHR '' '' \<or> c = CHR 0x09) ch s
      in token_prev_char s)"

definition finsh_name_table :: "(string \<times> finsh_token_type) list" where
  "finsh_name_table = [(''void'', T_type_void), (''char'', T_type_char), (''short'', T_type_short), (''int'', T_type_int),
     (''long'', T_type_long), (''unsigned'', T_type_unsigned), (''NULL'', T_value_null), (''null'', T_value_null)]"

definition token_match_name :: "string \<Rightarrow> finsh_token_type option" where
  "token_match_name str = map_of finsh_name_table str"

text \<open>Numbers with a base of 16, 8 or 2, in two words of 32 bits of which the lower one counts. Other characters than
  digits of the base are taken for what their code gives.\<close>

definition digit_value :: "char \<Rightarrow> u32" where
  "digit_value c = (if CHR ''a'' \<le> c \<and> c \<le> CHR ''f'' then char_num c - char_num CHR ''a'' + 10
     else if CHR ''A'' \<le> c \<and> c \<le> CHR ''F'' then char_num c - char_num CHR ''A'' + 10
     else char_num c - char_num CHR ''0'')"

fun spec_loop :: "nat \<Rightarrow> string \<Rightarrow> u32 \<Rightarrow> u32 \<Rightarrow> u32 \<times> u32" where
  "spec_loop shift [] b0 b1 = (b0, b1)"
| "spec_loop shift (c # cs) b0 b1 =
     (let t = digit_value c; b0' = push_bit shift b0 OR t; t = drop_bit (32 - shift) b0;
          b1' = push_bit shift b1 OR t
      in spec_loop shift cs b0' b1')"

definition token_spec_number :: "string \<Rightarrow> nat \<Rightarrow> u32" where
  "token_spec_number str b =
     fst (spec_loop (if b = 16 then 4 else if b = 8 then 3 else 1) str 0 0)"

definition decimal_step :: "u32 \<Rightarrow> char \<Rightarrow> u32" where
  "decimal_step v c = v * 10 + (char_num c - char_num CHR ''0'')"

definition token_proc_number :: "finsh_parser \<Rightarrow> finsh_parser" where
  "token_proc_number s =
     (let (ch, s) = token_next_char s;
          (v, ch, s) =
            (if ch = CHR ''0'' then
               let (ch, s) = token_next_char s in
               if ch = CHR ''x'' \<or> ch = CHR ''X'' then
                 let (ch, s) = token_next_char s; (cs, ch, s) = read_while (\<lambda>c. is_digit c \<or> is_alpha c) ch s
                 in (token_spec_number cs 16, ch, s)
               else if ch = CHR ''b'' \<or> ch = CHR ''B'' then
                 let (ch, s) = token_next_char s; (cs, ch, s) = read_while (\<lambda>c. c = CHR ''0'' \<or> c = CHR ''1'') ch s
                 in (token_spec_number cs 2, ch, s)
               else
                 let (cs, ch, s) = read_while is_digit ch s in (token_spec_number cs 8, ch, s)
             else
               let (cs, ch, s) = read_while is_digit ch s in (foldl decimal_step 0 cs, ch, s));
          s = s\<lparr>tk_value := v, tk_current := T_value_int\<rparr>
      in if ch = CHR ''l'' \<or> ch = CHR ''L'' then s\<lparr>tk_current := T_value_long\<rparr> else token_prev_char s)"

text \<open>A character constant. After a backslash and a digit the digits are copied, each one place late, to a buffer of four
  characters; then the number is read from behind them, where the final zero is, so that it is zero. Four digits and the final zero
  do not fit.\<close>

definition simple_escape :: "char \<Rightarrow> char option" where
  "simple_escape ch = map_of [(CHR ''n'', CHR 0x0A), (CHR ''t'', CHR 0x09), (CHR ''v'', CHR 0x0B), (CHR ''b'', CHR 0x08),
     (CHR ''r'', CHR 0x0D)] ch"

definition char_escape :: "finsh_parser \<Rightarrow> (char \<times> finsh_parser) option" where
  "char_escape s =
     (let (ch, s) = token_next_char s in
      case simple_escape ch of
        Some c \<Rightarrow> Some (c, s)
      | None \<Rightarrow>
          if ch = CHR 0x5C \<or> ch = CHR 0x27 then Some (ch, s)
          else let (cs, ch, s) = read_while is_digit ch s
               in if length cs < 4 then Some (NUL, token_prev_char s) else None)"

definition token_proc_char :: "finsh_parser \<Rightarrow> (char \<times> finsh_parser) option" where
  "token_proc_char s =
     (let (ch, s) = token_next_char s in
      case (if ch = CHR 0x5C then char_escape s else Some (ch, s)) of
        None \<Rightarrow> None
      | Some (ch, s) \<Rightarrow>
          (let (q, s) = token_next_char s in
           if q \<noteq> CHR 0x27 then Some (ch, tk_error FINSH_ERROR_EXPECT_CHAR (token_prev_char s)) else Some (ch, s)))"

text \<open>A string constant. Hexadecimal digits are taken relative to the digit zero, as far as they are less than 16.\<close>

definition token_proc_escape :: "finsh_parser \<Rightarrow> char \<times> finsh_parser" where
  "token_proc_escape s =
     (let (ch, s) = token_next_char s in
      case map_of [(CHR ''n'', CHR 0x0A), (CHR ''t'', CHR 0x09), (CHR ''v'', CHR 0x0B), (CHR ''b'', CHR 0x08),
          (CHR ''r'', CHR 0x0D), (CHR ''f'', CHR 0x0C), (CHR ''a'', CHR 0x07)] ch of
        Some c \<Rightarrow> (c, s)
      | None \<Rightarrow>
          if ch = CHR ''x'' then
            let (ch, s) = token_next_char s;
                (cs, ch, s) = read_while (\<lambda>c. char_num c - char_num CHR ''0'' < 16) ch s
            in (char_of (unat (foldl (\<lambda>v c. v * 16 + (char_num c - char_num CHR ''0'')) 0 cs)), token_prev_char s)
          else if char_num ch - char_num CHR ''0'' < 8 then
            let (cs, ch, s) = read_while (\<lambda>c. char_num c - char_num CHR ''0'' < 8) ch s
            in (char_of (unat (foldl (\<lambda>v c. v * 8 + (char_num c - char_num CHR ''0'')) 0 cs)), token_prev_char s)
          else (NUL, s))"

fun proc_string_loop :: "nat \<Rightarrow> string \<Rightarrow> finsh_parser \<Rightarrow> finsh_parser" where
  "proc_string_loop 0 acc s = s\<lparr>tk_string := rev acc\<rparr>"
| "proc_string_loop (Suc n) acc s =
     (let (ch, s) = token_next_char s in
      if tk_eof s then tk_error FINSH_ERROR_UNEXPECT_END (s\<lparr>tk_string := rev acc\<rparr>)
      else if ch = CHR 0x5C then
        let (c, s) = token_proc_escape s in proc_string_loop n (c # acc) s
      else if ch = CHR 0x22 then s\<lparr>tk_string := rev acc\<rparr>
      else proc_string_loop n (ch # acc) s)"

definition token_proc_string :: "finsh_parser \<Rightarrow> finsh_parser" where
  "token_proc_string s = proc_string_loop 128 '''' s"

text \<open>An operator of one character, or of two equal ones.\<close>

definition single_token :: "char \<Rightarrow> finsh_token_type option" where
  "single_token ch = map_of [(CHR ''('', T_left_paren), (CHR '')'', T_right_paren), (CHR '','', T_comma),
     (CHR '';'', T_semicolon), (CHR ''&'', T_and), (CHR ''*'', T_mul), (CHR ''|'', T_or), (CHR ''%'', T_mod),
     (CHR ''~'', T_bitwise), (CHR ''^'', T_xor), (CHR ''='', T_assign)] ch"

definition double_token :: "char \<Rightarrow> (finsh_token_type \<times> finsh_token_type) option" where
  "double_token ch = map_of [(CHR ''+'', (T_inc, T_add)), (CHR ''-'', (T_dec, T_sub)), (CHR ''/'', (T_eof, T_div)),
     (CHR ''<'', (T_shl, T_bad)), (CHR ''>'', (T_shr, T_bad))] ch"

definition operator_token :: "finsh_parser \<Rightarrow> finsh_parser option" where
  "operator_token s =
     (let (ch, s) = token_next_char s in
      case single_token ch of
        Some t \<Rightarrow> Some (s\<lparr>tk_current := t\<rparr>)
      | None \<Rightarrow>
         (case double_token ch of
            Some (t2, t1) \<Rightarrow>
              (let (ch', s) = token_next_char s in
               if ch' = ch then Some (s\<lparr>tk_current := t2\<rparr>) else Some ((token_prev_char s)\<lparr>tk_current := t1\<rparr>))
          | None \<Rightarrow>
              if ch = CHR 0x27 then
                (case token_proc_char s of
                   None \<Rightarrow> None
                 | Some (c, s) \<Rightarrow> Some (s\<lparr>tk_value := set_char (of_char c) (tk_value s), tk_current := T_value_char\<rparr>))
              else if ch = CHR 0x22 then Some ((token_proc_string s)\<lparr>tk_current := T_value_string\<rparr>)
              else if is_digit ch then Some (token_proc_number (token_prev_char s))
              else Some ((tk_error FINSH_ERROR_UNKNOWN_TOKEN s)\<lparr>tk_current := T_bad\<rparr>)))"

definition token_run :: "finsh_parser \<Rightarrow> finsh_parser option" where
  "token_run s =
     (let s = token_get_string (token_trim_space s) in
      if tk_eof s then Some (s\<lparr>tk_current := T_eof\<rparr>)
      else if tk_string s \<noteq> '''' then
        (case token_match_name (tk_string s) of
           Some t \<Rightarrow> Some (s\<lparr>tk_current := t\<rparr>)
         | None \<Rightarrow> Some (s\<lparr>tk_current := T_identifier\<rparr>))
      else operator_token s)"

definition finsh_token_token :: "finsh_parser \<Rightarrow> (finsh_token_type \<times> finsh_parser) option" where
  "finsh_token_token s =
     (if tk_replay s then Some (tk_current s, s\<lparr>tk_replay := False\<rparr>)
      else map_option (\<lambda>s. (tk_current s, s)) (token_run s))"

definition finsh_token_replay :: "finsh_parser \<Rightarrow> finsh_parser" where
  "finsh_token_replay s = s\<lparr>tk_replay := True\<rparr>"

end
