(* ===== verification/Finsh_Compiler.thy ===== *)
theory Finsh_Compiler
  imports Finsh_Node
begin

text \<open>
  The compiler of the shell (\<^verbatim>\<open>finsh_compiler.c\<close>): the type check, which marks the nodes whose address is wanted
  and gives each node the data type of its first operand, and the compilation of a tree into bytes of the text segment. Writing
  behind its end has no result. The parameter \<open>gv\<close> is the address of \<^verbatim>\<open>global_variable\<close>.
\<close>

subsection \<open>Opcodes\<close>

abbreviation (input) FINSH_OP_NOOP :: u8 where "FINSH_OP_NOOP \<equiv> 0x00"
abbreviation (input) FINSH_OP_ADD_BYTE :: u8 where "FINSH_OP_ADD_BYTE \<equiv> 0x01"
abbreviation (input) FINSH_OP_ADD_WORD :: u8 where "FINSH_OP_ADD_WORD \<equiv> 0x02"
abbreviation (input) FINSH_OP_ADD_DWORD :: u8 where "FINSH_OP_ADD_DWORD \<equiv> 0x03"
abbreviation (input) FINSH_OP_SUB_BYTE :: u8 where "FINSH_OP_SUB_BYTE \<equiv> 0x04"
abbreviation (input) FINSH_OP_SUB_WORD :: u8 where "FINSH_OP_SUB_WORD \<equiv> 0x05"
abbreviation (input) FINSH_OP_SUB_DWORD :: u8 where "FINSH_OP_SUB_DWORD \<equiv> 0x06"
abbreviation (input) FINSH_OP_DIV_BYTE :: u8 where "FINSH_OP_DIV_BYTE \<equiv> 0x07"
abbreviation (input) FINSH_OP_DIV_WORD :: u8 where "FINSH_OP_DIV_WORD \<equiv> 0x08"
abbreviation (input) FINSH_OP_DIV_DWORD :: u8 where "FINSH_OP_DIV_DWORD \<equiv> 0x09"
abbreviation (input) FINSH_OP_MOD_BYTE :: u8 where "FINSH_OP_MOD_BYTE \<equiv> 0x0A"
abbreviation (input) FINSH_OP_MOD_WORD :: u8 where "FINSH_OP_MOD_WORD \<equiv> 0x0B"
abbreviation (input) FINSH_OP_MOD_DWORD :: u8 where "FINSH_OP_MOD_DWORD \<equiv> 0x0C"
abbreviation (input) FINSH_OP_MUL_BYTE :: u8 where "FINSH_OP_MUL_BYTE \<equiv> 0x0D"
abbreviation (input) FINSH_OP_MUL_WORD :: u8 where "FINSH_OP_MUL_WORD \<equiv> 0x0E"
abbreviation (input) FINSH_OP_MUL_DWORD :: u8 where "FINSH_OP_MUL_DWORD \<equiv> 0x0F"
abbreviation (input) FINSH_OP_AND_BYTE :: u8 where "FINSH_OP_AND_BYTE \<equiv> 0x10"
abbreviation (input) FINSH_OP_AND_WORD :: u8 where "FINSH_OP_AND_WORD \<equiv> 0x11"
abbreviation (input) FINSH_OP_AND_DWORD :: u8 where "FINSH_OP_AND_DWORD \<equiv> 0x12"
abbreviation (input) FINSH_OP_OR_BYTE :: u8 where "FINSH_OP_OR_BYTE \<equiv> 0x13"
abbreviation (input) FINSH_OP_OR_WORD :: u8 where "FINSH_OP_OR_WORD \<equiv> 0x14"
abbreviation (input) FINSH_OP_OR_DWORD :: u8 where "FINSH_OP_OR_DWORD \<equiv> 0x15"
abbreviation (input) FINSH_OP_XOR_BYTE :: u8 where "FINSH_OP_XOR_BYTE \<equiv> 0x16"
abbreviation (input) FINSH_OP_XOR_WORD :: u8 where "FINSH_OP_XOR_WORD \<equiv> 0x17"
abbreviation (input) FINSH_OP_XOR_DWORD :: u8 where "FINSH_OP_XOR_DWORD \<equiv> 0x18"
abbreviation (input) FINSH_OP_BITWISE_BYTE :: u8 where "FINSH_OP_BITWISE_BYTE \<equiv> 0x19"
abbreviation (input) FINSH_OP_BITWISE_WORD :: u8 where "FINSH_OP_BITWISE_WORD \<equiv> 0x1A"
abbreviation (input) FINSH_OP_BITWISE_DWORD :: u8 where "FINSH_OP_BITWISE_DWORD \<equiv> 0x1B"
abbreviation (input) FINSH_OP_SHL_BYTE :: u8 where "FINSH_OP_SHL_BYTE \<equiv> 0x1C"
abbreviation (input) FINSH_OP_SHL_WORD :: u8 where "FINSH_OP_SHL_WORD \<equiv> 0x1D"
abbreviation (input) FINSH_OP_SHL_DWORD :: u8 where "FINSH_OP_SHL_DWORD \<equiv> 0x1E"
abbreviation (input) FINSH_OP_SHR_BYTE :: u8 where "FINSH_OP_SHR_BYTE \<equiv> 0x1F"
abbreviation (input) FINSH_OP_SHR_WORD :: u8 where "FINSH_OP_SHR_WORD \<equiv> 0x20"
abbreviation (input) FINSH_OP_SHR_DWORD :: u8 where "FINSH_OP_SHR_DWORD \<equiv> 0x21"
abbreviation (input) FINSH_OP_LD_BYTE :: u8 where "FINSH_OP_LD_BYTE \<equiv> 0x22"
abbreviation (input) FINSH_OP_LD_WORD :: u8 where "FINSH_OP_LD_WORD \<equiv> 0x23"
abbreviation (input) FINSH_OP_LD_DWORD :: u8 where "FINSH_OP_LD_DWORD \<equiv> 0x24"
abbreviation (input) FINSH_OP_LD_VALUE_BYTE :: u8 where "FINSH_OP_LD_VALUE_BYTE \<equiv> 0x25"
abbreviation (input) FINSH_OP_LD_VALUE_WORD :: u8 where "FINSH_OP_LD_VALUE_WORD \<equiv> 0x26"
abbreviation (input) FINSH_OP_LD_VALUE_DWORD :: u8 where "FINSH_OP_LD_VALUE_DWORD \<equiv> 0x27"
abbreviation (input) FINSH_OP_ST_BYTE :: u8 where "FINSH_OP_ST_BYTE \<equiv> 0x28"
abbreviation (input) FINSH_OP_ST_WORD :: u8 where "FINSH_OP_ST_WORD \<equiv> 0x29"
abbreviation (input) FINSH_OP_ST_DWORD :: u8 where "FINSH_OP_ST_DWORD \<equiv> 0x2A"
abbreviation (input) FINSH_OP_POP :: u8 where "FINSH_OP_POP \<equiv> 0x2B"
abbreviation (input) FINSH_OP_SYSCALL :: u8 where "FINSH_OP_SYSCALL \<equiv> 0x2C"
abbreviation (input) FINSH_OP_LD_VALUE_BYTE_STACK :: u8 where "FINSH_OP_LD_VALUE_BYTE_STACK \<equiv> 0x2D"
abbreviation (input) FINSH_OP_LD_VALUE_WORD_STACK :: u8 where "FINSH_OP_LD_VALUE_WORD_STACK \<equiv> 0x2E"
abbreviation (input) FINSH_OP_LD_VALUE_DWORD_STACK :: u8 where "FINSH_OP_LD_VALUE_DWORD_STACK \<equiv> 0x2F"
abbreviation (input) FINSH_OP_HALT :: u8 where "FINSH_OP_HALT \<equiv> 0xFF"

subsection \<open>Type check\<close>

text \<open>The data type of a variable; the types that have none leave it and set the error.\<close>

definition type_of_var :: "finsh_type \<Rightarrow> u8 option" where
  "type_of_var t = (case t of
     finsh_type_void \<Rightarrow> Some FINSH_DATA_TYPE_VOID
   | finsh_type_char \<Rightarrow> Some FINSH_DATA_TYPE_BYTE | finsh_type_uchar \<Rightarrow> Some FINSH_DATA_TYPE_BYTE
   | finsh_type_short \<Rightarrow> Some FINSH_DATA_TYPE_WORD | finsh_type_ushort \<Rightarrow> Some FINSH_DATA_TYPE_WORD
   | finsh_type_int \<Rightarrow> Some FINSH_DATA_TYPE_DWORD | finsh_type_uint \<Rightarrow> Some FINSH_DATA_TYPE_DWORD
   | finsh_type_long \<Rightarrow> Some FINSH_DATA_TYPE_DWORD | finsh_type_ulong \<Rightarrow> Some FINSH_DATA_TYPE_DWORD
   | finsh_type_charp \<Rightarrow> Some FINSH_DATA_TYPE_DWORD | finsh_type_voidp \<Rightarrow> Some FINSH_DATA_TYPE_DWORD
   | finsh_type_shortp \<Rightarrow> Some FINSH_DATA_TYPE_DWORD | finsh_type_intp \<Rightarrow> Some FINSH_DATA_TYPE_DWORD
   | finsh_type_longp \<Rightarrow> Some FINSH_DATA_TYPE_DWORD
   | finsh_type_unknown \<Rightarrow> None)"

definition set_type_of_var :: "finsh_type \<Rightarrow> u8 \<Rightarrow> finsh \<Rightarrow> u8 \<times> finsh" where
  "set_type_of_var t d s =
     (case type_of_var t of Some d' \<Rightarrow> (d', s) | None \<Rightarrow> (d, finsh_error_set FINSH_ERROR_UNKNOWN_TYPE s))"

text \<open>The data type of a node without operands. (An identifier has the kind of symbol that its \<^verbatim>\<open>idtype\<close> says.)\<close>

definition leaf_type :: "fnode_type \<Rightarrow> u8 \<Rightarrow> finsh_id \<Rightarrow> u8 \<Rightarrow> finsh \<Rightarrow> u8 \<times> finsh" where
  "leaf_type t it i d s =
     (if t = FINSH_NODE_ID then
        (if it AND FINSH_IDTYPE_VAR \<noteq> 0 then
           (case i of Id_var k \<Rightarrow> set_type_of_var (var_type (global_variable s ! k)) d s | _ \<Rightarrow> (d, s))
         else if it AND FINSH_IDTYPE_SYSVAR \<noteq> 0 then
           (case i of Id_sysvar v \<Rightarrow> set_type_of_var (sysvar_type v) d s | _ \<Rightarrow> (d, s))
         else (d, s))
      else if t = FINSH_NODE_VALUE_CHAR then (FINSH_DATA_TYPE_BYTE, s)
      else if t = FINSH_NODE_VALUE_INT \<or> t = FINSH_NODE_VALUE_LONG \<or> t = FINSH_NODE_VALUE_STRING \<or>
              t = FINSH_NODE_VALUE_NULL then (FINSH_DATA_TYPE_DWORD, s)
      else (d, s))"

definition passed_down :: "fnode_type \<Rightarrow> u8 \<Rightarrow> u8" where
  "passed_down t is_addr =
     (if t = FINSH_NODE_SYS_ASSIGN \<or> t = FINSH_NODE_SYS_PREINC \<or> t = FINSH_NODE_SYS_PREDEC \<or>
         t = FINSH_NODE_SYS_GETADDR then FINSH_IDTYPE_ADDRESS
      else if t = FINSH_NODE_SYS_GETVALUE \<and> is_addr \<noteq> 0 then 0
      else is_addr)"

fun finsh_type_check :: "fnode \<Rightarrow> u8 \<Rightarrow> finsh \<Rightarrow> fnode \<times> finsh" where
  "finsh_type_check Null is_addr s = (Null, s)"
| "finsh_type_check (FNode t d it v i sib ch) is_addr s =
     (let (ch, s) = finsh_type_check ch (passed_down t is_addr) s;
          (sib, s) = finsh_type_check sib FINSH_NODE_VALUE s;
          it = (if it \<noteq> FINSH_IDTYPE_SYSCALL then it OR is_addr else it);
          (d, s) = (if ch \<noteq> Null then (data_type ch, s) else leaf_type t it i d s)
      in (FNode t d it v i sib ch, s))"

subsection \<open>Code\<close>

definition finsh_code_byte :: "u8 \<Rightarrow> finsh \<Rightarrow> finsh option" where
  "finsh_code_byte b s =
     (if finsh_compile_pc s < length (text_segment (vm s)) then
        Some (s\<lparr>vm := (vm s)\<lparr>text_segment := (text_segment (vm s))[finsh_compile_pc s := b]\<rparr>,
                finsh_compile_pc := finsh_compile_pc s + 1\<rparr>)
      else None)"

fun finsh_code :: "u8 list \<Rightarrow> finsh \<Rightarrow> finsh option" where
  "finsh_code [] s = Some s"
| "finsh_code (b # bs) s = do { s \<leftarrow> finsh_code_byte b s; finsh_code bs s }"

definition code_for :: "u8 \<Rightarrow> u8 list \<Rightarrow> u8 list \<Rightarrow> u8 list \<Rightarrow> finsh \<Rightarrow> finsh option" where
  "code_for d b w l s =
     (if d = FINSH_DATA_TYPE_BYTE then finsh_code b s
      else if d = FINSH_DATA_TYPE_WORD then finsh_code w s
      else if d = FINSH_DATA_TYPE_DWORD then finsh_code l s
      else Some s)"

text \<open>The address of a variable, or its value; for \<^verbatim>\<open>void *\<close> there is no case.\<close>

definition compile_var :: "finsh_type \<Rightarrow> u8 \<Rightarrow> u32 \<Rightarrow> finsh \<Rightarrow> finsh option" where
  "compile_var t it a s =
     (let load = (\<lambda>opc. finsh_code ((if it AND FINSH_IDTYPE_ADDRESS \<noteq> 0 then FINSH_OP_LD_DWORD else opc) # FINSH_SET32 a) s)
      in if t \<in> {finsh_type_char, finsh_type_uchar} then load FINSH_OP_LD_VALUE_BYTE
         else if t \<in> {finsh_type_short, finsh_type_ushort} then load FINSH_OP_LD_VALUE_WORD
         else if t \<in> {finsh_type_int, finsh_type_uint, finsh_type_long, finsh_type_ulong, finsh_type_charp,
                      finsh_type_shortp, finsh_type_intp, finsh_type_longp} then load FINSH_OP_LD_VALUE_DWORD
         else Some s)"

definition compile_id :: "u32 \<Rightarrow> u8 \<Rightarrow> finsh_id \<Rightarrow> finsh \<Rightarrow> finsh option" where
  "compile_id gv it i s =
     (if it AND FINSH_IDTYPE_SYSCALL \<noteq> 0 then
        (case i of Id_syscall c \<Rightarrow> finsh_code (FINSH_OP_LD_DWORD # FINSH_SET32 (syscall_func c)) s | _ \<Rightarrow> None)
      else if it AND FINSH_IDTYPE_SYSVAR \<noteq> 0 then
        (case i of Id_sysvar v \<Rightarrow> compile_var (sysvar_type v) it (sysvar_var v) s | _ \<Rightarrow> Some s)
      else
        (case i of Id_var k \<Rightarrow> compile_var (var_type (global_variable s ! k)) it (var_value gv k) s | _ \<Rightarrow> Some s))"

text \<open>The increments take the symbol for a variable of the shell, whatever it is, and compute the address of its value.\<close>

definition id_var_value :: "u32 \<Rightarrow> finsh_id \<Rightarrow> u32" where
  "id_var_value gv i = (case i of Id_var k \<Rightarrow> var_value gv k | Id_sysvar v \<Rightarrow> sysvar_at v + 20
                        | Id_syscall c \<Rightarrow> syscall_at c + 20 | Id_none \<Rightarrow> 20)"

definition compile_assign :: "u8 \<Rightarrow> finsh \<Rightarrow> finsh option" where
  "compile_assign d s =
     (if d = FINSH_DATA_TYPE_BYTE then finsh_code [FINSH_OP_ST_BYTE, FINSH_OP_LD_VALUE_BYTE_STACK] s
      else if d = FINSH_DATA_TYPE_WORD then finsh_code [FINSH_OP_ST_WORD, FINSH_OP_LD_VALUE_WORD_STACK] s
      else if d = FINSH_DATA_TYPE_DWORD then finsh_code [FINSH_OP_ST_DWORD, FINSH_OP_LD_VALUE_DWORD_STACK] s
      else Some (finsh_error_set FINSH_ERROR_UNKNOWN_TYPE s))"

definition compile_preinc :: "u8 \<Rightarrow> u8 \<Rightarrow> u8 \<Rightarrow> u32 \<Rightarrow> u8 \<Rightarrow> finsh \<Rightarrow> finsh option" where
  "compile_preinc opb opw opl a d s =
     code_for d
       ((FINSH_OP_LD_VALUE_BYTE # FINSH_SET32 a) @ [FINSH_OP_LD_BYTE, 1] @
        [opb, FINSH_OP_ST_BYTE, FINSH_OP_LD_VALUE_DWORD_STACK])
       ((FINSH_OP_LD_VALUE_WORD # FINSH_SET32 a) @ (FINSH_OP_LD_WORD # FINSH_SET16 1) @
        [opw, FINSH_OP_ST_WORD, FINSH_OP_LD_VALUE_DWORD_STACK])
       ((FINSH_OP_LD_VALUE_DWORD # FINSH_SET32 a) @ (FINSH_OP_LD_DWORD # FINSH_SET32 1) @
        [opl, FINSH_OP_ST_DWORD, FINSH_OP_LD_VALUE_DWORD_STACK]) s"

definition compile_postinc :: "u8 \<Rightarrow> u8 \<Rightarrow> u8 \<Rightarrow> u32 \<Rightarrow> u8 \<Rightarrow> finsh \<Rightarrow> finsh option" where
  "compile_postinc opb opw opl a d s =
     code_for d
       ((FINSH_OP_LD_DWORD # FINSH_SET32 a) @ (FINSH_OP_LD_VALUE_BYTE # FINSH_SET32 a) @ [FINSH_OP_LD_BYTE, 1] @
        [opb, FINSH_OP_ST_BYTE, FINSH_OP_POP])
       ((FINSH_OP_LD_DWORD # FINSH_SET32 a) @ (FINSH_OP_LD_VALUE_WORD # FINSH_SET32 a) @
        (FINSH_OP_LD_WORD # FINSH_SET16 1) @ [opw, FINSH_OP_ST_WORD, FINSH_OP_POP])
       ((FINSH_OP_LD_DWORD # FINSH_SET32 a) @ (FINSH_OP_LD_VALUE_DWORD # FINSH_SET32 a) @
        (FINSH_OP_LD_DWORD # FINSH_SET32 1) @ [opl, FINSH_OP_ST_DWORD, FINSH_OP_POP]) s"

fun count_siblings :: "fnode \<Rightarrow> nat" where
  "count_siblings Null = 0"
| "count_siblings (FNode t d it v i sib ch) = 1 + count_siblings sib"

text \<open>The code of one node, after that of its operands. An assignment, an increment and a call look at their first operand,
  which must be there.\<close>

definition with_child :: "fnode \<Rightarrow> (fnode \<Rightarrow> finsh option) \<Rightarrow> finsh option" where
  "with_child ch f = (if ch = Null then None else f ch)"

definition compile_node :: "u32 \<Rightarrow> fnode \<Rightarrow> finsh \<Rightarrow> finsh option" where
  "compile_node gv n s =
     (let d = data_type n; v = node_value n;
          arith = (\<lambda>b w l. code_for d [b] [w] [l] s);
          inc = (\<lambda>comp. with_child (child n) (\<lambda>c. if node_type c = FINSH_NODE_ID
                           then comp (id_var_value gv (node_id c)) d s else Some s))
      in case node_type n of
           FINSH_NODE_ID \<Rightarrow> compile_id gv (idtype n) (node_id n) s
         | FINSH_NODE_VALUE_CHAR \<Rightarrow> finsh_code [FINSH_OP_LD_BYTE, ucast v] s
         | FINSH_NODE_VALUE_INT \<Rightarrow> finsh_code (FINSH_OP_LD_DWORD # FINSH_SET32 v) s
         | FINSH_NODE_VALUE_LONG \<Rightarrow> finsh_code (FINSH_OP_LD_DWORD # FINSH_SET32 v) s
         | FINSH_NODE_VALUE_NULL \<Rightarrow> finsh_code (FINSH_OP_LD_DWORD # FINSH_SET32 v) s
         | FINSH_NODE_VALUE_STRING \<Rightarrow> finsh_code (FINSH_OP_LD_DWORD # FINSH_SET32 v) s
         | FINSH_NODE_SYS_ADD \<Rightarrow> arith FINSH_OP_ADD_BYTE FINSH_OP_ADD_WORD FINSH_OP_ADD_DWORD
         | FINSH_NODE_SYS_SUB \<Rightarrow> arith FINSH_OP_SUB_BYTE FINSH_OP_SUB_WORD FINSH_OP_SUB_DWORD
         | FINSH_NODE_SYS_MUL \<Rightarrow> arith FINSH_OP_MUL_BYTE FINSH_OP_MUL_WORD FINSH_OP_MUL_DWORD
         | FINSH_NODE_SYS_DIV \<Rightarrow> arith FINSH_OP_DIV_BYTE FINSH_OP_DIV_WORD FINSH_OP_DIV_DWORD
         | FINSH_NODE_SYS_MOD \<Rightarrow> arith FINSH_OP_MOD_BYTE FINSH_OP_MOD_WORD FINSH_OP_MOD_DWORD
         | FINSH_NODE_SYS_AND \<Rightarrow> arith FINSH_OP_AND_BYTE FINSH_OP_AND_WORD FINSH_OP_AND_DWORD
         | FINSH_NODE_SYS_OR \<Rightarrow> arith FINSH_OP_OR_BYTE FINSH_OP_OR_WORD FINSH_OP_OR_DWORD
         | FINSH_NODE_SYS_XOR \<Rightarrow> arith FINSH_OP_XOR_BYTE FINSH_OP_XOR_WORD FINSH_OP_XOR_DWORD
         | FINSH_NODE_SYS_BITWISE \<Rightarrow> arith FINSH_OP_BITWISE_BYTE FINSH_OP_BITWISE_WORD FINSH_OP_BITWISE_DWORD
         | FINSH_NODE_SYS_SHL \<Rightarrow> arith FINSH_OP_SHL_BYTE FINSH_OP_SHL_WORD FINSH_OP_SHL_DWORD
         | FINSH_NODE_SYS_SHR \<Rightarrow> arith FINSH_OP_SHR_BYTE FINSH_OP_SHR_WORD FINSH_OP_SHR_DWORD
         | FINSH_NODE_SYS_FUNC \<Rightarrow> with_child (child n) (\<lambda>c.
             finsh_code [FINSH_OP_SYSCALL, of_nat (count_siblings (sibling c))] s)
         | FINSH_NODE_SYS_ASSIGN \<Rightarrow> with_child (child n) (\<lambda>c.
             if node_type c = FINSH_NODE_ID then compile_assign (data_type c) s
             else if node_type c = FINSH_NODE_SYS_GETVALUE then compile_assign (data_type c AND 0x0F) s
             else Some s)
         | FINSH_NODE_SYS_PREINC \<Rightarrow> inc (compile_preinc FINSH_OP_ADD_BYTE FINSH_OP_ADD_WORD FINSH_OP_ADD_DWORD)
         | FINSH_NODE_SYS_PREDEC \<Rightarrow> inc (compile_preinc FINSH_OP_SUB_BYTE FINSH_OP_SUB_WORD FINSH_OP_SUB_DWORD)
         | FINSH_NODE_SYS_INC \<Rightarrow> inc (compile_postinc FINSH_OP_ADD_BYTE FINSH_OP_ADD_WORD FINSH_OP_ADD_DWORD)
         | FINSH_NODE_SYS_DEC \<Rightarrow> inc (compile_postinc FINSH_OP_SUB_BYTE FINSH_OP_SUB_WORD FINSH_OP_SUB_DWORD)
         | FINSH_NODE_SYS_NULL \<Rightarrow> finsh_code (FINSH_SET32 0) s
         | FINSH_NODE_SYS_GETVALUE \<Rightarrow>
             (if idtype n AND FINSH_IDTYPE_ADDRESS \<noteq> 0 then Some s
              else code_for d [FINSH_OP_LD_VALUE_BYTE_STACK] [FINSH_OP_LD_VALUE_WORD_STACK]
                     [FINSH_OP_LD_VALUE_DWORD_STACK] s)
         | FINSH_NODE_SYS_GETADDR \<Rightarrow> Some s
         | _ \<Rightarrow> Some (finsh_error_set FINSH_ERROR_UNKNOWN_NODE s))"

fun finsh_compile :: "u32 \<Rightarrow> fnode \<Rightarrow> finsh \<Rightarrow> finsh option" where
  "finsh_compile gv Null s = Some s"
| "finsh_compile gv (FNode t d it v i sib ch) s = do {
     s \<leftarrow> finsh_compile gv ch s;
     s \<leftarrow> compile_node gv (FNode t d it v i sib ch) s;
     finsh_compile gv sib s }"

text \<open>The statements of a line are siblings. Each is compiled alone, and its value popped when another follows.\<close>

fun compile_statements :: "u32 \<Rightarrow> fnode \<Rightarrow> finsh \<Rightarrow> finsh option" where
  "compile_statements gv Null s = Some s"
| "compile_statements gv (FNode t d it v i sib ch) s = do {
     s \<leftarrow> finsh_compile gv (FNode t d it v i Null ch) s;
     s \<leftarrow> (if sib \<noteq> Null then finsh_code_byte FINSH_OP_POP s else Some s);
     compile_statements gv sib s }"

definition finsh_compiler_run :: "u32 \<Rightarrow> fnode \<Rightarrow> finsh \<Rightarrow> finsh option" where
  "finsh_compiler_run gv node s =
     (let (node, s) = finsh_type_check node FINSH_NODE_VALUE s;
          s = s\<lparr>vm := (vm s)\<lparr>text_segment := replicate FINSH_TEXT_MAX 0,
                           finsh_vm_stack := (finsh_vm_stack (vm s))[0 := 0]\<rparr>,
                finsh_compile_pc := 0\<rparr>
      in compile_statements gv node s)"

end
