(* ===== verification/Finsh_Parser.thy ===== *)
theory Finsh_Parser
  imports Finsh_Token Finsh_Compiler
begin

text \<open>
  The parser of the shell (\<^verbatim>\<open>finsh_parser.c\<close>): a procedure for each level of the expressions, which call each other. They are
  one partial function of the procedure that is called (\<open>fproc\<close>), since a scanner that begins the line again can keep them busy
  for ever. A string constant, which needs the heap of the shell, has no result.
\<close>

subsection \<open>Tokens\<close>

definition check_token :: "finsh_token_type \<Rightarrow> finsh_token_type \<Rightarrow> finsh_parser \<Rightarrow> finsh_parser" where
  "check_token token type s =
     (if token \<noteq> type then finsh_token_replay (tk_error FINSH_ERROR_INVALID_TOKEN s) else s)"

definition match_token :: "finsh_token_type \<Rightarrow> finsh_parser \<Rightarrow> finsh_parser option" where
  "match_token type s = do { (token, s) \<leftarrow> finsh_token_token s; Some (check_token token type s) }"

definition is_base_type :: "finsh_token_type \<Rightarrow> bool" where
  "is_base_type token \<longleftrightarrow> token \<in> {T_type_void, T_type_char, T_type_short, T_type_int, T_type_long}"

text \<open>A name of 16 characters or more is copied without a final zero; what the caller then reads has no result.\<close>

definition proc_identifier :: "finsh_parser \<Rightarrow> (string \<times> finsh_parser) option" where
  "proc_identifier s = do {
     s \<leftarrow> match_token T_identifier s;
     if length (tk_string s) < FINSH_NAME_MAX then Some (tk_string s, s) else None }"

definition base_type :: "finsh_token_type \<Rightarrow> finsh_type" where
  "base_type token = (case token of T_type_void \<Rightarrow> finsh_type_void | T_type_char \<Rightarrow> finsh_type_char
     | T_type_short \<Rightarrow> finsh_type_short | T_type_int \<Rightarrow> finsh_type_int | T_type_long \<Rightarrow> finsh_type_long
     | _ \<Rightarrow> finsh_type_unknown)"

definition unsigned_type :: "finsh_token_type \<Rightarrow> finsh_type option" where
  "unsigned_type token = (case token of T_type_char \<Rightarrow> Some finsh_type_uchar | T_type_short \<Rightarrow> Some finsh_type_ushort
     | T_type_int \<Rightarrow> Some finsh_type_uint | T_type_long \<Rightarrow> Some finsh_type_ulong | _ \<Rightarrow> None)"

definition pointer_type :: "finsh_type \<Rightarrow> finsh_type" where
  "pointer_type t = (case t of finsh_type_void \<Rightarrow> finsh_type_voidp
     | finsh_type_char \<Rightarrow> finsh_type_charp | finsh_type_uchar \<Rightarrow> finsh_type_charp
     | finsh_type_short \<Rightarrow> finsh_type_shortp | finsh_type_ushort \<Rightarrow> finsh_type_shortp
     | finsh_type_int \<Rightarrow> finsh_type_intp | finsh_type_uint \<Rightarrow> finsh_type_intp
     | finsh_type_long \<Rightarrow> finsh_type_longp | finsh_type_ulong \<Rightarrow> finsh_type_longp | _ \<Rightarrow> finsh_type_voidp)"

definition proc_pointer :: "finsh_type \<Rightarrow> finsh_parser \<Rightarrow> (finsh_type \<times> finsh_parser) option" where
  "proc_pointer t s = do {
     (token, s) \<leftarrow> finsh_token_token s;
     if token = T_mul then Some (pointer_type t, s) else Some (t, finsh_token_replay s) }"

definition no_type :: "finsh_parser \<Rightarrow> (finsh_type \<times> finsh_parser) option" where
  "no_type s = Some (finsh_type_unknown, tk_error FINSH_ERROR_UNKNOWN_TYPE (finsh_token_replay s))"

definition proc_type :: "finsh_parser \<Rightarrow> (finsh_type \<times> finsh_parser) option" where
  "proc_type s = do {
     (token, s) \<leftarrow> finsh_token_token s;
     if is_base_type token then proc_pointer (base_type token) s
     else if token = T_type_unsigned then do {
       (token, s) \<leftarrow> finsh_token_token s;
       if is_base_type token then
         (case unsigned_type token of Some t \<Rightarrow> proc_pointer t s | None \<Rightarrow> no_type s)
       else proc_pointer finsh_type_unknown (tk_error FINSH_ERROR_EXPECT_TYPE (finsh_token_replay s)) }
     else no_type s }"

subsection \<open>Nodes\<close>

definition on_shell :: "(finsh \<Rightarrow> fnode \<times> finsh) \<Rightarrow> finsh_parser \<Rightarrow> fnode \<times> finsh_parser" where
  "on_shell f s = (case f (shell s) of (n, h) \<Rightarrow> (n, s\<lparr>shell := h\<rparr>))"

definition make_node :: "fnode_type \<Rightarrow> fnode \<Rightarrow> fnode \<Rightarrow> finsh_parser \<Rightarrow> fnode \<times> finsh_parser" where
  "make_node t n1 n2 = on_shell (make_sys_node t n1 n2)"

fun link_nodes :: "fnode list \<Rightarrow> fnode \<Rightarrow> fnode" where
  "link_nodes [] c = c"
| "link_nodes (Null # ns) c = link_nodes ns c"
| "link_nodes (FNode t d it v i sib ch # ns) c = FNode t d it v i (link_nodes ns c) ch"

fun set_data_type :: "u8 \<Rightarrow> fnode \<Rightarrow> fnode" where
  "set_data_type d Null = Null"
| "set_data_type d (FNode t d' it v i sib ch) = FNode t d it v i sib ch"

subsection \<open>Expressions\<close>

datatype flevel = L_inclusive_or | L_exclusive_or | L_and | L_shift | L_additive | L_multiplicative

datatype fproc =
    P_assign_expr
  | P_level flevel
  | P_level_loop flevel fnode finsh_token_type
  | P_cast_expr
  | P_unary_expr
  | P_postfix_expr
  | P_postfix_loop fnode finsh_token_type
  | P_primary_expr
  | P_param_list
  | P_param_loop "fnode list" finsh_token_type

text \<open>The operand of each of the six levels of binary operators, and the node of each of their tokens.\<close>

definition operand_proc :: "flevel \<Rightarrow> fproc" where
  "operand_proc l = (case l of L_inclusive_or \<Rightarrow> P_level L_exclusive_or | L_exclusive_or \<Rightarrow> P_level L_and
     | L_and \<Rightarrow> P_level L_shift | L_shift \<Rightarrow> P_level L_additive | L_additive \<Rightarrow> P_level L_multiplicative
     | L_multiplicative \<Rightarrow> P_cast_expr)"

definition level_node :: "flevel \<Rightarrow> finsh_token_type \<Rightarrow> fnode_type option" where
  "level_node l token = (case l of
     L_inclusive_or \<Rightarrow> if token = T_or then Some FINSH_NODE_SYS_OR else None
   | L_exclusive_or \<Rightarrow> if token = T_xor then Some FINSH_NODE_SYS_XOR else None
   | L_and \<Rightarrow> if token = T_and then Some FINSH_NODE_SYS_AND else None
   | L_shift \<Rightarrow> if token = T_shl then Some FINSH_NODE_SYS_SHL else if token = T_shr then Some FINSH_NODE_SYS_SHR else None
   | L_additive \<Rightarrow> if token = T_sub then Some FINSH_NODE_SYS_SUB else if token = T_add then Some FINSH_NODE_SYS_ADD else None
   | L_multiplicative \<Rightarrow> if token = T_mul then Some FINSH_NODE_SYS_MUL else if token = T_div then Some FINSH_NODE_SYS_DIV
       else if token = T_mod then Some FINSH_NODE_SYS_MOD else None)"

definition unary_node :: "finsh_token_type \<Rightarrow> fnode_type option" where
  "unary_node token = (case token of T_inc \<Rightarrow> Some FINSH_NODE_SYS_PREINC | T_dec \<Rightarrow> Some FINSH_NODE_SYS_PREDEC
     | T_bitwise \<Rightarrow> Some FINSH_NODE_SYS_BITWISE | T_mul \<Rightarrow> Some FINSH_NODE_SYS_GETVALUE
     | T_and \<Rightarrow> Some FINSH_NODE_SYS_GETADDR | _ \<Rightarrow> None)"

text \<open>A constant or a name.\<close>

definition literal :: "finsh_token_type \<Rightarrow> finsh_parser \<Rightarrow> (fnode \<times> finsh_parser) option" where
  "literal token s = (case token of
     T_identifier \<Rightarrow> do { (name, s) \<leftarrow> proc_identifier (finsh_token_replay s); Some (on_shell (finsh_node_new_id name) s) }
   | T_value_int \<Rightarrow> Some (on_shell (finsh_node_new_int (tk_value s)) s)
   | T_value_long \<Rightarrow> Some (on_shell (finsh_node_new_long (tk_value s)) s)
   | T_value_char \<Rightarrow> Some (on_shell (finsh_node_new_char (ucast (tk_value s))) s)
   | T_value_string \<Rightarrow> None
   | T_value_null \<Rightarrow> Some (on_shell (finsh_node_new_ptr 0) s)
   | _ \<Rightarrow> Some (Null, tk_error FINSH_ERROR_INVALID_TOKEN s))"

partial_function (option) parse :: "fproc \<Rightarrow> finsh_parser \<Rightarrow> (fnode \<times> finsh_parser) option" where
  "parse p s = (case p of
     P_assign_expr \<Rightarrow> do {
       (lhs, s) \<leftarrow> parse (P_level L_inclusive_or) s;
       (token, s) \<leftarrow> finsh_token_token s;
       if token = T_assign then do {
         (assign, s) \<leftarrow> parse P_assign_expr s;
         Some (make_node FINSH_NODE_SYS_ASSIGN lhs assign s) }
       else Some (lhs, finsh_token_replay s) }
   | P_level l \<Rightarrow> do {
       (node, s) \<leftarrow> parse (operand_proc l) s;
       (token, s) \<leftarrow> finsh_token_token s;
       parse (P_level_loop l node token) s }
   | P_level_loop l node token \<Rightarrow>
       (case level_node l token of
          None \<Rightarrow> Some (node, finsh_token_replay s)
        | Some t \<Rightarrow> do {
            (new, s) \<leftarrow> parse (operand_proc l) s;
            (node, s) \<leftarrow> Some (if new = Null then (node, tk_error FINSH_ERROR_EXPECT_OPERATOR s) else make_node t node new s);
            (token, s) \<leftarrow> finsh_token_token s;
            parse (P_level_loop l node token) s })
   | P_cast_expr \<Rightarrow> do {
       (token, s) \<leftarrow> finsh_token_token s;
       if token = T_left_paren then do {
         (type, s) \<leftarrow> proc_type s;
         s \<leftarrow> match_token T_right_paren s;
         (cast, s) \<leftarrow> parse P_cast_expr s;
         if cast \<noteq> Null then Some (set_data_type (finsh_type_num type) cast, s)
         else parse P_unary_expr (finsh_token_replay s) }
       else parse P_unary_expr (finsh_token_replay s) }
   | P_unary_expr \<Rightarrow> do {
       (token, s) \<leftarrow> finsh_token_token s;
       if token = T_add then parse P_cast_expr s
       else if token = T_sub then do {
         (cast, s) \<leftarrow> parse P_cast_expr s;
         (zero, s) \<leftarrow> Some (on_shell (finsh_node_new_long 0) s);
         Some (make_node FINSH_NODE_SYS_SUB zero cast s) }
       else (case unary_node token of
          Some t \<Rightarrow> do { (cast, s) \<leftarrow> parse P_cast_expr s; Some (make_node t cast Null s) }
        | None \<Rightarrow> parse P_postfix_expr (finsh_token_replay s)) }
   | P_postfix_expr \<Rightarrow> do {
       (postfix, s) \<leftarrow> parse P_primary_expr s;
       (token, s) \<leftarrow> finsh_token_token s;
       parse (P_postfix_loop postfix token) s }
   | P_postfix_loop postfix token \<Rightarrow>
       (if token = T_inc \<or> token = T_dec then do {
          (postfix, s) \<leftarrow> Some (make_node (if token = T_inc then FINSH_NODE_SYS_INC else FINSH_NODE_SYS_DEC) postfix Null s);
          (token, s) \<leftarrow> finsh_token_token s;
          parse (P_postfix_loop postfix token) s }
        else if token = T_left_paren then do {
          (token, s) \<leftarrow> finsh_token_token s;
          (params, s) \<leftarrow> (if token \<noteq> T_right_paren then do {
              (params, s) \<leftarrow> parse P_param_list (finsh_token_replay s);
              s \<leftarrow> match_token T_right_paren s;
              Some (params, s) }
            else Some (Null, s));
          (postfix, s) \<leftarrow> Some (make_node FINSH_NODE_SYS_FUNC postfix params s);
          (token, s) \<leftarrow> finsh_token_token s;
          parse (P_postfix_loop postfix token) s }
        else Some (postfix, finsh_token_replay s))
   | P_primary_expr \<Rightarrow> do {
       (token, s) \<leftarrow> finsh_token_token s;
       if token = T_left_paren then do {
         (expr, s) \<leftarrow> parse P_assign_expr s;
         s \<leftarrow> match_token T_right_paren s;
         Some (expr, s) }
       else literal token s }
   | P_param_list \<Rightarrow> do {
       (assign, s) \<leftarrow> parse P_assign_expr s;
       if assign = Null then Some (Null, s)
       else do {
         (token, s) \<leftarrow> finsh_token_token s;
         parse (P_param_loop [assign] token) s } }
   | P_param_loop nodes token \<Rightarrow>
       (if token = T_comma then do {
          (assign, s) \<leftarrow> parse P_assign_expr s;
          (nodes, s) \<leftarrow> Some (if assign \<noteq> Null then (nodes @ [assign], s)
                             else (nodes, tk_error FINSH_ERROR_EXPECT_OPERATOR s));
          (token, s) \<leftarrow> finsh_token_token s;
          parse (P_param_loop nodes token) s }
        else Some (link_nodes nodes Null, finsh_token_replay s)))"

subsection \<open>Statements\<close>

definition declare_id :: "finsh_type \<Rightarrow> finsh_parser \<Rightarrow> (string \<times> finsh_parser) option" where
  "declare_id t s = do {
     (name, s) \<leftarrow> proc_identifier s;
     case finsh_var_insert name t (shell s) of
       (Some i, h) \<Rightarrow> Some (name, s\<lparr>shell := h\<rparr>)
     | (None, h) \<Rightarrow> Some (name, tk_error FINSH_ERROR_VARIABLE_EXIST (s\<lparr>shell := h\<rparr>)) }"

text \<open>The initial value of a declared name, when one follows: a further assignment in the chain, linked to the last one. When
  the table of nodes is full and gave none for that one, the link would be written through a null pointer.\<close>

definition declare_init :: "string \<Rightarrow> fnode list \<Rightarrow> finsh_token_type \<Rightarrow> finsh_parser
    \<Rightarrow> (fnode list \<times> finsh_token_type \<times> finsh_parser) option" where
  "declare_init name nodes token s =
     (if token = T_assign then do {
        (assign, s) \<leftarrow> parse P_assign_expr s;
        if assign \<noteq> Null then do {
          (idnode, s) \<leftarrow> Some (on_shell (finsh_node_new_id name) s);
          (node, s) \<leftarrow> Some (make_node FINSH_NODE_SYS_ASSIGN idnode assign s);
          nodes \<leftarrow> (if nodes = [] then Some (if node = Null then [] else [node])
                   else if last nodes = Null then None else Some (nodes @ [node]));
          (token, s) \<leftarrow> finsh_token_token s;
          Some (nodes, token, s) }
        else Some (nodes, token, s) }
      else Some (nodes, token, s))"

partial_function (option) declare_loop :: "finsh_type \<Rightarrow> fnode list \<Rightarrow> finsh_token_type \<Rightarrow> finsh_parser
    \<Rightarrow> (fnode list \<times> finsh_token_type \<times> finsh_parser) option" where
  "declare_loop t nodes token s =
     (if token = T_comma then do {
        (name, s) \<leftarrow> declare_id t s;
        (token, s) \<leftarrow> finsh_token_token s;
        (nodes, token, s) \<leftarrow> declare_init name nodes token s;
        declare_loop t nodes token s }
      else Some (nodes, token, s))"

definition proc_variable_decl :: "finsh_parser \<Rightarrow> (fnode \<times> finsh_parser) option" where
  "proc_variable_decl s = do {
     (t, s) \<leftarrow> proc_type s;
     (name, s) \<leftarrow> declare_id t s;
     (token, s) \<leftarrow> finsh_token_token s;
     if token = T_comma \<or> token = T_assign then do {
       (nodes, token, s) \<leftarrow> declare_init name [] token s;
       (nodes, token, s) \<leftarrow> declare_loop t nodes token s;
       Some (link_nodes nodes Null, check_token token T_semicolon s) }
     else if token = T_semicolon then Some (Null, s)
     else Some (Null, tk_error FINSH_ERROR_EXPECT_TYPE s) }"

definition proc_expr_statement :: "finsh_parser \<Rightarrow> (fnode \<times> finsh_parser) option" where
  "proc_expr_statement s = do {
     (token, s) \<leftarrow> finsh_token_token s;
     if token \<noteq> T_semicolon then do {
       (expr, s) \<leftarrow> parse P_assign_expr (finsh_token_replay s);
       s \<leftarrow> match_token T_semicolon s;
       Some (expr, s) }
     else Some (Null, s) }"

text \<open>The statements of a line are linked as siblings: a statement becomes the sibling of the first node of the statement before
  it, in the place of the other nodes of a declaration. The chain so far is a list of the earlier nodes and the last statement.\<close>

definition cut_sibling :: "fnode \<Rightarrow> fnode" where
  "cut_sibling n = link_nodes [n] Null"

definition add_statement :: "fnode \<Rightarrow> fnode list \<times> fnode \<Rightarrow> fnode list \<times> fnode" where
  "add_statement stmt c = (case c of (before, node) \<Rightarrow>
     if node = Null then ([], stmt)
     else if stmt = Null then (before, cut_sibling node)
     else (before @ [node], stmt))"

definition is_declaration :: "finsh_token_type \<Rightarrow> bool" where
  "is_declaration token \<longleftrightarrow> is_base_type token \<or> token = T_type_unsigned"

text \<open>After an empty statement that is not the first and does not begin with a name one more token is skipped.\<close>

partial_function (option) parser_loop :: "fnode list \<times> fnode \<Rightarrow> finsh_token_type \<Rightarrow> finsh_parser
    \<Rightarrow> (fnode \<times> finsh_parser) option" where
  "parser_loop c token s =
     (if token \<noteq> T_eof \<and> token \<noteq> T_bad then do {
        (stmt, s) \<leftarrow> (if token \<noteq> T_identifier \<and> is_declaration token then proc_variable_decl (finsh_token_replay s)
                     else proc_expr_statement (finsh_token_replay s));
        s \<leftarrow> (if token \<noteq> T_identifier \<and> \<not> is_declaration token \<and> snd c \<noteq> Null \<and> stmt = Null
             then do { (t, s) \<leftarrow> finsh_token_token s; Some s } else Some s);
        (token, s) \<leftarrow> finsh_token_token s;
        parser_loop (add_statement stmt c) token s }
      else Some (link_nodes (fst c) (snd c), s))"

text \<open>A parser begins without a tree, which \<open>finsh_flush\<close> sees to after every line.\<close>

definition finsh_parser_run :: "string \<Rightarrow> finsh_parser \<Rightarrow> (fnode \<times> finsh_parser) option" where
  "finsh_parser_run line s = do {
     (token, s) \<leftarrow> finsh_token_token (finsh_token_init line s);
     parser_loop ([], Null) token s }"

subsection \<open>A line\<close>

definition finsh_parser_init :: "finsh_parser \<Rightarrow> finsh_parser" where
  "finsh_parser_init s = s\<lparr>tk_eof := False, tk_replay := False, tk_position := 0, tk_current := T_none, tk_value := 0,
     tk_string := '''', tk_line := ''''\<rparr>"

definition finsh_flush :: "finsh_parser \<Rightarrow> finsh_parser" where
  "finsh_flush s = (finsh_parser_init s)\<lparr>shell := finsh_error_set FINSH_ERROR_OK (finsh_node_init (shell s))\<rparr>"

text \<open>What the shell prints for a line: the message of an error, the value as it is on the stack, or nothing, when the compiler
  set an error.\<close>

datatype line_report = Error_message u8 | Result u32 | No_report

definition finsh_run_line :: "syscalls \<Rightarrow> u32 \<Rightarrow> string \<Rightarrow> finsh_parser \<Rightarrow> (line_report \<times> finsh_parser) option" where
  "finsh_run_line call gv line s = do {
     (root, s) \<leftarrow> finsh_parser_run line s;
     (report, s) \<leftarrow>
       (if global_errno (shell s) = 0 then do {
          h \<leftarrow> finsh_compiler_run gv root (shell s);
          if global_errno h = 0 then do {
            r \<leftarrow> finsh_vm_run call (vm h);
            Some (Result (finsh_stack_bottom r), s\<lparr>shell := h\<lparr>vm := r\<rparr>\<rparr>) }
          else Some (No_report, s\<lparr>shell := h\<rparr>) }
        else Some (Error_message (global_errno (shell s)), s));
     Some (report, finsh_flush s) }"

end
