(* ===== verification/Finsh_Eval.thy ===== *)
theory Finsh_Eval
  imports Finsh_Compiler
begin

text \<open>
  What a line of the shell means: expressions, their value in a memory, and the proof that the compiled line computes it on
  the stack machine. An expression is computed in the type of its left operand, which is narrower than what C says; a value of a
  type of one or two bytes only determines these bytes of its cell. \<open>well_typed\<close> asks that an operand supplies all bytes that
  are read; where it does not, the machine reads what an earlier computation left in the cell.
\<close>

subsection \<open>Expressions\<close>

datatype fop = B_add | B_sub | B_mul | B_div | B_mod | B_and | B_or | B_xor | B_shl | B_shr

datatype fref = R_var nat | R_sys finsh_sysvar

datatype fexp =
    E_const fnode_type u32
  | E_char u8
  | E_ref fref
  | E_bin fop fexp fexp
  | E_not fexp
  | E_assign fref fexp
  | E_store fexp fexp
  | E_addr fref
  | E_deref fexp
  | E_pre bool nat
  | E_post bool nat
  | E_call finsh_syscall "fexp list"

fun op_node :: "fop \<Rightarrow> fnode_type" where
  "op_node B_add = FINSH_NODE_SYS_ADD"
| "op_node B_sub = FINSH_NODE_SYS_SUB"
| "op_node B_mul = FINSH_NODE_SYS_MUL"
| "op_node B_div = FINSH_NODE_SYS_DIV"
| "op_node B_mod = FINSH_NODE_SYS_MOD"
| "op_node B_and = FINSH_NODE_SYS_AND"
| "op_node B_or = FINSH_NODE_SYS_OR"
| "op_node B_xor = FINSH_NODE_SYS_XOR"
| "op_node B_shl = FINSH_NODE_SYS_SHL"
| "op_node B_shr = FINSH_NODE_SYS_SHR"

fun op_fun :: "fop \<Rightarrow> c_op" where
  "op_fun B_add = c_add"
| "op_fun B_sub = c_sub"
| "op_fun B_mul = c_mul"
| "op_fun B_div = c_div"
| "op_fun B_mod = c_mod"
| "op_fun B_and = c_and"
| "op_fun B_or = c_or"
| "op_fun B_xor = c_xor"
| "op_fun B_shl = c_shl"
| "op_fun B_shr = c_shr"

text \<open>The opcode of an operation for a data type.\<close>

definition width_op :: "u8 \<Rightarrow> u8 \<Rightarrow> u8 \<Rightarrow> u8 \<Rightarrow> u8" where
  "width_op d b w l = (if d = FINSH_DATA_TYPE_BYTE then b else if d = FINSH_DATA_TYPE_WORD then w else l)"

fun op_code :: "fop \<Rightarrow> u8 \<Rightarrow> u8" where
  "op_code B_add d = width_op d FINSH_OP_ADD_BYTE FINSH_OP_ADD_WORD FINSH_OP_ADD_DWORD"
| "op_code B_sub d = width_op d FINSH_OP_SUB_BYTE FINSH_OP_SUB_WORD FINSH_OP_SUB_DWORD"
| "op_code B_mul d = width_op d FINSH_OP_MUL_BYTE FINSH_OP_MUL_WORD FINSH_OP_MUL_DWORD"
| "op_code B_div d = width_op d FINSH_OP_DIV_BYTE FINSH_OP_DIV_WORD FINSH_OP_DIV_DWORD"
| "op_code B_mod d = width_op d FINSH_OP_MOD_BYTE FINSH_OP_MOD_WORD FINSH_OP_MOD_DWORD"
| "op_code B_and d = width_op d FINSH_OP_AND_BYTE FINSH_OP_AND_WORD FINSH_OP_AND_DWORD"
| "op_code B_or d = width_op d FINSH_OP_OR_BYTE FINSH_OP_OR_WORD FINSH_OP_OR_DWORD"
| "op_code B_xor d = width_op d FINSH_OP_XOR_BYTE FINSH_OP_XOR_WORD FINSH_OP_XOR_DWORD"
| "op_code B_shl d = width_op d FINSH_OP_SHL_BYTE FINSH_OP_SHL_WORD FINSH_OP_SHL_DWORD"
| "op_code B_shr d = width_op d FINSH_OP_SHR_BYTE FINSH_OP_SHR_WORD FINSH_OP_SHR_DWORD"

definition ref_type :: "finsh_var list \<Rightarrow> fref \<Rightarrow> finsh_type" where
  "ref_type vs r = (case r of R_var k \<Rightarrow> var_type (vs ! k) | R_sys v \<Rightarrow> sysvar_type v)"

definition ref_at :: "u32 \<Rightarrow> fref \<Rightarrow> u32" where
  "ref_at gv r = (case r of R_var k \<Rightarrow> var_value gv k | R_sys v \<Rightarrow> sysvar_var v)"

definition scalar :: "finsh_type \<Rightarrow> bool" where
  "scalar t \<longleftrightarrow> t \<notin> {finsh_type_unknown, finsh_type_void, finsh_type_voidp}"

definition ref_data :: "finsh_var list \<Rightarrow> fref \<Rightarrow> u8" where
  "ref_data vs r = the (type_of_var (ref_type vs r))"

definition width :: "u8 \<Rightarrow> nat" where
  "width d = (if d = FINSH_DATA_TYPE_BYTE then 1 else if d = FINSH_DATA_TYPE_WORD then 2
              else if d = FINSH_DATA_TYPE_DWORD then 4 else 0)"

text \<open>The data type the type check gives, and the number of bytes of the cell that the value determines.\<close>

fun dt :: "finsh_var list \<Rightarrow> fexp \<Rightarrow> u8" where
  "dt vs (E_const t w) = FINSH_DATA_TYPE_DWORD"
| "dt vs (E_char c) = FINSH_DATA_TYPE_BYTE"
| "dt vs (E_ref r) = ref_data vs r"
| "dt vs (E_bin opr a b) = dt vs a"
| "dt vs (E_not a) = dt vs a"
| "dt vs (E_assign r e) = ref_data vs r"
| "dt vs (E_store p e) = dt vs p"
| "dt vs (E_addr r) = ref_data vs r"
| "dt vs (E_deref p) = dt vs p"
| "dt vs (E_pre up k) = ref_data vs (R_var k)"
| "dt vs (E_post up k) = ref_data vs (R_var k)"
| "dt vs (E_call c es) = FINSH_DATA_TYPE_VOID"

fun supplied :: "finsh_var list \<Rightarrow> fexp \<Rightarrow> nat" where
  "supplied vs (E_const t w) = 4"
| "supplied vs (E_addr r) = 4"
| "supplied vs (E_call c es) = 4"
| "supplied vs e = width (dt vs e)"

fun well_typed :: "finsh_var list \<Rightarrow> fexp \<Rightarrow> bool" where
  "well_typed vs (E_const t w) \<longleftrightarrow> t \<in> {FINSH_NODE_VALUE_INT, FINSH_NODE_VALUE_LONG, FINSH_NODE_VALUE_STRING, FINSH_NODE_VALUE_NULL}"
| "well_typed vs (E_char c) \<longleftrightarrow> True"
| "well_typed vs (E_ref r) \<longleftrightarrow> scalar (ref_type vs r)"
| "well_typed vs (E_bin opr a b) \<longleftrightarrow> well_typed vs a \<and> well_typed vs b \<and> dt vs a \<noteq> FINSH_DATA_TYPE_VOID \<and>
     width (dt vs a) \<le> supplied vs b"
| "well_typed vs (E_not a) \<longleftrightarrow> well_typed vs a \<and> dt vs a \<noteq> FINSH_DATA_TYPE_VOID"
| "well_typed vs (E_assign r e) \<longleftrightarrow> scalar (ref_type vs r) \<and> well_typed vs e \<and> width (ref_data vs r) \<le> supplied vs e"
| "well_typed vs (E_store p e) \<longleftrightarrow> well_typed vs p \<and> supplied vs p = 4 \<and> dt vs p \<noteq> FINSH_DATA_TYPE_VOID \<and>
     well_typed vs e \<and> width (dt vs p) \<le> supplied vs e"
| "well_typed vs (E_addr r) \<longleftrightarrow> scalar (ref_type vs r)"
| "well_typed vs (E_deref p) \<longleftrightarrow> well_typed vs p \<and> supplied vs p = 4 \<and> dt vs p \<noteq> FINSH_DATA_TYPE_VOID"
| "well_typed vs (E_pre up k) \<longleftrightarrow> k < length vs \<and> scalar (var_type (vs ! k))"
| "well_typed vs (E_post up k) \<longleftrightarrow> k < length vs \<and> scalar (var_type (vs ! k))"
| "well_typed vs (E_call c es) \<longleftrightarrow> length es \<le> 16 \<and> (\<forall>e \<in> set es. well_typed vs e \<and> supplied vs e = 4)"

subsection \<open>Values\<close>

definition low_bytes :: "nat \<Rightarrow> u32 \<Rightarrow> u32" where "low_bytes n v = take_bit (8 * n) v"

definition load_as :: "u8 \<Rightarrow> fmem \<Rightarrow> u32 \<Rightarrow> u32 option" where
  "load_as d m a =
     (if d = FINSH_DATA_TYPE_BYTE then map_option ucast (m a)
      else if d = FINSH_DATA_TYPE_WORD then map_option (\<lambda>bs. ucast (FINSH_GET16 bs)) (bytes_at m a 2)
      else map_option FINSH_GET32 (bytes_at m a 4))"

definition store_as :: "u8 \<Rightarrow> u32 \<Rightarrow> u32 \<Rightarrow> fmem \<Rightarrow> fmem option" where
  "store_as d a v m = poke_bytes a (if d = FINSH_DATA_TYPE_BYTE then [ucast v]
     else if d = FINSH_DATA_TYPE_WORD then FINSH_SET16 (ucast v) else FINSH_SET32 v) m"

definition number_as :: "u8 \<Rightarrow> u32 \<Rightarrow> int" where
  "number_as d v = (if d = FINSH_DATA_TYPE_BYTE then uint (ucast v :: u8)
     else if d = FINSH_DATA_TYPE_WORD then sint (ucast v :: u16) else sint v)"

definition arith :: "u8 \<Rightarrow> c_op \<Rightarrow> u32 \<Rightarrow> u32 \<Rightarrow> u32 option" where
  "arith d f x y = map_option (\<lambda>r. low_bytes (width d) (word_of_int r)) (f (number_as d x) (number_as d y))"

fun eval :: "syscalls \<Rightarrow> u32 \<Rightarrow> finsh_var list \<Rightarrow> fexp \<Rightarrow> fmem \<Rightarrow> (u32 \<times> fmem) option"
  and eval_args :: "syscalls \<Rightarrow> u32 \<Rightarrow> finsh_var list \<Rightarrow> fexp list \<Rightarrow> fmem \<Rightarrow> (u32 list \<times> fmem) option" where
  "eval call gv vs (E_const t w) m = Some (w, m)"
| "eval call gv vs (E_char c) m = Some (ucast c, m)"
| "eval call gv vs (E_ref r) m = do { x \<leftarrow> load_as (ref_data vs r) m (ref_at gv r); Some (x, m) }"
| "eval call gv vs (E_bin opr a b) m = do {
     (x, m) \<leftarrow> eval call gv vs a m; (y, m) \<leftarrow> eval call gv vs b m;
     r \<leftarrow> arith (dt vs a) (op_fun opr) x y; Some (r, m) }"
| "eval call gv vs (E_not a) m = do { (x, m) \<leftarrow> eval call gv vs a m; Some (low_bytes (width (dt vs a)) (NOT x), m) }"
| "eval call gv vs (E_assign r e) m = do {
     (x, m) \<leftarrow> eval call gv vs e m;
     m \<leftarrow> store_as (ref_data vs r) (ref_at gv r) x m; Some (low_bytes (width (ref_data vs r)) x, m) }"
| "eval call gv vs (E_store p e) m = do {
     (a, m) \<leftarrow> eval call gv vs p m; (x, m) \<leftarrow> eval call gv vs e m;
     m \<leftarrow> store_as (dt vs p) a x m; Some (low_bytes (width (dt vs p)) x, m) }"
| "eval call gv vs (E_addr r) m = Some (ref_at gv r, m)"
| "eval call gv vs (E_deref p) m = do {
     (a, m) \<leftarrow> eval call gv vs p m; x \<leftarrow> load_as (dt vs p) m a; Some (x, m) }"
| "eval call gv vs (E_pre up k) m = do {
     x \<leftarrow> load_as (ref_data vs (R_var k)) m (var_value gv k);
     y \<leftarrow> arith (ref_data vs (R_var k)) (if up then c_add else c_sub) x 1;
     m \<leftarrow> store_as (ref_data vs (R_var k)) (var_value gv k) y m; Some (y, m) }"
| "eval call gv vs (E_post up k) m = do {
     x \<leftarrow> load_as (ref_data vs (R_var k)) m (var_value gv k);
     y \<leftarrow> arith (ref_data vs (R_var k)) (if up then c_add else c_sub) x 1;
     m \<leftarrow> store_as (ref_data vs (R_var k)) (var_value gv k) y m; Some (x, m) }"
| "eval call gv vs (E_call c es) m = do {
     (xs, m) \<leftarrow> eval_args call gv vs es m;
     call (syscall_func c) (if xs = [] then [0] else xs) m }"
| "eval_args call gv vs [] m = Some ([], m)"
| "eval_args call gv vs (e # es) m = do {
     (x, m) \<leftarrow> eval call gv vs e m; (xs, m) \<leftarrow> eval_args call gv vs es m; Some (x # xs, m) }"

text \<open>The statements of a line; the value is that of the last one.\<close>

fun eval_line :: "syscalls \<Rightarrow> u32 \<Rightarrow> finsh_var list \<Rightarrow> fexp list \<Rightarrow> fmem \<Rightarrow> (u32 \<times> fmem) option" where
  "eval_line call gv vs [] m = None"
| "eval_line call gv vs [e] m = eval call gv vs e m"
| "eval_line call gv vs (e # f # es) m = do { (_, m) \<leftarrow> eval call gv vs e m; eval_line call gv vs (f # es) m }"

subsection \<open>Trees\<close>

definition ref_node :: "fref \<Rightarrow> u8 \<Rightarrow> u8 \<Rightarrow> fnode \<Rightarrow> fnode" where
  "ref_node r d it sib = FNode FINSH_NODE_ID d (it OR (case r of R_var k \<Rightarrow> FINSH_IDTYPE_VAR | R_sys v \<Rightarrow> FINSH_IDTYPE_SYSVAR)) 0
     (case r of R_var k \<Rightarrow> Id_var k | R_sys v \<Rightarrow> Id_sysvar v) sib Null"

definition sys_node :: "fnode_type \<Rightarrow> u8 \<Rightarrow> u8 \<Rightarrow> fnode \<Rightarrow> fnode \<Rightarrow> fnode" where
  "sys_node t d it sib ch = FNode t d it 0 Id_none sib ch"

text \<open>The tree that the parser makes of an expression, and the same after the type check.\<close>

fun node_of :: "fexp \<Rightarrow> fnode \<Rightarrow> fnode" and nodes_of :: "fexp list \<Rightarrow> fnode" where
  "node_of (E_const t w) sib = FNode t 0 0 w Id_none sib Null"
| "node_of (E_char c) sib = FNode FINSH_NODE_VALUE_CHAR 0 0 (ucast c) Id_none sib Null"
| "node_of (E_ref r) sib = ref_node r 0 0 sib"
| "node_of (E_bin opr a b) sib = sys_node (op_node opr) 0 0 sib (node_of a (node_of b Null))"
| "node_of (E_not a) sib = sys_node FINSH_NODE_SYS_BITWISE 0 0 sib (node_of a Null)"
| "node_of (E_assign r e) sib = sys_node FINSH_NODE_SYS_ASSIGN 0 0 sib (ref_node r 0 0 (node_of e Null))"
| "node_of (E_store p e) sib = sys_node FINSH_NODE_SYS_ASSIGN 0 0 sib
     (sys_node FINSH_NODE_SYS_GETVALUE 0 0 (node_of e Null) (node_of p Null))"
| "node_of (E_addr r) sib = sys_node FINSH_NODE_SYS_GETADDR 0 0 sib (ref_node r 0 0 Null)"
| "node_of (E_deref p) sib = sys_node FINSH_NODE_SYS_GETVALUE 0 0 sib (node_of p Null)"
| "node_of (E_pre up k) sib = sys_node (if up then FINSH_NODE_SYS_PREINC else FINSH_NODE_SYS_PREDEC) 0 0 sib (ref_node (R_var k) 0 0 Null)"
| "node_of (E_post up k) sib = sys_node (if up then FINSH_NODE_SYS_INC else FINSH_NODE_SYS_DEC) 0 0 sib (ref_node (R_var k) 0 0 Null)"
| "node_of (E_call c es) sib = sys_node FINSH_NODE_SYS_FUNC 0 0 sib
     (FNode FINSH_NODE_ID 0 FINSH_IDTYPE_SYSCALL 0 (Id_syscall c) (nodes_of es) Null)"
| "nodes_of [] = Null"
| "nodes_of (e # es) = node_of e (nodes_of es)"

fun typed :: "finsh_var list \<Rightarrow> fexp \<Rightarrow> fnode \<Rightarrow> fnode" and typed_list :: "finsh_var list \<Rightarrow> fexp list \<Rightarrow> fnode" where
  "typed vs (E_const t w) sib = FNode t FINSH_DATA_TYPE_DWORD 0 w Id_none sib Null"
| "typed vs (E_char c) sib = FNode FINSH_NODE_VALUE_CHAR FINSH_DATA_TYPE_BYTE 0 (ucast c) Id_none sib Null"
| "typed vs (E_ref r) sib = ref_node r (ref_data vs r) 0 sib"
| "typed vs (E_bin opr a b) sib = sys_node (op_node opr) (dt vs a) 0 sib (typed vs a (typed vs b Null))"
| "typed vs (E_not a) sib = sys_node FINSH_NODE_SYS_BITWISE (dt vs a) 0 sib (typed vs a Null)"
| "typed vs (E_assign r e) sib = sys_node FINSH_NODE_SYS_ASSIGN (ref_data vs r) 0 sib
     (ref_node r (ref_data vs r) FINSH_IDTYPE_ADDRESS (typed vs e Null))"
| "typed vs (E_store p e) sib = sys_node FINSH_NODE_SYS_ASSIGN (dt vs p) 0 sib
     (sys_node FINSH_NODE_SYS_GETVALUE (dt vs p) FINSH_IDTYPE_ADDRESS (typed vs e Null) (typed vs p Null))"
| "typed vs (E_addr r) sib = sys_node FINSH_NODE_SYS_GETADDR (ref_data vs r) 0 sib (ref_node r (ref_data vs r) FINSH_IDTYPE_ADDRESS Null)"
| "typed vs (E_deref p) sib = sys_node FINSH_NODE_SYS_GETVALUE (dt vs p) 0 sib (typed vs p Null)"
| "typed vs (E_pre up k) sib = sys_node (if up then FINSH_NODE_SYS_PREINC else FINSH_NODE_SYS_PREDEC) (ref_data vs (R_var k)) 0 sib
     (ref_node (R_var k) (ref_data vs (R_var k)) FINSH_IDTYPE_ADDRESS Null)"
| "typed vs (E_post up k) sib = sys_node (if up then FINSH_NODE_SYS_INC else FINSH_NODE_SYS_DEC) (ref_data vs (R_var k)) 0 sib
     (ref_node (R_var k) (ref_data vs (R_var k)) 0 Null)"
| "typed vs (E_call c es) sib = sys_node FINSH_NODE_SYS_FUNC FINSH_DATA_TYPE_VOID 0 sib
     (FNode FINSH_NODE_ID FINSH_DATA_TYPE_VOID FINSH_IDTYPE_SYSCALL 0 (Id_syscall c) (typed_list vs es) Null)"
| "typed_list vs [] = Null"
| "typed_list vs (e # es) = typed vs e (typed_list vs es)"

subsection \<open>The type check marks and types the nodes\<close>

lemma data_type_cases: "d = FINSH_DATA_TYPE_BYTE \<or> d = FINSH_DATA_TYPE_WORD \<or> d = FINSH_DATA_TYPE_DWORD \<Longrightarrow>
    (d = FINSH_DATA_TYPE_BYTE \<Longrightarrow> P) \<Longrightarrow> (d = FINSH_DATA_TYPE_WORD \<Longrightarrow> P) \<Longrightarrow> (d = FINSH_DATA_TYPE_DWORD \<Longrightarrow> P) \<Longrightarrow> P"
  by blast

lemma scalar_data: "scalar t \<Longrightarrow> \<exists>d. type_of_var t = Some d \<and>
    (d = FINSH_DATA_TYPE_BYTE \<or> d = FINSH_DATA_TYPE_WORD \<or> d = FINSH_DATA_TYPE_DWORD)"
  by (cases t) (simp_all add: scalar_def type_of_var_def)

lemma ref_data_cases: "scalar (ref_type vs r) \<Longrightarrow>
    ref_data vs r = FINSH_DATA_TYPE_BYTE \<or> ref_data vs r = FINSH_DATA_TYPE_WORD \<or> ref_data vs r = FINSH_DATA_TYPE_DWORD"
  using scalar_data [of "ref_type vs r"] by (auto simp: ref_data_def)

lemma ref_type_var: "ref_type vs (R_var k) = var_type (vs ! k)"
  by (simp add: ref_type_def)

lemma dt_cases: "well_typed vs e \<Longrightarrow> dt vs e \<noteq> FINSH_DATA_TYPE_VOID \<Longrightarrow>
    dt vs e = FINSH_DATA_TYPE_BYTE \<or> dt vs e = FINSH_DATA_TYPE_WORD \<or> dt vs e = FINSH_DATA_TYPE_DWORD"
  by (induction e) (simp_all add: ref_data_cases ref_type_var)

lemma data_type_typed: "typed vs e sib \<noteq> Null" "data_type (typed vs e sib) = dt vs e"
  by (cases e; simp add: ref_node_def sys_node_def)+

lemma leaf_type_keeps: "leaf_type t it i d s = (d', s') \<Longrightarrow> global_variable s' = global_variable s"
  by (auto simp: leaf_type_def set_type_of_var_def finsh_error_set_def split: if_splits finsh_id.splits option.splits)

lemma type_check_keeps: "finsh_type_check n a s = (n', s') \<Longrightarrow> global_variable s' = global_variable s"
proof (induction n a s arbitrary: n' s' rule: finsh_type_check.induct)
  case (2 t d it v i sib ch a s)
  obtain ch1 s1 where c: "finsh_type_check ch (passed_down t a) s = (ch1, s1)" by fastforce
  obtain sib1 s2 where b: "finsh_type_check sib FINSH_NODE_VALUE s1 = (sib1, s2)" by fastforce
  obtain d3 s3 where l: "(if ch1 \<noteq> Null then (data_type ch1, s2)
      else leaf_type t (if it \<noteq> FINSH_IDTYPE_SYSCALL then it OR a else it) i d s2) = (d3, s3)" by fastforce
  have "global_variable s3 = global_variable s2"
    using l by (auto split: if_splits dest: leaf_type_keeps)
  moreover have "s' = s3" using "2.prems" b c l by (simp add: Let_def split: if_splits)
  ultimately show ?case using "2.IH"(1) [OF c] "2.IH"(2) [OF c [symmetric] refl b] by simp
qed simp

lemma ref_check:
  assumes "scalar (ref_type (global_variable s) r)" "a = 0 \<or> a = FINSH_IDTYPE_ADDRESS"
    "finsh_type_check sib 0 s = (sib', s')"
  shows "finsh_type_check (ref_node r 0 0 sib) a s = (ref_node r (ref_data (global_variable s) r) a sib', s')"
proof -
  have g: "global_variable s' = global_variable s" by (rule type_check_keeps [OF assms(3)])
  show ?thesis
    using scalar_data [OF assms(1)] assms(2,3) g
    by (cases r) (auto simp: ref_node_def leaf_type_def finsh_idtypes set_type_of_var_def ref_data_def ref_type_def Let_def)
qed

lemma sys_check:
  assumes "finsh_type_check ch (passed_down t a) s = (ch', s)" "ch' \<noteq> Null" "finsh_type_check sib 0 s = (sib', s')"
  shows "finsh_type_check (sys_node t 0 0 sib ch) a s = (sys_node t (data_type ch') a sib' ch', s')"
  using assms by (simp add: sys_node_def finsh_idtypes)

lemma data_type_sys_node [simp]: "data_type (sys_node t d it sib ch) = d" "sys_node t d it sib ch \<noteq> Null"
  "data_type (ref_node r d it sib) = d" "ref_node r d it sib \<noteq> Null"
  by (simp_all add: sys_node_def ref_node_def)

lemma call_check:
  assumes "finsh_type_check sib 0 s = (sib', s')"
  shows "finsh_type_check (FNode FINSH_NODE_ID 0 FINSH_IDTYPE_SYSCALL 0 (Id_syscall c) sib Null) 0 s =
    (FNode FINSH_NODE_ID FINSH_DATA_TYPE_VOID FINSH_IDTYPE_SYSCALL 0 (Id_syscall c) sib' Null, s')"
  using assms by (simp add: leaf_type_def finsh_idtypes finsh_data_types)

lemma type_check_typed:
  "well_typed vs e \<Longrightarrow> global_variable s = vs \<Longrightarrow> finsh_type_check sib 0 s = (sib', s') \<Longrightarrow>
    finsh_type_check (node_of e sib) 0 s = (typed vs e sib', s')"
  "\<forall>e \<in> set es. well_typed vs e \<Longrightarrow> global_variable s = vs \<Longrightarrow>
    finsh_type_check (nodes_of es) 0 s = (typed_list vs es, s)"
proof (induction e sib and es arbitrary: s sib' s' and s rule: node_of_nodes_of.induct)
  case (1 t w sib)
  then show ?case by (auto simp: leaf_type_def finsh_idtypes)
next
  case (2 c sib)
  then show ?case by (auto simp: leaf_type_def finsh_idtypes)
next
  case (3 r sib)
  then show ?case using ref_check [of s r 0 sib sib' s'] by simp
next
  case (4 opr a b sib)
  have "finsh_type_check (node_of a (node_of b Null)) 0 s = (typed vs a (typed vs b Null), s)"
    using 4 by simp
  from sys_check [where t = "op_node opr" and a = 0 and ch = "node_of a (node_of b Null)", OF _ _ 4(5)] this
  show ?case by (cases opr) (simp_all add: passed_down_def data_type_typed)
next
  case (5 a sib)
  then show ?case using sys_check [where t = FINSH_NODE_SYS_BITWISE and a = 0 and ch = "node_of a Null", OF _ _ 5(4)]
    by (simp add: passed_down_def data_type_typed)
next
  case (6 r e sib)
  have "finsh_type_check (ref_node r 0 0 (node_of e Null)) FINSH_IDTYPE_ADDRESS s =
      (ref_node r (ref_data vs r) FINSH_IDTYPE_ADDRESS (typed vs e Null), s)"
    using 6 ref_check [of s r FINSH_IDTYPE_ADDRESS] by simp
  then show ?case using sys_check [where t = FINSH_NODE_SYS_ASSIGN and a = 0, OF _ _ 6(4)] by (simp add: passed_down_def)
next
  case (7 p e sib)
  have "finsh_type_check (sys_node FINSH_NODE_SYS_GETVALUE 0 0 (node_of e Null) (node_of p Null)) FINSH_IDTYPE_ADDRESS s =
      (sys_node FINSH_NODE_SYS_GETVALUE (dt vs p) FINSH_IDTYPE_ADDRESS (typed vs e Null) (typed vs p Null), s)"
    using 7 sys_check [where t = FINSH_NODE_SYS_GETVALUE and a = FINSH_IDTYPE_ADDRESS]
    by (simp add: passed_down_def data_type_typed finsh_idtypes)
  then show ?case using sys_check [where t = FINSH_NODE_SYS_ASSIGN and a = 0, OF _ _ 7(5)] by (simp add: passed_down_def)
next
  case (8 r sib)
  have "finsh_type_check (ref_node r 0 0 Null) FINSH_IDTYPE_ADDRESS s = (ref_node r (ref_data vs r) FINSH_IDTYPE_ADDRESS Null, s)"
    using 8 ref_check [of s r FINSH_IDTYPE_ADDRESS] by simp
  then show ?case using sys_check [where t = FINSH_NODE_SYS_GETADDR and a = 0, OF _ _ 8(3)] by (simp add: passed_down_def)
next
  case (9 p sib)
  then show ?case using sys_check [where t = FINSH_NODE_SYS_GETVALUE and a = 0 and ch = "node_of p Null", OF _ _ 9(4)]
    by (simp add: passed_down_def data_type_typed)
next
  case (10 up k sib)
  have "finsh_type_check (ref_node (R_var k) 0 0 Null) FINSH_IDTYPE_ADDRESS s =
      (ref_node (R_var k) (ref_data vs (R_var k)) FINSH_IDTYPE_ADDRESS Null, s)"
    using 10 ref_check [of s "R_var k" FINSH_IDTYPE_ADDRESS] by (simp add: ref_type_def)
  then show ?case
    using sys_check [where t = "if up then FINSH_NODE_SYS_PREINC else FINSH_NODE_SYS_PREDEC" and a = 0, OF _ _ 10(3)] by (simp add: passed_down_def)
next
  case (11 up k sib)
  have "finsh_type_check (ref_node (R_var k) 0 0 Null) 0 s = (ref_node (R_var k) (ref_data vs (R_var k)) 0 Null, s)"
    using 11 ref_check [of s "R_var k" 0] by (simp add: ref_type_def)
  then show ?case
    using sys_check [where t = "if up then FINSH_NODE_SYS_INC else FINSH_NODE_SYS_DEC" and a = 0, OF _ _ 11(3)] by (simp add: passed_down_def)
next
  case (12 c es sib)
  then show ?case using sys_check [where t = FINSH_NODE_SYS_FUNC and a = 0, OF _ _ 12(4)] call_check [of "nodes_of es"] by (simp add: passed_down_def)
next
  case (14 e es)
  then show ?case by simp
qed simp

subsection \<open>The code of an expression\<close>

definition load_code :: "finsh_var list \<Rightarrow> u32 \<Rightarrow> fref \<Rightarrow> u8 list" where
  "load_code vs gv r = width_op (ref_data vs r) FINSH_OP_LD_VALUE_BYTE FINSH_OP_LD_VALUE_WORD FINSH_OP_LD_VALUE_DWORD
     # FINSH_SET32 (ref_at gv r)"

definition address_code :: "u32 \<Rightarrow> fref \<Rightarrow> u8 list" where
  "address_code gv r = FINSH_OP_LD_DWORD # FINSH_SET32 (ref_at gv r)"

definition one_code :: "u8 \<Rightarrow> u8 list" where
  "one_code d = (if d = FINSH_DATA_TYPE_BYTE then [FINSH_OP_LD_BYTE, 1]
     else if d = FINSH_DATA_TYPE_WORD then FINSH_OP_LD_WORD # FINSH_SET16 1 else FINSH_OP_LD_DWORD # FINSH_SET32 1)"

definition st_op :: "u8 \<Rightarrow> u8" where "st_op d = width_op d FINSH_OP_ST_BYTE FINSH_OP_ST_WORD FINSH_OP_ST_DWORD"

definition deref_op :: "u8 \<Rightarrow> u8" where
  "deref_op d = width_op d FINSH_OP_LD_VALUE_BYTE_STACK FINSH_OP_LD_VALUE_WORD_STACK FINSH_OP_LD_VALUE_DWORD_STACK"

definition not_op :: "u8 \<Rightarrow> u8" where
  "not_op d = width_op d FINSH_OP_BITWISE_BYTE FINSH_OP_BITWISE_WORD FINSH_OP_BITWISE_DWORD"

fun code :: "u32 \<Rightarrow> finsh_var list \<Rightarrow> fexp \<Rightarrow> u8 list" and codes :: "u32 \<Rightarrow> finsh_var list \<Rightarrow> fexp list \<Rightarrow> u8 list" where
  "code gv vs (E_const t w) = FINSH_OP_LD_DWORD # FINSH_SET32 w"
| "code gv vs (E_char c) = [FINSH_OP_LD_BYTE, c]"
| "code gv vs (E_ref r) = load_code vs gv r"
| "code gv vs (E_bin opr a b) = code gv vs a @ code gv vs b @ [op_code opr (dt vs a)]"
| "code gv vs (E_not a) = code gv vs a @ [not_op (dt vs a)]"
| "code gv vs (E_assign r e) = address_code gv r @ code gv vs e @ [st_op (ref_data vs r), deref_op (ref_data vs r)]"
| "code gv vs (E_store p e) = code gv vs p @ code gv vs e @ [st_op (dt vs p), deref_op (dt vs p)]"
| "code gv vs (E_addr r) = address_code gv r"
| "code gv vs (E_deref p) = code gv vs p @ [deref_op (dt vs p)]"
| "code gv vs (E_pre up k) = (let d = ref_data vs (R_var k) in
     address_code gv (R_var k) @ load_code vs gv (R_var k) @ one_code d @
     [op_code (if up then B_add else B_sub) d, st_op d, FINSH_OP_LD_VALUE_DWORD_STACK])"
| "code gv vs (E_post up k) = (let d = ref_data vs (R_var k) in
     load_code vs gv (R_var k) @ address_code gv (R_var k) @ load_code vs gv (R_var k) @ one_code d @
     [op_code (if up then B_add else B_sub) d, st_op d, FINSH_OP_POP])"
| "code gv vs (E_call c es) = (FINSH_OP_LD_DWORD # FINSH_SET32 (syscall_func c)) @ codes gv vs es @
     [FINSH_OP_SYSCALL, of_nat (length es)]"
| "codes gv vs [] = []"
| "codes gv vs (e # es) = code gv vs e @ codes gv vs es"

fun line_code :: "u32 \<Rightarrow> finsh_var list \<Rightarrow> fexp list \<Rightarrow> u8 list" where
  "line_code gv vs [] = []"
| "line_code gv vs [e] = code gv vs e"
| "line_code gv vs (e # f # es) = code gv vs e @ [FINSH_OP_POP] @ line_code gv vs (f # es)"

lemma finsh_code_append: "finsh_code (a @ b) s = Option.bind (finsh_code a s) (finsh_code b)"
  by (induction a arbitrary: s) (auto intro: Option.bind_cong)

lemma finsh_code_keeps: "finsh_code bs s = Some s' \<Longrightarrow> global_variable s' = global_variable s"
  by (induction bs arbitrary: s) (auto simp: Option.bind_eq_Some_conv finsh_code_byte_def split: if_splits)

lemma finsh_code_bind:
  assumes "\<And>s'. global_variable s' = global_variable s \<Longrightarrow> f s' = g s'"
  shows "Option.bind (finsh_code a s) f = Option.bind (finsh_code a s) g"
  by (rule Option.bind_cong [OF refl]) (rule assms, rule finsh_code_keeps)

lemma code_for_cases:
  assumes "d = FINSH_DATA_TYPE_BYTE \<or> d = FINSH_DATA_TYPE_WORD \<or> d = FINSH_DATA_TYPE_DWORD"
  shows "code_for d [b] [w] [l] s = finsh_code [width_op d b w l] s"
    "compile_assign d s = finsh_code [st_op d, deref_op d] s" "d AND 0x0F = d"
    "code_for d [FINSH_OP_LD_VALUE_BYTE_STACK] [FINSH_OP_LD_VALUE_WORD_STACK] [FINSH_OP_LD_VALUE_DWORD_STACK] s =
      finsh_code [deref_op d] s"
  using assms by (auto simp: code_for_def width_op_def finsh_data_types compile_assign_def st_op_def deref_op_def)

lemma compile_ref:
  assumes "scalar (ref_type (global_variable s) r)" "a = 0 \<or> a = FINSH_IDTYPE_ADDRESS"
  shows "finsh_compile gv (ref_node r d a sib) s = Option.bind
     (finsh_code (if a = 0 then load_code (global_variable s) gv r else address_code gv r) s) (finsh_compile gv sib)"
proof -
  have "compile_var (ref_type (global_variable s) r) (a OR it) (ref_at gv r) s =
      finsh_code (if a = 0 then load_code (global_variable s) gv r else address_code gv r) s"
    if "it = FINSH_IDTYPE_VAR \<or> it = FINSH_IDTYPE_SYSVAR" for it
    using assms that unfolding compile_var_def load_code_def address_code_def ref_data_def
    by (cases "ref_type (global_variable s) r")
      (auto simp: scalar_def type_of_var_def width_op_def finsh_data_types finsh_idtypes)
  from this [of FINSH_IDTYPE_VAR] this [of FINSH_IDTYPE_SYSVAR] show ?thesis
    using assms(2) by (cases r) (auto simp: ref_node_def compile_node_def compile_id_def finsh_idtypes ref_type_def ref_at_def)
qed

lemma compile_Null [simp]: "Option.bind x (finsh_compile gv Null) = x"
  by (cases x) simp_all

lemma compile_sys:
  assumes "finsh_compile gv ch s = finsh_code xs s"
    "\<And>s'. global_variable s' = global_variable s \<Longrightarrow> compile_node gv (sys_node t d it sib ch) s' = finsh_code ys s'"
  shows "finsh_compile gv (sys_node t d it sib ch) s = Option.bind (finsh_code (xs @ ys) s) (finsh_compile gv sib)"
proof -
  have "finsh_compile gv (sys_node t d it sib ch) s =
      Option.bind (finsh_code xs s) (\<lambda>s. Option.bind (compile_node gv (sys_node t d it sib ch) s) (finsh_compile gv sib))"
    using assms(1) by (simp add: sys_node_def)
  also have "\<dots> = Option.bind (finsh_code xs s) (\<lambda>s. Option.bind (finsh_code ys s) (finsh_compile gv sib))"
    by (rule finsh_code_bind) (simp add: assms(2))
  finally show ?thesis by (simp add: finsh_code_append)
qed

lemma count_siblings_typed: "count_siblings (typed vs e sib) = Suc (count_siblings sib)"
  "count_siblings (typed_list vs es) = length es"
proof -
  show a: "count_siblings (typed vs e sib) = Suc (count_siblings sib)" for e sib
    by (cases e) (simp_all add: sys_node_def ref_node_def)
  show "count_siblings (typed_list vs es) = length es" by (induction es) (simp_all add: a)
qed

lemma node_simps [simp]:
  "node_type (sys_node t d it sib ch) = t" "idtype (sys_node t d it sib ch) = it" "child (sys_node t d it sib ch) = ch"
  "sibling (sys_node t d it sib ch) = sib" "node_type (ref_node r d it sib) = FINSH_NODE_ID"
  "node_id (ref_node (R_var k) d it sib) = Id_var k" "sibling (ref_node r d it sib) = sib"
  by (simp_all add: sys_node_def ref_node_def)

lemma op_node_code:
  assumes "d = FINSH_DATA_TYPE_BYTE \<or> d = FINSH_DATA_TYPE_WORD \<or> d = FINSH_DATA_TYPE_DWORD"
  shows "compile_node gv (sys_node (op_node opr) d it sib ch) s = finsh_code [op_code opr d] s"
  by (cases opr) (simp_all add: compile_node_def code_for_cases [OF assms])

lemma increment_code:
  assumes "d = FINSH_DATA_TYPE_BYTE \<or> d = FINSH_DATA_TYPE_WORD \<or> d = FINSH_DATA_TYPE_DWORD"
    "d = ref_data vs (R_var k)"
  shows "compile_node gv (sys_node (if up then FINSH_NODE_SYS_PREINC else FINSH_NODE_SYS_PREDEC) d it sib (ref_node (R_var k) d' it' sib')) s =
      finsh_code (load_code vs gv (R_var k) @ one_code d @ [op_code (if up then B_add else B_sub) d, st_op d, FINSH_OP_LD_VALUE_DWORD_STACK]) s"
    "compile_node gv (sys_node (if up then FINSH_NODE_SYS_INC else FINSH_NODE_SYS_DEC) d it sib (ref_node (R_var k) d' it' sib')) s =
      finsh_code (address_code gv (R_var k) @ load_code vs gv (R_var k) @ one_code d @
        [op_code (if up then B_add else B_sub) d, st_op d, FINSH_OP_POP]) s"
  using assms unfolding load_code_def address_code_def one_code_def st_op_def width_op_def
  by (auto simp: compile_node_def with_child_def compile_preinc_def compile_postinc_def code_for_def id_var_value_def
      ref_at_def finsh_data_types width_op_def)

lemma ucast_back [simp]: "ucast (ucast c :: u32) = (c :: u8)" "ucast (ucast h :: u32) = (h :: u16)"
  by (rule bit_word_eqI, simp add: bit_ucast_iff)+

lemma compile_typed:
  "well_typed vs e \<Longrightarrow> global_variable s = vs \<Longrightarrow>
    finsh_compile gv (typed vs e sib) s = Option.bind (finsh_code (code gv vs e) s) (finsh_compile gv sib)"
  "\<forall>e \<in> set es. well_typed vs e \<Longrightarrow> global_variable s = vs \<Longrightarrow>
    finsh_compile gv (typed_list vs es) s = finsh_code (codes gv vs es) s"
proof (induction vs e sib and vs es arbitrary: s and s rule: typed_typed_list.induct)
  case (1 vs t w sib)
  then show ?case by (auto simp: compile_node_def)
next
  case (2 vs c sib)
  then show ?case by (simp add: compile_node_def)
next
  case (3 vs r sib)
  then show ?case using compile_ref [of s r 0] by simp
next
  case (4 vs opr a b sib)
  have ab: "finsh_compile gv (typed vs a (typed vs b Null)) s = finsh_code (code gv vs a @ code gv vs b) s"
  proof -
    have "finsh_compile gv (typed vs a (typed vs b Null)) s = Option.bind (finsh_code (code gv vs a) s) (finsh_compile gv (typed vs b Null))"
      using 4 by simp
    also have "\<dots> = Option.bind (finsh_code (code gv vs a) s) (finsh_code (code gv vs b))"
      by (rule finsh_code_bind) (use 4 in simp)
    finally show ?thesis by (simp add: finsh_code_append)
  qed
  show ?case using 4(3) compile_sys [OF ab op_node_code [OF dt_cases]] by simp
next
  case (5 vs a sib)
  have n: "compile_node gv (sys_node FINSH_NODE_SYS_BITWISE (dt vs a) 0 sib (typed vs a Null)) s' = finsh_code [not_op (dt vs a)] s'" for s'
    using 5(2) by (simp add: compile_node_def code_for_cases [OF dt_cases] not_op_def)
  show ?case using 5 compile_sys [OF _ n] by simp
next
  case (6 vs r e sib)
  have "finsh_compile gv (ref_node r (ref_data vs r) FINSH_IDTYPE_ADDRESS (typed vs e Null)) s =
      Option.bind (finsh_code (address_code gv r) s) (finsh_compile gv (typed vs e Null))"
    using 6 compile_ref [of s r FINSH_IDTYPE_ADDRESS] by (simp add: finsh_idtypes)
  also have "\<dots> = Option.bind (finsh_code (address_code gv r) s) (finsh_code (code gv vs e))"
    by (rule finsh_code_bind) (use 6 in simp)
  finally have c: "finsh_compile gv (ref_node r (ref_data vs r) FINSH_IDTYPE_ADDRESS (typed vs e Null)) s =
      finsh_code (address_code gv r @ code gv vs e) s" by (simp add: finsh_code_append)
  have n: "compile_node gv (sys_node FINSH_NODE_SYS_ASSIGN (ref_data vs r) 0 sib
      (ref_node r (ref_data vs r) FINSH_IDTYPE_ADDRESS (typed vs e Null))) s' = finsh_code [st_op (ref_data vs r), deref_op (ref_data vs r)] s'" for s'
    using 6(2) ref_data_cases [of vs r] by (simp add: compile_node_def with_child_def code_for_cases)
  show ?case using compile_sys [OF c n] by simp
next
  case (7 vs p e sib)
  have d: "dt vs p = FINSH_DATA_TYPE_BYTE \<or> dt vs p = FINSH_DATA_TYPE_WORD \<or> dt vs p = FINSH_DATA_TYPE_DWORD"
    using 7(3) dt_cases [of vs p] by simp
  have "compile_node gv (sys_node FINSH_NODE_SYS_GETVALUE (dt vs p) FINSH_IDTYPE_ADDRESS (typed vs e Null) (typed vs p Null)) s' =
      finsh_code [] s'" for s' by (simp add: compile_node_def finsh_idtypes)
  then have "finsh_compile gv (sys_node FINSH_NODE_SYS_GETVALUE (dt vs p) FINSH_IDTYPE_ADDRESS (typed vs e Null) (typed vs p Null)) s =
      Option.bind (finsh_code (code gv vs p @ []) s) (finsh_compile gv (typed vs e Null))"
    by (intro compile_sys) (use 7 in simp_all)
  also have "\<dots> = Option.bind (finsh_code (code gv vs p @ []) s) (finsh_code (code gv vs e))"
    by (rule finsh_code_bind) (use 7 in simp)
  finally have c: "finsh_compile gv (sys_node FINSH_NODE_SYS_GETVALUE (dt vs p) FINSH_IDTYPE_ADDRESS (typed vs e Null) (typed vs p Null)) s =
      finsh_code (code gv vs p @ code gv vs e) s" by (simp add: finsh_code_append)
  have n: "compile_node gv (sys_node FINSH_NODE_SYS_ASSIGN (dt vs p) 0 sib
      (sys_node FINSH_NODE_SYS_GETVALUE (dt vs p) FINSH_IDTYPE_ADDRESS (typed vs e Null) (typed vs p Null))) s' =
      finsh_code [st_op (dt vs p), deref_op (dt vs p)] s'" for s'
    by (simp add: compile_node_def with_child_def code_for_cases [OF d])
  show ?case using compile_sys [OF c n] by simp
next
  case (8 vs r sib)
  have c: "finsh_compile gv (ref_node r (ref_data vs r) FINSH_IDTYPE_ADDRESS Null) s = finsh_code (address_code gv r) s"
    using 8 compile_ref [of s r FINSH_IDTYPE_ADDRESS gv _ Null] by (simp add: finsh_idtypes)
  show ?case using compile_sys [OF c, where ys = "[]" and t = FINSH_NODE_SYS_GETADDR] by (simp add: compile_node_def)
next
  case (9 vs p sib)
  have n: "compile_node gv (sys_node FINSH_NODE_SYS_GETVALUE (dt vs p) 0 sib (typed vs p Null)) s' = finsh_code [deref_op (dt vs p)] s'" for s'
    using 9(2) by (simp add: compile_node_def code_for_cases [OF dt_cases] deref_op_def)
  show ?case using 9 compile_sys [OF _ n] by simp
next
  case (10 vs up k sib)
  have c: "finsh_compile gv (ref_node (R_var k) (ref_data vs (R_var k)) FINSH_IDTYPE_ADDRESS Null) s = finsh_code (address_code gv (R_var k)) s"
    using 10 compile_ref [of s "R_var k" FINSH_IDTYPE_ADDRESS gv _ Null] by (simp add: finsh_idtypes ref_type_var)
  show ?case using compile_sys [OF c increment_code(1) [OF ref_data_cases refl]] 10 by (simp add: Let_def ref_type_var)
next
  case (11 vs up k sib)
  have c: "finsh_compile gv (ref_node (R_var k) (ref_data vs (R_var k)) 0 Null) s = finsh_code (load_code vs gv (R_var k)) s"
    using 11 compile_ref [of s "R_var k" 0 gv _ Null] by (simp add: ref_type_var)
  show ?case using compile_sys [OF c increment_code(2) [OF ref_data_cases refl]] 11 by (simp add: Let_def ref_type_var)
next
  case (12 vs c es sib)
  let ?c = "FNode FINSH_NODE_ID FINSH_DATA_TYPE_VOID FINSH_IDTYPE_SYSCALL 0 (Id_syscall c) (typed_list vs es) Null"
  have "finsh_compile gv ?c s = Option.bind (finsh_code (FINSH_OP_LD_DWORD # FINSH_SET32 (syscall_func c)) s) (finsh_compile gv (typed_list vs es))"
    by (simp add: compile_node_def compile_id_def finsh_idtypes)
  also have "\<dots> = Option.bind (finsh_code (FINSH_OP_LD_DWORD # FINSH_SET32 (syscall_func c)) s) (finsh_code (codes gv vs es))"
    by (rule finsh_code_bind) (use 12 in simp)
  finally have c: "finsh_compile gv ?c s = finsh_code ((FINSH_OP_LD_DWORD # FINSH_SET32 (syscall_func c)) @ codes gv vs es) s"
    by (simp only: finsh_code_append)
  have n: "compile_node gv (sys_node FINSH_NODE_SYS_FUNC FINSH_DATA_TYPE_VOID 0 sib ?c) s' =
      finsh_code [FINSH_OP_SYSCALL, of_nat (length es)] s'" for s'
    by (simp add: compile_node_def with_child_def count_siblings_typed)
  show ?case using compile_sys [OF c n] by simp
next
  case (14 vs e es)
  have "finsh_compile gv (typed_list vs (e # es)) s = Option.bind (finsh_code (code gv vs e) s) (finsh_compile gv (typed_list vs es))"
    using 14 by simp
  also have "\<dots> = Option.bind (finsh_code (code gv vs e) s) (finsh_code (codes gv vs es))"
    by (rule finsh_code_bind) (use 14 in simp)
  finally show ?case by (simp add: finsh_code_append)
qed simp

subsection \<open>Lines\<close>

fun line_node :: "fexp list \<Rightarrow> fnode" where
  "line_node [] = Null"
| "line_node (e # es) = node_of e (line_node es)"

fun typed_line :: "finsh_var list \<Rightarrow> fexp list \<Rightarrow> fnode" where
  "typed_line vs [] = Null"
| "typed_line vs (e # es) = typed vs e (typed_line vs es)"

lemma type_check_line:
  "\<forall>e \<in> set es. well_typed (global_variable s) e \<Longrightarrow>
    finsh_type_check (line_node es) 0 s = (typed_line (global_variable s) es, s)"
  by (induction es) (auto intro: type_check_typed)

lemma typed_shape: "\<exists>t d it v i ch. \<forall>sib. typed vs e sib = FNode t d it v i sib ch"
  by (cases e) (simp_all add: sys_node_def ref_node_def)

lemma compile_statement:
  "compile_statements gv (typed vs e sib) s =
     Option.bind (finsh_compile gv (typed vs e Null) s)
       (\<lambda>s. Option.bind (if sib \<noteq> Null then finsh_code_byte FINSH_OP_POP s else Some s) (compile_statements gv sib))"
proof -
  obtain t d it v i ch where "\<And>sib. typed vs e sib = FNode t d it v i sib ch" using typed_shape [of vs e] by auto
  then show ?thesis by simp
qed

lemma compile_line:
  "\<forall>e \<in> set es. well_typed vs e \<Longrightarrow> global_variable s = vs \<Longrightarrow>
    compile_statements gv (typed_line vs es) s = finsh_code (line_code gv vs es) s"
proof (induction gv vs es arbitrary: s rule: line_code.induct)
  case (2 gv vs e)
  then show ?case by (simp add: compile_statement compile_typed)
next
  case (3 gv vs e f es)
  have "typed_line vs (f # es) \<noteq> Null" by (simp add: data_type_typed)
  then have "compile_statements gv (typed_line vs (e # f # es)) s =
      Option.bind (finsh_code (code gv vs e) s)
        (\<lambda>s. Option.bind (finsh_code_byte FINSH_OP_POP s) (compile_statements gv (typed_line vs (f # es))))"
    using 3(2,3) by (simp add: compile_statement [of gv vs e] compile_typed)
  also have "\<dots> = Option.bind (finsh_code (code gv vs e @ [FINSH_OP_POP]) s) (compile_statements gv (typed_line vs (f # es)))"
    by (simp add: finsh_code_append)
  also have "\<dots> = Option.bind (finsh_code (code gv vs e @ [FINSH_OP_POP]) s) (finsh_code (line_code gv vs (f # es)))"
    by (rule finsh_code_bind) (use 3 in simp)
  also have "\<dots> = finsh_code ((code gv vs e @ [FINSH_OP_POP]) @ line_code gv vs (f # es)) s"
    by (simp only: finsh_code_append)
  also have "\<dots> = finsh_code (line_code gv vs (e # f # es)) s" by simp
  finally show ?case .
qed simp

text \<open>Code that fits is written at the program counter of the compiler.\<close>

lemma finsh_code_fits:
  "finsh_compile_pc s + length bs \<le> length (text_segment (vm s)) \<Longrightarrow>
    finsh_code bs s = Some (s\<lparr>vm := (vm s)\<lparr>text_segment := take (finsh_compile_pc s) (text_segment (vm s)) @ bs @
      drop (finsh_compile_pc s + length bs) (text_segment (vm s))\<rparr>, finsh_compile_pc := finsh_compile_pc s + length bs\<rparr>)"
proof (induction bs arbitrary: s)
  case (Cons b bs)
  let ?p = "finsh_compile_pc s" and ?t = "text_segment (vm s)"
  let ?s = "s\<lparr>vm := (vm s)\<lparr>text_segment := ?t[?p := b]\<rparr>, finsh_compile_pc := ?p + 1\<rparr>"
  have "finsh_code (b # bs) s = finsh_code bs ?s" using Cons.prems by (simp add: finsh_code_byte_def)
  moreover have "take (Suc ?p) (?t[?p := b]) = take ?p ?t @ [b]"
    using Cons.prems by (simp add: take_Suc_conv_app_nth)
  ultimately show ?case using Cons.prems Cons.IH [of ?s] by simp
qed simp

lemma finsh_code_full:
  "finsh_compile_pc s + length bs > length (text_segment (vm s)) \<Longrightarrow> finsh_compile_pc s \<le> length (text_segment (vm s)) \<Longrightarrow>
    finsh_code bs s = None"
proof (induction bs arbitrary: s)
  case (Cons b bs)
  then show ?case by (auto simp: finsh_code_byte_def)
qed simp

text \<open>The compiler on the tree of a line.\<close>

lemma compiler_run_line:
  assumes "\<forall>e \<in> set es. well_typed (global_variable s) e"
  shows "finsh_compiler_run gv (line_node es) s =
    (let c = line_code gv (global_variable s) es in
     if length c \<le> FINSH_TEXT_MAX then
       Some (s\<lparr>vm := (vm s)\<lparr>text_segment := c @ replicate (FINSH_TEXT_MAX - length c) 0,
                         finsh_vm_stack := (finsh_vm_stack (vm s))[0 := 0]\<rparr>,
               finsh_compile_pc := length c\<rparr>)
     else None)"
proof -
  let ?s = "s\<lparr>vm := (vm s)\<lparr>text_segment := replicate FINSH_TEXT_MAX 0, finsh_vm_stack := (finsh_vm_stack (vm s))[0 := 0]\<rparr>,
                finsh_compile_pc := 0\<rparr>"
  have "finsh_compiler_run gv (line_node es) s = finsh_code (line_code gv (global_variable s) es) ?s"
    using assms by (simp add: finsh_compiler_run_def FINSH_NODE_VALUE_def type_check_line compile_line)
  then show ?thesis by (simp add: Let_def finsh_code_fits finsh_code_full not_le)
qed

end
