(* ===== verification/Finsh_Exec.thy ===== *)
theory Finsh_Exec
  imports Finsh_Eval
begin

text \<open>
  The compiled code of an expression, run on the stack machine, leaves the value of the expression on the stack and the
  memory that the evaluation leaves. Code is looked at where it lies in the text segment (\<open>at_pc\<close>), and the stack as the part
  below the stack pointer and the part above it, which is free (\<open>conf\<close>).
\<close>

subsection \<open>Words and memory\<close>

lemma low_byte: "(v :: 'a::len word) AND 0xff = take_bit 8 v" "(v :: 'a::len word) AND 0x00ff = take_bit 8 v"
    "(v :: 'a::len word) AND 0xffff = take_bit 16 v"
  by (simp_all add: take_bit_eq_mask mask_eq_exp_minus_1)

lemma ucast_take_bit: "n \<ge> LENGTH('b) \<Longrightarrow> (ucast (take_bit n (v :: 'a::len word)) :: 'b::len word) = ucast v"
  by (rule bit_word_eqI) (simp add: bit_ucast_iff bit_take_bit_iff)

lemma set16_bytes: "FINSH_SET16 v = [ucast v, ucast (drop_bit 8 v)]"
  by (simp add: FINSH_SET16_def low_byte ucast_take_bit)

lemma set32_bytes: "FINSH_SET32 v = [ucast v, ucast (drop_bit 8 v), ucast (drop_bit 16 v), ucast (drop_bit 24 v)]"
  by (simp add: FINSH_SET32_def low_byte ucast_take_bit)

lemma get_set16 [simp]: "FINSH_GET16 (FINSH_SET16 v) = v"
proof (rule bit_word_eqI)
  fix n assume n: "n < LENGTH(16)"
  show "bit (FINSH_GET16 (FINSH_SET16 v)) n = bit v n"
    by (cases "n < 8") (use n in \<open>auto simp: set16_bytes bit_or_iff bit_push_bit_iff bit_ucast_iff bit_drop_bit_eq\<close>)
qed

lemma get_set32 [simp]: "FINSH_GET32 (FINSH_SET32 v) = v"
proof (rule bit_word_eqI)
  fix n assume n: "n < LENGTH(32)"
  consider "n < 8" | "8 \<le> n" "n < 16" | "16 \<le> n" "n < 24" | "24 \<le> n" by linarith
  then show "bit (FINSH_GET32 (FINSH_SET32 v)) n = bit v n"
    by cases (use n in \<open>auto simp: set32_bytes bit_or_iff bit_push_bit_iff bit_ucast_iff bit_drop_bit_eq\<close>)
qed

lemma length_set [simp]: "length (FINSH_SET16 h) = 2" "length (FINSH_SET32 v) = 4"
  by (simp_all add: FINSH_SET16_def FINSH_SET32_def)

lemma cut_all [simp]: "low_bytes 4 v = v"
  by (rule bit_word_eqI) (simp add: low_bytes_def bit_take_bit_iff)

lemma cut_set [simp]: "low_bytes 1 (set_char c v) = ucast c" "low_bytes 2 (set_short h v) = ucast h"
proof -
  have f: "0xff = (mask 8 :: u32)" "0xffff = (mask 16 :: u32)" by (simp_all add: mask_eq_exp_minus_1)
  show "low_bytes 1 (set_char c v) = ucast c" "low_bytes 2 (set_short h v) = ucast h"
    unfolding low_bytes_def set_char_def set_short_def f
    by (rule bit_word_eqI; auto simp: bit_take_bit_iff bit_or_iff bit_and_iff bit_not_iff bit_mask_iff bit_ucast_iff
        dest: bit_imp_le_length)+
qed

lemma cut_cut [simp]: "low_bytes m (low_bytes n v) = low_bytes (min m n) v"
  by (cases "m \<le> n") (simp_all add: low_bytes_def min_absorb1 min_absorb2)

lemma ucast_cut: "1 \<le> n \<Longrightarrow> (ucast (low_bytes n v) :: u8) = ucast v" "2 \<le> n \<Longrightarrow> (ucast (low_bytes n v) :: u16) = ucast v"
  by (simp_all add: low_bytes_def ucast_take_bit)

lemma cut_low: "low_bytes 1 v = ucast (ucast v :: u8)" "low_bytes 2 v = ucast (ucast v :: u16)"
  by (rule bit_word_eqI; auto simp: low_bytes_def bit_take_bit_iff bit_ucast_iff)+

lemmas cut_set_Suc [simp] = cut_set(1) [unfolded One_nat_def]

lemma cut_of_int: "low_bytes 1 (word_of_int r) = ucast (word_of_int r :: u8)" "low_bytes 2 (word_of_int r) = ucast (word_of_int r :: u16)"
  by (rule bit_word_eqI; auto simp: low_bytes_def bit_take_bit_iff bit_ucast_iff bit_word_of_int_iff)+

lemma width_simps [simp]: "width FINSH_DATA_TYPE_BYTE = 1" "width FINSH_DATA_TYPE_WORD = 2" "width FINSH_DATA_TYPE_DWORD = 4"
  "width FINSH_DATA_TYPE_VOID = 0"
  by (simp_all add: width_def finsh_data_types)

lemma data_types_differ [simp]: "FINSH_DATA_TYPE_BYTE \<noteq> FINSH_DATA_TYPE_WORD" "FINSH_DATA_TYPE_BYTE \<noteq> FINSH_DATA_TYPE_DWORD"
  "FINSH_DATA_TYPE_WORD \<noteq> FINSH_DATA_TYPE_DWORD" "FINSH_DATA_TYPE_WORD \<noteq> FINSH_DATA_TYPE_BYTE" "FINSH_DATA_TYPE_DWORD \<noteq> FINSH_DATA_TYPE_BYTE"
  "FINSH_DATA_TYPE_DWORD \<noteq> FINSH_DATA_TYPE_WORD"
  by (simp_all add: finsh_data_types)

text \<open>What is read of a value that supplies enough bytes.\<close>

lemma number_as_cut: "width d \<le> n \<Longrightarrow> n \<in> {1, 2, 4} \<Longrightarrow>
    d = FINSH_DATA_TYPE_BYTE \<or> d = FINSH_DATA_TYPE_WORD \<or> d = FINSH_DATA_TYPE_DWORD \<Longrightarrow> number_as d (low_bytes n v) = number_as d v"
  by (auto simp: number_as_def ucast_cut)

lemma store_as_cut: "width d \<le> n \<Longrightarrow> n \<in> {1, 2, 4} \<Longrightarrow>
    d = FINSH_DATA_TYPE_BYTE \<or> d = FINSH_DATA_TYPE_WORD \<or> d = FINSH_DATA_TYPE_DWORD \<Longrightarrow> store_as d a (low_bytes n v) m = store_as d a v m"
  by (auto simp: store_as_def ucast_cut)

text \<open>Loading what was stored.\<close>

lemma word_steps: "(a :: u32) + 1 \<noteq> a" "a + 2 \<noteq> a" "a + 3 \<noteq> a" "a + 2 \<noteq> a + 1" "a + 3 \<noteq> a + 1" "a + 3 \<noteq> a + 2"
  by simp_all

lemma bytes_at_4: "bytes_at m a 4 = do { b0 \<leftarrow> m a; b1 \<leftarrow> m (a + 1); b2 \<leftarrow> m (a + 2); b3 \<leftarrow> m (a + 3); Some [b0, b1, b2, b3] }"
  "bytes_at m a 2 = do { b0 \<leftarrow> m a; b1 \<leftarrow> m (a + 1); Some [b0, b1] }"
  by (simp_all add: numeral_eq_Suc add.assoc)

lemma load_as_store:
  assumes "store_as d a x m = Some m'" "d = FINSH_DATA_TYPE_BYTE \<or> d = FINSH_DATA_TYPE_WORD \<or> d = FINSH_DATA_TYPE_DWORD"
  shows "load_as d m' a = Some (low_bytes (width d) x)" "dom m' = dom m"
  using assms get_set16 [of "ucast x"] get_set32 [of x]
  by (auto simp: store_as_def load_as_def cut_low [unfolded One_nat_def] set16_bytes set32_bytes bytes_at_4 cut_low add.assoc split: if_splits)

subsection \<open>Steps\<close>

definition conf :: "u8 list \<Rightarrow> u32 list \<Rightarrow> u32 list \<Rightarrow> nat \<Rightarrow> fmem \<Rightarrow> fvm" where
  "conf t bs rest p m = \<lparr>finsh_vm_stack = bs @ rest, finsh_sp = length bs, text_segment = t, finsh_pc = p, finsh_mem = m\<rparr>"

definition at_pc :: "u8 list \<Rightarrow> nat \<Rightarrow> u8 list \<Rightarrow> bool" where
  "at_pc t p c \<longleftrightarrow> (\<exists>pre post. t = pre @ c @ post \<and> length pre = p)"

lemma at_pc_append: "at_pc t p (c @ d) \<longleftrightarrow> at_pc t p c \<and> at_pc t (p + length c) d"
proof
  assume "at_pc t p (c @ d)"
  then obtain pre post where "t = pre @ c @ d @ post" "length pre = p" by (auto simp: at_pc_def)
  then show "at_pc t p c \<and> at_pc t (p + length c) d"
    unfolding at_pc_def by (metis append.assoc length_append)
next
  assume "at_pc t p c \<and> at_pc t (p + length c) d"
  then obtain pre post pre' post' where t: "t = pre @ c @ post" "length pre = p" "t = pre' @ d @ post'"
    "length pre' = p + length c" unfolding at_pc_def by blast
  then have "(pre @ c) @ post = pre' @ d @ post'" by simp
  then have "post = d @ post'" using append_eq_append_conv [of "pre @ c" pre' post "d @ post'"] t(2,4) by simp
  then show "at_pc t p (c @ d)" using t(1,2) by (auto simp: at_pc_def)
qed

lemma at_pc_tl: "at_pc t p (b # c) \<Longrightarrow> at_pc t (Suc p) c"
  using at_pc_append [of t p "[b]" c] by simp

lemma conf_simps [simp]:
  "cell 0 (conf t bs (y # ys) p m) = Some y" "cell 1 (conf t (bs @ [x]) ys p m) = Some x"
  "cell 2 (conf t (bs @ [x1, x2]) ys p m) = Some x1" "cell 1 (conf t (bs @ [x1, x2]) ys p m) = Some x2"
  "set_cell 0 v (conf t bs (y # ys) p m) = Some (conf t bs (v # ys) p m)"
  "set_cell 1 v (conf t (bs @ [x]) ys p m) = Some (conf t (bs @ [v]) ys p m)"
  "set_cell 2 v (conf t (bs @ [x1, x2]) ys p m) = Some (conf t (bs @ [v, x2]) ys p m)"
  "sp_dec (conf t (bs @ [x]) ys p m) = Some (conf t bs (x # ys) p m)"
  "sp_dec (conf t (bs @ [x1, x2]) ys p m) = Some (conf t (bs @ [x1]) (x2 # ys) p m)"
  "sp_inc (conf t bs (y # ys) p m) = conf t (bs @ [y]) ys p m"
  "pc_skip n (conf t bs ys p m) = conf t bs ys (p + n) m"
  "finsh_mem (conf t bs ys p m) = m" "finsh_pc (conf t bs ys p m) = p"
  "(conf t bs ys p m)\<lparr>finsh_mem := m'\<rparr> = conf t bs ys p m'"
  by (simp_all add: conf_def cell_def set_cell_def sp_dec_def sp_inc_def pc_skip_def nth_append list_update_append)

lemma conf_Suc_0 [simp]:
  "cell (Suc 0) (conf t (bs @ [x]) ys p m) = Some x" "cell (Suc 0) (conf t (bs @ [x1, x2]) ys p m) = Some x2"
  "set_cell (Suc 0) v (conf t (bs @ [x]) ys p m) = Some (conf t (bs @ [v]) ys p m)"
  by (simp_all add: conf_simps [unfolded One_nat_def])

lemma operand_at: "at_pc t p c \<Longrightarrow> n = length c \<Longrightarrow> operand n (conf t bs ys p m) = Some c"
  by (auto simp: operand_def conf_def at_pc_def)

lemma step_op:
  assumes "at_pc t p (c # cs)" "unat c = i" "i < 48"
  shows "finsh_vm_step call (conf t bs ys p m) = (op_table call ! i) (conf t bs ys (Suc p) m)"
proof -
  have "length (op_table call) = 48" by (simp add: op_table_def)
  moreover have "operand 1 (conf t bs ys p m) = Some [c]"
    using at_pc_append [of t p "[c]" cs] assms(1) by (simp add: operand_at)
  ultimately show ?thesis using assms by (simp add: finsh_vm_step_def Let_def)
qed

text \<open>The steps of each kind of instruction. The value that is on top is given by the bytes that the instruction sets.\<close>

lemma step_const:
  assumes "at_pc t p (FINSH_OP_LD_DWORD # FINSH_SET32 w)"
  shows "finsh_vm_step call (conf t bs (y # ys) p m) = Some (conf t (bs @ [w]) ys (p + 5) m)"
  using step_op [OF assms, of 36 call bs "y # ys" m] operand_at [OF at_pc_tl [OF assms], of 4]
  by (simp add: op_table_def OP_ld_dword_def add.commute [of p])

lemma step_char:
  assumes "at_pc t p [FINSH_OP_LD_BYTE, c]"
  shows "finsh_vm_step call (conf t bs (y # ys) p m) = Some (conf t (bs @ [set_char c y]) ys (p + 2) m)"
  using step_op [OF assms, of 34 call bs "y # ys" m] operand_at [OF at_pc_tl [OF assms], of 1]
  by (simp add: op_table_def OP_ld_byte_def add.commute [of p])

lemma step_short:
  assumes "at_pc t p (FINSH_OP_LD_WORD # FINSH_SET16 h)"
  shows "finsh_vm_step call (conf t bs (y # ys) p m) = Some (conf t (bs @ [set_short h y]) ys (p + 3) m)"
  using step_op [OF assms, of 35 call bs "y # ys" m] operand_at [OF at_pc_tl [OF assms], of 2]
  by (simp add: op_table_def OP_ld_word_def numeral_3_eq_3)

lemma step_one:
  assumes "at_pc t p (one_code d)" "d = FINSH_DATA_TYPE_BYTE \<or> d = FINSH_DATA_TYPE_WORD \<or> d = FINSH_DATA_TYPE_DWORD"
  shows "\<exists>x. finsh_vm_step call (conf t bs (y # ys) p m) = Some (conf t (bs @ [x]) ys (p + length (one_code d)) m) \<and>
    low_bytes (width d) x = 1"
  using assms step_char [of t p 1 call bs y ys m] step_short [of t p 1 call bs y ys m] step_const [of t p 1 call bs y ys m]
  by (auto simp: one_code_def)

lemma step_load:
  assumes "at_pc t p (width_op d FINSH_OP_LD_VALUE_BYTE FINSH_OP_LD_VALUE_WORD FINSH_OP_LD_VALUE_DWORD # FINSH_SET32 a)"
    "d = FINSH_DATA_TYPE_BYTE \<or> d = FINSH_DATA_TYPE_WORD \<or> d = FINSH_DATA_TYPE_DWORD" "load_as d m a = Some v"
  shows "\<exists>x. finsh_vm_step call (conf t bs (y # ys) p m) = Some (conf t (bs @ [x]) ys (p + 5) m) \<and> low_bytes (width d) x = v"
  using assms(2)
proof (rule data_type_cases)
  note o = operand_at [OF at_pc_tl [OF assms(1)], of 4, simplified]
  note s = step_op [OF assms(1), of _ call bs "y # ys" m]
  {
    assume d: "d = FINSH_DATA_TYPE_BYTE"
    then obtain b where b: "m a = Some b" "v = ucast b" using assms(3) by (auto simp: load_as_def)
    then show ?thesis using s [of 37] o d
      by (intro exI [of _ "set_char b y"]) (simp add: width_op_def op_table_def OP_ld_value_byte_def add.commute [of p])
  next
    assume d: "d = FINSH_DATA_TYPE_WORD"
    then obtain b where b: "bytes_at m a 2 = Some b" "v = ucast (FINSH_GET16 b)" using assms(3) by (auto simp: load_as_def)
    then show ?thesis using s [of 38] o d
      by (intro exI [of _ "set_short (FINSH_GET16 b) y"]) (simp add: width_op_def op_table_def OP_ld_value_word_def add.commute [of p])
  next
    assume d: "d = FINSH_DATA_TYPE_DWORD"
    then obtain b where b: "bytes_at m a 4 = Some b" "v = FINSH_GET32 b" using assms(3) by (auto simp: load_as_def)
    then show ?thesis using s [of 39] o d
      by (intro exI [of _ "FINSH_GET32 b"]) (simp add: width_op_def op_table_def OP_ld_value_dword_def add.commute [of p])
  }
qed

lemma step_deref:
  assumes "at_pc t p [deref_op d]" "load_as d m a = Some v"
    "d = FINSH_DATA_TYPE_BYTE \<or> d = FINSH_DATA_TYPE_WORD \<or> d = FINSH_DATA_TYPE_DWORD"
  shows "\<exists>x. finsh_vm_step call (conf t (bs @ [a]) ys p m) = Some (conf t (bs @ [x]) ys (p + 1) m) \<and> low_bytes (width d) x = v"
  using assms(3)
proof (rule data_type_cases)
  note s = step_op [OF assms(1), of _ call "bs @ [a]" ys m]
  {
    assume d: "d = FINSH_DATA_TYPE_BYTE"
    then obtain b where b: "m a = Some b" "v = ucast b" using assms(2) by (auto simp: load_as_def)
    then show ?thesis using s [of 45] d
      by (intro exI [of _ "set_char b a"]) (simp add: deref_op_def width_op_def op_table_def OP_ld_value_byte_stack_def)
  next
    assume d: "d = FINSH_DATA_TYPE_WORD"
    then obtain b where b: "bytes_at m a 2 = Some b" "v = ucast (FINSH_GET16 b)" using assms(2) by (auto simp: load_as_def)
    then show ?thesis using s [of 46] d
      by (intro exI [of _ "set_short (FINSH_GET16 b) a"])
        (simp add: deref_op_def width_op_def op_table_def OP_ld_value_word_stack_def)
  next
    assume d: "d = FINSH_DATA_TYPE_DWORD"
    then obtain b where b: "bytes_at m a 4 = Some b" "v = FINSH_GET32 b" using assms(2) by (auto simp: load_as_def)
    then show ?thesis using s [of 47] d
      by (intro exI [of _ "FINSH_GET32 b"]) (simp add: deref_op_def width_op_def op_table_def OP_ld_value_dword_stack_def)
  }
qed

lemma step_store:
  assumes "at_pc t p [st_op d]" "store_as d a x m = Some m'"
    "d = FINSH_DATA_TYPE_BYTE \<or> d = FINSH_DATA_TYPE_WORD \<or> d = FINSH_DATA_TYPE_DWORD"
  shows "finsh_vm_step call (conf t (bs @ [a, x]) ys p m) = Some (conf t (bs @ [a]) (x # ys) (p + 1) m')"
proof -
  note s = step_op [OF assms(1), of _ call "bs @ [a, x]" ys m]
  show ?thesis
    using assms(3) by (rule data_type_cases; use assms(2) s [of 40] s [of 41] s [of 42] in
      \<open>simp add: st_op_def store_as_def width_op_def op_table_def OP_st_byte_def OP_st_word_def OP_st_dword_def\<close>)
qed

lemma op_table_bin:
  "op_table call ! unat (op_code opr FINSH_DATA_TYPE_BYTE) = OP_BIN_BYTE (op_fun opr)"
  "op_table call ! unat (op_code opr FINSH_DATA_TYPE_WORD) = OP_BIN_WORD (op_fun opr)"
  "op_table call ! unat (op_code opr FINSH_DATA_TYPE_DWORD) = OP_BIN_DWORD (op_fun opr)"
  "unat (op_code opr d) < 48"
  by (cases opr; simp add: op_table_def width_op_def finsh_op_arith)+

lemma step_bin:
  assumes "at_pc t p [op_code opr d]" "arith d (op_fun opr) x y = Some r"
    "d = FINSH_DATA_TYPE_BYTE \<or> d = FINSH_DATA_TYPE_WORD \<or> d = FINSH_DATA_TYPE_DWORD"
  shows "\<exists>z. finsh_vm_step call (conf t (bs @ [x, y]) ys p m) = Some (conf t (bs @ [z]) (y # ys) (p + 1) m) \<and>
    low_bytes (width d) z = r"
  using assms(3)
proof (rule data_type_cases)
  note s = step_op [OF assms(1) refl op_table_bin(4), of call "bs @ [x, y]" ys m]
  obtain q where q: "op_fun opr (number_as d x) (number_as d y) = Some q" "r = low_bytes (width d) (word_of_int q)"
    using assms(2) by (auto simp: arith_def)
  {
    assume d: "d = FINSH_DATA_TYPE_BYTE"
    then show ?thesis using s q
      by (intro exI [of _ "set_char (word_of_int q) x"])
        (simp add: op_table_bin OP_BIN_BYTE_def number_as_def cut_of_int [unfolded One_nat_def])
  next
    assume d: "d = FINSH_DATA_TYPE_WORD"
    then show ?thesis using s q
      by (intro exI [of _ "set_short (word_of_int q) x"]) (simp add: op_table_bin OP_BIN_WORD_def number_as_def cut_of_int)
  next
    assume d: "d = FINSH_DATA_TYPE_DWORD"
    then show ?thesis using s q
      by (intro exI [of _ "word_of_int q"]) (simp add: op_table_bin OP_BIN_DWORD_def number_as_def)
  }
qed

lemma step_not:
  assumes "at_pc t p [not_op d]" "d = FINSH_DATA_TYPE_BYTE \<or> d = FINSH_DATA_TYPE_WORD \<or> d = FINSH_DATA_TYPE_DWORD"
  shows "\<exists>z. finsh_vm_step call (conf t (bs @ [x]) ys p m) = Some (conf t (bs @ [z]) ys (p + 1) m) \<and>
    low_bytes (width d) z = low_bytes (width d) (NOT (low_bytes (width d) x))"
  using assms(2)
proof (rule data_type_cases)
  note s = step_op [OF assms(1), of _ call "bs @ [x]" ys m]
  have n: "(ucast (NOT (low_bytes 1 x)) :: u8) = NOT (ucast x)" "(ucast (NOT (low_bytes 2 x)) :: u16) = NOT (ucast x)"
    by (rule bit_word_eqI; simp add: low_bytes_def bit_ucast_iff bit_not_iff bit_take_bit_iff)+
  {
    assume d: "d = FINSH_DATA_TYPE_BYTE"
    then show ?thesis using s [of 25] n
      by (intro exI [of _ "set_char (NOT (ucast x)) x"])
        (simp add: not_op_def width_op_def op_table_def OP_bw_byte_def cut_low(1) [unfolded One_nat_def, of "NOT _"])
  next
    assume d: "d = FINSH_DATA_TYPE_WORD"
    then show ?thesis using s [of 26] n
      by (intro exI [of _ "set_short (NOT (ucast x)) x"])
        (simp add: not_op_def width_op_def op_table_def OP_bw_word_def cut_low(2) [of "NOT _"])
  next
    assume d: "d = FINSH_DATA_TYPE_DWORD"
    then show ?thesis using s [of 27]
      by (intro exI [of _ "NOT x"]) (simp add: not_op_def width_op_def op_table_def OP_bw_dword_def)
  }
qed

lemma step_pop:
  assumes "at_pc t p [FINSH_OP_POP]"
  shows "finsh_vm_step call (conf t (bs @ [x]) ys p m) = Some (conf t bs (x # ys) (p + 1) m)"
  using step_op [OF assms, of 43 call "bs @ [x]" ys m] by (simp add: op_table_def OP_pop_def)

lemma sp_dec_last: "zs \<noteq> [] \<Longrightarrow> sp_dec (conf t (bs @ zs) ys p m) = Some (conf t (bs @ butlast zs) (last zs # ys) p m)"
  using conf_simps(8) [of t "bs @ butlast zs" "last zs" ys p m] by simp

lemma pop_parameters_all:
  "pop_parameters (length xs) ps (conf t (bs @ butlast (f # xs)) (last (f # xs) # ys) p m) =
    Some (xs @ ps, conf t bs (f # xs @ ys) p m)"
proof (induction xs arbitrary: ps ys rule: rev_induct)
  case (snoc x xs)
  have "sp_dec (conf t (bs @ f # xs) (x # ys) p m) = Some (conf t (bs @ butlast (f # xs)) (last (f # xs) # x # ys) p m)"
    by (rule sp_dec_last) simp
  then show ?case using snoc by simp
qed simp

lemma step_call:
  assumes "at_pc t p [FINSH_OP_SYSCALL, of_nat (length xs)]" "length xs \<le> 16"
    "call f (if xs = [] then [0] else xs) m = Some (r, m')"
  shows "finsh_vm_step call (conf t (bs @ f # xs) ys p m) = Some (conf t (bs @ [r]) (xs @ ys) (p + 2) m')"
proof -
  have n: "unat (of_nat (length xs) :: u8) = length xs" using assms(2) by (simp add: unsigned_of_nat take_bit_eq_mod)
  have "sp_dec (conf t (bs @ f # xs) ys (Suc (Suc p)) m) =
      Some (conf t (bs @ butlast (f # xs)) (last (f # xs) # ys) (Suc (Suc p)) m)" by (rule sp_dec_last) simp
  moreover have "pop_parameters (length xs) [] (conf t (bs @ butlast (f # xs)) (last (f # xs) # ys) (Suc (Suc p)) m) =
      Some (xs, conf t bs (f # xs @ ys) (Suc (Suc p)) m)" using pop_parameters_all [of xs "[]"] by simp
  ultimately show ?thesis
    using step_op [OF assms(1), of 44 call "bs @ f # xs" ys m] operand_at [OF at_pc_tl [OF assms(1)], of 1] assms(2,3)
    by (simp add: op_table_def OP_call_def n Let_def)
qed

subsection \<open>Values on the stack\<close>

lemma width_supplied: "well_typed vs e \<Longrightarrow> width (dt vs e) \<le> supplied vs e"
  by (cases e) (auto simp: width_def)

lemma supplied_cases: "well_typed vs e \<Longrightarrow> supplied vs e = 1 \<or> supplied vs e = 2 \<or> supplied vs e = 4"
  using dt_cases [of vs e]
  by (cases e) (auto simp: width_def finsh_data_types dest!: ref_data_cases dt_cases simp flip: ref_type_var)

lemma arith_low: "arith d f x y = Some r \<Longrightarrow> low_bytes (width d) r = r"
  by (auto simp: arith_def)

lemma load_low:
  "load_as d m a = Some v \<Longrightarrow> d = FINSH_DATA_TYPE_BYTE \<or> d = FINSH_DATA_TYPE_WORD \<or> d = FINSH_DATA_TYPE_DWORD \<Longrightarrow>
    low_bytes (width d) v = v"
  using cut_low(1) [of "ucast b" for b :: u8] cut_low(2) [of "ucast b" for b :: u16]
  by (auto simp: load_as_def)

text \<open>The word at an address begins with the bytes of narrower types.\<close>

lemma load_prefix:
  assumes "bytes_at m a 4 = Some bs" "d = FINSH_DATA_TYPE_BYTE \<or> d = FINSH_DATA_TYPE_WORD \<or> d = FINSH_DATA_TYPE_DWORD"
  shows "load_as d m a = Some (low_bytes (width d) (FINSH_GET32 bs))"
proof -
  obtain b0 b1 b2 b3 where b: "m a = Some b0" "m (a + 1) = Some b1" "bs = [b0, b1, b2, b3]"
    using assms(1) by (auto simp: bytes_at_4 Option.bind_eq_Some_conv)
  have "low_bytes 1 (FINSH_GET32 [b0, b1, b2, b3]) = ucast b0"
    by (rule bit_word_eqI) (auto simp: low_bytes_def bit_take_bit_iff bit_or_iff bit_push_bit_iff bit_ucast_iff
        dest: bit_imp_le_length)
  moreover have "low_bytes 2 (FINSH_GET32 [b0, b1, b2, b3]) = ucast (FINSH_GET16 [b0, b1])"
    by (rule bit_word_eqI) (auto simp: low_bytes_def bit_take_bit_iff bit_or_iff bit_push_bit_iff bit_ucast_iff
        dest: bit_imp_le_length)
  ultimately show ?thesis using assms b by (auto simp: load_as_def bytes_at_4)
qed

text \<open>The values of the shell's variables are in memory, and stay there.\<close>

definition mapped :: "u32 \<Rightarrow> finsh_var list \<Rightarrow> fmem \<Rightarrow> bool" where
  "mapped gv vs m \<longleftrightarrow> (\<forall>k < length vs. bytes_at m (var_value gv k) 4 \<noteq> None)"

definition keeps_memory :: "syscalls \<Rightarrow> bool" where
  "keeps_memory call \<longleftrightarrow> (\<forall>f xs m r m'. call f xs m = Some (r, m') \<longrightarrow> dom m' = dom m)"

lemma bytes_at_None: "bytes_at m a 4 = None \<longleftrightarrow> m a = None \<or> m (a + 1) = None \<or> m (a + 2) = None \<or> m (a + 3) = None"
  by (auto simp: bytes_at_4 split: bind_splits)

lemma mapped_dom:
  assumes "dom m' = dom m" shows "mapped gv vs m' \<longleftrightarrow> mapped gv vs m"
proof -
  have "m' a = None \<longleftrightarrow> m a = None" for a using assms by (metis domIff)
  then show ?thesis by (simp add: mapped_def bytes_at_None del: not_None_eq)
qed

lemma put_bytes_dom: "poke_bytes a bs m = Some m' \<Longrightarrow> dom m' = dom m"
  by (induction a bs m rule: poke_bytes.induct) (auto split: if_splits)

lemma store_dom: "store_as d a x m = Some m' \<Longrightarrow> dom m' = dom m"
  unfolding store_as_def by (rule put_bytes_dom)

lemma eval_dom:
  assumes "keeps_memory call"
  shows "eval call gv vs e m = Some (v, m') \<Longrightarrow> dom m' = dom m"
    "eval_args call gv vs es m = Some (xs, m') \<Longrightarrow> dom m' = dom m"
proof (induction gv vs e and gv vs es arbitrary: m v m' and m xs m' rule: code_codes.induct)
  case (12 gv vs c es)
  then obtain xs m1 where "eval_args call gv vs es m = Some (xs, m1)" "call (syscall_func c) (if xs = [] then [0] else xs) m1 = Some (v, m')"
    by (auto simp: Option.bind_eq_Some_conv)
  then show ?case using 12(1) assms unfolding keeps_memory_def by metis
next
  case (4 gv vs opr a b)
  then obtain x m1 y where "eval call gv vs a m = Some (x, m1)" "eval call gv vs b m1 = Some (y, m')"
    by (auto simp: Option.bind_eq_Some_conv)
  then show ?case using 4(1) [of m x m1] 4(2) [of m1 y m'] by simp
next
  case (5 gv vs a)
  then obtain x where "eval call gv vs a m = Some (x, m')" by (auto simp: Option.bind_eq_Some_conv)
  then show ?case using 5(1) by simp
next
  case (6 gv vs r e)
  then obtain x m1 where "eval call gv vs e m = Some (x, m1)" "store_as (ref_data vs r) (ref_at gv r) x m1 = Some m'"
    by (auto simp: Option.bind_eq_Some_conv)
  then show ?case using 6(1) [of m x m1] store_dom by metis
next
  case (7 gv vs p e)
  then obtain a m1 x m2 where "eval call gv vs p m = Some (a, m1)" "eval call gv vs e m1 = Some (x, m2)"
      "store_as (dt vs p) a x m2 = Some m'" by (auto simp: Option.bind_eq_Some_conv)
  then show ?case using 7(1) [of m a m1] 7(2) [of m1 x m2] store_dom by metis
next
  case (9 gv vs p)
  then obtain a where "eval call gv vs p m = Some (a, m')" by (auto simp: Option.bind_eq_Some_conv)
  then show ?case using 9(1) by simp
next
  case (14 gv vs e es)
  then obtain x m1 ys where "eval call gv vs e m = Some (x, m1)" "eval_args call gv vs es m1 = Some (ys, m')"
    by (auto simp: Option.bind_eq_Some_conv)
  then show ?case using 14(1) [of m x m1] 14(2) [of m1 ys m'] by simp
qed (auto simp: Option.bind_eq_Some_conv Let_def dest!: store_dom)

lemma arith_cut:
  assumes "arith d f (low_bytes n x) (low_bytes k y) = Some r" "width d \<le> n" "n \<in> {1, 2, 4}" "width d \<le> k" "k \<in> {1, 2, 4}"
    "d = FINSH_DATA_TYPE_BYTE \<or> d = FINSH_DATA_TYPE_WORD \<or> d = FINSH_DATA_TYPE_DWORD"
  shows "arith d f x y = Some r"
  using assms by (simp add: arith_def number_as_cut)

subsection \<open>Compiled expressions\<close>

abbreviation vm_reach :: "syscalls \<Rightarrow> fvm \<Rightarrow> fvm \<Rightarrow> bool" where
  "vm_reach call \<equiv> (\<lambda>a b. finsh_vm_step call a = Some b)\<^sup>*\<^sup>*"

lemma vm_reach_step: "vm_reach call a b \<Longrightarrow> finsh_vm_step call b = Some c \<Longrightarrow> vm_reach call a c"
  by (rule rtranclp.rtrancl_into_rtrancl)

lemma vm_step_reach: "finsh_vm_step call a = Some b \<Longrightarrow> vm_reach call b c \<Longrightarrow> vm_reach call a c"
  by (rule converse_rtranclp_into_rtranclp)

text \<open>Cells that the code of an expression needs above the stack pointer.\<close>

fun depth :: "fexp \<Rightarrow> nat" and depths :: "fexp list \<Rightarrow> nat" where
  "depth (E_const t w) = 1"
| "depth (E_char c) = 1"
| "depth (E_ref r) = 1"
| "depth (E_bin opr a b) = max (depth a) (1 + depth b)"
| "depth (E_not a) = depth a"
| "depth (E_assign r e) = 1 + depth e"
| "depth (E_store p e) = max (depth p) (1 + depth e)"
| "depth (E_addr r) = 1"
| "depth (E_deref p) = depth p"
| "depth (E_pre up k) = 3"
| "depth (E_post up k) = 4"
| "depth (E_call c es) = 1 + depths es"
| "depths [] = 0"
| "depths (e # es) = max (depth e) (1 + depths es)"

text \<open>What is known of the cells on top of the stack, before and after a piece of code: \<open>k\<close> is the height above the rest of the
  stack that it may reach.\<close>

definition computes :: "syscalls \<Rightarrow> u8 list \<Rightarrow> nat \<Rightarrow> (u32 \<Rightarrow> bool) list \<Rightarrow> fmem \<Rightarrow> (u32 \<Rightarrow> bool) list \<Rightarrow> fmem \<Rightarrow> bool" where
  "computes call c k Ps m Qs m' \<longleftrightarrow> (\<forall>t p bs xs ys. at_pc t p c \<and> list_all2 (\<lambda>P x. P x) Ps xs \<and> k \<le> length xs + length ys \<longrightarrow>
     (\<exists>xs' ys'. vm_reach call (conf t (bs @ xs) ys p m) (conf t (bs @ xs') ys' (p + length c) m') \<and>
              list_all2 (\<lambda>P x. P x) Qs xs' \<and> length xs' + length ys' = length xs + length ys))"

definition val :: "nat \<Rightarrow> u32 \<Rightarrow> u32 \<Rightarrow> bool" where "val n v x \<longleftrightarrow> low_bytes n x = v"

lemma computesD:
  assumes "computes call c k Ps m Qs m'" "at_pc t p c" "list_all2 (\<lambda>P x. P x) Ps xs" "k \<le> length xs + length ys"
  obtains xs' ys' where "vm_reach call (conf t (bs @ xs) ys p m) (conf t (bs @ xs') ys' (p + length c) m')"
    "list_all2 (\<lambda>P x. P x) Qs xs'" "length xs' + length ys' = length xs + length ys"
  using assms unfolding computes_def by blast

lemma computes_seq:
  assumes c: "computes call c k Ps m Qs m1" and d: "computes call d l Qs m1 Rs m2"
  shows "computes call (c @ d) (max k l) Ps m Rs m2"
  unfolding computes_def
proof (intro allI impI, elim conjE)
  fix t p bs xs ys assume at: "at_pc t p (c @ d)" and xs: "list_all2 (\<lambda>P x. P x) Ps (xs :: u32 list)" and k: "max k l \<le> length xs + length (ys :: u32 list)"
  from at have at1: "at_pc t p c" and at2: "at_pc t (p + length c) d" by (simp_all add: at_pc_append)
  have k1: "k \<le> length xs + length ys" and l1: "l \<le> length xs + length ys" using k by simp_all
  obtain xs1 ys1 where 1: "vm_reach call (conf t (bs @ xs) ys p m) (conf t (bs @ xs1) ys1 (p + length c) m1)"
    "list_all2 (\<lambda>P x. P x) Qs xs1" "length xs1 + length ys1 = length xs + length ys" by (rule computesD [OF c at1 xs k1])
  have l2: "l \<le> length xs1 + length ys1" using l1 1(3) by simp
  obtain xs2 ys2 where 2: "vm_reach call (conf t (bs @ xs1) ys1 (p + length c) m1) (conf t (bs @ xs2) ys2 (p + length c + length d) m2)"
    "list_all2 (\<lambda>P x. P x) Rs xs2" "length xs2 + length ys2 = length xs1 + length ys1" by (rule computesD [OF d at2 1(2) l2])
  show "\<exists>xs' ys'. vm_reach call (conf t (bs @ xs) ys p m) (conf t (bs @ xs') ys' (p + length (c @ d)) m2) \<and>
      list_all2 (\<lambda>P x. P x) Rs xs' \<and> length xs' + length ys' = length xs + length ys"
    using rtranclp_trans [OF 1(1) 2(1)] 2(2,3) 1(3) by (auto simp: add.assoc)
qed

lemma computes_frame:
  assumes "computes call c k Ps m Qs m'"
  shows "computes call c (length Us + k) (Us @ Ps) m (Us @ Qs) m'"
  unfolding computes_def
proof (intro allI impI, elim conjE)
  fix t p bs xs ys assume at: "at_pc t p c" and xs: "list_all2 (\<lambda>P x. P x) (Us @ Ps) (xs :: u32 list)"
    and k: "length Us + k \<le> length xs + length (ys :: u32 list)"
  from xs obtain us zs where u: "xs = us @ zs" "list_all2 (\<lambda>P x. P x) Us us" "list_all2 (\<lambda>P x. P x) Ps zs"
    by (auto simp: list_all2_append1)
  then have "k \<le> length zs + length ys" using k by (simp add: list_all2_lengthD)
  from computesD [OF assms at u(3) this, of "bs @ us"] obtain xs' ys' where
    "vm_reach call (conf t (bs @ us @ zs) ys p m) (conf t (bs @ us @ xs') ys' (p + length c) m')"
    "list_all2 (\<lambda>P x. P x) Qs xs'" "length xs' + length ys' = length zs + length ys" by auto
  then show "\<exists>xs' ys'. vm_reach call (conf t (bs @ xs) ys p m) (conf t (bs @ xs') ys' (p + length c) m') \<and>
      list_all2 (\<lambda>P x. P x) (Us @ Qs) xs' \<and> length xs' + length ys' = length xs + length ys"
    using u(1,2) by (intro exI [of _ "us @ xs'"] exI [of _ ys']) (auto intro: list_all2_appendI)
qed

lemma computes_mono: "computes call c k Ps m Qs m' \<Longrightarrow> k \<le> l \<Longrightarrow> computes call c l Ps m Qs m'"
  unfolding computes_def by (meson order_trans)

text \<open>A piece of code behind another works on what that leaves, above the cells it does not look at.\<close>

lemma computes_then:
  assumes "computes call c k Ps m (Us @ Vs) m1" "computes call d l Vs m1 Ws m2" "k \<le> n" "length Us + l \<le> n"
  shows "computes call (c @ d) n Ps m (Us @ Ws) m2"
  by (rule computes_mono [OF computes_seq [OF assms(1) computes_frame [OF assms(2)]]]) (use assms(3,4) in simp)

lemma computes_stepI:
  assumes "\<And>t p bs xs ys. at_pc t p c \<Longrightarrow> list_all2 (\<lambda>P x. P x) Ps xs \<Longrightarrow> k \<le> length xs + length ys \<Longrightarrow>
    \<exists>xs' ys'. finsh_vm_step call (conf t (bs @ xs) ys p m) = Some (conf t (bs @ xs') ys' (p + length c) m') \<and>
      list_all2 (\<lambda>P x. P x) Qs xs' \<and> length xs' + length ys' = length xs + length ys"
  shows "computes call c k Ps m Qs m'"
  unfolding computes_def using assms by (meson r_into_rtranclp)

lemma computes_pushI:
  assumes "\<And>t p bs y ys. at_pc t p c \<Longrightarrow>
    \<exists>x. finsh_vm_step call (conf t bs (y # ys) p m) = Some (conf t (bs @ [x]) ys (p + length c) m) \<and> Q x"
  shows "computes call c 1 [] m [Q] m"
proof (rule computes_stepI)
  fix t p and bs xs ys :: "u32 list"
  assume at: "at_pc t p c" and x: "list_all2 (\<lambda>P x. P x) [] xs" and k: "1 \<le> length xs + length ys"
  obtain y zs where "ys = y # zs" using k x by (cases ys) auto
  then show "\<exists>xs' ys'. finsh_vm_step call (conf t (bs @ xs) ys p m) = Some (conf t (bs @ xs') ys' (p + length c) m) \<and>
      list_all2 (\<lambda>P x. P x) [Q] xs' \<and> length xs' + length ys' = length xs + length ys"
    using assms [OF at, of bs y zs] x by (elim exE conjE) (rule exI [of _ "[x]" for x], auto)
qed

lemma val_4: "val 4 v x \<longleftrightarrow> x = v" by (simp add: val_def)

lemma computes_const: "computes call (FINSH_OP_LD_DWORD # FINSH_SET32 w) 1 [] m [val 4 w] m"
  by (rule computes_pushI) (simp add: step_const val_4)

lemma computes_char: "computes call [FINSH_OP_LD_BYTE, c] 1 [] m [val 1 (ucast c)] m"
proof (rule computes_pushI)
  fix t p bs y and ys :: "u32 list" assume "at_pc t p [FINSH_OP_LD_BYTE, c]"
  then show "\<exists>x. finsh_vm_step call (conf t bs (y # ys) p m) = Some (conf t (bs @ [x]) ys (p + length [FINSH_OP_LD_BYTE, c]) m) \<and>
      val 1 (ucast c) x" using step_char [of t p c call bs y ys m] by (intro exI [of _ "set_char c y"]) (simp add: val_def)
qed

lemma computes_one: "d = FINSH_DATA_TYPE_BYTE \<or> d = FINSH_DATA_TYPE_WORD \<or> d = FINSH_DATA_TYPE_DWORD \<Longrightarrow>
    computes call (one_code d) 1 [] m [val (width d) 1] m"
  unfolding val_def by (rule computes_pushI) (rule step_one)

lemma computes_load: "scalar (ref_type vs r) \<Longrightarrow> load_as (ref_data vs r) m (ref_at gv r) = Some v \<Longrightarrow>
    computes call (load_code vs gv r) 1 [] m [val (width (ref_data vs r)) v] m"
  unfolding val_def load_code_def by (rule computes_pushI) (use step_load [OF _ ref_data_cases] in simp)

lemma computes_deref: 
  assumes "d = FINSH_DATA_TYPE_BYTE \<or> d = FINSH_DATA_TYPE_WORD \<or> d = FINSH_DATA_TYPE_DWORD" "load_as d m a = Some v"
  shows "computes call [deref_op d] 1 [val 4 a] m [val (width d) v] m"
proof (rule computes_stepI)
  fix t p and bs xs ys :: "u32 list"
  assume at: "at_pc t p [deref_op d]" and x: "list_all2 (\<lambda>P x. P x) [val 4 a] xs"
  then have x: "xs = [a]" by (auto simp: list_all2_Cons1 val_4)
  obtain z where "finsh_vm_step call (conf t (bs @ [a]) ys p m) = Some (conf t (bs @ [z]) ys (p + 1) m)" "low_bytes (width d) z = v"
    using step_deref [OF at assms(2,1), of call bs ys] by blast
  then show "\<exists>xs' ys'. finsh_vm_step call (conf t (bs @ xs) ys p m) = Some (conf t (bs @ xs') ys' (p + length [deref_op d]) m) \<and>
      list_all2 (\<lambda>P x. P x) [val (width d) v] xs' \<and> length xs' + length ys' = length xs + length ys"
    using x by (intro exI [of _ "[z]"] exI [of _ ys]) (simp add: val_def)
qed

lemma computes_store:
  assumes "d = FINSH_DATA_TYPE_BYTE \<or> d = FINSH_DATA_TYPE_WORD \<or> d = FINSH_DATA_TYPE_DWORD" "store_as d a v m = Some m'"
    "width d \<le> n" "n = 1 \<or> n = 2 \<or> n = 4"
  shows "computes call [st_op d] 2 [val 4 a, val n v] m [val 4 a] m'"
proof (rule computes_stepI)
  fix t p and bs xs ys :: "u32 list"
  assume at: "at_pc t p [st_op d]" and x: "list_all2 (\<lambda>P x. P x) [val 4 a, val n v] xs"
  then obtain x where x: "xs = [a, x]" "low_bytes n x = v" by (auto simp: list_all2_Cons1 val_4 val_def)
  then have "store_as d a x m = Some m'" using assms(2) store_as_cut [OF assms(3) _ assms(1), of a x m] assms(4) by auto
  from step_store [OF at this assms(1), of call bs ys] x
  show "\<exists>xs' ys'. finsh_vm_step call (conf t (bs @ xs) ys p m) = Some (conf t (bs @ xs') ys' (p + length [st_op d]) m') \<and>
      list_all2 (\<lambda>P x. P x) [val 4 a] xs' \<and> length xs' + length ys' = length xs + length ys"
    by (intro exI [of _ "[a]"] exI [of _ "x # ys"]) (simp add: val_4)
qed

lemma computes_bin:
  assumes "d = FINSH_DATA_TYPE_BYTE \<or> d = FINSH_DATA_TYPE_WORD \<or> d = FINSH_DATA_TYPE_DWORD"
    "arith d (op_fun opr) u v = Some r" "width d \<le> n" "n = 1 \<or> n = 2 \<or> n = 4" "width d \<le> k" "k = 1 \<or> k = 2 \<or> k = 4"
  shows "computes call [op_code opr d] 2 [val n u, val k v] m [val (width d) r] m"
proof (rule computes_stepI)
  fix t p and bs xs ys :: "u32 list"
  assume at: "at_pc t p [op_code opr d]" and x: "list_all2 (\<lambda>P x. P x) [val n u, val k v] xs"
  then obtain x y where x: "xs = [x, y]" "low_bytes n x = u" "low_bytes k y = v" by (auto simp: list_all2_Cons1 val_def)
  have "arith d (op_fun opr) x y = Some r"
    by (rule arith_cut [where n = n and k = k]) (use x assms in auto)
  from step_bin [OF at this assms(1), of call bs ys m] x obtain z where
    "finsh_vm_step call (conf t (bs @ xs) ys p m) = Some (conf t (bs @ [z]) (y # ys) (p + 1) m)" "low_bytes (width d) z = r" by auto
  then show "\<exists>xs' ys'. finsh_vm_step call (conf t (bs @ xs) ys p m) = Some (conf t (bs @ xs') ys' (p + length [op_code opr d]) m) \<and>
      list_all2 (\<lambda>P x. P x) [val (width d) r] xs' \<and> length xs' + length ys' = length xs + length ys"
    using x(1) by (intro exI [of _ "[z]"] exI [of _ "y # ys"]) (simp add: val_def)
qed

lemma computes_not:
  assumes "d = FINSH_DATA_TYPE_BYTE \<or> d = FINSH_DATA_TYPE_WORD \<or> d = FINSH_DATA_TYPE_DWORD" "width d \<le> n"
  shows "computes call [not_op d] 1 [val n v] m [val (width d) (low_bytes (width d) (NOT v))] m"
proof (rule computes_stepI)
  fix t p and bs xs ys :: "u32 list"
  assume at: "at_pc t p [not_op d]" and x: "list_all2 (\<lambda>P x. P x) [val n v] xs"
  then obtain x where x: "xs = [x]" "low_bytes n x = v" by (auto simp: list_all2_Cons1 val_def)
  have "low_bytes (width d) (NOT (low_bytes (width d) x)) = low_bytes (width d) (NOT v)" using x(2) assms(2)
    by (auto simp: low_bytes_def take_bit_not_take_bit min_absorb1 intro!: bit_word_eqI simp: bit_take_bit_iff bit_not_iff)
  with step_not [OF at assms(1), of call bs x ys m] obtain z where
    "finsh_vm_step call (conf t (bs @ [x]) ys p m) = Some (conf t (bs @ [z]) ys (p + 1) m)"
    "low_bytes (width d) z = low_bytes (width d) (NOT v)" by auto
  then show "\<exists>xs' ys'. finsh_vm_step call (conf t (bs @ xs) ys p m) = Some (conf t (bs @ xs') ys' (p + length [not_op d]) m) \<and>
      list_all2 (\<lambda>P x. P x) [val (width d) (low_bytes (width d) (NOT v))] xs' \<and> length xs' + length ys' = length xs + length ys"
    using x(1) by (intro exI [of _ "[z]"] exI [of _ ys]) (simp add: val_def)
qed

lemma computes_pop: "computes call [FINSH_OP_POP] 1 [P] m [] m"
proof (rule computes_stepI)
  fix t p and bs xs ys :: "u32 list"
  assume at: "at_pc t p [FINSH_OP_POP]" and x: "list_all2 (\<lambda>P x. P x) [P] xs"
  then obtain x where "xs = [x]" by (auto simp: list_all2_Cons1)
  then show "\<exists>xs' ys'. finsh_vm_step call (conf t (bs @ xs) ys p m) = Some (conf t (bs @ xs') ys' (p + length [FINSH_OP_POP]) m) \<and>
      list_all2 (\<lambda>P x. P x) [] xs' \<and> length xs' + length ys' = length xs + length ys"
    using step_pop [OF at, of call bs x ys m] by (intro exI [of _ "[]"] exI [of _ "x # ys"]) simp
qed

lemma computes_call:
  assumes "length vs \<le> 16" "call f (if vs = [] then [0] else vs) m = Some (r, m')"
  shows "computes call [FINSH_OP_SYSCALL, of_nat (length vs)] 1 (val 4 f # map (val 4) vs) m [val 4 r] m'"
proof (rule computes_stepI)
  fix t p and bs xs ys :: "u32 list"
  assume at: "at_pc t p [FINSH_OP_SYSCALL, of_nat (length vs)]" and x: "list_all2 (\<lambda>P x. P x) (val 4 f # map (val 4) vs) xs"
  have "list_all2 (\<lambda>P x. P x) (map (val 4) vs) zs \<Longrightarrow> zs = vs" for zs
    by (auto simp: list_all2_map1 list_all2_conv_all_nth val_4 intro: nth_equalityI)
  then have "xs = f # vs" using x by (auto simp: list_all2_Cons1 val_4)
  with step_call [where call = call and f = f and m = m and xs = vs, OF at assms, of bs ys]
  show "\<exists>xs' ys'. finsh_vm_step call (conf t (bs @ xs) ys p m) =
        Some (conf t (bs @ xs') ys' (p + length [FINSH_OP_SYSCALL, of_nat (length vs)]) m') \<and>
      list_all2 (\<lambda>P x. P x) [val 4 r] xs' \<and> length xs' + length ys' = length xs + length ys"
    by (intro exI [of _ "[r]"] exI [of _ "vs @ ys"]) (simp add: val_4)
qed

lemma depth_pos: "1 \<le> depth e"
  by (induction e) auto

lemma low_of_low: "a \<le> b \<Longrightarrow> low_bytes a (low_bytes b x) = low_bytes a x"
  by (simp add: min_absorb1)

text \<open>Storing a value and loading it again.\<close>

lemma computes_assign:
  assumes "d = FINSH_DATA_TYPE_BYTE \<or> d = FINSH_DATA_TYPE_WORD \<or> d = FINSH_DATA_TYPE_DWORD" "store_as d a v m = Some m'"
    "width d \<le> n" "n = 1 \<or> n = 2 \<or> n = 4"
  shows "computes call [st_op d, deref_op d] 2 [val 4 a, val n v] m [val (width d) (low_bytes (width d) v)] m'"
  using computes_then [where Us = "[]" and n = 2, OF _ computes_deref [OF assms(1) load_as_store(1) [OF assms(2,1)]], of call "[st_op d]" 2]
    computes_store [OF assms] by simp

text \<open>An increment stores the new value of a variable whose address and value are on the stack.\<close>

lemma computes_increment:
  assumes r: "scalar (ref_type vs r)" and l: "load_as (ref_data vs r) m (ref_at gv r) = Some x"
    and a: "arith (ref_data vs r) (op_fun opr) x 1 = Some y" and s: "store_as (ref_data vs r) (ref_at gv r) y m = Some m'"
  shows "computes call (address_code gv r @ load_code vs gv r @ one_code (ref_data vs r) @ [op_code opr (ref_data vs r), st_op (ref_data vs r)])
     3 [] m [val 4 (ref_at gv r)] m'"
proof -
  let ?d = "ref_data vs r" and ?A = "val 4 (ref_at gv r)"
  note d = ref_data_cases [OF r]
  have w: "width ?d = 1 \<or> width ?d = 2 \<or> width ?d = 4" using d by auto
  have "computes call [op_code opr ?d] 2 [val (width ?d) x, val (width ?d) 1] m [val (width ?d) y] m"
    by (rule computes_bin [OF d a le_refl w le_refl w])
  from computes_then [where Us = "[?A]" and n = 3 and k = 3 and c = "address_code gv r @ load_code vs gv r @ one_code ?d" and Ps = "[]",
      OF _ this]
  have "computes call (address_code gv r @ load_code vs gv r @ one_code ?d) 3 [] m [?A, val (width ?d) x, val (width ?d) 1] m \<Longrightarrow>
      computes call (address_code gv r @ load_code vs gv r @ one_code ?d @ [op_code opr ?d]) 3 [] m [?A, val (width ?d) y] m" by simp
  moreover have "computes call (address_code gv r) 1 [] m [?A] m" unfolding address_code_def by (rule computes_const)
  from computes_then [where Us = "[?A]" and Vs = "[]" and n = 2, OF _ computes_load [OF r l]] this
  have "computes call (address_code gv r @ load_code vs gv r) 2 [] m [?A, val (width ?d) x] m" by simp
  from computes_then [where Us = "[?A, val (width ?d) x]" and Vs = "[]" and n = 3 and c = "address_code gv r @ load_code vs gv r", OF _ computes_one [OF d]] this
  have "computes call (address_code gv r @ load_code vs gv r @ one_code ?d) 3 [] m [?A, val (width ?d) x, val (width ?d) 1] m" by simp
  ultimately have "computes call (address_code gv r @ load_code vs gv r @ one_code ?d @ [op_code opr ?d]) 3 [] m [?A, val (width ?d) y] m"
    by simp
  from computes_then [where Us = "[]" and n = 3 and c = "address_code gv r @ load_code vs gv r @ one_code ?d @ [op_code opr ?d]",
      OF _ computes_store [OF d s le_refl w]] this
  show ?thesis by simp
qed

text \<open>The code of an expression computes its value.\<close>

lemma computes_code:
  assumes call: "keeps_memory call"
  shows "well_typed vs e \<Longrightarrow> eval call gv vs e m = Some (v, m') \<Longrightarrow> mapped gv vs m \<Longrightarrow>
      computes call (code gv vs e) (depth e) [] m [val (supplied vs e) v] m'"
    "\<forall>e \<in> set es. well_typed vs e \<and> supplied vs e = 4 \<Longrightarrow> eval_args call gv vs es m = Some (xs, m') \<Longrightarrow> mapped gv vs m \<Longrightarrow>
      computes call (codes gv vs es) (depths es) [] m (map (val 4) xs) m' \<and> length xs = length es"
proof (induction gv vs e and gv vs es arbitrary: m v m' and m xs m' rule: code_codes.induct)
  case (1 gv vs t w)
  then show ?case using computes_const by simp
next
  case (2 gv vs c)
  then show ?case using computes_char [of call c m'] by auto
next
  case (3 gv vs r)
  then show ?case using computes_load by (auto simp: Option.bind_eq_Some_conv)
next
  case (4 gv vs opr a b)
  then obtain x m1 y where e: "eval call gv vs a m = Some (x, m1)" "eval call gv vs b m1 = Some (y, m')"
      "arith (dt vs a) (op_fun opr) x y = Some v" by (auto simp: Option.bind_eq_Some_conv)
  have w: "well_typed vs a" "well_typed vs b" "dt vs a \<noteq> FINSH_DATA_TYPE_VOID" "width (dt vs a) \<le> supplied vs b" using 4(3) by auto
  have "mapped gv vs m1" using mapped_dom [OF eval_dom(1) [OF call e(1)]] 4(5) by simp
  from computes_then [where Us = "[val (supplied vs a) x]" and Vs = "[]" and n = "depth (E_bin opr a b)", OF _ 4(2) [OF w(2) e(2) this]] 4(1) [OF w(1) e(1) 4(5)]
  have ab: "computes call (code gv vs a @ code gv vs b) (depth (E_bin opr a b)) [] m [val (supplied vs a) x, val (supplied vs b) y] m'"
    by simp
  have opc: "computes call [op_code opr (dt vs a)] 2 [val (supplied vs a) x, val (supplied vs b) y] m' [val (width (dt vs a)) v] m'"
    by (rule computes_bin [OF dt_cases [OF w(1,3)] e(3) width_supplied [OF w(1)] supplied_cases [OF w(1)] w(4) supplied_cases [OF w(2)]])
  then show ?case
    using computes_then [where Us = "[]", OF _ opc, of "code gv vs a @ code gv vs b"] ab depth_pos [of b] by simp
next
  case (5 gv vs a)
  then obtain x where e: "eval call gv vs a m = Some (x, m')" "v = low_bytes (width (dt vs a)) (NOT x)"
    by (auto simp: Option.bind_eq_Some_conv)
  have w: "well_typed vs a" "dt vs a \<noteq> FINSH_DATA_TYPE_VOID" using 5(2) by auto
  have n: "computes call [not_op (dt vs a)] 1 [val (supplied vs a) x] m' [val (width (dt vs a)) v] m'"
    unfolding e(2) by (rule computes_not [OF dt_cases [OF w] width_supplied [OF w(1)]])
  show ?case using computes_then [where Us = "[]", OF _ n] 5(1) [OF w(1) e(1) 5(4)] depth_pos [of a] by simp
next
  case (6 gv vs r e)
  then obtain x m1 where e: "eval call gv vs e m = Some (x, m1)" "store_as (ref_data vs r) (ref_at gv r) x m1 = Some m'"
      "v = low_bytes (width (ref_data vs r)) x" by (auto simp: Option.bind_eq_Some_conv)
  have w: "scalar (ref_type vs r)" "well_typed vs e" "width (ref_data vs r) \<le> supplied vs e" using 6(2) by auto
  have "computes call (address_code gv r) 1 [] m [val 4 (ref_at gv r)] m" unfolding address_code_def by (rule computes_const)
  from computes_then [where Us = "[val 4 (ref_at gv r)]" and Vs = "[]" and n = "1 + depth e", OF _ 6(1) [OF w(2) e(1) 6(4)]] this
  have "computes call (address_code gv r @ code gv vs e) (1 + depth e) [] m [val 4 (ref_at gv r), val (supplied vs e) x] m1" by simp
  from computes_then [where Us = "[]" and n = "1 + depth e" and c = "address_code gv r @ code gv vs e", OF _ computes_assign [OF ref_data_cases [OF w(1)] e(2) w(3) supplied_cases [OF w(2)]]] this
  show ?case using depth_pos [of e] by (simp add: e(3))
next
  case (7 gv vs p e)
  then obtain a m1 x m2 where e: "eval call gv vs p m = Some (a, m1)" "eval call gv vs e m1 = Some (x, m2)"
      "store_as (dt vs p) a x m2 = Some m'" "v = low_bytes (width (dt vs p)) x" by (auto simp: Option.bind_eq_Some_conv)
  have w: "well_typed vs p" "supplied vs p = 4" "dt vs p \<noteq> FINSH_DATA_TYPE_VOID" "well_typed vs e" "width (dt vs p) \<le> supplied vs e"
    using 7(3) by auto
  have "mapped gv vs m1" using mapped_dom [OF eval_dom(1) [OF call e(1)]] 7(5) by simp
  from computes_then [where Us = "[val 4 a]" and Vs = "[]" and n = "depth (E_store p e)", OF _ 7(2) [OF w(4) e(2) this]] 7(1) [OF w(1) e(1) 7(5)]
  have "computes call (code gv vs p @ code gv vs e) (depth (E_store p e)) [] m [val 4 a, val (supplied vs e) x] m2" by (simp add: w(2))
  from computes_then [where Us = "[]" and n = "depth (E_store p e)" and c = "code gv vs p @ code gv vs e", OF _ computes_assign [OF dt_cases [OF w(1,3)] e(3) w(5) supplied_cases [OF w(4)]]] this
  show ?case using depth_pos [of e] by (simp add: e(4))
next
  case (8 gv vs r)
  then show ?case using computes_const by (simp add: address_code_def)
next
  case (9 gv vs p)
  then obtain a where e: "eval call gv vs p m = Some (a, m')" "load_as (dt vs p) m' a = Some v"
    by (auto simp: Option.bind_eq_Some_conv)
  have w: "well_typed vs p" "supplied vs p = 4" "dt vs p \<noteq> FINSH_DATA_TYPE_VOID" using 9(2) by auto
  show ?case using computes_then [where Us = "[]", OF _ computes_deref [OF dt_cases [OF w(1,3)] e(2)]] 9(1) [OF w(1) e(1) 9(4)]
      depth_pos [of p] by (simp add: w(2))
next
  case (10 gv vs up k)
  let ?r = "R_var k" let ?d = "ref_data vs ?r"
  from 10 obtain x where e: "load_as ?d m (ref_at gv ?r) = Some x" "arith ?d (op_fun (if up then B_add else B_sub)) x 1 = Some v"
      "store_as ?d (ref_at gv ?r) v m = Some m'" by (auto simp: Option.bind_eq_Some_conv ref_at_def split: if_splits)
  have w: "k < length vs" "scalar (ref_type vs ?r)" using 10(1) by (auto simp: ref_type_var)
  have "mapped gv vs m'" using mapped_dom [OF store_dom [OF e(3)]] 10(3) by simp
  then obtain bs where bs: "bytes_at m' (ref_at gv ?r) 4 = Some bs" using w(1) by (auto simp: mapped_def ref_at_def)
  have "load_as ?d m' (ref_at gv ?r) = Some v"
    using load_as_store(1) [OF e(3) ref_data_cases [OF w(2)]] arith_low [OF e(2)] by simp
  then have v: "low_bytes (width ?d) (FINSH_GET32 bs) = v" using load_prefix [OF bs ref_data_cases [OF w(2)]] by simp
  have "load_as FINSH_DATA_TYPE_DWORD m' (ref_at gv ?r) = Some (FINSH_GET32 bs)" using bs by (simp add: load_as_def)
  from computes_deref [OF _ this] have l: "computes call [FINSH_OP_LD_VALUE_DWORD_STACK] 1 [val 4 (ref_at gv ?r)] m' [val (width ?d) v] m'"
    unfolding computes_def by (fastforce simp: deref_op_def width_op_def val_def v list_all2_Cons1)
  from computes_then [where Us = "[]" and n = 3 and c = "address_code gv ?r @ load_code vs gv ?r @ one_code ?d @
      [op_code (if up then B_add else B_sub) ?d, st_op ?d]" and k = 3 and Ps = "[]" and m = m, OF _ l] computes_increment [OF w(2) e, of call]
  show ?case by (cases up) (simp_all add: Let_def)
next
  case (11 gv vs up k)
  let ?r = "R_var k" let ?d = "ref_data vs ?r"
  from 11 obtain y where e: "load_as ?d m (ref_at gv ?r) = Some v" "arith ?d (op_fun (if up then B_add else B_sub)) v 1 = Some y"
      "store_as ?d (ref_at gv ?r) y m = Some m'" by (auto simp: Option.bind_eq_Some_conv ref_at_def split: if_splits)
  have w: "scalar (ref_type vs ?r)" using 11(1) by (auto simp: ref_type_var)
  from computes_then [where Us = "[]" and n = 3, OF _ computes_pop] computes_increment [OF w e]
  have i: "computes call ((address_code gv ?r @ load_code vs gv ?r @ one_code ?d @ [op_code (if up then B_add else B_sub) ?d, st_op ?d]) @ [FINSH_OP_POP])
      3 [] m [] m'" by fastforce
  from computes_then [where Us = "[val (width ?d) v]" and Vs = "[]" and n = 4 and c = "load_code vs gv ?r" and k = 1 and Ps = "[]" and m = m, OF _ i]
    computes_load [OF w e(1), of call]
  show ?case by (cases up) (simp_all add: Let_def)
next
  case (12 gv vs c es)
  then obtain xs m1 where e: "eval_args call gv vs es m = Some (xs, m1)" "call (syscall_func c) (if xs = [] then [0] else xs) m1 = Some (v, m')"
    by (auto simp: Option.bind_eq_Some_conv)
  have w: "length es \<le> 16" "\<forall>e \<in> set es. well_typed vs e \<and> supplied vs e = 4" using 12(2) by auto
  have es: "computes call (codes gv vs es) (depths es) [] m (map (val 4) xs) m1" "length xs = length es"
    using 12(1) [OF w(2) e(1) 12(4)] by auto
  from computes_then [where Us = "[val 4 (syscall_func c)]" and Vs = "[]" and n = "1 + depths es" and k = 1
      and c = "FINSH_OP_LD_DWORD # FINSH_SET32 (syscall_func c)" and Ps = "[]" and m = m, OF _ es(1)] computes_const
  have "computes call ((FINSH_OP_LD_DWORD # FINSH_SET32 (syscall_func c)) @ codes gv vs es) (1 + depths es) [] m
      (val 4 (syscall_func c) # map (val 4) xs) m1" by simp
  from computes_then [where Us = "[]" and n = "1 + depths es" and c = "(FINSH_OP_LD_DWORD # FINSH_SET32 (syscall_func c)) @ codes gv vs es",
      OF _ computes_call [where vs = xs and call = call and f = "syscall_func c" and m = m1, OF _ e(2)]] this
  show ?case using w(1) es(2) by simp
next
  case (13 gv vs)
  then show ?case by (auto simp: computes_def intro: exI [of _ "[]"])
next
  case (14 gv vs e es)
  then obtain x m1 ys where e: "eval call gv vs e m = Some (x, m1)" "eval_args call gv vs es m1 = Some (ys, m')" "xs = x # ys"
    by (auto simp: Option.bind_eq_Some_conv)
  have "mapped gv vs m1" using mapped_dom [OF eval_dom(1) [OF call e(1)]] 14(5) by simp
  then have es: "computes call (codes gv vs es) (depths es) [] m1 (map (val 4) ys) m'" "length ys = length es"
    using 14(2) [OF _ e(2)] 14(3) by auto
  have "computes call (code gv vs e) (depth e) [] m [val 4 x] m1" using 14(1) [OF _ e(1) 14(5)] 14(3) by simp
  from computes_then [where Us = "[val 4 x]" and Vs = "[]" and n = "depths (e # es)", OF _ es(1)] this
  show ?case using es(2) e(3) by simp
qed

subsection \<open>Compiled lines\<close>

fun line_depth :: "fexp list \<Rightarrow> nat" where
  "line_depth [] = 0"
| "line_depth (e # es) = max (depth e) (line_depth es)"

lemma computes_line:
  assumes call: "keeps_memory call"
  shows "\<forall>e \<in> set es. well_typed vs e \<Longrightarrow> eval_line call gv vs es m = Some (v, m') \<Longrightarrow> mapped gv vs m \<Longrightarrow>
    computes call (line_code gv vs es) (line_depth es) [] m [val (supplied vs (last es)) v] m'"
proof (induction gv vs es arbitrary: m rule: line_code.induct)
  case (2 gv vs e)
  then show ?case using computes_code(1) [OF call] by simp
next
  case (3 gv vs e f es)
  then obtain x m1 where e: "eval call gv vs e m = Some (x, m1)" "eval_line call gv vs (f # es) m1 = Some (v, m')"
    by (auto simp: Option.bind_eq_Some_conv)
  have "mapped gv vs m1" using mapped_dom [OF eval_dom(1) [OF call e(1)]] 3(4) by simp
  then have rest: "computes call (line_code gv vs (f # es)) (line_depth (f # es)) [] m1 [val (supplied vs (last (f # es))) v] m'"
    using 3(1) [OF _ e(2)] 3(2) by simp
  have "computes call (code gv vs e) (depth e) [] m [val (supplied vs e) x] m1"
    using computes_code(1) [OF call _ e(1)] 3(2,4) by simp
  from computes_then [where Us = "[]" and n = "depth e" and c = "code gv vs e", OF _ computes_pop] this depth_pos [of e]
  have first: "computes call (code gv vs e @ [FINSH_OP_POP]) (depth e) [] m [] m1" by fastforce
  from computes_then [where Us = "[]" and Vs = "[]" and n = "line_depth (e # f # es)" and c = "code gv vs e @ [FINSH_OP_POP]", OF _ rest] first
  show ?case by simp
qed simp

text \<open>Behind the code the text segment is zero, and a zero does nothing.\<close>

lemma loop_reach:
  assumes "vm_reach call a b" "length (text_segment a) = FINSH_TEXT_MAX"
  shows "finsh_vm_loop call a = finsh_vm_loop call b"
  using assms
proof (induction rule: converse_rtranclp_induct)
  case (step y z)
  have "finsh_pc y < FINSH_TEXT_MAX" using step(1,4)
    by (auto simp: finsh_vm_step_def operand_def Option.bind_eq_Some_conv split: if_splits)
  then have "finsh_vm_loop call y = finsh_vm_loop call z" using step(1) by (simp add: finsh_vm_loop.simps [of call y])
  moreover have "length (text_segment z) = FINSH_TEXT_MAX" using finsh_vm_step_keeps [OF step(1)] step(4) by simp
  ultimately show ?case using step.IH by simp
qed simp

lemma loop_noops:
  assumes "p + n = FINSH_TEXT_MAX" "length t = p"
  shows "finsh_vm_loop call (conf (t @ replicate n 0) bs ys p m) = Some (conf (t @ replicate n 0) bs ys FINSH_TEXT_MAX m)"
  using assms
proof (induction n arbitrary: t p)
  case 0
  then show ?case by (simp add: finsh_vm_loop.simps)
next
  case (Suc n)
  have "at_pc (t @ replicate (Suc n) 0) p [0]" using Suc.prems by (auto simp: at_pc_def)
  then have "finsh_vm_step call (conf (t @ replicate (Suc n) 0) bs ys p m) = Some (conf (t @ replicate (Suc n) 0) bs ys (Suc p) m)"
    using step_op [of _ p 0 "[]" 0 call bs ys m] by (simp add: op_table_def OP_no_op_def)
  then have "finsh_vm_loop call (conf (t @ replicate (Suc n) 0) bs ys p m) = finsh_vm_loop call (conf ((t @ [0]) @ replicate n 0) bs ys (Suc p) m)"
    using Suc.prems by (simp add: finsh_vm_loop.simps [of call "conf _ _ _ p _"])
  then show ?case using Suc.IH [of "Suc p" "t @ [0]"] Suc.prems by simp
qed

text \<open>The shell compiles a line and runs it. The cell at the bottom of the stack then has the value of the last statement, in
  the bytes that this determines.\<close>

lemma line_runs:
  assumes call: "keeps_memory call" and w: "\<forall>e \<in> set es. well_typed (global_variable s) e"
    and e: "eval_line call gv (global_variable s) es (finsh_mem (vm s)) = Some (v, m')"
    and m: "mapped gv (global_variable s) (finsh_mem (vm s))"
    and stack: "length (finsh_vm_stack (vm s)) = FINSH_STACK_MAX" "line_depth es \<le> FINSH_STACK_MAX"
    and fits: "length (line_code gv (global_variable s) es) \<le> FINSH_TEXT_MAX"
  shows "\<exists>s1 r. finsh_compiler_run gv (line_node es) s = Some s1 \<and> finsh_vm_run call (vm s1) = Some r \<and>
    global_errno s1 = global_errno s \<and>
    low_bytes (supplied (global_variable s) (last es)) (finsh_stack_bottom r) = v \<and> finsh_mem r = m'"
proof -
  let ?c = "line_code gv (global_variable s) es"
  let ?t = "?c @ replicate (FINSH_TEXT_MAX - length ?c) 0"
  let ?st = "(finsh_vm_stack (vm s))[0 := 0]"
  let ?s1 = "s\<lparr>vm := (vm s)\<lparr>text_segment := ?t, finsh_vm_stack := ?st\<rparr>, finsh_compile_pc := length ?c\<rparr>"
  have run: "finsh_compiler_run gv (line_node es) s = Some ?s1" using compiler_run_line [OF w] fits by (simp add: Let_def)
  have start: "(vm ?s1)\<lparr>finsh_sp := 0, finsh_pc := 0\<rparr> = conf ?t [] ?st 0 (finsh_mem (vm s))" by (simp add: conf_def)
  have "at_pc ?t 0 ?c" by (auto simp: at_pc_def)
  note d = computesD [OF computes_line [OF call w e m] this, of "[]" ?st "[]", unfolded append_Nil]
  have k: "line_depth es \<le> length [] + length ?st" using stack by simp
  obtain xs ys where r: "vm_reach call (conf ?t [] ?st 0 (finsh_mem (vm s))) (conf ?t xs ys (length ?c) m')"
    "list_all2 (\<lambda>P x. P x) [val (supplied (global_variable s) (last es)) v] xs" by (rule d [OF _ k]) simp_all
  then obtain x where x: "xs = [x]" "low_bytes (supplied (global_variable s) (last es)) x = v" by (auto simp: list_all2_Cons1 val_def)
  have "finsh_vm_run call (vm ?s1) = finsh_vm_loop call (conf ?t xs ys (length ?c) m')"
    unfolding finsh_vm_run_def start using loop_reach [OF r(1)] fits by (simp add: conf_def)
  also have "\<dots> = Some (conf ?t xs ys FINSH_TEXT_MAX m')" by (rule loop_noops) (use fits in simp_all)
  finally show ?thesis using run x by (intro exI [of _ ?s1] exI [of _ "conf ?t xs ys FINSH_TEXT_MAX m'"])
    (simp add: finsh_stack_bottom_def conf_def)
qed

end
