(* ===== verification/Finsh_Syntax.thy ===== *)
theory Finsh_Syntax
  imports Finsh_Parser Finsh_Exec
begin

text \<open>
  The grammar of the shell: how an expression of \<open>Finsh_Eval\<close> is written as tokens, and the proof that the parser makes its tree of
  them. Parentheses around an expression are not part of it: the parser takes what follows an opening one for the type of a
  cast, sets an error and goes on. \<open>scans\<close> says which tokens the scanner finds in the rest of a line, whatever the shell does in
  between.
\<close>

subsection \<open>Tokens of a line\<close>

datatype fitem = Tok finsh_token_type | Num finsh_token_type u32 | Name string

fun item_token :: "fitem \<Rightarrow> finsh_token_type" where
  "item_token (Tok t) = t"
| "item_token (Num t v) = t"
| "item_token (Name n) = T_identifier"

fun item_read :: "fitem \<Rightarrow> finsh_parser \<Rightarrow> bool" where
  "item_read (Tok t) s \<longleftrightarrow> tk_current s = t"
| "item_read (Num t v) s \<longleftrightarrow> tk_current s = t \<and>
     (if t = T_value_char then (ucast (tk_value s) :: u8) = ucast v else tk_value s = v)"
| "item_read (Name n) s \<longleftrightarrow> tk_current s = T_identifier \<and> tk_string s = n"

definition reads :: "finsh_parser \<Rightarrow> fitem \<Rightarrow> finsh_parser \<Rightarrow> bool" where
  "reads s x s1 \<longleftrightarrow> (\<forall>h. finsh_token_token (s\<lparr>shell := h\<rparr>) = Some (item_token x, s1\<lparr>shell := h\<rparr>)) \<and>
     item_read x s1 \<and> \<not> tk_replay s1"

fun scans :: "finsh_parser \<Rightarrow> fitem list \<Rightarrow> bool" where
  "scans s [] \<longleftrightarrow> True"
| "scans s (x # xs) \<longleftrightarrow> (\<exists>s1. reads s x s1 \<and> scans s1 xs)"

declare scans.simps(2) [simp del]

lemma item_current: "item_read x s \<Longrightarrow> tk_current s = item_token x"
  by (cases x) simp_all

lemma item_read_shell [simp]: "item_read x (s\<lparr>shell := h\<rparr>) = item_read x s" "item_read x (s\<lparr>tk_replay := b\<rparr>) = item_read x s"
  by (cases x; simp)+

lemma replay_shell [simp]: "finsh_token_replay (s\<lparr>shell := h\<rparr>) = (finsh_token_replay s)\<lparr>shell := h\<rparr>"
  by (simp add: finsh_token_replay_def)

lemma reads_replay:
  assumes "reads s x s1"
  shows "reads (finsh_token_replay s1) x s1"
proof -
  have r: "item_read x s1" "\<not> tk_replay s1" using assms by (simp_all add: reads_def)
  then have "s1\<lparr>tk_replay := False\<rparr> = s1" by (cases s1) simp
  then have "s1\<lparr>shell := h, tk_replay := False\<rparr> = s1\<lparr>shell := h\<rparr>" for h by (metis finsh_parser.update_convs(2) finsh_parser.surjective finsh_parser.update_convs(8))
  then show ?thesis using r item_current [OF r(1)] by (simp add: reads_def finsh_token_token_def finsh_token_replay_def)
qed

text \<open>The next token is read, and may be read again.\<close>

lemma next_token:
  assumes "scans s (x # xs)"
  obtains s1 where "\<And>h. finsh_token_token (s\<lparr>shell := h\<rparr>) = Some (item_token x, s1\<lparr>shell := h\<rparr>)"
    "item_read x s1" "scans s1 xs" "scans (finsh_token_replay s1) (x # xs)"
  using assms reads_replay by (fastforce simp: reads_def scans.simps(2))

subsection \<open>Printing\<close>

fun op_token :: "fop \<Rightarrow> finsh_token_type" where
  "op_token B_add = T_add"
| "op_token B_sub = T_sub"
| "op_token B_mul = T_mul"
| "op_token B_div = T_div"
| "op_token B_mod = T_mod"
| "op_token B_and = T_and"
| "op_token B_or = T_or"
| "op_token B_xor = T_xor"
| "op_token B_shl = T_shl"
| "op_token B_shr = T_shr"

fun op_level :: "fop \<Rightarrow> flevel" where
  "op_level B_add = L_additive"
| "op_level B_sub = L_additive"
| "op_level B_mul = L_multiplicative"
| "op_level B_div = L_multiplicative"
| "op_level B_mod = L_multiplicative"
| "op_level B_and = L_and"
| "op_level B_or = L_inclusive_or"
| "op_level B_xor = L_exclusive_or"
| "op_level B_shl = L_shift"
| "op_level B_shr = L_shift"

definition level_num :: "flevel \<Rightarrow> nat" where
  "level_num l = (case l of L_inclusive_or \<Rightarrow> 2 | L_exclusive_or \<Rightarrow> 3 | L_and \<Rightarrow> 4 | L_shift \<Rightarrow> 5 | L_additive \<Rightarrow> 6
     | L_multiplicative \<Rightarrow> 7)"

text \<open>How tightly an expression holds together, and a token that follows an expression binds to it.\<close>

fun prec :: "fexp \<Rightarrow> nat" where
  "prec (E_assign r e) = 1"
| "prec (E_store p e) = 1"
| "prec (E_bin opr a b) = level_num (op_level opr)"
| "prec (E_not a) = 8"
| "prec (E_addr r) = 8"
| "prec (E_deref p) = 8"
| "prec (E_pre up k) = 8"
| "prec e = 9"

definition binds :: "finsh_token_type \<Rightarrow> nat" where
  "binds t = (case t of T_assign \<Rightarrow> 1 | T_or \<Rightarrow> 2 | T_xor \<Rightarrow> 3 | T_and \<Rightarrow> 4 | T_shl \<Rightarrow> 5 | T_shr \<Rightarrow> 5 | T_add \<Rightarrow> 6
     | T_sub \<Rightarrow> 6 | T_mul \<Rightarrow> 7 | T_div \<Rightarrow> 7 | T_mod \<Rightarrow> 7 | T_inc \<Rightarrow> 9 | T_dec \<Rightarrow> 9 | T_left_paren \<Rightarrow> 9 | _ \<Rightarrow> 0)"

definition ref_name :: "finsh_var list \<Rightarrow> fref \<Rightarrow> string" where
  "ref_name vs r = (case r of R_var k \<Rightarrow> var_name (vs ! k) | R_sys v \<Rightarrow> sysvar_name v)"

definition const_token :: "fnode_type \<Rightarrow> finsh_token_type" where
  "const_token t = (case t of FINSH_NODE_VALUE_INT \<Rightarrow> T_value_int | FINSH_NODE_VALUE_LONG \<Rightarrow> T_value_long | _ \<Rightarrow> T_value_null)"

fun separated :: "fitem list list \<Rightarrow> fitem list" where
  "separated [] = []"
| "separated [x] = x"
| "separated (x # y # ys) = x @ Tok T_comma # separated (y # ys)"

fun written_exp :: "finsh_var list \<Rightarrow> fexp \<Rightarrow> fitem list" where
  "written_exp vs (E_const t w) = [if t = FINSH_NODE_VALUE_NULL then Tok T_value_null else Num (const_token t) w]"
| "written_exp vs (E_char c) = [Num T_value_char (ucast c)]"
| "written_exp vs (E_ref r) = [Name (ref_name vs r)]"
| "written_exp vs (E_bin opr a b) = written_exp vs a @ Tok (op_token opr) # written_exp vs b"
| "written_exp vs (E_not a) = Tok T_bitwise # written_exp vs a"
| "written_exp vs (E_assign r e) = Name (ref_name vs r) # Tok T_assign # written_exp vs e"
| "written_exp vs (E_store p e) = Tok T_mul # written_exp vs p @ Tok T_assign # written_exp vs e"
| "written_exp vs (E_addr r) = [Tok T_and, Name (ref_name vs r)]"
| "written_exp vs (E_deref p) = Tok T_mul # written_exp vs p"
| "written_exp vs (E_pre up k) = [Tok (if up then T_inc else T_dec), Name (ref_name vs (R_var k))]"
| "written_exp vs (E_post up k) = [Name (ref_name vs (R_var k)), Tok (if up then T_inc else T_dec)]"
| "written_exp vs (E_call c es) = Name (syscall_name c) # Tok T_left_paren # separated (map (written_exp vs) es) @ [Tok T_right_paren]"

text \<open>Expressions that can be written without parentheses, with names that are found and have a final zero.\<close>

definition ref_named :: "finsh \<Rightarrow> fref \<Rightarrow> bool" where
  "ref_named h r \<longleftrightarrow> length (ref_name (global_variable h) r) < FINSH_NAME_MAX \<and>
     find_symbol (ref_name (global_variable h) r) h =
       Some (case r of R_var k \<Rightarrow> (FINSH_IDTYPE_VAR, Id_var k) | R_sys v \<Rightarrow> (FINSH_IDTYPE_SYSVAR, Id_sysvar v))"

fun writable :: "finsh \<Rightarrow> fexp \<Rightarrow> bool" where
  "writable h (E_const t w) \<longleftrightarrow> t = FINSH_NODE_VALUE_INT \<or> t = FINSH_NODE_VALUE_LONG \<or> t = FINSH_NODE_VALUE_NULL \<and> w = 0"
| "writable h (E_char c) \<longleftrightarrow> True"
| "writable h (E_ref r) \<longleftrightarrow> ref_named h r"
| "writable h (E_bin opr a b) \<longleftrightarrow> writable h a \<and> writable h b \<and> level_num (op_level opr) \<le> prec a \<and>
     level_num (op_level opr) < prec b"
| "writable h (E_not a) \<longleftrightarrow> writable h a \<and> 8 \<le> prec a"
| "writable h (E_assign r e) \<longleftrightarrow> ref_named h r \<and> writable h e"
| "writable h (E_store p e) \<longleftrightarrow> writable h p \<and> 8 \<le> prec p \<and> writable h e"
| "writable h (E_addr r) \<longleftrightarrow> ref_named h r"
| "writable h (E_deref p) \<longleftrightarrow> writable h p \<and> 8 \<le> prec p"
| "writable h (E_pre up k) \<longleftrightarrow> ref_named h (R_var k)"
| "writable h (E_post up k) \<longleftrightarrow> ref_named h (R_var k)"
| "writable h (E_call c es) \<longleftrightarrow> length (syscall_name c) < FINSH_NAME_MAX \<and>
     find_symbol (syscall_name c) h = Some (FINSH_IDTYPE_SYSCALL, Id_syscall c) \<and> (\<forall>e \<in> set es. writable h e)"

text \<open>The entries of the table of nodes that its tree takes.\<close>

fun nodes :: "fexp \<Rightarrow> nat" where
  "nodes (E_bin opr a b) = nodes a + nodes b + 1"
| "nodes (E_not a) = nodes a + 1"
| "nodes (E_assign r e) = nodes e + 2"
| "nodes (E_store p e) = nodes p + nodes e + 2"
| "nodes (E_addr r) = 2"
| "nodes (E_deref p) = nodes p + 1"
| "nodes (E_pre up k) = 2"
| "nodes (E_post up k) = 2"
| "nodes (E_call c es) = sum_list (map nodes es) + 2"
| "nodes e = 1"

definition more_nodes :: "nat \<Rightarrow> finsh \<Rightarrow> finsh" where
  "more_nodes n h = h\<lparr>nodes_used := nodes_used h + n\<rparr>"

lemma more_nodes_symbol [simp]: "find_symbol x (more_nodes n h) = find_symbol x h"
proof -
  have "finsh_var_lookup x (more_nodes n h) = finsh_var_lookup x h" "finsh_sysvar_lookup x (more_nodes n h) = finsh_sysvar_lookup x h"
    "finsh_syscall_lookup x (more_nodes n h) = finsh_syscall_lookup x h"
    by (simp_all add: more_nodes_def finsh_var_lookup_def finsh_sysvar_lookup_def finsh_syscall_lookup_def split: option.split)
  then show ?thesis unfolding find_symbol_def by (simp only:)
qed

lemma more_nodes_simps [simp]: "nodes_used (more_nodes n h) = nodes_used h + n"
  "more_nodes m (more_nodes n h) = more_nodes (n + m) h" "more_nodes 0 h = h" "global_variable (more_nodes n h) = global_variable h"
  "global_errno (more_nodes n h) = global_errno h" "vm (more_nodes n h) = vm h"
  by (simp_all add: more_nodes_def add.assoc)

lemma ref_named_more [simp]: "ref_named (more_nodes n h) r = ref_named h r"
  by (simp add: ref_named_def)

lemma writable_more [simp]: "writable (more_nodes n h) e = writable h e"
proof (induction e rule: nodes.induct)
  case (9 c es)
  then show ?case by simp
qed simp_all

subsection \<open>Procedures of the parser\<close>

lemma parse_assign: "parse P_assign_expr s = do {
    (lhs, s) \<leftarrow> parse (P_level L_inclusive_or) s;
    (token, s) \<leftarrow> finsh_token_token s;
    if token = T_assign then do { (assign, s) \<leftarrow> parse P_assign_expr s; Some (make_node FINSH_NODE_SYS_ASSIGN lhs assign s) }
    else Some (lhs, finsh_token_replay s) }"
  by (subst parse.simps) simp

lemma parse_level: "parse (P_level l) s = do {
    (node, s) \<leftarrow> parse (operand_proc l) s; (token, s) \<leftarrow> finsh_token_token s; parse (P_level_loop l node token) s }"
  by (subst parse.simps) simp

lemma level_loop_end: "level_node l token = None \<Longrightarrow> parse (P_level_loop l node token) s = Some (node, finsh_token_replay s)"
  by (subst parse.simps) simp

lemma level_loop_op: "level_node l token = Some t \<Longrightarrow> parse (P_level_loop l node token) s = do {
    (new, s) \<leftarrow> parse (operand_proc l) s;
    (node, s) \<leftarrow> Some (if new = Null then (node, tk_error FINSH_ERROR_EXPECT_OPERATOR s) else make_node t node new s);
    (token, s) \<leftarrow> finsh_token_token s;
    parse (P_level_loop l node token) s }"
  by (subst parse.simps) simp

lemma parse_cast: "finsh_token_token s = Some (token, s1) \<Longrightarrow> token \<noteq> T_left_paren \<Longrightarrow>
    parse P_cast_expr s = parse P_unary_expr (finsh_token_replay s1)"
  by (subst parse.simps) simp

lemma parse_unary: "finsh_token_token s = Some (token, s1) \<Longrightarrow> unary_node token = Some t \<Longrightarrow>
    parse P_unary_expr s = do { (cast, s) \<leftarrow> parse P_cast_expr s1; Some (make_node t cast Null s) }"
  by (subst parse.simps) (auto simp: unary_node_def)

lemma parse_postfix: "finsh_token_token s = Some (token, s1) \<Longrightarrow> unary_node token = None \<Longrightarrow> token \<noteq> T_add \<Longrightarrow> token \<noteq> T_sub \<Longrightarrow>
    parse P_unary_expr s = parse P_postfix_expr (finsh_token_replay s1)"
  by (subst parse.simps) simp

lemma parse_postfix_expr: "parse P_postfix_expr s = do {
    (postfix, s) \<leftarrow> parse P_primary_expr s; (token, s) \<leftarrow> finsh_token_token s; parse (P_postfix_loop postfix token) s }"
  by (subst parse.simps) simp

lemma postfix_loop_end: "binds token < 9 \<Longrightarrow> parse (P_postfix_loop postfix token) s = Some (postfix, finsh_token_replay s)"
  by (subst parse.simps) (auto simp: binds_def)

lemma postfix_loop_inc: "token = T_inc \<or> token = T_dec \<Longrightarrow> parse (P_postfix_loop postfix token) s = do {
    (postfix, s) \<leftarrow> Some (make_node (if token = T_inc then FINSH_NODE_SYS_INC else FINSH_NODE_SYS_DEC) postfix Null s);
    (token, s) \<leftarrow> finsh_token_token s;
    parse (P_postfix_loop postfix token) s }"
  by (subst parse.simps) simp

lemma postfix_loop_call: "parse (P_postfix_loop postfix T_left_paren) s = do {
    (token, s) \<leftarrow> finsh_token_token s;
    (params, s) \<leftarrow> (if token \<noteq> T_right_paren then do {
        (params, s) \<leftarrow> parse P_param_list (finsh_token_replay s);
        s \<leftarrow> match_token T_right_paren s;
        Some (params, s) }
      else Some (Null, s));
    (postfix, s) \<leftarrow> Some (make_node FINSH_NODE_SYS_FUNC postfix params s);
    (token, s) \<leftarrow> finsh_token_token s;
    parse (P_postfix_loop postfix token) s }"
  by (subst parse.simps) simp

lemma parse_primary: "finsh_token_token s = Some (token, s1) \<Longrightarrow> token \<noteq> T_left_paren \<Longrightarrow>
    parse P_primary_expr s = literal token s1"
  by (subst parse.simps) simp

lemma parse_params: "parse P_param_list s = do {
    (assign, s) \<leftarrow> parse P_assign_expr s;
    if assign = Null then Some (Null, s)
    else do { (token, s) \<leftarrow> finsh_token_token s; parse (P_param_loop [assign] token) s } }"
  by (subst parse.simps) simp

lemma param_loop_end: "token \<noteq> T_comma \<Longrightarrow>
    parse (P_param_loop ns token) s = Some (link_nodes ns Null, finsh_token_replay s)"
  by (subst parse.simps) simp

lemma param_loop_comma: "parse (P_param_loop ns T_comma) s = do {
    (assign, s) \<leftarrow> parse P_assign_expr s;
    (ns, s) \<leftarrow> Some (if assign \<noteq> Null then (ns @ [assign], s) else (ns, tk_error FINSH_ERROR_EXPECT_OPERATOR s));
    (token, s) \<leftarrow> finsh_token_token s;
    parse (P_param_loop ns token) s }"
  by (subst parse.simps) simp

text \<open>A node is made, while there are entries left in the table.\<close>

lemma node_of_sibling: "\<exists>t d it v i ch. \<forall>sib. node_of e sib = FNode t d it v i sib ch"
  by (cases e) (auto simp: ref_node_def sys_node_def)

lemma make_node_of:
  assumes "nodes_used h < FINSH_NODE_MAX"
  shows "make_node t (node_of e Null) n (s\<lparr>shell := h\<rparr>) = (sys_node t 0 0 Null (node_of e n), s\<lparr>shell := more_nodes 1 h\<rparr>)"
proof -
  obtain nt d it v i ch where n: "\<And>sib. node_of e sib = FNode nt d it v i sib ch" using node_of_sibling by blast
  show ?thesis using assms by (simp add: n make_node_def on_shell_def make_sys_node_def finsh_node_allocate_def sys_node_def more_nodes_def)
qed

text \<open>What a procedure makes of tokens, when a token follows that binds less: a tree, for so many entries of the table.\<close>

definition yields :: "finsh \<Rightarrow> fproc \<Rightarrow> nat \<Rightarrow> fitem list \<Rightarrow> fnode \<Rightarrow> nat \<Rightarrow> bool" where
  "yields h p b ts node k \<longleftrightarrow> (\<forall>s n x rest. scans s (ts @ x # rest) \<longrightarrow> binds (item_token x) < b \<longrightarrow>
     nodes_used h + n + k \<le> FINSH_NODE_MAX \<longrightarrow>
     (\<exists>s1. scans s1 (x # rest) \<and> parse p (s\<lparr>shell := more_nodes n h\<rparr>) = Some (node, s1\<lparr>shell := more_nodes (n + k) h\<rparr>)))"

lemma yieldsE:
  assumes "yields h p b ts node k" "scans s (ts @ x # rest)" "binds (item_token x) < b" "nodes_used h + n + k \<le> FINSH_NODE_MAX"
  obtains s1 where "scans s1 (x # rest)" "parse p (s\<lparr>shell := more_nodes n h\<rparr>) = Some (node, s1\<lparr>shell := more_nodes (n + k) h\<rparr>)"
  using assms unfolding yields_def by blast

text \<open>A level goes on in its loop with a tree for the tokens so far.\<close>

definition leads :: "finsh \<Rightarrow> flevel \<Rightarrow> fitem list \<Rightarrow> fnode \<Rightarrow> nat \<Rightarrow> bool" where
  "leads h l ts node k \<longleftrightarrow> (\<forall>s n x rest. scans s (ts @ x # rest) \<longrightarrow> binds (item_token x) < level_num l + 1 \<longrightarrow>
     nodes_used h + n + k \<le> FINSH_NODE_MAX \<longrightarrow>
     (\<exists>s1. scans s1 (x # rest) \<and> parse (P_level l) (s\<lparr>shell := more_nodes n h\<rparr>) =
        Option.bind (finsh_token_token (s1\<lparr>shell := more_nodes (n + k) h\<rparr>)) (\<lambda>(token, s). parse (P_level_loop l node token) s)))"

lemma leadsE:
  assumes "leads h l ts node k" "scans s (ts @ x # rest)" "binds (item_token x) < level_num l + 1"
    "nodes_used h + n + k \<le> FINSH_NODE_MAX"
  obtains s1 where "scans s1 (x # rest)" "parse (P_level l) (s\<lparr>shell := more_nodes n h\<rparr>) =
    Option.bind (finsh_token_token (s1\<lparr>shell := more_nodes (n + k) h\<rparr>)) (\<lambda>(token, s). parse (P_level_loop l node token) s)"
  using assms unfolding leads_def by blast

lemma leads_operand: "yields h (operand_proc l) (level_num l + 1) ts node k \<Longrightarrow> leads h l ts node k"
  unfolding leads_def by (intro allI impI, erule (3) yieldsE) (auto simp: parse_level)

lemma level_node_binds: "binds token < level_num l \<Longrightarrow> level_node l token = None"
  by (cases l) (auto simp: level_node_def level_num_def binds_def)

lemma level_node_op: "level_node (op_level opr) (op_token opr) = Some (op_node opr)" "binds (op_token opr) = level_num (op_level opr)"
  by (cases opr; simp add: level_node_def binds_def level_num_def)+

lemma leads_yields:
  assumes "leads h l ts node k"
  shows "yields h (P_level l) (level_num l) ts node k"
  unfolding yields_def
proof (intro allI impI)
  fix s n x rest
  assume a: "scans s (ts @ x # rest)" "binds (item_token x) < level_num l" "nodes_used h + n + k \<le> FINSH_NODE_MAX"
  then have b: "binds (item_token x) < level_num l + 1" by simp
  obtain s1 where s1: "scans s1 (x # rest)" "parse (P_level l) (s\<lparr>shell := more_nodes n h\<rparr>) =
    Option.bind (finsh_token_token (s1\<lparr>shell := more_nodes (n + k) h\<rparr>)) (\<lambda>(token, s). parse (P_level_loop l node token) s)"
    by (rule leadsE [OF assms a(1) b a(3)])
  obtain s2 where "\<And>h. finsh_token_token (s1\<lparr>shell := h\<rparr>) = Some (item_token x, s2\<lparr>shell := h\<rparr>)"
    "scans (finsh_token_replay s2) (x # rest)" by (rule next_token [OF s1(1)]) blast
  then show "\<exists>s1. scans s1 (x # rest) \<and> parse (P_level l) (s\<lparr>shell := more_nodes n h\<rparr>) = Some (node, s1\<lparr>shell := more_nodes (n + k) h\<rparr>)"
    using s1(2) level_node_binds [OF a(2)] by (auto simp: level_loop_end)
qed

lemma leads_bin:
  assumes a: "leads h l ts (node_of a Null) k" and b: "yields h (operand_proc l) (level_num l + 1) us (node_of b Null) k'" and l: "op_level opr = l"
  shows "leads h l (ts @ Tok (op_token opr) # us) (node_of (E_bin opr a b) Null) (k + k' + 1)"
  unfolding leads_def
proof (intro allI impI)
  fix s n x rest
  assume asm: "scans s ((ts @ Tok (op_token opr) # us) @ x # rest)" "binds (item_token x) < level_num l + 1"
    "nodes_used h + n + (k + k' + 1) \<le> FINSH_NODE_MAX"
  have sc: "scans s (ts @ Tok (op_token opr) # us @ x # rest)" using asm(1) by simp
  obtain s1 where s1: "scans s1 (Tok (op_token opr) # us @ x # rest)" "parse (P_level l) (s\<lparr>shell := more_nodes n h\<rparr>) =
    Option.bind (finsh_token_token (s1\<lparr>shell := more_nodes (n + k) h\<rparr>)) (\<lambda>(token, s). parse (P_level_loop l (node_of a Null) token) s)"
    by (rule leadsE [OF a sc]) (use asm(3) l in \<open>auto simp: level_node_op\<close>)
  obtain s2 where s2: "\<And>h. finsh_token_token (s1\<lparr>shell := h\<rparr>) = Some (op_token opr, s2\<lparr>shell := h\<rparr>)" "scans s2 (us @ x # rest)"
    by (rule next_token [OF s1(1)]) simp
  obtain s3 where s3: "scans s3 (x # rest)"
    "parse (operand_proc l) (s2\<lparr>shell := more_nodes (n + k) h\<rparr>) = Some (node_of b Null, s3\<lparr>shell := more_nodes (n + k + k') h\<rparr>)"
    by (rule yieldsE [OF b s2(2) asm(2)]) (use asm(3) in auto)
  have nn: "node_of b Null \<noteq> Null" using node_of_sibling [of b] by auto
  have mk: "make_node (op_node opr) (node_of a Null) (node_of b Null) (s3\<lparr>shell := more_nodes (n + k + k') h\<rparr>) =
    (node_of (E_bin opr a b) Null, s3\<lparr>shell := more_nodes (n + (k + k' + 1)) h\<rparr>)"
    by (subst make_node_of) (use asm(3) in \<open>simp_all add: add.assoc\<close>)
  have "level_node l (op_token opr) = Some (op_node opr)" using level_node_op(1) [of opr] l by simp
  note loop = level_loop_op [OF this]
  have "parse (P_level l) (s\<lparr>shell := more_nodes n h\<rparr>) =
    Option.bind (finsh_token_token (s3\<lparr>shell := more_nodes (n + (k + k' + 1)) h\<rparr>)) (\<lambda>(token, s). parse (P_level_loop l (node_of (E_bin opr a b) Null) token) s)"
    unfolding s1(2) by (simp add: s2(1) loop s3(2) nn mk del: node_of.simps)
  with s3(1) show "\<exists>s1. scans s1 (x # rest) \<and> parse (P_level l) (s\<lparr>shell := more_nodes n h\<rparr>) =
    Option.bind (finsh_token_token (s1\<lparr>shell := more_nodes (n + (k + k' + 1)) h\<rparr>)) (\<lambda>(token, s). parse (P_level_loop l (node_of (E_bin opr a b) Null) token) s)"
    by blast
qed

lemma yields_weaken: "yields h p b ts node k \<Longrightarrow> b' \<le> b \<Longrightarrow> yields h p b' ts node k"
  unfolding yields_def by (meson less_le_trans)

lemma leads_lower:
  assumes "leads h l ts node k" "level_num l' \<le> level_num l"
  shows "leads h l' ts node k"
proof -
  have step: "leads h l1 ts node k \<Longrightarrow> operand_proc l2 = P_level l1 \<Longrightarrow> level_num l1 = level_num l2 + 1 \<Longrightarrow> leads h l2 ts node k" for l1 l2
    using leads_yields leads_operand by metis
  note steps = step [of L_multiplicative L_additive] step [of L_additive L_shift] step [of L_shift L_and]
    step [of L_and L_exclusive_or] step [of L_exclusive_or L_inclusive_or]
  show ?thesis
    using assms steps by (cases l; cases l') (simp_all add: level_num_def operand_proc_def)
qed

lemma cast_leads: "yields h P_cast_expr 8 ts node k \<Longrightarrow> leads h l ts node k"
  by (rule leads_lower [of h L_multiplicative])
     (auto intro!: leads_operand simp: operand_proc_def level_num_def split: flevel.split)

lemma leads_assign:
  assumes "leads h l ts node k"
  shows "yields h P_assign_expr 1 ts node k"
  unfolding yields_def
proof (intro allI impI)
  fix s n x rest
  assume a: "scans s (ts @ x # rest)" "binds (item_token x) < 1" "nodes_used h + n + k \<le> FINSH_NODE_MAX"
  have "yields h (P_level L_inclusive_or) 2 ts node k"
    using leads_yields [OF leads_lower [OF assms, of L_inclusive_or]] by (cases l) (simp_all add: level_num_def)
  then obtain s1 where s1: "scans s1 (x # rest)"
    "parse (P_level L_inclusive_or) (s\<lparr>shell := more_nodes n h\<rparr>) = Some (node, s1\<lparr>shell := more_nodes (n + k) h\<rparr>)"
    by (rule yieldsE [OF _ a(1)]) (use a in simp_all)
  obtain s2 where "\<And>h. finsh_token_token (s1\<lparr>shell := h\<rparr>) = Some (item_token x, s2\<lparr>shell := h\<rparr>)"
    "scans (finsh_token_replay s2) (x # rest)" by (rule next_token [OF s1(1)]) blast
  moreover have "item_token x \<noteq> T_assign" using a(2) by (auto simp: binds_def)
  ultimately show "\<exists>s1. scans s1 (x # rest) \<and> parse P_assign_expr (s\<lparr>shell := more_nodes n h\<rparr>) = Some (node, s1\<lparr>shell := more_nodes (n + k) h\<rparr>)"
    using s1(2) by (auto simp: parse_assign)
qed

subsection \<open>Operands\<close>

text \<open>An assignment, to a variable or through an address.\<close>

lemma assign_yields:
  assumes l: "yields h (P_level L_inclusive_or) 2 ts (node_of a Null) k" and r: "yields h P_assign_expr 1 us (node_of b Null) k'"
  shows "yields h P_assign_expr 1 (ts @ Tok T_assign # us) (sys_node FINSH_NODE_SYS_ASSIGN 0 0 Null (node_of a (node_of b Null))) (k + k' + 1)"
  unfolding yields_def
proof (intro allI impI)
  fix s n x rest
  assume asm: "scans s ((ts @ Tok T_assign # us) @ x # rest)" "binds (item_token x) < 1" "nodes_used h + n + (k + k' + 1) \<le> FINSH_NODE_MAX"
  have sc: "scans s (ts @ Tok T_assign # us @ x # rest)" using asm(1) by simp
  obtain s1 where s1: "scans s1 (Tok T_assign # us @ x # rest)"
    "parse (P_level L_inclusive_or) (s\<lparr>shell := more_nodes n h\<rparr>) = Some (node_of a Null, s1\<lparr>shell := more_nodes (n + k) h\<rparr>)"
    by (rule yieldsE [OF l sc]) (use asm(3) in \<open>auto simp: binds_def\<close>)
  obtain s2 where s2: "\<And>h. finsh_token_token (s1\<lparr>shell := h\<rparr>) = Some (T_assign, s2\<lparr>shell := h\<rparr>)" "scans s2 (us @ x # rest)"
    by (rule next_token [OF s1(1)]) simp
  obtain s3 where s3: "scans s3 (x # rest)"
    "parse P_assign_expr (s2\<lparr>shell := more_nodes (n + k) h\<rparr>) = Some (node_of b Null, s3\<lparr>shell := more_nodes (n + k + k') h\<rparr>)"
    by (rule yieldsE [OF r s2(2) asm(2)]) (use asm(3) in auto)
  have "make_node FINSH_NODE_SYS_ASSIGN (node_of a Null) (node_of b Null) (s3\<lparr>shell := more_nodes (n + k + k') h\<rparr>) =
    (sys_node FINSH_NODE_SYS_ASSIGN 0 0 Null (node_of a (node_of b Null)), s3\<lparr>shell := more_nodes (n + (k + k' + 1)) h\<rparr>)"
    by (subst make_node_of) (use asm(3) in \<open>simp_all add: add.assoc\<close>)
  with s3 show "\<exists>s1. scans s1 (x # rest) \<and> parse P_assign_expr (s\<lparr>shell := more_nodes n h\<rparr>) =
      Some (sys_node FINSH_NODE_SYS_ASSIGN 0 0 Null (node_of a (node_of b Null)), s1\<lparr>shell := more_nodes (n + (k + k' + 1)) h\<rparr>)"
    by (subst parse_assign) (auto simp: s1(2) s2(1))
qed

text \<open>An operator in front of an operand.\<close>

lemma unary_yields:
  assumes u: "unary_node token = Some t" and c: "yields h P_cast_expr 8 ts (node_of a Null) k"
  shows "yields h P_cast_expr 8 (Tok token # ts) (sys_node t 0 0 Null (node_of a Null)) (k + 1)"
  unfolding yields_def
proof (intro allI impI)
  fix s n x rest
  assume asm: "scans s ((Tok token # ts) @ x # rest)" "binds (item_token x) < 8" "nodes_used h + n + (k + 1) \<le> FINSH_NODE_MAX"
  have sc: "scans s (Tok token # ts @ x # rest)" using asm(1) by simp
  have np: "token \<noteq> T_left_paren" using u by (auto simp: unary_node_def)
  obtain s1 where s1: "\<And>h. finsh_token_token (s\<lparr>shell := h\<rparr>) = Some (token, s1\<lparr>shell := h\<rparr>)"
    "scans (finsh_token_replay s1) (Tok token # ts @ x # rest)" by (rule next_token [OF sc]) simp
  obtain s2 where s2: "\<And>h. finsh_token_token ((finsh_token_replay s1)\<lparr>shell := h\<rparr>) = Some (token, s2\<lparr>shell := h\<rparr>)"
    "scans s2 (ts @ x # rest)" by (rule next_token [OF s1(2)]) simp
  obtain s3 where s3: "scans s3 (x # rest)"
    "parse P_cast_expr (s2\<lparr>shell := more_nodes n h\<rparr>) = Some (node_of a Null, s3\<lparr>shell := more_nodes (n + k) h\<rparr>)"
    by (rule yieldsE [OF c s2(2) asm(2)]) (use asm(3) in auto)
  have "make_node t (node_of a Null) Null (s3\<lparr>shell := more_nodes (n + k) h\<rparr>) =
    (sys_node t 0 0 Null (node_of a Null), s3\<lparr>shell := more_nodes (n + (k + 1)) h\<rparr>)"
    by (subst make_node_of) (use asm(3) in \<open>simp_all add: add.assoc\<close>)
  with s3 show "\<exists>s1. scans s1 (x # rest) \<and> parse P_cast_expr (s\<lparr>shell := more_nodes n h\<rparr>) =
      Some (sys_node t 0 0 Null (node_of a Null), s1\<lparr>shell := more_nodes (n + (k + 1)) h\<rparr>)"
    by (auto simp: parse_cast [OF s1(1) np] parse_unary [OF s2(1) u])
qed

text \<open>What begins with a constant or a name.\<close>

definition primary :: "finsh \<Rightarrow> fitem \<Rightarrow> fnode \<Rightarrow> bool" where
  "primary h y node \<longleftrightarrow> (\<forall>s n rest. scans s (y # rest) \<longrightarrow> nodes_used h + n < FINSH_NODE_MAX \<longrightarrow>
     (\<exists>s1. scans s1 rest \<and> parse P_primary_expr (s\<lparr>shell := more_nodes n h\<rparr>) = Some (node, s1\<lparr>shell := more_nodes (n + 1) h\<rparr>)))"

lemma primaryE:
  assumes "primary h y node" "scans s (y # rest)" "nodes_used h + n < FINSH_NODE_MAX"
  obtains s1 where "scans s1 rest" "parse P_primary_expr (s\<lparr>shell := more_nodes n h\<rparr>) = Some (node, s1\<lparr>shell := more_nodes (n + 1) h\<rparr>)"
  using assms unfolding primary_def by blast

lemma primary_literal:
  assumes "item_token y \<noteq> T_left_paren"
    "\<And>s h. item_read y s \<Longrightarrow> nodes_used h < FINSH_NODE_MAX \<Longrightarrow>
       literal (item_token y) (s\<lparr>shell := h\<rparr>) = Some (node, s\<lparr>shell := more_nodes 1 h\<rparr>)"
  shows "primary h y node"
  unfolding primary_def
proof (intro allI impI)
  fix s n rest
  assume a: "scans s (y # rest)" "nodes_used h + n < FINSH_NODE_MAX"
  obtain s1 where s1: "\<And>h. finsh_token_token (s\<lparr>shell := h\<rparr>) = Some (item_token y, s1\<lparr>shell := h\<rparr>)" "item_read y s1" "scans s1 rest"
    by (rule next_token [OF a(1)]) blast
  with a(2) show "\<exists>s1. scans s1 rest \<and> parse P_primary_expr (s\<lparr>shell := more_nodes n h\<rparr>) = Some (node, s1\<lparr>shell := more_nodes (n + 1) h\<rparr>)"
    by (auto simp: parse_primary [OF s1(1) assms(1)] assms(2))
qed

lemma primary_const: "writable h (E_const t w) \<Longrightarrow>
    primary h (if t = FINSH_NODE_VALUE_NULL then Tok T_value_null else Num (const_token t) w) (node_of (E_const t w) Null)"
  by (rule primary_literal)
     (auto simp: literal_def const_token_def on_shell_def finsh_node_new_int_def finsh_node_new_long_def finsh_node_new_ptr_def
       new_value_def finsh_node_allocate_def more_nodes_def)

lemma primary_char: "primary h (Num T_value_char (ucast c)) (node_of (E_char c) Null)"
  by (rule primary_literal)
     (auto simp: literal_def on_shell_def finsh_node_new_char_def new_value_def finsh_node_allocate_def more_nodes_def)

lemma primary_name:
  assumes f: "find_symbol name h = Some (t, i)" and l: "length name < FINSH_NAME_MAX"
  shows "primary h (Name name) (FNode FINSH_NODE_ID 0 t 0 i Null Null)"
  unfolding primary_def
proof (intro allI impI)
  fix s n rest
  assume a: "scans s (Name name # rest)" "nodes_used h + n < FINSH_NODE_MAX"
  obtain s1 where s1: "\<And>h. finsh_token_token (s\<lparr>shell := h\<rparr>) = Some (T_identifier, s1\<lparr>shell := h\<rparr>)"
    "scans (finsh_token_replay s1) (Name name # rest)" by (rule next_token [OF a(1)]) simp
  obtain s2 where s2: "\<And>h. finsh_token_token ((finsh_token_replay s1)\<lparr>shell := h\<rparr>) = Some (T_identifier, s2\<lparr>shell := h\<rparr>)"
    "tk_string s2 = name" "scans s2 rest" by (rule next_token [OF s1(2)]) simp
  have "parse P_primary_expr (s\<lparr>shell := more_nodes n h\<rparr>) = Some (FNode FINSH_NODE_ID 0 t 0 i Null Null, s2\<lparr>shell := more_nodes (n + 1) h\<rparr>)"
    using a(2) l f s2(2) by (simp add: parse_primary [OF s1(1)] literal_def proc_identifier_def match_token_def s2(1) check_token_def
        on_shell_def finsh_node_new_id_def finsh_node_allocate_def del: more_nodes_simps(2)) (simp add: more_nodes_def)
  with s2(3) show "\<exists>s1. scans s1 rest \<and> parse P_primary_expr (s\<lparr>shell := more_nodes n h\<rparr>) =
      Some (FNode FINSH_NODE_ID 0 t 0 i Null Null, s1\<lparr>shell := more_nodes (n + 1) h\<rparr>)" by blast
qed

lemma postfix_name:
  assumes p: "primary h y node"
  shows "yields h P_postfix_expr 9 [y] node 1"
  unfolding yields_def
proof (intro allI impI)
  fix s n x rest
  assume asm: "scans s ([y] @ x # rest)" "binds (item_token x) < 9" "nodes_used h + n + 1 \<le> FINSH_NODE_MAX"
  obtain s1 where s1: "scans s1 (x # rest)" "parse P_primary_expr (s\<lparr>shell := more_nodes n h\<rparr>) = Some (node, s1\<lparr>shell := more_nodes (n + 1) h\<rparr>)"
    by (rule primaryE [OF p, of s "x # rest" n]) (use asm in auto)
  obtain s2 where s2: "\<And>h. finsh_token_token (s1\<lparr>shell := h\<rparr>) = Some (item_token x, s2\<lparr>shell := h\<rparr>)"
    "scans (finsh_token_replay s2) (x # rest)" by (rule next_token [OF s1(1)]) blast
  then show "\<exists>s1. scans s1 (x # rest) \<and> parse P_postfix_expr (s\<lparr>shell := more_nodes n h\<rparr>) = Some (node, s1\<lparr>shell := more_nodes (n + 1) h\<rparr>)"
    by (auto simp: parse_postfix_expr s1(2) s2(1) postfix_loop_end [OF asm(2)])
qed

lemma postfix_inc:
  assumes p: "primary h y (node_of a Null)" and t: "token = T_inc \<or> token = T_dec"
  shows "yields h P_postfix_expr 9 [y, Tok token]
    (sys_node (if token = T_inc then FINSH_NODE_SYS_INC else FINSH_NODE_SYS_DEC) 0 0 Null (node_of a Null)) 2"
  unfolding yields_def
proof (intro allI impI)
  fix s n x rest
  assume asm: "scans s ([y, Tok token] @ x # rest)" "binds (item_token x) < 9" "nodes_used h + n + 2 \<le> FINSH_NODE_MAX"
  let ?t = "if token = T_inc then FINSH_NODE_SYS_INC else FINSH_NODE_SYS_DEC"
  obtain s1 where s1: "scans s1 (Tok token # x # rest)"
    "parse P_primary_expr (s\<lparr>shell := more_nodes n h\<rparr>) = Some (node_of a Null, s1\<lparr>shell := more_nodes (n + 1) h\<rparr>)"
    by (rule primaryE [OF p, of s "Tok token # x # rest" n]) (use asm in auto)
  obtain s2 where s2: "\<And>h. finsh_token_token (s1\<lparr>shell := h\<rparr>) = Some (token, s2\<lparr>shell := h\<rparr>)"
    "scans s2 (x # rest)" by (rule next_token [OF s1(1)]) simp
  obtain s3 where s3: "\<And>h. finsh_token_token (s2\<lparr>shell := h\<rparr>) = Some (item_token x, s3\<lparr>shell := h\<rparr>)"
    "scans (finsh_token_replay s3) (x # rest)" by (rule next_token [OF s2(2)]) blast
  have "make_node ?t (node_of a Null) Null (s2\<lparr>shell := more_nodes (n + 1) h\<rparr>) =
    (sys_node ?t 0 0 Null (node_of a Null), s2\<lparr>shell := more_nodes (n + 2) h\<rparr>)"
    by (subst make_node_of) (use asm(3) in \<open>simp_all add: numeral_2_eq_2\<close>)
  with s3 show "\<exists>s1. scans s1 (x # rest) \<and> parse P_postfix_expr (s\<lparr>shell := more_nodes n h\<rparr>) =
      Some (sys_node ?t 0 0 Null (node_of a Null), s1\<lparr>shell := more_nodes (n + 2) h\<rparr>)"
    by (auto simp: parse_postfix_expr s1(2) s2(1) postfix_loop_inc [OF t] postfix_loop_end [OF asm(2)])
qed

text \<open>The arguments of a call.\<close>

lemma link_nodes_of: "link_nodes (map (\<lambda>e. node_of e Null) es) Null = nodes_of es"
proof (induction es)
  case (Cons e es)
  obtain t d it v i ch where n: "\<And>sib. node_of e sib = FNode t d it v i sib ch" using node_of_sibling by blast
  show ?case by (simp add: n Cons)
qed simp

definition arguments :: "finsh \<Rightarrow> fexp list \<Rightarrow> bool" where
  "arguments h es \<longleftrightarrow> (\<forall>e \<in> set es. yields h P_assign_expr 1 (written_exp (global_variable h) e) (node_of e Null) (nodes e))"

lemma param_loop_yields:
  assumes "arguments h es" "scans s (concat (map (\<lambda>e. Tok T_comma # written_exp (global_variable h) e) es) @ Tok T_right_paren # rest)"
    "nodes_used h + n + sum_list (map nodes es) \<le> FINSH_NODE_MAX"
  shows "\<exists>s1. scans s1 (Tok T_right_paren # rest) \<and>
    Option.bind (finsh_token_token (s\<lparr>shell := more_nodes n h\<rparr>)) (\<lambda>(token, s). parse (P_param_loop ns token) s) =
      Some (link_nodes (ns @ map (\<lambda>e. node_of e Null) es) Null, s1\<lparr>shell := more_nodes (n + sum_list (map nodes es)) h\<rparr>)"
  using assms
proof (induction es arbitrary: s n ns)
  case Nil
  obtain s1 where "\<And>h. finsh_token_token (s\<lparr>shell := h\<rparr>) = Some (T_right_paren, s1\<lparr>shell := h\<rparr>)"
    "scans (finsh_token_replay s1) (Tok T_right_paren # rest)" by (rule next_token [of s "Tok T_right_paren" rest]) (use Nil(2) in simp_all)
  then show ?case by (auto simp: param_loop_end)
next
  case (Cons e es)
  let ?c = "concat (map (\<lambda>e. Tok T_comma # written_exp (global_variable h) e) es) @ Tok T_right_paren # rest"
  obtain x r where x: "?c = x # r" "binds (item_token x) < 1" by (cases es) (auto simp: binds_def)
  have sc: "scans s (Tok T_comma # written_exp (global_variable h) e @ x # r)" using Cons(3) by (simp flip: x(1))
  obtain s1 where s1: "\<And>h. finsh_token_token (s\<lparr>shell := h\<rparr>) = Some (T_comma, s1\<lparr>shell := h\<rparr>)"
    "scans s1 (written_exp (global_variable h) e @ x # r)" by (rule next_token [OF sc]) simp
  have y: "yields h P_assign_expr 1 (written_exp (global_variable h) e) (node_of e Null) (nodes e)" "arguments h es"
    using Cons(2) by (simp_all add: arguments_def)
  obtain s2 where s2: "scans s2 (x # r)"
    "parse P_assign_expr (s1\<lparr>shell := more_nodes n h\<rparr>) = Some (node_of e Null, s2\<lparr>shell := more_nodes (n + nodes e) h\<rparr>)"
    by (rule yieldsE [OF y(1) s1(2) x(2)]) (use Cons(4) in auto)
  have nn: "node_of e Null \<noteq> Null" using node_of_sibling [of e] by auto
  have "nodes_used h + (n + nodes e) + sum_list (map nodes es) \<le> FINSH_NODE_MAX" using Cons(4) by simp
  from Cons(1) [OF y(2) s2(1) [folded x(1)] this, of "ns @ [node_of e Null]"] show ?case
    by (simp add: s1(1) param_loop_comma s2(2) nn add.assoc)
qed

lemma separated_concat: "separated (x # xs) = x @ concat (map (\<lambda>y. Tok T_comma # y) xs)"
  by (induction xs arbitrary: x) simp_all

lemma params_yield:
  assumes es: "arguments h es" "es \<noteq> []" and s: "scans s (separated (map (written_exp (global_variable h)) es) @ Tok T_right_paren # rest)"
    and f: "nodes_used h + n + sum_list (map nodes es) \<le> FINSH_NODE_MAX"
  shows "\<exists>s1. scans s1 (Tok T_right_paren # rest) \<and> parse P_param_list (s\<lparr>shell := more_nodes n h\<rparr>) =
    Some (nodes_of es, s1\<lparr>shell := more_nodes (n + sum_list (map nodes es)) h\<rparr>)"
proof -
  obtain e fs where e: "es = e # fs" using es(2) by (cases es) auto
  let ?c = "concat (map (\<lambda>e. Tok T_comma # written_exp (global_variable h) e) fs) @ Tok T_right_paren # rest"
  obtain x r where x: "?c = x # r" "binds (item_token x) < 1" by (cases fs) (auto simp: binds_def)
  have sc: "scans s (written_exp (global_variable h) e @ x # r)" using s by (simp add: e separated_concat comp_def flip: x(1))
  have y: "yields h P_assign_expr 1 (written_exp (global_variable h) e) (node_of e Null) (nodes e)" "arguments h fs"
    using es(1) by (simp_all add: arguments_def e)
  obtain s2 where s2: "scans s2 (x # r)"
    "parse P_assign_expr (s\<lparr>shell := more_nodes n h\<rparr>) = Some (node_of e Null, s2\<lparr>shell := more_nodes (n + nodes e) h\<rparr>)"
    by (rule yieldsE [OF y(1) sc x(2)]) (use f in \<open>auto simp: e\<close>)
  have nn: "node_of e Null \<noteq> Null" using node_of_sibling [of e] by auto
  have "nodes_used h + (n + nodes e) + sum_list (map nodes fs) \<le> FINSH_NODE_MAX" using f by (simp add: e)
  from param_loop_yields [OF y(2) s2(1) [folded x(1)] this, of "[node_of e Null]"] show ?thesis
    using link_nodes_of [of "e # fs"] by (simp add: parse_params s2(2) nn add.assoc e)
qed

text \<open>The first token says what an operand is.\<close>

definition begins :: "finsh_token_type \<Rightarrow> bool" where
  "begins token \<longleftrightarrow> token \<in> {T_identifier, T_value_int, T_value_long, T_value_char, T_value_null}"

lemma postfix_cast:
  assumes y: "yields h P_postfix_expr 9 (y # ys) node k" and b: "begins (item_token y)"
  shows "yields h P_cast_expr 8 (y # ys) node k"
  unfolding yields_def
proof (intro allI impI)
  fix s n x rest
  assume asm: "scans s ((y # ys) @ x # rest)" "binds (item_token x) < 8" "nodes_used h + n + k \<le> FINSH_NODE_MAX"
  have sc: "scans s (y # ys @ x # rest)" using asm(1) by simp
  have t: "item_token y \<noteq> T_left_paren" "unary_node (item_token y) = None" "item_token y \<noteq> T_add" "item_token y \<noteq> T_sub"
    using b by (auto simp: begins_def unary_node_def)
  obtain s1 where s1: "\<And>h. finsh_token_token (s\<lparr>shell := h\<rparr>) = Some (item_token y, s1\<lparr>shell := h\<rparr>)"
    "scans (finsh_token_replay s1) (y # ys @ x # rest)" by (rule next_token [OF sc]) blast
  obtain s2 where s2: "\<And>h. finsh_token_token ((finsh_token_replay s1)\<lparr>shell := h\<rparr>) = Some (item_token y, s2\<lparr>shell := h\<rparr>)"
    "scans (finsh_token_replay s2) (y # ys @ x # rest)" by (rule next_token [OF s1(2)]) blast
  have sc2: "scans (finsh_token_replay s2) ((y # ys) @ x # rest)" using s2(2) by simp
  obtain s3 where s3: "scans s3 (x # rest)"
    "parse P_postfix_expr ((finsh_token_replay s2)\<lparr>shell := more_nodes n h\<rparr>) = Some (node, s3\<lparr>shell := more_nodes (n + k) h\<rparr>)"
    by (rule yieldsE [OF y sc2, of n]) (use asm in auto)
  then show "\<exists>s1. scans s1 (x # rest) \<and> parse P_cast_expr (s\<lparr>shell := more_nodes n h\<rparr>) = Some (node, s1\<lparr>shell := more_nodes (n + k) h\<rparr>)"
    by (auto simp: parse_cast [OF s1(1) t(1)] parse_postfix [OF s2(1) t(2-4)])
qed

definition starts :: "finsh_token_type \<Rightarrow> bool" where
  "starts token \<longleftrightarrow> begins token \<or> unary_node token \<noteq> None"

lemma starts_not: "starts token \<Longrightarrow> token \<notin> {T_right_paren, T_semicolon, T_eof, T_bad} \<and> \<not> is_declaration token"
  by (cases token) (simp_all add: starts_def begins_def unary_node_def is_declaration_def is_base_type_def)

lemma written_begins: "\<exists>y ys. written_exp vs e = y # ys \<and> starts (item_token y)"
  by (induction e) (auto simp: starts_def begins_def const_token_def unary_node_def split: fnode_type.split)

lemma match_token_Tok:
  assumes "\<And>h. finsh_token_token (s\<lparr>shell := h\<rparr>) = Some (t, s1\<lparr>shell := h\<rparr>)"
  shows "match_token t (s\<lparr>shell := h\<rparr>) = Some (s1\<lparr>shell := h\<rparr>)"
  by (simp add: match_token_def assms check_token_def)

definition call_node :: "finsh_syscall \<Rightarrow> fnode \<Rightarrow> fnode" where
  "call_node c = (\<lambda>sib. FNode FINSH_NODE_ID 0 FINSH_IDTYPE_SYSCALL 0 (Id_syscall c) sib Null)"

lemma make_call_node:
  assumes "nodes_used h < FINSH_NODE_MAX"
  shows "make_node t (call_node c Null) n (s\<lparr>shell := h\<rparr>) = (sys_node t 0 0 Null (call_node c n), s\<lparr>shell := more_nodes 1 h\<rparr>)"
  using assms by (simp add: call_node_def make_node_def on_shell_def make_sys_node_def finsh_node_allocate_def sys_node_def more_nodes_def)

text \<open>The part of a call in parentheses.\<close>

lemma call_arguments:
  assumes es: "arguments h es" and s: "scans s (separated (map (written_exp (global_variable h)) es) @ Tok T_right_paren # rest)"
    and f: "nodes_used h + n + sum_list (map nodes es) < FINSH_NODE_MAX"
  shows "\<exists>s1. scans s1 rest \<and> parse (P_postfix_loop (call_node c Null) T_left_paren) (s\<lparr>shell := more_nodes n h\<rparr>) = do {
    (token, s) \<leftarrow> finsh_token_token (s1\<lparr>shell := more_nodes (n + sum_list (map nodes es) + 1) h\<rparr>);
    parse (P_postfix_loop (node_of (E_call c es) Null) token) s }"
proof (cases es)
  case Nil
  obtain s1 where s1: "\<And>h. finsh_token_token (s\<lparr>shell := h\<rparr>) = Some (T_right_paren, s1\<lparr>shell := h\<rparr>)" "scans s1 rest"
    by (rule next_token [of s "Tok T_right_paren" rest]) (use s Nil in simp_all)
  have "make_node FINSH_NODE_SYS_FUNC (call_node c Null) Null (s1\<lparr>shell := more_nodes n h\<rparr>) =
    (node_of (E_call c es) Null, s1\<lparr>shell := more_nodes (n + 1) h\<rparr>)"
    by (subst make_call_node) (use f Nil in \<open>simp_all add: call_node_def\<close>)
  with s1 Nil show ?thesis by (intro exI [of _ s1]) (simp add: postfix_loop_call del: node_of.simps)
next
  case (Cons e fs)
  obtain y ys where y: "written_exp (global_variable h) e = y # ys" "item_token y \<noteq> T_right_paren"
    using written_begins [of "global_variable h" e] starts_not by auto
  obtain zs where z: "separated (map (written_exp (global_variable h)) es) @ Tok T_right_paren # rest = y # zs"
    using y(1) by (simp add: Cons separated_concat)
  obtain s1 where s1: "\<And>h. finsh_token_token (s\<lparr>shell := h\<rparr>) = Some (item_token y, s1\<lparr>shell := h\<rparr>)" "scans (finsh_token_replay s1) (y # zs)"
    by (rule next_token [OF s [unfolded z]]) blast
  have ne: "es \<noteq> []" and le: "nodes_used h + n + sum_list (map nodes es) \<le> FINSH_NODE_MAX" using Cons f by simp_all
  obtain s2 where s2: "scans s2 (Tok T_right_paren # rest)" "parse P_param_list ((finsh_token_replay s1)\<lparr>shell := more_nodes n h\<rparr>) =
      Some (nodes_of es, s2\<lparr>shell := more_nodes (n + sum_list (map nodes es)) h\<rparr>)"
    using params_yield [OF es ne s1(2) [folded z] le] by blast
  obtain s3 where s3: "\<And>h. finsh_token_token (s2\<lparr>shell := h\<rparr>) = Some (T_right_paren, s3\<lparr>shell := h\<rparr>)" "scans s3 rest"
    by (rule next_token [OF s2(1)]) simp
  have "make_node FINSH_NODE_SYS_FUNC (call_node c Null) (nodes_of es) (s3\<lparr>shell := more_nodes (n + sum_list (map nodes es)) h\<rparr>) =
    (node_of (E_call c es) Null, s3\<lparr>shell := more_nodes (n + sum_list (map nodes es) + 1) h\<rparr>)"
    by (subst make_call_node) (use f in \<open>simp_all add: call_node_def\<close>)
  with s3(2) show ?thesis
    by (intro exI [of _ s3])
       (simp add: postfix_loop_call s1(1) y(2) s2(2) match_token_Tok [OF s3(1)] del: node_of.simps)
qed

lemma call_yields:
  assumes es: "arguments h es" and c: "length (syscall_name c) < FINSH_NAME_MAX"
    "find_symbol (syscall_name c) h = Some (FINSH_IDTYPE_SYSCALL, Id_syscall c)"
  shows "yields h P_postfix_expr 9 (written_exp (global_variable h) (E_call c es)) (node_of (E_call c es) Null) (nodes (E_call c es))"
  unfolding yields_def
proof (intro allI impI)
  fix s n x rest
  assume asm: "scans s (written_exp (global_variable h) (E_call c es) @ x # rest)" "binds (item_token x) < 9"
    "nodes_used h + n + nodes (E_call c es) \<le> FINSH_NODE_MAX"
  have sc: "scans s (Name (syscall_name c) # Tok T_left_paren # separated (map (written_exp (global_variable h)) es) @ Tok T_right_paren # x # rest)"
    using asm(1) by simp
  obtain s1 where s1: "scans s1 (Tok T_left_paren # separated (map (written_exp (global_variable h)) es) @ Tok T_right_paren # x # rest)"
    "parse P_primary_expr (s\<lparr>shell := more_nodes n h\<rparr>) = Some (call_node c Null, s1\<lparr>shell := more_nodes (n + 1) h\<rparr>)"
    by (rule primaryE [OF primary_name [OF c(2,1)] sc, of n]) (use asm(3) in \<open>auto simp: call_node_def\<close>)
  obtain s2 where s2: "\<And>h. finsh_token_token (s1\<lparr>shell := h\<rparr>) = Some (T_left_paren, s2\<lparr>shell := h\<rparr>)"
    "scans s2 (separated (map (written_exp (global_variable h)) es) @ Tok T_right_paren # x # rest)" by (rule next_token [OF s1(1)]) simp
  have f: "nodes_used h + (n + 1) + sum_list (map nodes es) < FINSH_NODE_MAX" using asm(3) by simp
  obtain s3 where s3: "scans s3 (x # rest)"
    "parse (P_postfix_loop (call_node c Null) T_left_paren) (s2\<lparr>shell := more_nodes (n + 1) h\<rparr>) = do {
      (token, s) \<leftarrow> finsh_token_token (s3\<lparr>shell := more_nodes (n + 1 + sum_list (map nodes es) + 1) h\<rparr>);
      parse (P_postfix_loop (node_of (E_call c es) Null) token) s }" using call_arguments [OF es s2(2) f] by blast
  obtain s4 where s4: "\<And>h. finsh_token_token (s3\<lparr>shell := h\<rparr>) = Some (item_token x, s4\<lparr>shell := h\<rparr>)"
    "scans (finsh_token_replay s4) (x # rest)" by (rule next_token [OF s3(1)]) blast
  then show "\<exists>s1. scans s1 (x # rest) \<and> parse P_postfix_expr (s\<lparr>shell := more_nodes n h\<rparr>) =
      Some (node_of (E_call c es) Null, s1\<lparr>shell := more_nodes (n + nodes (E_call c es)) h\<rparr>)"
    using s3(2) by (auto simp: parse_postfix_expr s1(2) s2(1) postfix_loop_end [OF asm(2)] simp del: node_of.simps)
qed

subsection \<open>The parser finds the tree\<close>

definition parsed :: "finsh \<Rightarrow> fexp \<Rightarrow> bool" where
  "parsed h e \<longleftrightarrow> yields h P_assign_expr 1 (written_exp (global_variable h) e) (node_of e Null) (nodes e) \<and>
     (8 \<le> prec e \<longrightarrow> yields h P_cast_expr 8 (written_exp (global_variable h) e) (node_of e Null) (nodes e)) \<and>
     (\<forall>l. level_num l \<le> prec e \<longrightarrow> leads h l (written_exp (global_variable h) e) (node_of e Null) (nodes e))"

lemma parsed_cast: "yields h P_cast_expr 8 (written_exp (global_variable h) e) (node_of e Null) (nodes e) \<Longrightarrow> parsed h e"
  unfolding parsed_def using leads_assign [OF cast_leads] cast_leads by blast

lemma parsed_postfix:
  assumes "yields h P_postfix_expr 9 (written_exp (global_variable h) e) (node_of e Null) (nodes e)"
    "written_exp (global_variable h) e = y # ys" "begins (item_token y)"
  shows "parsed h e"
  by (rule parsed_cast) (use assms postfix_cast in simp)

lemma parsed_assign:
  "yields h P_assign_expr 1 (written_exp (global_variable h) e) (node_of e Null) (nodes e) \<Longrightarrow> prec e = 1 \<Longrightarrow> parsed h e"
  by (auto simp: parsed_def level_num_def split: flevel.splits)

lemma operand_parsed:
  assumes "parsed h e" "level_num l < prec e"
  shows "yields h (operand_proc l) (level_num l + 1) (written_exp (global_variable h) e) (node_of e Null) (nodes e)"
proof (cases "l = L_multiplicative")
  case True
  then show ?thesis using assms by (simp add: parsed_def operand_proc_def level_num_def)
next
  case False
  then obtain l' where "operand_proc l = P_level l'" "level_num l' = level_num l + 1"
    by (cases l) (simp_all add: operand_proc_def level_num_def)
  then show ?thesis using assms leads_yields by (metis Suc_eq_plus1 Suc_leI parsed_def)
qed

lemma parsed_or: "parsed h e \<Longrightarrow> 2 \<le> prec e \<Longrightarrow>
    yields h (P_level L_inclusive_or) 2 (written_exp (global_variable h) e) (node_of e Null) (nodes e)"
  using leads_yields [of h L_inclusive_or] by (simp add: parsed_def level_num_def)

lemma ref_primary: "ref_named h r \<Longrightarrow> primary h (Name (ref_name (global_variable h) r)) (node_of (E_ref r) Null)"
  by (cases r) (auto simp: ref_named_def ref_node_def intro: primary_name)

lemma ref_parsed:
  assumes "ref_named h r"
  shows "parsed h (E_ref r)"
  by (rule parsed_postfix) (use postfix_name [OF ref_primary [OF assms]] in \<open>auto simp: begins_def\<close>)

lemma unary_parsed:
  assumes "unary_node token = Some t" "parsed h a" "8 \<le> prec a"
    "written_exp (global_variable h) e = Tok token # written_exp (global_variable h) a" "node_of e Null = sys_node t 0 0 Null (node_of a Null)"
    "nodes e = nodes a + 1"
  shows "parsed h e"
  by (rule parsed_cast) (use assms unary_yields in \<open>simp add: parsed_def\<close>)

lemma deref_parsed: "parsed h p \<Longrightarrow> 8 \<le> prec p \<Longrightarrow> parsed h (E_deref p)"
  by (rule unary_parsed [of T_mul FINSH_NODE_SYS_GETVALUE h p]) (simp_all add: unary_node_def)

lemma not_parsed: "parsed h a \<Longrightarrow> 8 \<le> prec a \<Longrightarrow> parsed h (E_not a)"
  by (rule unary_parsed [of T_bitwise FINSH_NODE_SYS_BITWISE h a]) (simp_all add: unary_node_def)

lemma addr_parsed: "ref_named h r \<Longrightarrow> parsed h (E_addr r)"
  by (rule unary_parsed [of T_and FINSH_NODE_SYS_GETADDR h "E_ref r"]) (simp_all add: unary_node_def ref_parsed)

lemma bin_parsed:
  assumes "parsed h a" "parsed h b" "level_num (op_level opr) \<le> prec a" "level_num (op_level opr) < prec b"
  shows "parsed h (E_bin opr a b)"
proof -
  have l: "leads h (op_level opr) (written_exp (global_variable h) (E_bin opr a b)) (node_of (E_bin opr a b) Null) (nodes (E_bin opr a b))"
    using leads_bin [OF _ operand_parsed [OF assms(2,4)] refl] assms(1,3) by (simp add: parsed_def del: node_of.simps)
  have "prec (E_bin opr a b) < 8" by (cases opr) (simp_all add: level_num_def)
  with leads_assign [OF l] leads_lower [OF l] show ?thesis unfolding parsed_def by auto
qed

lemma inc_parsed:
  assumes "ref_named h (R_var k)"
  shows "parsed h (E_pre up k)" "parsed h (E_post up k)"
proof -
  let ?t = "if up then T_inc else T_dec"
  show "parsed h (E_pre up k)"
    by (rule unary_parsed [OF _ ref_parsed [OF assms], of ?t "if up then FINSH_NODE_SYS_PREINC else FINSH_NODE_SYS_PREDEC"])
       (simp_all add: unary_node_def)
  have "yields h P_postfix_expr 9 (written_exp (global_variable h) (E_post up k)) (node_of (E_post up k) Null) (nodes (E_post up k))"
    using postfix_inc [OF ref_primary [OF assms], of ?t] by (cases up) simp_all
  then show "parsed h (E_post up k)" by (rule parsed_postfix) (auto simp: begins_def)
qed

lemma writable_parsed: "writable h e \<Longrightarrow> parsed h e"
proof (induction e)
  case (E_const t w)
  show ?case
    by (rule parsed_postfix)
       (use postfix_name [OF primary_const [OF E_const]] E_const in \<open>auto simp: begins_def const_token_def\<close>)
next
  case (E_char c)
  show ?case by (rule parsed_postfix) (use postfix_name [OF primary_char] in \<open>auto simp: begins_def\<close>)
next
  case (E_ref r)
  then show ?case by (simp add: ref_parsed)
next
  case (E_bin opr a b)
  then show ?case by (simp add: bin_parsed)
next
  case (E_not a)
  then show ?case by (intro not_parsed) simp_all
next
  case (E_assign r e)
  then have r: "parsed h (E_ref r)" and e: "parsed h e" by (simp_all add: ref_parsed)
  show ?case by (rule parsed_assign) (use assign_yields [OF parsed_or [OF r], of _ e] e in \<open>simp_all add: parsed_def\<close>)
next
  case (E_store p e)
  then have p: "parsed h (E_deref p)" and e: "parsed h e" by (simp_all add: deref_parsed)
  show ?case by (rule parsed_assign) (use assign_yields [OF parsed_or [OF p], of _ e] e in \<open>simp_all add: parsed_def sys_node_def\<close>)
next
  case (E_addr r)
  then show ?case by (intro addr_parsed) simp
next
  case (E_deref p)
  then show ?case by (simp add: deref_parsed)
next
  case (E_pre up k)
  then show ?case by (simp add: inc_parsed)
next
  case (E_post up k)
  then show ?case by (simp add: inc_parsed)
next
  case (E_call c es)
  then have "arguments h es" by (simp add: arguments_def parsed_def)
  then have "yields h P_postfix_expr 9 (written_exp (global_variable h) (E_call c es)) (node_of (E_call c es) Null) (nodes (E_call c es))"
    by (rule call_yields) (use E_call(2) in auto)
  then show ?case by (rule parsed_postfix) (auto simp: begins_def)
qed

subsection \<open>Lines\<close>

definition written_line :: "finsh_var list \<Rightarrow> fexp list \<Rightarrow> fitem list" where
  "written_line vs es = concat (map (\<lambda>e. written_exp vs e @ [Tok T_semicolon]) es) @ [Tok T_eof]"

definition tree :: "fexp \<Rightarrow> fnode" where "tree e = node_of e Null"

lemma tree_not_Null: "tree e \<noteq> Null" using node_of_sibling [of e] by (auto simp: tree_def)

text \<open>The chain of the statements so far.\<close>

definition chain_of :: "fexp list \<Rightarrow> fnode list \<times> fnode" where
  "chain_of ds = (if ds = [] then ([], Null) else (map tree (butlast ds), tree (last ds)))"

lemma chain_statement: "add_statement (tree e) (chain_of ds) = chain_of (ds @ [e])"
proof (cases "ds = []")
  case False
  then have "map tree (butlast ds) @ [tree (last ds)] = map tree ds" by (metis append_butlast_last_id list.simps(8,9) map_append)
  then show ?thesis using False tree_not_Null by (simp add: add_statement_def chain_of_def)
qed (simp add: add_statement_def chain_of_def)

lemma chain_links: "link_nodes (fst (chain_of ds)) (snd (chain_of ds)) = nodes_of ds"
proof -
  have "link_nodes (map tree ds) (tree e) = nodes_of (ds @ [e])" for ds e
  proof (induction ds)
    case (Cons d ds)
    obtain t dd it v i ch where n: "\<And>sib. node_of d sib = FNode t dd it v i sib ch" using node_of_sibling by blast
    show ?case using Cons by (simp add: n tree_def)
  qed (simp add: tree_def)
  from this [of "butlast ds" "last ds"] show ?thesis by (cases "ds = []") (simp_all add: chain_of_def)
qed

lemma statement_parsed:
  assumes p: "parsed h e" and s: "scans s (written_exp (global_variable h) e @ Tok T_semicolon # rest)"
    and f: "nodes_used h + n + nodes e \<le> FINSH_NODE_MAX"
  shows "\<exists>s1. scans s1 rest \<and> proc_expr_statement (s\<lparr>shell := more_nodes n h\<rparr>) = Some (tree e, s1\<lparr>shell := more_nodes (n + nodes e) h\<rparr>)"
proof -
  obtain y ys where y: "written_exp (global_variable h) e = y # ys" "starts (item_token y)" using written_begins by blast
  obtain s1 where s1: "\<And>h. finsh_token_token (s\<lparr>shell := h\<rparr>) = Some (item_token y, s1\<lparr>shell := h\<rparr>)"
    "scans (finsh_token_replay s1) (y # ys @ Tok T_semicolon # rest)" by (rule next_token [OF s [unfolded y(1) append_Cons]]) blast
  have sc: "scans (finsh_token_replay s1) (written_exp (global_variable h) e @ Tok T_semicolon # rest)" using s1(2) y(1) by simp
  obtain s2 where s2: "scans s2 (Tok T_semicolon # rest)"
    "parse P_assign_expr ((finsh_token_replay s1)\<lparr>shell := more_nodes n h\<rparr>) = Some (node_of e Null, s2\<lparr>shell := more_nodes (n + nodes e) h\<rparr>)"
    by (rule yieldsE [OF conjunct1 [OF p [unfolded parsed_def]] sc, of n]) (use f in \<open>auto simp: binds_def\<close>)
  obtain s3 where s3: "\<And>h. finsh_token_token (s2\<lparr>shell := h\<rparr>) = Some (T_semicolon, s3\<lparr>shell := h\<rparr>)" "scans s3 rest"
    by (rule next_token [OF s2(1)]) simp
  with s2(2) starts_not [OF y(2)] show ?thesis
    by (auto simp: proc_expr_statement_def s1(1) match_token_Tok [OF s3(1)] tree_def)
qed

lemma parser_loop_end: "token = T_eof \<Longrightarrow> parser_loop c token s = Some (link_nodes (fst c) (snd c), s)"
  by (subst parser_loop.simps) simp

lemma parser_loop_expr: "token \<notin> {T_eof, T_bad} \<Longrightarrow> \<not> is_declaration token \<Longrightarrow>
    proc_expr_statement (finsh_token_replay s) = Some (stmt, s1) \<Longrightarrow> stmt \<noteq> Null \<Longrightarrow> parser_loop c token s = do {
      (token, s) \<leftarrow> finsh_token_token s1; parser_loop (add_statement stmt c) token s }"
  by (subst parser_loop.simps) simp

lemma statements_parsed:
  assumes "\<forall>e \<in> set es. parsed h e" "scans s (written_line (global_variable h) es)"
    "nodes_used h + n + sum_list (map nodes es) \<le> FINSH_NODE_MAX"
  shows "\<exists>s1. Option.bind (finsh_token_token (s\<lparr>shell := more_nodes n h\<rparr>)) (\<lambda>(token, s). parser_loop (chain_of ds) token s) =
    Some (nodes_of (ds @ es), s1\<lparr>shell := more_nodes (n + sum_list (map nodes es)) h\<rparr>)"
  using assms
proof (induction es arbitrary: s n ds)
  case Nil
  obtain s1 where "\<And>h. finsh_token_token (s\<lparr>shell := h\<rparr>) = Some (T_eof, s1\<lparr>shell := h\<rparr>)"
    by (rule next_token [of s "Tok T_eof" "[]"]) (use Nil(2) in \<open>simp_all add: written_line_def\<close>)
  then show ?case by (auto simp: parser_loop_end chain_links)
next
  case (Cons e es)
  have sc: "scans s (written_exp (global_variable h) e @ Tok T_semicolon # written_line (global_variable h) es)"
    using Cons(3) by (simp add: written_line_def)
  obtain y ys where y: "written_exp (global_variable h) e = y # ys" "starts (item_token y)" using written_begins by blast
  obtain s1 where s1: "\<And>h. finsh_token_token (s\<lparr>shell := h\<rparr>) = Some (item_token y, s1\<lparr>shell := h\<rparr>)"
    "scans (finsh_token_replay s1) (y # ys @ Tok T_semicolon # written_line (global_variable h) es)"
    by (rule next_token [OF sc [unfolded y(1) append_Cons]]) blast
  have sc1: "scans (finsh_token_replay s1) (written_exp (global_variable h) e @ Tok T_semicolon # written_line (global_variable h) es)"
    using s1(2) y(1) by simp
  have p: "parsed h e" "nodes_used h + n + nodes e \<le> FINSH_NODE_MAX" using Cons(2,4) by simp_all
  obtain s2 where s2: "scans s2 (written_line (global_variable h) es)"
    "proc_expr_statement ((finsh_token_replay s1)\<lparr>shell := more_nodes n h\<rparr>) = Some (tree e, s2\<lparr>shell := more_nodes (n + nodes e) h\<rparr>)"
    using statement_parsed [OF p(1) sc1 p(2)] by blast
  have f: "nodes_used h + (n + nodes e) + sum_list (map nodes es) \<le> FINSH_NODE_MAX" using Cons(4) by simp
  have "parser_loop (chain_of ds) (item_token y) (s1\<lparr>shell := more_nodes n h\<rparr>) = do {
      (token, s) \<leftarrow> finsh_token_token (s2\<lparr>shell := more_nodes (n + nodes e) h\<rparr>);
      parser_loop (chain_of (ds @ [e])) token s }"
    using parser_loop_expr [of "item_token y" "s1\<lparr>shell := more_nodes n h\<rparr>" "tree e"] starts_not [OF y(2)] s2(2) tree_not_Null
    by (simp add: chain_statement)
  with Cons(1) [OF _ s2(1) f, of "ds @ [e]"] Cons(2) show ?case by (simp add: s1(1) add.assoc)
qed

text \<open>The parser makes the trees of the statements, linked in their order.\<close>

lemma line_parsed:
  assumes w: "\<forall>e \<in> set es. writable (shell s) e" and l: "scans (finsh_token_init line s) (written_line (global_variable (shell s)) es)"
    and f: "nodes_used (shell s) + sum_list (map nodes es) \<le> FINSH_NODE_MAX"
  shows "\<exists>s1. finsh_parser_run line s = Some (line_node es, s1\<lparr>shell := more_nodes (sum_list (map nodes es)) (shell s)\<rparr>)"
proof -
  have n: "line_node es = nodes_of es" by (induction es) simp_all
  have "(finsh_token_init line s)\<lparr>shell := shell s\<rparr> = finsh_token_init line s" by (simp add: finsh_token_init_def)
  with statements_parsed [of es "shell s" "finsh_token_init line s" 0 "[]"] w l f writable_parsed show ?thesis
    by (simp add: finsh_parser_run_def chain_of_def n)
qed

text \<open>A line is scanned, parsed, compiled and run, and the value of its last statement reported.\<close>

lemma line_reported:
  assumes call: "keeps_memory call" and w: "\<forall>e \<in> set es. writable (shell s) e \<and> well_typed (global_variable (shell s)) e"
    and l: "scans (finsh_token_init line s) (written_line (global_variable (shell s)) es)"
    and i: "nodes_used (shell s) = 0" "global_errno (shell s) = 0" "sum_list (map nodes es) \<le> FINSH_NODE_MAX"
    and e: "eval_line call gv (global_variable (shell s)) es (finsh_mem (vm (shell s))) = Some (v, m')"
    and m: "mapped gv (global_variable (shell s)) (finsh_mem (vm (shell s)))"
    and stack: "length (finsh_vm_stack (vm (shell s))) = FINSH_STACK_MAX" "line_depth es \<le> FINSH_STACK_MAX"
    and fits: "length (line_code gv (global_variable (shell s)) es) \<le> FINSH_TEXT_MAX"
  shows "\<exists>x s1. finsh_run_line call gv line s = Some (Result x, s1) \<and>
    low_bytes (supplied (global_variable (shell s)) (last es)) x = v \<and> finsh_mem (vm (shell s1)) = m' \<and>
    global_errno (shell s1) = 0 \<and> nodes_used (shell s1) = 0"
proof -
  let ?h = "more_nodes (sum_list (map nodes es)) (shell s)"
  obtain s1 where s1: "finsh_parser_run line s = Some (line_node es, s1\<lparr>shell := ?h\<rparr>)"
    using line_parsed [of es s line] w l i by auto
  obtain h2 r where "finsh_compiler_run gv (line_node es) ?h = Some h2" "finsh_vm_run call (vm h2) = Some r"
    "global_errno h2 = 0" "low_bytes (supplied (global_variable (shell s)) (last es)) (finsh_stack_bottom r) = v" "finsh_mem r = m'"
    using line_runs [of call es ?h gv v m'] call w e m stack fits i by auto
  then show ?thesis using s1 i
    by (simp add: finsh_run_line_def finsh_flush_def finsh_parser_init_def finsh_error_set_def finsh_node_init_def FINSH_ERROR_OK_def)
qed

end
