(* ===== verification/Finsh_Spell.thy ===== *)
theory Finsh_Spell
  imports Finsh_Syntax
begin

text \<open>
  Text of the shell: how the tokens of a line are spelled, with a space after each, and the proof that the scanner finds them again.
  A number is spelled in decimal.
\<close>

subsection \<open>Spelling\<close>

definition digit_char :: "nat \<Rightarrow> char" where "digit_char d = ''0123456789'' ! d"

fun decimal :: "nat \<Rightarrow> string" where
  "decimal n = (if n < 10 then [digit_char n] else decimal (n div 10) @ [digit_char (n mod 10)])"

declare decimal.simps [simp del]

definition token_text :: "finsh_token_type \<Rightarrow> string option" where
  "token_text t = (case t of T_left_paren \<Rightarrow> Some ''('' | T_right_paren \<Rightarrow> Some '')'' | T_comma \<Rightarrow> Some '','' | T_semicolon \<Rightarrow> Some '';''
     | T_mul \<Rightarrow> Some ''*'' | T_add \<Rightarrow> Some ''+'' | T_inc \<Rightarrow> Some ''++'' | T_sub \<Rightarrow> Some ''-'' | T_dec \<Rightarrow> Some ''--'' | T_div \<Rightarrow> Some ''/''
     | T_mod \<Rightarrow> Some ''%'' | T_assign \<Rightarrow> Some ''='' | T_and \<Rightarrow> Some ''&'' | T_or \<Rightarrow> Some ''|'' | T_xor \<Rightarrow> Some ''^''
     | T_bitwise \<Rightarrow> Some ''~'' | T_shl \<Rightarrow> Some ''<<'' | T_shr \<Rightarrow> Some ''>>'' | T_value_null \<Rightarrow> Some ''NULL'' | _ \<Rightarrow> None)"

fun spell :: "fitem \<Rightarrow> string" where
  "spell (Tok t) = the (token_text t)"
| "spell (Num t v) = (if t = T_value_char then [CHR 0x27, char_of (unat v mod 256), CHR 0x27]
     else if t = T_value_long then decimal (unat v) @ ''l'' else decimal (unat v))"
| "spell (Name n) = n"

text \<open>A name begins with a letter or an underscore and is not one of the words of the language.\<close>

definition is_name :: "string \<Rightarrow> bool" where
  "is_name n \<longleftrightarrow> n \<noteq> '''' \<and> \<not> is_digit (hd n) \<and> (\<forall>c \<in> set n. \<not> is_separator c) \<and> token_match_name n = None"

fun spellable :: "fitem \<Rightarrow> bool" where
  "spellable (Tok t) \<longleftrightarrow> token_text t \<noteq> None"
| "spellable (Num t v) \<longleftrightarrow> t = T_value_int \<or> t = T_value_long \<or>
     t = T_value_char \<and> char_of (unat v mod 256) \<notin> {NUL, CHR 0x0A, CHR 0x5C}"
| "spellable (Name n) \<longleftrightarrow> is_name n"

fun spelled :: "fitem list \<Rightarrow> string" where
  "spelled [] = ''''"
| "spelled (x # xs) = spell x @ CHR '' '' # spelled xs"

subsection \<open>Reading characters\<close>

text \<open>The scanner has the characters \<open>cs\<close> before it.\<close>

definition here :: "finsh_parser \<Rightarrow> string \<Rightarrow> bool" where
  "here s cs \<longleftrightarrow> \<not> tk_eof s \<and> tk_position s \<le> length (tk_line s) \<and> drop (tk_position s) (tk_line s) = cs \<and> CHR 0x0A \<notin> set cs"

definition ahead :: "nat \<Rightarrow> finsh_parser \<Rightarrow> finsh_parser" where
  "ahead n s = s\<lparr>tk_position := tk_position s + n\<rparr>"

lemma ahead_simps [simp]: "ahead m (ahead n s) = ahead (n + m) s" "ahead 0 s = s" "tk_eof (ahead n s) = tk_eof s"
  "tk_replay (ahead n s) = tk_replay s" "tk_string (ahead n s) = tk_string s" "tk_current (ahead n s) = tk_current s"
  "tk_value (ahead n s) = tk_value s" "(ahead n s)\<lparr>shell := h\<rparr> = ahead n (s\<lparr>shell := h\<rparr>)"
  by (simp_all add: ahead_def add.assoc)

lemma here_not_eof [simp]: "here s cs \<Longrightarrow> \<not> tk_eof s" by (simp add: here_def)

lemma here_update [simp]: "here (s\<lparr>tk_current := t\<rparr>) cs = here s cs" "here (s\<lparr>tk_value := v\<rparr>) cs = here s cs"
  "here (s\<lparr>tk_string := w\<rparr>) cs = here s cs" "here (s\<lparr>shell := h\<rparr>) cs = here s cs"
  by (simp_all add: here_def)

lemma here_ahead: "here s (xs @ cs) \<Longrightarrow> here (ahead (length xs) s) cs"
proof -
  assume h: "here s (xs @ cs)"
  then have d: "drop (tk_position s) (tk_line s) = xs @ cs" by (simp add: here_def)
  from arg_cong [OF d, of length] have "length (tk_line s) - tk_position s = length xs + length cs" by simp
  moreover have "drop (tk_position s + length xs) (tk_line s) = cs"
    using arg_cong [OF d, of "drop (length xs)"] by (simp add: add.commute)
  ultimately show ?thesis using h by (auto simp: here_def ahead_def)
qed

lemma here_Cons: "here s (c # cs) \<Longrightarrow> here (ahead 1 s) cs"
  using here_ahead [of s "[c]" cs] by simp

lemma next_here: "here s (c # cs) \<Longrightarrow> token_next_char s = (c, ahead 1 s)"
proof -
  assume h: "here s (c # cs)"
  then have d: "drop (tk_position s) (tk_line s) = c # cs" by (simp add: here_def)
  then have "tk_position s < length (tk_line s)" by (metis drop_eq_Nil list.distinct(1) not_le)
  moreover from this have "tk_line s ! tk_position s = c" using d by (metis Cons_nth_drop_Suc list.inject)
  ultimately show ?thesis using h by (auto simp: here_def token_next_char_def ahead_def)
qed

lemma next_end: "here s '''' \<Longrightarrow> token_next_char s = (NUL, s\<lparr>tk_eof := True, tk_position := 0\<rparr>)"
  by (simp add: here_def token_next_char_def)

lemma prev_ahead [simp]: "\<not> tk_eof s \<Longrightarrow> token_prev_char (ahead (Suc n) s) = ahead n s"
  by (simp add: token_prev_char_def ahead_def)

lemma read_while_stop: "\<not> P c \<Longrightarrow> read_while P c s = ('''', c, s)"
  by (simp add: read_while.simps)

lemma read_while_here:
  assumes "here s (w @ d # cs)" "P c" "\<forall>x \<in> set w. P x" "\<not> P d" "\<not> P NUL"
  shows "read_while P c s = (c # w, d, ahead (length w + 1) s)"
  using assms
proof (induction w arbitrary: c s)
  case Nil
  then show ?case by (subst read_while.simps) (auto simp: next_here read_while_stop)
next
  case (Cons e w)
  then have n: "token_next_char s = (e, ahead 1 s)" "here (ahead 1 s) (w @ d # cs)" "c \<noteq> NUL" using next_here here_Cons by fastforce+
  then show ?case using Cons by (subst read_while.simps) (simp add: n)
qed

lemma ahead_update [simp]: "(ahead n s)\<lparr>tk_current := t\<rparr> = ahead n (s\<lparr>tk_current := t\<rparr>)"
  "(ahead n s)\<lparr>tk_value := v\<rparr> = ahead n (s\<lparr>tk_value := v\<rparr>)" "(ahead n s)\<lparr>tk_string := w\<rparr> = ahead n (s\<lparr>tk_string := w\<rparr>)"
  "(ahead n s)\<lparr>tk_eof := b\<rparr> = ahead n (s\<lparr>tk_eof := b\<rparr>)"
  by (simp_all add: ahead_def)

lemma keep_eof: "\<not> tk_eof s \<Longrightarrow> s\<lparr>tk_eof := False\<rparr> = s" by (cases s) simp

lemma char_le: "c \<le> d \<longleftrightarrow> (of_char c :: nat) \<le> of_char d"
  by (simp add: less_eq_char_def)

lemmas chars = is_digit_def is_alpha_def is_separator_def NUL_def char_le

subsection \<open>Spaces and names\<close>

definition blank :: "char \<Rightarrow> bool" where "blank c \<longleftrightarrow> c = CHR '' '' \<or> c = CHR 0x09"

lemma trim_none: "here s (c # cs) \<Longrightarrow> \<not> blank c \<Longrightarrow> token_trim_space s = s"
  by (simp add: token_trim_space_def next_here read_while_stop blank_def)

lemma trim_one: "here s (CHR '' '' # c # cs) \<Longrightarrow> \<not> blank c \<Longrightarrow> token_trim_space s = ahead 1 s"
  using read_while_here [of "ahead 1 s" "[]" c cs "\<lambda>c. c = CHR '' '' \<or> c = CHR 0x09" "CHR '' ''"] here_Cons [of s "CHR '' ''"]
  by (simp add: token_trim_space_def next_here blank_def NUL_def)

lemma trim_end:
  assumes "here s '' ''"
  shows "token_trim_space s = s\<lparr>tk_eof := True, tk_position := 0\<rparr>"
proof -
  have "here (ahead 1 s) ''''" using here_Cons [OF assms] .
  then have "token_next_char (ahead 1 s) = (NUL, s\<lparr>tk_eof := True, tk_position := 0\<rparr>)" by (simp add: next_end) (simp add: ahead_def)
  then have "read_while (\<lambda>c. c = CHR '' '' \<or> c = CHR 0x09) CHR '' '' (ahead 1 s) = ('' '', NUL, s\<lparr>tk_eof := True, tk_position := 0\<rparr>)"
    by (subst read_while.simps) (simp add: NUL_def read_while_stop)
  then show ?thesis using assms by (simp add: token_trim_space_def next_here token_prev_char_def)
qed

lemma get_string_name:
  assumes "here s (c # w @ d # cs)" "\<not> is_digit c" "\<forall>x \<in> set (c # w). \<not> is_separator x" "is_separator d"
  shows "token_get_string s = ahead (length w + 1) (s\<lparr>tk_string := c # w\<rparr>)"
proof -
  have "read_while (\<lambda>c. \<not> is_separator c) c (ahead 1 s) = (c # w, d, ahead (length w + 1) (ahead 1 s))"
    by (rule read_while_here [of _ w d cs]) (use assms here_Cons [OF assms(1)] in \<open>simp_all add: chars\<close>)
  then show ?thesis using assms by (simp add: token_get_string_def next_here [OF assms(1)] keep_eof)
qed

lemma get_string_digit: "here s (c # cs) \<Longrightarrow> is_digit c \<Longrightarrow> token_get_string s = s\<lparr>tk_string := ''''\<rparr>"
  by (simp add: token_get_string_def next_here)

lemma get_string_other: "here s (c # cs) \<Longrightarrow> is_separator c \<Longrightarrow> token_get_string s = s\<lparr>tk_string := ''''\<rparr>"
  by (simp add: token_get_string_def next_here read_while_stop is_separator_def keep_eof)

subsection \<open>Operators and numbers\<close>

lemma operator_spelled:
  assumes h: "here s (the (token_text t) @ CHR '' '' # cs)" and t: "token_text t \<noteq> None" "t \<noteq> T_value_null"
  shows "operator_token s = Some (ahead (length (the (token_text t))) (s\<lparr>tk_current := t\<rparr>))"
proof -
  have two: "token_next_char (ahead (Suc 0) s) = (d, ahead (Suc (Suc 0)) s)" if "here s (c # d # ds)" for c d ds
    using next_here [OF here_Cons [OF that]] by simp
  show ?thesis
    using h t two by (cases t) (auto simp: token_text_def operator_token_def next_here single_token_def double_token_def)
qed

lemma digit_char_value:
  assumes "d < 10"
  shows "is_digit (digit_char d)" "decimal_step v (digit_char d) = v * 10 + of_nat d" "digit_char d = CHR ''0'' \<longleftrightarrow> d = 0"
proof -
  have "d = 0 \<or> d = 1 \<or> d = 2 \<or> d = 3 \<or> d = 4 \<or> d = 5 \<or> d = 6 \<or> d = 7 \<or> d = 8 \<or> d = 9" using assms by presburger
  then show "is_digit (digit_char d)" "decimal_step v (digit_char d) = v * 10 + of_nat d" "digit_char d = CHR ''0'' \<longleftrightarrow> d = 0"
    by (elim disjE; simp add: digit_char_def chars decimal_step_def char_num_def)+
qed

lemma decimal_digits: "\<forall>c \<in> set (decimal n). is_digit c"
proof (induction n rule: decimal.induct)
  case (1 n)
  then show ?case by (subst decimal.simps) (auto simp: digit_char_value)
qed

lemma decimal_value: "foldl decimal_step 0 (decimal n) = of_nat n"
proof (induction n rule: decimal.induct)
  case (1 n)
  have n: "of_nat n = (of_nat (n div 10) * 10 + of_nat (n mod 10) :: u32)"
    by (metis div_mult_mod_eq of_nat_add of_nat_mult of_nat_numeral)
  show ?case using 1 by (subst decimal.simps) (auto simp: digit_char_value n [symmetric])
qed

lemma decimal_head: "\<exists>c w. decimal n = c # w \<and> (c = CHR ''0'' \<longleftrightarrow> n = 0)"
proof (induction n rule: decimal.induct)
  case (1 n)
  then show ?case by (subst decimal.simps) (auto simp: digit_char_value)
qed

text \<open>A decimal number is read as far as its digits go, with the letter that makes it long.\<close>

lemma number_spelled:
  assumes h: "here s (decimal n @ r @ CHR '' '' # cs)" and r: "r = '''' \<or> r = ''l''"
  shows "token_proc_number s = ahead (length (decimal n @ r))
    (s\<lparr>tk_value := of_nat n, tk_current := if r = '''' then T_value_int else T_value_long\<rparr>)"
proof -
  obtain c w where c: "decimal n = c # w" "c = CHR ''0'' \<longleftrightarrow> n = 0" using decimal_head [of n] by blast
  have dg: "is_digit c" "\<forall>x \<in> set w. is_digit x" using decimal_digits [of n] c(1) by auto
  obtain d ds where d: "r @ CHR '' '' # cs = d # ds" "\<not> is_digit d" "d \<notin> {CHR ''x'', CHR ''X'', CHR ''b'', CHR ''B''}"
    "d = CHR ''l'' \<longleftrightarrow> r \<noteq> ''''" "d \<noteq> CHR ''L''"
    using r by (cases "r = ''''") (auto simp: chars)
  have hc: "here s (c # w @ d # ds)" using h c(1) d(1) by simp
  have nul: "\<not> is_digit NUL" by (simp add: chars)
  show ?thesis
  proof (cases "n = 0")
    case True
    then have "w = ''''" "c = CHR ''0''" using c by (simp_all add: decimal.simps [of 0])
    then have "token_next_char s = (CHR ''0'', ahead 1 s)" "token_next_char (ahead 1 s) = (d, ahead 2 s)"
      using next_here [OF hc] next_here [of "ahead 1 s" d ds] here_Cons [OF hc] by (simp_all add: numeral_2_eq_2)
    then show ?thesis
      using r d(2-5) hc \<open>w = ''''\<close> c(1) True
      by (auto simp: token_proc_number_def read_while_stop token_spec_number_def numeral_2_eq_2)
  next
    case False
    then have z: "c \<noteq> CHR ''0''" using c(2) by simp
    have rw: "read_while is_digit c (ahead 1 s) = (c # w, d, ahead (length w + 1) (ahead 1 s))"
      by (rule read_while_here [OF here_Cons [OF hc] dg d(2) nul])
    show ?thesis
      using r d(4,5) hc z decimal_value [of n, unfolded c(1)]
      by (auto simp: token_proc_number_def next_here [OF hc] rw [simplified] c(1))
  qed
qed

subsection \<open>A token\<close>

text \<open>What reading an item does, but for the position.\<close>

fun read_item :: "fitem \<Rightarrow> finsh_parser \<Rightarrow> finsh_parser" where
  "read_item (Tok t) s = s\<lparr>tk_string := (if t = T_value_null then ''NULL'' else ''''), tk_current := t\<rparr>"
| "read_item (Num t v) s = s\<lparr>tk_string := '''', tk_value := (if t = T_value_char then set_char (of_char (char_of (unat v) :: char)) (tk_value s) else v),
     tk_current := t\<rparr>"
| "read_item (Name n) s = s\<lparr>tk_string := n, tk_current := T_identifier\<rparr>"

definition token_body :: "finsh_parser \<Rightarrow> finsh_parser option" where
  "token_body s = (let s = token_get_string s in
     if tk_eof s then Some (s\<lparr>tk_current := T_eof\<rparr>)
     else if tk_string s \<noteq> '''' then
       (case token_match_name (tk_string s) of Some t \<Rightarrow> Some (s\<lparr>tk_current := t\<rparr>) | None \<Rightarrow> Some (s\<lparr>tk_current := T_identifier\<rparr>))
     else operator_token s)"

lemma token_run_body: "token_run s = token_body (token_trim_space s)"
  by (simp add: token_run_def token_body_def Let_def)

lemma name_body:
  assumes "here s (n @ CHR '' '' # cs)" "n \<noteq> ''''" "\<not> is_digit (hd n)" "\<forall>c \<in> set n. \<not> is_separator c"
  shows "token_body s = Some (ahead (length n) (s\<lparr>tk_string := n,
    tk_current := (case token_match_name n of Some t \<Rightarrow> t | None \<Rightarrow> T_identifier)\<rparr>))"
proof -
  obtain c w where n: "n = c # w" using assms(2) by (cases n) auto
  have "token_get_string s = ahead (length w + 1) (s\<lparr>tk_string := c # w\<rparr>)"
    by (rule get_string_name [of s c w "CHR '' ''" cs]) (use assms n in \<open>auto simp: chars\<close>)
  moreover have "\<not> tk_eof s" using here_not_eof [OF assms(1)] .
  ultimately show ?thesis by (simp add: token_body_def n split: option.split)
qed

lemma operator_body: "here s (c # cs) \<Longrightarrow> is_separator c \<or> is_digit c \<Longrightarrow> token_body s = operator_token (s\<lparr>tk_string := ''''\<rparr>)"
  using get_string_other [of s c cs] get_string_digit [of s c cs] by (auto simp: token_body_def)

lemma digit_operator:
  assumes "here s (c # cs)" "is_digit c"
  shows "operator_token s = Some (token_proc_number s)"
proof -
  have "\<forall>x \<in> set [CHR ''('', CHR '')'', CHR '','', CHR '';'', CHR ''&'', CHR ''*'', CHR ''|'', CHR ''%'', CHR ''~'', CHR ''^'', CHR ''='',
      CHR ''+'', CHR ''-'', CHR ''/'', CHR ''<'', CHR ''>'', CHR 0x27, CHR 0x22]. \<not> is_digit x"
    by (simp add: is_digit_def char_le)
  then have n: "c \<notin> {CHR ''('', CHR '')'', CHR '','', CHR '';'', CHR ''&'', CHR ''*'', CHR ''|'', CHR ''%'', CHR ''~'', CHR ''^'', CHR ''='',
      CHR ''+'', CHR ''-'', CHR ''/'', CHR ''<'', CHR ''>'', CHR 0x27, CHR 0x22}" using assms(2) by (metis list.set(2) list.set(1))
  then have "single_token c = None" "double_token c = None" "c \<noteq> CHR 0x27" "c \<noteq> CHR 0x22"
    by (simp_all add: single_token_def double_token_def)
  then show ?thesis using assms by (simp add: operator_token_def next_here)
qed

lemma char_body:
  assumes h: "here s (CHR 0x27 # c # CHR 0x27 # cs)" and c: "c \<noteq> CHR 0x5C"
  shows "operator_token s = Some (ahead 3 (s\<lparr>tk_value := set_char (of_char c) (tk_value s), tk_current := T_value_char\<rparr>))"
proof -
  have h1: "here (ahead 1 s) (c # CHR 0x27 # cs)" "here (ahead 2 s) (CHR 0x27 # cs)"
    using here_Cons [OF h] here_Cons [OF here_Cons [OF h]] by (simp_all add: numeral_2_eq_2)
  have "token_next_char (ahead 1 s) = (c, ahead 2 s)" "token_next_char (ahead 2 s) = (CHR 0x27, ahead 3 s)"
    using next_here [OF h1(1)] next_here [OF h1(2)] by (simp_all add: numeral_2_eq_2 numeral_3_eq_3)
  then show ?thesis using c by (simp add: operator_token_def next_here [OF h] single_token_def double_token_def token_proc_char_def)
qed

lemma body_spelled:
  assumes "here s (spell x @ CHR '' '' # cs)" "spellable x"
  shows "token_body s = Some (ahead (length (spell x)) (read_item x s))"
proof (cases x)
  case (Tok t)
  show ?thesis
  proof (cases "t = T_value_null")
    case True
    then show ?thesis using name_body [of s "''NULL''" cs] assms Tok
      by (simp add: token_text_def chars token_match_name_def finsh_name_table_def)
  next
    case False
    then have t: "token_text t \<noteq> None" using assms Tok by simp
    then obtain c w where c: "the (token_text t) = c # w" "is_separator c"
      using False by (cases t) (auto simp: token_text_def chars)
    have "here (s\<lparr>tk_string := ''''\<rparr>) (the (token_text t) @ CHR '' '' # cs)" using assms Tok by simp
    from operator_spelled [OF this t False] show ?thesis
      using operator_body [of s c "w @ CHR '' '' # cs"] c assms(1) Tok False by simp
  qed
next
  case (Num t v)
  show ?thesis
  proof (cases "t = T_value_char")
    case True
    let ?c = "char_of (unat v mod 256) :: char"
    have h: "here s (CHR 0x27 # ?c # CHR 0x27 # CHR '' '' # cs)" "?c \<noteq> CHR 0x5C" using assms Num True by simp_all
    then have "here (s\<lparr>tk_string := ''''\<rparr>) (CHR 0x27 # ?c # CHR 0x27 # CHR '' '' # cs)" by simp
    from char_body [OF this h(2)] show ?thesis
      using operator_body [OF h(1)] Num True by (simp add: chars numeral_3_eq_3)
  next
    case False
    define r where "r = (if t = T_value_long then ''l'' else '''')"
    have h: "here s (decimal (unat v) @ r @ CHR '' '' # cs)" using assms Num False by (auto simp: r_def)
    obtain c w where c: "decimal (unat v) = c # w" using decimal_head [of "unat v"] by blast
    then have "is_digit c" using decimal_digits [of "unat v"] by simp
    with operator_body [of s c "w @ r @ CHR '' '' # cs"] digit_operator [of "s\<lparr>tk_string := ''''\<rparr>" c "w @ r @ CHR '' '' # cs"] h c
    have "token_body s = Some (token_proc_number (s\<lparr>tk_string := ''''\<rparr>))" by simp
    moreover have "here (s\<lparr>tk_string := ''''\<rparr>) (decimal (unat v) @ r @ CHR '' '' # cs)" "r = '''' \<or> r = ''l''"
      using h by (simp_all add: r_def)
    moreover have "t = T_value_int \<or> t = T_value_long" using assms(2) Num False by simp
    ultimately show ?thesis using number_spelled [of "s\<lparr>tk_string := ''''\<rparr>" "unat v" r cs] Num False
      by (auto simp: r_def)
  qed
next
  case (Name n)
  then show ?thesis using name_body [of s n cs] assms by (simp add: is_name_def)
qed

subsection \<open>A line\<close>

lemma spell_first:
  assumes "spellable x"
  shows "\<exists>c w. spell x = c # w \<and> \<not> blank c"
proof (cases x)
  case (Tok t)
  then show ?thesis using assms by (cases t) (auto simp: token_text_def blank_def)
next
  case (Num t v)
  obtain c w where "decimal (unat v) = c # w" using decimal_head [of "unat v"] by blast
  moreover from this have "is_digit c" using decimal_digits [of "unat v"] by simp
  then have "\<not> blank c" by (auto simp: blank_def chars)
  ultimately show ?thesis using Num by (auto simp: blank_def)
next
  case (Name n)
  then have "n \<noteq> ''''" "\<not> is_separator (hd n)" using assms by (auto simp: is_name_def)
  then show ?thesis using Name by (cases n) (auto simp: blank_def chars)
qed

lemma read_item_shell: "(read_item x s)\<lparr>shell := h\<rparr> = read_item x (s\<lparr>shell := h\<rparr>)"
  by (cases x) simp_all

lemma read_item_keeps [simp]: "tk_eof (read_item x s) = tk_eof s" "tk_replay (read_item x s) = tk_replay s"
  "here (read_item x s) cs = here s cs" "tk_current (read_item x s) = item_token x"
  by (cases x; simp)+

lemma of_char_num: "(of_char (char_of (unat v) :: char) :: u8) = ucast (v :: u32)"
proof -
  have "(of_char (char_of (unat v) :: char) :: u8) = of_nat (of_char (char_of (unat v) :: char) :: nat)" by (simp only: of_nat_of_char)
  moreover have "of_char (char_of (unat v) :: char) = unat v mod 256" by (rule of_char_of)
  moreover have "(of_nat (n mod 256) :: u8) = of_nat n" for n by (simp add: word_of_nat_eq_iff take_bit_eq_mod)
  moreover have "(of_nat (unat v) :: u8) = ucast v" by simp
  ultimately show ?thesis by (simp only:)
qed

lemma set_char_low: "ucast (set_char c v) = (c :: u8)"
proof -
  have "low_bytes 1 (set_char c v) = ucast c" by simp
  then have "(ucast (low_bytes 1 (set_char c v)) :: u8) = c" by simp
  moreover have "(ucast (low_bytes 1 w) :: u8) = ucast w" for w :: u32
    by (rule bit_word_eqI) (auto simp: low_bytes_def bit_simps)
  ultimately show ?thesis by metis
qed

lemma item_was_read: "spellable x \<Longrightarrow> item_read x (ahead n (read_item x s))"
  by (cases x) (auto simp: of_char_num set_char_low ahead_def)

text \<open>The scanner reads an item, with the space behind the one before.\<close>

lemma item_scanned:
  assumes h: "here s (pre @ spell x @ CHR '' '' # cs)" and x: "spellable x" and pre: "pre = '''' \<or> pre = '' ''" and r: "\<not> tk_replay s"
  shows "\<exists>s1. reads s x s1 \<and> here s1 (CHR '' '' # cs)"
proof -
  obtain c w where c: "spell x = c # w" "\<not> blank c" using spell_first [OF x] by blast
  let ?n = "length pre + length (spell x)"
  have trim: "token_trim_space s = ahead (length pre) s" if "here s (pre @ spell x @ CHR '' '' # cs)" for s
    using pre that c trim_none trim_one [simplified] by auto
  have "finsh_token_token s = Some (item_token x, ahead ?n (read_item x s))"
    if "here s (pre @ spell x @ CHR '' '' # cs)" "\<not> tk_replay s" for s
  proof -
    have "read_item x (ahead n s) = ahead n (read_item x s)" for n by (cases x) simp_all
    then show ?thesis using that body_spelled [OF here_ahead [OF that(1)] x]
      by (simp add: finsh_token_token_def token_run_body trim [OF that(1)] add.commute)
  qed
  then have "\<forall>h. finsh_token_token (s\<lparr>shell := h\<rparr>) = Some (item_token x, (ahead ?n (read_item x s))\<lparr>shell := h\<rparr>)"
    using h r by (simp add: read_item_shell)
  moreover have "here (ahead ?n (read_item x s)) (CHR '' '' # cs)"
    using here_ahead [of "read_item x s" "pre @ spell x" "CHR '' '' # cs"] h by simp
  ultimately show ?thesis using item_was_read [OF x] r unfolding reads_def by (intro exI [of _ "ahead ?n (read_item x s)"]) simp
qed

lemma end_scanned:
  assumes "here s '' ''" "\<not> tk_replay s"
  shows "scans s [Tok T_eof]"
proof -
  let ?s = "s\<lparr>tk_eof := True, tk_position := 0, tk_current := T_eof\<rparr>"
  have "finsh_token_token (s\<lparr>shell := h\<rparr>) = Some (T_eof, ?s\<lparr>shell := h\<rparr>)" for h
    using assms trim_end [of "s\<lparr>shell := h\<rparr>"]
    by (simp add: finsh_token_token_def token_run_body token_body_def token_get_string_def token_next_char_def)
  then have "reads s (Tok T_eof) ?s" using assms by (simp add: reads_def)
  then show ?thesis by (auto simp: scans.simps(2))
qed

lemma spelled_scanned:
  assumes "here s (pre @ spelled xs)" "\<forall>x \<in> set xs. spellable x" "pre = '''' \<or> pre = '' ''" "xs = [] \<Longrightarrow> pre = '' ''" "\<not> tk_replay s"
  shows "scans s (xs @ [Tok T_eof])"
  using assms
proof (induction xs arbitrary: s pre)
  case Nil
  then show ?case by (simp add: end_scanned)
next
  case (Cons x xs)
  then have "here s (pre @ spell x @ CHR '' '' # spelled xs)" "spellable x" by simp_all
  from item_scanned [OF this Cons(4,6)] obtain s1 where s1: "reads s x s1" "here s1 ('' '' @ spelled xs)" by auto
  have "scans s1 (xs @ [Tok T_eof])" by (rule Cons(1) [OF s1(2)]) (use s1(1) Cons(3) in \<open>simp_all add: reads_def\<close>)
  with s1(1) show ?case by (auto simp: scans.simps(2))
qed

text \<open>The text of a line without its end is scanned to its items.\<close>

lemma no_newline:
  assumes "spellable x"
  shows "CHR 0x0A \<notin> set (spell x)"
proof (cases x)
  case (Tok t)
  then show ?thesis using assms by (cases t) (auto simp: token_text_def)
next
  case (Num t v)
  have "CHR 0x0A \<notin> set (decimal n)" for n using decimal_digits [of n] by (auto simp: chars)
  then show ?thesis using Num assms by auto
next
  case (Name n)
  then show ?thesis using assms by (auto simp: is_name_def chars)
qed

lemma line_scanned:
  assumes "\<forall>x \<in> set xs. spellable x" "xs \<noteq> []"
  shows "scans (finsh_token_init (spelled xs) s) (xs @ [Tok T_eof])"
proof (rule spelled_scanned [where pre = "''''"])
  have "CHR 0x0A \<notin> set (spelled xs)" using assms(1) no_newline by (induction xs) auto
  then show "here (finsh_token_init (spelled xs) s) ('''' @ spelled xs)" by (simp add: here_def finsh_token_init_def)
qed (use assms in \<open>simp_all add: finsh_token_init_def\<close>)

text \<open>The items of statements, and what the shell makes of their text.\<close>

definition statement_items :: "finsh_var list \<Rightarrow> fexp list \<Rightarrow> fitem list" where
  "statement_items vs es = concat (map (\<lambda>e. written_exp vs e @ [Tok T_semicolon]) es)"

lemma statements_scanned:
  assumes "\<forall>x \<in> set (statement_items vs es). spellable x" "es \<noteq> []"
  shows "scans (finsh_token_init (spelled (statement_items vs es)) s) (written_line vs es)"
proof -
  have "statement_items vs es \<noteq> []" using assms(2) by (cases es) (simp_all add: statement_items_def)
  with line_scanned [OF assms(1)] show ?thesis by (simp add: written_line_def statement_items_def)
qed

lemma spelled_statements_parsed:
  assumes "\<forall>e \<in> set es. writable (shell s) e" "\<forall>x \<in> set (statement_items (global_variable (shell s)) es). spellable x" "es \<noteq> []"
    "nodes_used (shell s) + sum_list (map nodes es) \<le> FINSH_NODE_MAX"
  shows "\<exists>s1. finsh_parser_run (spelled (statement_items (global_variable (shell s)) es)) s =
    Some (line_node es, s1\<lparr>shell := more_nodes (sum_list (map nodes es)) (shell s)\<rparr>)"
  by (rule line_parsed [OF assms(1) statements_scanned [OF assms(2,3)] assms(4)])

text \<open>The compiler does not look whether the text segment is full.\<close>

lemma line_overflows:
  assumes w: "\<forall>e \<in> set es. writable (shell s) e \<and> well_typed (global_variable (shell s)) e"
    and l: "scans (finsh_token_init line s) (written_line (global_variable (shell s)) es)"
    and i: "nodes_used (shell s) = 0" "global_errno (shell s) = 0" "sum_list (map nodes es) \<le> FINSH_NODE_MAX"
    and big: "FINSH_TEXT_MAX < length (line_code gv (global_variable (shell s)) es)"
  shows "finsh_run_line call gv line s = None"
proof -
  let ?h = "more_nodes (sum_list (map nodes es)) (shell s)"
  obtain s1 where "finsh_parser_run line s = Some (line_node es, s1\<lparr>shell := ?h\<rparr>)" using line_parsed [of es s line] w l i by auto
  moreover have "finsh_compiler_run gv (line_node es) ?h = None" using compiler_run_line [of es ?h gv] w big by (simp add: Let_def)
  ultimately show ?thesis using i by (simp add: finsh_run_line_def)
qed

end
