(* ===== verification/Example_Shell.thy ===== *)
theory Example_Shell
  imports Finsh_Spell
begin

text \<open>
  A shell with a variable and a function, and the lines on which its properties are tried.
\<close>

definition example_call :: finsh_syscall where
  "example_call = \<lparr>syscall_at = 0x08000100, syscall_name = ''add'', syscall_func = 0x08000200\<rparr>"

definition example_functions :: syscalls where
  "example_functions f xs m = (if f = 0x08000200 then Some (sum_list xs, m) else None)"

definition example_vars :: "finsh_var list" where
  "example_vars = [\<lparr>var_name = ''i'', var_type = finsh_type_int\<rparr>, no_var, no_var, no_var, no_var, no_var, no_var, no_var]"

definition example_finsh :: finsh where
  "example_finsh = \<lparr>vm = \<lparr>finsh_vm_stack = replicate 64 0, finsh_sp = 0, text_segment = replicate 128 0, finsh_pc = 0, finsh_mem = (\<lambda>a. Some 0)\<rparr>,
     finsh_compile_pc = 0, global_errno = 0,
     global_variable = example_vars,
     sysvar_table = [], global_sysvar_list = [], syscall_table = [example_call], global_syscall_list = [], nodes_used = 0\<rparr>"

definition example_parser :: finsh_parser where
  "example_parser = \<lparr>tk_eof = False, tk_replay = False, tk_position = 0, tk_current = T_none, tk_value = 0, tk_string = '''', tk_line = '''',
     shell = example_finsh\<rparr>"

definition int_exp :: "u32 \<Rightarrow> fexp" where "int_exp n = E_const FINSH_NODE_VALUE_INT n"

definition example_line :: "fexp list" where
  "example_line = [E_assign (R_var 0) (E_bin B_add (E_bin B_mul (int_exp 6) (int_exp 7)) (int_exp 1)),
     E_call example_call [E_ref (R_var 0), int_exp 2]]"

definition six_increments :: "fexp list" where 
  "six_increments = [E_post True 0, E_post True 0, E_post True 0, E_post True 0, E_post True 0, E_post True 0]"

lemmas example_shell = example_finsh_def example_parser_def example_line_def int_exp_def

lemma example_functions_keep: "keeps_memory example_functions"
  by (simp add: keeps_memory_def example_functions_def)

subsection \<open>The variable and the function\<close>

lemma example_i: "ref_name example_vars (R_var 0) = ''i''" "ref_type example_vars (R_var 0) = finsh_type_int"
  "ref_data example_vars (R_var 0) = FINSH_DATA_TYPE_DWORD" "ref_at gv (R_var 0) = gv + 20" "var_value gv 0 = gv + 20"
  by (simp_all add: ref_name_def example_vars_def ref_type_def ref_data_def type_of_var_def ref_at_def var_value_def)

lemma example_call_name: "syscall_name example_call = ''add''" "syscall_func example_call = 0x08000200"
  by (simp_all add: example_call_def)

lemma example_found: "find_symbol ''i'' example_finsh = Some (FINSH_IDTYPE_VAR, Id_var 0)"
  "find_symbol ''add'' example_finsh = Some (FINSH_IDTYPE_SYSCALL, Id_syscall example_call)"
proof -
  have "finsh_var_lookup ''i'' example_finsh = Some 0" "finsh_var_lookup ''add'' example_finsh = None"
    by (simp_all add: finsh_var_lookup_def example_finsh_def example_vars_def no_var_def same_prefix_def FINSH_NAME_MAX_def)
  moreover have "finsh_sysvar_lookup ''add'' example_finsh = None" by (simp add: finsh_sysvar_lookup_def example_finsh_def)
  moreover have "finsh_syscall_lookup ''add'' example_finsh = Some example_call"
    by (simp add: finsh_syscall_lookup_def example_finsh_def example_call_def)
  ultimately show "find_symbol ''i'' example_finsh = Some (FINSH_IDTYPE_VAR, Id_var 0)"
    "find_symbol ''add'' example_finsh = Some (FINSH_IDTYPE_SYSCALL, Id_syscall example_call)" by (simp_all add: find_symbol_def)
qed

lemma example_variables: "global_variable example_finsh = example_vars" "shell example_parser = example_finsh"
  "nodes_used example_finsh = 0" "global_errno example_finsh = 0" "finsh_mem (vm example_finsh) = (\<lambda>a. Some 0)"
  "length (finsh_vm_stack (vm example_finsh)) = FINSH_STACK_MAX"
  by (simp_all add: example_finsh_def example_parser_def FINSH_STACK_MAX_def)

lemma example_named: "ref_named example_finsh (R_var 0)"
  by (simp add: ref_named_def example_variables example_i example_found FINSH_NAME_MAX_def)

subsection \<open>The lines\<close>

lemma example_writable: "e \<in> set example_line \<or> e \<in> set six_increments \<Longrightarrow> writable example_finsh e"
  by (auto simp: example_line_def int_exp_def six_increments_def example_named example_call_name example_found FINSH_NAME_MAX_def level_num_def)

lemma example_typed: "e \<in> set example_line \<or> e \<in> set six_increments \<Longrightarrow> well_typed example_vars e"
  by (auto simp: example_line_def int_exp_def six_increments_def scalar_def example_i width_def finsh_data_types)
     (simp_all add: example_vars_def)

lemma example_items: "statement_items example_vars example_line =
    [Name ''i'', Tok T_assign, Num T_value_int 6, Tok T_mul, Num T_value_int 7, Tok T_add, Num T_value_int 1, Tok T_semicolon,
     Name ''add'', Tok T_left_paren, Name ''i'', Tok T_comma, Num T_value_int 2, Tok T_right_paren, Tok T_semicolon]"
  by (simp add: statement_items_def example_line_def int_exp_def example_i example_call_name const_token_def)

lemma increment_items: "set (statement_items example_vars six_increments) = {Name ''i'', Tok T_inc, Tok T_semicolon}"
  by (auto simp: statement_items_def six_increments_def example_i)

lemma example_names: "is_name ''i''" "is_name ''add''"
  by (simp_all add: is_name_def chars token_match_name_def finsh_name_table_def)

lemma example_spellable: "x \<in> set (statement_items example_vars example_line) \<or> x \<in> set (statement_items example_vars six_increments) \<Longrightarrow>
    spellable x"
  unfolding example_items increment_items by (auto simp: token_text_def example_names)

lemma example_text: "spelled (statement_items example_vars example_line) = ''i = 6 * 7 + 1 ; add ( i , 2 ) ; ''"
  by (simp add: example_items token_text_def decimal.simps digit_char_def)

lemma example_nodes: "sum_list (map nodes example_line) = 11" "sum_list (map nodes six_increments) = 12"
  by (simp_all add: example_line_def int_exp_def six_increments_def)

lemma example_mapped: "mapped gv vs (\<lambda>a. Some 0)"
  by (simp add: mapped_def numeral_eq_Suc)

lemma example_value: "eval_line example_functions 0x20000000 example_vars example_line (\<lambda>a. Some 0) =
    Some (45, (\<lambda>a. Some 0)(0x20000014 \<mapsto> 43, 0x20000015 \<mapsto> 0, 0x20000016 \<mapsto> 0, 0x20000017 \<mapsto> 0))"
proof -
  have w: "FINSH_DATA_TYPE_DWORD \<noteq> FINSH_DATA_TYPE_BYTE" "FINSH_DATA_TYPE_DWORD \<noteq> FINSH_DATA_TYPE_WORD" "width FINSH_DATA_TYPE_DWORD = 4"
    by (simp_all add: finsh_data_types width_def)
  have "arith FINSH_DATA_TYPE_DWORD c_mul 6 7 = Some 42" "arith FINSH_DATA_TYPE_DWORD c_add 42 1 = Some 43"
    by (simp_all add: arith_def number_as_def w c_mul_def c_add_def)
  moreover have "store_as FINSH_DATA_TYPE_DWORD 0x20000014 43 (\<lambda>a. Some 0) =
      Some ((\<lambda>a. Some 0)(0x20000014 \<mapsto> 43, 0x20000015 \<mapsto> 0, 0x20000016 \<mapsto> 0, 0x20000017 \<mapsto> 0))"
    by (simp add: store_as_def w FINSH_SET32_def)
  moreover have "load_as FINSH_DATA_TYPE_DWORD ((\<lambda>a. Some 0)(0x20000014 \<mapsto> 43, 0x20000015 \<mapsto> 0, 0x20000016 \<mapsto> 0, 0x20000017 \<mapsto> 0)) 0x20000014 = Some 43"
    by (simp add: load_as_def w bytes_at_4)
  ultimately show ?thesis
    by (simp add: example_line_def int_exp_def example_i w example_call_name example_functions_def)
qed

lemma i_code: "length (load_code example_vars gv (R_var 0)) = 5" "length (address_code gv (R_var 0)) = 5"
  "length (one_code FINSH_DATA_TYPE_DWORD) = 5"
  by (simp_all add: load_code_def address_code_def one_code_def finsh_data_types)

lemma example_length: "length (line_code 0x20000000 example_vars example_line) \<le> FINSH_TEXT_MAX" "line_depth example_line \<le> FINSH_STACK_MAX"
  by (simp_all add: example_line_def int_exp_def example_i i_code FINSH_TEXT_MAX_def FINSH_STACK_MAX_def)

lemma increments_length: "length (line_code 0x20000000 example_vars six_increments) = 143"
  by (simp add: six_increments_def example_i i_code)

end
