(* ===== verification/Spec2Isabelle.thy ===== *)
theory Spec2Isabelle
  imports Example_System Console Kprintf_Text Example_Shell
begin

text \<open>
  RT-Thread 1.1.0: the kernel of a real-time operating system, in the configuration of the
  tracker board \<^verbatim>\<open>bsp/stm32f40x_car\<close> (\<^verbatim>\<open>rtconfig.h\<close>: 32 priorities, software timers,
  all five kinds of IPC objects, memory pools, the small heap, an ARM Cortex-M4).

  \<^bold>\<open>The program and its parts.\<close> Threads of 32 priorities run on one processor. The scheduler
  (\<^verbatim>\<open>src/scheduler.c\<close>) keeps a ready list for each priority and a bitmap of those that
  are not empty, and lets the first thread of the most urgent list run. Threads (\<^verbatim>\<open>src/thread.c\<close>) start, end,
  sleep, are suspended and resumed. A thread that waits is on the waiting list of an object
  (\<^verbatim>\<open>src/ipc.c\<close>: semaphores, mutexes, events, mailboxes, message queues; \<^verbatim>\<open>src/mempool.c\<close>: memory pools), and its built-in timer
  (\<^verbatim>\<open>src/timer.c\<close>) ends a wait with a time limit. The tick interrupt (\<^verbatim>\<open>src/clock.c\<close>) counts
  time, takes turns between threads of the same priority and fires the timers that are due; a
  thread of its own fires the soft timers. Objects are listed by class (\<^verbatim>\<open>src/object.c\<close>) and
  may lie in the heap (\<^verbatim>\<open>src/mem.c\<close>); the idle thread (\<^verbatim>\<open>src/idle.c\<close>) frees what ended threads
  leave behind. Devices (\<^verbatim>\<open>src/device.c\<close>) dispatch to the functions of drivers; the driver framework
  (\<^verbatim>\<open>components/drivers\<close>) has ring buffers, data queues, completions and pipes, and \<^verbatim>\<open>src/kservice.c\<close> has memory and string
  functions, formatted output and the console. The shell
  (\<^verbatim>\<open>components/finsh\<close>) scans a line that was typed, parses it to a tree, compiles the tree to the code of a stack machine and runs
  it. Everything in the kernel is linked by the doubly linked lists of \<^verbatim>\<open>include/rtservice.h\<close>.

  \<^bold>\<open>The theories.\<close>
  \<^item> \<open>Prelude\<close>: machine integers, error codes, alignment, assertions.
  \<^item> \<open>Rt_List\<close>: the linked lists, with pointers (\<open>rt_list_*\<close> on \<open>links\<close>) and as lists
    (\<open>l_*\<close> on \<open>lists\<close>, which the other theories use), and that the one represents the other
    (\<open>rep\<close>; locale \<open>list_implementation\<close>, interpreted as \<open>rtl\<close>).
  \<^item> \<open>Heap_State\<close>, \<open>Rt_Def\<close>: the structures of \<^verbatim>\<open>include/rtdef.h\<close> as records, and the global
    variables gathered in \<open>kstate\<close>. An object is named by its address; what all objects have in
    common (\<^verbatim>\<open>struct rt_object\<close>) is in \<open>objs\<close>, the rest in a store for each kind.
  \<^item> \<open>Object\<close>, \<open>Scheduler\<close>, \<open>Thread_Core\<close>, \<open>Timer\<close>, \<open>Thread\<close>: the operations of
    \<^verbatim>\<open>object.c\<close>, \<^verbatim>\<open>scheduler.c\<close>, \<^verbatim>\<open>thread.c\<close>, \<^verbatim>\<open>timer.c\<close>, \<^verbatim>\<open>clock.c\<close> and \<^verbatim>\<open>irq.c\<close>.
    \<open>sched_inv\<close> says that the ready lists are exactly the ready threads and the bitmap is exact,
    \<open>timer_inv\<close> that the listed timers are the active ones, \<open>kinv\<close> is both; every operation keeps it
    (\<open>kinv_*\<close>).
  \<^item> \<open>Heap_Mem\<close>, \<open>Object_Heap\<close>: the heap as a chain of blocks (\<open>heap_inv\<close>, \<open>heap_wf\<close>), with the
    contract of an allocator (locale and its interpretation \<open>small_heap\<close>), and the objects in it.
  \<^item> \<open>Ipc_Base\<close>, \<open>Semaphore\<close>, \<open>Mutex\<close>, \<open>Event\<close>, \<open>Bounded_Queue\<close>, \<open>Mailbox\<close>, \<open>Msgqueue\<close>: the parts of
    \<^verbatim>\<open>ipc.c\<close>, each with its own invariant (\<open>sem_ok\<close>, \<open>mutex_ok\<close>, \<open>event_ok\<close>, \<open>mb_ok\<close>, \<open>mq_inv\<close>); \<open>Bounded_Queue\<close>
    is the contract of a bounded first-in first-out queue, which mailbox and message queue provide. A message queue
    enables interrupts between the two parts of a send or a receive; \<open>mq_step\<close> and \<open>mq_spec\<close> describe
    their interleaving.
  \<^item> \<open>Mempool\<close>: the pools of \<^verbatim>\<open>mempool.c\<close>; \<open>mp_inv\<close> says that each block is free and linked, or handed out.
  \<^item> \<open>Object_Types\<close>: the lists of objects are typed. \<open>Sleeping\<close>: tick interrupts that follow each other (\<open>ticks\<close>) return and
    wake the threads that sleep, each at its tick.
  \<^item> \<open>Ring\<close>, \<open>Ringbuffer\<close>, \<open>Data_Queue\<close>: rings whose indices run on past the size, and the two that use them. They are rings only
    when the size is a power of two (\<open>ring_size\<close>), which nothing checks (\<open>rb_size_24\<close>, \<open>dq_size_no_power\<close>); \<open>*_in_step\<close> says that
    the indices have not wrapped around, after which the code goes wrong (\<open>rb_out_of_step\<close>, \<open>dq_out_of_step\<close>).
    What a data queue notifies is under the contracts \<open>data_queue_notify\<close> and \<open>data_queue_quiet\<close>.
  \<^item> \<open>Completion\<close>, \<open>Device\<close>, \<open>Pipe\<close>: completions; devices, with the functions of drivers as a parameter under the contract
    \<open>device_driver\<close>; pipes, which are devices that fulfil it. \<open>needs_init\<close> and \<open>init_calls\<close> say, without the loop, what the
    initialisation of all devices does.
  \<^item> \<open>Kmem\<close>, \<open>Kprintf\<close>, \<open>Console\<close>: \<^verbatim>\<open>kservice.c\<close>, on a memory that maps addresses to bytes. A C string is what \<open>cstr\<close> says,
    a format is the list of its bytes, an argument of a format a word or a string. \<open>Kprintf_Text\<close>: the text that a format and its
    arguments stand for (\<open>format_items\<close>, \<open>format_text\<close>), and that the code puts it out.
  \<^item> \<open>Finsh_Vm\<close>, \<open>Finsh_Node\<close>, \<open>Finsh_Compiler\<close>, \<open>Finsh_Token\<close>, \<open>Finsh_Parser\<close>: the shell, from its stack machine
    (\<^verbatim>\<open>finsh_vm.c\<close>, \<^verbatim>\<open>finsh_ops.c\<close>) over symbols and trees (\<^verbatim>\<open>finsh_var.c\<close>, \<^verbatim>\<open>finsh_node.c\<close>), the compiler and the scanner to the
    parser and the running of a line (\<^verbatim>\<open>finsh_parser.c\<close>, \<^verbatim>\<open>shell.c\<close>). \<open>Finsh_Eval\<close> says what expressions mean (\<open>eval\<close>), which trees and
    which code belong to them; \<open>Finsh_Exec\<close> that the code computes them (\<open>computes\<close>); \<open>Finsh_Syntax\<close> how they are written as tokens, and that
    the parser finds their trees (\<open>yields\<close>, \<open>leads\<close>); \<open>Finsh_Spell\<close> how tokens are spelled, and that the scanner finds them.
  \<^item> \<open>Timer_Callbacks\<close>: what a timeout function may do (\<open>isr_op\<close>), and that the timer checks then keep
    the invariant. \<open>System\<close>: calls of threads and their sections, interrupts and the timer thread as steps
    (\<open>kstep\<close>, \<open>kreach\<close>). \<open>Msgqueue_Trace\<close>: a run of the kernel seen from a message queue
    (\<open>mq_path\<close>). \<open>Example_System\<close>: a booted system with threads and objects, and a heap,
    on which the properties are tried; \<open>Example_Shell\<close>: a shell with a variable and a function.

  \<^bold>\<open>Conventions.\<close> An operation maps a state to \<open>Some\<close> result and state, or to \<open>None\<close> where the
  program stops in an assertion, loops without end, follows a null pointer, indexes out of range or
  links a node that is already linked. Error codes are integers, as in the code. A call is one step, and interrupts
  arrive between the steps. Most calls disable interrupts around all they do to the lists; a blocking operation is cut at
  its call of \<^verbatim>\<open>rt_schedule\<close>: the first part ends with \<open>Blocked\<close> and what its thread remembers, the
  second part (\<open>*_resumed\<close>) runs when the thread is switched to again. Calls that enable interrupts on their way are cut there
  for message queues and for \<^verbatim>\<open>rt_thread_delete\<close>, \<^verbatim>\<open>rt_thread_detach\<close> and \<^verbatim>\<open>rt_thread_resume\<close> of a suspended thread
  (\<open>section_exec\<close>): anything may come in between that leaves the thread as the section before has left it (\<open>section_ok\<close>). That the code does not
  ensure this is a fault: a timeout in between puts a closed thread on a ready list (\<open>close_timed_out\<close>, \<open>delete_interrupted\<close>). The closing
  of a ready thread, and the other calls that enable interrupts on their way (those that create, start, initialise, detach, delete or
  control an object, start or stop a timer, allocate memory or work on a device), are one step each, and what is said of them
  is for runs in which no interrupt arrives inside them. Words have the width they have in the
  code and wrap around; sizes and offsets of the heap are numbers, with the wrap-around of 32 bits
  written out. Loops that may not end (\<open>timer_check_loop\<close>, \<open>soft_timer_loop\<close>, \<open>malloc_find\<close>,
  \<open>next_free\<close>, \<open>rt_ipc_list_resume_all\<close>, \<open>mq_drain\<close>, \<open>mp_resume_all\<close>, \<open>init_loop\<close>,
  \<open>strlen_end\<close>, \<open>rt_strcmp\<close>, \<open>rt_strcasecmp\<close>, \<open>parse\<close>, \<open>declare_loop\<close>, \<open>parser_loop\<close>) are partial functions, so that not returning is \<open>None\<close>, and the
  theorems say when they return; no fuel is used.

  \<^bold>\<open>What the theorems show.\<close> C1-C3: consistency of every state reached by such steps, and the choice of the scheduler.
  C4: the lists. C5-C8: ticks, turns, timers, and sleeping threads, which wake in time. C9: the types of objects.
  C10-C18: waiting, semaphores, mutexes with the priority that is lent, events. C19: mailboxes.
  C20-C23: the heap, and a limit that is not checked. C24-C25: message queues. C26-C27: memory pools, and how waiting
  for a block goes wrong. C28-C32: data queues, ring buffers, pipes and devices. C33-C37: memory functions, formatted
  output, the console and aligned blocks. C38-C40: the shell, from the text of a line to its value. Each theorem with a hypothesis has a witness, most of them on the booted
  system. The theorems between them that have no number are further facts of the same parts.

  \<^bold>\<open>Not modelled.\<close> Hooks, which are not set, and debug
  output. The saving of registers in the context switch, and the contents of a new stack. Of \<^verbatim>\<open>kservice.c\<close>, \<^verbatim>\<open>rt_strdup\<close>,
  \<^verbatim>\<open>rt_show_version\<close> and the pointer of \<^verbatim>\<open>_rt_errno\<close>. \<^verbatim>\<open>memheap.c\<close>,
  \<^verbatim>\<open>slab.c\<close> and \<^verbatim>\<open>module.c\<close> are not part of the configuration. Of the shell, the editing of a line, its heap and with it string
  constants, and the disassembler. Drivers of hardware, file systems, network, graphics and the vendor libraries are not the kernel. A
  blocking call with the scheduler locked returns without having waited; such steps are left out of
  \<open>kstep\<close>, which asks that the running thread is ready. The devices of \<open>kstep\<close> are pipes; other drivers are a parameter of
  \<open>Device\<close> only.
\<close>

section \<open>Threads and the scheduler\<close>



text \<open>C2: When the scheduler is not locked and some thread is ready, and no stack has overflowed,
  \<^verbatim>\<open>rt_schedule\<close> returns and the thread it has chosen is ready, with no ready thread of a more
  urgent priority.\<close>

theorem schedule_most_urgent:
  assumes "kinv s" "stat (threads s u) = RT_THREAD_READY" "rt_scheduler_lock_nest s = 0"
    and "rt_current_thread s = Some c" "\<And>t. stat (threads s t) = RT_THREAD_READY \<Longrightarrow> stack_ok (threads s t)"
  shows "\<exists>s' t. rt_schedule s = Some s' \<and> rt_current_thread s' = Some t \<and>
    stat (threads s' t) = RT_THREAD_READY \<and>
    (\<forall>v. stat (threads s' v) = RT_THREAD_READY \<longrightarrow> current_priority (threads s' t) \<le> current_priority (threads s' v))"
  by (rule rt_schedule_highest [OF _ assms(2-5)]) (use assms(1) in \<open>auto simp: kinv_def\<close>)

theorem schedule_most_urgent_witness:
  "\<exists>s' t. rt_schedule demo = Some s' \<and> rt_current_thread s' = Some t"
proof -
  have "rt_scheduler_lock_nest demo = 0" by code_simp
  from schedule_most_urgent [OF kinv_demo demo_ready this demo_current demo_stack]
  show ?thesis by blast
qed

text \<open>C3: The search of the ready bitmap through the table of \<^verbatim>\<open>rt_lowest_bitmap\<close>, byte by byte,
  finds the lowest bit that is set.\<close>

theorem bitmap_search_lowest:
  assumes "g \<noteq> 0"
  shows "highest_ready_priority g = (LEAST p. bit g p)"
proof (rule Least_equality [symmetric])
  show "bit g (highest_ready_priority g)" using highest_ready_priority_bit [OF assms] by simp
  show "highest_ready_priority g \<le> p" if "bit g p" for p
    using highest_ready_priority_bit [OF assms] that not_less by blast
qed

theorem bitmap_search_lowest_witness: "(LEAST p. bit (0x00300400 :: u32) p) = 10"
proof -
  have "highest_ready_priority 0x00300400 = 10" by code_simp
  with bitmap_search_lowest [of "0x00300400"] show ?thesis by simp
qed

text \<open>C4: The doubly linked lists of \<^verbatim>\<open>rtservice.h\<close>, pointers and all, implement lists: any
  sequence of initialisations, insertions and removals on linked nodes, for which the list operations are
  defined, leaves the pointers that represent the resulting lists, and a head is
  empty exactly when its list is.\<close>

theorem linked_lists_refine:
  assumes "rep I m L" "ops_ok I xs" "l_run xs L = Some L'"
  shows "(\<exists>I'. I \<subseteq> I' \<and> rep I' (fold p_exec xs m) L') \<and>
    (rt_list_isempty (Head h) (fold p_exec xs m) \<longleftrightarrow> elems L' h = [])"
  using rtl.run_sim [OF assms] rtl.run_empty [OF assms] by blast

theorem linked_lists_refine_witness:
  "\<not> rt_list_isempty (Head (0::nat))
     (fold p_exec [Init (1::nat), Init 2, Insert_last 0 1, Insert_first 0 2, Remove 1]
        \<lparr>nxt = (\<lambda>x. x), prv = (\<lambda>x. x)\<rparr>)"
proof -
  have rep0: "rep {} \<lparr>nxt = (\<lambda>x. x), prv = (\<lambda>x. x)\<rparr> \<lparr>elems = (\<lambda>_::nat. []), onlist = (\<lambda>_::nat. None)\<rparr>"
    by (simp add: rep_def wf_no_lists)
  have ok: "ops_ok {} [Init (1::nat), Init 2, Insert_last (0::nat) 1, Insert_first 0 2, Remove 1]" by simp
  have "\<exists>L'. l_run [Init (1::nat), Init 2, Insert_last (0::nat) 1, Insert_first 0 2, Remove 1]
      \<lparr>elems = (\<lambda>_. []), onlist = (\<lambda>_. None)\<rparr> = Some L' \<and> elems L' 0 = [2]"
    by (simp add: l_init_node_def l_insert_last_def l_insert_first_def l_remove_def)
  then show ?thesis using linked_lists_refine [OF rep0 ok, of _ 0] by auto
qed

text \<open>C5: A tick interrupt, when it returns, has counted the tick, kept the kernel consistent and the hard timers in
  the order of their timeouts, and left no hard timer on the list that is due, whatever the timers' functions
  do to semaphores, events, mailboxes and threads.\<close>

theorem tick_fires_all_due:
  assumes "rt_tick_increase (isr_callbacks tab) s = Some s'" "kinv s" "timers_ordered s"
    and "\<And>x. x \<in> set (elems (tmlists s) Hard_timers) \<Longrightarrow> timeout_tick (timers s x) \<noteq> rt_tick s"
  shows "kinv s' \<and> timers_ordered s' \<and> rt_tick s' = rt_tick s + 1 \<and>
    (\<forall>x \<in> set (elems (tmlists s') Hard_timers). timeout_tick (timers s' x) \<noteq> rt_tick s')"
  using isr.tick_increase [OF assms] by blast

text \<open>Thread 1 waits for the semaphore with a limit of one tick; the tick ends its wait.\<close>

theorem tick_fires_all_due_witness:
  "\<exists>s'. rt_tick_increase (isr_callbacks (\<lambda>_ _. Isr_nothing)) demo_waiting = Some s' \<and> timers_ordered s'"
proof -
  let ?m = "rt_tick_increase (isr_callbacks (\<lambda>_ _. Isr_nothing)) demo_waiting"
  have "?m \<noteq> None" by code_simp
  then obtain s' where s': "?m = Some s'" by blast
  have "timers_ordered demo_waiting" by code_simp
  moreover have "\<forall>x \<in> set (elems (tmlists demo_waiting) Hard_timers).
      timeout_tick (timers demo_waiting x) \<noteq> rt_tick demo_waiting" by code_simp
  ultimately show ?thesis using tick_fires_all_due [OF s' kinv_demo_waiting] s' by blast
qed

text \<open>C6: A running thread that yields, with other ready threads of its priority, goes to the end of
  the ready list of its priority, and no other ready list changes.\<close>

theorem yield_rotates:
  assumes "rt_thread_yield s = Some (r, s')" "kinv s" "rt_current_thread s = Some t"
    and "elems (tlists s) (Ready p) = t # ts" "ts \<noteq> []"
  shows "elems (tlists s') (Ready p) = ts @ [t] \<and>
    (\<forall>q. q \<noteq> p \<longrightarrow> elems (tlists s') (Ready q) = elems (tlists s) (Ready q))"
proof -
  have sch: "sched_but {} (threads s) (tlists s) (rt_thread_ready_priority_group s)"
    using assms(2) by (simp add: kinv_def sched_inv_def)
  have t: "stat (threads s t) = RT_THREAD_READY" "unat (current_priority (threads s t)) = p"
    using sched_ready_iff [OF sch, of t p] assms(4) by simp_all
  have "onlist (tlists s) t = Some (Ready p)"
    using wf_listsD(2) [OF sched_but_wf [OF sch], of t "Ready p"] assms(4) by simp
  then have "l_next (tlists s) (Node t) \<noteq> l_prev (tlists s) (Node t)"
    using assms(4,5) by (cases ts) (simp_all add: l_next_def l_prev_def Let_def)
  with assms(1,3) t obtain L where L: "l_insert_last (Ready p) t (l_remove t (tlists s)) = Some L"
    "rt_schedule (s\<lparr>tlists := L\<rparr>) = Some s'"
    by (auto simp: rt_thread_yield_def bind_eq_Some_conv)
  have wf: "wf_lists (tlists s)" by (rule sched_but_wf [OF sch])
  have "tlists s' = L" using schedule_same(2) [OF L(2)] by simp
  moreover have "remove1 t (elems (tlists s) (Ready q)) = elems (tlists s) (Ready q)" if "q \<noteq> p" for q
    using that t(2) sched_ready_iff [OF sch, of t q] by (intro remove1_idem) simp
  ultimately show ?thesis using L(1) assms(4) by (simp add: l_insert_last_Some elems_l_remove [OF wf])
qed

theorem yield_rotates_witness:
  "\<exists>r s'. rt_thread_yield demo_pair = Some (r, s') \<and> elems (tlists s') (Ready 10) = [3, 1]"
proof -
  have "rt_thread_yield demo_pair \<noteq> None" by code_simp
  then obtain r s' where y: "rt_thread_yield demo_pair = Some (r, s')" by auto
  have cur: "rt_current_thread demo_pair = Some 1" by code_simp
  have ready: "elems (tlists demo_pair) (Ready 10) = 1 # [3]" by code_simp
  from yield_rotates [OF y kinv_demo_pair cur ready] y show ?thesis by simp
qed

text \<open>C7: A hard timer that is not active is started with a timeout of its period from now, is put on the list of
  hard timers, and the list stays in the order of the timeouts, across the wrap-around of the
  tick counter.\<close>

theorem timer_start_in_order:
  assumes "rt_timer_start x s = Some (r, s')" "kinv s" "timers_ordered s"
    and "timer_flag s x AND RT_TIMER_FLAG_SOFT_TIMER = 0" "timer_flag s x AND RT_TIMER_FLAG_ACTIVATED = 0"
  shows "timers_ordered s' \<and> x \<in> set (elems (tmlists s') Hard_timers) \<and>
    timeout_tick (timers s' x) = rt_tick s + tm_init_tick (timers s x)"
proof -
  have "kinv s'" by (rule kinv_timer_start [OF assms(1,2)])
  then have "wf_lists (tmlists s')" by (rule kinv_wf_tm)
  then show ?thesis
    using timer_start_ordered [OF assms(1-3)] timer_start_hard(4) [OF assms(1,2,4,5)] wf_listsD(2) by fastforce
qed

theorem timer_start_in_order_witness:
  "\<exists>r s'. rt_timer_start (Thread_timer 2) demo_waiting = Some (r, s') \<and> timers_ordered s'"
proof -
  have "rt_timer_start (Thread_timer 2) demo_waiting \<noteq> None" by code_simp
  then obtain r s' where st: "rt_timer_start (Thread_timer 2) demo_waiting = Some (r, s')" by auto
  have "timers_ordered demo_waiting" "timer_flag demo_waiting (Thread_timer 2) AND RT_TIMER_FLAG_SOFT_TIMER = 0"
    "timer_flag demo_waiting (Thread_timer 2) AND RT_TIMER_FLAG_ACTIVATED = 0" by code_simp+
  then show ?thesis using timer_start_in_order [OF st kinv_demo_waiting] st by blast
qed

text \<open>C8: While the hard timers that run are those of suspended threads, tick interrupts return, and a thread that goes
  to sleep for a number of ticks is suspended until the last of them has come, and ready then.\<close>

theorem sleeper_woken_in_time:
  assumes "sleepers s" "none_due s" "rt_current_thread s = Some t" "stat (threads s t) = RT_THREAD_READY"
    and "stat (threads s u) = RT_THREAD_READY" "u \<noteq> t" "thread_timer_ok s t"
    and "0 < tick" "tick < RT_TICK_MAX div 2"
  shows "\<exists>s1. rt_thread_sleep tick s = Some s1 \<and> (\<forall>k \<le> unat tick. \<exists>s2. ticks cb k s1 = Some s2 \<and>
    stat (threads s2 t) = (if k < unat tick then RT_THREAD_SUSPEND else RT_THREAD_READY))"
  by (rule sleep_ends [OF assms])

theorem sleeper_woken_in_time_witness:
  "\<exists>s1 s2. rt_thread_sleep 3 demo = Some s1 \<and> ticks (\<lambda>_ _. Some) 3 s1 = Some s2 \<and>
     stat (threads s2 1) = RT_THREAD_READY"
proof -
  have none: "elems (tmlists demo) Hard_timers = []" by code_simp
  have "can_schedule demo" using demo_current demo_ready demo_stack by (auto simp: can_schedule_def)
  then have "sleepers demo" "none_due demo"
    using kinv_demo by (simp_all add: sleepers_def none_due_def none timers_ordered_def tick_sorted_def)
  moreover have "stat (threads demo 0) = RT_THREAD_READY" by code_simp
  moreover have "thread_timer_ok demo 1" by code_simp
  moreover have "(0 :: u32) < 3" "(3 :: u32) < RT_TICK_MAX div 2" by code_simp+
  ultimately obtain s1 where s1: "rt_thread_sleep 3 demo = Some s1"
    "\<forall>k \<le> unat (3 :: u32). \<exists>s2. ticks (\<lambda>_ _. Some) k s1 = Some s2 \<and>
      stat (threads s2 1) = (if k < unat (3 :: u32) then RT_THREAD_SUSPEND else RT_THREAD_READY)"
    using sleeper_woken_in_time [of demo 1 0 3 "\<lambda>_ _. Some"] demo_current demo_ready by auto
  from s1(2) [rule_format, of 3] s1(1) show ?thesis by auto
qed

text \<open>C9: The lists of the object container stay typed, on the list of a class only objects of this class whose type
  field says so: initialising, allocating, detaching and deleting objects keep this, and a search returns an object
  of the class that was asked for.\<close>

theorem container_stays_typed:
  assumes "container_typed s"
  shows "(rt_object_init x (class_of x) nm s = Some s1 \<longrightarrow> container_typed s1) \<and>
    (rt_object_allocate c nm s = Some (a, s2) \<longrightarrow> container_typed s2 \<and>
      (a \<noteq> 0 \<longrightarrow> (\<exists>y. obj_at c a = Some y \<and> y \<in> set (elems (obj_lists s2) c)))) \<and>
    container_typed (rt_object_detach x s) \<and>
    (rt_object_delete x s = Some s3 \<longrightarrow> container_typed s3) \<and>
    (rt_object_find nm' type s = Some (Some y, s4) \<longrightarrow>
      class_num (class_of y) = type \<and> y \<in> set (elems (obj_lists s) (class_of y)) \<and> type_ok (objs s y) (class_of y))"
  using typed_init [OF _ assms] typed_allocate [OF _ assms] typed_detach [OF assms] typed_delete [OF _ assms]
    find_typed [OF _ assms] by blast

theorem container_stays_typed_witness:
  "\<exists>s1 s2. rt_object_init (Sem_o 7) RT_Object_Class_Semaphore [115] demo = Some s1 \<and>
     rt_object_find (Some [115]) 1 s1 = Some (Some (Sem_o 7), s2) \<and> container_typed s1 \<and>
     type_ok (objs s1 (Sem_o 7)) RT_Object_Class_Semaphore"
proof -
  let ?m = "rt_object_init (Sem_o 7) RT_Object_Class_Semaphore [115] demo"
  have "Option.bind ?m (\<lambda>s. map_option fst (rt_object_find (Some [115]) 1 s)) = Some (Some (Sem_o 7))"
    by code_simp
  then obtain s1 s2 where r: "?m = Some s1" "rt_object_find (Some [115]) 1 s1 = Some (Some (Sem_o 7), s2)"
    unfolding bind_eq_Some_conv map_option_eq_Some by force
  have t1: "container_typed s1" using container_stays_typed [OF demo_typed, of "Sem_o 7"] r(1) by simp
  have "type_ok (objs s1 (Sem_o 7)) RT_Object_Class_Semaphore" using container_stays_typed [OF t1] r(2) by fastforce
  then show ?thesis using r t1 by blast
qed

text \<open>C10: Waking all threads that wait for an object returns, leaves the list empty and makes each of
  them ready with the error \<^verbatim>\<open>-RT_ERROR\<close>, and changes no other thread.\<close>

theorem resume_all_returns:
  assumes "kinv s" "is_wait h"
  shows "\<exists>s'. rt_ipc_list_resume_all h s = Some (RT_EOK, s') \<and> elems (tlists s') h = [] \<and>
    (\<forall>t. threads s' t = (if t \<in> set (elems (tlists s) h)
       then (threads s t)\<lparr>th_error := - RT_ERROR, stat := RT_THREAD_READY\<rparr> else threads s t))"
  using resume_all [OF assms] by blast

theorem resume_all_returns_witness:
  "\<exists>s'. rt_ipc_list_resume_all (Sem_wait 1) demo_waiting = Some (RT_EOK, s') \<and>
     stat (threads s' 1) = RT_THREAD_READY"
  using resume_all_returns [OF kinv_demo_waiting, of "Sem_wait 1"] demo_waiting_list by auto

section \<open>Semaphores and mutexes\<close>

text \<open>C11: A thread that has to wait for a semaphore is suspended, without an error so far, at its place
  on the list of the semaphore: by priority or in order of arrival, as the flag says.
  When a time is given, its timer runs and times out after that time.\<close>

theorem sem_take_waits:
  assumes "rt_sem_take x time s = Some (Blocked t, s')" "kinv s" "self_ready s"
    and "o_flag (objs s (Sem_o x)) = RT_IPC_FLAG_FIFO \<or> o_flag (objs s (Sem_o x)) = RT_IPC_FLAG_PRIO"
    and "hard_timer s t"
  shows "stat (threads s' t) = RT_THREAD_SUSPEND \<and> th_error (threads s' t) = RT_EOK \<and>
    elems (tlists s') (Sem_wait x) =
      wait_insert (o_flag (objs s (Sem_o x))) (threads s) t (elems (tlists s) (Sem_wait x)) \<and>
    (0 < sint time \<and> timer_flag s (Thread_timer t) AND RT_TIMER_FLAG_ACTIVATED = 0 \<longrightarrow>
      onlist (tmlists s') (Thread_timer t) = Some Hard_timers \<and>
      timeout_tick (timers s' (Thread_timer t)) = rt_tick s + time)"
  using sem_take_blocks [OF assms] by simp

theorem sem_take_waits_witness:
  "\<exists>s'. rt_sem_take 1 10 demo = Some (Blocked 1, s') \<and> elems (tlists s') (Sem_wait 1) = [1]"
proof -
  have "(case rt_sem_take 1 10 demo of Some (Blocked t, _) \<Rightarrow> t = 1 | _ \<Rightarrow> False)" by code_simp
  then obtain s' where op: "rt_sem_take 1 10 demo = Some (Blocked 1, s')"
    by (auto split: option.splits outcome.splits)
  have f: "o_flag (objs demo (Sem_o 1)) = RT_IPC_FLAG_PRIO" by code_simp
  have h: "hard_timer demo 1" by code_simp
  have "elems (tlists demo) (Sem_wait 1) = []" by code_simp
  with sem_take_waits [OF op kinv_demo demo_self_ready disjI2 [OF f] h] op
  show ?thesis by (simp add: wait_insert_def)
qed

text \<open>C12: Releasing a semaphore for which threads wait wakes the first of them and leaves the value
  as it is; when the list is in the order of priorities, none of those that still wait is more urgent.\<close>

theorem sem_release_wakes_first:
  assumes "rt_sem_release x s = Some (r, s')" "kinv s" "elems (tlists s) (Sem_wait x) = t # ts"
  shows "r = RT_EOK \<and> stat (threads s' t) = RT_THREAD_READY \<and> elems (tlists s') (Sem_wait x) = ts \<and>
    sem_value (sems s' x) = sem_value (sems s x) \<and>
    (prio_sorted (threads s) (t # ts) \<longrightarrow>
      (\<forall>u \<in> set ts. current_priority (threads s t) \<le> current_priority (threads s u)))"
  using sem_release_wakes [OF assms] by (simp add: prio_sorted_Cons)

theorem sem_release_wakes_first_witness:
  "\<exists>r s'. rt_sem_release 1 demo_waiting = Some (r, s') \<and> stat (threads s' 1) = RT_THREAD_READY"
proof -
  have "rt_sem_release 1 demo_waiting \<noteq> None" by code_simp
  then obtain r s' where op: "rt_sem_release 1 demo_waiting = Some (r, s')" by auto
  with sem_release_wakes_first [OF op kinv_demo_waiting demo_waiting_list] show ?thesis by simp
qed

text \<open>C13: Threads wait for a semaphore only while its value is 0: taking, releasing and
  resetting it keep this.\<close>

theorem sem_no_idle_wait:
  assumes "kinv s" "self_ready s" "sem_ok s x"
  shows "(rt_sem_take x time s = Some (out, s1) \<longrightarrow> sem_ok s1 x) \<and>
    (rt_sem_release x s = Some (r, s2) \<longrightarrow> sem_ok s2 x) \<and>
    (rt_sem_control x cmd arg s = Some (r, s3) \<longrightarrow> sem_ok s3 x)"
  using sem_take_ok sem_release_ok sem_control_ok assms by blast

theorem sem_no_idle_wait_witness:
  "\<exists>out s1. rt_sem_take 1 10 demo = Some (out, s1) \<and> sem_ok s1 1"
proof -
  have "rt_sem_take 1 10 demo \<noteq> None" by code_simp
  then obtain out s1 where op: "rt_sem_take 1 10 demo = Some (out, s1)" by auto
  have "sem_ok demo 1" by code_simp
  from sem_no_idle_wait [OF kinv_demo demo_self_ready this] op show ?thesis by blast
qed

text \<open>C14: While a thread owns a mutex, no other thread takes it: it does not get \<^verbatim>\<open>RT_EOK\<close> at
  once, and the mutex keeps its owner, its count and the priority it will restore.\<close>

theorem mutex_exclusion:
  assumes "rt_mutex_take x time s = Some (out, s')" "kinv s" "self_ready s" "mutex_ok s x"
    and "owner (mutexes s x) = Some u" "rt_current_thread s \<noteq> Some u"
  shows "out \<noteq> Returned RT_EOK \<and> mutexes s' x = mutexes s x"
  by (rule mutex_excludes [OF assms])

text \<open>Thread 2 owns the mutex, and thread 1 runs.\<close>

theorem mutex_exclusion_witness:
  "\<exists>out s'. rt_mutex_take 1 10 demo_owned = Some (out, s') \<and> owner (mutexes s' 1) = Some 2"
proof -
  have "rt_mutex_take 1 10 demo_owned \<noteq> None" by code_simp
  then obtain out s' where op: "rt_mutex_take 1 10 demo_owned = Some (out, s')" by auto
  have "mutex_ok demo_owned 1" "owner (mutexes demo_owned 1) = Some 2" "rt_current_thread demo_owned \<noteq> Some 2"
    by code_simp+
  with mutex_exclusion [OF op kinv_demo_owned demo_owned_self] op show ?thesis by auto
qed

text \<open>C15: A thread that waits for a mutex lends its owner its priority: the owner runs with the more urgent
  of the two.\<close>

theorem mutex_priority_lent:
  assumes "rt_mutex_take x time s = Some (Blocked t, s')" "kinv s" "self_ready s"
    and "owner (mutexes s x) = Some u"
  shows "u \<noteq> t \<and>
    current_priority (threads s' u) = min (current_priority (threads s u)) (current_priority (threads s t))"
  by (rule mutex_lends [OF assms])

theorem mutex_priority_lent_witness:
  "\<exists>s'. rt_mutex_take 1 10 demo_owned = Some (Blocked 1, s') \<and> current_priority (threads s' 2) = 10"
proof -
  have "(case rt_mutex_take 1 10 demo_owned of Some (Blocked t, _) \<Rightarrow> t = 1 | _ \<Rightarrow> False)" by code_simp
  then obtain s' where op: "rt_mutex_take 1 10 demo_owned = Some (Blocked 1, s')"
    by (auto split: option.splits outcome.splits)
  have o2: "owner (mutexes demo_owned 1) = Some 2" by code_simp
  have "min (current_priority (threads demo_owned 2)) (current_priority (threads demo_owned 1)) = 10" by code_simp
  with mutex_priority_lent [OF op kinv_demo_owned demo_owned_self o2] op show ?thesis by auto
qed

text \<open>C16: The last release of a mutex gives its owner back the priority it had when it took the mutex; with no thread
  waiting the mutex is free again, and otherwise the first thread that waits owns it, once, is ready, and
  its own priority is the one to restore.\<close>

theorem mutex_released:
  assumes "rt_mutex_release x s = Some (r, s')" "kinv s" "self_ready s"
    and "rt_current_thread s = Some u" "owner (mutexes s x) = Some u" "hold (mutexes s x) = 1"
    and "u \<notin> set (elems (tlists s) (Mutex_wait x))"
  shows "r = RT_EOK \<and> current_priority (threads s' u) = original_priority (mutexes s x) \<and>
    (case elems (tlists s) (Mutex_wait x) of
       [] \<Rightarrow> owner (mutexes s' x) = None \<and> hold (mutexes s' x) = 0 \<and>
         mtx_value (mutexes s' x) = mtx_value (mutexes s x) + 1
     | w # ws \<Rightarrow> owner (mutexes s' x) = Some w \<and> hold (mutexes s' x) = 1 \<and>
         original_priority (mutexes s' x) = current_priority (threads s w) \<and>
         stat (threads s' w) = RT_THREAD_READY \<and> elems (tlists s') (Mutex_wait x) = ws)"
  using mutex_release_last [OF assms] by (cases "elems (tlists s) (Mutex_wait x)") simp_all

theorem mutex_released_witness:
  "\<exists>r s'. rt_mutex_release 1 demo_contended = Some (r, s') \<and> owner (mutexes s' 1) = Some 1 \<and>
     current_priority (threads s' 2) = 20"
proof -
  have "rt_mutex_release 1 demo_contended \<noteq> None" by code_simp
  then obtain r s' where op: "rt_mutex_release 1 demo_contended = Some (r, s')" by auto
  have self: "self_ready demo_contended" by code_simp
  have m: "rt_current_thread demo_contended = Some 2" "owner (mutexes demo_contended 1) = Some 2"
    "hold (mutexes demo_contended 1) = 1" "2 \<notin> set (elems (tlists demo_contended) (Mutex_wait 1))"
    by code_simp+
  have w: "elems (tlists demo_contended) (Mutex_wait 1) = [1]" by code_simp
  have p: "original_priority (mutexes demo_contended 1) = 20" by code_simp
  from mutex_released [OF op kinv_demo_contended self m] op w p show ?thesis by auto
qed

text \<open>C17: Taking and releasing a mutex, by running threads and as long as it is not taken 255 times over,
  keep it well formed: free with count 0 and no owner, or owned and taken at least once with value 0.\<close>

theorem mutex_well_formed:
  assumes "kinv s" "self_ready s" "mutex_ok s x"
  shows "(rt_mutex_take x time s = Some (out, s1) \<and> hold (mutexes s x) \<noteq> 255 \<longrightarrow> mutex_ok s1 x) \<and>
    (rt_mutex_release x s = Some (r, s2) \<and> rt_current_thread s \<noteq> None \<longrightarrow> mutex_ok s2 x)"
  using mutex_take_ok mutex_release_ok assms by blast

theorem mutex_well_formed_witness:
  "\<exists>out s'. rt_mutex_take 1 0 demo = Some (out, s') \<and> mutex_ok s' 1"
proof -
  have "rt_mutex_take 1 0 demo \<noteq> None" by code_simp
  then obtain out s' where op: "rt_mutex_take 1 0 demo = Some (out, s')" by auto
  have m: "mutex_ok demo 1" "hold (mutexes demo 1) \<noteq> 255" by code_simp+
  from mutex_well_formed [OF kinv_demo demo_self_ready m(1)] op m(2) show ?thesis by blast
qed

section \<open>Events and mailboxes\<close>

text \<open>C18: No thread waits for an event whose flags satisfy it: sending flags leaves no satisfied
  thread on the list, however it was before, and receiving and resetting keep that.\<close>

theorem event_no_satisfied_waiter:
  assumes "kinv s" "self_ready s" "\<And>t. rt_current_thread s = Some t \<Longrightarrow> hard_timer s t"
    and "o_flag (objs s (Event_o x)) = RT_IPC_FLAG_FIFO \<or> o_flag (objs s (Event_o x)) = RT_IPC_FLAG_PRIO"
  shows "(rt_event_send x flags s = Some (r, s1) \<and> flags \<noteq> 0 \<longrightarrow> event_ok s1 x) \<and>
    (rt_event_recv x wanted opt timeout s = Some (out, s2) \<and> event_ok s x \<longrightarrow> event_ok s2 x) \<and>
    (rt_event_control x cmd arg s = Some (r, s3) \<and> event_ok s x \<longrightarrow> event_ok s3 x)"
proof -
  have "event_ok s2 x" if "rt_event_recv x wanted opt timeout s = Some (out, s2)" "event_ok s x"
    by (rule event_recv_ok [OF that(1) assms(1,2) that(2) assms(3,4)])
  then show ?thesis
    using event_send_settles [OF _ assms(1)] event_control_ok [OF _ assms(1)] by blast
qed

theorem event_no_satisfied_waiter_witness:
  "\<exists>out s2. rt_event_recv 1 5 RT_EVENT_FLAG_AND 10 demo = Some (out, s2) \<and> event_ok s2 1"
proof -
  have "rt_event_recv 1 5 RT_EVENT_FLAG_AND 10 demo \<noteq> None" by code_simp
  then obtain out s2 where op: "rt_event_recv 1 5 RT_EVENT_FLAG_AND 10 demo = Some (out, s2)" by auto
  have f: "o_flag (objs demo (Event_o 1)) = RT_IPC_FLAG_PRIO" by code_simp
  have "hard_timer demo 1" by code_simp
  then have h: "hard_timer demo t" if "rt_current_thread demo = Some t" for t
    using that by (simp add: demo_current del: One_nat_def)
  have e: "event_ok demo 1" by code_simp
  from event_no_satisfied_waiter [OF kinv_demo demo_self_ready h disjI2 [OF f]] op e show ?thesis by blast
qed

text \<open>The loop of \<^verbatim>\<open>rt_event_send\<close> over the waiting threads returns, however it wakes
  them, and leaves a consistent kernel.\<close>

theorem event_loop_returns:
  assumes "kinv s"
  shows "\<exists>b s'. event_send_loop x (elems (tlists s) (Event_wait x)) False s = Some (b, s') \<and> kinv s'"
proof -
  have "wf_lists (tlists s)" using assms by (auto simp: kinv_def sched_inv_def dest: sched_but_wf)
  then have "distinct (elems (tlists s) (Event_wait x))" by (rule wf_listsD(1))
  then show ?thesis using event_send_loop [OF assms, of "elems (tlists s) (Event_wait x)" x False] by auto
qed

theorem event_loop_returns_witness:
  "\<exists>b s'. event_send_loop 1 (elems (tlists demo) (Event_wait 1)) False demo = Some (b, s')"
  using event_loop_returns [OF kinv_demo, of 1] by blast

text \<open>C19: The ring of a mailbox is a bounded first-in first-out queue: whatever sequence of puts
  (when there is room) and gets (when there is mail) runs on it, nothing fails, and what was in it and went in
  comes out in that order, the rest staying in it.\<close>

theorem mailbox_fifo:
  assumes "mb_ok m"
  shows "\<exists>ins outs m'. queue_run mb_full mb_empty mb_put mb_get ops m = Some (ins, outs, m') \<and> mb_ok m' \<and>
    mb_items m @ ins = outs @ mb_items m' \<and> mb_size m' = mb_size m"
  using mbq.run_fifo [OF assms, of ops] by (auto simp: word_unat_eq_iff)

theorem mailbox_fifo_witness:
  "\<exists>m'. queue_run mb_full mb_empty mb_put mb_get [Put 7, Put 8, Put 9, Get, Put 10, Get] (mailboxes demo 1) =
     Some ([7, 8, 10], [7, 8], m') \<and> mb_items m' = [10]"
proof -
  let ?m = "mailboxes demo 1" and ?ops = "[Put 7, Put 8, Put 9, Get, Put 10, Get]"
  have ok: "mb_ok ?m" by code_simp
  have run: "map_option (\<lambda>(i, out, m'). (i, out)) (queue_run mb_full mb_empty mb_put mb_get ?ops ?m) =
      Some ([7, 8, 10], [7, 8])" by code_simp
  have e: "mb_items ?m = []" by code_simp
  from mailbox_fifo [OF ok, of ?ops] run e show ?thesis by auto
qed

text \<open>A send that returns \<^verbatim>\<open>RT_EOK\<close> has put its mail at the end of the mailbox, and one that waits or fails
  has changed nothing in it; a receive that returns a mail has taken the first, and otherwise the mailbox is as it
  was.\<close>

theorem mailbox_send_receive:
  assumes "kinv s" "self_ready s" "mb_ok (mailboxes s x)"
  shows "(rt_mb_send_wait x v timeout s = Some (out, s1) \<longrightarrow> mb_ok (mailboxes s1 x) \<and>
      (if out = Returned RT_EOK then mb_items (mailboxes s1 x) = mb_items (mailboxes s x) @ [v]
       else mailboxes s1 x = mailboxes s x)) \<and>
    (rt_mb_recv x timeout s = Some (out', s2) \<longrightarrow> mb_ok (mailboxes s2 x) \<and>
      (case out' of
         Returned (r, Some w) \<Rightarrow> r = RT_EOK \<and> mb_items (mailboxes s x) = w # mb_items (mailboxes s2 x)
       | _ \<Rightarrow> mailboxes s2 x = mailboxes s x))"
  using mb_send_items [OF _ assms] mb_recv_items [OF _ assms] by blast

theorem mailbox_send_receive_witness:
  "\<exists>s1. rt_mb_send_wait 1 42 0 demo = Some (Returned RT_EOK, s1) \<and> mb_items (mailboxes s1 1) = [42]"
proof -
  have "(case rt_mb_send_wait 1 42 0 demo of Some (Returned r, _) \<Rightarrow> r = RT_EOK | _ \<Rightarrow> False)" by code_simp
  then obtain s1 where op: "rt_mb_send_wait 1 42 0 demo = Some (Returned RT_EOK, s1)"
    by (auto split: option.splits outcome.splits)
  have m: "mb_ok (mailboxes demo 1)" "mb_items (mailboxes demo 1) = []" by code_simp+
  from mailbox_send_receive [OF kinv_demo demo_self_ready m(1)] op m(2) show ?thesis by fastforce
qed

text \<open>After a wait that began at some tick, a send or a receive with a time limit that tries again has left of its
  limit what has not passed since, and nothing once the limit is over.\<close>

theorem remaining_time:
  assumes "0 < sint timeout" "uint (rt_tick s - began) < 0x80000000"
  shows "unat (fst (ipc_remaining timeout began s)) = unat timeout - unat (rt_tick s - began)"
  by (rule ipc_remaining [OF assms])

text \<open>Across the wrap-around of the tick counter.\<close>

theorem remaining_time_witness:
  "unat (fst (ipc_remaining 100 0xfffffff0 (rt_tick_set 0x10 k_zero))) = 68"
  using remaining_time [of 100 "rt_tick_set 0x10 k_zero" "0xfffffff0"]
  by (simp add: rt_tick_set_def)

section \<open>The heap\<close>

text \<open>C20: On a well-formed heap \<^verbatim>\<open>rt_malloc\<close> returns. It gives \<^verbatim>\<open>RT_NULL\<close> and changes
  nothing, or an address that was not handed out, with room for the bytes asked for (unless the size is
  within 8 of the end of its range), apart from all that is handed out, which keeps its room.\<close>

theorem malloc_fresh:
  assumes "heap_wf h"
  shows "\<exists>a h'. rt_malloc n h = Some (a, h') \<and> heap_wf h' \<and>
    (a = 0 \<and> h' = h \<or>
     a \<noteq> 0 \<and> a \<notin> heap_live h \<and> heap_live h' = insert a (heap_live h) \<and>
     (unat n \<le> 2 ^ 32 - 8 \<longrightarrow> unat n \<le> heap_room h' a) \<and>
     (\<forall>b \<in> heap_live h. heap_room h' b = heap_room h b \<and>
        (a + heap_room h' a \<le> b \<or> b + heap_room h b \<le> a)))"
  by (rule small_heap.alloc_ok [OF assms])

theorem malloc_fresh_witness:
  "\<exists>a h'. rt_malloc 20 demo_heap = Some (a, h') \<and> a \<noteq> 0 \<and> 20 \<le> heap_room h' a"
proof -
  from demo_malloc_20 obtain h' where "rt_malloc 20 demo_heap = Some (24, h')" by blast
  with malloc_fresh [OF demo_heap_wf, of 20] show ?thesis by auto
qed

text \<open>C21: What \<^verbatim>\<open>rt_malloc\<close> has given can be given back: \<^verbatim>\<open>rt_free\<close> returns, and the same
  addresses as before are handed out, with the same room.\<close>

theorem malloc_free:
  assumes "heap_wf h" "rt_malloc n h = Some (a, h1)" "a \<noteq> 0"
  shows "\<exists>h2. rt_free a h1 = Some h2 \<and> heap_wf h2 \<and> heap_live h2 = heap_live h \<and>
    (\<forall>b \<in> heap_live h. heap_room h2 b = heap_room h b)"
  by (rule small_heap.alloc_release [OF assms])

theorem malloc_free_witness:
  "\<exists>a h1 h2. rt_malloc 20 demo_heap = Some (a, h1) \<and> rt_free a h1 = Some h2 \<and> heap_live h2 = {}"
proof -
  from demo_malloc_20 obtain h1 where m: "rt_malloc 20 demo_heap = Some (24, h1)" by blast
  from malloc_free [OF demo_heap_wf m] m demo_heap_empty show ?thesis by auto
qed

text \<open>C22: \<^verbatim>\<open>rt_free\<close> of a block that is in use returns, merges it with its free neighbours so
  that no two free blocks are next to each other, and keeps the blocks a chain over the whole heap and the count of
  used bytes exact.\<close>

theorem free_merges:
  assumes "heap_inv h bs" "p \<in> set bs" "used h p"
  shows "\<exists>h' bs'. rt_free (heap_ptr h + p + 16) h = Some h' \<and> heap_blocks h' bs' \<and> no_free_pair h' bs' \<and>
    chain (hdr h') bs' (heap_end h') \<and> used_mem h' = sum_list (map (block_bytes h') bs')"
proof -
  have "p \<in> live h bs" using assms(2,3) by (simp add: live_def)
  from rt_free_ok [OF assms(1) this] obtain h' bs' where
    "rt_free (heap_ptr h + p + 16) h = Some h'" "heap_inv h' bs'" by blast
  then show ?thesis by (auto simp: heap_inv_def heap_blocks_def)
qed

text \<open>The second of two blocks in use is freed and merges with the rest of the heap.\<close>

theorem free_merges_witness:
  "\<exists>h1 h2 bs. rt_malloc 20 demo_heap = Some (24, h1) \<and> rt_free 24 h1 = Some h2 \<and> no_free_pair h2 bs"
proof -
  from demo_malloc_20 obtain h1 where m: "rt_malloc 20 demo_heap = Some (24, h1)" by blast
  from demo_malloc_block [OF m] obtain bs where b: "heap_inv h1 bs" "0 \<in> set bs" "used h1 0" "heap_ptr h1 = 8"
    by blast
  from free_merges [OF b(1-3)] m b(4) show ?thesis by auto
qed

text \<open>\<^verbatim>\<open>rt_system_heap_init\<close> on a region of memory with room for more than its two headers
  leaves a well-formed heap from which nothing is handed out.\<close>

theorem heap_init_well_formed:
  assumes "0 < unat (RT_ALIGN begin_addr RT_ALIGN_SIZE)" "used_mem h = 0"
    and "unat (RT_ALIGN begin_addr RT_ALIGN_SIZE) + 48 \<le> unat (RT_ALIGN_DOWN end_addr RT_ALIGN_SIZE)"
  shows "heap_wf (rt_system_heap_init begin_addr end_addr h) \<and>
    heap_live (rt_system_heap_init begin_addr end_addr h) = {}"
  using heap_init_inv [OF assms] heap_live_eq [OF heap_invD(1)] by (auto simp: heap_wf_def)

theorem heap_init_well_formed_witness: "heap_wf (rt_system_heap_init 0x2001 0x2fff zero_heap)"
proof -
  have "0 < unat (RT_ALIGN 0x2001 RT_ALIGN_SIZE)" "used_mem zero_heap = 0"
    "unat (RT_ALIGN 0x2001 RT_ALIGN_SIZE) + 48 \<le> unat (RT_ALIGN_DOWN 0x2fff RT_ALIGN_SIZE)"
    by (simp_all add: RT_ALIGN_def RT_ALIGN_DOWN_def RT_ALIGN_SIZE_def zero_heap_def)
  from heap_init_well_formed [OF this] show ?thesis ..
qed

section \<open>Bounds and limits\<close>

text \<open>\<^verbatim>\<open>rt_tick_from_millisecond\<close> rounds up to whole ticks, as long as the product does not
  overflow.\<close>

theorem ticks_rounded_up:
  assumes "unat ms < 42949663"
  shows "unat (rt_tick_from_millisecond ms) = (unat ms + 9) div 10"
proof -
  have "unat (RT_TICK_PER_SECOND * ms + 999) = 100 * unat ms + 999"
    using assms by (simp add: RT_TICK_PER_SECOND_def unat_word_ariths)
  then have "unat (rt_tick_from_millisecond ms) = (100 * unat ms + 999) div 1000"
    by (simp add: rt_tick_from_millisecond_def unat_div)
  also have "\<dots> = (100 * unat ms + 999) div 100 div 10" by (simp flip: div_mult2_eq)
  also have "(100 * unat ms + 999) div 100 = unat ms + 9" by simp
  finally show ?thesis .
qed

theorem ticks_rounded_up_witness: "unat (rt_tick_from_millisecond 25) = 3"
  using ticks_rounded_up [of 25] by simp

text \<open>The value of a semaphore is a 16-bit number that nothing guards: a release at 65535 with no thread
  waiting makes it 0 and reports success.\<close>

theorem sem_value_wraps:
  assumes "elems (tlists s) (Sem_wait x) = []" "sem_value (sems s x) = 65535"
  shows "\<exists>s'. rt_sem_release x s = Some (RT_EOK, s') \<and> sem_value (sems s' x) = 0"
  using assms by (simp add: rt_sem_release_def)

theorem sem_value_wraps_witness:
  "\<exists>s'. rt_sem_release 1 (upd_sem 1 (\<lambda>_. \<lparr>sem_value = 65535\<rparr>) k_zero) = Some (RT_EOK, s') \<and>
     sem_value (sems s' 1) = 0"
  by (rule sem_value_wraps) (simp_all add: k_zero_def)

text \<open>C23: A request within 8 bytes of the end of the range of sizes overflows when it is aligned, and is
  answered like a request for one byte.\<close>

theorem malloc_size_overflow:
  assumes "heap_wf h" and "0xfffffff8 < (n :: u32)"
  shows "rt_malloc n h = rt_malloc 1 h"
proof -
  have al_n: "RT_ALIGN n RT_ALIGN_SIZE = 0"
    using assms(2) by (rule RT_ALIGN_overflow)
  have al_1: "RT_ALIGN 1 RT_ALIGN_SIZE = 8" by (simp add: RT_ALIGN_def RT_ALIGN_SIZE_def)
  have n: "n \<noteq> 0" using assms(2) by auto
  obtain bs where "heap_inv h bs" using assms(1) by (auto simp: heap_wf_def)
  then have "16 \<le> mem_size_aligned h"
    by (auto dest!: heap_invD(1) heap_blocks_frame simp: heap_frame_def)
  then show ?thesis using n by (simp add: rt_malloc_def al_n al_1 MIN_SIZE_ALIGNED_def)
qed

theorem malloc_size_overflow_witness:
  "\<exists>a h'. rt_malloc 0xffffffff demo_heap = Some (a, h') \<and> a \<noteq> 0"
proof -
  from demo_malloc [of 1] obtain h' where "rt_malloc 1 demo_heap = Some (24, h')"
    by (auto simp: RT_ALIGN_def RT_ALIGN_SIZE_def)
  with malloc_size_overflow [where n = "0xffffffff", OF demo_heap_wf] show ?thesis by auto
qed

section \<open>Message queues and memory pools\<close>

text \<open>C24: However the critical sections of sends, urgent sends and receives on a message queue follow each other
  in a run of the kernel, and whatever happens in between that leaves this queue itself alone (so not its reset or detachment, and
  no send to it from a timer function), they do what the specification of a message queue
  says: each message is put in its place in the order, is taken once and in its turn, and arrives as it was
  sent; when no operation is between its parts, the queue holds just the messages of the specification.\<close>

theorem message_interleaving:
  assumes "mq_path tab x s0 es s" "kinv s0" "mq_good (msgqueues s0 x)"
    and "run_ok (unat (msg_size (msgqueues s0 x))) es (mq_quiet (mq_msgs (msgqueues s0 x)))"
  shows "\<exists>p. spec_run es (mq_quiet (mq_msgs (msgqueues s0 x))) = Some p \<and> mq_sim (msgqueues s x) p \<and>
    (p = mq_quiet (messages p) \<longrightarrow> mq_good (msgqueues s x) \<and>
      list_all2 (\<lambda>w v. take (length v) w = v) (mq_msgs (msgqueues s x)) (messages p))"
proof -
  from mq_path_sim [OF assms(1,2) mq_good_sim [OF assms(3)] assms(4)] obtain p where
    p: "spec_run es (mq_quiet (mq_msgs (msgqueues s0 x))) = Some p" "mq_sim (msgqueues s x) p" by blast
  moreover have "mq_good (msgqueues s x) \<and> list_all2 (\<lambda>w v. take (length v) w = v) (mq_msgs (msgqueues s x)) (messages p)"
    if "p = mq_quiet (messages p)"
    using p(2) by (subst (asm) that) (rule mq_sim_quiet)
  ultimately show ?thesis by blast
qed

text \<open>Two sends of which the second ends first, and a receive in between: it gets the second message, and the first
  stays.\<close>

theorem message_interleaving_witness:
  "\<exists>es s. mq_path (\<lambda>_ _. Isr_nothing) 1 demo_mq es s \<and> list_all2 (\<lambda>w v. take (length v) w = v) (mq_msgs (msgqueues s 1)) [[1, 2]]"
proof -
  let ?cs = "[Sys_mq_send_begin False 1 [1, 2], Sys_mq_send_begin False 1 [3], Sys_mq_send_end False 1 1,
    Sys_mq_recv 1 8 0, Sys_mq_send_end False 1 2, Sys_mq_recv_end 1 8 1]"
  let ?es = "[Send_begin False [1, 2] 2, Send_begin False [3] 1, Send_end False 1, Recv_begin 1, Send_end False 2,
    Recv_end 1 [3, 0, 0, 0, 0, 0, 0, 0]]"
  have "map_option fst (mq_go 1 ?cs demo_mq) = Some ?es" by code_simp
  then obtain s where "mq_go 1 ?cs demo_mq = Some (?es, s)" by auto
  from mq_go_path [OF this mq_path.none] have path: "mq_path (\<lambda>_ _. Isr_nothing) 1 demo_mq ?es s" by simp
  have ok: "run_ok (unat (msg_size (msgqueues demo_mq 1))) ?es (mq_quiet (mq_msgs (msgqueues demo_mq 1)))"
    by (simp add: demo_mq_good mq_quiet_def del: One_nat_def)
  have "spec_run ?es (mq_quiet (mq_msgs (msgqueues demo_mq 1))) = Some (mq_quiet [[1, 2]])"
    by (simp add: demo_mq_good mq_quiet_def fun_eq_iff del: One_nat_def)
  then show ?thesis
    using message_interleaving [OF path kinv_demo_mq demo_mq_good(1) ok] path by (auto simp: mq_quiet_def)
qed

text \<open>A message queue is a bounded first-in first-out queue of messages of its size: whatever sequence of sends
  (when there is room) and receives (when there is a message) runs on it, nothing fails, and the messages come out
  in the order in which they went in.\<close>

theorem message_fifo:
  assumes "mq_good q" "\<forall>v. Put v \<in> set ops \<longrightarrow> length v = unat (msg_size q)"
  shows "\<exists>ins outs q'. queue_run mq_full mq_empty (mq_put False) mq_get ops q = Some (ins, outs, q') \<and> mq_good q' \<and>
    mq_msgs q @ ins = outs @ mq_msgs q'"
  using mqq.run_fifo [OF assms] by blast

theorem message_fifo_witness:
  "\<exists>q'. queue_run mq_full mq_empty (mq_put False) mq_get [Put (replicate 8 5), Put (replicate 8 6), Get]
     (msgqueues demo_mq 1) = Some ([replicate 8 5, replicate 8 6], [replicate 8 5], q') \<and> mq_msgs q' = [replicate 8 6]"
proof -
  let ?q = "msgqueues demo_mq 1" and ?ops = "[Put (replicate 8 5), Put (replicate 8 6), Get]"
  have f: "\<forall>v. Put v \<in> set ?ops \<longrightarrow> length v = unat (msg_size ?q)" by (simp add: demo_mq_good del: One_nat_def)
  have run: "map_option (\<lambda>(i, out, q'). (i, out)) (queue_run mq_full mq_empty (mq_put False) mq_get ?ops ?q) =
      Some ([replicate 8 5, replicate 8 6], [replicate 8 5])" by code_simp
  from message_fifo [OF demo_mq_good(1) f] run demo_mq_good(2) show ?thesis by auto
qed

text \<open>C25: A send that is accepted puts its message, with the bytes of the slot behind it, at the end of the queue, an
  urgent one in front, and one that is refused changes nothing; a receive that finds a message takes the first and
  fills the buffer with as much of it as there is room for.\<close>

theorem message_send_receive:
  assumes "mq_good (msgqueues s x)"
  shows "(rt_mq_send x buf s = Some (r, s1) \<longrightarrow> mq_good (msgqueues s1 x) \<and>
      (if r = RT_EOK then \<exists>w. padded (msgqueues s x) buf w \<and> mq_msgs (msgqueues s1 x) = mq_msgs (msgqueues s x) @ [w]
       else msgqueues s1 x = msgqueues s x)) \<and>
    (rt_mq_urgent x buf s = Some (r, s2) \<longrightarrow> mq_good (msgqueues s2 x) \<and>
      (if r = RT_EOK then \<exists>w. padded (msgqueues s x) buf w \<and> mq_msgs (msgqueues s2 x) = w # mq_msgs (msgqueues s x)
       else msgqueues s2 x = msgqueues s x)) \<and>
    (rt_mq_recv x n timeout s = Some (Mq_slot msg, s3) \<and> rt_mq_recv_end x n msg s3 = ((e, got), s4) \<longrightarrow>
      e = RT_EOK \<and> mq_good (msgqueues s4 x) \<and>
      (\<exists>w. mq_msgs (msgqueues s x) = w # mq_msgs (msgqueues s4 x) \<and> got = take (unat n) w))"
  using mq_send_both_msgs [of False x buf s r s1] mq_send_both_msgs [of True x buf s r s2]
    mq_recv_msgs [of x n timeout s msg s3 e got s4] assms
  by (auto simp: rt_mq_send_def rt_mq_urgent_def)

theorem message_send_receive_witness:
  "\<exists>s1 w. rt_mq_send 1 [7, 8] demo_mq = Some (RT_EOK, s1) \<and> mq_msgs (msgqueues s1 1) = [w] \<and> take 2 w = [7, 8]"
proof -
  have "map_option fst (rt_mq_send 1 [7, 8] demo_mq) = Some RT_EOK" by code_simp
  then obtain s1 where op: "rt_mq_send 1 [7, 8] demo_mq = Some (RT_EOK, s1)" by auto
  have "\<exists>w. padded (msgqueues demo_mq 1) [7, 8] w \<and> mq_msgs (msgqueues s1 1) = mq_msgs (msgqueues demo_mq 1) @ [w]"
    using message_send_receive [OF demo_mq_good(1), of "[7, 8]" RT_EOK s1] op by meson
  then obtain w where "padded (msgqueues demo_mq 1) [7, 8] w" "mq_msgs (msgqueues s1 1) = mq_msgs (msgqueues demo_mq 1) @ [w]"
    by blast
  then have "take 2 w = [7, 8]" "mq_msgs (msgqueues s1 1) = [w]"
    by (simp_all add: padded_def demo_mq_good numeral_2_eq_2 del: One_nat_def)
  with op show ?thesis by blast
qed

text \<open>The loop that empties a message queue ends; a reset, when it returns, leaves the queue empty with all its
  slots free and no thread waiting for it.\<close>

theorem message_reset:
  assumes "mq_good (msgqueues s x)" "kinv s"
  shows "mq_drain (msgqueues s x) \<noteq> None \<and>
    (rt_mq_control x RT_IPC_CMD_RESET s = Some (r, s') \<longrightarrow>
      r = RT_EOK \<and> mq_good (msgqueues s' x) \<and> mq_msgs (msgqueues s' x) = [] \<and> elems (tlists s') (Mq_wait x) = [])"
proof -
  obtain F Q where "mq_inv (msgqueues s x) F Q {}" using assms(1) by (auto simp: mq_good_def)
  then have "mq_drain (msgqueues s x) \<noteq> None" using mq_drain_inv by fastforce
  moreover have "elems (tlists s') (Mq_wait x) = []" if op: "rt_mq_control x RT_IPC_CMD_RESET s = Some (r, s')"
  proof -
    from op obtain r1 s1 q where ra: "rt_ipc_list_resume_all (Mq_wait x) s = Some (r1, s1)"
      and "rt_schedule (upd_mq x (\<lambda>_. q) s1) = Some s'"
      by (auto simp: rt_mq_control_def bind_eq_Some_conv)
    moreover have "elems (tlists s1) (Mq_wait x) = []" using resume_all [OF assms(2), of "Mq_wait x"] ra by auto
    ultimately show ?thesis using schedule_same(2) by fastforce
  qed
  ultimately show ?thesis using mq_reset_empties [OF _ assms(1)] by blast
qed

theorem message_reset_witness:
  "\<exists>r s'. rt_mq_control 1 RT_IPC_CMD_RESET demo_mq = Some (r, s') \<and> mq_msgs (msgqueues s' 1) = []"
proof -
  have "rt_mq_control 1 RT_IPC_CMD_RESET demo_mq \<noteq> None" by code_simp
  then obtain r s' where op: "rt_mq_control 1 RT_IPC_CMD_RESET demo_mq = Some (r, s')" by auto
  from message_reset [OF demo_mq_good(1) kinv_demo_mq] op show ?thesis by blast
qed

text \<open>A memory pool on a region that does not go past the end of the addresses starts with all its blocks
  free, at least one of them, and nothing handed out.\<close>

theorem pool_init_free:
  assumes "rt_mp_init x nm start sz bsz s = Some (r, s')" "start + unat sz \<le> 2 ^ 32"
  shows "\<exists>F. mp_inv s' x F {} \<and> length F = unat (block_total_count (mempools s' x)) \<and> 0 < length F"
  by (rule mp_init_ok [OF assms])

theorem pool_init_free_witness:
  "\<exists>r s' F. rt_mp_init 1 [112] 64 24 8 demo = Some (r, s') \<and> mp_inv s' 1 F {} \<and> length F = 2"
proof -
  have "map_option (\<lambda>(r, s'). block_total_count (mempools s' 1)) (rt_mp_init 1 [112] 64 24 8 demo) = Some 2"
    by code_simp
  then obtain r s' where op: "rt_mp_init 1 [112] 64 24 8 demo = Some (r, s')" "block_total_count (mempools s' 1) = 2"
    by auto
  from pool_init_free [OF op(1)] op show ?thesis by auto
qed

text \<open>C26: An allocation from a pool with a free block returns the data of a block of the pool that was not handed
  out; no byte of it belongs to another block that is handed out.\<close>

theorem pool_alloc_fresh:
  assumes "mp_wf s x" "block_free_count (mempools s x) \<noteq> 0"
  shows "\<exists>a s'. rt_mp_alloc x time s = Some (Returned a, s') \<and> mp_wf s' x \<and> a \<noteq> 0 \<and> a \<notin> mp_live s x \<and>
    mp_live s' x = insert a (mp_live s x) \<and> a - 4 \<in> mp_blocks (mempools s x) \<and>
    (\<forall>b \<in> mp_live s x. a + unat (block_size (mempools s x)) + 4 \<le> b \<or> b + unat (block_size (mempools s x)) + 4 \<le> a)"
  by (rule mp_alloc_ok [OF assms])

theorem pool_alloc_fresh_witness:
  "\<exists>a s'. rt_mp_alloc 1 0 demo_mp = Some (Returned a, s') \<and> a \<noteq> 0 \<and> mp_live s' 1 = {a}"
proof -
  have "block_free_count (mempools demo_mp 1) \<noteq> 0" by code_simp
  from pool_alloc_fresh [OF demo_mp_wf this, of 0] demo_mp_live show ?thesis by auto
qed

text \<open>Freeing a block of a pool takes it back; when threads wait for a block, the first of them is made ready
  without an error, and the count of those that wait stays right.\<close>

theorem pool_free:
  assumes "rt_mp_free a s = Some s'" "kinv s" "mp_wf s x" "a \<in> mp_live s x" "mp_counted s x"
  shows "mp_wf s' x \<and> mp_live s' x = mp_live s x - {a} \<and> mp_counted s' x \<and>
    (case elems (tlists s) (Mp_wait x) of [] \<Rightarrow> threads s' = threads s
     | t # ts \<Rightarrow> stat (threads s' t) = RT_THREAD_READY \<and> th_error (threads s' t) = RT_EOK \<and>
         elems (tlists s') (Mp_wait x) = ts)"
  by (rule mp_free_ok [OF assms])

theorem pool_free_witness:
  "\<exists>s1 s2. rt_mp_alloc 1 0 demo_mp = Some (Returned 68, s1) \<and> rt_mp_free 68 s1 = Some s2 \<and> mp_live s2 1 = {}"
proof -
  obtain s1 where s1: "rt_mp_alloc 1 0 demo_mp = Some (Returned 68, s1)" "mp_wf s1 1" "mp_live s1 1 = {68}"
    using demo_mp_taken by blast
  have k: "kinv s1" by (rule kinv_mp_alloc [OF s1(1) kinv_demo_mp demo_mp_self])
  have "map_option (\<lambda>(r, s1). mp_counted s1 1 \<and> rt_mp_free 68 s1 \<noteq> None) (rt_mp_alloc 1 0 demo_mp) = Some True"
    by code_simp
  then have "mp_counted s1 1" "rt_mp_free 68 s1 \<noteq> None" using s1(1) by simp_all
  then show ?thesis using pool_free [OF _ k s1(2), of 68] s1 by auto
qed

text \<open>A thread that has to wait for a block is suspended in front of those that wait already, and
  counted.\<close>

theorem pool_alloc_waits:
  assumes "rt_mp_alloc x time s = Some (Blocked t, s')" "kinv s" "self_ready s"
    and "mp_counted s x" "suspend_thread_count (mempools s x) \<noteq> 0xffffffff" "hard_timer s t"
  shows "elems (tlists s') (Mp_wait x) = t # elems (tlists s) (Mp_wait x) \<and> mp_counted s' x \<and>
    stat (threads s' t) = RT_THREAD_SUSPEND"
  by (rule mp_alloc_waits [OF assms])

text \<open>A pool from which all blocks are taken: its free list is empty.\<close>

theorem pool_alloc_waits_witness:
  "\<exists>s'. rt_mp_alloc 1 10 demo_mp_full = Some (Blocked 1, s') \<and> elems (tlists s') (Mp_wait 1) = [1]"
proof -
  have "(case rt_mp_alloc 1 10 demo_mp_full of Some (Blocked t, _) \<Rightarrow> t = 1 | _ \<Rightarrow> False)" by code_simp
  then obtain s' where op: "rt_mp_alloc 1 10 demo_mp_full = Some (Blocked 1, s')"
    by (auto split: option.splits outcome.splits)
  have m: "self_ready demo_mp_full" "mp_counted demo_mp_full 1"
    "suspend_thread_count (mempools demo_mp_full 1) \<noteq> 0xffffffff" "hard_timer demo_mp_full 1" by code_simp+
  have "elems (tlists demo_mp_full) (Mp_wait 1) = []" by code_simp
  with pool_alloc_waits [OF op kinv_demo_mp_full m] op show ?thesis by auto
qed

text \<open>C27: Two ways in which threads that wait for a block of a memory pool go wrong. A woken thread takes a block
  without looking whether there still is one: when another thread has taken it first, it follows a null pointer. And
  a thread whose wait times out stays counted: the next free then takes the head of the empty waiting
  list for a thread. Both happen in states that the kernel reaches.\<close>

theorem pool_wait_faults:
  "(\<exists>s. kreach no_user_timers demo_mp1 s \<and> rt_current_thread s = Some 2 \<and> th_error (threads s 2) = RT_EOK \<and>
      rt_mp_alloc_resumed 1 2 s = None) \<and>
   (\<exists>s. kreach no_user_timers demo_mp1 s \<and> elems (tlists s) (Mp_wait 1) = [] \<and>
      suspend_thread_count (mempools s 1) = 1 \<and> rt_mp_free 68 s = None)"
proof
  show "\<exists>s. kreach no_user_timers demo_mp1 s \<and> rt_current_thread s = Some 2 \<and> th_error (threads s 2) = RT_EOK \<and>
      rt_mp_alloc_resumed 1 2 s = None"
    by (rule run_events_reach [of _ "[Do (Mp_call (Sys_mp_alloc 1 0)), Do (Thread_call (Sys_thread_delay 1)),
      Do (Mp_call (Sys_mp_alloc 1 0xffffffff)), Tick, Do (Mp_call (Sys_mp_free 68)), Do (Mp_call (Sys_mp_alloc 1 0)),
      Do (Thread_call (Sys_thread_delay 1))]"]) code_simp
  show "\<exists>s. kreach no_user_timers demo_mp1 s \<and> elems (tlists s) (Mp_wait 1) = [] \<and>
      suspend_thread_count (mempools s 1) = 1 \<and> rt_mp_free 68 s = None"
    by (rule run_events_reach [of _ "[Do (Mp_call (Sys_mp_alloc 1 0)), Do (Thread_call (Sys_thread_delay 9)),
      Do (Mp_call (Sys_mp_alloc 1 1)), Tick, Do (Mp_call (Sys_mp_alloc_resumed 1 2))]"]) code_simp
qed

section \<open>Devices and drivers\<close>

text \<open>C28: A data queue whose size is a power of two, of at most 32768 items, and whose indices have not wrapped around: a push
  that returns \<^verbatim>\<open>RT_EOK\<close> has put its item at the end, and one that waits or fails has
  found the queue full and has changed nothing in it; a pop that returns an item has taken the first, and otherwise the
  queue was empty. Another size, which \<^verbatim>\<open>rt_data_queue_init\<close> accepts, loses items (\<open>dq_size_no_power\<close>, \<open>dq_size_three\<close>).\<close>

theorem data_queue_push_pop:
  assumes "kinv s" "self_ready s" "unat (dq_size (data_queues s x)) = 2 ^ k" "k \<le> 15"
    and "dq_ok (data_queues s x)" "dq_in_step (data_queues s x)"
  shows "(rt_data_queue_push (isr_notify tab) x v timeout s = Some (out, s1) \<longrightarrow> dq_ok (data_queues s1 x) \<and>
      dq_size (data_queues s1 x) = dq_size (data_queues s x) \<and>
      dq_list (data_queues s1 x) =
        (if out = Dq_returned True RT_EOK then dq_list (data_queues s x) @ [v] else dq_list (data_queues s x)) \<and>
      (out \<noteq> Dq_returned True RT_EOK \<longrightarrow> dq_len (data_queues s x) = unat (dq_size (data_queues s x)))) \<and>
    (rt_data_queue_pop (isr_notify tab) x timeout s = Some (out', s2) \<longrightarrow> dq_ok (data_queues s2 x) \<and>
      dq_size (data_queues s2 x) = dq_size (data_queues s x) \<and>
      (case dq_list (data_queues s x) of
         [] \<Rightarrow> data_queues s2 = data_queues s \<and> (out' = Dq_returned True (- RT_ETIMEOUT, None) \<or> (\<exists>t. out' = Dq_blocked t))
       | w # ws \<Rightarrow> dq_list (data_queues s2 x) = ws \<and>
           (out' = Dq_notify (RT_EOK, Some w) \<or> (\<exists>b. out' = Dq_returned b (RT_EOK, Some w)))))"
proof -
  have ring: "dq_ring (data_queues s x)" by (rule dq_ringI [OF assms(3,4,5)])
  show ?thesis
    using isr_dq.push_items [OF _ assms(1) self_waiter [OF assms(2)] ring assms(6)]
      isr_dq.pop_items [OF _ assms(1) self_waiter [OF assms(2)] ring] dq_ring_ok
    unfolding rt_data_queue_push_def rt_data_queue_pop_def by blast
qed

theorem data_queue_push_pop_witness:
  "\<exists>s1. rt_data_queue_push (isr_notify no_user_timers) 1 (42, 4) 0 demo_drv = Some (Dq_returned True RT_EOK, s1) \<and>
     dq_list (data_queues s1 1) = [(42, 4)]"
proof -
  have i: "get_index (data_queues demo 1) = 0" "put_index (data_queues demo 1) = 0" "evt_notify (data_queues demo 1) = None"
    "elems (tlists demo) (Pop_wait 1) = []" by code_simp+
  obtain s1 where op: "rt_data_queue_push (isr_notify no_user_timers) 1 (42, 4) 0 demo_drv = Some (Dq_returned True RT_EOK, s1)"
    using i by (auto simp: rt_data_queue_push_def push_loop_def demo_drv_def dq_full_def dq_put_def dq_slot_def call_notify_def)
  have "unat (dq_size (data_queues demo_drv 1)) = 2 ^ 1" by (simp add: demo_drv_def)
  from data_queue_push_pop [OF kinv_demo_drv demo_drv_self this _ dq_ring_ok [OF demo_drv_dq(1)] demo_drv_dq(2),
      of no_user_timers] op demo_drv_dq(3)
  show ?thesis by auto
qed

text \<open>C29: A ring buffer whose size is a power of two, of at most 32768 bytes: a put takes as many bytes as there is room for, in
  order behind those that are there, and a get hands out the first bytes, as many as were asked for and are there, as long as
  the indices have not wrapped around or no more is asked for than is there. With another size, which \<^verbatim>\<open>rt_ringbuffer_init\<close>
  accepts, bytes are put over others (\<open>rb_size_24\<close>).\<close>

theorem ring_buffer_put_get:
  assumes "unat (buffer_size rb) = 2 ^ k" "k \<le> 15" "rb_ok rb" "unat len \<le> length ptr" "rb_in_step rb \<or> unat n \<le> rb_len rb"
  shows "(\<exists>m rb'. rt_ringbuffer_put rb ptr len = Some (m, rb') \<and>
      unat m = min (unat len) (unat (buffer_size rb) - rb_len rb) \<and> rb_ok rb' \<and> buffer_size rb' = buffer_size rb \<and>
      rb_items rb' = rb_items rb @ take (unat m) ptr) \<and>
    (\<exists>rb'. rt_ringbuffer_get rb n = Some (take (min (unat n) (rb_len rb)) (rb_items rb), rb') \<and>
      rb_ok rb' \<and> buffer_size rb' = buffer_size rb \<and> rb_items rb' = drop (min (unat n) (rb_len rb)) (rb_items rb))"
  using rb_put [OF rb_ringI [OF assms(1,2,3)] assms(4)] rb_get [OF rb_ringI [OF assms(1,2,3)] assms(5)] rb_ring_ok by metis

theorem ring_buffer_put_get_witness:
  "\<exists>m rb'. rt_ringbuffer_put (rt_ringbuffer_init (replicate 8 0) 8) [1, 2, 3] 3 = Some (m, rb') \<and> rb_items rb' = [1, 2, 3]"
proof -
  have "length (replicate 8 (0 :: u8)) = 2 ^ 3" by simp
  note i = rb_init [OF _ _ this, simplified]
  then have "rb_ok (rt_ringbuffer_init (replicate 8 0) 8)" "rb_in_step (rt_ringbuffer_init (replicate 8 0) 8)"
    "rb_items (rt_ringbuffer_init (replicate 8 0) 8) = []" by (simp_all add: rb_ring_ok)
  moreover have "rb_len (rt_ringbuffer_init (replicate 8 0) 8) = 0" "buffer_size (rt_ringbuffer_init (replicate 8 0) 8) = 8"
    by (simp_all add: rt_ringbuffer_init_def rb_len_def)
  ultimately show ?thesis
    using ring_buffer_put_get [of "rt_ringbuffer_init (replicate 8 0) 8" 3 3 "[1, 2, 3]" 0] by auto
qed

text \<open>C30: A pipe whose buffer has a power of two as its size, of at most 32768 bytes, and whose indices have not wrapped around: a
  write puts into it as many bytes, of the size cut to 16 bits, as there is room for, and waits only
  when this is none; a read takes the first bytes and waits only when there are none. \<^verbatim>\<open>rt_pipe_create\<close> accepts other sizes, with
  which bytes are lost, and after a wrap-around a read hands out bytes that nobody has written (\<open>rb_size_24\<close>, \<open>rb_out_of_step\<close>).\<close>

theorem pipe_read_write:
  assumes "kinv s" "self_ready s" "unat (buffer_size (ringbuffer (pipes s x))) = 2 ^ k" "k \<le> 15"
    and "rb_ok (ringbuffer (pipes s x))" "rb_in_step (ringbuffer (pipes s x))"
    and "unat (ucast sz :: u16) \<le> length buf"
    and "n = min (unat (ucast sz :: u16)) (length (pipe_items s x))"
    and "m = min (unat (ucast sz :: u16)) (unat (buffer_size (ringbuffer (pipes s x))) - length (pipe_items s x))"
  shows "(rt_pipe_read x sz s = Some (out, s1) \<longrightarrow> rb_ok (ringbuffer (pipes s1 x)) \<and>
      pipe_items s1 x = drop n (pipe_items s x) \<and>
      (if n = 0 then \<exists>t. out = Blocked t \<and> rt_current_thread s = Some t
       else out = Returned (word_of_nat n, take n (pipe_items s x)))) \<and>
    (rt_pipe_write x buf sz s = Some (out', s2) \<longrightarrow> rb_ok (ringbuffer (pipes s2 x)) \<and>
      pipe_items s2 x = pipe_items s x @ take m buf \<and>
      (if m = 0 then \<exists>t. out' = Blocked t \<and> rt_current_thread s = Some t else out' = Returned (word_of_nat m)))"
proof (intro conjI impI)
  assume "rt_pipe_read x sz s = Some (out, s1)"
  then have "pipe_read_loop x (rt_current_thread s) sz s = Some (out, s1)"
    by (auto simp: rt_pipe_read_def rt_debug_not_in_interrupt_def rt_thread_self_def split: if_splits)
  from pipe_read_items [OF this assms(1) _ rb_ringI [OF assms(3,4,5)] assms(6)] self_waiter [OF assms(2)]
  show "rb_ok (ringbuffer (pipes s1 x))" "pipe_items s1 x = drop n (pipe_items s x)"
    "if n = 0 then \<exists>t. out = Blocked t \<and> rt_current_thread s = Some t
       else out = Returned (word_of_nat n, take n (pipe_items s x))"
    unfolding assms(8) by (simp_all add: rt_thread_self_def rb_ring_ok)
next
  assume "rt_pipe_write x buf sz s = Some (out', s2)"
  then have "pipe_write_loop x (rt_current_thread s) buf sz s = Some (out', s2)"
    by (auto simp: rt_pipe_write_def rt_debug_not_in_interrupt_def rt_thread_self_def split: if_splits)
  from pipe_write_items [OF this assms(1) _ rb_ringI [OF assms(3,4,5)] assms(7)] self_waiter [OF assms(2)]
  show "rb_ok (ringbuffer (pipes s2 x))" "pipe_items s2 x = pipe_items s x @ take m buf"
    "if m = 0 then \<exists>t. out' = Blocked t \<and> rt_current_thread s = Some t else out' = Returned (word_of_nat m)"
    unfolding assms(9) by (simp_all add: rt_thread_self_def rb_ring_ok)
qed

theorem pipe_read_write_witness:
  "\<exists>s2. rt_pipe_write 1 [1, 2, 3] 3 demo_drv = Some (Returned 3, s2) \<and> pipe_items s2 1 = [1, 2, 3]"
proof -
  have sz: "unat (buffer_size (ringbuffer (pipes demo_drv 1))) = 16"
    by (simp add: demo_drv_def rt_ringbuffer_init_def)
  have idle: "rt_interrupt_nest demo = 0" "elems (tlists demo) (Pipe_read_wait 1) = []" by code_simp+
  have len: "rb_len (ringbuffer (pipes demo_drv 1)) = 0" by (simp add: demo_drv_def rt_ringbuffer_init_def rb_len_def)
  obtain m rb where "rt_ringbuffer_put (ringbuffer (pipes demo_drv 1)) [1, 2, 3] (ucast (3 :: u32)) = Some (m, rb)" "unat m = 3"
    using rb_put [OF demo_drv_pipe(1), of "ucast (3 :: u32)" "[1, 2, 3]"] sz len by auto
  moreover from this(2) have "m \<noteq> 0" by auto
  ultimately obtain out s2 where op: "rt_pipe_write 1 [1, 2, 3] 3 demo_drv = Some (out, s2)"
    using idle by (auto simp: rt_pipe_write_def pipe_write_loop_def pipe_wake_def rt_debug_not_in_interrupt_def demo_drv_def)
  have "(3 :: nat) = min (unat (ucast (3 :: u32) :: u16)) (unat (buffer_size (ringbuffer (pipes demo_drv 1))) - length (pipe_items demo_drv 1))"
    "0 = min (unat (ucast (3 :: u32) :: u16)) (length (pipe_items demo_drv 1))" "unat (ucast (3 :: u32) :: u16) \<le> length [1, 2, 3 :: u8]"
    using sz demo_drv_pipe(3) by simp_all
  note h = this
  have p: "unat (buffer_size (ringbuffer (pipes demo_drv 1))) = 2 ^ 4" "(4 :: nat) \<le> 15" using sz by simp_all
  note pipe_read_write [OF kinv_demo_drv demo_drv_self p rb_ring_ok [OF demo_drv_pipe(1)] demo_drv_pipe(2) h(3,2,1),
      THEN conjunct2, rule_format, OF op]
  then have "out = Returned (word_of_nat 3)" "pipe_items s2 1 = pipe_items demo_drv 1 @ take 3 [1, 2, 3]" by simp_all
  then show ?thesis using op demo_drv_pipe(3) by simp
qed

text \<open>C31: A pipe that was created can never be opened through the device interface: \<^verbatim>\<open>rt_device_open\<close> calls the
  function \<^verbatim>\<open>init\<close> of the device, which for a pipe is a null pointer.\<close>

theorem pipe_open_faults:
  assumes "rt_pipe_create nm sz s = Some (RT_EOK, s')"
  shows "\<exists>d. elems (obj_lists s') RT_Object_Class_Device = Device_o d # elems (obj_lists s) RT_Object_Class_Device \<and>
    dev_read (devices s' d) = Some Rt_pipe_read \<and> rt_device_open ops d oflag s' = None"
  by (rule pipe_never_opens [OF assms])

theorem pipe_open_faults_witness:
  "\<exists>s' d. rt_pipe_create [112] 16 demo_roomy = Some (RT_EOK, s') \<and> rt_device_open no_driver d 3 s' = None"
proof -
  obtain s' where "rt_pipe_create [112] 16 demo_roomy = Some (RT_EOK, s')" using demo_roomy_pipe by blast
  with pipe_open_faults [OF this] show ?thesis by blast
qed

text \<open>C32: \<^verbatim>\<open>rt_device_init_all\<close> calls the functions \<^verbatim>\<open>init\<close> of just those listed devices that have one and are not yet
  activated, each once, in the order of the list, and returns \<^verbatim>\<open>RT_EOK\<close> whatever they return (or does not return, if one of them
  does not). Afterwards the devices are activated whose function has returned \<^verbatim>\<open>RT_EOK\<close>, and no flag of a device has changed
  otherwise. This is for functions that register and unregister no devices and leave the flags and the functions \<^verbatim>\<open>init\<close> of devices
  alone.\<close>

theorem devices_initialised:
  assumes "init_local ops" "wf_lists (obj_lists s)" "elems (obj_lists s) RT_Object_Class_Device = map Device_o ds"
  shows "case init_calls ops (filter (needs_init s) ds) s of
      None \<Rightarrow> rt_device_init_all ops s = None
    | Some (log, s') \<Rightarrow> rt_device_init_all ops s = Some (RT_EOK, s') \<and> map fst log = filter (needs_init s) ds \<and>
        (\<forall>d. dev_flag (devices s' d) =
          (if (d, RT_EOK) \<in> set log then dev_flag (devices s d) OR RT_DEVICE_FLAG_ACTIVATED else dev_flag (devices s d)))"
  using init_all_devices [OF assms] init_calls_flags [OF assms(1)] by (auto split: option.split)

text \<open>Of three devices, one is active already, and the function of another fails.\<close>

theorem devices_initialised_witness:
  "\<exists>s'. rt_device_init_all lazy_driver demo_devices = Some (RT_EOK, s') \<and>
     dev_flag (devices s' 1) = RT_DEVICE_FLAG_ACTIVATED \<and> dev_flag (devices s' 2) = 0 \<and>
     dev_flag (devices s' 3) = RT_DEVICE_FLAG_ACTIVATED"
proof -
  have "wf_lists (obj_lists demo_devices)" using kinv_demo_devices by (simp add: kinv_def)
  moreover have "elems (obj_lists demo_devices) RT_Object_Class_Device = map Device_o [3, 2, 1]" by code_simp
  ultimately have c: "case init_calls lazy_driver (filter (needs_init demo_devices) [3, 2, 1]) demo_devices of
      None \<Rightarrow> rt_device_init_all lazy_driver demo_devices = None
    | Some (log, s') \<Rightarrow> rt_device_init_all lazy_driver demo_devices = Some (RT_EOK, s') \<and>
        map fst log = filter (needs_init demo_devices) [3, 2, 1] \<and>
        (\<forall>d. dev_flag (devices s' d) =
          (if (d, RT_EOK) \<in> set log then dev_flag (devices demo_devices d) OR RT_DEVICE_FLAG_ACTIVATED
           else dev_flag (devices demo_devices d)))"
    by (rule devices_initialised [OF lazy_driver_local])
  have "map_option fst (init_calls lazy_driver (filter (needs_init demo_devices) [3, 2, 1]) demo_devices) =
      Some [(2, - RT_ERROR), (1, RT_EOK)]" by code_simp
  then obtain s' where l: "init_calls lazy_driver (filter (needs_init demo_devices) [3, 2, 1]) demo_devices =
      Some ([(2, - RT_ERROR), (1, RT_EOK)], s')" by auto
  have f: "dev_flag (devices demo_devices 1) = 0" "dev_flag (devices demo_devices 2) = 0"
    "dev_flag (devices demo_devices 3) = RT_DEVICE_FLAG_ACTIVATED" by code_simp+
  have "rt_device_init_all lazy_driver demo_devices = Some (RT_EOK, s')"
    "dev_flag (devices s' d) =
      (if (d, RT_EOK) \<in> set [(2, - RT_ERROR), (1, RT_EOK)] then dev_flag (devices demo_devices d) OR RT_DEVICE_FLAG_ACTIVATED
       else dev_flag (devices demo_devices d))" for d
    using c unfolding l option.case prod.case by blast+
  then show ?thesis using f by (auto simp: RT_ERROR_def RT_EOK_def)
qed

section \<open>Memory, strings and formatted output\<close>

text \<open>C33: The loops over words of \<^verbatim>\<open>rt_memset\<close> and \<^verbatim>\<open>rt_memcpy\<close> do the same as the loops over bytes that the kernel has
  for small memory, and \<^verbatim>\<open>rt_memmove\<close> moves the bytes also between regions that overlap.\<close>

theorem memory_functions:
  "rt_memset d c n m = rt_memset_tiny d c n m \<and> rt_memcpy d r n m = rt_memcpy_tiny d r n m \<and>
   rt_memmove d r n m = (\<lambda>a. if d \<le> a \<and> a < d + n then m (r + (a - d)) else m a)"
  using memset_eq_tiny memcpy_eq_tiny memmove_moved by (simp add: moved_def)

text \<open>C34: \<^verbatim>\<open>rt_snprintf\<close> into a buffer of at least one byte writes nothing outside the buffer, and leaves in it the text that the
  format and its arguments stand for, cut where the buffer ends, and a zero behind it; it has no result when an argument is missing
  or of the wrong kind. It returns the length of the whole text when this fits; when it is cut, the length counts one byte too many for
  at most each number that has a sign and is filled up behind it.\<close>

theorem snprintf_text:
  assumes "sz \<noteq> 0" "buf + unat sz \<le> 2 ^ 32"
  shows "case format_items fmt args of
      None \<Rightarrow> rt_snprintf buf sz fmt args m = None
    | Some cvs \<Rightarrow> \<exists>k m'. rt_snprintf buf sz fmt args m = Some (word_of_nat (length (format_text cvs) + k), m') \<and>
        k \<le> length (filter miscounted cvs) \<and> (length (format_text cvs) < unat sz \<longrightarrow> k = 0) \<and>
        bytes m' buf (min (length (format_text cvs)) (unat sz - 1)) = take (unat sz - 1) (format_text cvs) \<and>
        m' (buf + min (length (format_text cvs)) (unat sz - 1)) = 0 \<and>
        (\<forall>a. a < buf \<or> buf + unat sz \<le> a \<longrightarrow> m' a = m a)"
  using vsnprintf_items [OF assms, of fmt args m] unfolding rt_snprintf_def text_in_buffer_def .

text \<open>The text \<^verbatim>\<open>n=-12345\<close>, cut to five bytes.\<close>

theorem snprintf_text_witness:
  "\<exists>m'. rt_snprintf 100 6 (map of_char ''n=%d'') [Arg_int (- 12345)] (\<lambda>_. 7) = Some (8, m') \<and>
     bytes m' 100 5 = map of_char ''n=-12'' \<and> m' 105 = 0 \<and> m' 106 = 7"
proof -
  let ?cvs = "[Text [110], Text [61], Number 10 (- 1) (- 1) SIGN (- 12345)]"
  have i: "format_items (map of_char ''n=%d'') [Arg_int (- 12345)] = Some ?cvs"
    by (simp add: read_conversion_def parse_width_def parse_precision_def parse_qualifier_def isdigit_def read_number_def Let_def)
  have t: "format_text ?cvs = map of_char ''n=-12345''" "filter miscounted ?cvs = []"
    by (simp_all add: format_text_def spelled_number_def sign_text_def SIGN_def LEFT_def PLUS_def LARGE_def ZEROPAD_def
        nat_digits.simps small_digits_def Let_def)
  have five: "Suc (Suc (Suc (Suc (Suc 0)))) = 5" by simp
  from snprintf_text [of 6 100 "map of_char ''n=%d''" "[Arg_int (- 12345)]" "\<lambda>_. 7"] show ?thesis
    unfolding i option.case t by (auto simp: five)
qed

text \<open>C35: What \<^verbatim>\<open>rt_snprintf\<close> prints for \<^verbatim>\<open>%d\<close> into a buffer with room for it is the number: read back, it gives the
  argument as a signed number.\<close>

theorem decimal_round_trip:
  assumes "12 \<le> unat sz" "buf + unat sz \<le> 2 ^ 32"
  shows "\<exists>n m'. rt_snprintf buf sz (map of_char ''%d'') [Arg_int w] m = Some (n, m') \<and>
    read_decimal (bytes m' buf (unat n)) = sint w \<and> m' (buf + unat n) = 0"
  by (rule snprintf_decimal [OF assms])

theorem decimal_round_trip_witness:
  "\<exists>n m'. rt_snprintf 100 12 (map of_char ''%d'') [Arg_int (- 42)] (\<lambda>_. 0) = Some (n, m') \<and>
     read_decimal (bytes m' 100 (unat n)) = - 42"
  using decimal_round_trip [of 12 100 "- 42" "\<lambda>_. 0"] by auto

text \<open>C36: \<^verbatim>\<open>rt_kprintf\<close> of a text that does not fit its buffer hands to the console device the length of the whole
  text, and with it bytes from behind the buffer, which the call has not written.\<close>

theorem console_reads_past_buffer:
  assumes "ch (CHR ''%'') \<notin> set fmt" "128 \<le> length fmt" "length fmt < 2 ^ 32" "buf + 128 \<le> 2 ^ 32"
  shows "\<exists>m'. rt_kprintf ops buf (Some d) fmt args m s =
      Option.bind (rt_device_write ops d 0 (bytes m' buf (length fmt)) (word_of_nat (length fmt)) s) (\<lambda>(_, s). Some (m', s)) \<and>
    (\<forall>a. buf + 128 \<le> a \<longrightarrow> m' a = m a) \<and> bytes m' buf 127 = take 127 fmt"
  by (rule kprintf_overread [OF assms])

theorem console_reads_past_buffer_witness:
  "\<exists>m'. rt_kprintf no_driver 256 (Some 1) (replicate 200 65) [] (\<lambda>_. 7) demo =
      Option.bind (rt_device_write no_driver 1 0 (bytes m' 256 200) 200 demo) (\<lambda>(_, s). Some (m', s)) \<and> m' 400 = 7"
  using console_reads_past_buffer [of "replicate 200 65" 256 no_driver 1 "[]" "\<lambda>_. 7" demo] by auto

text \<open>C37: On a well-formed heap, for an alignment that is a power of two from 4 to 2 ^ 30 and a size which together with it is below
  2 ^ 31, \<^verbatim>\<open>rt_malloc_align\<close> returns 0 and changes nothing, or an address that is a multiple of the
  alignment, in a new block with room for the size that was asked for; \<^verbatim>\<open>rt_free_align\<close> gives this block back. The function
  checks neither condition (\<open>malloc_align_twelve\<close>, \<open>malloc_align_wraps\<close>).\<close>

theorem malloc_aligned:
  assumes "heap_wf h" "2 \<le> k" "k \<le> 30" "unat sz + 2 ^ k < 2 ^ 31"
  shows "\<exists>a h'. rt_malloc_align sz (2 ^ k) h = Some (a, h') \<and> heap_wf h' \<and>
    (a = 0 \<and> h' = h \<or>
     (\<exists>p. 2 ^ k dvd a \<and> p + 4 \<le> a \<and> a + unat sz \<le> p + heap_room h' p \<and>
        p \<notin> heap_live h \<and> heap_live h' = insert p (heap_live h) \<and> rt_free_align a h' = rt_free p h'))"
  by (rule malloc_align_ok [OF assms])

theorem malloc_aligned_witness: "\<exists>a h'. rt_malloc_align 20 16 demo_heap = Some (a, h') \<and> 16 dvd a \<and> heap_wf h'"
  using malloc_aligned [OF demo_heap_wf, of 4 20] by auto

text \<open>C38: A line of the shell is scanned, parsed, compiled and run, and computes what its statements say: written out with spaces
  between the tokens, any statements with operands of sufficient width, names that are found, no parentheses around operands, and code and
  tree that fit leave the value of the last one at the bottom of the stack, in the bytes of its type, and the memory that they
  leave; no error is set, and the nodes are given back.\<close>

theorem shell_line_computes:
  assumes "keeps_memory call" "\<forall>e \<in> set es. writable (shell s) e \<and> well_typed vs e" "\<forall>x \<in> set (statement_items vs es). spellable x"
    "vs = global_variable (shell s)" "nodes_used (shell s) = 0" "global_errno (shell s) = 0" "sum_list (map nodes es) \<le> FINSH_NODE_MAX"
    "eval_line call gv vs es (finsh_mem (vm (shell s))) = Some (v, m')" "mapped gv vs (finsh_mem (vm (shell s)))"
    "length (finsh_vm_stack (vm (shell s))) = FINSH_STACK_MAX" "line_depth es \<le> FINSH_STACK_MAX"
    "length (line_code gv vs es) \<le> FINSH_TEXT_MAX"
  shows "\<exists>x s1. finsh_run_line call gv (spelled (statement_items vs es)) s = Some (Result x, s1) \<and>
    low_bytes (supplied vs (last es)) x = v \<and> finsh_mem (vm (shell s1)) = m' \<and>
    global_errno (shell s1) = 0 \<and> nodes_used (shell s1) = 0"
proof -
  have "es \<noteq> []" using assms(8) by auto
  from statements_scanned [OF assms(3) this] show ?thesis
    using line_reported [of call es s] assms by simp
qed

theorem shell_line_computes_witness:
  "\<exists>s1. finsh_run_line example_functions 0x20000000 ''i = 6 * 7 + 1 ; add ( i , 2 ) ; '' example_parser = Some (Result 45, s1) \<and>
     finsh_mem (vm (shell s1)) 0x20000014 = Some 43"
proof -
  have "supplied example_vars (last example_line) = 4" by (simp add: example_line_def)
  then show ?thesis
    using shell_line_computes [of example_functions example_line example_parser example_vars "0x20000000" 45
        "(\<lambda>a. Some 0)(0x20000014 \<mapsto> 43, 0x20000015 \<mapsto> 0, 0x20000016 \<mapsto> 0, 0x20000017 \<mapsto> 0)"]
      example_functions_keep example_writable example_typed example_spellable example_variables example_nodes example_value
      example_mapped example_length
    by (auto simp: example_text FINSH_NODE_MAX_def)
qed

text \<open>C39: What is spelled is parsed: of the text of statements the parser makes their trees, with the operators grouped by
  their levels and from the left, linked in the order of the statements, and sets no error.\<close>

theorem shell_parse_round_trip:
  assumes "\<forall>e \<in> set es. writable (shell s) e" "\<forall>x \<in> set (statement_items (global_variable (shell s)) es). spellable x" "es \<noteq> []"
    "nodes_used (shell s) + sum_list (map nodes es) \<le> FINSH_NODE_MAX"
  shows "\<exists>s1. finsh_parser_run (spelled (statement_items (global_variable (shell s)) es)) s = Some (line_node es, s1) \<and>
    shell s1 = (shell s)\<lparr>nodes_used := nodes_used (shell s) + sum_list (map nodes es)\<rparr>"
  using spelled_statements_parsed [OF assms] by (auto simp: more_nodes_def)

theorem shell_parse_round_trip_witness:
  "\<exists>s1. finsh_parser_run ''i = 6 * 7 + 1 ; add ( i , 2 ) ; '' example_parser = Some (line_node example_line, s1) \<and>
     global_errno (shell s1) = 0"
  using shell_parse_round_trip [of example_line example_parser] example_writable example_spellable example_variables example_nodes
    FINSH_NODE_MAX_def
  by (force simp: example_text [symmetric] example_line_def)

text \<open>C40: The compiler does not look whether the text segment is full: a line whose tree fits the table of nodes, but whose code is
  longer than 128 bytes, is written past the end of the segment (no result here).\<close>

theorem shell_text_overflows:
  assumes "\<forall>e \<in> set es. writable (shell s) e \<and> well_typed vs e" "\<forall>x \<in> set (statement_items vs es). spellable x"
    "vs = global_variable (shell s)" "nodes_used (shell s) = 0" "global_errno (shell s) = 0" "sum_list (map nodes es) \<le> FINSH_NODE_MAX"
    "FINSH_TEXT_MAX < length (line_code gv vs es)"
  shows "finsh_run_line call gv (spelled (statement_items vs es)) s = None"
proof -
  have "es \<noteq> []" using assms(7) by auto
  from statements_scanned [OF assms(2) this] show ?thesis
    using line_overflows [of es s] assms by simp
qed

theorem shell_text_overflows_witness:
  "finsh_run_line example_functions 0x20000000 (spelled (statement_items example_vars six_increments)) example_parser = None"
  using shell_text_overflows [of six_increments example_parser example_vars "0x20000000"]
    example_writable example_typed example_spellable example_variables example_nodes increments_length FINSH_NODE_MAX_def FINSH_TEXT_MAX_def
  by auto

end
